(* ===== verification/Wf_Prelude.thy ===== *)
theory Wf_Prelude
  imports Main "HOL-Library.Word" "HOL-Library.Char_ord" "HOL-Library.List_Lexorder"
begin

text \<open>
  The prelude of the development: undefined behaviour as a value, the sequencing of
  operations that may run into it, C strings and byte buffers, and the collections of
  simplification rules that the component theories fill.
\<close>

section \<open>Collections\<close>

named_theorems res_simps
  \<open>rules that take a sequence of operations that may fault apart\<close>

named_theorems frame_simps
  \<open>which fields of the state an operation leaves as they were\<close>

section \<open>Undefined behaviour as a value\<close>

text \<open>
  A C function of the program returns a value (an error code among them) or runs into
  undefined behaviour, which is a value of its own here. So is the end of the process in a
  call of \<open>exit\<close> (\<open>Exit\<close>). \<open>Diverge\<close> is the value of a loop that has used up its fuel.
\<close>

datatype fault =
    NullDeref
  | DanglingDeref
  | UninitRead
  | OutOfBounds
  | AssertFail
  | Overflow
  | Exit int
  | Diverge

type_synonym 'a res = "fault + 'a"

text \<open>Run an operation and go on with its result, unless it faults.\<close>

definition andThen :: "'a res \<Rightarrow> ('a \<Rightarrow> 'b res) \<Rightarrow> 'b res" where
  "andThen r k = (case r of Inl f \<Rightarrow> Inl f | Inr x \<Rightarrow> k x)"

lemma andThen_Inl [simp, res_simps]: "andThen (Inl f) k = Inl f"
  by (simp add: andThen_def)

lemma andThen_Inr [simp, res_simps]: "andThen (Inr x) k = k x"
  by (simp add: andThen_def)

lemma andThen_eq_Inr [res_simps]:
  "andThen r k = Inr y \<longleftrightarrow> (\<exists>x. r = Inr x \<and> k x = Inr y)"
  by (cases r) simp_all

lemma andThen_eq_Inl [res_simps]:
  "andThen r k = Inl f \<longleftrightarrow> r = Inl f \<or> (\<exists>x. r = Inr x \<and> k x = Inl f)"
  by (cases r) auto

text \<open>Read a typed object through a pointer that may be NULL or dangling.\<close>

definition deref :: "('a \<rightharpoonup> 'b) \<Rightarrow> 'a option \<Rightarrow> ('a \<times> 'b) res" where
  "deref h p = (case p of None \<Rightarrow> Inl NullDeref
     | Some a \<Rightarrow> (case h a of None \<Rightarrow> Inl DanglingDeref | Some x \<Rightarrow> Inr (a, x)))"

lemma deref_None [simp]: "deref h None = Inl NullDeref"
  by (simp add: deref_def)

lemma deref_Some [simp]: "h a = Some x \<Longrightarrow> deref h (Some a) = Inr (a, x)"
  by (simp add: deref_def)

lemma deref_dangling [simp]: "h a = None \<Longrightarrow> deref h (Some a) = Inl DanglingDeref"
  by (simp add: deref_def)

lemma deref_eq_Inr [res_simps]:
  "deref h p = Inr ax \<longleftrightarrow> p = Some (fst ax) \<and> h (fst ax) = Some (snd ax)"
  by (cases ax) (auto simp: deref_def split: option.splits)

section \<open>C strings\<close>

text \<open>
  A C string is the list of its characters, without the terminating NUL. \<open>strcmp\<close> compares
  the characters as \<open>unsigned char\<close>; only the sign of its result is specified, and the
  program uses nothing else of it.
\<close>

fun strcmp :: "string \<Rightarrow> string \<Rightarrow> int" where
  "strcmp [] [] = 0"
| "strcmp [] (y # ys) = -1"
| "strcmp (x # xs) [] = 1"
| "strcmp (x # xs) (y # ys) =
     (if x = y then strcmp xs ys
      else if (of_char x :: nat) < of_char y then -1 else 1)"

lemma strcmp_eq_0 [simp]: "strcmp xs ys = 0 \<longleftrightarrow> xs = ys"
  by (induction xs ys rule: strcmp.induct) auto

text \<open>The sign of \<open>strcmp\<close> is the lexicographic order of the library on lists.\<close>

lemma strcmp_less_0 [simp]: "strcmp xs ys < 0 \<longleftrightarrow> xs < ys"
  by (induction xs ys rule: strcmp.induct) (auto simp: less_char_def)

text \<open>\<open>strchr(s, c)\<close>: the index of the first \<open>c\<close>, or NULL.\<close>

fun strchr :: "string \<Rightarrow> char \<Rightarrow> nat option" where
  "strchr [] c = None"
| "strchr (x # xs) c = (if x = c then Some 0 else map_option Suc (strchr xs c))"

lemma strchr_None: "strchr s c = None \<longleftrightarrow> c \<notin> set s"
  by (induction s) auto

lemma strchr_append: "c \<notin> set xs \<Longrightarrow> strchr (xs @ c # ys) c = Some (length xs)"
  by (induction xs) auto

lemma strchr_SomeD:
  "strchr s c = Some i \<Longrightarrow> i < length s \<and> s ! i = c \<and> c \<notin> set (take i s)"
proof (induction s arbitrary: i)
  case Nil
  then show ?case by simp
next
  case (Cons x xs)
  then show ?case by (cases i) (auto split: if_splits)
qed

text \<open>
  \<open>strncpy(dst, s, n)\<close> writes exactly \<open>n\<close> characters: the first \<open>n\<close> of \<open>s\<close>, filled up with
  NULs when \<open>s\<close> is shorter, and no NUL at all when it is not.
\<close>

definition strncpy :: "nat \<Rightarrow> string \<Rightarrow> string" where
  "strncpy n s = take n s @ replicate (n - length s) (CHR 0x00)"

lemma length_strncpy [simp]: "length (strncpy n s) = n"
  by (simp add: strncpy_def)

text \<open>The string a reader of a character buffer sees: up to the first NUL.\<close>

definition cstring :: "string \<Rightarrow> string" where
  "cstring buf = takeWhile (\<lambda>c. c \<noteq> CHR 0x00) buf"

lemma cstring_strncpy:
  assumes "CHR 0x00 \<notin> set s"
  shows "cstring (strncpy n s) = take n s"
proof -
  have all: "\<forall>c \<in> set (take n s). c \<noteq> CHR 0x00"
    using assms by (auto dest: in_set_takeD)
  have "takeWhile (\<lambda>c. c \<noteq> CHR 0x00) (take n s @ ys) = take n s @ takeWhile (\<lambda>c. c \<noteq> CHR 0x00) ys"
    for ys
    using all by (simp add: takeWhile_append)
  with all show ?thesis by (cases "n - length s") (auto simp: cstring_def strncpy_def)
qed

section \<open>Byte buffers\<close>

text \<open>
  Machine words, and the contents of a block of memory: \<open>None\<close> is an indeterminate byte. A read past the end of
  the block yields indeterminate bytes as well (\<open>peek\<close>); it is used where the code does such a read and
  the theorems say so, elsewhere the read is guarded. A write past the end is a fault.
\<close>

type_synonym byte = "8 word"
type_synonym bytes = "byte option list"
type_synonym u32 = "32 word"
type_synonym size_t = "64 word"

definition peek :: "bytes \<Rightarrow> nat \<Rightarrow> nat \<Rightarrow> bytes" where
  "peek bs off n =
     take n (drop off bs) @ replicate (n - (length bs - off)) None"

definition poke :: "bytes \<Rightarrow> nat \<Rightarrow> bytes \<Rightarrow> bytes res" where
  "poke bs off xs =
     (if off + length xs \<le> length bs
      then Inr (take off bs @ xs @ drop (off + length xs) bs)
      else Inl OutOfBounds)"

lemma length_peek [simp]: "length (peek bs off n) = n"
  by (simp add: peek_def)

lemma peek_all [simp]: "n = length bs \<Longrightarrow> peek bs 0 n = bs"
  by (simp add: peek_def)

lemma peek_append:
  "peek (xs @ ys) (length xs) (length ys + k) = ys @ replicate k None"
  by (simp add: peek_def)

lemma poke_all: "length xs = n \<Longrightarrow> poke (replicate n z) 0 xs = Inr xs"
  by (simp add: poke_def)

lemma poke_at_end:
  "length xs = n \<Longrightarrow> poke (replicate (k + n) z) k xs = Inr (replicate k z @ xs)"
  by (simp add: poke_def)

text \<open>Blocks of which a part is taken each: all of it exactly when every part is its whole block.\<close>

lemma concat_take_all:
  "length xss = length ns \<Longrightarrow>
   concat (map2 (\<lambda>xs n. take (nat n) xs) xss ns) = concat xss \<longleftrightarrow> list_all2 (\<lambda>xs n. length xs \<le> nat n) xss ns"
proof (induction xss ns rule: list_induct2)
  case (Cons xs xss n ns)
  have le: "length (concat (map2 (\<lambda>xs n. take (nat n) xs) us vs)) \<le> length (concat us)" for us :: "'a list list" and vs
  proof (induction us arbitrary: vs)
    case (Cons u us)
    show ?case by (cases vs) (use Cons in \<open>auto intro: add_mono\<close>)
  qed simp
  show ?case
  proof
    assume eq: "concat (map2 (\<lambda>xs n. take (nat n) xs) (xs # xss) (n # ns)) = concat (xs # xss)"
    have "length (take (nat n) xs @ concat (map2 (\<lambda>xs n. take (nat n) xs) xss ns)) = length (xs @ concat xss)"
      by (rule arg_cong [where f = length]) (use eq in simp)
    then have "length xs \<le> nat n"
      unfolding length_append length_take using le [of xss ns] by linarith
    with eq Cons.IH show "list_all2 (\<lambda>xs n. length xs \<le> nat n) (xs # xss) (n # ns)" by simp
  qed (use Cons.IH in simp)
qed simp

lemma poke_length: "poke bs off xs = Inr bs' \<Longrightarrow> length bs' = length bs"
  by (auto simp: poke_def split: if_splits)

end
