(* ===== verification/C_Env.thy ===== *)
theory C_Env
  imports Wf_Prelude
begin

text \<open>
  What the program asks of its surroundings and what it does to them. The answers of the C
  library, the kernel and libwebsockets are a parameter \<open>env\<close> of the model, indexed by the
  number of calls made so far (the field \<open>tick\<close> of the state), so that a theorem over every
  \<open>env\<close> is a theorem over every behaviour of the surroundings. What the program does to them
  is the list \<open>log\<close> of its calls, oldest first.
\<close>

section \<open>Identifiers\<close>

text \<open>
  The address of an object of the C heap. A block gets the number of the call of \<open>malloc\<close> that
  returned it as its address, so an address is never used twice and a pointer to a freed block
  stays recognisable.
\<close>

type_synonym addr = nat

text \<open>A connection object of libwebsockets (\<open>struct lws *\<close>).\<close>

type_synonym wsi = nat

text \<open>The values of \<open>lws_adoption_type\<close> the program uses; the second is the literal 0.\<close>

datatype adoption = LWS_ADOPT_RAW_FILE_DESC | Adoption_0

section \<open>The calls that reach the outside\<close>

text \<open>
  \<^item> \<open>IoSocket fd\<close>, \<open>IoConnect fd path rc\<close>, \<open>IoRead fd bytes\<close>, \<open>IoWrite fd bytes rc\<close>,
    \<open>IoClose fd\<close>: the system calls on a daemon socket with their results;
  \<^item> \<open>IoCollision fd\<close>: the message printed about a descriptor that is in the dictionary already;
  \<^item> \<open>LwsWritable w\<close>: \<open>lws_callback_on_writable\<close>; \<open>LwsAdopt fd type name parent w\<close>:
    \<open>lws_adopt_descriptor_vhost\<close> with its result; \<open>LwsOpaque w conn\<close>:
    \<open>lws_set_opaque_user_data\<close>; \<open>LwsInsert p\<close>, \<open>LwsRemove p\<close>: the list macros of libwebsockets
    on the list of live sessions; \<open>LwsFrame w bytes rc\<close>: \<open>lws_write\<close>; \<open>LwsErr n\<close>: \<open>lwsl_err\<close>.
\<close>

datatype io =
    IoSocket int
  | IoConnect int string int
  | IoRead int "byte list option"
  | IoWrite int bytes int
  | IoClose int
  | IoCollision int
  | LwsWritable "wsi option"
  | LwsAdopt int adoption string wsi "wsi option"
  | LwsOpaque "wsi option" "addr option"
  | LwsInsert addr
  | LwsRemove addr
  | LwsFrame wsi bytes int
  | LwsErr int

section \<open>The answers of the outside\<close>

text \<open>
  \<^item> \<open>e_malloc\<close>: whether an allocation succeeds; \<open>e_junk\<close>: what an \<open>int\<close> of a fresh block holds;
  \<^item> \<open>e_stat\<close>: \<open>None\<close> when \<open>stat(2)\<close> fails, else whether the file is a socket;
  \<^item> \<open>e_socket\<close>, \<open>e_connect\<close>, \<open>e_write\<close>: the results of \<open>socket(2)\<close>, \<open>connect(2)\<close>, \<open>write(2)\<close>;
  \<^item> \<open>e_read\<close>: \<open>None\<close> when \<open>read(2)\<close> fails, else the bytes that are waiting, of which it takes
    as many as fit;
  \<^item> \<open>e_partial\<close>, \<open>e_choked\<close>: \<open>lws_partial_buffered\<close> and \<open>lws_send_pipe_choked\<close>;
  \<^item> \<open>e_lws_write\<close>, \<open>e_adopt\<close>: the results of \<open>lws_write\<close> and \<open>lws_adopt_descriptor_vhost\<close>;
  \<^item> \<open>e_lws_pre\<close>: the constant \<open>LWS_PRE\<close> of the installed libwebsockets.
\<close>

record env =
  e_malloc :: "nat \<Rightarrow> bool"
  e_junk :: "nat \<Rightarrow> int"
  e_stat :: "nat \<Rightarrow> string \<Rightarrow> bool option"
  e_socket :: "nat \<Rightarrow> int"
  e_connect :: "nat \<Rightarrow> int"
  e_read :: "nat \<Rightarrow> byte list option"
  e_write :: "nat \<Rightarrow> int"
  e_partial :: "nat \<Rightarrow> bool"
  e_choked :: "nat \<Rightarrow> bool"
  e_lws_write :: "nat \<Rightarrow> int"
  e_adopt :: "nat \<Rightarrow> wsi option"
  e_lws_pre :: size_t

section \<open>The part of the state every component shares\<close>

text \<open>
  \<open>live\<close>: the allocated blocks whose contents the model keeps as values and not on its heap, that is
  the strings, the socket table and the protocol array.
\<close>

record os =
  tick :: nat
  log :: "io list"
  live :: "addr set"

definition step :: "('a os_scheme) \<Rightarrow> 'a os_scheme" where
  "step s = s\<lparr>tick := Suc (tick s)\<rparr>"

definition emit :: "io \<Rightarrow> 'a os_scheme \<Rightarrow> 'a os_scheme" where
  "emit e s = s\<lparr>log := log s @ [e]\<rparr>"

lemma step_sel [simp, frame_simps]:
  "tick (step s) = Suc (tick s)" "log (step s) = log s" "os.more (step s) = os.more s"
  "live (step s) = live s"
  by (simp_all add: step_def)

lemma emit_sel [simp, frame_simps]:
  "tick (emit e s) = tick s" "log (emit e s) = log s @ [e]" "os.more (emit e s) = os.more s"
  "live (emit e s) = live s"
  by (simp_all add: emit_def)

section \<open>Blocks held as values\<close>

text \<open>\<open>malloc\<close> or \<open>calloc\<close> of such a block, and \<open>free\<close>: of NULL nothing, of a block not allocated a fault.\<close>

definition alloc :: "env \<Rightarrow> 'a os_scheme \<Rightarrow> addr option \<times> 'a os_scheme" where
  "alloc E s =
     (let a = tick s; s = step s in
      if e_malloc E a then (Some a, s\<lparr>live := insert a (live s)\<rparr>) else (None, s))"

definition dealloc :: "addr option \<Rightarrow> 'a os_scheme \<Rightarrow> 'a os_scheme res" where
  "dealloc p s =
     (case p of None \<Rightarrow> Inr s
      | Some a \<Rightarrow> if a \<in> live s then Inr (s\<lparr>live := live s - {a}\<rparr>) else Inl DanglingDeref)"

lemma dealloc_simps [simp]:
  "dealloc None s = Inr s" "a \<in> live s \<Longrightarrow> dealloc (Some a) s = Inr (s\<lparr>live := live s - {a}\<rparr>)"
  by (simp_all add: dealloc_def)

lemma alloc_None: "\<not> e_malloc E (tick s) \<Longrightarrow> alloc E s = (None, step s)"
  by (simp add: alloc_def)

definition grab :: "'a os_scheme \<Rightarrow> 'a os_scheme" where
  "grab s = (step s)\<lparr>live := insert (tick s) (live s)\<rparr>"

lemma grab_sel [simp, frame_simps]:
  "tick (grab s) = Suc (tick s)" "log (grab s) = log s" "os.more (grab s) = os.more s"
  "live (grab s) = insert (tick s) (live s)"
  by (simp_all add: grab_def)

lemma alloc_Some: "e_malloc E (tick s) \<Longrightarrow> alloc E s = (Some (tick s), grab s)"
  by (simp add: alloc_def grab_def Let_def)

lemma alloc_more: "alloc E s = (a, s') \<Longrightarrow> os.more s' = os.more s \<and> log s' = log s"
  by (auto simp: alloc_def Let_def split: if_splits)

lemma dealloc_more: "dealloc p s = Inr s' \<Longrightarrow> os.more s' = os.more s \<and> log s' = log s"
  by (auto simp: dealloc_def split: option.splits if_splits)

text \<open>The address of the next allocation is not in use.\<close>

definition live_ok :: "'a os_scheme \<Rightarrow> bool" where
  "live_ok s \<longleftrightarrow> (\<forall>a \<in> live s. a < tick s)"

lemma live_okD: "live_ok s \<Longrightarrow> tick s \<le> n \<Longrightarrow> n \<notin> live s"
  by (auto simp: live_ok_def)

lemma live_ok_next: "live_ok s \<Longrightarrow> tick s \<notin> live s \<and> Suc (tick s) \<notin> live s"
  by (simp add: live_okD)

section \<open>A surroundings in which every call succeeds, for the witnesses\<close>

definition demo_env :: env where
  "demo_env = \<lparr>e_malloc = (\<lambda>_. True), e_junk = (\<lambda>_. 7), e_stat = (\<lambda>_ _. Some True),
     e_socket = (\<lambda>n. int n), e_connect = (\<lambda>_. 0), e_read = (\<lambda>_. Some [104, 105]),
     e_write = (\<lambda>_. 1), e_partial = (\<lambda>_. False), e_choked = (\<lambda>_. False),
     e_lws_write = (\<lambda>_. 64), e_adopt = (\<lambda>n. Some n), e_lws_pre = 16\<rparr>"

definition demo_os :: os where
  "demo_os = \<lparr>tick = 0, log = [], live = {}\<rparr>"

end
