(* ===== verification/Socklist.thy ===== *)
theory Socklist
  imports C_Env
begin

text \<open>
  The table of bridged sockets, \<^verbatim>\<open>main/socklist.c\<close>: an array of entries kept sorted by
  websocket name, filled by \<open>socklist_addmap\<close> at start-up and searched when a websocket opens.
  The array is the list \<open>sl_map\<close> of its \<open>sl_alloc\<close> slots, of which the first \<open>sl_size\<close> are in
  use; a pointer to an entry is its index. Array accesses out of range and NULL strings are
  faults of the model; \<open>sl_self\<close> and \<open>sl_block\<close> are the addresses of the object and of its array,
  for \<open>free\<close>. The interface \<open>name_table\<close> is what the rest of the program relies on.
\<close>

section \<open>Data\<close>

record sockmap_t =
  l_type :: int
  pagesize :: nat
  l_socket :: "string option"
  websocket :: "string option"

record socklist_t =
  sl_alloc :: nat
  sl_size :: nat
  sl_map :: "sockmap_t list"
  sl_self :: addr
  sl_block :: addr

text \<open>An entry of the zeroed array that \<open>calloc\<close> returns.\<close>

definition sockmap_zero :: sockmap_t where
  "sockmap_zero = \<lparr>l_type = 0, pagesize = 0, l_socket = None, websocket = None\<rparr>"

section \<open>Operations\<close>

text \<open>
  \<open>socklist_init\<close>. \<open>handle\<close> says whether the pointer to the handle is not NULL. The test after
  the first allocation is of that pointer again, so it does not notice that the allocation
  failed. The result holds the value the handle is given.
\<close>

definition socklist_init ::
  "env \<Rightarrow> bool \<Rightarrow> nat \<Rightarrow> 'a os_scheme \<Rightarrow> (int \<times> socklist_t option \<times> 'a os_scheme) res" where
  "socklist_init E handle maxsize s =
     (if \<not> handle then Inr (-1, None, s)
      else let (a, s) = alloc E s in
        if \<not> handle then Inr (-2, None, s)
        else case a of None \<Rightarrow> Inl NullDeref
        | Some self \<Rightarrow>
          let (b, s) = alloc E s in
          (case b of
             None \<Rightarrow> andThen (dealloc a s) (\<lambda>s. Inr (-3, None, s))
           | Some block \<Rightarrow> Inr (0, Some \<lparr>sl_alloc = maxsize, sl_size = 0,
               sl_map = replicate maxsize sockmap_zero, sl_self = self, sl_block = block\<rparr>, s)))"

text \<open>\<open>sub_testsocket\<close>: is the path a socket? The type argument is not used.\<close>

definition sub_testsocket ::
  "env \<Rightarrow> string \<Rightarrow> int \<Rightarrow> 'a os_scheme \<Rightarrow> int \<times> 'a os_scheme" where
  "sub_testsocket E sockpath socktype s =
     (case e_stat E (tick s) sockpath of
        None \<Rightarrow> (-2, step s)
      | Some is_sock \<Rightarrow> (if is_sock then (0, step s) else (-3, step s)))"

text \<open>
  The loop over the entries \<open>i, ..., i + n - 1\<close> that looks for the place of a name: \<open>None\<close> when
  the name is there already, else the index where it goes.
\<close>

fun addmap_scan :: "string \<Rightarrow> sockmap_t list \<Rightarrow> nat \<Rightarrow> nat \<Rightarrow> nat option res" where
  "addmap_scan w m i 0 = Inr (Some i)"
| "addmap_scan w m i (Suc n) =
     (if length m \<le> i then Inl OutOfBounds
      else case websocket (m ! i) of
        None \<Rightarrow> Inl NullDeref
      | Some x \<Rightarrow> let cmp = strcmp w x in
          if cmp = 0 then Inr None
          else if cmp < 0 then Inr (Some i)
          else addmap_scan w m (Suc i) n)"

text \<open>The inner loop: \<open>for (j = size; j > i; j--) map[j] = map[j-1]\<close>.\<close>

fun shift_up :: "sockmap_t list \<Rightarrow> nat \<Rightarrow> nat \<Rightarrow> sockmap_t list res" where
  "shift_up m i 0 = Inr m"
| "shift_up m i (Suc j) =
     (if i < Suc j
      then if Suc j < length m then shift_up (m[Suc j := m ! j]) i j else Inl OutOfBounds
      else Inr m)"

text \<open>The insertion of the new entry at the place found, step 4 of \<open>socklist_addmap\<close>.\<close>

definition addmap_insert :: "socklist_t \<Rightarrow> string \<Rightarrow> string \<Rightarrow> socklist_t option res" where
  "addmap_insert l ds ws =
     andThen (addmap_scan ws (sl_map l) 0 (sl_size l)) (\<lambda>slot.
       case slot of
         None \<Rightarrow> Inr None
       | Some i \<Rightarrow> andThen (shift_up (sl_map l) i (sl_size l)) (\<lambda>m.
           if length m \<le> i then Inl OutOfBounds
           else Inr (Some (l\<lparr>sl_map := m[i := \<lparr>l_type = 0, pagesize = 1024,
                              l_socket = Some ds, websocket = Some ws\<rparr>],
                            sl_size := Suc (sl_size l)\<rparr>))))"

text \<open>
  \<open>socklist_addmap\<close>. Without a colon \<open>ds_end\<close> is NULL and \<open>strchr(ds_end + 1, 0)\<close> is called
  before the test for NULL is reached.
\<close>

definition addmap_term ::
  "int \<Rightarrow> addr option \<Rightarrow> addr option \<Rightarrow> socklist_t option \<Rightarrow> 'a os_scheme \<Rightarrow>
   (int \<times> socklist_t option \<times> 'a os_scheme) res" where
  "addmap_term rc wp dp sl s =
     andThen (dealloc wp s) (\<lambda>s. andThen (dealloc dp s) (\<lambda>s. Inr (rc, sl, s)))"

definition socklist_addmap ::
  "env \<Rightarrow> socklist_t option \<Rightarrow> string \<Rightarrow> 'a os_scheme \<Rightarrow>
   (int \<times> socklist_t option \<times> 'a os_scheme) res" where
  "socklist_addmap E sl mapstr s =
     (case sl of None \<Rightarrow> Inr (-1, sl, s)
      | Some l \<Rightarrow>
        if sl_alloc l \<le> sl_size l then Inr (-2, sl, s)
        else case strchr mapstr (CHR '':'') of
          None \<Rightarrow> Inl NullDeref
        | Some ds_size \<Rightarrow>
          let dspath = take ds_size mapstr; wspath = drop (Suc ds_size) mapstr;
              (dp, s) = alloc E s in
          if dp = None then Inr (-4, sl, s)
          else let (wp, s) = alloc E s in
          if wp = None then addmap_term (-4) wp dp sl s
          else let (rc, s) = sub_testsocket E dspath 0 s in
          if rc \<noteq> 0 then addmap_term (rc - 5) wp dp sl s
          else andThen (addmap_insert l dspath wspath) (\<lambda>r.
            case r of None \<Rightarrow> addmap_term (-5) wp dp sl s
                    | Some l' \<Rightarrow> Inr (0, Some l', s)))"

text \<open>\<open>socklist_search\<close>: the index of the entry with the name, or NULL.\<close>

fun search_scan :: "string \<Rightarrow> sockmap_t list \<Rightarrow> nat \<Rightarrow> nat \<Rightarrow> nat option res" where
  "search_scan w m i 0 = Inr None"
| "search_scan w m i (Suc n) =
     (if length m \<le> i then Inl OutOfBounds
      else case websocket (m ! i) of
        None \<Rightarrow> Inl NullDeref
      | Some x \<Rightarrow> if strcmp x w = 0 then Inr (Some i) else search_scan w m (Suc i) n)"

definition socklist_search :: "socklist_t option \<Rightarrow> string option \<Rightarrow> nat option res" where
  "socklist_search sl ws_name =
     (case (sl, ws_name) of
        (Some l, Some w) \<Rightarrow> search_scan w (sl_map l) 0 (sl_size l)
      | _ \<Rightarrow> Inr None)"

text \<open>
  \<open>socklist_newclient\<close>: the new descriptor (negative on failure) and the entry that goes to
  \<open>*newclient\<close>.
\<close>

definition socklist_newclient ::
  "env \<Rightarrow> socklist_t option \<Rightarrow> string option \<Rightarrow> 'a os_scheme \<Rightarrow>
   (int \<times> nat option \<times> 'a os_scheme) res" where
  "socklist_newclient E sl ws_name s =
     andThen (socklist_search sl ws_name) (\<lambda>clisock.
       case (sl, clisock) of
         (Some l, Some i) \<Rightarrow>
           (case l_socket (sl_map l ! i) of
              None \<Rightarrow> Inl NullDeref
            | Some path \<Rightarrow>
                let (test, s) = sub_testsocket E path (l_type (sl_map l ! i)) s in
                if test \<noteq> 0 then Inr (-1, None, s)
                else let newfd = e_socket E (tick s); s = emit (IoSocket newfd) (step s) in
                  Inr (newfd, Some i, s))
       | _ \<Rightarrow> Inr (-1, None, s))"

text \<open>\<open>socklist_deinit\<close>: the array and the object are freed, the strings of the entries are not.\<close>

definition socklist_deinit :: "socklist_t option \<Rightarrow> 'a os_scheme \<Rightarrow> 'a os_scheme res" where
  "socklist_deinit sl s =
     (case sl of None \<Rightarrow> Inr s
      | Some l \<Rightarrow> andThen (dealloc (Some (sl_block l)) s) (dealloc (Some (sl_self l))))"

section \<open>The table as a map\<close>

definition entries :: "socklist_t \<Rightarrow> sockmap_t list" where
  "entries l = take (sl_size l) (sl_map l)"

definition key :: "sockmap_t \<Rightarrow> string" where
  "key e = the (websocket e)"

definition keys :: "socklist_t \<Rightarrow> string list" where
  "keys l = map key (entries l)"

text \<open>The daemon socket a websocket name is bridged to.\<close>

definition bridged :: "socklist_t \<Rightarrow> string \<Rightarrow> string option" where
  "bridged l = map_of (map (\<lambda>e. (key e, the (l_socket e))) (entries l))"

text \<open>
  The invariant: the array has the recorded number of slots, the entries in use fit, they have
  both strings, and their names are strictly increasing.
\<close>

definition sl_wf :: "socklist_t \<Rightarrow> bool" where
  "sl_wf l \<longleftrightarrow>
     length (sl_map l) = sl_alloc l \<and> sl_size l \<le> sl_alloc l \<and>
     list_all (\<lambda>e. websocket e \<noteq> None \<and> l_socket e \<noteq> None) (entries l) \<and>
     sorted_wrt (<) (keys l)"

text \<open>The entry for a pair, and its place in a sorted list of entries.\<close>

definition new_entry :: "string \<Rightarrow> string \<Rightarrow> sockmap_t" where
  "new_entry ds ws = \<lparr>l_type = 0, pagesize = 1024, l_socket = Some ds, websocket = Some ws\<rparr>"

definition ins_entry :: "string \<Rightarrow> string \<Rightarrow> sockmap_t list \<Rightarrow> sockmap_t list" where
  "ins_entry ds ws es =
     takeWhile (\<lambda>e. key e < ws) es @ new_entry ds ws # dropWhile (\<lambda>e. key e < ws) es"

section \<open>The loops\<close>

lemma take_Suc_drop: "i < length m \<Longrightarrow> take (Suc n) (drop i m) = m ! i # take n (drop (Suc i) m)"
  by (simp add: Cons_nth_drop_Suc [symmetric])

lemma addmap_scan_eq:
  assumes "i + n \<le> length m" "list_all (\<lambda>e. websocket e \<noteq> None) (take n (drop i m))"
  shows "addmap_scan w m i n =
    (let k = length (takeWhile (\<lambda>e. key e < w) (take n (drop i m)))
     in Inr (if k < n \<and> key (m ! (i + k)) = w then None else Some (i + k)))"
  using assms
proof (induction n arbitrary: i)
  case 0
  then show ?case by simp
next
  case (Suc n)
  then have i: "i < length m" by simp
  with Suc.prems obtain x where x: "websocket (m ! i) = Some x" by (auto simp: take_Suc_drop)
  then have key: "key (m ! i) = x" by (simp add: key_def)
  from Suc.prems i have "list_all (\<lambda>e. websocket e \<noteq> None) (take n (drop (Suc i) m))"
    by (simp add: take_Suc_drop)
  with Suc.IH [of "Suc i"] Suc.prems i x key show ?case
    by (cases x w rule: linorder_cases) (auto simp: take_Suc_drop Let_def)
qed

lemma search_scan_eq:
  assumes "i + n \<le> length m" "list_all (\<lambda>e. websocket e \<noteq> None) (take n (drop i m))"
  shows "search_scan w m i n =
    (let k = length (takeWhile (\<lambda>e. key e \<noteq> w) (take n (drop i m)))
     in Inr (if k < n then Some (i + k) else None))"
  using assms
proof (induction n arbitrary: i)
  case 0
  then show ?case by simp
next
  case (Suc n)
  then have i: "i < length m" by simp
  with Suc.prems obtain x where x: "websocket (m ! i) = Some x" by (auto simp: take_Suc_drop)
  then have key: "key (m ! i) = x" by (simp add: key_def)
  from Suc.prems i have "list_all (\<lambda>e. websocket e \<noteq> None) (take n (drop (Suc i) m))"
    by (simp add: take_Suc_drop)
  with Suc.IH [of "Suc i"] Suc.prems i x key show ?case
    by (simp add: take_Suc_drop Let_def)
qed

lemma shift_up_nth:
  assumes "i \<le> j" "j < length m"
  shows "\<exists>m'. shift_up m i j = Inr m' \<and> length m' = length m \<and>
    (\<forall>k < length m. m' ! k = (if i < k \<and> k \<le> j then m ! (k - 1) else m ! k))"
  using assms
proof (induction j arbitrary: m)
  case 0
  then show ?case by simp
next
  case (Suc j)
  show ?case
  proof (cases "i = Suc j")
    case True
    then show ?thesis by (intro exI [of _ m]) auto
  next
    case False
    let ?m = "m[Suc j := m ! j]"
    from Suc.IH [of ?m] Suc.prems False obtain m' where m': "shift_up ?m i j = Inr m'"
      "length m' = length m"
      "\<forall>k < length m. m' ! k = (if i < k \<and> k \<le> j then ?m ! (k - 1) else ?m ! k)" by auto
    have "m' ! k = (if i < k \<and> k \<le> Suc j then m ! (k - 1) else m ! k)" if "k < length m" for k
      using m' that Suc.prems False by (cases "k = Suc j") auto
    with m' Suc.prems False show ?thesis by auto
  qed
qed

lemma shift_up_insert:
  assumes "i \<le> j" "j < length m"
  shows "\<exists>m'. shift_up m i j = Inr m' \<and> length m' = length m \<and>
    take (Suc j) (m'[i := e]) = take i (take j m) @ e # drop i (take j m)"
proof -
  from shift_up_nth [OF assms] obtain m' where m': "shift_up m i j = Inr m'"
    "length m' = length m"
    "\<forall>k < length m. m' ! k = (if i < k \<and> k \<le> j then m ! (k - 1) else m ! k)" by blast
  have "take (Suc j) (m'[i := e]) = take i (take j m) @ e # drop i (take j m)"
  proof (rule nth_equalityI)
    show "length (take (Suc j) (m'[i := e])) = length (take i (take j m) @ e # drop i (take j m))"
      using m' assms by simp
  next
    fix k assume "k < length (take (Suc j) (m'[i := e]))"
    then have "k \<le> j" "k < length m" using m' by auto
    then show "take (Suc j) (m'[i := e]) ! k = (take i (take j m) @ e # drop i (take j m)) ! k"
      using m' assms by (auto simp: nth_append nth_Cons' not_less)
  qed
  with m' show ?thesis by blast
qed

section \<open>The table under its operations\<close>

lemma sl_wf_scan:
  assumes "sl_wf l"
  shows "0 + sl_size l \<le> length (sl_map l)"
    "list_all (\<lambda>e. websocket e \<noteq> None) (take (sl_size l) (drop 0 (sl_map l)))"
  using assms by (auto simp: sl_wf_def entries_def list_all_iff)

lemma sorted_first_ge:
  fixes w :: "'k::linorder"
  assumes "sorted_wrt (<) (map f es)"
  shows "length (takeWhile (\<lambda>e. f e < w) es) < length es \<and>
      f (es ! length (takeWhile (\<lambda>e. f e < w) es)) = w \<longleftrightarrow> w \<in> f ` set es"
  using assms by (induction es) auto

lemma addmap_insert_eq:
  assumes wf: "sl_wf l" and room: "sl_size l < sl_alloc l"
  shows "if ws \<in> set (keys l) then addmap_insert l ds ws = Inr None
    else \<exists>l'. addmap_insert l ds ws = Inr (Some l') \<and> entries l' = ins_entry ds ws (entries l) \<and>
      sl_alloc l' = sl_alloc l \<and> sl_size l' = Suc (sl_size l) \<and> length (sl_map l') = sl_alloc l \<and>
      sl_self l' = sl_self l \<and> sl_block l' = sl_block l"
proof -
  let ?i = "length (takeWhile (\<lambda>e. key e < ws) (entries l))"
  have len: "length (sl_map l) = sl_alloc l" "length (entries l) = sl_size l"
    using wf by (auto simp: sl_wf_def entries_def)
  have sorted: "sorted_wrt (<) (map key (entries l))" using wf by (simp add: sl_wf_def keys_def)
  have nth: "key (entries l ! ?i) = key (sl_map l ! ?i)" if "?i < sl_size l"
    using that by (simp add: entries_def)
  have dup: "?i < sl_size l \<and> key (sl_map l ! ?i) = ws \<longleftrightarrow> ws \<in> set (keys l)"
    using sorted_first_ge [OF sorted, of ws] nth len by (auto simp: keys_def)
  have slot: "addmap_scan ws (sl_map l) 0 (sl_size l) =
      Inr (if ws \<in> set (keys l) then None else Some ?i)"
    using addmap_scan_eq [OF sl_wf_scan [OF wf], of ws] dup
    by (simp add: Let_def entries_def)
  show ?thesis
  proof (cases "ws \<in> set (keys l)")
    case True
    with slot show ?thesis by (simp add: addmap_insert_def)
  next
    case False
    have le: "?i \<le> sl_size l" using length_takeWhile_le [of _ "entries l"] len by metis
    with shift_up_insert [OF le, of "sl_map l" "new_entry ds ws"] room len obtain m' where m':
      "shift_up (sl_map l) ?i (sl_size l) = Inr m'" "length m' = sl_alloc l"
      "take (Suc (sl_size l)) (m'[?i := new_entry ds ws]) =
         take ?i (entries l) @ new_entry ds ws # drop ?i (entries l)"
      by (auto simp: entries_def)
    have "take ?i (entries l) @ new_entry ds ws # drop ?i (entries l) = ins_entry ds ws (entries l)"
      by (simp add: ins_entry_def takeWhile_eq_take [symmetric] dropWhile_eq_drop)
    with False slot m' le room show ?thesis
      by (auto simp: addmap_insert_def new_entry_def entries_def)
  qed
qed

lemma takeWhile_key_less: "e \<in> set (takeWhile (\<lambda>e. key e < w) es) \<Longrightarrow> key e < w"
  by (auto dest: set_takeWhileD)

lemma dropWhile_key_greater:
  assumes "sorted_wrt (<) (map key es)" "w \<notin> key ` set es" "e \<in> set (dropWhile (\<lambda>e. key e < w) es)"
  shows "w < key e"
  using assms by (induction es) (auto split: if_splits simp: not_less)

lemma ins_entry_wf:
  assumes sorted: "sorted_wrt (<) (map key es)" and new: "ws \<notin> key ` set es"
  shows "sorted_wrt (<) (map key (ins_entry ds ws es))"
    "set (ins_entry ds ws es) = insert (new_entry ds ws) (set es)"
proof -
  let ?P = "\<lambda>e. key e < ws"
  have split: "es = takeWhile ?P es @ dropWhile ?P es" by simp
  have "sorted_wrt (<) (map key (takeWhile ?P es) @ map key (dropWhile ?P es))"
    using sorted by (metis map_append split)
  then show "sorted_wrt (<) (map key (ins_entry ds ws es))"
    using takeWhile_key_less [of _ ws es] dropWhile_key_greater [OF sorted new]
    by (auto simp: ins_entry_def sorted_wrt_append new_entry_def key_def [of "new_entry ds ws", unfolded new_entry_def])
  have "set es = set (takeWhile ?P es) \<union> set (dropWhile ?P es)"
    by (metis set_append split)
  then show "set (ins_entry ds ws es) = insert (new_entry ds ws) (set es)"
    by (auto simp: ins_entry_def)
qed

lemma dom_bridged: "dom (bridged l) = set (keys l)"
  by (simp add: bridged_def keys_def dom_map_of_conv_image_fst image_image)

lemma bridged_None: "bridged l w = None \<longleftrightarrow> w \<notin> set (keys l)"
  using dom_bridged [of l] by (auto simp: domIff)

lemma map_of_ins_entry:
  assumes "ws \<notin> key ` set es"
  shows "map_of (map (\<lambda>e. (key e, the (l_socket e))) (ins_entry ds ws es)) =
    (map_of (map (\<lambda>e. (key e, the (l_socket e))) es))(ws \<mapsto> ds)"
proof -
  let ?P = "\<lambda>e. key e < ws" and ?g = "\<lambda>e. (key e, the (l_socket e))"
  have new: "?g (new_entry ds ws) = (ws, ds)" by (simp add: new_entry_def key_def)
  have "map ?g es = map ?g (takeWhile ?P es) @ map ?g (dropWhile ?P es)"
    by (metis map_append takeWhile_dropWhile_id)
  moreover have "map_of (map ?g (takeWhile ?P es)) ws = None"
    by (auto simp: map_of_eq_None_iff dest: takeWhile_key_less)
  ultimately show ?thesis
    by (auto simp: ins_entry_def new map_add_def fun_eq_iff split: option.splits)
qed

lemma addmap_insert_wf:
  assumes wf: "sl_wf l" and room: "sl_size l < sl_alloc l" and new: "ws \<notin> set (keys l)"
  shows "\<exists>l'. addmap_insert l ds ws = Inr (Some l') \<and> sl_wf l' \<and>
    sl_size l' = Suc (sl_size l) \<and> sl_alloc l' = sl_alloc l \<and>
    bridged l' = (bridged l)(ws \<mapsto> ds) \<and> sl_self l' = sl_self l \<and> sl_block l' = sl_block l"
proof -
  from addmap_insert_eq [OF wf room, of ws ds] new obtain l' where l':
    "addmap_insert l ds ws = Inr (Some l')" "entries l' = ins_entry ds ws (entries l)"
    "sl_alloc l' = sl_alloc l" "sl_size l' = Suc (sl_size l)" "length (sl_map l') = sl_alloc l"
    "sl_self l' = sl_self l" "sl_block l' = sl_block l"
    by auto
  have sorted: "sorted_wrt (<) (map key (entries l))" and new': "ws \<notin> key ` set (entries l)"
    using wf new by (simp_all add: sl_wf_def keys_def)
  have "sl_wf l'"
    using wf room l' ins_entry_wf [OF sorted new', of ds]
    by (auto simp: sl_wf_def keys_def list_all_iff new_entry_def)
  moreover have "bridged l' = (bridged l)(ws \<mapsto> ds)"
    using map_of_ins_entry [OF new'] l' by (simp add: bridged_def)
  ultimately show ?thesis using l' by blast
qed

lemma sub_testsocket_eq:
  "sub_testsocket E path ty s =
     ((case e_stat E (tick s) path of None \<Rightarrow> -2 | Some True \<Rightarrow> 0 | Some False \<Rightarrow> -3), step s)"
  by (simp add: sub_testsocket_def split: option.split bool.split)

section \<open>The interface the bridge relies on\<close>

text \<open>The daemon path in a slot of the array.\<close>

definition slot_path :: "socklist_t \<Rightarrow> nat \<Rightarrow> string option" where
  "slot_path l i = (if i < length (sl_map l) then l_socket (sl_map l ! i) else None)"

lemma slot_pathD: "slot_path l i = Some p \<Longrightarrow> i < length (sl_map l) \<and> l_socket (sl_map l ! i) = Some p"
  by (simp add: slot_path_def split: if_splits)

text \<open>A table of names: searching it finds the entry of a name, and only then.\<close>

locale name_table =
  fixes inv :: "'t \<Rightarrow> bool"
    and names :: "'t \<Rightarrow> string \<Rightarrow> string option"
    and path_at :: "'t \<Rightarrow> nat \<Rightarrow> string option"
    and search :: "'t option \<Rightarrow> string option \<Rightarrow> nat option res"
  assumes search_law: "inv t \<Longrightarrow> \<exists>r. search (Some t) (Some w) = Inr r \<and>
      (case r of None \<Rightarrow> names t w = None
               | Some i \<Rightarrow> names t w \<noteq> None \<and> path_at t i = names t w)"
begin

lemma search_miss: "inv t \<Longrightarrow> names t w = None \<Longrightarrow> search (Some t) (Some w) = Inr None"
  using search_law [of t w] by (auto split: option.splits)

lemma search_hit:
  "inv t \<Longrightarrow> names t w = Some p \<Longrightarrow> \<exists>i. search (Some t) (Some w) = Inr (Some i) \<and> path_at t i = Some p"
  using search_law [of t w] by (auto split: option.splits)

end

lemma socklist_search_sound:
  assumes wf: "sl_wf l"
  shows "\<exists>r. socklist_search (Some l) (Some w) = Inr r \<and>
    (case r of None \<Rightarrow> bridged l w = None
     | Some i \<Rightarrow> bridged l w \<noteq> None \<and> i < sl_size l \<and> websocket (sl_map l ! i) = Some w \<and>
               l_socket (sl_map l ! i) = bridged l w)"
proof -
  let ?P = "\<lambda>e. key e \<noteq> w"
  let ?k = "length (takeWhile ?P (entries l))"
  have len: "length (sl_map l) = sl_alloc l" "length (entries l) = sl_size l"
    using wf by (auto simp: sl_wf_def entries_def)
  have scan: "socklist_search (Some l) (Some w) = Inr (if ?k < sl_size l then Some ?k else None)"
    using search_scan_eq [OF sl_wf_scan [OF wf], of w]
    by (simp add: socklist_search_def Let_def entries_def)
  show ?thesis
  proof (cases "?k < sl_size l")
    case False
    then have "takeWhile ?P (entries l) = entries l"
      using len by (metis linorder_neqE_nat length_takeWhile_le not_less takeWhile_eq_take take_all)
    then have "\<forall>e \<in> set (entries l). key e \<noteq> w" by (simp add: takeWhile_eq_all_conv)
    with False scan show ?thesis by (auto simp: bridged_None keys_def)
  next
    case True
    let ?e = "entries l ! ?k"
    have "?e \<in> set (entries l)" using True len by (metis nth_mem)
    moreover have "?e = sl_map l ! ?k" using True by (simp add: entries_def)
    ultimately have e: "?e = sl_map l ! ?k" "?e \<in> set (entries l)" by simp_all
    have "key ?e = w" using nth_length_takeWhile [of ?P "entries l"] True len by simp
    moreover have some: "websocket ?e \<noteq> None" "l_socket ?e \<noteq> None"
      using wf e(2) by (auto simp: sl_wf_def list_all_iff)
    ultimately have "websocket ?e = Some w" by (auto simp: key_def)
    let ?ps = "map (\<lambda>e. (key e, the (l_socket e))) (entries l)"
    have "distinct (map fst ?ps)"
      using wf by (simp add: sl_wf_def keys_def strict_sorted_iff comp_def)
    moreover have "(w, the (l_socket ?e)) \<in> set ?ps"
      using e(2) \<open>key ?e = w\<close> by (auto intro!: rev_image_eqI)
    ultimately have "bridged l w = l_socket ?e"
      using some by (auto simp: bridged_def dest: map_of_is_SomeI)
    with scan True e some \<open>websocket ?e = Some w\<close> show ?thesis by auto
  qed
qed

interpretation slt: name_table sl_wf bridged slot_path socklist_search
proof unfold_locales
  fix l w assume wf: "sl_wf l"
  then have "sl_size l \<le> length (sl_map l)" by (simp add: sl_wf_def)
  with socklist_search_sound [OF wf, of w]
  show "\<exists>r. socklist_search (Some l) (Some w) = Inr r \<and>
      (case r of None \<Rightarrow> bridged l w = None
       | Some i \<Rightarrow> bridged l w \<noteq> None \<and> slot_path l i = bridged l w)"
    by (fastforce simp: slot_path_def split: option.splits)
qed

text \<open>The outcomes of \<open>socklist_newclient\<close>.\<close>

lemma socklist_newclient_miss:
  "sl_wf l \<Longrightarrow> bridged l w = None \<Longrightarrow> socklist_newclient E (Some l) (Some w) s = Inr (-1, None, s)"
  by (simp add: socklist_newclient_def slt.search_miss)

lemma socklist_newclient_hit:
  assumes "sl_wf l" "bridged l w = Some path"
  shows "\<exists>i. slot_path l i = Some path \<and> socklist_newclient E (Some l) (Some w) s =
    Inr (if e_stat E (tick s) path = Some True
      then (e_socket E (Suc (tick s)), Some i,
            emit (IoSocket (e_socket E (Suc (tick s)))) (step (step s)))
      else (-1, None, step s))"
proof -
  from slt.search_hit [OF assms] obtain i where
    i: "socklist_search (Some l) (Some w) = Inr (Some i)" "slot_path l i = Some path" by blast
  with slot_pathD [OF i(2)] show ?thesis
    by (auto simp: socklist_newclient_def sub_testsocket_eq Let_def split: option.split bool.split)
qed

section \<open>Properties\<close>

text \<open>The result code of \<open>socklist_addmap\<close> for \<open>ds:ws\<close>, as the order of its tests gives it.\<close>

definition addmap_rc :: "env \<Rightarrow> socklist_t \<Rightarrow> string \<Rightarrow> string \<Rightarrow> nat \<Rightarrow> int" where
  "addmap_rc E l ds ws n =
     (if sl_alloc l \<le> sl_size l then -2
      else if \<not> (e_malloc E n \<and> e_malloc E (Suc n)) then -4
      else case e_stat E (Suc (Suc n)) ds of
        None \<Rightarrow> -7
      | Some False \<Rightarrow> -8
      | Some True \<Rightarrow> if ws \<in> dom (bridged l) then -5 else 0)"

text \<open>
  The two strings of an argument stay allocated when the entry is made and are freed again on every
  error path, one or both.
\<close>

lemma socklist_addmap_eq:
  assumes wf: "sl_wf l" and colon: "CHR '':'' \<notin> set ds"
  shows "\<exists>r s'. socklist_addmap E (Some l) (ds @ CHR '':'' # ws) s =
      Inr (addmap_rc E l ds ws (tick s), Some r, s') \<and> sl_wf r \<and>
    (if addmap_rc E l ds ws (tick s) = 0
     then bridged r = (bridged l)(ws \<mapsto> ds) \<and> sl_size r = Suc (sl_size l) \<and> sl_alloc r = sl_alloc l
     else r = l) \<and> sl_self r = sl_self l \<and> sl_block r = sl_block l \<and>
    (live_ok s \<longrightarrow> live_ok s' \<and>
      live s' = (if addmap_rc E l ds ws (tick s) = 0 then {tick s, Suc (tick s)} \<union> live s else live s))"
proof -
  let ?n = "tick s"
  have chr: "strchr (ds @ CHR '':'' # ws) (CHR '':'') = Some (length ds)"
    using colon by (rule strchr_append)
  have out: "?n \<notin> live s \<and> Suc ?n \<notin> live s" if "live_ok s" using live_ok_next [OF that] .
  have ok: "live_ok t" if "live_ok s" "live t \<subseteq> {?n, Suc ?n} \<union> live s" "Suc ?n < tick t \<or> ?n < tick t \<and> Suc ?n \<notin> live t" for t :: "'a os_scheme"
    using that by (fastforce simp: live_ok_def)
  show ?thesis
  proof (cases "addmap_rc E l ds ws ?n = 0")
    case True
    then have c: "sl_size l < sl_alloc l" "e_malloc E ?n" "e_malloc E (Suc ?n)"
      "e_stat E (Suc (Suc ?n)) ds = Some True" "ws \<notin> set (keys l)"
      by (auto simp: addmap_rc_def dom_bridged split: if_splits option.splits bool.splits)
    from addmap_insert_wf [OF wf c(1,5), of ds] obtain l' where
      "addmap_insert l ds ws = Inr (Some l')" "sl_wf l'" "sl_size l' = Suc (sl_size l)"
      "sl_alloc l' = sl_alloc l" "bridged l' = (bridged l)(ws \<mapsto> ds)"
      "sl_self l' = sl_self l" "sl_block l' = sl_block l" by blast
    with True c chr show ?thesis
      by (auto simp: socklist_addmap_def sub_testsocket_eq alloc_Some Let_def insert_commute intro!: ok)
  next
    case False
    have dup: "addmap_insert l ds ws = Inr None" if "sl_size l < sl_alloc l" "ws \<in> set (keys l)"
      using addmap_insert_eq [OF wf that(1), of ws ds] that(2) by simp
    from False chr wf dup show ?thesis
      by (auto simp: socklist_addmap_def addmap_rc_def addmap_term_def sub_testsocket_eq dom_bridged Let_def
          alloc_def out intro!: ok split: option.splits bool.splits)
  qed
qed

text \<open>
  C20: on a well-formed table and an argument \<open>ds:ws\<close>, \<open>socklist_addmap\<close> returns without a
  fault, with the code \<open>addmap_rc\<close>; the table stays well-formed (sorted, without duplicates,
  within its array), gains exactly the pair \<open>ws \<mapsto> ds\<close> when the code is 0, and is unchanged on
  every error path. The two strings stay allocated on success, and on every error path whatever
  was allocated is free again. Lengths and indices are unbounded: the conversions to \<open>int\<close> in the
  code agree with that below 2^31.
\<close>

theorem socklist_addmap_spec:
  assumes "sl_wf l" "CHR '':'' \<notin> set ds" "live_ok s"
  shows "\<exists>r s'. socklist_addmap E (Some l) (ds @ CHR '':'' # ws) s =
      Inr (addmap_rc E l ds ws (tick s), Some r, s') \<and> sl_wf r \<and>
    (if addmap_rc E l ds ws (tick s) = 0
     then bridged r = (bridged l)(ws \<mapsto> ds) \<and> sl_size r = Suc (sl_size l) \<and> sl_alloc r = sl_alloc l \<and>
       live s' = {tick s, Suc (tick s)} \<union> live s
     else r = l \<and> live s' = live s)"
  using socklist_addmap_eq [OF assms(1,2), of E ws s] assms(3) by (auto split: if_splits)

definition demo_list :: socklist_t where
  "demo_list = \<lparr>sl_alloc = 3, sl_size = 1,
     sl_map = [new_entry ''/run/b'' ''otdb'', sockmap_zero, sockmap_zero], sl_self = 0, sl_block = 1\<rparr>"

lemma demo_list_wf: "sl_wf demo_list"
  by (simp add: sl_wf_def demo_list_def entries_def keys_def new_entry_def)

lemma demo_list_bridged: "bridged demo_list = [''otdb'' \<mapsto> ''/run/b'']"
  by (simp add: bridged_def demo_list_def entries_def new_entry_def key_def)

theorem socklist_addmap_spec_witness:
  "\<exists>r s'. socklist_addmap demo_env (Some demo_list) ''/run/a:cli'' demo_os = Inr (0, Some r, s') \<and>
     sl_wf r \<and> bridged r = (bridged demo_list)(''cli'' \<mapsto> ''/run/a'')"
proof -
  have rc: "addmap_rc demo_env demo_list ''/run/a'' ''cli'' (tick demo_os) = 0"
    by (simp add: addmap_rc_def demo_env_def demo_list_bridged) (simp add: demo_list_def)
  have "CHR '':'' \<notin> set ''/run/a''" by simp
  moreover have "live_ok demo_os" by (simp add: live_ok_def demo_os_def)
  ultimately show ?thesis
    using socklist_addmap_spec [OF demo_list_wf, of "''/run/a''" demo_os demo_env "''cli''"] by (auto simp: rc)
qed

text \<open>
  An argument without a colon is not rejected with a code: \<open>socklist_addmap\<close> passes a
  pointer computed from NULL to \<open>strchr\<close> before it tests for NULL, whenever the table has room.
\<close>

theorem socklist_addmap_no_colon:
  assumes "CHR '':'' \<notin> set mapstr" "sl_size l < sl_alloc l"
  shows "socklist_addmap E (Some l) mapstr s = Inl NullDeref"
proof -
  have "strchr mapstr (CHR '':'') = None" using assms(1) by (simp add: strchr_None)
  with assms(2) show ?thesis by (simp add: socklist_addmap_def)
qed

theorem socklist_addmap_no_colon_witness:
  "socklist_addmap demo_env (Some demo_list) ''/run/a'' demo_os = Inl NullDeref"
  by (rule socklist_addmap_no_colon) (simp_all add: demo_list_def)

text \<open>
  C21: \<open>socklist_search\<close> on a well-formed table returns the entry of the name it is given: the
  entry is in use, carries that name and the daemon socket the name is bridged to; it returns
  NULL exactly when the name is not bridged.
\<close>

theorem socklist_search_spec:
  assumes "sl_wf l"
  shows "\<exists>r. socklist_search (Some l) (Some w) = Inr r \<and> (r = None \<longleftrightarrow> w \<notin> dom (bridged l)) \<and>
    (\<forall>i. r = Some i \<longrightarrow> i < sl_size l \<and> websocket (sl_map l ! i) = Some w \<and>
       l_socket (sl_map l ! i) = bridged l w)"
  using socklist_search_sound [OF assms, of w] by (auto simp: domIff split: option.splits)

theorem socklist_search_spec_witness:
  "\<exists>i. socklist_search (Some demo_list) (Some ''otdb'') = Inr (Some i) \<and>
     l_socket (sl_map demo_list ! i) = Some ''/run/b''"
  using socklist_search_spec [OF demo_list_wf, of "''otdb''"] by (auto simp: demo_list_bridged)

text \<open>
  \<open>socklist_newclient\<close> on a well-formed table: an unknown name, or a path that is no socket
  any more, gives -1 and no entry, and no descriptor is created; otherwise exactly one socket
  is created, its descriptor is returned, with the entry of the name.
\<close>

theorem socklist_newclient_spec:
  assumes wf: "sl_wf l"
  shows "case bridged l w of
      None \<Rightarrow> socklist_newclient E (Some l) (Some w) s = Inr (-1, None, s)
    | Some path \<Rightarrow>
        if e_stat E (tick s) path = Some True
        then \<exists>i. l_socket (sl_map l ! i) = Some path \<and>
          socklist_newclient E (Some l) (Some w) s =
            Inr (e_socket E (Suc (tick s)), Some i, emit (IoSocket (e_socket E (Suc (tick s)))) (step (step s)))
        else socklist_newclient E (Some l) (Some w) s = Inr (-1, None, step s)"
proof (cases "bridged l w")
  case None
  with socklist_newclient_miss [OF wf None] show ?thesis by simp
next
  case (Some path)
  from socklist_newclient_hit [OF wf Some, of E s] slot_pathD Some show ?thesis by auto
qed

theorem socklist_newclient_spec_witness:
  "\<exists>i. socklist_newclient demo_env (Some demo_list) (Some ''otdb'') demo_os =
     Inr (1, Some i, emit (IoSocket 1) (step (step demo_os)))"
  using socklist_newclient_spec [OF demo_list_wf, where w = "''otdb''" and E = demo_env and s = demo_os]
  by (auto simp: demo_list_bridged demo_env_def demo_os_def)

text \<open>
  \<open>socklist_init\<close> gives an empty well-formed table of the requested size, or the code -3
  with a NULL handle and nothing allocated when the second allocation fails; when the first one
  fails it writes through NULL, since the test that follows looks at the wrong pointer.
  \<open>socklist_deinit\<close> undoes it.
\<close>

theorem socklist_init_spec:
  assumes "live_ok s"
  shows "if \<not> e_malloc E (tick s) then socklist_init E True n s = Inl NullDeref
    else if \<not> e_malloc E (Suc (tick s))
    then \<exists>s'. socklist_init E True n s = Inr (-3, None, s') \<and> live s' = live s
    else \<exists>l s'. socklist_init E True n s = Inr (0, Some l, s') \<and> sl_wf l \<and> sl_alloc l = n \<and>
      bridged l = Map.empty \<and> live s' = {sl_self l, sl_block l} \<union> live s \<and>
      (\<exists>s''. socklist_deinit (Some l) s' = Inr s'' \<and> live s'' = live s)"
proof -
  have "tick s \<notin> live s" "Suc (tick s) \<notin> live s" using live_ok_next [OF assms] by simp_all
  then show ?thesis
    by (auto simp: socklist_init_def socklist_deinit_def alloc_def Let_def sl_wf_def entries_def keys_def bridged_def)
qed

theorem socklist_init_spec_witness:
  "\<exists>l s'. socklist_init demo_env True 3 demo_os = Inr (0, Some l, s') \<and> sl_alloc l = 3 \<and> sl_wf l"
proof -
  have "live_ok demo_os" "e_malloc demo_env n" for n by (simp_all add: live_ok_def demo_os_def demo_env_def)
  with socklist_init_spec [of demo_os demo_env 3] show ?thesis by auto
qed

end
