(* ===== verification/Fifo.thy ===== *)
theory Fifo
  imports Wf_Prelude
begin

text \<open>
  The interface of a queue of messages kept in a store: what a client may rely on, whatever
  the store looks like. \<open>rep s q ms\<close> says that in the store \<open>s\<close> the queue \<open>q\<close> holds exactly
  the messages \<open>ms\<close>, first in first. The laws give the result of every operation; \<open>put_frame\<close>
  says that a queue with other messages in the same store is not disturbed.
\<close>

section \<open>Runs of queue operations\<close>

datatype 'm q_op = Put 'm | Get

text \<open>A run of operations on a stored queue: what every \<open>Get\<close> returned, and the end state.\<close>

fun q_run ::
  "('q \<Rightarrow> 'm option \<Rightarrow> 's \<Rightarrow> ('q \<times> 's) res) \<Rightarrow> ('q \<Rightarrow> 's \<Rightarrow> ('m option \<times> 'q) res) \<Rightarrow>
   'm q_op list \<Rightarrow> 'q \<Rightarrow> 's \<Rightarrow> ('m option list \<times> 'q \<times> 's) res" where
  "q_run put get [] q s = Inr ([], q, s)"
| "q_run put get (Put m # ops) q s =
     andThen (put q (Some m) s) (\<lambda>(q, s). q_run put get ops q s)"
| "q_run put get (Get # ops) q s =
     andThen (get q s) (\<lambda>(m, q).
     andThen (q_run put get ops q s) (\<lambda>(ms, q, s). Inr (m # ms, q, s)))"

text \<open>The same run on a plain list.\<close>

fun list_run :: "'m q_op list \<Rightarrow> 'm list \<Rightarrow> 'm option list \<times> 'm list" where
  "list_run [] ms = ([], ms)"
| "list_run (Put m # ops) ms = list_run ops (ms @ [m])"
| "list_run (Get # ops) [] = (None # fst (list_run ops []), snd (list_run ops []))"
| "list_run (Get # ops) (m # ms) = (Some m # fst (list_run ops ms), snd (list_run ops ms))"

fun puts :: "'m q_op list \<Rightarrow> 'm list" where
  "puts [] = []"
| "puts (Put m # ops) = m # puts ops"
| "puts (Get # ops) = puts ops"

section \<open>The interface\<close>

locale fifo_store =
  fixes rep :: "'s \<Rightarrow> 'q \<Rightarrow> 'm list \<Rightarrow> bool"
    and live :: "'s \<Rightarrow> 'm set"
    and put :: "'q \<Rightarrow> 'm option \<Rightarrow> 's \<Rightarrow> ('q \<times> 's) res"
    and get :: "'q \<Rightarrow> 's \<Rightarrow> ('m option \<times> 'q) res"
    and emp :: "'q \<Rightarrow> bool res"
  assumes put_law: "\<lbrakk>rep s q ms; m \<in> live s; m \<notin> set ms\<rbrakk> \<Longrightarrow>
      \<exists>q' s'. put q (Some m) s = Inr (q', s') \<and> rep s' q' (ms @ [m]) \<and> live s' = live s"
    and put_frame: "\<lbrakk>rep s q ms; m \<in> live s; m \<notin> set ms; put q (Some m) s = Inr (q', s');
      rep s r ns; set ns \<inter> insert m (set ms) = {}\<rbrakk> \<Longrightarrow> rep s' r ns"
    and get_Nil: "rep s q [] \<Longrightarrow> get q s = Inr (None, q)"
    and get_Cons: "rep s q (m # ms) \<Longrightarrow> \<exists>q'. get q s = Inr (Some m, q') \<and> rep s q' ms"
    and emp_law: "rep s q ms \<Longrightarrow> emp q = Inr (ms = [])"
begin

lemma rep_unique: "rep s q ms \<Longrightarrow> rep s q ns \<Longrightarrow> ms = ns"
proof (induction ms arbitrary: q ns)
  case Nil
  then show ?case using get_Nil [of s q] get_Cons [of s q] by (cases ns) fastforce+
next
  case (Cons m ms)
  then obtain q' where q': "get q s = Inr (Some m, q')" "rep s q' ms"
    by (blast dest: get_Cons)
  show ?case
  proof (cases ns)
    case Nil
    with Cons.prems q' show ?thesis by (auto dest: get_Nil)
  next
    case ns: (Cons n ns')
    with Cons.prems q' have "n = m" "rep s q' ns'" by (auto dest: get_Cons)
    with ns Cons.IH q' show ?thesis by simp
  qed
qed

lemma get_eq:
  assumes "rep s q ms" "get q s = Inr (m, q')"
  shows "m = (case ms of [] \<Rightarrow> None | m # _ \<Rightarrow> Some m) \<and> rep s q' (tl ms)"
  using assms get_Nil [of s q] get_Cons [of s q] by (cases ms) fastforce+

text \<open>The client lemma: every run of operations behaves as on a list.\<close>

lemma run_refines:
  "\<lbrakk>rep s q ms; set (puts ops) \<subseteq> live s; distinct (ms @ puts ops)\<rbrakk> \<Longrightarrow>
   \<exists>q' s'. q_run put get ops q s = Inr (fst (list_run ops ms), q', s') \<and>
           rep s' q' (snd (list_run ops ms))"
proof (induction ops ms arbitrary: q s rule: list_run.induct)
  case (1 ms)
  then show ?case by simp
next
  case (2 m ops ms)
  then obtain q1 s1 where put1: "put q (Some m) s = Inr (q1, s1)"
    and rep1: "rep s1 q1 (ms @ [m])" and live1: "live s1 = live s"
    using put_law [of s q ms m] by auto
  with "2.prems" have "set (puts ops) \<subseteq> live s1" "distinct ((ms @ [m]) @ puts ops)" by auto
  with "2.IH" [OF rep1] put1 show ?case by auto
next
  case (3 ops)
  then show ?case using get_Nil [of s q] by (fastforce dest: "3.IH")
next
  case (4 ops m ms)
  then obtain q1 where get1: "get q s = Inr (Some m, q1)" and rep1: "rep s q1 ms"
    using get_Cons by blast
  from "4.prems" have "set (puts ops) \<subseteq> live s" "distinct (ms @ puts ops)" by auto
  with "4.IH" [OF rep1] get1 show ?case by auto
qed

end

end
