(* ===== verification/Msg_Queue.thy ===== *)
theory Msg_Queue
  imports C_Env Fifo
begin

text \<open>
  The message queue of \<^verbatim>\<open>main/mq.c\<close>: messages on the C heap, linked into the singly-linked
  tail queues of \<^verbatim>\<open>sys/queue.h\<close> (\<open>STAILQ\<close>). The links are modelled as the pointers they are:
  a head holds a pointer to the first message and a pointer to the \<^emph>\<open>link field\<close> at which the
  queue ends. The queue of a list of messages is a path through the heap (\<open>mq_rep\<close>); the
  interface \<open>fifo_store\<close> states what a client may rely on, and is interpreted on the operations.
\<close>

section \<open>Data\<close>

text \<open>A pointer field of a message or of a queue head; fresh memory holds \<open>Uninit\<close>.\<close>

datatype link = Uninit | Null | To addr

text \<open>
  \<open>stqh_last\<close> points to a link: the head's own \<open>stqh_first\<close>, or the \<open>entries\<close> of a message.
\<close>

datatype lastp = LUninit | LHead | LNext addr

record mq_msg =
  m_data :: addr
  m_size :: size_t
  m_next :: link

record mq_t =
  stqh_first :: link
  stqh_last :: lastp

record heap = os +
  blocks :: "addr \<rightharpoonup> bytes"
  msgs :: "addr \<rightharpoonup> mq_msg"

lemma step_heap [simp, frame_simps]:
  "blocks (step s) = blocks s" "msgs (step s) = msgs s" "heap.more (step s) = heap.more s"
  by (simp_all add: step_def)

lemma emit_heap [simp, frame_simps]:
  "blocks (emit e s) = blocks s" "msgs (emit e s) = msgs s" "heap.more (emit e s) = heap.more s"
  by (simp_all add: emit_def)

section \<open>Messages\<close>

text \<open>
  \<open>malloc(n)\<close> of a byte block: its address, or NULL. The block's contents are indeterminate.
\<close>

definition malloc_block :: "env \<Rightarrow> size_t \<Rightarrow> 'a heap_scheme \<Rightarrow> addr option \<times> 'a heap_scheme" where
  "malloc_block E n s =
     (let a = tick s; s = step s in
      if e_malloc E a
      then (Some a, s\<lparr>blocks := (blocks s)(a \<mapsto> replicate (unat n) None)\<rparr>)
      else (None, s))"

text \<open>\<open>msg_new\<close> of \<^verbatim>\<open>mq.c\<close>: two allocations; the first is undone when the second fails.\<close>

definition msg_new :: "env \<Rightarrow> size_t \<Rightarrow> 'a heap_scheme \<Rightarrow> addr option \<times> 'a heap_scheme" where
  "msg_new E len s =
     (let a = tick s; s = step s in
      if e_malloc E a
      then (case malloc_block E (len + 0) s of
              (None, s) \<Rightarrow> (None, s)
            | (Some d, s) \<Rightarrow>
                (Some a, s\<lparr>msgs := (msgs s)(a \<mapsto> \<lparr>m_data = d, m_size = len, m_next = Uninit\<rparr>)\<rparr>))
      else (None, s))"

text \<open>\<open>msg_free\<close>: a NULL message is left alone; freeing a block that is not there is a fault.\<close>

definition msg_free :: "addr option \<Rightarrow> 'a heap_scheme \<Rightarrow> 'a heap_scheme res" where
  "msg_free msg s =
     (case msg of None \<Rightarrow> Inr s
      | Some a \<Rightarrow> andThen (deref (msgs s) (Some a)) (\<lambda>(a, m).
          if blocks s (m_data m) = None then Inl DanglingDeref
          else Inr (s\<lparr>blocks := (blocks s)(m_data m := None), msgs := (msgs s)(a := None)\<rparr>)))"

section \<open>Queues\<close>

definition mq_init :: "mq_t" where
  "mq_init = \<lparr>stqh_first = Null, stqh_last = LHead\<rparr>"

definition mq_isempty :: "mq_t \<Rightarrow> bool res" where
  "mq_isempty q = (if stqh_first q = Uninit then Inl UninitRead else Inr (stqh_first q = Null))"

text \<open>\<open>STAILQ_REMOVE_HEAD\<close>, then the message that was first; NULL from an empty queue.\<close>

definition mq_getmsg :: "mq_t \<Rightarrow> 'a heap_scheme \<Rightarrow> (addr option \<times> mq_t) res" where
  "mq_getmsg q s =
     andThen (mq_isempty q) (\<lambda>emp.
       if emp then Inr (None, q)
       else (case stqh_first q of
           To a \<Rightarrow> andThen (deref (msgs s) (Some a)) (\<lambda>(a, m).
               case m_next m of
                 Uninit \<Rightarrow> Inl UninitRead
               | Null \<Rightarrow> Inr (Some a, \<lparr>stqh_first = Null, stqh_last = LHead\<rparr>)
               | To b \<Rightarrow> Inr (Some a, q\<lparr>stqh_first := To b\<rparr>))
         | _ \<Rightarrow> Inl UninitRead))"

definition set_next :: "addr \<Rightarrow> link \<Rightarrow> 'a heap_scheme \<Rightarrow> 'a heap_scheme" where
  "set_next a l s = s\<lparr>msgs := (msgs s)(a := map_option (\<lambda>m. m\<lparr>m_next := l\<rparr>) (msgs s a))\<rparr>"

text \<open>\<open>STAILQ_INSERT_TAIL\<close>: \<open>elm->next = NULL; *head->last = elm; head->last = &elm->next\<close>.\<close>

definition mq_putmsg :: "mq_t \<Rightarrow> addr option \<Rightarrow> 'a heap_scheme \<Rightarrow> (mq_t \<times> 'a heap_scheme) res" where
  "mq_putmsg q msg s =
     (if msg = None then Inl AssertFail
      else andThen (deref (msgs s) msg) (\<lambda>(a, m).
        let s = set_next a Null s in
        (case stqh_last q of
           LUninit \<Rightarrow> Inl UninitRead
         | LHead \<Rightarrow> Inr (\<lparr>stqh_first = To a, stqh_last = LNext a\<rparr>, s)
         | LNext b \<Rightarrow> andThen (deref (msgs s) (Some b)) (\<lambda>(b, mb).
             Inr (q\<lparr>stqh_last := LNext a\<rparr>, set_next b (To a) s)))))"

section \<open>The list a queue holds\<close>

fun link_path :: "(addr \<rightharpoonup> mq_msg) \<Rightarrow> link \<Rightarrow> addr list \<Rightarrow> bool" where
  "link_path M l [] \<longleftrightarrow> l = Null"
| "link_path M l (a # as) \<longleftrightarrow>
     l = To a \<and> (case M a of None \<Rightarrow> False | Some m \<Rightarrow> link_path M (m_next m) as)"

definition last_of :: "addr list \<Rightarrow> lastp" where
  "last_of as = (if as = [] then LHead else LNext (last as))"

definition mq_rep :: "'a heap_scheme \<Rightarrow> mq_t \<Rightarrow> addr list \<Rightarrow> bool" where
  "mq_rep s q as \<longleftrightarrow>
     distinct as \<and> link_path (msgs s) (stqh_first q) as \<and> stqh_last q = last_of as"

text \<open>The bytes of a message's data block.\<close>

definition msg_bytes :: "'a heap_scheme \<Rightarrow> addr \<Rightarrow> bytes" where
  "msg_bytes s a =
     (case msgs s a of None \<Rightarrow> [] | Some m \<Rightarrow> (case blocks s (m_data m) of None \<Rightarrow> [] | Some bs \<Rightarrow> bs))"

subsection \<open>Paths\<close>

lemma last_of_simps [simp]:
  "last_of [] = LHead" "last_of [a] = LNext a" "last_of (as @ [a]) = LNext a"
  "as \<noteq> [] \<Longrightarrow> last_of (a # as) = last_of as"
  by (simp_all add: last_of_def)

lemma link_path_live: "link_path M l as \<Longrightarrow> set as \<subseteq> dom M"
  by (induction as arbitrary: l) (fastforce split: option.splits)+

lemma link_path_cong:
  "(\<And>a. a \<in> set as \<Longrightarrow> map_option m_next (M' a) = map_option m_next (M a)) \<Longrightarrow>
   link_path M' l as = link_path M l as"
proof (induction as arbitrary: l)
  case Nil
  then show ?case by simp
next
  case (Cons a as)
  have "map_option m_next (M' a) = map_option m_next (M a)" using Cons.prems by simp
  moreover have "link_path M' k as = link_path M k as" for k using Cons.IH Cons.prems by simp
  ultimately show ?case by (cases "M a"; cases "M' a") simp_all
qed

lemma link_path_snoc:
  assumes "link_path M l as" "distinct (as @ [b])" "as \<noteq> []" "M b = Some mb" "m_next mb = Null"
  shows "link_path (M(last as := map_option (\<lambda>m. m\<lparr>m_next := To b\<rparr>) (M (last as)))) l (as @ [b])"
  using assms
proof (induction as arbitrary: l)
  case Nil
  then show ?case by simp
next
  case (Cons a as)
  show ?case
  proof (cases "as = []")
    case True
    with Cons.prems show ?thesis by (auto split: option.splits)
  next
    case False
    with Cons.prems have "a \<noteq> last as" by auto
    with False Cons show ?thesis by (auto split: option.splits)
  qed
qed

subsection \<open>The operations on represented queues\<close>

lemma set_next_sel [simp, frame_simps]:
  "tick (set_next a l s) = tick s" "log (set_next a l s) = log s"
  "blocks (set_next a l s) = blocks s" "heap.more (set_next a l s) = heap.more s"
  "msgs (set_next a l s) = (msgs s)(a := map_option (\<lambda>m. m\<lparr>m_next := l\<rparr>) (msgs s a))"
  by (simp_all add: set_next_def)

lemma mq_rep_init: "mq_rep s mq_init []"
  by (simp add: mq_rep_def mq_init_def)

lemma mq_rep_live: "mq_rep s q as \<Longrightarrow> set as \<subseteq> dom (msgs s)"
  by (auto simp: mq_rep_def dest: link_path_live)

lemma mq_rep_isempty: "mq_rep s q as \<Longrightarrow> mq_isempty q = Inr (as = [])"
  by (cases as) (auto simp: mq_rep_def mq_isempty_def)

lemma mq_rep_cong:
  assumes "\<And>a. a \<in> set as \<Longrightarrow> map_option m_next (msgs s' a) = map_option m_next (msgs s a)"
  shows "mq_rep s' q as = mq_rep s q as"
  using link_path_cong [of as "msgs s'" "msgs s" "stqh_first q"] assms by (simp add: mq_rep_def)

lemma mq_rep_same_msgs: "msgs s' = msgs s \<Longrightarrow> mq_rep s' q as = mq_rep s q as"
  by (rule mq_rep_cong) simp

lemma mq_getmsg_Nil: "mq_rep s q [] \<Longrightarrow> mq_getmsg q s = Inr (None, q)"
  by (simp add: mq_getmsg_def mq_rep_isempty)

lemma mq_getmsg_Cons:
  assumes "mq_rep s q (a # as)"
  shows "\<exists>q'. mq_getmsg q s = Inr (Some a, q') \<and> mq_rep s q' as"
proof -
  from assms obtain m where m: "msgs s a = Some m" "link_path (msgs s) (m_next m) as"
    and q: "stqh_first q = To a" "stqh_last q = last_of (a # as)" "distinct (a # as)"
    by (auto simp: mq_rep_def split: option.splits)
  have emp: "mq_isempty q = Inr False" using mq_rep_isempty [OF assms] by simp
  show ?thesis
  proof (cases as)
    case Nil
    with m q emp show ?thesis by (simp add: mq_getmsg_def mq_rep_def)
  next
    case (Cons b bs)
    with m q emp show ?thesis by (simp add: mq_getmsg_def mq_rep_def)
  qed
qed

text \<open>What putting a message does to the heap: links change, and nothing else.\<close>

definition relinked :: "'a heap_scheme \<Rightarrow> 'a heap_scheme \<Rightarrow> addr set \<Rightarrow> bool" where
  "relinked s s' A \<longleftrightarrow>
     tick s' = tick s \<and> log s' = log s \<and> blocks s' = blocks s \<and> heap.more s' = heap.more s \<and>
     (\<forall>a. a \<notin> A \<longrightarrow> msgs s' a = msgs s a) \<and>
     (\<forall>a. map_option m_data (msgs s' a) = map_option m_data (msgs s a)) \<and>
     (\<forall>a. map_option m_size (msgs s' a) = map_option m_size (msgs s a))"

lemma relinked_set_next: "a \<in> A \<Longrightarrow> relinked s (set_next a l s) A"
  by (auto simp: relinked_def option.map_comp comp_def)

lemma relinked_trans: "relinked s s' A \<Longrightarrow> relinked s' s'' A \<Longrightarrow> relinked s s'' A"
  by (simp add: relinked_def)

lemma relinked_dom: "relinked s s' A \<Longrightarrow> dom (msgs s') = dom (msgs s)"
  unfolding relinked_def dom_def by (metis map_option_is_None)

lemma relinked_msg_bytes: "relinked s s' A \<Longrightarrow> msg_bytes s' a = msg_bytes s a"
  by (cases "msgs s a"; cases "msgs s' a")
     (auto simp: relinked_def msg_bytes_def dest: spec [of _ a])

lemma relinked_rep:
  "relinked s s' A \<Longrightarrow> set as \<inter> A = {} \<Longrightarrow> mq_rep s' q as = mq_rep s q as"
  by (rule mq_rep_cong) (auto simp: relinked_def)

lemma mq_putmsg_rep:
  assumes rep: "mq_rep s q as" and live: "a \<in> dom (msgs s)" and new: "a \<notin> set as"
  shows "\<exists>q' s'. mq_putmsg q (Some a) s = Inr (q', s') \<and> mq_rep s' q' (as @ [a]) \<and>
           relinked s s' (insert a (set as))"
proof -
  let ?s1 = "set_next a Null s"
  from live obtain m where m: "msgs s a = Some m" by auto
  have rep1: "mq_rep ?s1 q as" using rep new by (subst mq_rep_cong) auto
  show ?thesis
  proof (cases "as = []")
    case True
    with rep m show ?thesis
      by (auto simp: mq_putmsg_def mq_rep_def intro: relinked_set_next)
  next
    case False
    let ?b = "last as" and ?s2 = "set_next (last as) (To a) ?s1"
    have last: "stqh_last q = LNext ?b" using rep False by (simp add: mq_rep_def last_of_def)
    have "?b \<in> dom (msgs s)" using mq_rep_live [OF rep] last_in_set [OF False] by blast
    then obtain mb where mb: "msgs s ?b = Some mb" by auto
    have "?b \<noteq> a" using new False by auto
    with m mb last have put: "mq_putmsg q (Some a) s = Inr (q\<lparr>stqh_last := LNext a\<rparr>, ?s2)"
      by (simp add: mq_putmsg_def)
    have "mq_rep ?s2 (q\<lparr>stqh_last := LNext a\<rparr>) (as @ [a])"
      using rep1 new False m link_path_snoc [of "msgs ?s1" "stqh_first q" as a "m\<lparr>m_next := Null\<rparr>"]
      by (simp add: mq_rep_def)
    moreover have "relinked s ?s2 (insert a (set as))"
      using False by (intro relinked_trans [OF relinked_set_next relinked_set_next]) auto
    ultimately show ?thesis using put by blast
  qed
qed

interpretation mqf: fifo_store mq_rep "\<lambda>s. dom (msgs s)" mq_putmsg mq_getmsg mq_isempty
proof unfold_locales
  fix s :: "'a heap_scheme" and q as a
  assume "mq_rep s q as" "a \<in> dom (msgs s)" "a \<notin> set as"
  from mq_putmsg_rep [OF this]
  show "\<exists>q' s'. mq_putmsg q (Some a) s = Inr (q', s') \<and> mq_rep s' q' (as @ [a]) \<and>
      dom (msgs s') = dom (msgs s)"
    using relinked_dom by blast
next
  fix s s' :: "'a heap_scheme" and q q' r as a ns
  assume "mq_rep s q as" "a \<in> dom (msgs s)" "a \<notin> set as" "mq_putmsg q (Some a) s = Inr (q', s')"
    and other: "mq_rep s r ns" "set ns \<inter> insert a (set as) = {}"
  then have "relinked s s' (insert a (set as))" by (fastforce dest: mq_putmsg_rep)
  with other show "mq_rep s' r ns" by (simp add: relinked_rep)
qed (auto simp: mq_getmsg_Nil mq_getmsg_Cons mq_rep_isempty)

section \<open>Allocation\<close>

text \<open>
  The invariant of the message store: every message owns a data block of the size it records,
  no two messages share one, and addresses come from past calls of \<open>malloc\<close>.
\<close>

definition heap_wf :: "'a heap_scheme \<Rightarrow> bool" where
  "heap_wf s \<longleftrightarrow>
     (\<forall>a m. msgs s a = Some m \<longrightarrow>
        a < tick s \<and> (\<exists>bs. blocks s (m_data m) = Some bs \<and> length bs = unat (m_size m))) \<and>
     (\<forall>a b m n. msgs s a = Some m \<longrightarrow> msgs s b = Some n \<longrightarrow> m_data m = m_data n \<longrightarrow> a = b) \<and>
     (\<forall>d \<in> dom (blocks s). d < tick s)"

lemma heap_wfD:
  assumes "heap_wf s" "msgs s a = Some m"
  shows "a < tick s" "\<exists>bs. blocks s (m_data m) = Some bs \<and> length bs = unat (m_size m)"
    "m_data m < tick s"
  using assms unfolding heap_wf_def by blast+

lemma heap_wf_inj:
  "heap_wf s \<Longrightarrow> msgs s a = Some m \<Longrightarrow> msgs s b = Some n \<Longrightarrow> m_data m = m_data n \<Longrightarrow> a = b"
  unfolding heap_wf_def by blast

lemma heap_wf_fresh: "heap_wf s \<Longrightarrow> tick s \<notin> dom (msgs s)"
  by (auto dest: heap_wfD)

lemma heap_wf_msg_bytes:
  "heap_wf s \<Longrightarrow> msgs s a = Some m \<Longrightarrow>
   blocks s (m_data m) = Some (msg_bytes s a) \<and> length (msg_bytes s a) = unat (m_size m)"
  using heap_wfD(2) [of s a m] by (auto simp: msg_bytes_def)

lemma heap_wf_cong:
  assumes "heap_wf s" "msgs s' = msgs s" "blocks s' = blocks s" "tick s \<le> tick s'"
  shows "heap_wf s'"
  using assms unfolding heap_wf_def by (simp, meson less_le_trans)

lemma heap_wf_relinked:
  assumes wf: "heap_wf s" and re: "relinked s s' A"
  shows "heap_wf s'"
proof -
  have old: "\<exists>m. msgs s a = Some m \<and> m_data m = m_data m' \<and> m_size m = m_size m'"
    if "msgs s' a = Some m'" for a m'
  proof -
    have "map_option m_data (msgs s' a) = map_option m_data (msgs s a)"
      "map_option m_size (msgs s' a) = map_option m_size (msgs s a)"
      using re by (simp_all add: relinked_def)
    with that show ?thesis by (cases "msgs s a") simp_all
  qed
  show ?thesis
    unfolding heap_wf_def
  proof (intro conjI allI impI)
    fix a m' assume "msgs s' a = Some m'"
    with old wf re show "a < tick s'"
      "\<exists>bs. blocks s' (m_data m') = Some bs \<and> length bs = unat (m_size m')"
      by (fastforce simp: relinked_def dest: heap_wfD)+
  next
    fix a b m' n' assume "msgs s' a = Some m'" "msgs s' b = Some n'" "m_data m' = m_data n'"
    with old wf show "a = b" by (metis heap_wf_inj)
  next
    show "\<forall>d \<in> dom (blocks s'). d < tick s'" using wf re by (simp add: heap_wf_def relinked_def)
  qed
qed

text \<open>Between two states, the messages outside \<open>A\<close> are the same and have the same contents.\<close>

definition same_msgs :: "'a heap_scheme \<Rightarrow> 'a heap_scheme \<Rightarrow> addr set \<Rightarrow> bool" where
  "same_msgs s s' A \<longleftrightarrow>
     (\<forall>a. a \<notin> A \<longrightarrow> msgs s' a = msgs s a \<and> msg_bytes s' a = msg_bytes s a)"

lemma same_msgs_rep: "same_msgs s s' A \<Longrightarrow> set as \<inter> A = {} \<Longrightarrow> mq_rep s' q as = mq_rep s q as"
  by (rule mq_rep_cong) (auto simp: same_msgs_def)

lemma same_msgs_bytes: "same_msgs s s' A \<Longrightarrow> a \<notin> A \<Longrightarrow> msg_bytes s' a = msg_bytes s a"
  by (simp add: same_msgs_def)

lemma same_msgs_trans: "same_msgs s s' A \<Longrightarrow> same_msgs s' s'' A \<Longrightarrow> same_msgs s s'' A"
  by (simp add: same_msgs_def)

lemma same_msgs_relinked: "relinked s s' A \<Longrightarrow> same_msgs s s' A"
  by (auto simp: same_msgs_def relinked_msg_bytes) (simp add: relinked_def)

lemma msg_new_None:
  assumes "msg_new E len s = (None, s')"
  shows "msgs s' = msgs s" "blocks s' = blocks s" "log s' = log s" "heap.more s' = heap.more s"
    "tick s < tick s'"
  using assms by (auto simp: msg_new_def malloc_block_def Let_def split: if_splits)

lemma msg_new_Some:
  assumes "msg_new E len s = (Some a, s')"
  shows "a = tick s"
    "msgs s' = (msgs s)(a \<mapsto> \<lparr>m_data = Suc a, m_size = len, m_next = Uninit\<rparr>)"
    "blocks s' = (blocks s)(Suc a \<mapsto> replicate (unat len) None)"
    "log s' = log s" "heap.more s' = heap.more s" "tick s' = tick s + 2"
  using assms by (auto simp: msg_new_def malloc_block_def Let_def split: if_splits)

lemma heap_wf_add:
  assumes wf: "heap_wf s" and new: "tick s \<le> a" "a < tick s'" "tick s \<le> d" "d < tick s'"
    and msgs: "msgs s' = (msgs s)(a \<mapsto> m)" and blocks: "blocks s' = (blocks s)(d \<mapsto> bs)"
    and m: "m_data m = d" "length bs = unat (m_size m)"
  shows "heap_wf s' \<and> same_msgs s s' {a}"
proof
  have old: "b \<noteq> a" "m_data n \<noteq> d" "b < tick s'" if "msgs s b = Some n" for b n
    using heap_wfD [OF wf that] new by auto
  show "heap_wf s'"
    unfolding heap_wf_def
  proof (intro conjI allI impI ballI)
    fix b n assume "msgs s' b = Some n"
    with msgs blocks m new old show "b < tick s'"
      "\<exists>bs. blocks s' (m_data n) = Some bs \<and> length bs = unat (m_size n)"
      by (auto split: if_splits dest: heap_wfD(2) [OF wf])
  next
    fix b c n k assume "msgs s' b = Some n" "msgs s' c = Some k" "m_data n = m_data k"
    with msgs m old show "b = c" by (auto split: if_splits dest: heap_wf_inj [OF wf])
  next
    fix e assume "e \<in> dom (blocks s')"
    moreover have "x < tick s" if "x \<in> dom (blocks s)" for x
      using wf that by (simp add: heap_wf_def)
    ultimately show "e < tick s'" using blocks new by (fastforce split: if_splits)
  qed
  show "same_msgs s s' {a}"
    using msgs blocks old by (auto simp: same_msgs_def msg_bytes_def split: option.splits)
qed

lemma msg_new_wf:
  assumes "heap_wf s" "msg_new E len s = (r, s')"
  shows "heap_wf s' \<and> (\<forall>a. r = Some a \<longrightarrow> a \<notin> dom (msgs s) \<and> same_msgs s s' {a})"
proof (cases r)
  case None
  note old = msg_new_None [OF assms(2) [unfolded None]]
  from heap_wf_cong [OF assms(1) old(1,2)] old(5) None show ?thesis by simp
next
  case (Some a)
  note new = msg_new_Some [OF assms(2) [unfolded Some]]
  from heap_wf_add [OF assms(1) _ _ _ _ new(2) new(3)] new heap_wf_fresh [OF assms(1)]
  show ?thesis using Some by auto
qed

lemma msg_free_wf:
  assumes wf: "heap_wf s" and a: "msgs s a = Some m"
  shows "\<exists>s'. msg_free (Some a) s = Inr s' \<and> heap_wf s' \<and> msgs s' = (msgs s)(a := None) \<and>
    same_msgs s s' {a} \<and> tick s' = tick s \<and> log s' = log s \<and> heap.more s' = heap.more s \<and>
    blocks s' = (blocks s)(m_data m := None)"
proof -
  let ?s' = "s\<lparr>blocks := (blocks s)(m_data m := None), msgs := (msgs s)(a := None)\<rparr>"
  from heap_wfD(2) [OF wf a] have free: "msg_free (Some a) s = Inr ?s'"
    using a by (auto simp: msg_free_def)
  have other: "m_data n \<noteq> m_data m" if "msgs s b = Some n" "b \<noteq> a" for b n
    using heap_wf_inj [OF wf that(1) a] that(2) by auto
  have "heap_wf ?s'"
    using wf other unfolding heap_wf_def by (auto split: if_splits)
  moreover have "same_msgs s ?s' {a}"
    using other by (auto simp: same_msgs_def msg_bytes_def split: option.splits)
  ultimately show ?thesis using free by auto
qed

lemma msg_free_None [simp]: "msg_free None s = Inr s"
  by (simp add: msg_free_def)

section \<open>Properties\<close>

text \<open>
  C19: every run of \<open>mq_putmsg\<close> and \<open>mq_getmsg\<close> on a represented queue, started from any
  contents, returns what the same run on a plain list returns, never faults, and leaves the
  queue representing the list the run ends in: the linked queue is a FIFO.
\<close>

theorem mq_run_fifo:
  assumes "mq_rep s q as" "set (puts ops) \<subseteq> dom (msgs s)" "distinct (as @ puts ops)"
  shows "\<exists>q' s'. q_run mq_putmsg mq_getmsg ops q s = Inr (fst (list_run ops as), q', s') \<and>
    mq_rep s' q' (snd (list_run ops as))"
  using assms by (rule mqf.run_refines)

text \<open>A heap with two messages, for the witnesses.\<close>

definition heap2 :: heap where
  "heap2 = \<lparr>tick = 4, log = [], live = {},
     blocks = [1 \<mapsto> [Some 65], 3 \<mapsto> [Some 66, Some 67]],
     msgs = [0 \<mapsto> \<lparr>m_data = 1, m_size = 1, m_next = Uninit\<rparr>,
             2 \<mapsto> \<lparr>m_data = 3, m_size = 2, m_next = Uninit\<rparr>]\<rparr>"

lemma heap2_wf: "heap_wf heap2"
  by (auto simp: heap_wf_def heap2_def split: if_splits)

theorem mq_run_fifo_witness:
  "\<exists>q' s'. q_run mq_putmsg mq_getmsg [Put 2, Put 0, Get, Get, Get] mq_init heap2
     = Inr ([Some 2, Some 0, None], q', s') \<and> mq_rep s' q' []"
proof -
  let ?ops = "[Put 2, Put 0, Get, Get, Get] :: addr q_op list"
  have "set (puts ?ops) \<subseteq> dom (msgs heap2)" "distinct ([] @ puts ?ops)"
    by (simp_all add: heap2_def)
  from mq_run_fifo [OF mq_rep_init this] show ?thesis by (simp del: q_run.simps)
qed

text \<open>
  \<open>msg_new\<close> followed by \<open>msg_free\<close> of its result gives the message store and the blocks
  back as they were, whichever of the two allocations failed: the error path of \<open>msg_new\<close>
  leaks nothing, and freeing its NULL result is harmless.
\<close>

theorem msg_new_free_roundtrip:
  assumes "heap_wf s" "msg_new E len s = (r, s1)"
  shows "\<exists>s2. msg_free r s1 = Inr s2 \<and> msgs s2 = msgs s \<and> blocks s2 = blocks s"
proof (cases r)
  case None
  with msg_new_None [of E len s s1] assms show ?thesis by simp
next
  case (Some a)
  note new = msg_new_Some [OF assms(2) [unfolded Some]]
  have "heap_wf s1" using msg_new_wf [OF assms] by blast
  from msg_free_wf [OF this, of a] new Some obtain s2 where s2: "msg_free r s1 = Inr s2"
    "msgs s2 = (msgs s1)(a := None)" "blocks s2 = (blocks s1)(Suc a := None)" by auto
  have "\<forall>d \<in> dom (blocks s). d < a" using assms(1) new(1) by (simp add: heap_wf_def)
  then have "Suc a \<notin> dom (blocks s)" by (meson Suc_lessD less_irrefl)
  moreover have "a \<notin> dom (msgs s)" using heap_wf_fresh [OF assms(1)] new(1) by simp
  ultimately have "msgs s2 = msgs s" "blocks s2 = blocks s" using s2 new by (auto simp: domIff)
  with s2 show ?thesis by blast
qed

theorem msg_new_free_roundtrip_witness:
  "\<exists>s2. msg_free (fst (msg_new demo_env 3 heap2)) (snd (msg_new demo_env 3 heap2)) = Inr s2 \<and>
     msgs s2 = msgs heap2 \<and> blocks s2 = blocks heap2"
  using msg_new_free_roundtrip [OF heap2_wf, of demo_env 3] by simp

end
