(* ===== verification/Hash_Fun.thy ===== *)
theory Hash_Fun
  imports Wf_Prelude
begin

text \<open>
  The hash functions of \<^verbatim>\<open>local_lib/uthash.h\<close> over the bytes of a key, on 32-bit words that
  wrap. \<open>HASH_JEN\<close> is the one the program is built with; the others are the alternatives that
  \<open>HASH_FUNCTION\<close> can select.
\<close>

unbundle bit_operations_syntax

section \<open>Jenkins's hash, the default\<close>

text \<open>
  \<open>HASH_JEN_MIX\<close>: three rounds of three lines; a line subtracts the two other words and takes
  the exclusive or with a shift of one of them.
\<close>

definition jen_round :: "nat \<Rightarrow> nat \<Rightarrow> nat \<Rightarrow> u32 \<times> u32 \<times> u32 \<Rightarrow> u32 \<times> u32 \<times> u32" where
  "jen_round p q r abc =
     (let (a, b, c) = abc;
          a = ((a - b) - c) XOR drop_bit p c;
          b = ((b - c) - a) XOR push_bit q a;
          c = ((c - a) - b) XOR drop_bit r b
      in (a, b, c))"

definition jen_mix :: "u32 \<times> u32 \<times> u32 \<Rightarrow> u32 \<times> u32 \<times> u32" where
  "jen_mix abc = jen_round 3 10 15 (jen_round 12 16 5 (jen_round 13 8 13 abc))"

text \<open>Four bytes of the key, least significant first, as one word.\<close>

definition word4 :: "byte \<Rightarrow> byte \<Rightarrow> byte \<Rightarrow> byte \<Rightarrow> u32" where
  "word4 k0 k1 k2 k3 =
     ucast k0 + push_bit 8 (ucast k1) + push_bit 16 (ucast k2) + push_bit 24 (ucast k3)"

text \<open>The loop over blocks of twelve bytes: the three words and the bytes left.\<close>

fun jen_loop :: "u32 \<times> u32 \<times> u32 \<Rightarrow> byte list \<Rightarrow> (u32 \<times> u32 \<times> u32) \<times> byte list" where
  "jen_loop (i, j, h) ks =
     (if length ks < 12 then ((i, j, h), ks)
      else jen_loop (jen_mix (i + word4 (ks ! 0) (ks ! 1) (ks ! 2) (ks ! 3),
                              j + word4 (ks ! 4) (ks ! 5) (ks ! 6) (ks ! 7),
                              h + word4 (ks ! 8) (ks ! 9) (ks ! 10) (ks ! 11)))
             (drop 12 ks))"

declare jen_loop.simps [simp del]

text \<open>The bytes left: the cases of the \<open>switch\<close>, each falling through to the next.\<close>

definition jen_tail :: "u32 \<times> u32 \<times> u32 \<Rightarrow> byte list \<Rightarrow> u32 \<times> u32 \<times> u32" where
  "jen_tail ijh ks =
     (let (i, j, h) = ijh; k = length ks;
          h = (if 11 \<le> k then h + push_bit 24 (ucast (ks ! 10)) else h);
          h = (if 10 \<le> k then h + push_bit 16 (ucast (ks ! 9)) else h);
          h = (if 9 \<le> k then h + push_bit 8 (ucast (ks ! 8)) else h);
          j = (if 8 \<le> k then j + push_bit 24 (ucast (ks ! 7)) else j);
          j = (if 7 \<le> k then j + push_bit 16 (ucast (ks ! 6)) else j);
          j = (if 6 \<le> k then j + push_bit 8 (ucast (ks ! 5)) else j);
          j = (if 5 \<le> k then j + ucast (ks ! 4) else j);
          i = (if 4 \<le> k then i + push_bit 24 (ucast (ks ! 3)) else i);
          i = (if 3 \<le> k then i + push_bit 16 (ucast (ks ! 2)) else i);
          i = (if 2 \<le> k then i + push_bit 8 (ucast (ks ! 1)) else i);
          i = (if 1 \<le> k then i + ucast (ks ! 0) else i)
      in (i, j, h))"

definition hash_jen :: "byte list \<Rightarrow> u32" where
  "hash_jen key =
     (let ((i, j, h), rest) = jen_loop (0x9e3779b9, 0x9e3779b9, 0xfeedbeef) key;
          (i, j, h) = jen_mix (jen_tail (i, j, h + of_nat (length key)) rest)
      in h)"

section \<open>The alternatives\<close>

definition hash_ber :: "byte list \<Rightarrow> u32" where
  "hash_ber key = foldl (\<lambda>h k. (push_bit 5 h + h) + ucast k) 0 key"

definition hash_sax :: "byte list \<Rightarrow> u32" where
  "hash_sax key = foldl (\<lambda>h k. h XOR (push_bit 5 h + drop_bit 2 h + ucast k)) 0 key"

definition hash_fnv :: "byte list \<Rightarrow> u32" where
  "hash_fnv key = foldl (\<lambda>h k. (h XOR ucast k) * 16777619) 2166136261 key"

definition hash_oat :: "byte list \<Rightarrow> u32" where
  "hash_oat key =
     (let h = foldl (\<lambda>h k. let h = h + ucast k; h = h + push_bit 10 h in h XOR drop_bit 6 h) 0 key;
          h = h + push_bit 3 h;
          h = h XOR drop_bit 11 h
      in h + push_bit 15 h)"

section \<open>Keys of type int\<close>

text \<open>The bytes of an \<open>int\<close> in memory, least significant first.\<close>

definition int_bytes :: "int \<Rightarrow> byte list" where
  "int_bytes n = (let w = (of_int n :: u32) in
     [ucast w, ucast (drop_bit 8 w), ucast (drop_bit 16 w), ucast (drop_bit 24 w)])"

lemma length_int_bytes [simp]: "length (int_bytes n) = 4"
  by (simp add: int_bytes_def Let_def)

section \<open>Properties\<close>

text \<open>One assignment triple of the mixing, and that it can be undone.\<close>

definition mixed :: "u32 \<Rightarrow> u32 \<Rightarrow> u32 \<Rightarrow> u32 \<Rightarrow> u32" where
  "mixed x y z w = ((x - y) - z) XOR w"

lemma mixed_inj: "mixed x y z w = mixed x' y z w \<longleftrightarrow> x = x'"
proof
  assume "mixed x y z w = mixed x' y z w"
  then have "(((x - y) - z) XOR w) XOR w = (((x' - y) - z) XOR w) XOR w"
    by (simp add: mixed_def)
  then show "x = x'" by (simp add: xor.assoc)
qed simp

lemma mixed_surj: "mixed ((r XOR w) + z + y) y z w = r"
  by (simp add: mixed_def xor.assoc)

definition mix_a :: "(u32 \<Rightarrow> u32) \<Rightarrow> u32 \<times> u32 \<times> u32 \<Rightarrow> u32 \<times> u32 \<times> u32" where
  "mix_a f = (\<lambda>(a, b, c). (mixed a b c (f c), b, c))"

definition mix_b :: "(u32 \<Rightarrow> u32) \<Rightarrow> u32 \<times> u32 \<times> u32 \<Rightarrow> u32 \<times> u32 \<times> u32" where
  "mix_b f = (\<lambda>(a, b, c). (a, mixed b c a (f a), c))"

definition mix_c :: "(u32 \<Rightarrow> u32) \<Rightarrow> u32 \<times> u32 \<times> u32 \<Rightarrow> u32 \<times> u32 \<times> u32" where
  "mix_c f = (\<lambda>(a, b, c). (a, b, mixed c a b (f b)))"

lemma bij_mix: "bij (mix_a f)" "bij (mix_b f)" "bij (mix_c f)"
proof -
  show "bij (mix_a f)"
    by (rule o_bij [of "\<lambda>(r, b, c). ((r XOR f c) + c + b, b, c)"])
       (auto simp: mix_a_def mixed_surj fun_eq_iff mixed_def xor.assoc)
  show "bij (mix_b f)"
    by (rule o_bij [of "\<lambda>(a, r, c). (a, (r XOR f a) + a + c, c)"])
       (auto simp: mix_b_def mixed_surj fun_eq_iff mixed_def xor.assoc)
  show "bij (mix_c f)"
    by (rule o_bij [of "\<lambda>(a, b, r). (a, b, (r XOR f b) + b + a)"])
       (auto simp: mix_c_def mixed_surj fun_eq_iff mixed_def xor.assoc)
qed

lemma bij_jen_round: "bij (jen_round p q r)"
proof -
  have "jen_round p q r = mix_c (drop_bit r) \<circ> mix_b (push_bit q) \<circ> mix_a (drop_bit p)"
    by (rule ext) (simp add: jen_round_def mix_a_def mix_b_def mix_c_def mixed_def Let_def split: prod.split)
  then show ?thesis by (simp add: bij_comp bij_mix)
qed

text \<open>
  The mixing step of the hash is a bijection of the three 32-bit words, so no step of
  \<open>HASH_JEN\<close> merges two different states.
\<close>

theorem jen_mix_bij: "bij jen_mix"
proof -
  have eq: "jen_mix = jen_round 3 10 15 \<circ> jen_round 12 16 5 \<circ> jen_round 13 8 13"
    by (rule ext) (simp add: jen_mix_def)
  show ?thesis unfolding eq by (intro bij_comp bij_jen_round)
qed

text \<open>
  On the key the program uses, the four bytes of an \<open>int\<close>, the block loop of \<open>HASH_JEN\<close> is
  not entered and the bytes of the \<open>switch\<close> add up to the integer itself.
\<close>

theorem hash_jen_int:
  "hash_jen (int_bytes n) =
     snd (snd (jen_mix (0x9e3779b9 + of_int n, 0x9e3779b9, 0xfeedbeef + 4)))"
proof -
  have low: "ucast (ucast v :: byte) = take_bit 8 v" for v :: u32
    by (simp add: unsigned_ucast_eq)
  have split: "take_bit 8 v + push_bit 8 (drop_bit 8 v) = v" for v :: u32
    using bits_ident [of 8 v] by (simp add: add.commute)
  have top: "take_bit 8 (drop_bit 24 w) = drop_bit 24 w" for w :: u32
    by (rule bit_word_eqI) (auto simp: bit_take_bit_iff bit_drop_bit_eq dest: bit_imp_le_length)
  have sum: "ucast (ucast w :: byte) + push_bit 8 (ucast (ucast (drop_bit 8 w) :: byte)) +
      push_bit 16 (ucast (ucast (drop_bit 16 w) :: byte)) +
      push_bit 24 (ucast (ucast (drop_bit 24 w) :: byte)) = (w :: u32)" for w
  proof -
    have "w = take_bit 8 w + push_bit 8 (take_bit 8 (drop_bit 8 w) +
        push_bit 8 (take_bit 8 (drop_bit 16 w) + push_bit 8 (drop_bit 24 w)))"
      using split [of w] split [of "drop_bit 8 w"] split [of "drop_bit 16 w"] by simp
    also have "\<dots> = take_bit 8 w + push_bit 8 (take_bit 8 (drop_bit 8 w)) +
        push_bit 16 (take_bit 8 (drop_bit 16 w)) + push_bit 24 (take_bit 8 (drop_bit 24 w))"
      by (simp add: push_bit_add top add.assoc)
    finally show ?thesis by (simp add: low)
  qed
  have "jen_tail (0x9e3779b9, 0x9e3779b9, h) (int_bytes n) = (0x9e3779b9 + of_int n, 0x9e3779b9, h)" for h
    using sum [of "of_int n"] by (simp add: jen_tail_def int_bytes_def Let_def algebra_simps)
  then show ?thesis by (simp add: hash_jen_def jen_loop.simps Let_def split: prod.split)
qed

end
