(* ===== verification/Uthash.thy ===== *)
theory Uthash
  imports Msg_Queue Hash_Fun
begin

text \<open>
  The hash table of \<^verbatim>\<open>local_lib/uthash.h\<close>, as far as the program's dictionary uses it: items
  that carry a hash handle, linked in the order they were added and into the chain of a bucket.
  Links are pointers (addresses of items) on the heap; a pointer to a handle is the address of
  the item that holds it, so that the conversions \<open>ELMT_FROM_HH\<close> and \<open>HH_FROM_ELMT\<close> are the
  identity. The key of an item is the \<open>int\<close> it holds. A failed allocation inside the table
  ends the process (\<open>uthash_fatal\<close>), which is the fault \<open>Exit\<close>.
\<close>

section \<open>Data\<close>

text \<open>\<open>UT_hash_handle\<close>, \<open>struct itemstruct\<close>, \<open>UT_hash_bucket\<close>, \<open>UT_hash_table\<close>.\<close>

record hh =
  h_tbl :: "addr option"
  h_prev :: "addr option"
  h_next :: "addr option"
  hh_prev :: "addr option"
  hh_next :: "addr option"
  h_key :: "addr option"
  h_keylen :: u32
  h_hashv :: u32

record item =
  i_id :: int
  i_data :: "addr option"
  i_hh :: hh

record ubucket =
  hh_head :: "addr option"
  b_count :: u32
  expand_mult :: u32

record utable =
  buckets :: "ubucket list"
  num_buckets :: u32
  log2_num_buckets :: u32
  num_items :: u32
  t_tail :: "addr option"
  ideal_chain_maxlen :: u32
  nonideal_items :: u32
  ineff_expands :: u32
  noexpand :: u32
  signature :: u32

record uheap = heap +
  items :: "addr \<rightharpoonup> item"
  tbls :: "addr \<rightharpoonup> utable"

lemma step_uheap [simp, frame_simps]:
  "items (step s) = items s" "tbls (step s) = tbls s" "uheap.more (step s) = uheap.more s"
  by (simp_all add: step_def)

lemma emit_uheap [simp, frame_simps]:
  "items (emit e s) = items s" "tbls (emit e s) = tbls s" "uheap.more (emit e s) = uheap.more s"
  by (simp_all add: emit_def)

definition bucket_zero :: ubucket where
  "bucket_zero = \<lparr>hh_head = None, b_count = 0, expand_mult = 0\<rparr>"

section \<open>Access to handles and tables\<close>

definition modify_hh :: "addr option \<Rightarrow> (hh \<Rightarrow> hh) \<Rightarrow> 'a uheap_scheme \<Rightarrow> 'a uheap_scheme res" where
  "modify_hh p f s =
     andThen (deref (items s) p) (\<lambda>(a, i). Inr (s\<lparr>items := (items s)(a \<mapsto> i\<lparr>i_hh := f (i_hh i)\<rparr>)\<rparr>))"

definition set_tbl :: "addr \<Rightarrow> utable \<Rightarrow> 'a uheap_scheme \<Rightarrow> 'a uheap_scheme" where
  "set_tbl a t s = s\<lparr>tbls := (tbls s)(a \<mapsto> t)\<rparr>"

text \<open>\<open>(head)->hh.tbl\<close>\<close>

definition tbl_of :: "'a uheap_scheme \<Rightarrow> addr option \<Rightarrow> (addr \<times> utable) res" where
  "tbl_of s head = andThen (deref (items s) head) (\<lambda>(a, i). deref (tbls s) (h_tbl (i_hh i)))"

definition bucket_at :: "utable \<Rightarrow> u32 \<Rightarrow> ubucket res" where
  "bucket_at t b = (if unat b < length (buckets t) then Inr (buckets t ! unat b) else Inl OutOfBounds)"

definition set_bucket :: "addr \<Rightarrow> utable \<Rightarrow> u32 \<Rightarrow> ubucket \<Rightarrow> 'a uheap_scheme \<Rightarrow> 'a uheap_scheme" where
  "set_bucket ta t b bk s = set_tbl ta (t\<lparr>buckets := (buckets t)[unat b := bk]\<rparr>) s"

definition hash_to_bkt :: "u32 \<Rightarrow> u32 \<Rightarrow> u32" where
  "hash_to_bkt hashv num_bkts = hashv AND (num_bkts - 1)"

section \<open>Lookup\<close>

text \<open>
  \<open>HASH_FIND_IN_BKT\<close>: follow the chain of a bucket from \<open>out\<close>. The fuel bounds the number of
  links followed.
\<close>

fun find_in_bkt :: "'a uheap_scheme \<Rightarrow> u32 \<Rightarrow> int \<Rightarrow> nat \<Rightarrow> addr option \<Rightarrow> addr option res" where
  "find_in_bkt s hashv idn n None = Inr None"
| "find_in_bkt s hashv idn 0 (Some out) = Inl Diverge"
| "find_in_bkt s hashv idn (Suc n) (Some out) =
     andThen (deref (items s) (Some out)) (\<lambda>(a, i).
       if h_hashv (i_hh i) = hashv \<and> h_keylen (i_hh i) = 4
       then andThen (deref (items s) (h_key (i_hh i))) (\<lambda>(k, ki).
         if int_bytes (i_id ki) = int_bytes idn then Inr (Some out)
         else find_in_bkt s hashv idn n (hh_next (i_hh i)))
       else find_in_bkt s hashv idn n (hh_next (i_hh i)))"

text \<open>
  \<open>HASH_FIND_INT\<close>, that is \<open>HASH_FIND\<close> with the bytes of an \<open>int\<close> and \<open>HASH_FIND_BYHASHVALUE\<close>.
  Every item was allocated by a call of its own, so the number of calls bounds a chain.
\<close>

definition hash_find_int :: "'a uheap_scheme \<Rightarrow> addr option \<Rightarrow> int \<Rightarrow> addr option res" where
  "hash_find_int s head idn =
     (if head = None then Inr None
      else let hashv = hash_jen (int_bytes idn) in
        andThen (tbl_of s head) (\<lambda>(ta, t).
        andThen (bucket_at t (hash_to_bkt hashv (num_buckets t))) (\<lambda>b.
          find_in_bkt s hashv idn (Suc (tick s)) (hh_head b))))"

section \<open>Deletion\<close>

text \<open>\<open>HASH_DEL_IN_BKT\<close> for the bucket \<open>b\<close> of the table at \<open>ta\<close>.\<close>

definition del_in_bkt :: "addr \<Rightarrow> u32 \<Rightarrow> addr \<Rightarrow> 'a uheap_scheme \<Rightarrow> 'a uheap_scheme res" where
  "del_in_bkt ta b d s =
     andThen (deref (tbls s) (Some ta)) (\<lambda>(ta, t).
     andThen (bucket_at t b) (\<lambda>bk.
     andThen (deref (items s) (Some d)) (\<lambda>(d, di).
       let hd = i_hh di;
           bk = bk\<lparr>b_count := b_count bk - 1\<rparr>;
           bk = (if hh_head bk = Some d then bk\<lparr>hh_head := hh_next hd\<rparr> else bk);
           s = set_bucket ta t b bk s in
       andThen (if hh_prev hd = None then Inr s
                else modify_hh (hh_prev hd) (\<lambda>h. h\<lparr>hh_next := hh_next hd\<rparr>) s) (\<lambda>s.
       if hh_next hd = None then Inr s
       else modify_hh (hh_next hd) (\<lambda>h. h\<lparr>hh_prev := hh_prev hd\<rparr>) s))))"

text \<open>
  \<open>HASH_DELETE\<close> of the item at \<open>d\<close>: the new head and heap. The last item of a table takes the
  table with it.
\<close>

definition hash_delete ::
  "addr option \<Rightarrow> addr \<Rightarrow> 'a uheap_scheme \<Rightarrow> (addr option \<times> 'a uheap_scheme) res" where
  "hash_delete head d s =
     andThen (deref (items s) (Some d)) (\<lambda>(d, di).
       let hd = i_hh di in
       if h_prev hd = None \<and> h_next hd = None
       then andThen (tbl_of s head) (\<lambda>(ta, t). Inr (None, s\<lparr>tbls := (tbls s)(ta := None)\<rparr>))
       else
         andThen (tbl_of s head) (\<lambda>(ta, t).
         let s = (if t_tail t = Some d then set_tbl ta (t\<lparr>t_tail := h_prev hd\<rparr>) s else s) in
         andThen (if h_prev hd \<noteq> None
                  then andThen (modify_hh (h_prev hd) (\<lambda>h. h\<lparr>h_next := h_next hd\<rparr>) s) (\<lambda>s. Inr (head, s))
                  else Inr (h_next hd, s)) (\<lambda>(head, s).
         andThen (if h_next hd \<noteq> None
                  then modify_hh (h_next hd) (\<lambda>h. h\<lparr>h_prev := h_prev hd\<rparr>) s
                  else Inr s) (\<lambda>s.
         andThen (tbl_of s head) (\<lambda>(ta, t).
         andThen (del_in_bkt ta (hash_to_bkt (h_hashv hd) (num_buckets t)) d s) (\<lambda>s.
         andThen (tbl_of s head) (\<lambda>(ta, t).
           Inr (head, set_tbl ta (t\<lparr>num_items := num_items t - 1\<rparr>) s))))))))"

section \<open>Insertion\<close>

text \<open>\<open>HASH_MAKE_TABLE\<close> for the first item.\<close>

definition hash_make_table :: "env \<Rightarrow> addr \<Rightarrow> 'a uheap_scheme \<Rightarrow> 'a uheap_scheme res" where
  "hash_make_table E a s =
     (let ta = tick s; s = step s in
      if \<not> e_malloc E ta then Inl (Exit (-1))
      else let ba = tick s; s = step s in
        if \<not> e_malloc E ba then Inl (Exit (-1))
        else let t = \<lparr>buckets = replicate 32 bucket_zero, num_buckets = 32, log2_num_buckets = 5,
                   num_items = 0, t_tail = Some a, ideal_chain_maxlen = 0, nonideal_items = 0,
                   ineff_expands = 0, noexpand = 0, signature = 0xa0111fe1\<rparr> in
          modify_hh (Some a) (\<lambda>h. h\<lparr>h_tbl := Some ta\<rparr>) (set_tbl ta t s))"

text \<open>\<open>HASH_APPEND_LIST\<close>\<close>

definition hash_append_list :: "addr option \<Rightarrow> addr \<Rightarrow> 'a uheap_scheme \<Rightarrow> 'a uheap_scheme res" where
  "hash_append_list head a s =
     andThen (tbl_of s head) (\<lambda>(ta, t).
     andThen (modify_hh (Some a) (\<lambda>h. h\<lparr>h_next := None, h_prev := t_tail t\<rparr>) s) (\<lambda>s.
     andThen (modify_hh (t_tail t) (\<lambda>h. h\<lparr>h_next := Some a\<rparr>) s) (\<lambda>s.
       Inr (set_tbl ta (t\<lparr>t_tail := Some a\<rparr>) s))))"

text \<open>
  \<open>HASH_EXPAND_BUCKETS\<close>: the inner loop moves one chain into the new buckets, counting the
  items whose position exceeds the ideal; the outer loop goes over the old buckets.
\<close>

definition grow_bucket :: "u32 \<Rightarrow> ubucket \<Rightarrow> ubucket" where
  "grow_bucket ideal b =
     (let b = b\<lparr>b_count := b_count b + 1\<rparr> in
      if ideal < b_count b \<and> expand_mult b * ideal < b_count b
      then b\<lparr>expand_mult := expand_mult b + 1\<rparr> else b)"

fun expand_chain ::
  "u32 \<Rightarrow> u32 \<Rightarrow> nat \<Rightarrow> addr option \<Rightarrow> ubucket list \<Rightarrow> u32 \<Rightarrow> 'a uheap_scheme \<Rightarrow>
   (ubucket list \<times> u32 \<times> 'a uheap_scheme) res" where
  "expand_chain nb2 ideal n None nbs nonideal s = Inr (nbs, nonideal, s)"
| "expand_chain nb2 ideal 0 (Some a) nbs nonideal s = Inl Diverge"
| "expand_chain nb2 ideal (Suc n) (Some a) nbs nonideal s =
     andThen (deref (items s) (Some a)) (\<lambda>(a, i).
       let nxt = hh_next (i_hh i); bi = unat (hash_to_bkt (h_hashv (i_hh i)) nb2) in
       if length nbs \<le> bi then Inl OutOfBounds
       else
         let b = grow_bucket ideal (nbs ! bi) in
         andThen (modify_hh (Some a) (\<lambda>h. h\<lparr>hh_prev := None, hh_next := hh_head b\<rparr>) s) (\<lambda>s.
         andThen (if hh_head b = None then Inr s
                  else modify_hh (hh_head b) (\<lambda>h. h\<lparr>hh_prev := Some a\<rparr>) s) (\<lambda>s.
         expand_chain nb2 ideal n nxt (nbs[bi := b\<lparr>hh_head := Some a\<rparr>])
           (if ideal < b_count b then nonideal + 1 else nonideal) s)))"

fun expand_all ::
  "u32 \<Rightarrow> u32 \<Rightarrow> ubucket list \<Rightarrow> ubucket list \<Rightarrow> u32 \<Rightarrow> 'a uheap_scheme \<Rightarrow>
   (ubucket list \<times> u32 \<times> 'a uheap_scheme) res" where
  "expand_all nb2 ideal [] nbs nonideal s = Inr (nbs, nonideal, s)"
| "expand_all nb2 ideal (b # bs) nbs nonideal s =
     andThen (expand_chain nb2 ideal (Suc (tick s)) (hh_head b) nbs nonideal s)
       (\<lambda>(nbs, nonideal, s). expand_all nb2 ideal bs nbs nonideal s)"

definition hash_expand_buckets :: "env \<Rightarrow> addr \<Rightarrow> 'a uheap_scheme \<Rightarrow> 'a uheap_scheme res" where
  "hash_expand_buckets E ta s =
     andThen (deref (tbls s) (Some ta)) (\<lambda>(ta, t).
       let ba = tick s; s = step s in
       if \<not> e_malloc E ba then Inl (Exit (-1))
       else
         let ideal = drop_bit (unat (log2_num_buckets t + 1)) (num_items t) +
               (if num_items t AND (num_buckets t * 2 - 1) \<noteq> 0 then 1 else 0) in
         andThen (expand_all (num_buckets t * 2) ideal (buckets t)
                   (replicate (2 * unat (num_buckets t)) bucket_zero) 0 s) (\<lambda>(nbs, nonideal, s).
           let ineff = (if drop_bit 1 (num_items t) < nonideal then ineff_expands t + 1 else 0) in
           Inr (set_tbl ta (t\<lparr>buckets := nbs, num_buckets := num_buckets t * 2,
                  log2_num_buckets := log2_num_buckets t + 1, ideal_chain_maxlen := ideal,
                  nonideal_items := nonideal, ineff_expands := ineff,
                  noexpand := (if 1 < ineff then 1 else noexpand t)\<rparr>) s)))"

text \<open>\<open>HASH_ADD_TO_BKT\<close>\<close>

definition add_to_bkt :: "env \<Rightarrow> addr \<Rightarrow> u32 \<Rightarrow> addr \<Rightarrow> 'a uheap_scheme \<Rightarrow> 'a uheap_scheme res" where
  "add_to_bkt E ta b a s =
     andThen (deref (tbls s) (Some ta)) (\<lambda>(ta, t).
     andThen (bucket_at t b) (\<lambda>bk.
       let bk = bk\<lparr>b_count := b_count bk + 1\<rparr> in
       andThen (modify_hh (Some a) (\<lambda>h. h\<lparr>hh_next := hh_head bk, hh_prev := None\<rparr>) s) (\<lambda>s.
       andThen (if hh_head bk = None then Inr s
                else modify_hh (hh_head bk) (\<lambda>h. h\<lparr>hh_prev := Some a\<rparr>) s) (\<lambda>s.
       let s = set_bucket ta t b (bk\<lparr>hh_head := Some a\<rparr>) s in
       if (expand_mult bk + 1) * 10 \<le> b_count bk \<and> noexpand t = 0
       then hash_expand_buckets E ta s else Inr s))))"

text \<open>\<open>HASH_ADD_INT\<close>, that is \<open>HASH_ADD_KEYPTR_BYHASHVALUE\<close> and \<open>HASH_ADD_TO_TABLE\<close>.\<close>

definition hash_add_to_table ::
  "env \<Rightarrow> addr option \<Rightarrow> u32 \<Rightarrow> addr \<Rightarrow> 'a uheap_scheme \<Rightarrow> 'a uheap_scheme res" where
  "hash_add_to_table E head hashv a s =
     andThen (tbl_of s head) (\<lambda>(ta, t).
       add_to_bkt E ta (hash_to_bkt hashv (num_buckets t)) a
         (set_tbl ta (t\<lparr>num_items := num_items t + 1\<rparr>) s))"

definition hash_add_int ::
  "env \<Rightarrow> addr option \<Rightarrow> addr \<Rightarrow> 'a uheap_scheme \<Rightarrow> (addr option \<times> 'a uheap_scheme) res" where
  "hash_add_int E head a s =
     andThen (deref (items s) (Some a)) (\<lambda>(a, i).
       let hashv = hash_jen (int_bytes (i_id i)) in
       andThen (modify_hh (Some a) (\<lambda>h. h\<lparr>h_hashv := hashv, h_key := Some a, h_keylen := 4\<rparr>) s) (\<lambda>s.
       andThen (if head = None
                then andThen (modify_hh (Some a) (\<lambda>h. h\<lparr>h_next := None, h_prev := None\<rparr>) s) (\<lambda>s.
                       hash_make_table E a s)
                else andThen (tbl_of s head) (\<lambda>(ta, t).
                     andThen (modify_hh (Some a) (\<lambda>h. h\<lparr>h_tbl := Some ta\<rparr>) s) (\<lambda>s.
                       hash_append_list head a s))) (\<lambda>s.
         let head = (if head = None then Some a else head) in
         andThen (hash_add_to_table E head hashv a s) (\<lambda>s. Inr (head, s)))))"

end
