(* ===== verification/Conn_Dict.thy ===== *)
theory Conn_Dict
  imports Uthash
begin

text \<open>
  The connection dictionary of \<^verbatim>\<open>main/backend.c\<close> (\<open>dict_init\<close> to \<open>dict_get\<close>): a counter and the
  head of a hash table from descriptors to connections. The heap gains the dictionaries and the
  connection objects they hold. Every branch of the functions is modelled, the ones on a
  non-empty table included; the theorems show that no run of the program ever has one.
\<close>

section \<open>Data\<close>

text \<open>\<open>conn_t\<close>: \<open>sock_handle\<close> is a pointer into the socket table, the index of an entry.\<close>

record conn_t =
  fd_ds :: int
  sock_handle :: "nat option"
  mqweb :: mq_t
  mqlocal :: mq_t

record dict_t =
  d_size :: size_t
  d_base :: "addr option"

record dheap = uheap +
  dicts :: "addr \<rightharpoonup> dict_t"
  conns :: "addr \<rightharpoonup> conn_t"

lemma step_dheap [simp, frame_simps]:
  "dicts (step s) = dicts s" "conns (step s) = conns s" "dheap.more (step s) = dheap.more s"
  by (simp_all add: step_def)

lemma emit_dheap [simp, frame_simps]:
  "dicts (emit e s) = dicts s" "conns (emit e s) = conns s" "dheap.more (emit e s) = dheap.more s"
  by (simp_all add: emit_def)

text \<open>
  Freshly allocated objects: links are \<open>Uninit\<close>, and the contents of an integer are whatever the
  memory held. The handle of a fresh item is not read before it is added to a table.
\<close>

definition hh_raw :: hh where
  "hh_raw = \<lparr>h_tbl = None, h_prev = None, h_next = None, hh_prev = None, hh_next = None,
     h_key = None, h_keylen = 0, h_hashv = 0\<rparr>"

definition conn_raw :: "env \<Rightarrow> nat \<Rightarrow> conn_t" where
  "conn_raw E a = \<lparr>fd_ds = e_junk E a, sock_handle = None,
     mqweb = \<lparr>stqh_first = Uninit, stqh_last = LUninit\<rparr>,
     mqlocal = \<lparr>stqh_first = Uninit, stqh_last = LUninit\<rparr>\<rparr>"

section \<open>Operations\<close>

definition dict_init :: "env \<Rightarrow> 'a dheap_scheme \<Rightarrow> addr option \<times> 'a dheap_scheme" where
  "dict_init E s =
     (let a = tick s; s = step s in
      if e_malloc E a then (Some a, s\<lparr>dicts := (dicts s)(a \<mapsto> \<lparr>d_size = 0, d_base = None\<rparr>)\<rparr>)
      else (None, s))"

definition sub_finditem :: "dict_t \<Rightarrow> int \<Rightarrow> 'a dheap_scheme \<Rightarrow> addr option res" where
  "sub_finditem d idn s = hash_find_int s (d_base d) idn"

text \<open>The loop of \<open>dict_deinit\<close> (\<open>HASH_ITER\<close>): unlink and free every item of the table.\<close>

fun deinit_loop ::
  "nat \<Rightarrow> addr option \<Rightarrow> addr option \<Rightarrow> addr option \<Rightarrow> 'a dheap_scheme \<Rightarrow> 'a dheap_scheme res" where
  "deinit_loop n itemtab None tmp s = Inr s"
| "deinit_loop 0 itemtab (Some i) tmp s = Inl Diverge"
| "deinit_loop (Suc n) itemtab (Some i) tmp s =
     andThen (hash_delete itemtab i s) (\<lambda>(itemtab, s).
     let s = s\<lparr>items := (items s)(i := None)\<rparr> in
     andThen (if tmp = None then Inr None
              else andThen (deref (items s) tmp) (\<lambda>(t, ti). Inr (h_next (i_hh ti)))) (\<lambda>nxt.
     deinit_loop n itemtab tmp nxt s))"

definition dict_deinit :: "addr option \<Rightarrow> 'a dheap_scheme \<Rightarrow> 'a dheap_scheme res" where
  "dict_deinit handle s =
     (if handle = None then Inr s
      else andThen (deref (dicts s) handle) (\<lambda>(h, d).
        andThen (if d_base d = None then Inr None
                 else andThen (deref (items s) (d_base d)) (\<lambda>(b, bi). Inr (h_next (i_hh bi)))) (\<lambda>tmp.
        andThen (deinit_loop (Suc (tick s)) (d_base d) (d_base d) tmp s) (\<lambda>s.
          Inr (s\<lparr>dicts := (dicts s)(h := None)\<rparr>)))))"

definition dict_del :: "addr option \<Rightarrow> int \<Rightarrow> 'a dheap_scheme \<Rightarrow> (int \<times> 'a dheap_scheme) res" where
  "dict_del handle idn s =
     (if handle = None then Inr (0, s)
      else andThen (deref (dicts s) handle) (\<lambda>(h, d).
        if d_base d = None then Inr (0, s)
        else andThen (sub_finditem d idn s) (\<lambda>input.
          case input of
            None \<Rightarrow> Inr (0, s)
          | Some i \<Rightarrow>
              andThen (hash_delete (d_base d) i s) (\<lambda>(base, s).
              andThen (deref (items s) (Some i)) (\<lambda>(i, it).
              andThen (case i_data it of None \<Rightarrow> Inr s
                  | Some c \<Rightarrow> if conns s c = None then Inl DanglingDeref
                      else Inr (s\<lparr>conns := (conns s)(c := None)\<rparr>)) (\<lambda>s.
              Inr (1, s\<lparr>items := (items s)(i := None),
                dicts := (dicts s)(h \<mapsto> \<lparr>d_size = d_size d - 1, d_base = base\<rparr>)\<rparr>)))))))"

text \<open>
  \<open>dict_new\<close>: the code that goes to \<open>*err\<close>, the data pointer and the heap. The new item is
  filled and counted.
\<close>

definition dict_new ::
  "env \<Rightarrow> addr option \<Rightarrow> int \<Rightarrow> 'a dheap_scheme \<Rightarrow> (int \<times> addr option \<times> 'a dheap_scheme) res" where
  "dict_new E handle idn s =
     (if handle = None then Inr (1, None, s)
      else andThen (deref (dicts s) handle) (\<lambda>(h, d).
        andThen (sub_finditem d idn s) (\<lambda>input.
        if input \<noteq> None
        then andThen (deref (items s) input) (\<lambda>(i, it). Inr (2, i_data it, s))
        else let i = tick s; s = step s in
          if \<not> e_malloc E i then Inr (3, None, s)
          else let c = tick s; s = step s in
            if \<not> e_malloc E c then Inr (4, None, s)
            else Inr (0, Some c,
              s\<lparr>items := (items s)(i \<mapsto> \<lparr>i_id = idn, i_data = Some c, i_hh = hh_raw\<rparr>),
                conns := (conns s)(c \<mapsto> conn_raw E c),
                dicts := (dicts s)(h \<mapsto> d\<lparr>d_size := d_size d + 1\<rparr>)\<rparr>))))"

definition dict_get :: "addr option \<Rightarrow> int \<Rightarrow> 'a dheap_scheme \<Rightarrow> addr option res" where
  "dict_get handle idn s =
     (if handle = None then Inr None
      else andThen (deref (dicts s) handle) (\<lambda>(h, d).
        if d_base d = None then Inr None
        else andThen (sub_finditem d idn s) (\<lambda>it.
          if it = None then Inr None
          else andThen (deref (items s) it) (\<lambda>(i, iti). Inr (i_data iti)))))"

section \<open>A dictionary whose table is empty\<close>

definition no_table :: "addr \<Rightarrow> 'a dheap_scheme \<Rightarrow> bool" where
  "no_table h s \<longleftrightarrow> (case dicts s h of None \<Rightarrow> False | Some d \<Rightarrow> d_base d = None)"

lemma no_tableE:
  assumes "no_table h s"
  obtains d where "dicts s h = Some d" "d_base d = None"
  using assms by (auto simp: no_table_def split: option.splits)

lemma hash_find_None [simp]: "hash_find_int s None idn = Inr None"
  by (simp add: hash_find_int_def)

lemma dict_get_no_table: "no_table h s \<Longrightarrow> dict_get (Some h) idn s = Inr None"
  by (auto simp: dict_get_def elim: no_tableE)

lemma dict_del_no_table: "no_table h s \<Longrightarrow> dict_del (Some h) idn s = Inr (0, s)"
  by (auto simp: dict_del_def elim: no_tableE)

lemma dict_deinit_no_table:
  "no_table h s \<Longrightarrow> dict_deinit (Some h) s = Inr (s\<lparr>dicts := (dicts s)(h := None)\<rparr>)"
  by (auto simp: dict_deinit_def elim!: no_tableE)

text \<open>What \<open>dict_new\<close> does to a dictionary without a table.\<close>

definition dict_added :: "env \<Rightarrow> addr \<Rightarrow> int \<Rightarrow> 'a dheap_scheme \<Rightarrow> 'a dheap_scheme" where
  "dict_added E h idn s =
     (let i = tick s; c = Suc i; s' = step (step s) in
      s'\<lparr>items := (items s)(i \<mapsto> \<lparr>i_id = idn, i_data = Some c, i_hh = hh_raw\<rparr>),
         conns := (conns s)(c \<mapsto> conn_raw E c),
         dicts := (dicts s)(h := map_option (\<lambda>d. d\<lparr>d_size := d_size d + 1\<rparr>) (dicts s h))\<rparr>)"

lemma dict_new_no_table:
  assumes "no_table h s"
  shows "dict_new E (Some h) idn s =
    (if \<not> e_malloc E (tick s) then Inr (3, None, step s)
     else if \<not> e_malloc E (Suc (tick s)) then Inr (4, None, step (step s))
     else Inr (0, Some (Suc (tick s)), dict_added E h idn s))"
proof -
  from assms obtain d where d: "dicts s h = Some d" "d_base d = None" by (rule no_tableE)
  then have "sub_finditem d idn s = Inr None" by (simp add: sub_finditem_def)
  with d show ?thesis by (simp add: dict_new_def dict_added_def Let_def)
qed

lemma dict_added_sel [simp, frame_simps]:
  "tick (dict_added E h idn s) = Suc (Suc (tick s))" "log (dict_added E h idn s) = log s"
  "blocks (dict_added E h idn s) = blocks s" "msgs (dict_added E h idn s) = msgs s"
  "tbls (dict_added E h idn s) = tbls s" "dheap.more (dict_added E h idn s) = dheap.more s"
  "conns (dict_added E h idn s) = (conns s)(Suc (tick s) \<mapsto> conn_raw E (Suc (tick s)))"
  by (simp_all add: dict_added_def Let_def)

lemma no_table_added: "no_table h s \<Longrightarrow> no_table h (dict_added E h idn s)"
  by (auto simp: no_table_def dict_added_def Let_def split: option.splits)

lemma no_table_cong: "dicts s' = dicts s \<Longrightarrow> no_table h s' = no_table h s"
  by (simp add: no_table_def)

section \<open>Histories of a dictionary\<close>

datatype dict_op = New int | Del int | Find int

datatype dict_ret = RNew int "addr option" | RDel int | RFind "addr option"

fun dict_run :: "env \<Rightarrow> addr option \<Rightarrow> dict_op list \<Rightarrow> 'a dheap_scheme \<Rightarrow> (dict_ret list \<times> 'a dheap_scheme) res" where
  "dict_run E h [] s = Inr ([], s)"
| "dict_run E h (New n # ops) s =
     andThen (dict_new E h n s) (\<lambda>(err, p, s).
     andThen (dict_run E h ops s) (\<lambda>(rs, s). Inr (RNew err p # rs, s)))"
| "dict_run E h (Del n # ops) s =
     andThen (dict_del h n s) (\<lambda>(k, s).
     andThen (dict_run E h ops s) (\<lambda>(rs, s). Inr (RDel k # rs, s)))"
| "dict_run E h (Find n # ops) s =
     andThen (dict_get h n s) (\<lambda>p.
     andThen (dict_run E h ops s) (\<lambda>(rs, s). Inr (RFind p # rs, s)))"

definition num_news :: "dict_ret list \<Rightarrow> nat" where
  "num_news rs = length (filter (\<lambda>r. case r of RNew err _ \<Rightarrow> err = 0 | _ \<Rightarrow> False) rs)"

definition dict_size :: "addr \<Rightarrow> 'a dheap_scheme \<Rightarrow> size_t" where
  "dict_size h s = (case dicts s h of None \<Rightarrow> 0 | Some d \<Rightarrow> d_size d)"

lemma dict_size_added: "no_table h s \<Longrightarrow> dict_size h (dict_added E h idn s) = dict_size h s + 1"
  by (auto simp: dict_size_def dict_added_def Let_def elim!: no_tableE)

lemma dict_size_step [simp]: "dict_size h (step s) = dict_size h s"
  by (simp add: dict_size_def)

text \<open>
  C36: over any history of \<open>dict_new\<close>, \<open>dict_del\<close> and \<open>dict_get\<close> on a dictionary that starts
  without a table, no operation faults, every lookup returns NULL, every deletion deletes
  nothing, the table stays empty, and the size counts the successful additions: the items made
  by \<open>dict_new\<close> are never put into the hash table.
\<close>

theorem dict_never_stores:
  assumes "no_table h s"
  shows "\<exists>rs s'. dict_run E (Some h) ops s = Inr (rs, s') \<and> no_table h s' \<and>
    list_all (\<lambda>r. case r of RFind p \<Rightarrow> p = None | RDel k \<Rightarrow> k = 0 | RNew err p \<Rightarrow> err = 0 \<or> p = None) rs \<and>
    dict_size h s' = dict_size h s + of_nat (num_news rs)"
  using assms
proof (induction ops arbitrary: s)
  case Nil
  then show ?case by (simp add: num_news_def)
next
  case (Cons x ops)
  show ?case
  proof (cases x)
    case (New n)
    note steps = dict_new_no_table [OF Cons.prems, of E n]
    consider "\<not> e_malloc E (tick s)" | "e_malloc E (tick s)" "\<not> e_malloc E (Suc (tick s))"
      | "e_malloc E (tick s)" "e_malloc E (Suc (tick s))" by blast
    then show ?thesis
    proof cases
      case 1
      with New steps Cons.prems Cons.IH [of "step s"] show ?thesis
        by (auto simp: no_table_cong [of "step s" s] num_news_def)
    next
      case 2
      with New steps Cons.prems Cons.IH [of "step (step s)"] show ?thesis
        by (auto simp: no_table_cong [of "step (step s)" s] num_news_def)
    next
      case 3
      with New steps Cons.IH [OF no_table_added [OF Cons.prems], of E n]
        dict_size_added [OF Cons.prems, of E n]
      show ?thesis by (auto simp: num_news_def algebra_simps)
    qed
  next
    case (Del n)
    with Cons.IH [OF Cons.prems] dict_del_no_table [OF Cons.prems] show ?thesis
      by (auto simp: num_news_def)
  next
    case (Find n)
    with Cons.IH [OF Cons.prems] dict_get_no_table [OF Cons.prems] show ?thesis
      by (auto simp: num_news_def)
  qed
qed

definition demo_dheap :: dheap where
  "demo_dheap = \<lparr>tick = 1, log = [], live = {}, blocks = Map.empty, msgs = Map.empty, items = Map.empty,
     tbls = Map.empty, dicts = [0 \<mapsto> \<lparr>d_size = 0, d_base = None\<rparr>], conns = Map.empty\<rparr>"

theorem dict_never_stores_witness:
  "\<exists>rs s'. dict_run demo_env (Some 0) [New 5, Find 5, Del 5] demo_dheap = Inr (rs, s') \<and>
     no_table 0 s'"
proof -
  have "no_table 0 demo_dheap" by (simp add: no_table_def demo_dheap_def)
  from dict_never_stores [OF this, of demo_env "[New 5, Find 5, Del 5]"]
  show ?thesis by (auto simp del: dict_run.simps)
qed

end
