(* ===== verification/Backend.thy ===== *)
theory Backend
  imports Socklist Conn_Dict
begin

text \<open>
  The connections of \<^verbatim>\<open>main/backend.c\<close> (\<open>conn_new\<close> to \<open>conn_get_protocolname\<close>): a connection ties
  a websocket to a client socket of a daemon, with a queue of messages in each direction. The
  backend object itself does not change while callbacks run, so the operations take it as a
  value; a NULL handle is \<open>None\<close>.
\<close>

section \<open>Data\<close>

datatype birq_type = BIRQ_NONE | BIRQ_GLOBAL | BIRQ_ALL

record backend_t =
  socklist :: "socklist_t option"
  buf :: "addr option"
  bufsize :: size_t
  filedict :: "addr option"

text \<open>The two queues of a connection: \<open>mqweb\<close> and \<open>mqlocal\<close>.\<close>

datatype dir = Web | Local

definition cq :: "dir \<Rightarrow> conn_t \<Rightarrow> mq_t" where
  "cq d c = (case d of Web \<Rightarrow> mqweb c | Local \<Rightarrow> mqlocal c)"

definition set_cq :: "dir \<Rightarrow> mq_t \<Rightarrow> conn_t \<Rightarrow> conn_t" where
  "set_cq d q c = (case d of Web \<Rightarrow> c\<lparr>mqweb := q\<rparr> | Local \<Rightarrow> c\<lparr>mqlocal := q\<rparr>)"

definition set_conn :: "addr \<Rightarrow> conn_t \<Rightarrow> 'a dheap_scheme \<Rightarrow> 'a dheap_scheme" where
  "set_conn c cn s = s\<lparr>conns := (conns s)(c \<mapsto> cn)\<rparr>"

section \<open>Messages\<close>

text \<open>\<open>memcpy(msg->data + off, src, len)\<close>; reading past the end of the source is a fault.\<close>

definition memcpy_msg ::
  "addr option \<Rightarrow> nat \<Rightarrow> bytes option \<Rightarrow> size_t \<Rightarrow> 'a heap_scheme \<Rightarrow> 'a heap_scheme res" where
  "memcpy_msg msg off src len s =
     andThen (deref (msgs s) msg) (\<lambda>(a, m).
     andThen (deref (blocks s) (Some (m_data m))) (\<lambda>(d, bs).
       case src of None \<Rightarrow> Inl NullDeref
       | Some xs \<Rightarrow>
           if length xs < unat len then Inl OutOfBounds
           else andThen (poke bs off (take (unat len) xs)) (\<lambda>bs.
             Inr (s\<lparr>blocks := (blocks s)(d \<mapsto> bs)\<rparr>))))"

text \<open>
  \<open>frontend_createmsg\<close> of \<^verbatim>\<open>main/frontend.c\<close>: a message with \<open>LWS_PRE\<close> bytes of room in front.
  The size recorded in the message is that of the whole block.
\<close>

definition frontend_createmsg ::
  "env \<Rightarrow> bytes option \<Rightarrow> size_t \<Rightarrow> 'a heap_scheme \<Rightarrow> (addr option \<times> 'a heap_scheme) res" where
  "frontend_createmsg E inp len s =
     (if inp \<noteq> None \<and> len \<noteq> 0
      then let (msg, s) = msg_new E (len + e_lws_pre E) s in
        if msg \<noteq> None
        then andThen (memcpy_msg msg (unat (e_lws_pre E)) inp len s) (\<lambda>s. Inr (msg, s))
        else Inr (None, s)
      else Inr (None, s))"

text \<open>The queue operations on \<open>&conn->mqweb\<close> and \<open>&conn->mqlocal\<close>.\<close>

definition conn_enqueue ::
  "dir \<Rightarrow> addr option \<Rightarrow> addr option \<Rightarrow> 'a dheap_scheme \<Rightarrow> 'a dheap_scheme res" where
  "conn_enqueue d conn msg s =
     andThen (deref (conns s) conn) (\<lambda>(c, cn).
     andThen (mq_putmsg (cq d cn) msg s) (\<lambda>(q, s). Inr (set_conn c (set_cq d q cn) s)))"

definition conn_dequeue ::
  "dir \<Rightarrow> addr option \<Rightarrow> 'a dheap_scheme \<Rightarrow> (addr option \<times> 'a dheap_scheme) res" where
  "conn_dequeue d conn s =
     andThen (deref (conns s) conn) (\<lambda>(c, cn).
     andThen (mq_getmsg (cq d cn) s) (\<lambda>(msg, q). Inr (msg, set_conn c (set_cq d q cn) s)))"

definition conn_nonempty :: "dir \<Rightarrow> addr option \<Rightarrow> 'a dheap_scheme \<Rightarrow> bool res" where
  "conn_nonempty d conn s =
     andThen (deref (conns s) conn) (\<lambda>(c, cn). andThen (mq_isempty (cq d cn)) (\<lambda>e. Inr (\<not> e)))"

definition conn_putmsg_forweb ::
  "env \<Rightarrow> addr option \<Rightarrow> bytes option \<Rightarrow> size_t \<Rightarrow> 'a dheap_scheme \<Rightarrow> (int \<times> 'a dheap_scheme) res" where
  "conn_putmsg_forweb E conn data len s =
     (if conn = None \<or> data = None \<or> len = 0 then Inr (-1, s)
      else andThen (frontend_createmsg E data len s) (\<lambda>(msg, s).
        if msg = None then Inr (-2, s)
        else andThen (conn_enqueue Web conn msg s) (\<lambda>s. Inr (0, s))))"

definition conn_putmsg_forlocal ::
  "env \<Rightarrow> addr option \<Rightarrow> bytes option \<Rightarrow> size_t \<Rightarrow> 'a dheap_scheme \<Rightarrow> (int \<times> 'a dheap_scheme) res" where
  "conn_putmsg_forlocal E conn data len s =
     (if conn = None \<or> data = None \<or> len = 0 then Inr (-1, s)
      else let (msg, s) = msg_new E len s in
        if msg = None then Inr (-2, s)
        else andThen (memcpy_msg msg 0 data len s) (\<lambda>s.
          andThen (conn_enqueue Local conn msg s) (\<lambda>s. Inr (0, s))))"

definition conn_getmsg_forweb :: "addr option \<Rightarrow> 'a dheap_scheme \<Rightarrow> (addr option \<times> 'a dheap_scheme) res" where
  "conn_getmsg_forweb conn s = (if conn \<noteq> None then conn_dequeue Web conn s else Inr (None, s))"

definition conn_getmsg_forlocal :: "addr option \<Rightarrow> 'a dheap_scheme \<Rightarrow> (addr option \<times> 'a dheap_scheme) res" where
  "conn_getmsg_forlocal conn s = (if conn \<noteq> None then conn_dequeue Local conn s else Inr (None, s))"

definition conn_hasmsg_forweb :: "addr option \<Rightarrow> 'a dheap_scheme \<Rightarrow> bool res" where
  "conn_hasmsg_forweb conn s = (if conn \<noteq> None then conn_nonempty Web conn s else Inr False)"

definition conn_hasmsg_forlocal :: "addr option \<Rightarrow> 'a dheap_scheme \<Rightarrow> bool res" where
  "conn_hasmsg_forlocal conn s = (if conn \<noteq> None then conn_nonempty Local conn s else Inr False)"

section \<open>Opening and closing\<close>

definition conn_new ::
  "env \<Rightarrow> backend_t option \<Rightarrow> string option \<Rightarrow> 'a dheap_scheme \<Rightarrow> (addr option \<times> 'a dheap_scheme) res" where
  "conn_new E backend ws_name s =
     (case backend of None \<Rightarrow> Inr (None, s)
      | Some b \<Rightarrow>
        if ws_name = None then Inr (None, s)
        else andThen (socklist_newclient E (socklist b) ws_name s) (\<lambda>(fd, lsock, s).
          if fd < 0 then Inr (None, s)
          else andThen (dict_new E (filedict b) fd s) (\<lambda>(err, conn, s).
            if err \<noteq> 0
            then let s = (if conn \<noteq> None then emit (IoCollision fd) s else s) in
              Inr (None, emit (IoClose fd) s)
            else andThen (deref (conns s) conn) (\<lambda>(c, cn).
              Inr (conn, set_conn c \<lparr>fd_ds = fd, sock_handle = lsock,
                                      mqweb = mq_init, mqlocal = mq_init\<rparr> s)))))"

definition conn_del :: "backend_t option \<Rightarrow> addr option \<Rightarrow> 'a dheap_scheme \<Rightarrow> 'a dheap_scheme res" where
  "conn_del backend conn s =
     (case backend of None \<Rightarrow> Inr s
      | Some b \<Rightarrow>
        if conn = None then Inr s
        else andThen (deref (conns s) conn) (\<lambda>(c, cn).
          andThen (dict_del (filedict b) (fd_ds cn) s) (\<lambda>(k, s). Inr s)))"

text \<open>
  \<open>conn_open\<close>: the path of the daemon socket goes into the address with \<open>strncpy\<close> bounded by
  \<open>UNIX_PATH_MAX\<close>. The table \<open>l\<close> is the memory the pointer \<open>sock_handle\<close> points into.
\<close>

definition UNIX_PATH_MAX :: nat where
  "UNIX_PATH_MAX = 104"

definition conn_open ::
  "env \<Rightarrow> socklist_t \<Rightarrow> addr option \<Rightarrow> 'a dheap_scheme \<Rightarrow> (int \<times> 'a dheap_scheme) res" where
  "conn_open E l conn s =
     (if conn = None then Inr (-1, s)
      else andThen (deref (conns s) conn) (\<lambda>(c, cn).
        case sock_handle cn of None \<Rightarrow> Inl NullDeref
        | Some i \<Rightarrow>
          if length (sl_map l) \<le> i then Inl OutOfBounds
          else case l_socket (sl_map l ! i) of None \<Rightarrow> Inl NullDeref
          | Some path \<Rightarrow>
            let rc = e_connect E (tick s) in
            Inr (rc, emit (IoConnect (fd_ds cn) (strncpy UNIX_PATH_MAX path) rc) (step s))))"

definition conn_close :: "addr option \<Rightarrow> 'a dheap_scheme \<Rightarrow> 'a dheap_scheme res" where
  "conn_close conn s =
     (if conn = None then Inr s
      else andThen (deref (conns s) conn) (\<lambda>(c, cn). Inr (emit (IoClose (fd_ds cn)) s)))"

section \<open>Reading and writing the daemon socket\<close>

text \<open>
  \<open>conn_readraw_local\<close>: the result and the value of \<open>*data\<close>. \<open>out\<close> says whether the pointer
  \<open>data\<close> is not NULL. \<open>read(2)\<close> takes at most as many bytes as it is asked for.
\<close>

definition conn_readraw_local ::
  "env \<Rightarrow> bool \<Rightarrow> backend_t option \<Rightarrow> addr option \<Rightarrow> 'a dheap_scheme \<Rightarrow>
   (int \<times> addr option \<times> 'a dheap_scheme) res" where
  "conn_readraw_local E out backend conn s =
     (case backend of None \<Rightarrow> Inr (-1, None, s)
      | Some b \<Rightarrow>
        if \<not> out \<or> conn = None then Inr (-1, None, s)
        else andThen (deref (conns s) conn) (\<lambda>(c, cn).
          let r = map_option (take (unat (bufsize b))) (e_read E (tick s));
              s = emit (IoRead (fd_ds cn) r) (step s) in
          case r of None \<Rightarrow> Inr (-1, buf b, s)
          | Some xs \<Rightarrow>
              andThen (deref (blocks s) (buf b)) (\<lambda>(d, bs).
              andThen (poke bs 0 (map Some xs)) (\<lambda>bs.
                Inr (int (length xs), buf b, s\<lparr>blocks := (blocks s)(d \<mapsto> bs)\<rparr>)))))"

text \<open>
  \<open>conn_writeraw_local\<close>; \<open>data\<close> is the address of a block, \<open>len\<close> bytes of which are written: a
  block that is shorter is a fault.
\<close>

definition conn_writeraw_local ::
  "env \<Rightarrow> backend_t option \<Rightarrow> addr option \<Rightarrow> addr option \<Rightarrow> size_t \<Rightarrow> 'a dheap_scheme \<Rightarrow>
   (int \<times> 'a dheap_scheme) res" where
  "conn_writeraw_local E backend conn data len s =
     (if data = None \<or> len = 0 \<or> backend = None \<or> conn = None then Inr (-1, s)
      else andThen (deref (conns s) conn) (\<lambda>(c, cn).
        andThen (deref (blocks s) data) (\<lambda>(d, bs).
          let rc = e_write E (tick s) in
          if length bs < unat len then Inl OutOfBounds
          else Inr (rc, emit (IoWrite (fd_ds cn) (take (unat len) bs) rc) (step s)))))"

definition conn_get_adoptiontype :: "addr option \<Rightarrow> adoption" where
  "conn_get_adoptiontype conn = (if conn \<noteq> None then LWS_ADOPT_RAW_FILE_DESC else Adoption_0)"

definition conn_get_descriptor :: "addr option \<Rightarrow> 'a dheap_scheme \<Rightarrow> int res" where
  "conn_get_descriptor conn s =
     (if conn \<noteq> None then andThen (deref (conns s) conn) (\<lambda>(c, cn). Inr (fd_ds cn)) else Inr (-1))"

definition conn_get_protocolname :: "addr option \<Rightarrow> string" where
  "conn_get_protocolname conn = ''CLI''"

end
