(* ===== verification/Conn_Store.thy ===== *)
theory Conn_Store
  imports Backend
begin

text \<open>
  The abstract view of the connections: each has two lists of byte strings, one per direction.
  \<open>qs\<close> ties the queues on the heap to lists of messages, and says that every message on the heap
  is in exactly one queue or in flight (\<open>P\<close>); \<open>holds\<close> is the resulting abstraction to contents.
  Each operation of the backend is shown to act on the contents as one expects of a FIFO.
\<close>

section \<open>The invariant of the store\<close>

text \<open>
  \<open>B\<close> names blocks that belong to no message, with their lengths (the read buffer of the
  backend); \<open>Q\<close> the messages of each queue; \<open>P\<close> the messages taken out of a queue, or not yet
  put into one.
\<close>

definition foreign :: "'a dheap_scheme \<Rightarrow> (addr \<rightharpoonup> nat) \<Rightarrow> bool" where
  "foreign s B \<longleftrightarrow> (\<forall>b n. B b = Some n \<longrightarrow>
     (\<exists>bs. blocks s b = Some bs \<and> length bs = n) \<and> (\<forall>a m. msgs s a = Some m \<longrightarrow> m_data m \<noteq> b))"

definition queued :: "'a dheap_scheme \<Rightarrow> (addr \<times> dir \<Rightarrow> addr list) \<Rightarrow> bool" where
  "queued s Q \<longleftrightarrow> (\<forall>c d. case conns s c of None \<Rightarrow> Q (c, d) = []
     | Some cn \<Rightarrow> c < tick s \<and> mq_rep s (cq d cn) (Q (c, d)))"

definition placed :: "addr set \<Rightarrow> (addr \<times> dir \<Rightarrow> addr list) \<Rightarrow> addr set \<Rightarrow> bool" where
  "placed D Q P \<longleftrightarrow> (\<forall>x y. x \<noteq> y \<longrightarrow> set (Q x) \<inter> set (Q y) = {}) \<and>
     (\<forall>x. set (Q x) \<inter> P = {}) \<and> D = (\<Union>x. set (Q x)) \<union> P"

definition qs :: "'a dheap_scheme \<Rightarrow> (addr \<rightharpoonup> nat) \<Rightarrow> (addr \<times> dir \<Rightarrow> addr list) \<Rightarrow> addr set \<Rightarrow> bool" where
  "qs s B Q P \<longleftrightarrow> heap_wf s \<and> foreign s B \<and> queued s Q \<and> placed (dom (msgs s)) Q P"

lemma foreignI:
  assumes "\<And>b n. B b = Some n \<Longrightarrow> \<exists>bs. blocks s b = Some bs \<and> length bs = n"
    "\<And>b n a m. B b = Some n \<Longrightarrow> msgs s a = Some m \<Longrightarrow> m_data m \<noteq> b"
  shows "foreign s B"
  using assms by (simp add: foreign_def)

lemma queuedI:
  assumes "\<And>c cn. conns s c = Some cn \<Longrightarrow> c < tick s"
    "\<And>c cn d. conns s c = Some cn \<Longrightarrow> mq_rep s (cq d cn) (Q (c, d))"
    "\<And>c d. conns s c = None \<Longrightarrow> Q (c, d) = []"
  shows "queued s Q"
  using assms by (simp add: queued_def split: option.splits)

lemma queued_same:
  assumes "queued s Q" "conns s' = conns s" "tick s \<le> tick s'"
    "\<And>q x. mq_rep s q (Q x) \<Longrightarrow> mq_rep s' q (Q x)"
  shows "queued s' Q"
proof -
  note Q = assms(1) [unfolded queued_def, rule_format]
  show ?thesis
  proof (rule queuedI)
    fix c cn d assume c: "conns s' c = Some cn"
    with assms(2) Q [of c d] have "c < tick s" "mq_rep s (cq d cn) (Q (c, d))" by simp_all
    with assms(3,4) show "c < tick s'" "mq_rep s' (cq d cn) (Q (c, d))" by simp_all
  next
    fix c d assume "conns s' c = None"
    with assms(2) Q [of c d] show "Q (c, d) = []" by simp
  qed
qed

lemma placedI:
  assumes "\<And>x y. x \<noteq> y \<Longrightarrow> set (Q x) \<inter> set (Q y) = {}"
    "\<And>x. set (Q x) \<inter> P = {}" "D = (\<Union>x. set (Q x)) \<union> P"
  shows "placed D Q P"
  unfolding placed_def using assms by blast

lemma placedD:
  assumes "placed D Q P"
  shows "x \<noteq> y \<Longrightarrow> set (Q x) \<inter> set (Q y) = {}" "set (Q x) \<inter> P = {}" "D = (\<Union>x. set (Q x)) \<union> P"
  using assms unfolding placed_def by blast+

lemma qsD:
  assumes "qs s B Q P"
  shows "heap_wf s"
    "B b = Some n \<Longrightarrow> \<exists>bs. blocks s b = Some bs \<and> length bs = n"
    "B b = Some n \<Longrightarrow> msgs s a = Some m \<Longrightarrow> m_data m \<noteq> b"
    "conns s c = Some cn \<Longrightarrow> c < tick s"
    "conns s c = Some cn \<Longrightarrow> mq_rep s (cq d cn) (Q (c, d))"
    "conns s c = None \<Longrightarrow> Q (c, d) = []"
    "x \<noteq> y \<Longrightarrow> set (Q x) \<inter> set (Q y) = {}"
    "set (Q x) \<inter> P = {}"
    "dom (msgs s) = (\<Union>x. set (Q x)) \<union> P"
proof -
  from assms have q: "heap_wf s" "foreign s B" "queued s Q" "placed (dom (msgs s)) Q P"
    by (simp_all add: qs_def)
  show "heap_wf s" by (rule q(1))
  show "B b = Some n \<Longrightarrow> \<exists>bs. blocks s b = Some bs \<and> length bs = n"
    "B b = Some n \<Longrightarrow> msgs s a = Some m \<Longrightarrow> m_data m \<noteq> b"
    using q(2) by (simp_all add: foreign_def)
  show "conns s c = Some cn \<Longrightarrow> c < tick s"
    "conns s c = Some cn \<Longrightarrow> mq_rep s (cq d cn) (Q (c, d))"
    "conns s c = None \<Longrightarrow> Q (c, d) = []"
    using q(3) [unfolded queued_def, rule_format, of c d] by simp_all
  show "x \<noteq> y \<Longrightarrow> set (Q x) \<inter> set (Q y) = {}" by (rule placedD(1) [OF q(4)])
  show "set (Q x) \<inter> P = {}" "dom (msgs s) = (\<Union>x. set (Q x)) \<union> P"
    by (rule placedD(2,3) [OF q(4)])+
qed

lemma qs_live: "qs s B Q P \<Longrightarrow> a \<in> P \<union> set (Q x) \<Longrightarrow> \<exists>m. msgs s a = Some m"
  using qsD(9) [of s B Q P] by blast

lemma qs_cong:
  assumes qs: "qs s B Q P"
    and same: "msgs s' = msgs s" "blocks s' = blocks s" "conns s' = conns s" "tick s \<le> tick s'"
  shows "qs s' B Q P"
  unfolding qs_def
proof (intro conjI)
  show "heap_wf s'" by (rule heap_wf_cong [OF qsD(1) [OF qs] same(1,2,4)])
  show "foreign s' B" using qsD(2,3) [OF qs] same by (intro foreignI) auto
  show "queued s' Q"
    using qs same mq_rep_same_msgs [OF same(1)] queued_same [of s Q s'] by (simp add: qs_def)
  show "placed (dom (msgs s')) Q P" using qs same by (simp add: qs_def)
qed

lemma msg_bytes_cong: "msgs s' = msgs s \<Longrightarrow> blocks s' = blocks s \<Longrightarrow> msg_bytes s' a = msg_bytes s a"
  unfolding msg_bytes_def by (simp only:)

text \<open>The fields the queue operations leave alone, and the parts of a connection they keep.\<close>

definition kept :: "'a dheap_scheme \<Rightarrow> 'a dheap_scheme \<Rightarrow> bool" where
  "kept s s' \<longleftrightarrow>
     tick s \<le> tick s' \<and> items s' = items s \<and> tbls s' = tbls s \<and> dicts s' = dicts s \<and>
     dheap.more s' = dheap.more s \<and>
     (\<forall>c. map_option fd_ds (conns s' c) = map_option fd_ds (conns s c)) \<and>
     (\<forall>c. map_option sock_handle (conns s' c) = map_option sock_handle (conns s c))"

lemma kept_refl [simp]: "kept s s"
  by (simp add: kept_def)

lemma kept_trans: "kept s s' \<Longrightarrow> kept s' s'' \<Longrightarrow> kept s s''"
  by (simp add: kept_def)

lemma kept_dom: "kept s s' \<Longrightarrow> dom (conns s') = dom (conns s)"
  unfolding kept_def dom_def by (metis map_option_is_None)

lemma kept_conn:
  assumes "kept s s'" "conns s c = Some cn"
  shows "\<exists>cn'. conns s' c = Some cn' \<and> fd_ds cn' = fd_ds cn \<and> sock_handle cn' = sock_handle cn"
proof -
  have "map_option fd_ds (conns s' c) = map_option fd_ds (conns s c)"
    "map_option sock_handle (conns s' c) = map_option sock_handle (conns s c)"
    using assms(1) by (simp_all add: kept_def)
  with assms(2) show ?thesis by (cases "conns s' c") auto
qed

lemma cq_set_cq [simp]: "cq d (set_cq d' q c) = (if d = d' then q else cq d c)"
  by (cases d; cases d') (simp_all add: cq_def set_cq_def)

lemma set_cq_kept [simp]: "fd_ds (set_cq d q c) = fd_ds c" "sock_handle (set_cq d q c) = sock_handle c"
  by (cases d; simp add: set_cq_def)+

lemma set_conn_sel [simp, frame_simps]:
  "tick (set_conn c cn s) = tick s" "log (set_conn c cn s) = log s"
  "blocks (set_conn c cn s) = blocks s" "msgs (set_conn c cn s) = msgs s"
  "items (set_conn c cn s) = items s" "tbls (set_conn c cn s) = tbls s"
  "dicts (set_conn c cn s) = dicts s" "dheap.more (set_conn c cn s) = dheap.more s"
  "conns (set_conn c cn s) = (conns s)(c \<mapsto> cn)"
  by (simp_all add: set_conn_def)

lemma heap_more_fields:
  fixes s s' :: "'a dheap_scheme"
  assumes "heap.more s' = heap.more s"
  shows "items s' = items s" "tbls s' = tbls s" "dicts s' = dicts s" "conns s' = conns s"
    "dheap.more s' = dheap.more s"
  using assms by (cases s; cases s'; simp)+

section \<open>Messages in flight\<close>

lemma qs_msg_new:
  assumes qs: "qs s B Q P" and new: "msg_new E len s = (Some a, s')"
  shows "qs s' B Q (insert a P) \<and> kept s s' \<and> log s' = log s \<and> a \<notin> dom (msgs s) \<and>
    same_msgs s s' {a} \<and>
    (\<exists>m. msgs s' a = Some m \<and> m_size m = len \<and> blocks s' (m_data m) = Some (replicate (unat len) None))"
proof -
  note n = msg_new_Some [OF new]
  note more = heap_more_fields [OF n(5)]
  from msg_new_wf [OF qsD(1) [OF qs] new] have wf: "heap_wf s'" and a: "a \<notin> dom (msgs s)"
    and same: "same_msgs s s' {a}" by auto
  have notin: "a \<notin> set (Q x)" for x using qsD(9) [OF qs] a by blast
  have other: "b < tick s" if "B b = Some k" for b k
    using qsD(2) [OF qs that] qsD(1) [OF qs] by (auto simp: heap_wf_def)
  have "qs s' B Q (insert a P)"
    unfolding qs_def
  proof (intro conjI)
    show "heap_wf s'" by (rule wf)
    show "foreign s' B"
    proof (rule foreignI)
      fix b k assume B: "B b = Some k"
      with qsD(2) [OF qs B] other [OF B] n show "\<exists>bs. blocks s' b = Some bs \<and> length bs = k" by auto
      fix c m assume "msgs s' c = Some m"
      with qsD(3) [OF qs B] other [OF B] n show "m_data m \<noteq> b" by (auto split: if_splits)
    qed
    show "queued s' Q"
      using qs more n same_msgs_rep [OF same] notin queued_same [of s Q s'] by (simp add: qs_def)
    show "placed (dom (msgs s')) Q (insert a P)"
      using qsD(7-9) [OF qs] n notin by (intro placedI) auto
  qed
  moreover have "kept s s'" using more n by (simp add: kept_def)
  ultimately show ?thesis using n a same by simp
qed

lemma qs_msg_new_None:
  assumes qs: "qs s B Q P" and new: "msg_new E len s = (None, s')"
  shows "qs s' B Q P \<and> kept s s' \<and> log s' = log s \<and> same_msgs s s' {}"
proof -
  note n = msg_new_None [OF new]
  note more = heap_more_fields [OF n(4)]
  have "kept s s'" using more n by (simp add: kept_def)
  moreover have "same_msgs s s' {}" using n msg_bytes_cong [OF n(1,2)] by (simp add: same_msgs_def)
  ultimately show ?thesis using n qs_cong [OF qs n(1,2) more(4)] by simp
qed

text \<open>Filling the block of a message in flight.\<close>

lemma qs_memcpy:
  fixes s :: "'a dheap_scheme"
  assumes qs: "qs s B Q P" and a: "msgs s a = Some m" and bs: "blocks s (m_data m) = Some bs"
    and src: "unat len \<le> length xs" and fill: "poke bs off (take (unat len) xs) = Inr bs'"
  shows "\<exists>s'. memcpy_msg (Some a) off (Some xs) len s = Inr s' \<and> qs s' B Q P \<and> kept s s' \<and>
    log s' = log s \<and> msgs s' = msgs s \<and> same_msgs s s' {a} \<and> msg_bytes s' a = bs'"
proof -
  let ?s' = "s\<lparr>blocks := (blocks s)(m_data m \<mapsto> bs')\<rparr>"
  have wf: "heap_wf s" by (rule qsD(1) [OF qs])
  have len: "length bs' = length bs" by (rule poke_length [OF fill])
  have inj: "m_data n \<noteq> m_data m" if "msgs s b = Some n" "b \<noteq> a" for b n
    using heap_wf_inj [OF wf that(1) a] that(2) by auto
  have rep: "mq_rep ?s' q as = mq_rep s q as" for q as by (rule mq_rep_same_msgs) simp
  have blk: "(\<exists>cs. blocks ?s' d = Some cs \<and> length cs = k)
      \<longleftrightarrow> (\<exists>cs. blocks s d = Some cs \<and> length cs = k)" for d k
    using bs len by simp
  have dom: "dom (blocks ?s') = dom (blocks s)" using bs by auto
  have "heap_wf ?s'"
    using wf unfolding heap_wf_def blk dom by simp
  moreover have "foreign ?s' B"
    using qsD(2,3) [OF qs] unfolding foreign_def blk by simp
  moreover have "queued ?s' Q"
    using qs rep queued_same [of s Q ?s'] by (simp add: qs_def)
  ultimately have "qs ?s' B Q P"
    using qs by (simp add: qs_def)
  moreover have "same_msgs s ?s' {a}"
    using inj by (auto simp: same_msgs_def msg_bytes_def split: option.splits)
  moreover have "msg_bytes ?s' a = bs'" using a by (simp add: msg_bytes_def)
  moreover have "memcpy_msg (Some a) off (Some xs) len s = Inr ?s'"
    using a bs src fill by (simp add: memcpy_msg_def)
  ultimately show ?thesis by (auto simp: kept_def)
qed

section \<open>Queues of connections\<close>

lemma placed_put:
  assumes "placed D Q P" "a \<in> P"
  shows "placed D (Q(z := Q z @ [a])) (P - {a})"
proof (rule placedI)
  note D = placedD [OF assms(1)]
  have notin: "a \<notin> set (Q x)" for x using D(2) [of x] assms(2) by blast
  fix x
  show "set ((Q(z := Q z @ [a])) x) \<inter> (P - {a}) = {}" using D(2) [of x] by auto
  show "set ((Q(z := Q z @ [a])) x) \<inter> set ((Q(z := Q z @ [a])) y) = {}" if "x \<noteq> y" for y
    using D(1) [OF that] that notin by auto
next
  note D = placedD [OF assms(1)]
  have U: "(\<Union>x. set ((Q(z := Q z @ [a])) x)) = insert a (\<Union>x. set (Q x))"
    (is "?L = ?R")
  proof
    have "set ((Q(z := Q z @ [a])) x) \<subseteq> insert a (set (Q x))" for x by auto
    then show "?L \<subseteq> ?R" by blast
    have "set (Q x) \<subseteq> set ((Q(z := Q z @ [a])) x)" "a \<in> set ((Q(z := Q z @ [a])) z)" for x
      by auto
    then show "?R \<subseteq> ?L" by blast
  qed
  show "D = (\<Union>x. set ((Q(z := Q z @ [a])) x)) \<union> (P - {a})"
    unfolding U unfolding D(3) using assms(2) by blast
qed

lemma placed_get:
  assumes "placed D Q P" "Q z = a # as" "a \<notin> set as"
  shows "placed D (Q(z := as)) (insert a P)"
proof (rule placedI)
  note D = placedD [OF assms(1)]
  have notin: "a \<notin> set (Q x)" if "x \<noteq> z" for x using D(1) [OF that] assms(2) by auto
  have sub: "set ((Q(z := as)) x) \<subseteq> set (Q x)" for x using assms(2) by auto
  fix x
  show "set ((Q(z := as)) x) \<inter> insert a P = {}"
    using D(2) [of x] sub [of x] notin [of x] assms(3) by (cases "x = z") auto
  show "set ((Q(z := as)) x) \<inter> set ((Q(z := as)) y) = {}" if "x \<noteq> y" for y
    using D(1) [OF that] sub [of x] sub [of y] by blast
next
  note D = placedD [OF assms(1)]
  have "set (Q x) \<subseteq> insert a (set ((Q(z := as)) x))" for x using assms(2) by auto
  moreover have "set ((Q(z := as)) x) \<subseteq> set (Q x)" for x using assms(2) by auto
  moreover have "a \<in> set (Q z)" using assms(2) by simp
  ultimately show "D = (\<Union>x. set ((Q(z := as)) x)) \<union> insert a P" unfolding D(3) by blast
qed

lemma qs_enqueue:
  assumes qs: "qs s B Q P" and c: "conns s c = Some cn" and a: "a \<in> P"
  shows "\<exists>s'. conn_enqueue d (Some c) (Some a) s = Inr s' \<and>
    qs s' B (Q((c, d) := Q (c, d) @ [a])) (P - {a}) \<and> kept s s' \<and> log s' = log s \<and>
    (\<forall>b. msg_bytes s' b = msg_bytes s b)"
proof -
  let ?Q = "Q((c, d) := Q (c, d) @ [a])"
  have rep: "mq_rep s (cq d cn) (Q (c, d))" by (rule qsD(5) [OF qs c])
  have notin: "a \<notin> set (Q x)" for x using qsD(8) [OF qs, of x] a by blast
  have "a \<in> dom (msgs s)" using qs_live [OF qs] a by blast
  from mq_putmsg_rep [OF rep this notin] obtain q s1 where
    put: "mq_putmsg (cq d cn) (Some a) s = Inr (q, s1)"
    and rep1: "mq_rep s1 q (Q (c, d) @ [a])"
    and re: "relinked s s1 (insert a (set (Q (c, d))))" by blast
  note more = heap_more_fields [OF re [unfolded relinked_def, THEN conjunct2, THEN conjunct2, THEN conjunct2, THEN conjunct1]]
  have same: "tick s1 = tick s" "log s1 = log s" "blocks s1 = blocks s"
    using re by (simp_all add: relinked_def)
  let ?s' = "set_conn c (set_cq d q cn) s1"
  have rep': "mq_rep ?s' r as = mq_rep s1 r as" for r as by (rule mq_rep_same_msgs) simp
  have other: "mq_rep s1 r (Q x) = mq_rep s r (Q x)" if "x \<noteq> (c, d)" for r x
    using relinked_rep [OF re] qsD(7) [OF qs that] notin [of x] by blast
  have data: "\<exists>m. msgs s b = Some m \<and> m_data m = m_data m'" if "msgs s1 b = Some m'" for b m'
  proof -
    have "map_option m_data (msgs s1 b) = map_option m_data (msgs s b)"
      using re by (simp add: relinked_def)
    with that show ?thesis by (cases "msgs s b") auto
  qed
  have "qs ?s' B ?Q (P - {a})"
    unfolding qs_def
  proof (intro conjI)
    show "heap_wf ?s'"
      using heap_wf_cong [OF heap_wf_relinked [OF qsD(1) [OF qs] re], of ?s'] by simp
    show "foreign ?s' B"
    proof (rule foreignI)
      fix b k assume B: "B b = Some k"
      with qsD(2) [OF qs B] same show "\<exists>bs. blocks ?s' b = Some bs \<and> length bs = k" by simp
      fix e m' assume "msgs ?s' e = Some m'"
      with data qsD(3) [OF qs B] show "m_data m' \<noteq> b" by fastforce
    qed
    show "queued ?s' ?Q"
    proof (rule queuedI)
      fix e en assume e: "conns ?s' e = Some en"
      show "e < tick ?s'"
        using e more same qsD(4) [OF qs c] qsD(4) [OF qs] by (auto split: if_splits)
      show "mq_rep ?s' (cq d' en) (?Q (e, d'))" for d'
        using e more rep1 c other qsD(5) [OF qs] unfolding rep' by (auto split: if_splits)
    next
      fix e d' assume "conns ?s' e = None"
      with more qsD(6) [OF qs] show "?Q (e, d') = []" by (auto split: if_splits)
    qed
    have "dom (msgs ?s') = dom (msgs s)" using relinked_dom [OF re] by simp
    then show "placed (dom (msgs ?s')) ?Q (P - {a})"
      using placed_put [of "dom (msgs s)" Q P a "(c, d)"] qs a by (simp add: qs_def)
  qed
  moreover have "kept s ?s'" using more same c by (auto simp: kept_def)
  moreover have "msg_bytes ?s' b = msg_bytes s b" for b
    using relinked_msg_bytes [OF re, of b] msg_bytes_cong [of ?s' s1 b] by simp
  ultimately show ?thesis using put c same by (auto simp: conn_enqueue_def)
qed

lemma qs_dequeue:
  assumes qs: "qs s B Q P" and c: "conns s c = Some cn" and Q: "Q (c, d) = a # as"
  shows "\<exists>s'. conn_dequeue d (Some c) s = Inr (Some a, s') \<and>
    qs s' B (Q((c, d) := as)) (insert a P) \<and> kept s s' \<and> log s' = log s \<and>
    msgs s' = msgs s \<and> blocks s' = blocks s \<and> tick s' = tick s"
proof -
  let ?Q = "Q((c, d) := as)"
  have rep: "mq_rep s (cq d cn) (a # as)" using qsD(5) [OF qs c, of d] Q by simp
  from mq_getmsg_Cons [OF rep] obtain q where
    get: "mq_getmsg (cq d cn) s = Inr (Some a, q)" and rep1: "mq_rep s q as" by blast
  have dist: "a \<notin> set as" using rep by (simp add: mq_rep_def)
  have notin: "a \<notin> set (Q x)" if "x \<noteq> (c, d)" for x using qsD(7) [OF qs that] Q by auto
  let ?s' = "set_conn c (set_cq d q cn) s"
  have rep': "mq_rep ?s' r as = mq_rep s r as" for r as by (rule mq_rep_same_msgs) simp
  have "qs ?s' B ?Q (insert a P)"
    unfolding qs_def
  proof (intro conjI)
    show "heap_wf ?s'" using heap_wf_cong [OF qsD(1) [OF qs], of ?s'] by simp
    show "foreign ?s' B" using qsD(2,3) [OF qs] by (intro foreignI) auto
    show "queued ?s' ?Q"
    proof (rule queuedI)
      fix e en assume e: "conns ?s' e = Some en"
      show "e < tick ?s'" using e qsD(4) [OF qs c] qsD(4) [OF qs] by (auto split: if_splits)
      show "mq_rep ?s' (cq d' en) (?Q (e, d'))" for d'
        using e rep1 c qsD(5) [OF qs] unfolding rep' by (auto split: if_splits)
    next
      fix e d' assume "conns ?s' e = None"
      with qsD(6) [OF qs] show "?Q (e, d') = []" by (auto split: if_splits)
    qed
    show "placed (dom (msgs ?s')) ?Q (insert a P)"
      using placed_get [of "dom (msgs s)" Q P "(c, d)" a as] qs Q dist by (simp add: qs_def)
  qed
  moreover have "kept s ?s'" using c by (auto simp: kept_def)
  ultimately show ?thesis using get c by (auto simp: conn_dequeue_def)
qed

text \<open>Freeing a message in flight.\<close>

lemma qs_free:
  fixes s :: "'a dheap_scheme"
  assumes qs: "qs s B Q P" and a: "a \<in> P"
  shows "\<exists>s'. msg_free (Some a) s = Inr s' \<and> qs s' B Q (P - {a}) \<and> kept s s' \<and>
    log s' = log s \<and> tick s' = tick s \<and> same_msgs s s' {a}"
proof -
  obtain m where m: "msgs s a = Some m" using qs_live [OF qs] a by blast
  from msg_free_wf [OF qsD(1) [OF qs] m] obtain s' where free: "msg_free (Some a) s = Inr s'"
    and wf: "heap_wf s'" and msgs: "msgs s' = (msgs s)(a := None)" and same: "same_msgs s s' {a}"
    and tick: "tick s' = tick s" and log: "log s' = log s" and hm: "heap.more s' = heap.more s"
    and blk: "blocks s' = (blocks s)(m_data m := None)" by blast
  note more = heap_more_fields [OF hm]
  have notin: "a \<notin> set (Q x)" for x using qsD(8) [OF qs, of x] a by blast
  have "qs s' B Q (P - {a})"
    unfolding qs_def
  proof (intro conjI)
    show "heap_wf s'" by (rule wf)
    show "foreign s' B"
      using qsD(2,3) [OF qs] m msgs blk by (intro foreignI) (fastforce split: if_split_asm)+
    show "queued s' Q"
      using qs more tick same_msgs_rep [OF same] notin queued_same [of s Q s'] by (simp add: qs_def)
    show "placed (dom (msgs s')) Q (P - {a})"
    proof (rule placedI)
      show "set (Q x) \<inter> set (Q y) = {}" if "x \<noteq> y" for x y by (rule qsD(7) [OF qs that])
      show "set (Q x) \<inter> (P - {a}) = {}" for x using qsD(8) [OF qs, of x] by blast
      have "dom (msgs s') = dom (msgs s) - {a}" using msgs by auto
      then show "dom (msgs s') = (\<Union>x. set (Q x)) \<union> (P - {a})"
        unfolding qsD(9) [OF qs] using notin by blast
    qed
  qed
  moreover have "kept s s'" using more tick by (simp add: kept_def)
  ultimately show ?thesis using free log tick same by blast
qed

section \<open>The contents of the queues\<close>

definition holds :: "'a dheap_scheme \<Rightarrow> (addr \<rightharpoonup> nat) \<Rightarrow> (addr \<times> dir \<Rightarrow> bytes list) \<Rightarrow> bool" where
  "holds s B I \<longleftrightarrow> (\<exists>Q. qs s B Q {} \<and> I = (\<lambda>x. map (msg_bytes s) (Q x)))"

lemma holdsI: "qs s B Q {} \<Longrightarrow> (\<And>x. I x = map (msg_bytes s) (Q x)) \<Longrightarrow> holds s B I"
  unfolding holds_def by blast

lemma holdsE:
  assumes "holds s B I"
  obtains Q where "qs s B Q {}" "I = (\<lambda>x. map (msg_bytes s) (Q x))"
  using assms unfolding holds_def by blast

lemma same_msgs_map:
  "same_msgs s s' A \<Longrightarrow> set as \<inter> A = {} \<Longrightarrow> map (msg_bytes s') as = map (msg_bytes s) as"
  by (auto simp: same_msgs_def)

lemma holds_cong:
  assumes "holds s B I" "msgs s' = msgs s" "blocks s' = blocks s" "conns s' = conns s"
    "tick s \<le> tick s'"
  shows "holds s' B I"
proof -
  from assms(1) obtain Q where Q: "qs s B Q {}" "I = (\<lambda>x. map (msg_bytes s) (Q x))"
    by (rule holdsE)
  from qs_cong [OF Q(1) assms(2-5)] show ?thesis
    by (rule holdsI) (simp add: Q(2) msg_bytes_cong [OF assms(2,3)])
qed

text \<open>Both queues of a connection read as empty exactly when they hold nothing.\<close>

lemma conn_nonempty_holds:
  assumes "holds s B I" "conns s c = Some cn"
  shows "conn_nonempty d (Some c) s = Inr (I (c, d) \<noteq> [])"
proof -
  from assms(1) obtain Q where Q: "qs s B Q {}" "I = (\<lambda>x. map (msg_bytes s) (Q x))"
    by (rule holdsE)
  from mq_rep_isempty [OF qsD(5) [OF Q(1) assms(2), of d]] Q(2) assms(2) show ?thesis
    by (simp add: conn_nonempty_def)
qed

end
