(* ===== verification/Conn_Ops.thy ===== *)
theory Conn_Ops
  imports Conn_Store
begin

text \<open>
  What the operations of the backend on a connection do to the contents of its queues
  (\<open>holds\<close>), to the dictionary and to the outside. \<open>frontend_createmsg\<close> puts \<open>LWS_PRE\<close> bytes of
  room in front of a payload, so a block for the web is that room and the payload.
\<close>

section \<open>Putting\<close>

definition web_block :: "env \<Rightarrow> bytes \<Rightarrow> bytes" where
  "web_block E xs = replicate (unat (e_lws_pre E)) None @ xs"

text \<open>A message is allocated, filled and put at the end of a queue.\<close>

lemma deliver:
  assumes h: "holds s B I" and c: "conns s c = Some cn"
    and new: "msg_new E n s = (Some a, s1)"
    and src: "unat len \<le> length xs" and fill: "poke (replicate (unat n) None) off (take (unat len) xs) = Inr bs"
  shows "\<exists>s2 s3. memcpy_msg (Some a) off (Some xs) len s1 = Inr s2 \<and>
    conn_enqueue d (Some c) (Some a) s2 = Inr s3 \<and>
    holds s3 B (I((c, d) := I (c, d) @ [bs])) \<and> kept s s3 \<and> log s3 = log s"
proof -
  from h obtain Q where Q: "qs s B Q {}" "I = (\<lambda>x. map (msg_bytes s) (Q x))" by (rule holdsE)
  from qs_msg_new [OF Q(1) new] obtain m where 1: "qs s1 B Q {a}" "kept s s1" "log s1 = log s"
    "same_msgs s s1 {a}" and m: "msgs s1 a = Some m" "blocks s1 (m_data m) = Some (replicate (unat n) None)"
    by auto
  from qs_memcpy [OF 1(1) m src fill] obtain s2 where 2: "memcpy_msg (Some a) off (Some xs) len s1 = Inr s2"
    "qs s2 B Q {a}" "kept s1 s2" "log s2 = log s1" "same_msgs s1 s2 {a}" "msg_bytes s2 a = bs" by blast
  from kept_conn [OF kept_trans [OF 1(2) 2(3)] c] obtain cn2 where "conns s2 c = Some cn2" by blast
  from qs_enqueue [OF 2(2) this, of a d] obtain s3 where 3: "conn_enqueue d (Some c) (Some a) s2 = Inr s3"
    "qs s3 B (Q((c, d) := Q (c, d) @ [a])) {}" "kept s2 s3" "log s3 = log s2"
    "\<And>b. msg_bytes s3 b = msg_bytes s2 b" by auto
  have old: "map (msg_bytes s3) (Q x) = I x" for x
  proof -
    have "set (Q x) \<inter> {a} = {}" by (rule qsD(8) [OF 1(1)])
    with same_msgs_map [OF same_msgs_trans [OF 1(4) 2(5)] this] 3(5) Q(2) show ?thesis by simp
  qed
  have "holds s3 B (I((c, d) := I (c, d) @ [bs]))"
    by (rule holdsI [OF 3(2)]) (auto simp: old 3(5) 2(6))
  moreover have "kept s s3" using kept_trans [OF kept_trans [OF 1(2) 2(3)] 3(3)] .
  moreover have "log s3 = log s" using 1(3) 2(4) 3(4) by simp
  ultimately show ?thesis using 2(1) 3(1) by blast
qed

lemma deliver_fails:
  assumes h: "holds s B I" and new: "msg_new E n s = (None, s1)"
  shows "holds s1 B I \<and> kept s s1 \<and> log s1 = log s"
proof -
  from h obtain Q where Q: "qs s B Q {}" "I = (\<lambda>x. map (msg_bytes s) (Q x))" by (rule holdsE)
  from qs_msg_new_None [OF Q(1) new] have 1: "qs s1 B Q {}" "kept s s1" "log s1 = log s"
    "same_msgs s s1 {}" by auto
  have "I x = map (msg_bytes s1) (Q x)" for x
    using same_msgs_map [OF 1(4), of "Q x"] Q(2) by simp
  with 1 show ?thesis by (blast intro: holdsI)
qed

text \<open>A message is made exactly when both its allocations succeed.\<close>

definition room :: "env \<Rightarrow> nat \<Rightarrow> bool" where
  "room E n \<longleftrightarrow> e_malloc E n \<and> e_malloc E (Suc n)"

lemma msg_new_room: "msg_new E len s = (r, s') \<Longrightarrow> r = None \<longleftrightarrow> \<not> room E (tick s)"
  by (auto simp: msg_new_def malloc_block_def room_def Let_def split: if_split_asm)

lemma putmsg_forlocal_holds:
  assumes h: "holds s B I" and c: "conns s c = Some cn" and len: "len \<noteq> 0" and src: "unat len \<le> length xs"
  shows "\<exists>rc s'. conn_putmsg_forlocal E (Some c) (Some xs) len s = Inr (rc, s') \<and>
    (if room E (tick s)
     then rc = 0 \<and> holds s' B (I((c, Local) := I (c, Local) @ [take (unat len) xs]))
     else rc = -2 \<and> holds s' B I) \<and> kept s s' \<and> log s' = log s"
proof (cases "msg_new E len s")
  case (Pair r s1)
  show ?thesis
  proof (cases r)
    case None
    with deliver_fails [OF h] msg_new_room [OF Pair] Pair len show ?thesis by (auto simp: conn_putmsg_forlocal_def)
  next
    case (Some a)
    have "poke (replicate (unat len) None) 0 (take (unat len) xs) = Inr (take (unat len) xs)"
      by (rule poke_all) (simp add: src)
    from deliver [OF h c Pair [unfolded Some] src this, of Local] msg_new_room [OF Pair] Pair Some len show ?thesis
      by (auto simp: conn_putmsg_forlocal_def)
  qed
qed

lemma putmsg_forweb_holds:
  assumes h: "holds s B I" and c: "conns s c = Some cn" and len: "len \<noteq> 0" and src: "unat len \<le> length xs"
    and fits: "unat len + unat (e_lws_pre E) < 2 ^ 64"
  shows "\<exists>rc s'. conn_putmsg_forweb E (Some c) (Some xs) len s = Inr (rc, s') \<and>
    (if room E (tick s)
     then rc = 0 \<and> holds s' B (I((c, Web) := I (c, Web) @ [web_block E (take (unat len) xs)]))
     else rc = -2 \<and> holds s' B I) \<and> kept s s' \<and> log s' = log s"
proof (cases "msg_new E (len + e_lws_pre E) s")
  case (Pair r s1)
  show ?thesis
  proof (cases r)
    case None
    with deliver_fails [OF h] msg_new_room [OF Pair] Pair len show ?thesis
      by (auto simp: conn_putmsg_forweb_def frontend_createmsg_def)
  next
    case (Some a)
    have n: "unat (len + e_lws_pre E) = unat (e_lws_pre E) + unat len"
      using fits unat_add_lem [of len "e_lws_pre E"] by simp
    have "poke (replicate (unat (len + e_lws_pre E)) None) (unat (e_lws_pre E)) (take (unat len) xs)
        = Inr (web_block E (take (unat len) xs))"
      unfolding n web_block_def by (rule poke_at_end) (simp add: src)
    from deliver [OF h c Pair [unfolded Some] src this, of Web] msg_new_room [OF Pair] Pair Some len show ?thesis
      by (auto simp: conn_putmsg_forweb_def frontend_createmsg_def)
  qed
qed

section \<open>Serving\<close>

text \<open>
  The invariant of a running bridge: the backend object is complete, its socket table is
  well-formed, the dictionary has no table, the message store holds the contents \<open>I\<close> next to
  the read buffer, and every connection points to a slot of the socket table.
\<close>

definition linked :: "socklist_t \<Rightarrow> 'a dheap_scheme \<Rightarrow> bool" where
  "linked l s \<longleftrightarrow>
     (\<forall>c cn. conns s c = Some cn \<longrightarrow> (\<exists>i. sock_handle cn = Some i \<and> slot_path l i \<noteq> None))"

definition served :: "backend_t \<Rightarrow> 'a dheap_scheme \<Rightarrow> (addr \<times> dir \<Rightarrow> bytes list) \<Rightarrow> bool" where
  "served b s I \<longleftrightarrow> (case (socklist b, buf b, filedict b) of
       (Some l, Some a, Some h) \<Rightarrow>
         sl_wf l \<and> no_table h s \<and> linked l s \<and> holds s [a \<mapsto> unat (bufsize b)] I
     | _ \<Rightarrow> False)"

lemma servedE:
  assumes "served b s I"
  obtains l a h where "socklist b = Some l" "buf b = Some a" "filedict b = Some h"
    "sl_wf l" "no_table h s" "linked l s" "holds s [a \<mapsto> unat (bufsize b)] I"
  using assms by (auto simp: served_def split: option.splits)

lemma servedI:
  "\<lbrakk>socklist b = Some l; buf b = Some a; filedict b = Some h; sl_wf l; no_table h s; linked l s;
    holds s [a \<mapsto> unat (bufsize b)] I\<rbrakk> \<Longrightarrow> served b s I"
  by (simp add: served_def)

lemma linked_kept:
  assumes "linked l s" "kept s s'"
  shows "linked l s'"
  unfolding linked_def
proof (intro allI impI)
  fix c cn' assume c': "conns s' c = Some cn'"
  with kept_dom [OF assms(2)] obtain cn where c: "conns s c = Some cn" by blast
  from kept_conn [OF assms(2) c] c' have "sock_handle cn' = sock_handle cn" by simp
  with c assms(1) show "\<exists>i. sock_handle cn' = Some i \<and> slot_path l i \<noteq> None"
    by (auto simp: linked_def)
qed

text \<open>An operation on the queues keeps the bridge served, with the contents it leaves.\<close>

lemma served_kept:
  assumes "served b s I" "kept s s'" "\<And>B. holds s B I \<Longrightarrow> holds s' B I'"
  shows "served b s' I'"
proof -
  from assms(1) obtain l a h where b: "socklist b = Some l" "buf b = Some a" "filedict b = Some h"
    "sl_wf l" "no_table h s" "linked l s" "holds s [a \<mapsto> unat (bufsize b)] I" by (rule servedE)
  have "dicts s' = dicts s" using assms(2) by (simp add: kept_def)
  with b(5) no_table_cong have "no_table h s'" by blast
  from servedI [OF b(1-4) this linked_kept [OF b(6) assms(2)] assms(3) [OF b(7)]]
  show ?thesis .
qed

lemma holds_none: "holds s B I \<Longrightarrow> conns s c = None \<Longrightarrow> I (c, d) = []"
  by (elim holdsE) (simp add: qsD(6))

lemma served_none: "served b s I \<Longrightarrow> conns s c = None \<Longrightarrow> I (c, d) = []"
  by (elim servedE) (rule holds_none)

lemma served_live: "served b s I \<Longrightarrow> conns s c = Some cn \<Longrightarrow> c < tick s"
  by (elim servedE holdsE) (simp add: qsD(4))

text \<open>Changes that leave the heap, the dictionaries and the connections alone.\<close>

definition quiet :: "'a dheap_scheme \<Rightarrow> 'a dheap_scheme \<Rightarrow> bool" where
  "quiet s s' \<longleftrightarrow> msgs s' = msgs s \<and> blocks s' = blocks s \<and> conns s' = conns s \<and>
     dicts s' = dicts s \<and> items s' = items s \<and> tbls s' = tbls s \<and>
     dheap.more s' = dheap.more s \<and> tick s \<le> tick s'"

lemma quiet_refl [simp]: "quiet s s"
  by (simp add: quiet_def)

lemma quiet_step [simp]: "quiet s s' \<Longrightarrow> quiet s (step s')"
  by (simp add: quiet_def)

lemma quiet_emit [simp]: "quiet s (emit e s') = quiet s s'"
  by (simp add: quiet_def)

lemma quiet_kept: "quiet s s' \<Longrightarrow> kept s s'"
  by (simp add: quiet_def kept_def)

lemma quiet_holds: "quiet s s' \<Longrightarrow> holds s B I \<Longrightarrow> holds s' B I"
  by (rule holds_cong [of s]) (simp_all add: quiet_def)

lemma served_quiet: "served b s I \<Longrightarrow> quiet s s' \<Longrightarrow> served b s' I"
  using served_kept [OF _ quiet_kept] quiet_holds by blast

section \<open>Opening and closing\<close>

text \<open>A connection whose queues have been initialised is added to the store.\<close>

lemma qs_add_conn:
  assumes qs: "qs s B Q P" and c: "conns s c = None" "c < tick s'" "tick s \<le> tick s'"
    and same: "msgs s' = msgs s" "blocks s' = blocks s" and conns: "conns s' = (conns s)(c \<mapsto> cn)"
    and init: "\<And>d. cq d cn = mq_init"
  shows "qs s' B Q P"
  unfolding qs_def
proof (intro conjI)
  show "heap_wf s'" by (rule heap_wf_cong [OF qsD(1) [OF qs] same c(3)])
  show "foreign s' B" using qsD(2,3) [OF qs] same by (intro foreignI) auto
  show "queued s' Q"
  proof (rule queuedI)
    fix e en d assume e: "conns s' e = Some en"
    show "e < tick s'"
      using e conns c qsD(4) [OF qs, of e] by (auto split: if_split_asm)
    have "mq_rep s (cq d en) (Q (e, d))"
      using e conns c(1) init qsD(5) [OF qs, of e] qsD(6) [OF qs, of c d] mq_rep_init
      by (auto split: if_split_asm)
    then show "mq_rep s' (cq d en) (Q (e, d))" by (subst mq_rep_same_msgs [OF same(1)])
  next
    fix e d assume "conns s' e = None"
    with conns qsD(6) [OF qs] show "Q (e, d) = []" by (auto split: if_split_asm)
  qed
  show "placed (dom (msgs s')) Q P" using qs same by (simp add: qs_def)
qed

lemma holds_add_conn:
  assumes "holds s B I" "conns s c = None" "c < tick s'" "tick s \<le> tick s'"
    and same: "msgs s' = msgs s" "blocks s' = blocks s" and "conns s' = (conns s)(c \<mapsto> cn)"
    and "\<And>d. cq d cn = mq_init"
  shows "holds s' B I"
proof -
  from assms(1) obtain Q where Q: "qs s B Q {}" "I = (\<lambda>x. map (msg_bytes s) (Q x))"
    by (rule holdsE)
  from qs_add_conn [OF Q(1) assms(2-8)] show ?thesis
    by (rule holdsI) (simp add: Q(2) msg_bytes_cong [OF same])
qed

text \<open>The connection object \<open>conn_new\<close> leaves in the store.\<close>

definition fresh_conn :: "int \<Rightarrow> nat \<Rightarrow> conn_t" where
  "fresh_conn fd i = \<lparr>fd_ds = fd, sock_handle = Some i, mqweb = mq_init, mqlocal = mq_init\<rparr>"

lemma cq_fresh_conn [simp]: "cq d (fresh_conn fd i) = mq_init"
  by (cases d) (simp_all add: cq_def fresh_conn_def)

text \<open>
  The five conditions under which a connection is made, in the order they are tried: the name is
  bridged, the path is a socket, \<open>socket(2)\<close> gives a descriptor, and both allocations succeed.
\<close>

definition can_open :: "env \<Rightarrow> backend_t \<Rightarrow> string \<Rightarrow> nat \<Rightarrow> bool" where
  "can_open E b w n \<longleftrightarrow> (case socklist b of None \<Rightarrow> False | Some l \<Rightarrow>
     (case bridged l w of None \<Rightarrow> False | Some path \<Rightarrow>
        e_stat E n path = Some True \<and> 0 \<le> e_socket E (Suc n) \<and> e_malloc E (Suc (Suc n)) \<and>
        e_malloc E (Suc (Suc (Suc n)))))"

lemma conn_new_served:
  assumes sv: "served b s I" and l: "socklist b = Some l"
  shows "\<exists>r s'. conn_new E (Some b) (Some w) s = Inr (r, s') \<and> served b s' I \<and> tick s \<le> tick s' \<and>
    dheap.more s' = dheap.more s \<and>
    (case r of
       None \<Rightarrow> \<not> can_open E b w (tick s) \<and> conns s' = conns s \<and>
         (\<exists>es. log s' = log s @ es \<and>
           (es = [] \<or> (\<exists>fd < 0. es = [IoSocket fd]) \<or> (\<exists>fd. es = [IoSocket fd, IoClose fd])))
     | Some c \<Rightarrow> can_open E b w (tick s) \<and> conns s c = None \<and> tick s \<le> c \<and> tick s' = tick s + 4 \<and>
         (\<exists>fd i. 0 \<le> fd \<and> log s' = log s @ [IoSocket fd] \<and> bridged l w \<noteq> None \<and>
            slot_path l i = bridged l w \<and> conns s' = (conns s)(c \<mapsto> fresh_conn fd i)))"
proof -
  from sv obtain a h where b: "buf b = Some a" "filedict b = Some h" and wf: "sl_wf l"
    and nt: "no_table h s" and lk: "linked l s" and h: "holds s [a \<mapsto> unat (bufsize b)] I"
    using l by (auto elim!: servedE)
  show ?thesis
  proof (cases "bridged l w")
    case None
    with socklist_newclient_miss [OF wf None, of E s] l sv show ?thesis
      by (simp add: conn_new_def can_open_def)
  next
    case (Some path)
    let ?n = "tick s" and ?fd = "e_socket E (Suc (tick s))"
    let ?t = "emit (IoSocket ?fd) (step (step s))"
    from socklist_newclient_hit [OF wf Some, of E s] obtain i where i: "slot_path l i = Some path"
      and nc: "socklist_newclient E (Some l) (Some w) s =
        Inr (if e_stat E ?n path = Some True then (?fd, Some i, ?t) else (-1, None, step s))" by blast
    have nt': "no_table h ?t" using nt by (simp add: no_table_def)
    consider (stat) "e_stat E ?n path \<noteq> Some True"
      | (sock) "e_stat E ?n path = Some True" "?fd < 0"
      | (item) "e_stat E ?n path = Some True" "0 \<le> ?fd" "\<not> e_malloc E (Suc (Suc ?n))"
      | (data) "e_stat E ?n path = Some True" "0 \<le> ?fd" "e_malloc E (Suc (Suc ?n))" "\<not> e_malloc E (Suc (Suc (Suc ?n)))"
      | (ok) "e_stat E ?n path = Some True" "0 \<le> ?fd" "e_malloc E (Suc (Suc ?n))" "e_malloc E (Suc (Suc (Suc ?n)))"
      by linarith
    then show ?thesis
    proof cases
      case stat
      with nc l Some served_quiet [OF sv, of "step s"] show ?thesis
        by (simp add: conn_new_def can_open_def)
    next
      case sock
      with nc l Some served_quiet [OF sv, of ?t] show ?thesis
        by (auto simp: conn_new_def can_open_def)
    next
      case item
      with nc l b Some dict_new_no_table [OF nt', of E ?fd]
        served_quiet [OF sv, of "emit (IoClose ?fd) (step ?t)"]
      show ?thesis by (auto simp: conn_new_def can_open_def Let_def)
    next
      case data
      with nc l b Some dict_new_no_table [OF nt', of E ?fd]
        served_quiet [OF sv, of "emit (IoClose ?fd) (step (step ?t))"]
      show ?thesis by (auto simp: conn_new_def can_open_def Let_def)
    next
      case ok
      let ?c = "Suc (tick ?t)" and ?u = "dict_added E h ?fd ?t"
      let ?s' = "set_conn ?c (fresh_conn ?fd i) ?u"
      have new: "conn_new E (Some b) (Some w) s = Inr (Some ?c, ?s')"
        using ok nc l b dict_new_no_table [OF nt', of E ?fd]
        by (simp add: conn_new_def fresh_conn_def Let_def)
      have c: "conns s ?c = None" using served_live [OF sv, of ?c] by (cases "conns s ?c") auto
      have "holds ?s' [a \<mapsto> unat (bufsize b)] I" by (rule holds_add_conn [OF h c, where cn = "fresh_conn ?fd i"]) simp_all
      moreover have "no_table h ?s'" using no_table_added [OF nt'] by (simp add: no_table_def)
      moreover have "linked l ?s'" using lk i by (auto simp: linked_def fresh_conn_def)
      ultimately have "served b ?s' I" using l b wf by (simp add: served_def)
      with new c i Some ok l show ?thesis by (auto simp: can_open_def intro!: exI)
    qed
  qed
qed

lemma conn_open_linked:
  assumes "conns s c = Some cn" "sock_handle cn = Some i" "slot_path l i = Some path"
  shows "conn_open E l (Some c) s =
    Inr (e_connect E (tick s),
         emit (IoConnect (fd_ds cn) (strncpy UNIX_PATH_MAX path) (e_connect E (tick s))) (step s))"
  using assms slot_pathD [OF assms(3)] by (simp add: conn_open_def Let_def)

lemma conn_close_live:
  "conns s c = Some cn \<Longrightarrow> conn_close (Some c) s = Inr (emit (IoClose (fd_ds cn)) s)"
  by (simp add: conn_close_def)

text \<open>Deleting a connection of a served bridge deletes nothing: the dictionary is empty.\<close>

lemma conn_del_served:
  assumes "served b s I" "conns s c = Some cn"
  shows "conn_del (Some b) (Some c) s = Inr s"
proof -
  from assms(1) obtain h where h: "filedict b = Some h" "no_table h s" by (rule servedE)
  from dict_del_no_table [OF h(2), of "fd_ds cn"] h(1) assms(2) show ?thesis
    by (simp add: conn_del_def)
qed

section \<open>The daemon socket\<close>

text \<open>The contents of the read buffer change; the queues do not.\<close>

lemma holds_foreign:
  assumes h: "holds s B I" and a: "B a = Some n" and bs: "length bs = n"
  shows "holds (s\<lparr>blocks := (blocks s)(a \<mapsto> bs)\<rparr>) B I"
proof -
  from h obtain Q where Q: "qs s B Q {}" "I = (\<lambda>x. map (msg_bytes s) (Q x))" by (rule holdsE)
  let ?s' = "s\<lparr>blocks := (blocks s)(a \<mapsto> bs)\<rparr>"
  note wf = qsD(1) [OF Q(1)]
  obtain old where old: "blocks s a = Some old" "length old = n"
    using qsD(2) [OF Q(1) a] by blast
  have apart: "m_data m \<noteq> a" if "msgs s e = Some m" for e m by (rule qsD(3) [OF Q(1) a that])
  have blk: "(\<exists>cs. blocks ?s' d = Some cs \<and> length cs = k)
      \<longleftrightarrow> (\<exists>cs. blocks s d = Some cs \<and> length cs = k)" for d k
    using old bs by simp
  have dom: "dom (blocks ?s') = dom (blocks s)" using old by auto
  have rep: "mq_rep ?s' q as = mq_rep s q as" for q as by (rule mq_rep_same_msgs) simp
  have "heap_wf ?s'" using wf unfolding heap_wf_def blk dom by simp
  moreover have "foreign ?s' B" using qsD(2,3) [OF Q(1)] unfolding foreign_def blk by simp
  moreover have "queued ?s' Q" using Q(1) rep queued_same [of s Q ?s'] by (simp add: qs_def)
  ultimately have "qs ?s' B Q {}" using Q(1) by (simp add: qs_def)
  moreover have "msg_bytes ?s' e = msg_bytes s e" for e
    using apart [of e] by (auto simp: msg_bytes_def split: option.splits)
  ultimately show ?thesis using Q(2) by (auto intro: holdsI)
qed

text \<open>The bytes a read of the daemon socket takes at time \<open>n\<close>.\<close>

definition read_at :: "env \<Rightarrow> backend_t \<Rightarrow> nat \<Rightarrow> byte list option" where
  "read_at E b n = map_option (take (unat (bufsize b))) (e_read E n)"

lemma read_at_length: "read_at E b n = Some xs \<Longrightarrow> length xs \<le> unat (bufsize b)"
  by (auto simp: read_at_def)

lemma conn_readraw_served:
  assumes sv: "served b s I" and c: "conns s c = Some cn"
  shows "\<exists>a s'. buf b = Some a \<and>
    conn_readraw_local E True (Some b) (Some c) s =
      Inr (case read_at E b (tick s) of None \<Rightarrow> -1 | Some xs \<Rightarrow> int (length xs), Some a, s') \<and>
    served b s' I \<and> kept s s' \<and>
    log s' = log s @ [IoRead (fd_ds cn) (read_at E b (tick s))] \<and>
    (\<forall>xs. read_at E b (tick s) = Some xs \<longrightarrow>
       (\<exists>bs. blocks s' a = Some bs \<and> length xs \<le> length bs \<and> take (length xs) bs = map Some xs))"
proof -
  from sv obtain l a h where b: "socklist b = Some l" "buf b = Some a" "filedict b = Some h"
    "sl_wf l" "no_table h s" "linked l s" "holds s [a \<mapsto> unat (bufsize b)] I" by (rule servedE)
  let ?r = "read_at E b (tick s)"
  let ?t = "emit (IoRead (fd_ds cn) ?r) (step s)"
  show ?thesis
  proof (cases ?r)
    case None
    with c b served_quiet [OF sv, of ?t] quiet_kept [of s ?t] show ?thesis
      by (simp add: conn_readraw_local_def read_at_def)
  next
    case (Some xs)
    from b(7) obtain Q where Q: "qs s [a \<mapsto> unat (bufsize b)] Q {}" by (rule holdsE)
    from qsD(2) [OF Q, of a] obtain bs where bs: "blocks s a = Some bs" "length bs = unat (bufsize b)"
      by auto
    define new where "new = map Some xs @ drop (length xs) bs"
    let ?s' = "?t\<lparr>blocks := (blocks ?t)(a \<mapsto> new)\<rparr>"
    have poke: "poke bs 0 (map Some xs) = Inr new" and len: "length new = unat (bufsize b)"
      using read_at_length [OF Some] bs(2) by (simp_all add: poke_def new_def)
    have "conn_readraw_local E True (Some b) (Some c) s = Inr (int (length xs), Some a, ?s')"
      using c b(2) bs(1) poke Some by (cases "e_read E (tick s)") (auto simp: conn_readraw_local_def read_at_def Let_def)
    moreover have kept: "kept s ?s'" by (simp add: kept_def)
    moreover have "holds ?s' [a \<mapsto> unat (bufsize b)] I"
      by (rule holds_foreign [OF quiet_holds [OF _ b(7)] _ len]) simp_all
    then have "served b ?s' I"
      using servedI [OF b(1-4) _ linked_kept [OF b(6) kept]] b(5) by (simp add: no_table_def)
    moreover have "length xs \<le> length new" "take (length xs) new = map Some xs" by (simp_all add: new_def)
    ultimately show ?thesis using Some b(2) by auto
  qed
qed

text \<open>Writing a message to the daemon socket: the whole block goes out in one call.\<close>

lemma conn_writeraw_msg:
  assumes "conns s c = Some cn" "heap_wf s" "msgs s a = Some m" "m_size m \<noteq> 0"
  shows "conn_writeraw_local E (Some b) (Some c) (Some (m_data m)) (m_size m) s =
    Inr (e_write E (tick s),
         emit (IoWrite (fd_ds cn) (msg_bytes s a) (e_write E (tick s))) (step s))"
  using assms heap_wf_msg_bytes [OF assms(2,3)] by (auto simp: conn_writeraw_local_def Let_def)

section \<open>Taking a message out, using it and freeing it\<close>

text \<open>
  The message taken out holds the first contents of the queue; whatever is done with it that
  leaves the heap alone, freeing it leaves the rest of the contents.
\<close>

lemma holds_take:
  assumes h: "holds s B I" and c: "conns s c = Some cn" and I: "I (c, d) = bs # rest"
  shows "\<exists>a m s1. conn_dequeue d (Some c) s = Inr (Some a, s1) \<and> kept s s1 \<and> log s1 = log s \<and>
    tick s1 = tick s \<and> heap_wf s1 \<and> msgs s1 a = Some m \<and> blocks s1 (m_data m) = Some bs \<and>
    length bs = unat (m_size m) \<and> msg_bytes s1 a = bs \<and>
    (\<forall>s2. quiet s1 s2 \<longrightarrow> (\<exists>s3. msg_free (Some a) s2 = Inr s3 \<and> holds s3 B (I((c, d) := rest)) \<and>
       kept s s3 \<and> log s3 = log s2 \<and> tick s3 = tick s2))"
proof -
  from h obtain Q where Q: "qs s B Q {}" "I = (\<lambda>x. map (msg_bytes s) (Q x))" by (rule holdsE)
  from I Q(2) obtain a as where as: "Q (c, d) = a # as" "msg_bytes s a = bs" "map (msg_bytes s) as = rest"
    by auto
  from qs_dequeue [OF Q(1) c as(1)] obtain s1 where 1: "conn_dequeue d (Some c) s = Inr (Some a, s1)"
    "qs s1 B (Q((c, d) := as)) {a}" "kept s s1" "log s1 = log s" "tick s1 = tick s"
    "msgs s1 = msgs s" "blocks s1 = blocks s" by auto
  let ?Q = "Q((c, d) := as)"
  have mb: "msg_bytes s1 e = msg_bytes s e" for e by (rule msg_bytes_cong [OF 1(6,7)])
  note wf = qsD(1) [OF 1(2)]
  obtain m where m: "msgs s1 a = Some m" using qs_live [OF 1(2)] by blast
  have blk: "blocks s1 (m_data m) = Some bs" "length bs = unat (m_size m)" "msg_bytes s1 a = bs"
    using heap_wf_msg_bytes [OF wf m] as(2) by (simp_all add: mb)
  have "\<exists>s3. msg_free (Some a) s2 = Inr s3 \<and> holds s3 B (I((c, d) := rest)) \<and>
       kept s s3 \<and> log s3 = log s2 \<and> tick s3 = tick s2" if q: "quiet s1 s2" for s2
  proof -
    from q have eq: "msgs s2 = msgs s1" "blocks s2 = blocks s1" "conns s2 = conns s1" "tick s1 \<le> tick s2"
      by (simp_all add: quiet_def)
    from qs_free [OF qs_cong [OF 1(2) eq], of a] obtain s3 where 3: "msg_free (Some a) s2 = Inr s3"
      "qs s3 B ?Q {}" "kept s2 s3" "log s3 = log s2" "tick s3 = tick s2" "same_msgs s2 s3 {a}" by auto
    have "(I((c, d) := rest)) x = map (msg_bytes s3) (?Q x)" for x
    proof -
      have "set (?Q x) \<inter> {a} = {}" by (rule qsD(8) [OF 1(2)])
      from same_msgs_map [OF 3(6) this] have "map (msg_bytes s3) (?Q x) = map (msg_bytes s) (?Q x)"
        using msg_bytes_cong [OF eq(1,2)] mb by simp
      with as(3) Q(2) show ?thesis by (cases "x = (c, d)") auto
    qed
    with holdsI [OF 3(2)] have "holds s3 B (I((c, d) := rest))" by blast
    moreover have "kept s s3" using kept_trans [OF kept_trans [OF 1(3) quiet_kept [OF q]] 3(3)] .
    ultimately show ?thesis using 3(1,4,5) by blast
  qed
  with 1(1,3,4,5) wf m blk show ?thesis by blast
qed

lemma served_take:
  assumes sv: "served b s I" and c: "conns s c = Some cn" and I: "I (c, d) = bs # rest"
  shows "\<exists>a m s1. conn_dequeue d (Some c) s = Inr (Some a, s1) \<and> kept s s1 \<and> log s1 = log s \<and>
    tick s1 = tick s \<and> heap_wf s1 \<and> msgs s1 a = Some m \<and> blocks s1 (m_data m) = Some bs \<and>
    length bs = unat (m_size m) \<and> msg_bytes s1 a = bs \<and>
    (\<forall>s2. quiet s1 s2 \<longrightarrow> (\<exists>s3. msg_free (Some a) s2 = Inr s3 \<and> served b s3 (I((c, d) := rest)) \<and>
       kept s s3 \<and> log s3 = log s2 \<and> tick s3 = tick s2))"
proof -
  from sv obtain l a h where b: "socklist b = Some l" "buf b = Some a" "filedict b = Some h"
    "sl_wf l" "no_table h s" "linked l s" "holds s [a \<mapsto> unat (bufsize b)] I" by (rule servedE)
  have restored: "served b s3 I'" if "kept s s3" "holds s3 [a \<mapsto> unat (bufsize b)] I'" for s3 I'
  proof -
    have "dicts s3 = dicts s" using that(1) by (simp add: kept_def)
    with b(5) have "no_table h s3" by (simp add: no_table_def)
    with that show ?thesis using servedI [OF b(1-4) _ linked_kept [OF b(6)]] by blast
  qed
  from holds_take [where d = d, OF b(7) c I] restored show ?thesis by blast
qed

text \<open>Every queued message has an address below the clock, so a queue is no longer than it.\<close>

lemma queue_length:
  assumes "served b s I"
  shows "length (I (c, d)) \<le> tick s"
proof -
  from assms obtain B where "holds s B I" by (auto elim: servedE)
  then obtain Q where Q: "qs s B Q {}" "I = (\<lambda>x. map (msg_bytes s) (Q x))" by (rule holdsE)
  show ?thesis
  proof (cases "conns s c")
    case None
    with Q qsD(6) [OF Q(1) None] show ?thesis by simp
  next
    case (Some cn)
    have "distinct (Q (c, d))" using qsD(5) [OF Q(1) Some, of d] by (simp add: mq_rep_def)
    moreover have "set (Q (c, d)) \<subseteq> {..<tick s}"
      using qsD(9) [OF Q(1)] heap_wfD(1) [OF qsD(1) [OF Q(1)]] by blast
    ultimately show ?thesis
      using card_mono [of "{..<tick s}" "set (Q (c, d))"] Q(2) by (simp add: distinct_card)
  qed
qed

end
