(* ===== verification/Drain.thy ===== *)
theory Drain
  imports Wf_Prelude
begin

text \<open>
  The loop both writeable handlers have: while there is a message, take it and deliver it, or
  give up for now. The loop is fuelled; the interface \<open>consumer\<close> says what one round must do for
  the loop to deliver messages in order, and its lemma that fuel for one more round than there
  are messages is enough.
\<close>

section \<open>The loop\<close>

text \<open>A round returns whether the loop goes on; \<open>False\<close> is a \<open>break\<close>.\<close>

fun while_loop :: "nat \<Rightarrow> ('s \<Rightarrow> bool res) \<Rightarrow> ('s \<Rightarrow> (bool \<times> 's) res) \<Rightarrow> 's \<Rightarrow> 's res" where
  "while_loop 0 has body s = Inl Diverge"
| "while_loop (Suc n) has body s =
     andThen (has s) (\<lambda>h.
       if \<not> h then Inr s
       else andThen (body s) (\<lambda>(go, s). if go then while_loop n has body s else Inr s))"

section \<open>The interface\<close>

text \<open>
  \<open>rep sent todo s\<close>: the messages \<open>sent\<close> have been delivered and \<open>todo\<close> are still there;
  \<open>paused\<close> is the same after a \<open>break\<close>.
\<close>

locale consumer =
  fixes rep paused :: "'m list \<Rightarrow> 'm list \<Rightarrow> 's \<Rightarrow> bool"
    and has :: "'s \<Rightarrow> bool res"
    and body :: "'s \<Rightarrow> (bool \<times> 's) res"
  assumes has_law: "rep sent todo s \<Longrightarrow> has s = Inr (todo \<noteq> [])"
    and body_law: "rep sent (m # todo) s \<Longrightarrow> \<exists>go s'. body s = Inr (go, s') \<and>
      (if go then rep (sent @ [m]) todo s' else paused sent (m # todo) s')"
begin

text \<open>With fuel for every message the loop ends, having delivered a prefix; all unless it paused.\<close>

lemma drains:
  "\<lbrakk>rep sent todo s; length todo < n\<rbrakk> \<Longrightarrow>
   \<exists>s' out rest. while_loop n has body s = Inr s' \<and> todo = out @ rest \<and>
     (if rest = [] then rep (sent @ out) [] s' else paused (sent @ out) rest s')"
proof (induction n arbitrary: sent todo s)
  case 0
  then show ?case by simp
next
  case (Suc n)
  show ?case
  proof (cases todo)
    case Nil
    with has_law [OF Suc.prems(1)] Suc.prems(1) show ?thesis by auto
  next
    case (Cons m ms)
    from body_law [OF Suc.prems(1) [unfolded Cons]] obtain go s1 where b: "body s = Inr (go, s1)"
      "if go then rep (sent @ [m]) ms s1 else paused sent (m # ms) s1" by blast
    have h: "has s = Inr True" using has_law [OF Suc.prems(1)] Cons by simp
    show ?thesis
    proof (cases go)
      case True
      with b have "rep (sent @ [m]) ms s1" by simp
      moreover have "length ms < n" using Suc.prems(2) Cons by simp
      ultimately obtain s' out rest where "while_loop n has body s1 = Inr s'" "ms = out @ rest"
        "if rest = [] then rep ((sent @ [m]) @ out) [] s' else paused ((sent @ [m]) @ out) rest s'"
        using Suc.IH by blast
      with True h b Cons have "while_loop (Suc n) has body s = Inr s' \<and> todo = (m # out) @ rest \<and>
        (if rest = [] then rep (sent @ m # out) [] s' else paused (sent @ m # out) rest s')" by (simp split: if_split_asm)
      then show ?thesis by blast
    next
      case False
      with h b Cons have "while_loop (Suc n) has body s = Inr s1 \<and> todo = [] @ todo \<and>
        (if todo = [] then rep (sent @ []) [] s1 else paused (sent @ []) todo s1)" by simp
      then show ?thesis by blast
    qed
  qed
qed

text \<open>A consumer that never pauses delivers everything.\<close>

lemma drains_all:
  assumes "rep [] todo s" "length todo < n" "\<And>sent todo s. \<not> paused sent todo s"
  shows "\<exists>s'. while_loop n has body s = Inr s' \<and> rep todo [] s'"
  using drains [OF assms(1,2)] assms(3) by (auto split: if_split_asm)

end

end
