(* ===== verification/Frontend.thy ===== *)
theory Frontend
  imports Conn_Ops Drain
begin

text \<open>
  The callbacks of \<^verbatim>\<open>main/frontend.c\<close> that libwebsockets calls. What the library tells a
  callback (the websocket, the reason, the user pointer, the input, and what its accessors
  return) is the record \<open>cb\<close>; what it is told goes to the log. The state gains the session and
  virtual host objects, which live in memory of the library.
\<close>

section \<open>Data\<close>

datatype reason =
    LWS_CALLBACK_PROTOCOL_INIT
  | LWS_CALLBACK_ESTABLISHED
  | LWS_CALLBACK_CLOSED
  | LWS_CALLBACK_SERVER_WRITEABLE
  | LWS_CALLBACK_RECEIVE
  | LWS_CALLBACK_RAW_ADOPT_FILE
  | LWS_CALLBACK_RAW_RX_FILE
  | LWS_CALLBACK_RAW_WRITEABLE_FILE
  | LWS_CALLBACK_RAW_CLOSE_FILE
  | Other_reason

record per_session_data =
  lwsi :: "wsi option"
  conn_handle :: "addr option"

text \<open>\<open>protocol\<close> is the name of the protocol entry the object points to.\<close>

record per_vhost_data =
  context_id :: "nat option"
  vhost :: "nat option"
  protocol :: "string option"

record fheap = dheap +
  psss :: "addr \<rightharpoonup> per_session_data"
  vhds :: "addr \<rightharpoonup> per_vhost_data"

lemma step_fheap [simp, frame_simps]:
  "psss (step s) = psss s" "vhds (step s) = vhds s" "fheap.more (step s) = fheap.more s"
  by (simp_all add: step_def)

lemma emit_fheap [simp, frame_simps]:
  "psss (emit e s) = psss s" "vhds (emit e s) = vhds s" "fheap.more (emit e s) = fheap.more s"
  by (simp_all add: emit_def)

text \<open>
  A call of a callback: \<open>cb_vhd\<close> is what \<open>lws_protocol_vh_priv_get\<close> returns, \<open>cb_opaque\<close> what
  \<open>lws_get_opaque_user_data\<close>, \<open>cb_parent\<close> what \<open>lws_get_parent\<close>, \<open>cb_backend\<close> what
  \<open>lws_context_user\<close>, and \<open>cb_context\<close>, \<open>cb_vhost\<close>, \<open>cb_protocol\<close> what the accessors of the
  websocket's context, virtual host and protocol return.
\<close>

record cb =
  cb_wsi :: wsi
  cb_user :: "addr option"
  cb_in :: "bytes option"
  cb_len :: size_t
  cb_backend :: "backend_t option"
  cb_opaque :: "addr option"
  cb_parent :: "wsi option"
  cb_vhd :: "addr option"
  cb_context :: nat
  cb_vhost :: nat
  cb_protocol :: string

definition set_pss :: "addr \<Rightarrow> per_session_data \<Rightarrow> 'a fheap_scheme \<Rightarrow> 'a fheap_scheme" where
  "set_pss p x s = s\<lparr>psss := (psss s)(p \<mapsto> x)\<rparr>"

text \<open>The socket table that the \<open>sock_handle\<close> pointers of a backend point into.\<close>

definition table_of :: "backend_t option \<Rightarrow> socklist_t" where
  "table_of backend = (case backend of
       Some b \<Rightarrow> (case socklist b of Some l \<Rightarrow> l | None \<Rightarrow> \<lparr>sl_alloc = 0, sl_size = 0, sl_map = [], sl_self = 0, sl_block = 0\<rparr>)
     | None \<Rightarrow> \<lparr>sl_alloc = 0, sl_size = 0, sl_map = [], sl_self = 0, sl_block = 0\<rparr>)"

section \<open>The raw socket callback\<close>

text \<open>One round of the loop of \<open>LWS_CALLBACK_RAW_WRITEABLE_FILE\<close>; the result of the write is not used.\<close>

definition raw_round ::
  "env \<Rightarrow> backend_t option \<Rightarrow> addr option \<Rightarrow> 'a dheap_scheme \<Rightarrow> (bool \<times> 'a dheap_scheme) res" where
  "raw_round E backend conn s =
     andThen (conn_getmsg_forlocal conn s) (\<lambda>(msg, s).
       if msg = None then Inr (False, s)
       else andThen (deref (msgs s) msg) (\<lambda>(a, m).
         andThen (conn_writeraw_local E backend conn (Some (m_data m)) (m_size m) s) (\<lambda>(rc, s).
         andThen (msg_free msg s) (\<lambda>s. Inr (True, s)))))"

definition frontend_cli_callback ::
  "env \<Rightarrow> reason \<Rightarrow> cb \<Rightarrow> 'a dheap_scheme \<Rightarrow> (int \<times> 'a dheap_scheme) res" where
  "frontend_cli_callback E reason x s =
     (let backend = cb_backend x; conn = cb_opaque x; rc = 0 in
      case reason of
        LWS_CALLBACK_RAW_RX_FILE \<Rightarrow>
          andThen (conn_readraw_local E True backend conn s) (\<lambda>(size, data, s).
            if 0 < size
            then andThen (conn_putmsg_forweb E conn
                     (case data of None \<Rightarrow> None | Some d \<Rightarrow> blocks s d) (of_int size) s) (\<lambda>(r, s).
                   Inr (rc, emit (LwsWritable (cb_parent x)) s))
            else Inr (rc, s))
      | LWS_CALLBACK_RAW_WRITEABLE_FILE \<Rightarrow>
          andThen (while_loop (Suc (tick s)) (conn_hasmsg_forlocal conn) (raw_round E backend conn) s)
            (\<lambda>s. Inr (rc, s))
      | LWS_CALLBACK_RAW_CLOSE_FILE \<Rightarrow>
          andThen (conn_close conn s) (\<lambda>s.
          andThen (conn_del backend conn s) (\<lambda>s. Inr (rc, s)))
      | _ \<Rightarrow> Inr (rc, s))"

section \<open>The websocket callback\<close>

text \<open>
  One round of the loop of \<open>LWS_CALLBACK_SERVER_WRITEABLE\<close> on the pair of the return code and the
  state. The comparison \<open>m < msg->size\<close> is one of \<open>size_t\<close> values: \<open>m\<close> is converted. The bytes that
  \<open>lws_write\<close> reads beyond the block are logged as indeterminate.
\<close>

definition ws_round ::
  "env \<Rightarrow> wsi \<Rightarrow> addr option \<Rightarrow> int \<times> 'a dheap_scheme \<Rightarrow> (bool \<times> int \<times> 'a dheap_scheme) res" where
  "ws_round E w conn rcs =
     (let (rc, s) = rcs;
          busy = e_partial E (tick s); s = step s;
          (busy, s) = (if busy then (True, s) else (e_choked E (tick s), step s)) in
      if busy then Inr (False, rc, emit (LwsWritable (Some w)) s)
      else andThen (conn_getmsg_forweb conn s) (\<lambda>(msg, s).
        if msg = None then Inr (False, rc, s)
        else andThen (deref (msgs s) msg) (\<lambda>(a, mg).
          andThen (deref (blocks s) (Some (m_data mg))) (\<lambda>(d, bs).
            let m = e_lws_write E (tick s);
                s = emit (LwsFrame w (peek bs (unat (e_lws_pre E)) (unat (m_size mg))) m) (step s);
                (rc, s) = (if (of_int m :: size_t) < m_size mg then (-1, emit (LwsErr m) s) else (rc, s)) in
            andThen (msg_free msg s) (\<lambda>s. Inr (True, rc, s))))))"

definition ws_established ::
  "env \<Rightarrow> cb \<Rightarrow> 'a fheap_scheme \<Rightarrow> (int \<times> 'a fheap_scheme) res" where
  "ws_established E x s =
     andThen (deref (psss s) (cb_user x)) (\<lambda>(p, pss).
     andThen (deref (vhds s) (cb_vhd x)) (\<lambda>(v, vhd).
     case protocol vhd of None \<Rightarrow> Inl NullDeref
     | Some name \<Rightarrow>
       andThen (conn_new E (cb_backend x) (Some name) s) (\<lambda>(conn, s).
       let s = set_pss p (pss\<lparr>conn_handle := conn\<rparr>) s in
       if conn = None then Inr (-1, s)
       else let s = emit (LwsInsert p) s in
         andThen (conn_open E (table_of (cb_backend x)) conn s) (\<lambda>(r, s).
         andThen (conn_get_descriptor conn s) (\<lambda>desc.
         let type = conn_get_adoptiontype conn;
             pname = conn_get_protocolname conn;
             child = e_adopt E (tick s);
             s = emit (LwsAdopt desc type pname (cb_wsi x) child) (step s);
             s = set_pss p (pss\<lparr>conn_handle := conn, lwsi := child\<rparr>) s in
         Inr (0, emit (LwsOpaque child conn) s))))))"

definition frontend_ws_callback ::
  "env \<Rightarrow> reason \<Rightarrow> cb \<Rightarrow> 'a fheap_scheme \<Rightarrow> (int \<times> 'a fheap_scheme) res" where
  "frontend_ws_callback E reason x s =
     (let rc = 0 in
      case reason of
        LWS_CALLBACK_PROTOCOL_INIT \<Rightarrow>
          let a = tick s; s = step s in
          if \<not> e_malloc E a then Inl NullDeref
          else Inr (rc, s\<lparr>vhds := (vhds s)(a \<mapsto> \<lparr>context_id = Some (cb_context x),
                             vhost = Some (cb_vhost x), protocol = Some (cb_protocol x)\<rparr>)\<rparr>)
      | LWS_CALLBACK_ESTABLISHED \<Rightarrow> ws_established E x s
      | LWS_CALLBACK_CLOSED \<Rightarrow>
          andThen (deref (psss s) (cb_user x)) (\<lambda>(p, pss).
          andThen (deref (vhds s) (cb_vhd x)) (\<lambda>(v, vhd). Inr (rc, emit (LwsRemove p) s)))
      | LWS_CALLBACK_SERVER_WRITEABLE \<Rightarrow>
          andThen (deref (psss s) (cb_user x)) (\<lambda>(p, pss).
            while_loop (Suc (tick s)) (\<lambda>(rc, s). conn_hasmsg_forweb (conn_handle pss) s)
              (ws_round E (cb_wsi x) (conn_handle pss)) (rc, s))
      | LWS_CALLBACK_RECEIVE \<Rightarrow>
          andThen (deref (psss s) (cb_user x)) (\<lambda>(p, pss).
          andThen (conn_putmsg_forlocal E (conn_handle pss) (cb_in x) (cb_len x) s) (\<lambda>(r, s).
            Inr (rc, emit (LwsWritable (lwsi pss)) s)))
      | _ \<Rightarrow> Inr (rc, s))"

text \<open>\<open>frontend_http_callback\<close> hands everything to \<open>lws_callback_http_dummy\<close>, a function \<open>dummy\<close> here.\<close>

definition frontend_http_callback ::
  "(reason \<Rightarrow> cb \<Rightarrow> 's \<Rightarrow> int \<times> 's) \<Rightarrow> reason \<Rightarrow> cb \<Rightarrow> 's \<Rightarrow> int \<times> 's" where
  "frontend_http_callback dummy reason x s = dummy reason x s"

end
