(* ===== verification/Callbacks.thy ===== *)
theory Callbacks
  imports Frontend
begin

text \<open>
  What each callback does to the contents of the queues, to the connections and to the outside,
  for a served bridge: the two writeable loops as consumers of a queue, and the outcome of every
  other reason.
\<close>

section \<open>Serving does not depend on the sessions\<close>

lemma served_cong:
  assumes "served b s I" "msgs s' = msgs s" "blocks s' = blocks s" "conns s' = conns s"
    "dicts s' = dicts s" "tick s \<le> tick s'"
  shows "served b s' I"
proof -
  from assms(1) obtain l a h where b: "socklist b = Some l" "buf b = Some a" "filedict b = Some h"
    "sl_wf l" "no_table h s" "linked l s" "holds s [a \<mapsto> unat (bufsize b)] I" by (rule servedE)
  have "no_table h s'" using b(5) assms(5) by (simp add: no_table_def)
  moreover have "linked l s'" using b(6) assms(4) by (simp add: linked_def)
  ultimately show ?thesis by (rule servedI [OF b(1-4) _ _ holds_cong [OF b(7) assms(2-4,6)]])
qed

lemma set_pss_sel [simp, frame_simps]:
  "tick (set_pss p x s) = tick s" "log (set_pss p x s) = log s" "blocks (set_pss p x s) = blocks s"
  "msgs (set_pss p x s) = msgs s" "items (set_pss p x s) = items s" "tbls (set_pss p x s) = tbls s"
  "dicts (set_pss p x s) = dicts s" "conns (set_pss p x s) = conns s" "vhds (set_pss p x s) = vhds s"
  "psss (set_pss p x s) = (psss s)(p \<mapsto> x)" "fheap.more (set_pss p x s) = fheap.more s"
  by (simp_all add: set_pss_def)

lemma dheap_more_fields:
  fixes s s' :: "'a fheap_scheme"
  assumes "dheap.more s' = dheap.more s"
  shows "psss s' = psss s" "vhds s' = vhds s" "fheap.more s' = fheap.more s"
  using assms by (cases s; cases s'; simp)+

section \<open>The loop of the raw socket\<close>

text \<open>The messages \<open>sent\<close> have gone out, one call of \<open>write\<close> each, since the state \<open>s0\<close>.\<close>

definition writes :: "int \<Rightarrow> bytes list \<Rightarrow> io list \<Rightarrow> bool" where
  "writes fd = list_all2 (\<lambda>bs e. \<exists>rc. e = IoWrite fd bs rc)"

definition raw_rep ::
  "backend_t \<Rightarrow> addr \<Rightarrow> 'a dheap_scheme \<Rightarrow> (addr \<times> dir \<Rightarrow> bytes list) \<Rightarrow>
   bytes list \<Rightarrow> bytes list \<Rightarrow> 'a dheap_scheme \<Rightarrow> bool" where
  "raw_rep b c s0 I sent todo s \<longleftrightarrow>
     served b s (I((c, Local) := todo)) \<and> [] \<notin> set todo \<and> kept s0 s \<and>
     (\<exists>cn es. conns s0 c = Some cn \<and> log s = log s0 @ es \<and> writes (fd_ds cn) sent es)"

lemma raw_rep_round:
  assumes "raw_rep b c s0 I sent (bs # todo) s"
  shows "\<exists>s'. raw_round E (Some b) (Some c) s = Inr (True, s') \<and> raw_rep b c s0 I (sent @ [bs]) todo s'"
proof -
  let ?I = "I((c, Local) := bs # todo)"
  from assms obtain cn es where sv: "served b s ?I" and ne: "bs \<noteq> []" "[] \<notin> set todo"
    and k: "kept s0 s" and c: "conns s0 c = Some cn" and log: "log s = log s0 @ es"
    and wr: "writes (fd_ds cn) sent es" by (auto simp: raw_rep_def)
  from kept_conn [OF k c] obtain cn1 where c1: "conns s c = Some cn1" "fd_ds cn1 = fd_ds cn" by blast
  from served_take [OF sv c1(1), of Local bs todo] obtain a m s1 where
    deq: "conn_dequeue Local (Some c) s = Inr (Some a, s1)" and k1: "kept s s1" "log s1 = log s"
    and wf: "heap_wf s1" and m: "msgs s1 a = Some m" and len: "length bs = unat (m_size m)"
    and mb: "msg_bytes s1 a = bs"
    and fin: "\<forall>s2. quiet s1 s2 \<longrightarrow> (\<exists>s3. msg_free (Some a) s2 = Inr s3 \<and>
       served b s3 (?I((c, Local) := todo)) \<and> kept s s3 \<and> log s3 = log s2 \<and> tick s3 = tick s2)"
    by auto
  from kept_conn [OF k1(1) c1(1)] c1(2) obtain cn2 where
    c2: "conns s1 c = Some cn2" "fd_ds cn2 = fd_ds cn" by auto
  have "m_size m \<noteq> 0" using ne(1) len by auto
  note out = conn_writeraw_msg [OF c2(1) wf m this, of E b]
  let ?e = "IoWrite (fd_ds cn) bs (e_write E (tick s1))"
  let ?s2 = "emit ?e (step s1)"
  from fin [rule_format, of ?s2] obtain s3 where s3: "msg_free (Some a) ?s2 = Inr s3"
    "served b s3 (?I((c, Local) := todo))" "kept s s3" "log s3 = log ?s2" by auto
  have "raw_round E (Some b) (Some c) s = Inr (True, s3)"
    using deq m out s3(1) mb c2(2) by (simp add: raw_round_def conn_getmsg_forlocal_def)
  moreover have "writes (fd_ds cn) (sent @ [bs]) (es @ [?e])"
    using wr by (auto simp: writes_def intro: list_all2_appendI)
  then have "raw_rep b c s0 I (sent @ [bs]) todo s3"
    using s3(2,4) ne(2) kept_trans [OF k s3(3)] c log k1(2) by (auto simp: raw_rep_def)
  ultimately show ?thesis by blast
qed

interpretation rawl: consumer "raw_rep b c s0 I" "\<lambda>_ _ _. False" "conn_hasmsg_forlocal (Some c)"
  "raw_round E (Some b) (Some c)" for E b c s0 I
proof unfold_locales
  fix sent todo s assume rep: "raw_rep b c s0 I sent todo s"
  then obtain cn where sv: "served b s (I((c, Local) := todo))" and k: "kept s0 s"
    and c: "conns s0 c = Some cn" by (auto simp: raw_rep_def)
  from kept_conn [OF k c] obtain cn1 where "conns s c = Some cn1" by blast
  with sv conn_nonempty_holds show "conn_hasmsg_forlocal (Some c) s = Inr (todo \<noteq> [])"
    by (fastforce simp: conn_hasmsg_forlocal_def elim!: servedE)
next
  fix sent bs todo s assume "raw_rep b c s0 I sent (bs # todo) s"
  from raw_rep_round [OF this]
  show "\<exists>go s'. raw_round E (Some b) (Some c) s = Inr (go, s') \<and>
      (if go then raw_rep b c s0 I (sent @ [bs]) todo s' else False)" by fastforce
qed

lemma raw_writeable:
  assumes sv: "served b s I" and c: "conns s c = Some cn" and ne: "[] \<notin> set (I (c, Local))"
    and x: "cb_backend x = Some b" "cb_opaque x = Some c"
  shows "\<exists>s' es. frontend_cli_callback E LWS_CALLBACK_RAW_WRITEABLE_FILE x s = Inr (0, s') \<and>
    served b s' (I((c, Local) := [])) \<and> kept s s' \<and> log s' = log s @ es \<and>
    writes (fd_ds cn) (I (c, Local)) es"
proof -
  have "raw_rep b c s I [] (I (c, Local)) s"
    using sv c ne by (simp add: raw_rep_def writes_def)
  moreover have "length (I (c, Local)) < Suc (tick s)" using queue_length [OF sv, of c Local] by simp
  ultimately obtain s' where
    "while_loop (Suc (tick s)) (conn_hasmsg_forlocal (Some c)) (raw_round E (Some b) (Some c)) s = Inr s'"
    "raw_rep b c s I (I (c, Local)) [] s'" using rawl.drains_all by blast
  with x c show ?thesis by (auto simp: frontend_cli_callback_def raw_rep_def simp del: while_loop.simps)
qed

section \<open>The loop of the websocket\<close>

text \<open>
  The bytes handed to \<open>lws_write\<close> for a block: from \<open>LWS_PRE\<close> on, as many as the whole block is
  long. The library is reported to have written too little by a comparison of \<open>size_t\<close> values.
\<close>

definition web_frame :: "env \<Rightarrow> bytes \<Rightarrow> bytes" where
  "web_frame E bs = peek bs (unat (e_lws_pre E)) (length bs)"

definition short_write :: "int \<Rightarrow> bytes \<Rightarrow> bool" where
  "short_write m bs \<longleftrightarrow> (of_int m :: size_t) < of_nat (length bs)"

lemma web_frame_block:
  "web_frame E (web_block E xs) = xs @ replicate (unat (e_lws_pre E)) None"
  using peek_append [of "replicate (unat (e_lws_pre E)) None" xs "unat (e_lws_pre E)"]
  by (simp add: web_frame_def web_block_def add.commute)

lemma short_write_negative: "\<not> short_write (-1) bs"
  by (simp add: short_write_def not_less)

text \<open>The calls made for each block and the result \<open>m\<close> of its \<open>lws_write\<close>, and the return code.\<close>

definition frame_log :: "env \<Rightarrow> wsi \<Rightarrow> bytes \<times> int \<Rightarrow> io list" where
  "frame_log E w bm = LwsFrame w (web_frame E (fst bm)) (snd bm) #
     (if short_write (snd bm) (fst bm) then [LwsErr (snd bm)] else [])"

definition frames_log :: "env \<Rightarrow> wsi \<Rightarrow> (bytes \<times> int) list \<Rightarrow> io list" where
  "frames_log E w bms = concat (map (frame_log E w) bms)"

definition frames_rc :: "(bytes \<times> int) list \<Rightarrow> int" where
  "frames_rc bms = (if list_ex (\<lambda>(bs, m). short_write m bs) bms then -1 else 0)"

definition answered :: "env \<Rightarrow> (bytes \<times> int) list \<Rightarrow> bool" where
  "answered E bms \<longleftrightarrow> (\<forall>bm \<in> set bms. \<exists>n. snd bm = e_lws_write E n)"

lemma answered_simps [simp]:
  "answered E []" "answered E (bms @ [(bs, e_lws_write E n)]) = answered E bms"
  by (auto simp: answered_def)

lemma frames_log_append [simp]:
  "frames_log E w (xs @ ys) = frames_log E w xs @ frames_log E w ys"
  "frames_log E w [] = []" "frames_log E w [x] = frame_log E w x"
  by (simp_all add: frames_log_def)

lemma frames_rc_snoc:
  "frames_rc (bms @ [(bs, m)]) = (if short_write m bs then -1 else frames_rc bms)"
  by (simp add: frames_rc_def)

text \<open>\<open>extra\<close> is what has been logged after the last frame.\<close>

definition ws_state ::
  "env \<Rightarrow> wsi \<Rightarrow> backend_t \<Rightarrow> addr \<Rightarrow> 'a dheap_scheme \<Rightarrow> (addr \<times> dir \<Rightarrow> bytes list) \<Rightarrow> io list \<Rightarrow>
   bytes list \<Rightarrow> bytes list \<Rightarrow> int \<times> 'a dheap_scheme \<Rightarrow> bool" where
  "ws_state E w b c s0 I extra sent todo rcs \<longleftrightarrow> (case rcs of (rc, s) \<Rightarrow>
     served b s (I((c, Web) := todo)) \<and> kept s0 s \<and> conns s0 c \<noteq> None \<and>
     (\<exists>bms. map fst bms = sent \<and> rc = frames_rc bms \<and> answered E bms \<and>
        log s = log s0 @ frames_log E w bms @ extra) \<and>
     (extra \<noteq> [] \<longrightarrow> (\<exists>n. e_partial E n \<or> e_choked E n)))"

text \<open>The websocket is looked at before a message is taken: it may be congested.\<close>

definition congested :: "env \<Rightarrow> nat \<Rightarrow> bool" where
  "congested E n \<longleftrightarrow> e_partial E n \<or> e_choked E (Suc n)"

lemma ws_round_cases:
  assumes "ws_state E w b c s0 I [] sent (bs # todo) (rc, s)"
  shows "\<exists>go rc' s'. ws_round E w (Some c) (rc, s) = Inr (go, rc', s') \<and>
    go = (\<not> congested E (tick s)) \<and>
    (if go then ws_state E w b c s0 I [] (sent @ [bs]) todo (rc', s')
     else ws_state E w b c s0 I [LwsWritable (Some w)] sent (bs # todo) (rc', s'))"
proof -
  let ?I = "I((c, Web) := bs # todo)" and ?n = "tick s"
  from assms obtain bms where sv: "served b s ?I" and k: "kept s0 s" and c0: "conns s0 c \<noteq> None"
    and bms: "map fst bms = sent" "rc = frames_rc bms" "log s = log s0 @ frames_log E w bms"
      "answered E bms"
    by (auto simp: ws_state_def)
  show ?thesis
  proof (cases "e_partial E ?n \<or> e_choked E (Suc ?n)")
    case True
    let ?t = "emit (LwsWritable (Some w)) (if e_partial E ?n then step s else step (step s))"
    have "ws_round E w (Some c) (rc, s) = Inr (False, rc, ?t)"
      using True by (auto simp: ws_round_def Let_def)
    moreover have q: "quiet s ?t" by simp
    have "ws_state E w b c s0 I [LwsWritable (Some w)] sent (bs # todo) (rc, ?t)"
      using served_quiet [OF sv q] kept_trans [OF k quiet_kept [OF q]] c0 bms True
      by (auto simp: ws_state_def)
    moreover have "\<not> (\<not> congested E ?n)" using True by (simp add: congested_def)
    ultimately show ?thesis
      by (intro exI [of _ False] exI [of _ rc] exI [of _ ?t]) simp
  next
    case False
    let ?s = "step (step s)"
    have q: "quiet s ?s" by simp
    from c0 obtain cn0 where "conns s0 c = Some cn0" by blast
    from kept_conn [OF kept_trans [OF k quiet_kept [OF q]] this] obtain cn where
      c: "conns ?s c = Some cn" by blast
    from served_take [OF served_quiet [OF sv q] c, of Web bs todo] obtain a m s1 where
      deq: "conn_dequeue Web (Some c) ?s = Inr (Some a, s1)" and k1: "kept ?s s1" "log s1 = log s"
      and m: "msgs s1 a = Some m" "blocks s1 (m_data m) = Some bs" "length bs = unat (m_size m)"
      and fin: "\<forall>s2. quiet s1 s2 \<longrightarrow> (\<exists>s3. msg_free (Some a) s2 = Inr s3 \<and>
         served b s3 (?I((c, Web) := todo)) \<and> kept ?s s3 \<and> log s3 = log s2 \<and> tick s3 = tick s2)"
      by auto
    let ?m = "e_lws_write E (tick s1)"
    let ?s2 = "emit (LwsFrame w (web_frame E bs) ?m) (step s1)"
    let ?s3 = "if short_write ?m bs then emit (LwsErr ?m) ?s2 else ?s2"
    have "quiet s1 ?s3" by simp
    from fin [rule_format, OF this] obtain s4 where s4: "msg_free (Some a) ?s3 = Inr s4"
      "served b s4 (?I((c, Web) := todo))" "kept ?s s4" "log s4 = log ?s3" by auto
    let ?rc = "if short_write ?m bs then -1 else rc"
    have size: "m_size m = of_nat (length bs)" "unat (of_nat (length bs) :: size_t) = length bs"
      using m(3) by simp_all
    have "ws_round E w (Some c) (rc, s) = Inr (True, ?rc, s4)"
      using False deq m(1,2) s4(1) unfolding ws_round_def Let_def
      by (auto simp: conn_getmsg_forweb_def size short_write_def web_frame_def split: if_split_asm)
    moreover have "kept s0 s4" using kept_trans [OF kept_trans [OF k quiet_kept [OF q]] s4(3)] .
    then have "ws_state E w b c s0 I [] (sent @ [bs]) todo (?rc, s4)"
      using s4(2,4) c0 bms k1(2)
      by (auto simp: ws_state_def frames_rc_snoc frame_log_def intro!: exI [of _ "bms @ [(bs, ?m)]"])
    moreover have "\<not> congested E ?n" using False by (simp add: congested_def)
    ultimately show ?thesis
      by (intro exI [of _ True] exI [of _ ?rc] exI [of _ s4]) simp
  qed
qed

interpretation wsl: consumer "ws_state E w b c s0 I []" "ws_state E w b c s0 I [LwsWritable (Some w)]"
  "\<lambda>(rc, s). conn_hasmsg_forweb (Some c) s" "ws_round E w (Some c)" for E w b c s0 I
proof unfold_locales
  fix sent todo rcs assume rep: "ws_state E w b c s0 I [] sent todo rcs"
  obtain rc s where rcs: "rcs = (rc, s)" by (cases rcs)
  with rep have sv: "served b s (I((c, Web) := todo))" and k: "kept s0 s"
    and c: "\<exists>cn. conns s0 c = Some cn" by (auto simp: ws_state_def)
  from kept_conn [OF k] c obtain cn1 where "conns s c = Some cn1" by blast
  with sv conn_nonempty_holds
  show "(case rcs of (rc, s) \<Rightarrow> conn_hasmsg_forweb (Some c) s) = Inr (todo \<noteq> [])"
    by (fastforce simp: rcs conn_hasmsg_forweb_def elim!: servedE)
next
  fix sent bs todo rcs assume rep: "ws_state E w b c s0 I [] sent (bs # todo) rcs"
  obtain rc s where rcs: "rcs = (rc, s)" by (cases rcs)
  from ws_round_cases [OF rep [unfolded rcs]]
  show "\<exists>go s'. ws_round E w (Some c) rcs = Inr (go, s') \<and>
      (if go then ws_state E w b c s0 I [] (sent @ [bs]) todo s'
       else ws_state E w b c s0 I [LwsWritable (Some w)] sent (bs # todo) s')"
    unfolding rcs by blast
qed

text \<open>The first message goes out exactly when the websocket is not congested at the first look.\<close>

lemma ws_loop:
  assumes st: "ws_state E w b c s I [] [] todo (0, s)" and n: "length todo < Suc n"
  shows "\<exists>rcs out rest.
    while_loop (Suc n) (\<lambda>(rc, s). conn_hasmsg_forweb (Some c) s) (ws_round E w (Some c)) (0, s) = Inr rcs \<and>
    todo = out @ rest \<and> (out = [] \<longleftrightarrow> todo = [] \<or> congested E (tick s)) \<and>
    (if rest = [] then ws_state E w b c s I [] out [] rcs
     else ws_state E w b c s I [LwsWritable (Some w)] out rest rcs)"
proof (cases todo)
  case Nil
  with wsl.has_law [OF st] st show ?thesis by (intro exI [of _ "(0, s)"] exI [of _ "[]"]) simp
next
  case (Cons bs more)
  have has: "conn_hasmsg_forweb (Some c) s = Inr True" using wsl.has_law [OF st] Cons by simp
  from ws_round_cases [OF st [unfolded Cons]] obtain go rc1 s1 where
    r: "ws_round E w (Some c) (0, s) = Inr (go, rc1, s1)" "go = (\<not> congested E (tick s))"
      "if go then ws_state E w b c s I [] [bs] more (rc1, s1)
       else ws_state E w b c s I [LwsWritable (Some w)] [] (bs # more) (rc1, s1)"
    unfolding append_Nil by blast
  show ?thesis
  proof (cases go)
    case False
    with has r Cons show ?thesis by (intro exI [of _ "(rc1, s1)"] exI [of _ "[]"] exI [of _ todo]) simp
  next
    case True
    with r(3) have "ws_state E w b c s I [] [bs] more (rc1, s1)" by simp
    moreover have "length more < n" using n Cons by simp
    ultimately obtain rcs out rest where
      "while_loop n (\<lambda>(rc, s). conn_hasmsg_forweb (Some c) s) (ws_round E w (Some c)) (rc1, s1) = Inr rcs"
      "more = out @ rest"
      "if rest = [] then ws_state E w b c s I [] ([bs] @ out) [] rcs
       else ws_state E w b c s I [LwsWritable (Some w)] ([bs] @ out) rest rcs"
      using wsl.drains [of E w b c s I "[bs]" more "(rc1, s1)" n] by blast
    with has r(1,2) True Cons show ?thesis
      by - (rule exI [of _ rcs], rule exI [of _ "bs # out"], rule exI [of _ rest], simp split: if_split_asm)
  qed
qed

lemma server_writeable:
  assumes sv: "served b s I" and c: "conns s c = Some cn"
    and x: "cb_user x = Some p" "psss s p = Some pss" "conn_handle pss = Some c"
  shows "\<exists>s' bms rest. frontend_ws_callback E LWS_CALLBACK_SERVER_WRITEABLE x s = Inr (frames_rc bms, s') \<and>
    I (c, Web) = map fst bms @ rest \<and> served b s' (I((c, Web) := rest)) \<and> kept s s' \<and>
    answered E bms \<and> (rest \<noteq> [] \<longrightarrow> (\<exists>n. e_partial E n \<or> e_choked E n)) \<and>
    (bms = [] \<longleftrightarrow> I (c, Web) = [] \<or> congested E (tick s)) \<and>
    log s' = log s @ frames_log E (cb_wsi x) bms @
      (if rest = [] then [] else [LwsWritable (Some (cb_wsi x))])"
proof -
  let ?w = "cb_wsi x"
  have "ws_state E ?w b c s I [] [] (I (c, Web)) (0, s)"
    using sv c by (auto simp: ws_state_def frames_rc_def intro!: exI [of _ "[]"])
  moreover have "length (I (c, Web)) < Suc (tick s)" using queue_length [OF sv, of c Web] by simp
  ultimately obtain rcs out rest where
    first: "out = [] \<longleftrightarrow> I (c, Web) = [] \<or> congested E (tick s)" and
    loop: "while_loop (Suc (tick s)) (\<lambda>(rc, s). conn_hasmsg_forweb (Some c) s) (ws_round E ?w (Some c)) (0, s)
      = Inr rcs" and I: "I (c, Web) = out @ rest"
    and fin: "if rest = [] then ws_state E ?w b c s I [] out [] rcs
      else ws_state E ?w b c s I [LwsWritable (Some ?w)] out rest rcs"
    using ws_loop [of E ?w b c s I "I (c, Web)" "tick s"] by blast
  obtain rc s' where rcs: "rcs = (rc, s')" by (cases rcs)
  let ?e = "if rest = [] then [] else [LwsWritable (Some ?w)]"
  have "ws_state E ?w b c s I ?e out rest (rc, s')" using fin rcs by (auto split: if_split_asm)
  then obtain bms where out: "map fst bms = out" and "rc = frames_rc bms" "served b s' (I((c, Web) := rest))"
    "kept s s'" "log s' = log s @ frames_log E ?w bms @ ?e" "answered E bms"
    "rest \<noteq> [] \<longrightarrow> (\<exists>n. e_partial E n \<or> e_choked E n)" by (auto simp: ws_state_def)
  moreover have "frontend_ws_callback E LWS_CALLBACK_SERVER_WRITEABLE x s = Inr (rc, s')"
    using x loop rcs by (simp add: frontend_ws_callback_def del: while_loop.simps)
  moreover from out first have "bms = [] \<longleftrightarrow> I (c, Web) = [] \<or> congested E (tick s)" by auto
  ultimately show ?thesis using I out by blast
qed

section \<open>Receiving\<close>

text \<open>What \<open>d\<close> queue of connection \<open>c\<close> holds after a block has been put, if there was memory.\<close>

definition enq ::
  "bool \<Rightarrow> addr \<times> dir \<Rightarrow> bytes \<Rightarrow> (addr \<times> dir \<Rightarrow> bytes list) \<Rightarrow> addr \<times> dir \<Rightarrow> bytes list" where
  "enq ok z bs I = (if ok then I(z := I z @ [bs]) else I)"

lemma served_log: "served b s I \<Longrightarrow> served b (emit e s) I"
  by (erule served_cong) simp_all

lemma kept_emit: "kept s s' \<Longrightarrow> kept s (emit e s')"
  by (simp add: kept_def)

lemma putmsg_forlocal_served:
  assumes sv: "served b s I" and c: "conns s c = Some cn" and len: "len \<noteq> 0" and src: "unat len \<le> length xs"
  shows "\<exists>rc s'. conn_putmsg_forlocal E (Some c) (Some xs) len s = Inr (rc, s') \<and>
    served b s' (enq (room E (tick s)) (c, Local) (take (unat len) xs) I) \<and>
    kept s s' \<and> log s' = log s"
proof -
  from sv obtain B where "holds s B I" by (auto elim: servedE)
  from putmsg_forlocal_holds [OF this c len src, of E] obtain rc s' where
    put: "conn_putmsg_forlocal E (Some c) (Some xs) len s = Inr (rc, s')"
    and k: "kept s s'" "log s' = log s" by blast
  have "holds s' B (enq (room E (tick s)) (c, Local) (take (unat len) xs) I)" if "holds s B I" for B
    using putmsg_forlocal_holds [OF that c len src, of E] put by (auto simp: enq_def)
  from served_kept [OF sv k(1) this] put k show ?thesis by blast
qed

lemma putmsg_forweb_served:
  assumes sv: "served b s I" and c: "conns s c = Some cn" and len: "len \<noteq> 0" and src: "unat len \<le> length xs"
    and fits: "unat len + unat (e_lws_pre E) < 2 ^ 64"
  shows "\<exists>rc s'. conn_putmsg_forweb E (Some c) (Some xs) len s = Inr (rc, s') \<and>
    served b s' (enq (room E (tick s)) (c, Web) (web_block E (take (unat len) xs)) I) \<and>
    kept s s' \<and> log s' = log s"
proof -
  from sv obtain B where "holds s B I" by (auto elim: servedE)
  from putmsg_forweb_holds [OF this c len src fits] obtain rc s' where
    put: "conn_putmsg_forweb E (Some c) (Some xs) len s = Inr (rc, s')"
    and k: "kept s s'" "log s' = log s" by blast
  have "holds s' B (enq (room E (tick s)) (c, Web) (web_block E (take (unat len) xs)) I)"
    if "holds s B I" for B
    using putmsg_forweb_holds [OF that c len src fits] put by (auto simp: enq_def)
  from served_kept [OF sv k(1) this] put k show ?thesis by blast
qed

lemma ws_receive:
  assumes sv: "served b s I" and c: "conns s c = Some cn"
    and x: "cb_user x = Some p" "psss s p = Some pss" "conn_handle pss = Some c"
      "cb_in x = Some xs" "cb_len x \<noteq> 0" "unat (cb_len x) \<le> length xs"
  shows "\<exists>s'. frontend_ws_callback E LWS_CALLBACK_RECEIVE x s = Inr (0, s') \<and>
    served b s' (enq (room E (tick s)) (c, Local) (take (unat (cb_len x)) xs) I) \<and>
    kept s s' \<and> log s' = log s @ [LwsWritable (lwsi pss)]"
proof -
  from putmsg_forlocal_served [OF sv c x(5,6), of E] obtain rc s' where
    "conn_putmsg_forlocal E (Some c) (Some xs) (cb_len x) s = Inr (rc, s')"
    "served b s' (enq (room E (tick s)) (c, Local) (take (unat (cb_len x)) xs) I)"
    "kept s s'" "log s' = log s" by blast
  with x show ?thesis by (auto simp: frontend_ws_callback_def served_log kept_emit)
qed

text \<open>An empty message is not queued, but the child is asked to be written all the same.\<close>

lemma ws_receive_empty:
  assumes "cb_user x = Some p" "psss s p = Some pss" "cb_len x = 0"
  shows "frontend_ws_callback E LWS_CALLBACK_RECEIVE x s = Inr (0, emit (LwsWritable (lwsi pss)) s)"
  using assms by (simp add: frontend_ws_callback_def conn_putmsg_forlocal_def)

text \<open>The read takes tick \<open>n\<close>; the two allocations of the message follow it.\<close>

lemma raw_rx:
  assumes sv: "served b s I" and c: "conns s c = Some cn"
    and x: "cb_backend x = Some b" "cb_opaque x = Some c"
    and fits: "unat (bufsize b) + unat (e_lws_pre E) < 2 ^ 64"
  shows "\<exists>s'. frontend_cli_callback E LWS_CALLBACK_RAW_RX_FILE x s = Inr (0, s') \<and> kept s s' \<and>
    (case read_at E b (tick s) of
       Some (y # ys) \<Rightarrow>
         served b s' (enq (room E (Suc (tick s))) (c, Web) (web_block E (map Some (y # ys))) I) \<and>
         log s' = log s @ [IoRead (fd_ds cn) (Some (y # ys)), LwsWritable (cb_parent x)]
     | r \<Rightarrow> served b s' I \<and> log s' = log s @ [IoRead (fd_ds cn) r])"
proof -
  let ?r = "read_at E b (tick s)"
  from conn_readraw_served [OF sv c, of E] obtain a s1 where
    rd: "conn_readraw_local E True (Some b) (Some c) s =
      Inr (case ?r of None \<Rightarrow> -1 | Some xs \<Rightarrow> int (length xs), Some a, s1)"
    and s1: "served b s1 I" "kept s s1" "log s1 = log s @ [IoRead (fd_ds cn) ?r]"
    and bs: "\<forall>xs. ?r = Some xs \<longrightarrow> (\<exists>bs. blocks s1 a = Some bs \<and> length xs \<le> length bs \<and> take (length xs) bs = map Some xs)"
    by blast
  show ?thesis
  proof (cases "?r = None \<or> ?r = Some []")
    case True
    with rd x s1 show ?thesis by (auto simp: frontend_cli_callback_def)
  next
    case False
    then obtain y ys where r: "?r = Some (y # ys)" by (cases ?r) (auto simp: neq_Nil_conv)
    let ?xs = "y # ys" and ?n = "of_int (int (length (y # ys))) :: size_t"
    from bs r obtain bs where bs: "blocks s1 a = Some bs" "length ?xs \<le> length bs" "take (length ?xs) bs = map Some ?xs" by blast
    have "length ?xs \<le> unat (bufsize b)" by (rule read_at_length [OF r])
    moreover have "unat (bufsize b) < 2 ^ 64" using unsigned_less [of "bufsize b"] by simp
    ultimately have n: "unat ?n = length ?xs" by (simp add: unat_of_nat del: of_nat_Suc)
    with \<open>length ?xs \<le> unat (bufsize b)\<close> fits
    have n0: "?n \<noteq> 0" "unat ?n + unat (e_lws_pre E) < 2 ^ 64" by (auto simp del: of_nat_Suc)
    from bs(2) n have src: "unat ?n \<le> length bs" by (simp del: of_nat_Suc)
    from kept_conn [OF s1(2) c] obtain cn1 where c1: "conns s1 c = Some cn1" by blast
    have tick: "tick s1 = Suc (tick s)"
      using rd c by (auto simp: conn_readraw_local_def Let_def res_simps split: option.splits)
    from putmsg_forweb_served [OF s1(1) c1 n0(1) src n0(2)] obtain rc s' where
      "conn_putmsg_forweb E (Some c) (Some bs) ?n s1 = Inr (rc, s')"
      "served b s' (enq (room E (tick s1)) (c, Web) (web_block E (take (unat ?n) bs)) I)"
      "kept s1 s'" "log s' = log s1" by blast
    with rd r x bs n s1 kept_trans [OF s1(2)] tick show ?thesis
      by (auto simp: frontend_cli_callback_def served_log kept_emit simp del: of_nat_Suc)
  qed
qed

section \<open>Opening and closing\<close>

text \<open>
  What is logged when a session is established: the daemon socket is created, the session goes
  on the list, the socket is connected and adopted under the websocket, and the connection is
  made known to the new child.
\<close>

definition opened ::
  "int \<Rightarrow> addr \<Rightarrow> string \<Rightarrow> int \<Rightarrow> wsi \<Rightarrow> wsi option \<Rightarrow> addr \<Rightarrow> io list" where
  "opened fd p path rc w child c =
     [IoSocket fd, LwsInsert p, IoConnect fd (strncpy UNIX_PATH_MAX path) rc,
      LwsAdopt fd LWS_ADOPT_RAW_FILE_DESC ''CLI'' w child, LwsOpaque child (Some c)]"

lemma established_ok:
  assumes sv: "served b s I"
    and x: "cb_backend x = Some b" "cb_user x = Some p" "psss s p = Some pss"
      "cb_vhd x = Some v" "vhds s v = Some vhd" "protocol vhd = Some w"
    and l: "socklist b = Some l" and can: "can_open E b w (tick s)"
  shows "\<exists>s' c fd i path rc child. frontend_ws_callback E LWS_CALLBACK_ESTABLISHED x s = Inr (0, s') \<and>
    child = e_adopt E (tick s + 5) \<and> served b s' I \<and> tick s \<le> c \<and> c < tick s' \<and> conns s c = None \<and> conns s' = (conns s)(c \<mapsto> fresh_conn fd i) \<and>
    slot_path l i = Some path \<and> bridged l w = Some path \<and> 0 \<le> fd \<and>
    psss s' = (psss s)(p \<mapsto> pss\<lparr>conn_handle := Some c, lwsi := child\<rparr>) \<and> vhds s' = vhds s \<and>
    log s' = log s @ opened fd p path rc (cb_wsi x) child c"
proof -
  from conn_new_served [OF sv l, of E w] can obtain c s1 fd i path where
    new: "conn_new E (Some b) (Some w) s = Inr (Some c, s1)"
    and s1: "served b s1 I" "conns s c = None" "tick s \<le> c" "0 \<le> fd" "log s1 = log s @ [IoSocket fd]"
      "bridged l w = Some path" "slot_path l i = Some path" "conns s1 = (conns s)(c \<mapsto> fresh_conn fd i)"
      "tick s1 = tick s + 4"
    by (fastforce split: option.splits)
  from conn_new_served [OF sv l, of E w] new have "dheap.more s1 = dheap.more s" by auto
  note frame = dheap_more_fields [OF this]
  let ?s2 = "emit (LwsInsert p) (set_pss p (pss\<lparr>conn_handle := Some c\<rparr>) s1)"
  let ?rc = "e_connect E (tick ?s2)"
  let ?s3 = "emit (IoConnect fd (strncpy UNIX_PATH_MAX path) ?rc) (step ?s2)"
  let ?child = "e_adopt E (tick ?s3)"
  let ?s4 = "set_pss p (pss\<lparr>conn_handle := Some c, lwsi := ?child\<rparr>)
    (emit (LwsAdopt fd LWS_ADOPT_RAW_FILE_DESC ''CLI'' (cb_wsi x) ?child) (step ?s3))"
  let ?s5 = "emit (LwsOpaque ?child (Some c)) ?s4"
  have c: "conns ?s2 c = Some (fresh_conn fd i)" using s1(8) by simp
  have "conn_open E l (Some c) ?s2 = Inr (?rc, ?s3)"
    using conn_open_linked [OF c _ s1(7), of E] by (simp add: fresh_conn_def)
  moreover have "conn_get_descriptor (Some c) ?s3 = Inr fd"
    using s1(8) by (simp add: conn_get_descriptor_def fresh_conn_def)
  ultimately have "frontend_ws_callback E LWS_CALLBACK_ESTABLISHED x s = Inr (0, ?s5)"
    using x l new by (simp add: frontend_ws_callback_def ws_established_def table_of_def Let_def
        conn_get_adoptiontype_def conn_get_protocolname_def)
  moreover have "served b ?s5 I" by (rule served_cong [OF s1(1)]) simp_all
  moreover have "c < tick ?s5" using served_live [OF s1(1), of c] s1(8) by simp
  moreover have "psss ?s5 = (psss s)(p \<mapsto> pss\<lparr>conn_handle := Some c, lwsi := ?child\<rparr>)"
    using frame by simp
  moreover have "log ?s5 = log s @ opened fd p path ?rc (cb_wsi x) ?child c"
    using s1(5) by (simp add: opened_def)
  moreover have "vhds ?s5 = vhds s" "conns ?s5 = (conns s)(c \<mapsto> fresh_conn fd i)"
    using frame s1(8) by simp_all
  moreover have "?child = e_adopt E (tick s + 5)" using s1(9) by (simp add: add.commute)
  ultimately show ?thesis using s1(2,3,4,6,7) by blast
qed

lemma established_fails:
  assumes sv: "served b s I"
    and x: "cb_backend x = Some b" "cb_user x = Some p" "psss s p = Some pss"
      "cb_vhd x = Some v" "vhds s v = Some vhd" "protocol vhd = Some w"
    and l: "socklist b = Some l" and cannot: "\<not> can_open E b w (tick s)"
  shows "\<exists>s' es. frontend_ws_callback E LWS_CALLBACK_ESTABLISHED x s = Inr (-1, s') \<and>
    served b s' I \<and> tick s \<le> tick s' \<and> conns s' = conns s \<and>
    psss s' = (psss s)(p \<mapsto> pss\<lparr>conn_handle := None\<rparr>) \<and>
    vhds s' = vhds s \<and> log s' = log s @ es \<and>
    (es = [] \<or> (\<exists>fd < 0. es = [IoSocket fd]) \<or> (\<exists>fd. es = [IoSocket fd, IoClose fd]))"
proof -
  from conn_new_served [OF sv l, of E w] cannot obtain s1 es where
    new: "conn_new E (Some b) (Some w) s = Inr (None, s1)"
    and s1: "served b s1 I" "tick s \<le> tick s1" "conns s1 = conns s" "log s1 = log s @ es"
      "es = [] \<or> (\<exists>fd < 0. es = [IoSocket fd]) \<or> (\<exists>fd. es = [IoSocket fd, IoClose fd])"
      "dheap.more s1 = dheap.more s"
    by (fastforce split: option.splits)
  note frame = dheap_more_fields [OF s1(6)]
  let ?s2 = "set_pss p (pss\<lparr>conn_handle := None\<rparr>) s1"
  have "frontend_ws_callback E LWS_CALLBACK_ESTABLISHED x s = Inr (-1, ?s2)"
    using x new by (simp add: frontend_ws_callback_def ws_established_def)
  moreover have "served b ?s2 I" by (rule served_cong [OF s1(1)]) simp_all
  ultimately show ?thesis using s1(2-5) frame by auto
qed

lemma ws_closed:
  assumes "served b s I" "cb_user x = Some p" "psss s p = Some pss" "cb_vhd x = Some v" "vhds s v = Some vhd"
  shows "frontend_ws_callback E LWS_CALLBACK_CLOSED x s = Inr (0, emit (LwsRemove p) s) \<and>
    served b (emit (LwsRemove p) s) I"
  using assms served_log [OF assms(1)] by (simp add: frontend_ws_callback_def)

text \<open>Closing the raw socket closes the descriptor and frees nothing: the dictionary is empty.\<close>

lemma raw_close:
  assumes sv: "served b s I" and c: "conns s c = Some cn"
    and x: "cb_backend x = Some b" "cb_opaque x = Some c"
  shows "frontend_cli_callback E LWS_CALLBACK_RAW_CLOSE_FILE x s = Inr (0, emit (IoClose (fd_ds cn)) s) \<and>
    served b (emit (IoClose (fd_ds cn)) s) I"
proof -
  have sv': "served b (emit (IoClose (fd_ds cn)) s) I" by (rule served_log [OF sv])
  have c': "conns (emit (IoClose (fd_ds cn)) s) c = Some cn" using c by simp
  from conn_del_served [OF sv' c'] conn_close_live [OF c] x sv' show ?thesis
    by (simp add: frontend_cli_callback_def)
qed

lemma protocol_init:
  assumes "served b s I" "e_malloc E (tick s)"
  shows "\<exists>s'. frontend_ws_callback E LWS_CALLBACK_PROTOCOL_INIT x s = Inr (0, s') \<and> served b s' I \<and>
    vhds s' = (vhds s)(tick s \<mapsto> \<lparr>context_id = Some (cb_context x), vhost = Some (cb_vhost x),
                               protocol = Some (cb_protocol x)\<rparr>) \<and>
    psss s' = psss s \<and> conns s' = conns s \<and> log s' = log s \<and> tick s' = Suc (tick s)"
  using assms by (auto simp: frontend_ws_callback_def intro: served_cong [OF assms(1)])

end
