(* ===== verification/Bridge.thy ===== *)
theory Bridge
  imports Callbacks "HOL-Library.Sublist"
begin

text \<open>
  The running bridge: the program's state next to what libwebsockets keeps for it, and the events
  with which the library drives the callbacks. An event is \<open>enabled\<close> when the library may
  deliver it: it calls a callback for a websocket between \<open>ESTABLISHED\<close> and \<open>CLOSED\<close>, for a raw
  child between its adoption and \<open>RAW_CLOSE_FILE\<close>, closes the children of a websocket before the
  websocket, and calls back for writing only when asked to.
\<close>

section \<open>State\<close>

text \<open>
  \<open>open_ws\<close>: the session and virtual host objects of every established websocket; \<open>raws\<close>: the
  opaque user data and the parent of every adopted child; \<open>wants\<close>: who has asked for a writeable
  callback; \<open>doomed\<close>: the websockets the library closes because a callback returned non-zero.
  \<open>got\<close>, \<open>sent\<close> and \<open>answers\<close> are observations: the payloads that came in for a direction of a
  connection, the blocks that were handed to \<open>write(2)\<close> or \<open>lws_write\<close>, and what these returned,
  one result for each block. An empty message carries no payload.
\<close>

record bridge =
  core :: fheap
  open_ws :: "wsi \<rightharpoonup> addr \<times> addr"
  raws :: "wsi \<rightharpoonup> addr option \<times> wsi"
  wants :: "wsi option set"
  doomed :: "wsi set"
  got :: "addr \<times> dir \<Rightarrow> bytes list"
  sent :: "addr \<times> dir \<Rightarrow> bytes list"
  answers :: "addr \<times> dir \<Rightarrow> int list"

datatype event =
    Protocol_init string
  | Establish wsi addr addr
  | Receive wsi bytes
  | Ws_writeable wsi
  | Ws_close wsi
  | Raw_rx wsi
  | Raw_writeable wsi
  | Raw_close wsi

section \<open>What the library does when it is called\<close>

text \<open>A new child has no callback pending, whatever its number stood for before.\<close>

fun lws_apply :: "io \<Rightarrow> bridge \<Rightarrow> bridge" where
  "lws_apply (LwsWritable w) s = s\<lparr>wants := insert w (wants s)\<rparr>"
| "lws_apply (LwsAdopt fd ty nm w (Some r)) s = s\<lparr>raws := (raws s)(r \<mapsto> (None, w)), wants := wants s - {Some r}\<rparr>"
| "lws_apply (LwsOpaque (Some r) c) s =
     s\<lparr>raws := (raws s)(r := map_option (\<lambda>(_, w). (c, w)) (raws s r))\<rparr>"
| "lws_apply _ s = s"

text \<open>The calls a callback made, and the state after it with their effects.\<close>

definition calls :: "bridge \<Rightarrow> fheap \<Rightarrow> io list" where
  "calls s t = drop (length (log (core s))) (log t)"

definition settle :: "fheap \<Rightarrow> bridge \<Rightarrow> bridge" where
  "settle t s = fold lws_apply (calls s t) (s\<lparr>core := t\<rparr>)"

text \<open>
  The blocks handed to \<open>write(2)\<close> and the frames handed to \<open>lws_write\<close>, each with the result of the
  call, and the payloads read.
\<close>

definition written :: "io list \<Rightarrow> (bytes \<times> int) list" where
  "written es = List.map_filter (\<lambda>e. case e of IoWrite fd bs rc \<Rightarrow> Some (bs, rc) | _ \<Rightarrow> None) es"

definition framed :: "io list \<Rightarrow> (bytes \<times> int) list" where
  "framed es = List.map_filter (\<lambda>e. case e of LwsFrame w bs rc \<Rightarrow> Some (bs, rc) | _ \<Rightarrow> None) es"

definition readin :: "io list \<Rightarrow> bytes list" where
  "readin es = List.map_filter (\<lambda>e. case e of IoRead fd (Some (x # xs)) \<Rightarrow> Some (map Some (x # xs)) | _ \<Rightarrow> None) es"

definition note_got :: "addr \<times> dir \<Rightarrow> bytes list \<Rightarrow> bridge \<Rightarrow> bridge" where
  "note_got z xss s = s\<lparr>got := (got s)(z := got s z @ xss)\<rparr>"

definition note_sent :: "addr \<times> dir \<Rightarrow> (bytes \<times> int) list \<Rightarrow> bridge \<Rightarrow> bridge" where
  "note_sent z brs s = s\<lparr>sent := (sent s)(z := sent s z @ map fst brs),
                        answers := (answers s)(z := answers s z @ map snd brs)\<rparr>"

text \<open>What the daemon socket of a connection has taken of the blocks handed to it.\<close>

definition taken :: "bridge \<Rightarrow> addr \<Rightarrow> bytes" where
  "taken s c = concat (map2 (\<lambda>bs rc. take (nat rc) bs) (sent s (c, Local)) (answers s (c, Local)))"

section \<open>Events\<close>

definition ws_cb :: "backend_t \<Rightarrow> wsi \<Rightarrow> addr \<Rightarrow> addr \<Rightarrow> bytes option \<Rightarrow> cb" where
  "ws_cb b w p v inp = \<lparr>cb_wsi = w, cb_user = Some p, cb_in = inp,
     cb_len = (case inp of None \<Rightarrow> 0 | Some xs \<Rightarrow> of_nat (length xs)), cb_backend = Some b,
     cb_opaque = None, cb_parent = None, cb_vhd = Some v, cb_context = 0, cb_vhost = 0, cb_protocol = []\<rparr>"

definition raw_cb :: "backend_t \<Rightarrow> wsi \<Rightarrow> addr option \<Rightarrow> wsi \<Rightarrow> cb" where
  "raw_cb b r c w = \<lparr>cb_wsi = r, cb_user = None, cb_in = None, cb_len = 0, cb_backend = Some b,
     cb_opaque = c, cb_parent = Some w, cb_vhd = None, cb_context = 0, cb_vhost = 0, cb_protocol = ''CLI''\<rparr>"

definition init_cb :: "backend_t \<Rightarrow> string \<Rightarrow> cb" where
  "init_cb b nm = \<lparr>cb_wsi = 0, cb_user = None, cb_in = None, cb_len = 0, cb_backend = Some b,
     cb_opaque = None, cb_parent = None, cb_vhd = None, cb_context = 0, cb_vhost = 0, cb_protocol = nm\<rparr>"

definition pss_zero :: per_session_data where
  "pss_zero = \<lparr>lwsi = None, conn_handle = None\<rparr>"

definition free_pss :: "addr \<Rightarrow> fheap \<Rightarrow> fheap" where
  "free_pss p t = t\<lparr>psss := (psss t)(p := None)\<rparr>"

text \<open>The connection of a session, read where the callback reads it.\<close>

definition conn_of :: "bridge \<Rightarrow> addr \<Rightarrow> addr option" where
  "conn_of s p = (case psss (core s) p of None \<Rightarrow> None | Some x \<Rightarrow> conn_handle x)"

definition at_conn :: "addr option \<Rightarrow> (addr \<Rightarrow> bridge \<Rightarrow> bridge) \<Rightarrow> bridge \<Rightarrow> bridge" where
  "at_conn c f s = (case c of None \<Rightarrow> s | Some a \<Rightarrow> f a s)"

fun exec :: "env \<Rightarrow> backend_t \<Rightarrow> event \<Rightarrow> bridge \<Rightarrow> bridge res" where
  "exec E b (Protocol_init nm) s =
     andThen (frontend_ws_callback E LWS_CALLBACK_PROTOCOL_INIT (init_cb b nm) (core s)) (\<lambda>(rc, t).
       Inr (settle t s))"
| "exec E b (Establish w p v) s =
     andThen (frontend_ws_callback E LWS_CALLBACK_ESTABLISHED (ws_cb b w p v None)
         (set_pss p pss_zero (core s))) (\<lambda>(rc, t).
       if rc = 0
       then let s' = settle t (s\<lparr>wants := wants s - {Some w}\<rparr>) in
         Inr (s'\<lparr>open_ws := (open_ws s')(w \<mapsto> (p, v))\<rparr>)
       else andThen (frontend_ws_callback E LWS_CALLBACK_CLOSED (ws_cb b w p v None) t) (\<lambda>(rc, t).
         Inr (settle (free_pss p t) s)))"
| "exec E b (Receive w xs) s =
     (case open_ws s w of None \<Rightarrow> Inl DanglingDeref
      | Some (p, v) \<Rightarrow>
        andThen (frontend_ws_callback E LWS_CALLBACK_RECEIVE (ws_cb b w p v (Some xs)) (core s)) (\<lambda>(rc, t).
          Inr (at_conn (conn_of s p) (\<lambda>c. note_got (c, Local) (if xs = [] then [] else [xs])) (settle t s))))"
| "exec E b (Ws_writeable w) s =
     (case open_ws s w of None \<Rightarrow> Inl DanglingDeref
      | Some (p, v) \<Rightarrow>
        andThen (frontend_ws_callback E LWS_CALLBACK_SERVER_WRITEABLE (ws_cb b w p v None) (core s)) (\<lambda>(rc, t).
          let s' = settle t (s\<lparr>wants := wants s - {Some w},
                               doomed := (if rc = 0 then doomed s else insert w (doomed s))\<rparr>) in
          Inr (at_conn (conn_of s p) (\<lambda>c. note_sent (c, Web) (framed (calls s t))) s')))"
| "exec E b (Ws_close w) s =
     (case open_ws s w of None \<Rightarrow> Inl DanglingDeref
      | Some (p, v) \<Rightarrow>
        andThen (frontend_ws_callback E LWS_CALLBACK_CLOSED (ws_cb b w p v None) (core s)) (\<lambda>(rc, t).
          Inr ((settle (free_pss p t) s)\<lparr>open_ws := (open_ws s)(w := None), doomed := doomed s - {w}\<rparr>)))"
| "exec E b (Raw_rx r) s =
     (case raws s r of None \<Rightarrow> Inl DanglingDeref
      | Some (c, w) \<Rightarrow>
        andThen (frontend_cli_callback E LWS_CALLBACK_RAW_RX_FILE (raw_cb b r c w) (core s)) (\<lambda>(rc, t).
          Inr (at_conn c (\<lambda>c. note_got (c, Web) (readin (calls s t))) (settle t s))))"
| "exec E b (Raw_writeable r) s =
     (case raws s r of None \<Rightarrow> Inl DanglingDeref
      | Some (c, w) \<Rightarrow>
        andThen (frontend_cli_callback E LWS_CALLBACK_RAW_WRITEABLE_FILE (raw_cb b r c w) (core s)) (\<lambda>(rc, t).
          let s' = settle t (s\<lparr>wants := wants s - {Some r}\<rparr>) in
          Inr (at_conn c (\<lambda>c. note_sent (c, Local) (written (calls s t))) s')))"
| "exec E b (Raw_close r) s =
     (case raws s r of None \<Rightarrow> Inl DanglingDeref
      | Some (c, w) \<Rightarrow>
        andThen (frontend_cli_callback E LWS_CALLBACK_RAW_CLOSE_FILE (raw_cb b r c w) (core s)) (\<lambda>(rc, t).
          Inr ((settle t s)\<lparr>raws := (raws s)(r := None)\<rparr>)))"

text \<open>
  When the library may deliver an event, and, for \<open>Protocol_init\<close>, the callback has the memory
  that it takes for granted.
\<close>

fun enabled :: "env \<Rightarrow> bridge \<Rightarrow> event \<Rightarrow> bool" where
  "enabled E s (Protocol_init nm) \<longleftrightarrow> e_malloc E (tick (core s))"
| "enabled E s (Establish w p v) \<longleftrightarrow>
     open_ws s w = None \<and> raws s w = None \<and> psss (core s) p = None \<and> vhds (core s) v \<noteq> None"
| "enabled E s (Receive w xs) \<longleftrightarrow>
     open_ws s w \<noteq> None \<and> w \<notin> doomed s \<and> length xs < 2 ^ 64"
| "enabled E s (Ws_writeable w) \<longleftrightarrow> open_ws s w \<noteq> None \<and> w \<notin> doomed s \<and> Some w \<in> wants s"
| "enabled E s (Ws_close w) \<longleftrightarrow> open_ws s w \<noteq> None \<and> w \<notin> snd ` ran (raws s)"
| "enabled E s (Raw_rx r) \<longleftrightarrow> raws s r \<noteq> None"
| "enabled E s (Raw_writeable r) \<longleftrightarrow> raws s r \<noteq> None \<and> Some r \<in> wants s"
| "enabled E s (Raw_close r) \<longleftrightarrow> raws s r \<noteq> None"

text \<open>The library adopts a descriptor under a child that is not in use.\<close>

definition fresh_child :: "bridge \<Rightarrow> io \<Rightarrow> bool" where
  "fresh_child s e = (case e of
       LwsAdopt fd ty nm w (Some r) \<Rightarrow> raws s r = None \<and> open_ws s r = None \<and> r \<noteq> w
     | _ \<Rightarrow> True)"

inductive bstep :: "env \<Rightarrow> backend_t \<Rightarrow> bridge \<Rightarrow> event \<Rightarrow> bridge \<Rightarrow> bool" for E b where
  step: "\<lbrakk>enabled E s e; exec E b e s = Inr s'; list_all (fresh_child s) (calls s (core s'))\<rbrakk> \<Longrightarrow>
    bstep E b s e s'"

inductive reach :: "env \<Rightarrow> backend_t \<Rightarrow> bridge \<Rightarrow> bridge \<Rightarrow> bool" for E b s0 where
  start: "reach E b s0 s0"
| next_step: "\<lbrakk>reach E b s0 s; bstep E b s e s'\<rbrakk> \<Longrightarrow> reach E b s0 s'"

inductive_cases bstepE: "bstep E b s e s'"

end
