(* ===== verification/Bridge_Inv.thy ===== *)
theory Bridge_Inv
  imports Bridge
begin

text \<open>
  The invariant of the running bridge and its preservation by every event: the store is served,
  sessions and connections belong together, what has been sent is what came in, and whoever has
  something to send has asked for a writeable callback.
\<close>

section \<open>The library's side\<close>

lemma lws_apply_sel [simp]:
  "core (lws_apply e s) = core s" "open_ws (lws_apply e s) = open_ws s"
  "doomed (lws_apply e s) = doomed s" "got (lws_apply e s) = got s" "sent (lws_apply e s) = sent s"
  "answers (lws_apply e s) = answers s"
  by (induction e s rule: lws_apply.induct; simp)+

lemma fold_lws_sel [simp]:
  "core (fold lws_apply es s) = core s" "open_ws (fold lws_apply es s) = open_ws s"
  "doomed (fold lws_apply es s) = doomed s" "got (fold lws_apply es s) = got s"
  "sent (fold lws_apply es s) = sent s" "answers (fold lws_apply es s) = answers s"
  by (induction es arbitrary: s) simp_all

lemma settle_sel [simp]:
  "core (settle t s) = t" "open_ws (settle t s) = open_ws s" "doomed (settle t s) = doomed s"
  "got (settle t s) = got s" "sent (settle t s) = sent s"
  "answers (settle t s) = answers s"
  by (simp_all add: settle_def)

text \<open>Calls that neither adopt a child nor name its connection.\<close>

definition plain :: "io \<Rightarrow> bool" where
  "plain e \<longleftrightarrow> (case e of LwsAdopt _ _ _ _ _ \<Rightarrow> False | LwsOpaque _ _ \<Rightarrow> False | _ \<Rightarrow> True)"

lemma raws_fold: "list_all plain es \<Longrightarrow> raws (fold lws_apply es s) = raws s"
proof (induction es arbitrary: s)
  case (Cons e es)
  then have "raws (lws_apply e s) = raws s" by (cases e) (simp_all add: plain_def)
  with Cons show ?case by simp
qed simp

lemma wants_fold: "list_all plain es \<Longrightarrow> wants (fold lws_apply es s) = wants s \<union> {w. LwsWritable w \<in> set es}"
proof (induction es arbitrary: s)
  case (Cons e es)
  then have "wants (lws_apply e s) = wants s \<union> {w. e = LwsWritable w}" by (cases e) (auto simp: plain_def)
  with Cons show ?case by auto
qed simp

lemma calls_eq: "log t = log (core s) @ es \<Longrightarrow> calls s t = es"
  by (simp add: calls_def)

lemma raws_settle: "list_all plain (calls s t) \<Longrightarrow> raws (settle t s) = raws s"
  by (simp add: settle_def raws_fold)

lemma wants_settle:
  "list_all plain (calls s t) \<Longrightarrow> wants (settle t s) = wants s \<union> {w. LwsWritable w \<in> set (calls s t)}"
  by (simp add: settle_def wants_fold)

lemma note_sel [simp]:
  "core (note_got z xs s) = core s" "open_ws (note_got z xs s) = open_ws s" "raws (note_got z xs s) = raws s"
  "wants (note_got z xs s) = wants s" "sent (note_got z xs s) = sent s"
  "got (note_got z xs s) = (got s)(z := got s z @ xs)" "doomed (note_got z xs s) = doomed s"
  "answers (note_got z xs s) = answers s"
  "core (note_sent z brs s) = core s" "open_ws (note_sent z brs s) = open_ws s" "raws (note_sent z brs s) = raws s"
  "wants (note_sent z brs s) = wants s" "got (note_sent z brs s) = got s"
  "sent (note_sent z brs s) = (sent s)(z := sent s z @ map fst brs)" "doomed (note_sent z brs s) = doomed s"
  "answers (note_sent z brs s) = (answers s)(z := answers s z @ map snd brs)"
  by (simp_all add: note_got_def note_sent_def)

section \<open>The invariant\<close>

text \<open>How a payload is kept in a queue, and in what form it goes out.\<close>

definition blk :: "env \<Rightarrow> dir \<Rightarrow> bytes \<Rightarrow> bytes" where
  "blk E d xs = (case d of Web \<Rightarrow> web_block E xs | Local \<Rightarrow> xs)"

definition fr :: "env \<Rightarrow> dir \<Rightarrow> bytes \<Rightarrow> bytes" where
  "fr E d xs = (case d of Web \<Rightarrow> xs @ replicate (unat (e_lws_pre E)) None | Local \<Rightarrow> xs)"

text \<open>
  What came in for a direction is, in order, what has gone out followed by what is queued, up to
  payloads dropped for want of memory.
\<close>

definition conveyed ::
  "env \<Rightarrow> dir \<Rightarrow> bytes list \<Rightarrow> bytes list \<Rightarrow> bytes list \<Rightarrow> bool" where
  "conveyed E d out queue inp \<longleftrightarrow> (\<exists>ys zs. out = map (fr E d) ys \<and> queue = map (blk E d) zs \<and>
     [] \<notin> set zs \<and> subseq (ys @ zs) inp \<and> ((\<forall>n. e_malloc E n) \<longrightarrow> ys @ zs = inp))"

text \<open>Sessions have a connection of their own, and a websocket is never taken for its own child.\<close>

definition sessions :: "bridge \<Rightarrow> bool" where
  "sessions s \<longleftrightarrow>
     (\<forall>w p v. open_ws s w = Some (p, v) \<longrightarrow> v \<in> dom (vhds (core s)) \<and>
        (\<exists>x c. psss (core s) p = Some x \<and> conn_handle x = Some c \<and> c \<in> dom (conns (core s)) \<and> lwsi x \<noteq> Some w)) \<and>
     (\<forall>w w' p p' v v'. open_ws s w = Some (p, v) \<longrightarrow> open_ws s w' = Some (p', v') \<longrightarrow>
        conn_of s p = conn_of s p' \<longrightarrow> w = w')"

definition children :: "bridge \<Rightarrow> bool" where
  "children s \<longleftrightarrow> dom (raws s) \<inter> dom (open_ws s) = {} \<and>
     (\<forall>r oc w. raws s r = Some (oc, w) \<longrightarrow> (\<exists>p v x c. oc = Some c \<and> open_ws s w = Some (p, v) \<and>
        psss (core s) p = Some x \<and> conn_handle x = Some c \<and> lwsi x = Some r))"

definition vhosts :: "bridge \<Rightarrow> bool" where
  "vhosts s \<longleftrightarrow> (\<forall>v x. vhds (core s) v = Some x \<longrightarrow> protocol x \<noteq> None \<and> v < tick (core s))"

text \<open>The connection of a session leads to the daemon that its protocol is bridged to.\<close>

definition bound :: "backend_t \<Rightarrow> fheap \<Rightarrow> addr \<Rightarrow> addr \<Rightarrow> bool" where
  "bound b t v c \<longleftrightarrow> (\<exists>l x nm cn i path. socklist b = Some l \<and> vhds t v = Some x \<and>
     protocol x = Some nm \<and> conns t c = Some cn \<and> sock_handle cn = Some i \<and>
     slot_path l i = Some path \<and> bridged l nm = Some path)"

definition routed :: "backend_t \<Rightarrow> bridge \<Rightarrow> bool" where
  "routed b s \<longleftrightarrow>
     (\<forall>w p v c. open_ws s w = Some (p, v) \<longrightarrow> conn_of s p = Some c \<longrightarrow> bound b (core s) v c)"

definition awake :: "bridge \<Rightarrow> (addr \<times> dir \<Rightarrow> bytes list) \<Rightarrow> bool" where
  "awake s I \<longleftrightarrow>
     (\<forall>w p v c. open_ws s w = Some (p, v) \<longrightarrow> conn_of s p = Some c \<longrightarrow> I (c, Web) \<noteq> [] \<longrightarrow> Some w \<in> wants s) \<and>
     (\<forall>r c w. raws s r = Some (Some c, w) \<longrightarrow> I (c, Local) \<noteq> [] \<longrightarrow> Some r \<in> wants s)"

definition binv :: "env \<Rightarrow> backend_t \<Rightarrow> bridge \<Rightarrow> (addr \<times> dir \<Rightarrow> bytes list) \<Rightarrow> bool" where
  "binv E b s I \<longleftrightarrow> served b (core s) I \<and> (\<forall>c d. conveyed E d (sent s (c, d)) (I (c, d)) (got s (c, d))) \<and>
     sessions s \<and> children s \<and> vhosts s \<and> awake s I \<and> routed b s"

lemma sessionsD:
  assumes "sessions s" "open_ws s w = Some (p, v)"
  obtains x c cn where "psss (core s) p = Some x" "conn_handle x = Some c" "conn_of s p = Some c"
    "conns (core s) c = Some cn" "v \<in> dom (vhds (core s))"
proof -
  from assms have "v \<in> dom (vhds (core s)) \<and>
      (\<exists>x c. psss (core s) p = Some x \<and> conn_handle x = Some c \<and> c \<in> dom (conns (core s)) \<and> lwsi x \<noteq> Some w)"
    unfolding sessions_def by blast
  with that show ?thesis by (auto simp: conn_of_def)
qed

lemma sessions_inj:
  "sessions s \<Longrightarrow> open_ws s w = Some (p, v) \<Longrightarrow> open_ws s w' = Some (p', v') \<Longrightarrow>
   conn_of s p = conn_of s p' \<Longrightarrow> w = w'"
  unfolding sessions_def by blast

lemma sessions_ex:
  assumes "sessions s" "open_ws s w = Some (p, v)"
  shows "v \<in> dom (vhds (core s))"
    "\<exists>x c. psss (core s) p = Some x \<and> conn_handle x = Some c \<and> c \<in> dom (conns (core s)) \<and> lwsi x \<noteq> Some w"
  using assms unfolding sessions_def by blast+

lemma sessionsI:
  assumes "\<And>w p v. open_ws s w = Some (p, v) \<Longrightarrow> v \<in> dom (vhds (core s))"
    "\<And>w p v. open_ws s w = Some (p, v) \<Longrightarrow>
      \<exists>x c. psss (core s) p = Some x \<and> conn_handle x = Some c \<and> c \<in> dom (conns (core s)) \<and> lwsi x \<noteq> Some w"
    "\<And>w w' p p' v v'. open_ws s w = Some (p, v) \<Longrightarrow> open_ws s w' = Some (p', v') \<Longrightarrow>
      conn_of s p = conn_of s p' \<Longrightarrow> w = w'"
  shows "sessions s"
  unfolding sessions_def
proof (intro conjI allI impI)
  fix w w' p p' v v' assume "open_ws s w = Some (p, v)" "open_ws s w' = Some (p', v')"
    "conn_of s p = conn_of s p'"
  then show "w = w'" by (rule assms(3))
qed (use assms(1,2) in auto)

lemma childrenD:
  assumes "children s" "raws s r = Some (oc, w)"
  obtains p v x c where "oc = Some c" "open_ws s w = Some (p, v)" "psss (core s) p = Some x"
    "conn_handle x = Some c" "lwsi x = Some r" "conn_of s p = Some c"
proof -
  from assms have "\<exists>p v x c. oc = Some c \<and> open_ws s w = Some (p, v) \<and>
        psss (core s) p = Some x \<and> conn_handle x = Some c \<and> lwsi x = Some r"
    unfolding children_def by blast
  with that show ?thesis by (auto simp: conn_of_def)
qed

lemma children_apart: "children s \<Longrightarrow> raws s r = Some y \<Longrightarrow> open_ws s r = None"
  unfolding children_def by (cases "open_ws s r") auto

section \<open>Conveying\<close>

lemma conveyed_put:
  assumes "conveyed E d out queue inp" "xs \<noteq> []" "\<And>n. (\<forall>n. e_malloc E n) \<Longrightarrow> ok"
  shows "conveyed E d out (if ok then queue @ [blk E d xs] else queue) (inp @ [xs])"
proof -
  from assms(1) obtain ys zs where c: "out = map (fr E d) ys" "queue = map (blk E d) zs" "[] \<notin> set zs"
    "subseq (ys @ zs) inp" "(\<forall>n. e_malloc E n) \<longrightarrow> ys @ zs = inp" by (auto simp: conveyed_def)
  show ?thesis
  proof (cases ok)
    case True
    have "subseq (ys @ zs @ [xs]) (inp @ [xs])" using list_emb_append_mono [OF c(4), of "[xs]" "[xs]"] by simp
    with True c assms(2) show ?thesis
      unfolding conveyed_def by (intro exI [of _ ys] exI [of _ "zs @ [xs]"]) auto
  next
    case False
    with assms(3) have "\<not> (\<forall>n. e_malloc E n)" by blast
    moreover have "subseq (ys @ zs) (inp @ [xs])" using c(4) by (rule subseq_rev_drop_many)
    ultimately show ?thesis using False c unfolding conveyed_def by (intro exI [of _ ys] exI [of _ zs]) auto
  qed
qed

text \<open>What is handed to the outside for a queued block.\<close>

definition outp :: "env \<Rightarrow> dir \<Rightarrow> bytes \<Rightarrow> bytes" where
  "outp E d bs = (case d of Web \<Rightarrow> web_frame E bs | Local \<Rightarrow> bs)"

lemma outp_blk [simp]: "outp E d (blk E d xs) = fr E d xs"
  by (cases d) (simp_all add: outp_def blk_def fr_def web_frame_block)

lemma conveyed_take:
  assumes "conveyed E d out (bs @ rest) inp"
  shows "conveyed E d (out @ map (outp E d) bs) rest inp"
proof -
  from assms obtain ys zs where c: "out = map (fr E d) ys" "bs @ rest = map (blk E d) zs" "[] \<notin> set zs"
    "subseq (ys @ zs) inp" "(\<forall>n. e_malloc E n) \<longrightarrow> ys @ zs = inp" by (auto simp: conveyed_def)
  from c(2) obtain us vs where uv: "zs = us @ vs" "bs = map (blk E d) us" "rest = map (blk E d) vs"
    by (auto simp: append_eq_map_conv)
  then have "out @ map (outp E d) bs = map (fr E d) (ys @ us)" using c(1) by simp
  with c uv show ?thesis
    unfolding conveyed_def by (intro exI [of _ "ys @ us"] exI [of _ vs]) auto
qed

lemma conveyed_nonempty: "conveyed E Local out queue inp \<Longrightarrow> [] \<notin> set queue"
  by (auto simp: conveyed_def blk_def)

section \<open>Preservation\<close>

lemma sessions_cong:
  assumes "sessions s" "open_ws s' = open_ws s" "psss (core s') = psss (core s)"
    "vhds (core s') = vhds (core s)" "dom (conns (core s)) \<subseteq> dom (conns (core s'))"
  shows "sessions s'"
proof (rule sessionsI)
  fix w p v assume w: "open_ws s' w = Some (p, v)"
  with assms(2) have w': "open_ws s w = Some (p, v)" by simp
  from sessions_ex [OF assms(1) w'] assms(5) show "\<exists>x c. psss (core s') p = Some x \<and>
      conn_handle x = Some c \<and> c \<in> dom (conns (core s')) \<and> lwsi x \<noteq> Some w" "v \<in> dom (vhds (core s'))"
    unfolding assms(3,4) by blast+
next
  fix w w' p p' v v' assume "open_ws s' w = Some (p, v)" "open_ws s' w' = Some (p', v')"
    "conn_of s' p = conn_of s' p'"
  with sessions_inj [OF assms(1)] show "w = w'" by (simp add: assms(2,3) conn_of_def)
qed

lemma children_cong:
  assumes "children s" "open_ws s' = open_ws s" "psss (core s') = psss (core s)" "raws s' = raws s"
  shows "children s'"
  using assms unfolding children_def by simp

lemma bound_mono:
  assumes "bound b t v c" "vhds t' v = vhds t v"
    "map_option sock_handle (conns t' c) = map_option sock_handle (conns t c)"
  shows "bound b t' v c"
  using assms by (fastforce simp: bound_def)

lemma routed_cong:
  assumes "routed b s"
    and "\<And>w p v. open_ws s' w = Some (p, v) \<Longrightarrow> open_ws s w = Some (p, v) \<and> conn_of s' p = conn_of s p \<and>
      vhds (core s') v = vhds (core s) v"
    and "\<And>c. map_option sock_handle (conns (core s') c) = map_option sock_handle (conns (core s) c)"
  shows "routed b s'"
  unfolding routed_def
proof (intro allI impI)
  fix w p v c assume w: "open_ws s' w = Some (p, v)" and c: "conn_of s' p = Some c"
  with assms(2) [OF w] assms(1) have "bound b (core s) v c" unfolding routed_def by metis
  then show "bound b (core s') v c" using assms(2) [OF w] assms(3) bound_mono by blast
qed

lemma vhosts_cong: "vhosts s \<Longrightarrow> vhds (core s') = vhds (core s) \<Longrightarrow> tick (core s) \<le> tick (core s') \<Longrightarrow> vhosts s'"
  unfolding vhosts_def by (metis order_less_le_trans)

lemma kept_sessions:
  assumes "kept (core s) t"
  shows "psss t = psss (core s)" "vhds t = vhds (core s)" "dom (conns t) = dom (conns (core s))"
proof -
  from assms have "dheap.more t = dheap.more (core s)" by (simp add: kept_def)
  from dheap_more_fields [OF this] show "psss t = psss (core s)" "vhds t = vhds (core s)" by simp_all
  show "dom (conns t) = dom (conns (core s))" by (rule kept_dom [OF assms])
qed

text \<open>The child whose connection is that of a session is the child of that session.\<close>

lemma child_session:
  assumes ch: "children s" and ss: "sessions s" and r: "raws s r = Some (Some c, w1)"
    and w: "open_ws s w = Some (p, v)" and c: "conn_of s p = Some c" "psss (core s) p = Some x"
  shows "w1 = w \<and> lwsi x = Some r"
proof -
  from childrenD [OF ch r] obtain p1 v1 x1 where
    y: "open_ws s w1 = Some (p1, v1)" "psss (core s) p1 = Some x1" "lwsi x1 = Some r" "conn_of s p1 = Some c"
    by (metis option.inject)
  from sessions_inj [OF ss y(1) w] y(4) c(1) have "w1 = w" by simp
  with y w c(2) show ?thesis by simp
qed

text \<open>
  The common part of the events on established sessions: the sessions and children stay, the
  contents of one queue change together with what is observed of it.
\<close>

lemma binv_update:
  assumes inv: "binv E b s I" and k: "kept (core s) (core s')" and sv: "served b (core s') I'"
    and same: "open_ws s' = open_ws s" "raws s' = raws s"
    and conv: "\<And>c d. conveyed E d (sent s' (c, d)) (I' (c, d)) (got s' (c, d))"
    and aw: "awake s' I'"
  shows "binv E b s' I'"
proof -
  note ks = kept_sessions [OF k]
  have "vhosts s'" using inv ks(2) k vhosts_cong [of s s'] by (simp add: binv_def kept_def)
  moreover have "routed b s'" using inv same(1) ks(1,2) k routed_cong [of b s s']
    by (simp add: binv_def conn_of_def kept_def)
  moreover have "sessions s'" using inv sessions_cong [OF _ same(1) ks(1,2)] ks(3) by (simp add: binv_def)
  moreover have "children s'" using inv children_cong [OF _ same(1) ks(1) same(2)] by (simp add: binv_def)
  ultimately show ?thesis using sv conv aw by (simp add: binv_def)
qed

lemma binvD:
  assumes "binv E b s I"
  shows "served b (core s) I" "conveyed E d (sent s (c, d)) (I (c, d)) (got s (c, d))"
    "sessions s" "children s" "vhosts s" "awake s I" "routed b s"
  using assms by (simp_all add: binv_def)

lemma awake_web:
  "awake s I \<Longrightarrow> open_ws s w = Some (p, v) \<Longrightarrow> conn_of s p = Some c \<Longrightarrow> I (c, Web) \<noteq> [] \<Longrightarrow> Some w \<in> wants s"
  unfolding awake_def by blast

lemma awake_local:
  "awake s I \<Longrightarrow> raws s r = Some (Some c, w) \<Longrightarrow> I (c, Local) \<noteq> [] \<Longrightarrow> Some r \<in> wants s"
  unfolding awake_def by blast

lemma awakeI:
  assumes "\<And>w p v c. open_ws s w = Some (p, v) \<Longrightarrow> conn_of s p = Some c \<Longrightarrow> I (c, Web) \<noteq> [] \<Longrightarrow> Some w \<in> wants s"
    "\<And>r c w. raws s r = Some (Some c, w) \<Longrightarrow> I (c, Local) \<noteq> [] \<Longrightarrow> Some r \<in> wants s"
  shows "awake s I"
  using assms unfolding awake_def by blast

lemma ws_cb_sel [simp]:
  "cb_user (ws_cb b w p v i) = Some p" "cb_in (ws_cb b w p v i) = i" "cb_backend (ws_cb b w p v i) = Some b"
  "cb_vhd (ws_cb b w p v i) = Some v" "cb_wsi (ws_cb b w p v i) = w"
  "cb_len (ws_cb b w p v (Some xs)) = of_nat (length xs)"
  by (simp_all add: ws_cb_def)

lemma raw_cb_sel [simp]:
  "cb_backend (raw_cb b r c w) = Some b" "cb_opaque (raw_cb b r c w) = c" "cb_parent (raw_cb b r c w) = Some w"
  by (simp_all add: raw_cb_def)

lemma exec_receive:
  assumes inv: "binv E b s I" and en: "enabled E s (Receive w xs)"
  shows "\<exists>s' I'. exec E b (Receive w xs) s = Inr s' \<and> binv E b s' I' \<and>
    (\<forall>p v x. open_ws s w = Some (p, v) \<longrightarrow> psss (core s) p = Some x \<longrightarrow>
      lwsi x \<in> wants s' \<and> calls s (core s') = [LwsWritable (lwsi x)]) \<and> raws s' = raws s \<and>
    dom (conns (core s)) \<subseteq> dom (conns (core s'))"
proof -
  from en obtain p v where w: "open_ws s w = Some (p, v)" and xs: "length xs < 2 ^ 64" by auto
  note sv = binvD(1) [OF inv]
  from sessionsD [OF binvD(3) [OF inv] w] obtain x c cn where
    x: "psss (core s) p = Some x" "conn_handle x = Some c" "conn_of s p = Some c" "conns (core s) c = Some cn" .
  let ?ok = "room E (tick (core s)) \<and> xs \<noteq> []" and ?x = "ws_cb b w p v (Some xs)"
  let ?I = "enq ?ok (c, Local) xs I"
  have len: "unat (of_nat (length xs) :: size_t) = length xs" using xs by (simp add: unat_of_nat)
  obtain t where
    t: "frontend_ws_callback E LWS_CALLBACK_RECEIVE ?x (core s) = Inr (0, t)"
      "served b t ?I" "kept (core s) t" "log t = log (core s) @ [LwsWritable (lwsi x)]"
  proof (cases "xs = []")
    case True
    with that [of "emit (LwsWritable (lwsi x)) (core s)"] ws_receive_empty [of ?x p "core s" x E] x(1)
      served_log [OF sv] kept_emit [of "core s" "core s"]
    show ?thesis by (simp add: enq_def kept_def)
  next
    case False
    with len have "(of_nat (length xs) :: size_t) \<noteq> 0" by auto
    with ws_receive [OF sv x(4), of ?x p x xs E] x that False show ?thesis by (auto simp: len)
  qed
  let ?s' = "note_got (c, Local) (if xs = [] then [] else [xs]) (settle t s)"
  note cs = calls_eq [OF t(4)]
  have plain: "list_all plain (calls s t)" by (simp add: cs plain_def)
  note wants = wants_settle [OF plain]
  have raws: "raws ?s' = raws s" using raws_settle [OF plain] by simp
  have ex: "exec E b (Receive w xs) s = Inr ?s'" using w t(1) x(3) by (simp add: at_conn_def)
  have co: "conn_of ?s' q = conn_of s q" for q using kept_sessions(1) [OF t(3)] by (simp add: conn_of_def)
  have "binv E b ?s' ?I"
  proof (rule binv_update [OF inv])
    fix c' d show "conveyed E d (sent ?s' (c', d)) (?I (c', d)) (got ?s' (c', d))"
    proof (cases "(c', d) = (c, Local) \<and> xs \<noteq> []")
      case True
      with conveyed_put [OF binvD(2) [OF inv, of Local c], of xs "room E (tick (core s))"] show ?thesis
        by (auto simp: enq_def blk_def room_def)
    next
      case False
      with binvD(2) [OF inv, of d c'] show ?thesis by (auto simp: enq_def)
    qed
  next
    show "awake ?s' ?I"
    proof (rule awakeI)
      fix w1 p1 v1 c1 assume "open_ws ?s' w1 = Some (p1, v1)" "conn_of ?s' p1 = Some c1" "?I (c1, Web) \<noteq> []"
      with awake_web [OF binvD(6) [OF inv], of w1] show "Some w1 \<in> wants ?s'"
        by (auto simp: co wants enq_def split: if_split_asm)
    next
      fix r c1 w1 assume r: "raws ?s' r = Some (Some c1, w1)" and ne: "?I (c1, Local) \<noteq> []"
      from r raws have r': "raws s r = Some (Some c1, w1)" by simp
      show "Some r \<in> wants ?s'"
      proof (cases "c1 = c")
        case True
        with child_session [OF binvD(4,3) [OF inv] r' w] x(1,3) show ?thesis
          by (simp add: wants cs)
      next
        case False
        with ne awake_local [OF binvD(6) [OF inv] r'] show ?thesis
          by (auto simp: wants enq_def split: if_split_asm)
      qed
    qed
  qed (use t raws in simp_all)
  moreover have "dom (conns (core s)) \<subseteq> dom (conns (core ?s'))" using kept_sessions(3) [OF t(3)] by simp
  moreover have "lwsi x \<in> wants ?s'" "calls s (core ?s') = [LwsWritable (lwsi x)]" by (simp_all add: wants cs)
  ultimately show ?thesis using ex raws w x(1) by auto
qed

lemma framed_frames [simp]: "framed (frames_log E w bms) = map (\<lambda>bm. (web_frame E (fst bm), snd bm)) bms"
proof (induction bms)
  case (Cons bm bms)
  then show ?case by (auto simp: frames_log_def frame_log_def framed_def map_filter_simps)
qed (simp add: framed_def map_filter_simps)

lemma framed_append: "framed (xs @ ys) = framed xs @ framed ys"
  by (induction xs) (auto simp: framed_def map_filter_simps split: option.splits)

lemma framed_writable [simp]: "framed [LwsWritable w] = []" "framed [] = []"
  by (simp_all add: framed_def map_filter_simps)

lemma plain_frames: "list_all plain (frames_log E w bms)"
  by (auto simp: frames_log_def frame_log_def plain_def list_all_iff)

lemma exec_ws_writeable:
  assumes inv: "binv E b s I" and w: "open_ws s w = Some (p, v)"
  shows "\<exists>s' c rest. exec E b (Ws_writeable w) s = Inr s' \<and> conn_of s p = Some c \<and>
    binv E b s' (I((c, Web) := rest)) \<and> got s' = got s \<and>
    (rest \<noteq> [] \<longrightarrow> (\<exists>n. e_partial E n \<or> e_choked E n)) \<and>
    (\<exists>bms. I (c, Web) = map fst bms @ rest \<and> (bms = [] \<longleftrightarrow> I (c, Web) = [] \<or> congested E (tick (core s))) \<and>
      calls s (core s') = frames_log E w bms @ (if rest = [] then [] else [LwsWritable (Some w)])) \<and>
    dom (conns (core s)) \<subseteq> dom (conns (core s'))"
proof -
  note sv = binvD(1) [OF inv]
  from sessionsD [OF binvD(3) [OF inv] w] obtain x c cn where
    x: "psss (core s) p = Some x" "conn_handle x = Some c" "conn_of s p = Some c" "conns (core s) c = Some cn" .
  let ?x = "ws_cb b w p v None"
  from server_writeable [OF sv x(4), of ?x p x E, unfolded ws_cb_sel, OF refl x(1,2)] obtain t bms rest where
    t: "frontend_ws_callback E LWS_CALLBACK_SERVER_WRITEABLE ?x (core s) = Inr (frames_rc bms, t)"
      "I (c, Web) = map fst bms @ rest" "served b t (I((c, Web) := rest))" "kept (core s) t"
      "log t = log (core s) @ frames_log E w bms @ (if rest = [] then [] else [LwsWritable (Some w)])"
    "rest \<noteq> [] \<longrightarrow> (\<exists>n. e_partial E n \<or> e_choked E n)"
    "bms = [] \<longleftrightarrow> I (c, Web) = [] \<or> congested E (tick (core s))" by blast
  let ?I = "I((c, Web) := rest)"
  let ?d = "if frames_rc bms = 0 then doomed s else insert w (doomed s)"
  let ?s0 = "s\<lparr>wants := wants s - {Some w}, doomed := ?d\<rparr>"
  let ?s' = "note_sent (c, Web) (framed (calls s t)) (settle t ?s0)"
  have "log t = log (core ?s0) @ frames_log E w bms @ (if rest = [] then [] else [LwsWritable (Some w)])"
    using t(5) by simp
  note cs = calls_eq [OF this] calls_eq [OF t(5)]
  have plain: "list_all plain (calls ?s0 t)" unfolding cs by (auto simp: plain_frames plain_def)
  from raws_settle [OF this] have raws: "raws ?s' = raws s" by simp
  have ex: "exec E b (Ws_writeable w) s = Inr ?s'" using w t(1) x(3) by (simp add: at_conn_def)
  have co: "conn_of ?s' q = conn_of s q" for q using kept_sessions(1) [OF t(4)] by (simp add: conn_of_def)
  have fr: "map fst (framed (calls s t)) = map (outp E Web) (map fst bms)"
    unfolding cs by (simp add: framed_append outp_def comp_def)
  have wants: "wants s - {Some w} \<subseteq> wants ?s'" "rest \<noteq> [] \<Longrightarrow> Some w \<in> wants ?s'"
    by (auto simp: wants_settle [OF plain] cs)
  have "binv E b ?s' ?I"
  proof (rule binv_update [OF inv])
    fix c' d show "conveyed E d (sent ?s' (c', d)) (?I (c', d)) (got ?s' (c', d))"
      using binvD(2) [OF inv, of d c'] conveyed_take [OF binvD(2) [OF inv, of Web c, unfolded t(2)]] fr
      by (cases "(c', d) = (c, Web)") auto
  next
    show "awake ?s' ?I"
    proof (rule awakeI)
      fix w1 p1 v1 c1 assume 1: "open_ws ?s' w1 = Some (p1, v1)" "conn_of ?s' p1 = Some c1" "?I (c1, Web) \<noteq> []"
      show "Some w1 \<in> wants ?s'"
      proof (cases "w1 = w")
        case True
        with 1 w x(3) wants(2) show ?thesis by (simp add: co)
      next
        case False
        with 1 sessions_inj [OF binvD(3) [OF inv] _ w, of w1 p1 v1] x(3) have "c1 \<noteq> c" by (auto simp: co)
        with 1 False awake_web [OF binvD(6) [OF inv], of w1 p1 v1 c1] wants(1) show ?thesis by (auto simp: co)
      qed
    next
      fix r c1 w1 assume "raws ?s' r = Some (Some c1, w1)" "?I (c1, Local) \<noteq> []"
      then have r: "raws s r = Some (Some c1, w1)" "I (c1, Local) \<noteq> []" using raws by simp_all
      from children_apart [OF binvD(4) [OF inv] r(1)] w have "r \<noteq> w" by auto
      with awake_local [OF binvD(6) [OF inv] r] wants(1) show "Some r \<in> wants ?s'" by blast
    qed
  qed (use t raws in simp_all)
  moreover have "dom (conns (core s)) \<subseteq> dom (conns (core ?s'))" using kept_sessions(3) [OF t(4)] by simp
  moreover have "got ?s' = got s" by simp
  moreover have "calls s (core ?s') = frames_log E w bms @ (if rest = [] then [] else [LwsWritable (Some w)])"
    using cs by simp
  ultimately show ?thesis using ex x(3) t(2,6,7) by blast
qed

lemma writes_written: "writes fd bs es \<Longrightarrow> map fst (written es) = bs \<and> list_all plain es \<and> (\<forall>w. LwsWritable w \<notin> set es)"
proof (unfold writes_def, induction bs es rule: list_all2_induct)
  case (Cons b bs e es)
  then show ?case by (auto simp: written_def map_filter_simps plain_def)
qed (simp add: written_def map_filter_simps)

lemma exec_raw_writeable:
  assumes inv: "binv E b s I" and r: "raws s r = Some (oc, w)"
  shows "\<exists>s' c. exec E b (Raw_writeable r) s = Inr s' \<and> oc = Some c \<and>
    binv E b s' (I((c, Local) := [])) \<and> got s' = got s \<and>
    (\<exists>fd. writes fd (I (c, Local)) (calls s (core s'))) \<and>
    dom (conns (core s)) \<subseteq> dom (conns (core s'))"
proof -
  note sv = binvD(1) [OF inv]
  from childrenD [OF binvD(4) [OF inv] r] obtain c p v x where
    c: "oc = Some c" and w: "open_ws s w = Some (p, v)" and x: "psss (core s) p = Some x"
      "lwsi x = Some r" "conn_of s p = Some c" by metis
  from sessionsD [OF binvD(3) [OF inv] w] x(3) obtain cn where cn: "conns (core s) c = Some cn"
    by (metis option.inject)
  let ?x = "raw_cb b r oc w"
  from raw_writeable [OF sv cn conveyed_nonempty [OF binvD(2) [OF inv]], of ?x E] c obtain t es where
    t: "frontend_cli_callback E LWS_CALLBACK_RAW_WRITEABLE_FILE ?x (core s) = Inr (0, t)"
      "served b t (I((c, Local) := []))" "kept (core s) t" "log t = log (core s) @ es"
      "writes (fd_ds cn) (I (c, Local)) es" by auto
  note wr = writes_written [OF t(5)]
  let ?I = "I((c, Local) := [])" and ?s0 = "s\<lparr>wants := wants s - {Some r}\<rparr>"
  let ?s' = "note_sent (c, Local) (written (calls s t)) (settle t ?s0)"
  have "log t = log (core ?s0) @ es" using t(4) by simp
  note cs = calls_eq [OF this] calls_eq [OF t(4)]
  have plain: "list_all plain (calls ?s0 t)" using wr unfolding cs by simp
  from raws_settle [OF this] have raws: "raws ?s' = raws s" by simp
  have ex: "exec E b (Raw_writeable r) s = Inr ?s'" using r t(1) c by (simp add: at_conn_def)
  have co: "conn_of ?s' q = conn_of s q" for q using kept_sessions(1) [OF t(3)] by (simp add: conn_of_def)
  have wants: "wants ?s' = wants s - {Some r}" using wr by (auto simp: wants_settle [OF plain] cs)
  have outs: "map (outp E Local) bs = bs" for bs by (induction bs) (simp_all add: outp_def)
  have all: "conveyed E Local (sent s (c, Local) @ I (c, Local)) [] (got s (c, Local))"
    using conveyed_take [of E Local _ "I (c, Local)" "[]"] binvD(2) [OF inv, of Local c]
    by (simp add: outs)
  have "binv E b ?s' ?I"
  proof (rule binv_update [OF inv])
    fix c' d show "conveyed E d (sent ?s' (c', d)) (?I (c', d)) (got ?s' (c', d))"
      using binvD(2) [OF inv, of d c'] all wr
      by (cases "(c', d) = (c, Local)") (auto simp: cs)
  next
    show "awake ?s' ?I"
    proof (rule awakeI)
      fix w1 p1 v1 c1 assume 1: "open_ws ?s' w1 = Some (p1, v1)" "conn_of ?s' p1 = Some c1" "?I (c1, Web) \<noteq> []"
      then have "w1 \<noteq> r" using children_apart [OF binvD(4) [OF inv] r] by auto
      with 1 awake_web [OF binvD(6) [OF inv], of w1 p1 v1 c1] show "Some w1 \<in> wants ?s'"
        unfolding wants by (auto simp: co)
    next
      fix r1 c1 w1 assume "raws ?s' r1 = Some (Some c1, w1)" "?I (c1, Local) \<noteq> []"
      then have r1: "raws s r1 = Some (Some c1, w1)" "I (c1, Local) \<noteq> []" "c1 \<noteq> c"
        using raws by (auto split: if_split_asm)
      then have "r1 \<noteq> r" using r c by auto
      with awake_local [OF binvD(6) [OF inv] r1(1,2)] show "Some r1 \<in> wants ?s'" unfolding wants by simp
    qed
  qed (use t raws in simp_all)
  moreover have "dom (conns (core s)) \<subseteq> dom (conns (core ?s'))" using kept_sessions(3) [OF t(3)] by simp
  moreover have "got ?s' = got s" by simp
  moreover have "writes (fd_ds cn) (I (c, Local)) (calls s (core ?s'))" using t(5) cs by simp
  ultimately show ?thesis using ex c by blast
qed

lemma exec_raw_rx:
  assumes inv: "binv E b s I" and en: "enabled E s (Raw_rx r)"
    and fits: "unat (bufsize b) + unat (e_lws_pre E) < 2 ^ 64"
  shows "\<exists>s' I'. exec E b (Raw_rx r) s = Inr s' \<and> binv E b s' I' \<and>
    (\<exists>w fd rd. map_option snd (raws s r) = Some w \<and>
      calls s (core s') \<in> {[IoRead fd rd], [IoRead fd rd, LwsWritable (Some w)]}) \<and>
    dom (conns (core s)) \<subseteq> dom (conns (core s'))"
proof -
  from en obtain oc w where r: "raws s r = Some (oc, w)" by auto
  note sv = binvD(1) [OF inv]
  from childrenD [OF binvD(4) [OF inv] r] obtain c p v x where
    c: "oc = Some c" and w: "open_ws s w = Some (p, v)" and x: "psss (core s) p = Some x"
      "lwsi x = Some r" "conn_of s p = Some c" by metis
  from sessionsD [OF binvD(3) [OF inv] w] x(3) obtain cn where cn: "conns (core s) c = Some cn"
    by (metis option.inject)
  let ?x = "raw_cb b r oc w" and ?rd = "read_at E b (tick (core s))"
  from raw_rx [OF sv cn, of ?x E, unfolded raw_cb_sel, OF refl c fits] obtain t where
    t: "frontend_cli_callback E LWS_CALLBACK_RAW_RX_FILE ?x (core s) = Inr (0, t)" "kept (core s) t"
    and cases: "case ?rd of
       Some (y # ys) \<Rightarrow>
         served b t (enq (room E (Suc (tick (core s)))) (c, Web) (web_block E (map Some (y # ys))) I) \<and>
         log t = log (core s) @ [IoRead (fd_ds cn) (Some (y # ys)), LwsWritable (Some w)]
     | rd \<Rightarrow> served b t I \<and> log t = log (core s) @ [IoRead (fd_ds cn) rd]" by blast
  let ?s' = "note_got (c, Web) (readin (calls s t)) (settle t s)"
  have ex: "exec E b (Raw_rx r) s = Inr ?s'" using r t(1) c by (simp add: at_conn_def)
  have co: "conn_of ?s' q = conn_of s q" for q using kept_sessions(1) [OF t(2)] by (simp add: conn_of_def)
  show ?thesis
  proof (cases "?rd = None \<or> ?rd = Some []")
    case True
    with cases have sv': "served b t I" and log: "log t = log (core s) @ [IoRead (fd_ds cn) ?rd]" by auto
    note cs = calls_eq [OF log]
    have raws: "raws ?s' = raws s" using raws_settle [of s t] by (simp add: cs plain_def)
    have rd: "readin (calls s t) = []" using True by (auto simp: cs readin_def map_filter_simps)
    have wants: "wants ?s' = wants s" using wants_settle [of s t] by (simp add: cs plain_def)
    have "binv E b ?s' I"
    proof (rule binv_update [OF inv])
      show "conveyed E d (sent ?s' (c', d)) (I (c', d)) (got ?s' (c', d))" for c' d
        using binvD(2) [OF inv, of d c'] rd by simp
      show "awake ?s' I" using binvD(6) [OF inv] unfolding awake_def wants raws co by simp
    qed (use t sv' raws in simp_all)
    moreover have "dom (conns (core s)) \<subseteq> dom (conns (core ?s'))" using kept_sessions(3) [OF t(2)] by simp
    moreover have "map_option snd (raws s r) = Some w" "calls s (core ?s') = [IoRead (fd_ds cn) ?rd]"
      using r cs by simp_all
    ultimately show ?thesis using ex by blast
  next
    case False
    then obtain y ys where rd: "?rd = Some (y # ys)" by (cases ?rd) (auto simp: neq_Nil_conv)
    let ?ok = "room E (Suc (tick (core s)))" and ?xs = "map Some (y # ys)"
    let ?I = "enq ?ok (c, Web) (web_block E ?xs) I"
    from cases rd have sv': "served b t ?I"
      and log: "log t = log (core s) @ [IoRead (fd_ds cn) (Some (y # ys)), LwsWritable (Some w)]" by simp_all
    note cs = calls_eq [OF log]
    have raws: "raws ?s' = raws s" using raws_settle [of s t] by (simp add: cs plain_def)
    have rdin: "readin (calls s t) = [?xs]" by (simp add: cs readin_def map_filter_simps)
    have wants: "wants ?s' = insert (Some w) (wants s)" using wants_settle [of s t] by (auto simp: cs plain_def)
    have "binv E b ?s' ?I"
    proof (rule binv_update [OF inv])
      show "conveyed E d (sent ?s' (c', d)) (?I (c', d)) (got ?s' (c', d))" for c' d
        using binvD(2) [OF inv, of d c'] conveyed_put [OF binvD(2) [OF inv, of Web c], of ?xs ?ok] rdin
        by (cases "(c', d) = (c, Web)") (auto simp: enq_def blk_def room_def)
      show "awake ?s' ?I"
      proof (rule awakeI)
        fix w1 p1 v1 c1 assume 1: "open_ws ?s' w1 = Some (p1, v1)" "conn_of ?s' p1 = Some c1" "?I (c1, Web) \<noteq> []"
        show "Some w1 \<in> wants ?s'"
        proof (cases "c1 = c")
          case True
          with 1 x(3) sessions_inj [OF binvD(3) [OF inv] _ w, of w1 p1 v1] have "w1 = w" by (simp add: co)
          then show ?thesis unfolding wants by simp
        next
          case False
          with 1 awake_web [OF binvD(6) [OF inv], of w1 p1 v1 c1] show ?thesis
            unfolding wants by (auto simp: co enq_def split: if_split_asm)
        qed
      next
        fix r1 c1 w1 assume "raws ?s' r1 = Some (Some c1, w1)" "?I (c1, Local) \<noteq> []"
        then have "raws s r1 = Some (Some c1, w1)" "I (c1, Local) \<noteq> []"
          using raws by (auto simp: enq_def split: if_split_asm)
        from awake_local [OF binvD(6) [OF inv] this] show "Some r1 \<in> wants ?s'" unfolding wants by simp
      qed
    qed (use t sv' raws in simp_all)
    moreover have "dom (conns (core s)) \<subseteq> dom (conns (core ?s'))" using kept_sessions(3) [OF t(2)] by simp
    moreover have "map_option snd (raws s r) = Some w"
      "calls s (core ?s') = [IoRead (fd_ds cn) (Some (y # ys)), LwsWritable (Some w)]" using r cs by simp_all
    ultimately show ?thesis using ex by blast
  qed
qed

lemma exec_raw_close:
  assumes inv: "binv E b s I" and en: "enabled E s (Raw_close r)"
  shows "\<exists>s' I'. exec E b (Raw_close r) s = Inr s' \<and> binv E b s' I' \<and>
    raws s' = (raws s)(r := None) \<and> open_ws s' = open_ws s \<and> doomed s' = doomed s \<and>
    psss (core s') = psss (core s) \<and> (\<exists>fd. calls s (core s') = [IoClose fd]) \<and>
    dom (conns (core s)) \<subseteq> dom (conns (core s'))"
proof -
  from en obtain oc w where r: "raws s r = Some (oc, w)" by auto
  note sv = binvD(1) [OF inv]
  from childrenD [OF binvD(4) [OF inv] r] obtain c p v x where
    c: "oc = Some c" and w: "open_ws s w = Some (p, v)" and x: "conn_of s p = Some c" by metis
  from sessionsD [OF binvD(3) [OF inv] w] x obtain cn where cn: "conns (core s) c = Some cn"
    by (metis option.inject)
  let ?t = "emit (IoClose (fd_ds cn)) (core s)"
  let ?s' = "(settle ?t s)\<lparr>raws := (raws s)(r := None)\<rparr>"
  from raw_close [OF sv cn, of "raw_cb b r oc w" E] c have
    t: "frontend_cli_callback E LWS_CALLBACK_RAW_CLOSE_FILE (raw_cb b r oc w) (core s) = Inr (0, ?t)"
      "served b ?t I" by simp_all
  have cs: "calls s ?t = [IoClose (fd_ds cn)]" by (simp add: calls_def)
  have ex: "exec E b (Raw_close r) s = Inr ?s'" using r t(1) by simp
  have wants: "wants ?s' = wants s" using wants_settle [of s ?t] by (simp add: cs plain_def)
  have "sessions ?s'" by (rule sessions_cong [OF binvD(3) [OF inv]]) simp_all
  moreover have "children ?s'"
    using binvD(4) [OF inv] unfolding children_def by (auto split: if_split_asm)
  moreover have "awake ?s' I"
  proof (rule awakeI)
    fix w1 p1 v1 c1 assume "open_ws ?s' w1 = Some (p1, v1)" "conn_of ?s' p1 = Some c1" "I (c1, Web) \<noteq> []"
    with awake_web [OF binvD(6) [OF inv], of w1 p1 v1 c1] show "Some w1 \<in> wants ?s'"
      unfolding wants by (simp add: conn_of_def)
  next
    fix r1 c1 w1 assume "raws ?s' r1 = Some (Some c1, w1)" "I (c1, Local) \<noteq> []"
    with awake_local [OF binvD(6) [OF inv], of r1 c1 w1] show "Some r1 \<in> wants ?s'"
      unfolding wants by (simp split: if_split_asm)
  qed
  moreover have "routed b ?s'"
    by (rule routed_cong [OF binvD(7) [OF inv]]) (simp_all add: conn_of_def)
  ultimately have "binv E b ?s' I" using inv t(2) by (simp add: binv_def vhosts_def)
  moreover have "dom (conns (core s)) \<subseteq> dom (conns (core ?s'))" by simp
  moreover have "raws ?s' = (raws s)(r := None)" "open_ws ?s' = open_ws s" "doomed ?s' = doomed s"
    "psss (core ?s') = psss (core s)" "calls s (core ?s') = [IoClose (fd_ds cn)]" using cs by simp_all
  ultimately show ?thesis using ex by blast
qed

lemma free_pss_sel [simp]:
  "tick (free_pss p t) = tick t" "log (free_pss p t) = log t" "blocks (free_pss p t) = blocks t"
  "msgs (free_pss p t) = msgs t" "dicts (free_pss p t) = dicts t" "conns (free_pss p t) = conns t"
  "vhds (free_pss p t) = vhds t" "psss (free_pss p t) = (psss t)(p := None)"
  by (simp_all add: free_pss_def)

lemma exec_ws_close:
  assumes inv: "binv E b s I" and en: "enabled E s (Ws_close w)"
  shows "\<exists>s' I'. exec E b (Ws_close w) s = Inr s' \<and> binv E b s' I' \<and> (\<exists>p. calls s (core s') = [LwsRemove p]) \<and>
    dom (conns (core s)) \<subseteq> dom (conns (core s'))"
proof -
  from en obtain p v where w: "open_ws s w = Some (p, v)" by auto
  note sv = binvD(1) [OF inv]
  from sessionsD [OF binvD(3) [OF inv] w] obtain x c cn where
    x: "psss (core s) p = Some x" "conn_of s p = Some c" and v: "v \<in> dom (vhds (core s))" .
  from v obtain y where y: "vhds (core s) v = Some y" by auto
  let ?t = "free_pss p (emit (LwsRemove p) (core s))"
  let ?s' = "(settle ?t s)\<lparr>open_ws := (open_ws s)(w := None), doomed := doomed s - {w}\<rparr>"
  from ws_closed [OF sv, of "ws_cb b w p v None" p x v y E] x(1) y have
    t: "frontend_ws_callback E LWS_CALLBACK_CLOSED (ws_cb b w p v None) (core s)
        = Inr (0, emit (LwsRemove p) (core s))" by simp
  have sv': "served b ?t I" by (rule served_cong [OF sv]) simp_all
  have cs: "calls s ?t = [LwsRemove p]" by (simp add: calls_def)
  have raws: "raws ?s' = raws s" using raws_settle [of s ?t] by (simp add: cs plain_def)
  have wants: "wants ?s' = wants s" using wants_settle [of s ?t] by (simp add: cs plain_def)
  have ex: "exec E b (Ws_close w) s = Inr ?s'" using w t by simp
  have other: "p1 \<noteq> p" if "open_ws s w1 = Some (p1, v1)" "w1 \<noteq> w" for w1 p1 v1
    using sessions_inj [OF binvD(3) [OF inv] that(1) w] that(2) by auto
  then have co: "conn_of ?s' p1 = conn_of s p1" if "open_ws s w1 = Some (p1, v1)" "w1 \<noteq> w" for w1 p1 v1
    using other [OF that] by (simp add: conn_of_def)
  have "sessions ?s'"
  proof (rule sessionsI)
    fix w1 p1 v1 assume "open_ws ?s' w1 = Some (p1, v1)"
    then have w1: "open_ws s w1 = Some (p1, v1)" "w1 \<noteq> w" by (auto split: if_split_asm)
    from sessions_ex [OF binvD(3) [OF inv] w1(1)] other [OF w1]
    show "v1 \<in> dom (vhds (core ?s'))"
      "\<exists>x c. psss (core ?s') p1 = Some x \<and> conn_handle x = Some c \<and> c \<in> dom (conns (core ?s')) \<and> lwsi x \<noteq> Some w1"
      by simp_all
  next
    fix w1 w2 p1 p2 v1 v2
    assume "open_ws ?s' w1 = Some (p1, v1)" "open_ws ?s' w2 = Some (p2, v2)" "conn_of ?s' p1 = conn_of ?s' p2"
    with co sessions_inj [OF binvD(3) [OF inv], of w1 p1 v1 w2 p2 v2] show "w1 = w2"
      by (auto split: if_split_asm)
  qed
  moreover have "children ?s'"
    unfolding children_def raws
  proof (intro conjI allI impI)
    show "dom (raws s) \<inter> dom (open_ws ?s') = {}"
      using binvD(4) [OF inv] unfolding children_def by auto
    fix r oc w1 assume r: "raws s r = Some (oc, w1)"
    from r en have "w1 \<noteq> w" using image_eqI [of w1 snd "(oc, w1)" "ran (raws s)"] ranI [of "raws s" r] by auto
    with childrenD [OF binvD(4) [OF inv] r] other
    show "\<exists>p v x c. oc = Some c \<and> open_ws ?s' w1 = Some (p, v) \<and>
        psss (core ?s') p = Some x \<and> conn_handle x = Some c \<and> lwsi x = Some r"
      by (simp, metis)
  qed
  moreover have "awake ?s' I"
  proof (rule awakeI)
    fix w1 p1 v1 c1 assume "open_ws ?s' w1 = Some (p1, v1)" "conn_of ?s' p1 = Some c1" "I (c1, Web) \<noteq> []"
    with awake_web [OF binvD(6) [OF inv], of w1 p1 v1 c1] co show "Some w1 \<in> wants ?s'"
      unfolding wants by (auto split: if_split_asm)
  next
    fix r1 c1 w1 assume "raws ?s' r1 = Some (Some c1, w1)" "I (c1, Local) \<noteq> []"
    with awake_local [OF binvD(6) [OF inv], of r1 c1 w1] show "Some r1 \<in> wants ?s'"
      unfolding wants raws by simp
  qed
  moreover have "routed b ?s'"
  proof (rule routed_cong [OF binvD(7) [OF inv]])
    fix w1 p1 v1 assume "open_ws ?s' w1 = Some (p1, v1)"
    then have w1: "open_ws s w1 = Some (p1, v1)" "w1 \<noteq> w" by (auto split: if_split_asm)
    with co [OF w1] show "open_ws s w1 = Some (p1, v1) \<and> conn_of ?s' p1 = conn_of s p1 \<and>
        vhds (core ?s') v1 = vhds (core s) v1" by simp
  qed simp
  ultimately have "binv E b ?s' I" using inv sv' by (simp add: binv_def vhosts_def)
  moreover have "dom (conns (core s)) \<subseteq> dom (conns (core ?s'))" "calls s (core ?s') = [LwsRemove p]"
    using cs by simp_all
  ultimately show ?thesis using ex by blast
qed

lemma exec_protocol_init:
  assumes inv: "binv E b s I" and en: "enabled E s (Protocol_init nm)"
  shows "\<exists>s' I'. exec E b (Protocol_init nm) s = Inr s' \<and> binv E b s' I' \<and> calls s (core s') = [] \<and>
    dom (conns (core s)) \<subseteq> dom (conns (core s'))"
proof -
  from protocol_init [OF binvD(1) [OF inv], of E "init_cb b nm"] en obtain t where
    t: "frontend_ws_callback E LWS_CALLBACK_PROTOCOL_INIT (init_cb b nm) (core s) = Inr (0, t)"
      "served b t I" "psss t = psss (core s)" "conns t = conns (core s)" "log t = log (core s)"
      "vhds t = (vhds (core s))(tick (core s) \<mapsto> \<lparr>context_id = Some 0, vhost = Some 0, protocol = Some nm\<rparr>)"
      "tick t = Suc (tick (core s))"
    by (auto simp: init_cb_def)
  let ?s' = "settle t s"
  have cs: "calls s t = []" using t(5) by (simp add: calls_def)
  then have s': "raws ?s' = raws s" "wants ?s' = wants s" by (simp_all add: settle_def)
  have "sessions ?s'"
  proof (rule sessionsI)
    fix w p v assume "open_ws ?s' w = Some (p, v)"
    then have w: "open_ws s w = Some (p, v)" by simp
    from sessions_ex [OF binvD(3) [OF inv] w] show "v \<in> dom (vhds (core ?s'))"
      "\<exists>x c. psss (core ?s') p = Some x \<and> conn_handle x = Some c \<and> c \<in> dom (conns (core ?s')) \<and> lwsi x \<noteq> Some w"
      using t(3,4,6) by simp_all
  next
    fix w w' p p' v v' assume "open_ws ?s' w = Some (p, v)" "open_ws ?s' w' = Some (p', v')"
      "conn_of ?s' p = conn_of ?s' p'"
    with sessions_inj [OF binvD(3) [OF inv], of w p v w' p' v'] t(3) show "w = w'"
      by (simp add: conn_of_def)
  qed
  moreover have "children ?s'" using binvD(4) [OF inv] s' t(3) by (simp add: children_def)
  moreover have "awake ?s' I" using binvD(6) [OF inv] s' t(3) by (simp add: awake_def conn_of_def)
  moreover have "vhosts ?s'" using binvD(5) [OF inv] t(6,7) by (auto simp: vhosts_def less_Suc_eq)
  moreover have "routed b ?s'"
  proof (rule routed_cong [OF binvD(7) [OF inv]])
    fix w p v assume "open_ws ?s' w = Some (p, v)"
    then have w: "open_ws s w = Some (p, v)" by simp
    from sessions_ex(1) [OF binvD(3) [OF inv] w] binvD(5) [OF inv] have "v < tick (core s)"
      by (auto simp: vhosts_def)
    with w t(3,6) show "open_ws s w = Some (p, v) \<and> conn_of ?s' p = conn_of s p \<and>
        vhds (core ?s') v = vhds (core s) v" by (simp add: conn_of_def)
  qed (use t(4) in simp)
  ultimately have "binv E b ?s' I" using inv t(2) by (simp add: binv_def)
  with t(1,4) cs show ?thesis by auto
qed

text \<open>A new session with its own connection and child joins the bridge.\<close>

lemma binv_join:
  assumes inv: "binv E b s I" and w: "w \<notin> dom (open_ws s)" "w \<notin> dom (raws s)"
    and p: "p \<notin> dom (psss (core s))" and v: "v \<in> dom (vhds (core s))"
    and sv: "served b t I" and c: "conns (core s) c = None"
    and t: "conns t = (conns (core s))(c \<mapsto> cn)" "vhds t = vhds (core s)"
      "psss t = (psss (core s))(p \<mapsto> \<lparr>lwsi = child, conn_handle = Some c\<rparr>)"
    and s': "core s' = t" "open_ws s' = (open_ws s)(w \<mapsto> (p, v))"
      "wants s' = wants s - {Some w} - Some ` set_option child"
      "raws s' = (case child of None \<Rightarrow> raws s | Some r \<Rightarrow> (raws s)(r \<mapsto> (Some c, w)))"
      "got s' = got s" "sent s' = sent s"
    and child: "\<And>r. child = Some r \<Longrightarrow> r \<notin> dom (raws s) \<and> r \<notin> dom (open_ws s) \<and> r \<noteq> w"
    and later: "tick (core s) \<le> tick t" and bnd: "bound b t v c"
  shows "binv E b s' I"
proof -
  have I: "I (c, d) = []" for d by (rule served_none [OF binvD(1) [OF inv] c])
  have old: "psss t q = psss (core s) q \<and> conn_of s' q = conn_of s q \<and> conn_of s q \<noteq> Some c"
    if "open_ws s u = Some (q, v')" for u q v'
  proof -
    from sessions_ex(2) [OF binvD(3) [OF inv] that] obtain x c' where
      q: "psss (core s) q = Some x" "conn_handle x = Some c'" "c' \<in> dom (conns (core s))" by blast
    with p c have "q \<noteq> p" "c' \<noteq> c" by auto
    with q show ?thesis by (simp add: conn_of_def s'(1) t(3))
  qed
  have new: "conn_of s' p = Some c" by (simp add: conn_of_def s'(1) t(3))
  have "sessions s'"
  proof (rule sessionsI)
    fix u q v' assume u: "open_ws s' u = Some (q, v')"
    show "v' \<in> dom (vhds (core s'))"
      "\<exists>x c. psss (core s') q = Some x \<and> conn_handle x = Some c \<and> c \<in> dom (conns (core s')) \<and> lwsi x \<noteq> Some u"
    proof (atomize (full), cases "u = w")
      case True
      with u v child [of w] show "v' \<in> dom (vhds (core s')) \<and> (\<exists>x c. psss (core s') q = Some x \<and>
        conn_handle x = Some c \<and> c \<in> dom (conns (core s')) \<and> lwsi x \<noteq> Some u)" by (auto simp: s'(1,2) t)
    next
      case False
      with u have u': "open_ws s u = Some (q, v')" by (simp add: s'(2))
      with sessions_ex [OF binvD(3) [OF inv] u'] old [OF u']
      show "v' \<in> dom (vhds (core s')) \<and> (\<exists>x c. psss (core s') q = Some x \<and>
        conn_handle x = Some c \<and> c \<in> dom (conns (core s')) \<and> lwsi x \<noteq> Some u)" by (auto simp: s'(1) t(1,2))
    qed
  next
    fix u u' q q' v' v'' assume u: "open_ws s' u = Some (q, v')" "open_ws s' u' = Some (q', v'')"
      "conn_of s' q = conn_of s' q'"
    have cases: "(u = w \<and> conn_of s' q = Some c) \<or>
        (u \<noteq> w \<and> open_ws s u = Some (q, v') \<and> conn_of s' q = conn_of s q \<and> conn_of s' q \<noteq> Some c)"
      if "open_ws s' u = Some (q, v')" for u q v'
      using that new old [of u q v'] by (cases "u = w") (simp_all add: s'(2))
    from cases [OF u(1)] cases [OF u(2)] u(3) sessions_inj [OF binvD(3) [OF inv], of u q v' u' q' v'']
    show "u = u'" by metis
  qed
  moreover have "children s'"
    unfolding children_def
  proof (intro conjI allI impI)
    show "dom (raws s') \<inter> dom (open_ws s') = {}"
      using binvD(4) [OF inv] w child unfolding children_def s'(2,4) by (auto split: option.splits)
    fix r oc u assume r: "raws s' r = Some (oc, u)"
    show "\<exists>p v x c. oc = Some c \<and> open_ws s' u = Some (p, v) \<and> psss (core s') p = Some x \<and>
        conn_handle x = Some c \<and> lwsi x = Some r"
    proof (cases "child = Some r")
      case True
      with r show ?thesis by (auto simp: s' t(3))
    next
      case False
      with r have "raws s r = Some (oc, u)" by (simp add: s'(4) split: option.splits if_split_asm)
      from childrenD [OF binvD(4) [OF inv] this] obtain q v' x c' where
        "oc = Some c'" "open_ws s u = Some (q, v')" "psss (core s) q = Some x"
        "conn_handle x = Some c'" "lwsi x = Some r" by metis
      moreover from this w old [of u q v'] have "u \<noteq> w" "psss t q = Some x" by auto
      ultimately show ?thesis by (simp add: s'(1,2))
    qed
  qed
  moreover have "awake s' I"
  proof (rule awakeI)
    fix u q v' c1 assume u: "open_ws s' u = Some (q, v')" "conn_of s' q = Some c1" "I (c1, Web) \<noteq> []"
    with new I have "u \<noteq> w" by (auto simp: s'(2))
    with u old awake_web [OF binvD(6) [OF inv], of u q v' c1] child [of u] show "Some u \<in> wants s'"
      by (auto simp: s'(2,3))
  next
    fix r c1 u assume r: "raws s' r = Some (Some c1, u)" "I (c1, Local) \<noteq> []"
    with I have "c1 \<noteq> c" by auto
    with r have r': "raws s r = Some (Some c1, u)" by (simp add: s'(4) split: option.splits if_split_asm)
    with w child [of r] have "r \<noteq> w" "child \<noteq> Some r" by auto
    with awake_local [OF binvD(6) [OF inv] r' r(2)] show "Some r \<in> wants s'" by (auto simp: s'(3))
  qed
  moreover have "routed b s'"
    unfolding routed_def
  proof (intro allI impI)
    fix u q v' c1 assume u: "open_ws s' u = Some (q, v')" "conn_of s' q = Some c1"
    show "bound b (core s') v' c1"
    proof (cases "u = w")
      case True
      with u new bnd show ?thesis by (simp add: s'(1,2))
    next
      case False
      with u have u': "open_ws s u = Some (q, v')" by (simp add: s'(2))
      with old [OF u'] u(2) binvD(7) [OF inv] have "bound b (core s) v' c1" "c1 \<noteq> c"
        unfolding routed_def by (metis, metis)
      with t(1,2) s'(1) show ?thesis by (auto intro: bound_mono)
    qed
  qed
  moreover have "vhosts s'" using vhosts_cong [OF binvD(5) [OF inv]] later by (simp add: s' t(2))
  ultimately show ?thesis using inv sv by (simp add: binv_def s')
qed

lemma exec_establish:
  assumes inv: "binv E b s I" and en: "enabled E s (Establish w p v)"
  shows "\<exists>s'. exec E b (Establish w p v) s = Inr s' \<and>
    (list_all (fresh_child s) (calls s (core s')) \<longrightarrow> (\<exists>I'. binv E b s' I')) \<and>
    (\<exists>x nm. vhds (core s) v = Some x \<and> protocol x = Some nm \<and>
      (if can_open E b nm (tick (core s))
       then \<exists>fd path rc c. calls s (core s') = opened fd p path rc w (e_adopt E (tick (core s) + 5)) c
       else \<exists>es. calls s (core s') = es @ [LwsRemove p] \<and>
         (es = [] \<or> (\<exists>fd < 0. es = [IoSocket fd]) \<or> (\<exists>fd. es = [IoSocket fd, IoClose fd])))) \<and>
    dom (conns (core s)) \<subseteq> dom (conns (core s'))"
proof -
  from en have w: "w \<notin> dom (open_ws s)" "w \<notin> dom (raws s)" and p: "p \<notin> dom (psss (core s))"
    and v: "v \<in> dom (vhds (core s))" by auto
  from v obtain vhd where vhd: "vhds (core s) v = Some vhd" by auto
  with binvD(5) [OF inv] obtain nm where nm: "protocol vhd = Some nm" unfolding vhosts_def by blast
  from binvD(1) [OF inv] obtain l where l: "socklist b = Some l" by (rule servedE)
  let ?c0 = "set_pss p pss_zero (core s)" and ?x = "ws_cb b w p v None"
  have sv: "served b ?c0 I" by (rule served_cong [OF binvD(1) [OF inv]]) simp_all
  have x: "cb_backend ?x = Some b" "cb_user ?x = Some p" "psss ?c0 p = Some pss_zero" "cb_vhd ?x = Some v"
    "vhds ?c0 v = Some vhd" using vhd by simp_all
  show ?thesis
  proof (cases "can_open E b nm (tick ?c0)")
    case True
    from established_ok [OF sv x nm l True] obtain t c fd i path rc child where
      t: "frontend_ws_callback E LWS_CALLBACK_ESTABLISHED ?x ?c0 = Inr (0, t)" "served b t I"
        "conns ?c0 c = None" "conns t = (conns ?c0)(c \<mapsto> fresh_conn fd i)"
        "psss t = (psss ?c0)(p \<mapsto> pss_zero\<lparr>conn_handle := Some c, lwsi := child\<rparr>)" "vhds t = vhds ?c0"
        "log t = log ?c0 @ opened fd p path rc (cb_wsi ?x) child c" and ch: "child = e_adopt E (tick ?c0 + 5)"
      and rt: "slot_path l i = Some path" "bridged l nm = Some path" "tick ?c0 \<le> c" "c < tick t" by blast
    have "bound b t v c" using l vhd nm rt t(4,6) by (auto simp: bound_def fresh_conn_def)
    note rt = rt this
    let ?s0 = "s\<lparr>wants := wants s - {Some w}\<rparr>"
    let ?s' = "(settle t ?s0)\<lparr>open_ws := (open_ws (settle t ?s0))(w \<mapsto> (p, v))\<rparr>"
    have log: "log t = log (core s) @ opened fd p path rc w child c" "log (core ?s0) = log (core s)"
      using t(7) by simp_all
    note cs = calls_eq [OF log(1)] calls_eq [of t ?s0, unfolded log(2), OF log(1)]
    have ex: "exec E b (Establish w p v) s = Inr ?s'" using t(1) by (simp add: Let_def)
    have "binv E b ?s' I" if fresh: "list_all (fresh_child s) (calls s (core ?s'))"
    proof (rule binv_join [OF inv w p v t(2), of c])
      show "psss t = (psss (core s))(p \<mapsto> \<lparr>lwsi = child, conn_handle = Some c\<rparr>)"
        using t(5) by (simp add: pss_zero_def)
      show "wants ?s' = wants s - {Some w} - Some ` set_option child"
        by (cases child) (auto simp: settle_def cs opened_def)
      show "raws ?s' = (case child of None \<Rightarrow> raws s | Some r \<Rightarrow> (raws s)(r \<mapsto> (Some c, w)))"
        by (cases child) (simp_all add: settle_def cs opened_def)
      show "r \<notin> dom (raws s) \<and> r \<notin> dom (open_ws s) \<and> r \<noteq> w" if "child = Some r" for r
        using fresh that by (auto simp: cs opened_def fresh_child_def)
    qed (use t rt in simp_all)
    moreover have "dom (conns (core s)) \<subseteq> dom (conns (core ?s'))" using t(4) by auto
    moreover have "can_open E b nm (tick (core s))" using True by simp
    moreover have "calls s (core ?s') = opened fd p path rc w (e_adopt E (tick (core s) + 5)) c"
      using cs(1) ch by simp
    ultimately show ?thesis using ex vhd nm by (intro exI [of _ ?s'] conjI exI [of _ vhd] exI [of _ nm]) auto
  next
    case False
    from established_fails [OF sv x nm l False] obtain t es where
      t: "frontend_ws_callback E LWS_CALLBACK_ESTABLISHED ?x ?c0 = Inr (-1, t)" "served b t I"
        "conns t = conns ?c0" "psss t = (psss ?c0)(p \<mapsto> pss_zero\<lparr>conn_handle := None\<rparr>)" "vhds t = vhds ?c0"
        "log t = log ?c0 @ es" "tick ?c0 \<le> tick t"
      and es: "es = [] \<or> (\<exists>fd < 0. es = [IoSocket fd]) \<or> (\<exists>fd. es = [IoSocket fd, IoClose fd])" by blast
    let ?u = "free_pss p (emit (LwsRemove p) t)"
    let ?s' = "settle ?u s"
    from ws_closed [OF t(2), of ?x p _ v vhd E] t(4,5) vhd have
      cl: "frontend_ws_callback E LWS_CALLBACK_CLOSED ?x t = Inr (0, emit (LwsRemove p) t)" by simp
    have ex: "exec E b (Establish w p v) s = Inr ?s'" using t(1) cl by simp
    have "log ?u = log (core s) @ es @ [LwsRemove p]" using t(6) by simp
    note cs = calls_eq [OF this]
    have "list_all plain (calls s ?u)" "\<And>w. LwsWritable w \<notin> set (calls s ?u)"
      using es by (auto simp: cs plain_def)
    then have s': "raws ?s' = raws s" "wants ?s' = wants s" using raws_settle [of s ?u] wants_settle [of s ?u]
      by auto
    have ps: "psss ?u = psss (core s)" using t(4) p by (auto simp: domIff)
    have "served b ?u I" by (rule served_cong [OF t(2)]) simp_all
    moreover have "sessions ?s'" by (rule sessions_cong [OF binvD(3) [OF inv]]) (use t ps in simp_all)
    moreover have "children ?s'" by (rule children_cong [OF binvD(4) [OF inv]]) (use ps s' in simp_all)
    moreover have "awake ?s' I" using binvD(6) [OF inv] s' ps by (simp add: awake_def conn_of_def)
    moreover have "routed b ?s'"
      by (rule routed_cong [OF binvD(7) [OF inv]]) (use t ps in \<open>simp_all add: conn_of_def\<close>)
    moreover have "vhosts ?s'" using vhosts_cong [OF binvD(5) [OF inv], of ?s'] t(5,7) by simp
    ultimately have "binv E b ?s' I" using inv by (simp add: binv_def)
    moreover have "dom (conns (core s)) \<subseteq> dom (conns (core ?s'))" using t(3) by simp
    moreover have "\<not> can_open E b nm (tick (core s))" "calls s (core ?s') = es @ [LwsRemove p]"
      using False cs by simp_all
    ultimately show ?thesis using ex vhd nm es by (intro exI [of _ ?s'] conjI exI [of _ vhd] exI [of _ nm]) auto
  qed
qed

end
