(* ===== verification/Backend_Run.thy ===== *)
theory Backend_Run
  imports Bridge_Inv
begin

text \<open>
  Starting and stopping: \<open>frontend_start\<close> and \<open>frontend_stop\<close> of \<^verbatim>\<open>main/frontend.c\<close>, the service
  loop and the teardown of \<open>backend_run\<close> in \<^verbatim>\<open>main/backend.c\<close>. What libwebsockets does in a call
  of \<open>lws_service\<close> is a parameter: the events it delivers, what it returns, and whether the
  signal came in meanwhile.
\<close>

section \<open>Starting libwebsockets\<close>

text \<open>The protocols and the mount that the caller hands through to the library.\<close>

datatype callback = Http_callback | Cli_callback | Ws_callback

record lws_protocols =
  p_name :: "string option"
  p_callback :: "callback option"
  p_session_size :: bool
  p_rx_buffer :: nat

record lws_http_mount =
  mountpoint :: string
  origin :: "string option"
  mount_def :: string
  mountpoint_len :: nat

datatype lws_option = HEADERS_BEST_PRACTICES | DO_SSL_GLOBAL_INIT | VHOST_UPG_STRICT_HOST_CHECK

record lws_info =
  i_user :: backend_t
  i_port :: int
  i_mounts :: lws_http_mount
  i_protocols :: "lws_protocols list"
  i_vhost_name :: string
  i_options :: "lws_option list"
  i_ping_interval :: nat
  i_cert :: "string option"
  i_key :: "string option"
  i_retry :: bool

text \<open>
  The library as \<open>backend_run\<close> uses it: whether a context can be made, what the \<open>n\<close>-th call of
  \<open>lws_service\<close> does, and the events of \<open>lws_context_destroy\<close>. \<open>sv_retrypolicy\<close> is the build
  option \<open>LWS_HAS_RETRYPOLICY\<close>.
\<close>

record service =
  sv_create :: "lws_info \<Rightarrow> nat option"
  sv_retrypolicy :: bool
  sv_events :: "nat \<Rightarrow> bridge \<Rightarrow> event list"
  sv_result :: "nat \<Rightarrow> int"
  sv_signal :: "nat \<Rightarrow> bool"
  sv_destroy :: "bridge \<Rightarrow> event list"

definition frontend_start ::
  "service \<Rightarrow> backend_t \<Rightarrow> bool \<Rightarrow> bool \<Rightarrow> string \<Rightarrow> int \<Rightarrow> string option \<Rightarrow> string option \<Rightarrow>
   lws_protocols list \<Rightarrow> lws_http_mount \<Rightarrow> lws_info \<times> nat option" where
  "frontend_start S b do_hostcheck do_fastmonitoring hostname port_number certpath keypath protocols mount =
     (let info = \<lparr>i_user = b, i_port = port_number, i_mounts = mount, i_protocols = protocols,
                   i_vhost_name = hostname, i_options = [HEADERS_BEST_PRACTICES],
                   i_ping_interval = 10, i_cert = None, i_key = None, i_retry = False\<rparr>;
          info = (if certpath \<noteq> None \<and> keypath \<noteq> None
                  then info\<lparr>i_options := i_options info @ [DO_SSL_GLOBAL_INIT],
                            i_cert := certpath, i_key := keypath\<rparr>
                  else info);
          info = (if do_hostcheck
                  then info\<lparr>i_options := i_options info @ [VHOST_UPG_STRICT_HOST_CHECK]\<rparr> else info);
          info = (if sv_retrypolicy S \<and> do_fastmonitoring then info\<lparr>i_retry := True\<rparr> else info)
      in (info, sv_create S info))"

section \<open>Running events\<close>

fun run :: "env \<Rightarrow> backend_t \<Rightarrow> event list \<Rightarrow> bridge \<Rightarrow> bridge res" where
  "run E b [] s = Inr s"
| "run E b (e # es) s = andThen (exec E b e s) (\<lambda>s. run E b es s)"

definition frontend_stop ::
  "env \<Rightarrow> service \<Rightarrow> backend_t \<Rightarrow> nat option \<Rightarrow> bridge \<Rightarrow> (int \<times> bridge) res" where
  "frontend_stop E S b handle s =
     (if handle = None then Inr (-1, s)
      else andThen (run E b (sv_destroy S s) s) (\<lambda>s. Inr (0, s)))"

section \<open>The service loop\<close>

definition backend_inthandler :: "birq_type \<Rightarrow> birq_type" where
  "backend_inthandler irq = BIRQ_GLOBAL"

text \<open>The loop may run forever; its value is then \<open>None\<close>.\<close>

partial_function (option) service_loop ::
  "env \<Rightarrow> service \<Rightarrow> backend_t \<Rightarrow> nat \<Rightarrow> birq_type \<Rightarrow> int \<Rightarrow> bridge \<Rightarrow> bridge res option" where
  "service_loop E S b n irq lws_rc s =
     (if irq = BIRQ_NONE \<and> 0 \<le> lws_rc
      then (case run E b (sv_events S n s) s of
              Inl f \<Rightarrow> Some (Inl f)
            | Inr s' \<Rightarrow> service_loop E S b (Suc n)
                (if sv_signal S n then backend_inthandler irq else irq) (sv_result S n) s')
      else Some (Inr s))"

text \<open>The loop that closes the descriptors of the connections in the dictionary.\<close>

fun close_items :: "nat \<Rightarrow> addr option \<Rightarrow> 'a dheap_scheme \<Rightarrow> 'a dheap_scheme res" where
  "close_items n None s = Inr s"
| "close_items 0 (Some i) s = Inl Diverge"
| "close_items (Suc n) (Some i) s =
     andThen (deref (items s) (Some i)) (\<lambda>(i, it).
     andThen (deref (conns s) (i_data it)) (\<lambda>(c, cn).
       close_items n (h_next (i_hh it)) (emit (IoClose (fd_ds cn)) s)))"

definition close_all :: "addr option \<Rightarrow> 'a dheap_scheme \<Rightarrow> 'a dheap_scheme res" where
  "close_all fdict s =
     andThen (deref (dicts s) fdict) (\<lambda>(h, d). close_items (Suc (tick s)) (d_base d) s)"

text \<open>
  The cleanup by return code: the cases fall through. \<open>free\<close> of a block that is not allocated is a
  fault, of NULL nothing.
\<close>

definition free_block :: "addr option \<Rightarrow> 'a heap_scheme \<Rightarrow> 'a heap_scheme res" where
  "free_block p s =
     (case p of None \<Rightarrow> Inr s
      | Some a \<Rightarrow> if blocks s a = None then Inl DanglingDeref
          else Inr (s\<lparr>blocks := (blocks s)(a := None)\<rparr>))"

definition backend_exit :: "int \<Rightarrow> backend_t \<Rightarrow> 'a dheap_scheme \<Rightarrow> (int \<times> 'a dheap_scheme) res" where
  "backend_exit rc b s =
     (if rc = -1 then Inr (rc, s)
      else if rc = -2 then andThen (free_block (buf b) s) (\<lambda>s. Inr (rc, s))
      else andThen (dict_deinit (filedict b) s) (\<lambda>s.
           andThen (free_block (buf b) s) (\<lambda>s. Inr (rc, s))))"

definition with_core :: "bridge \<Rightarrow> (int \<times> fheap) res \<Rightarrow> (int \<times> bridge) res" where
  "with_core s r = andThen r (\<lambda>(rc, t). Inr (rc, s\<lparr>core := t\<rparr>))"

definition backend_run ::
  "env \<Rightarrow> service \<Rightarrow> socklist_t option \<Rightarrow> bool \<Rightarrow> bool \<Rightarrow> string \<Rightarrow> int \<Rightarrow> string option \<Rightarrow> string option \<Rightarrow>
   lws_protocols list \<Rightarrow> lws_http_mount \<Rightarrow> bridge \<Rightarrow> (int \<times> bridge) res option" where
  "backend_run E S l do_hostcheck do_fastmonitoring hostname port_number certpath keypath protocols mount s =
     (let (bf, t) = malloc_block E 1024 (core s) in
      if bf = None then Some (Inr (-1, s\<lparr>core := t\<rparr>))
      else let (fd, t) = dict_init E t;
               b = \<lparr>socklist = l, buf = bf, bufsize = 1024, filedict = fd\<rparr>;
               s = s\<lparr>core := t\<rparr> in
        if fd = None then Some (with_core s (backend_exit (-2) b t))
        else let (info, ctx) = frontend_start S b do_hostcheck do_fastmonitoring hostname port_number
                                 certpath keypath protocols mount in
          if ctx = None then Some (with_core s (backend_exit (-4) b t))
          else (case service_loop E S b 0 BIRQ_NONE 0 s of
                  None \<Rightarrow> None
                | Some r \<Rightarrow> Some (andThen r (\<lambda>s.
                    andThen (frontend_stop E S b ctx s) (\<lambda>(rc, s).
                    andThen (close_all fd (core s)) (\<lambda>t.
                      with_core s (backend_exit 0 b t)))))))"

section \<open>Reachable states\<close>

lemma exec_binv:
  assumes "binv E b s I" "enabled E s e" "unat (bufsize b) + unat (e_lws_pre E) < 2 ^ 64"
  shows "\<exists>s'. exec E b e s = Inr s' \<and>
    (list_all (fresh_child s) (calls s (core s')) \<longrightarrow> (\<exists>I'. binv E b s' I')) \<and>
    dom (conns (core s)) \<subseteq> dom (conns (core s'))"
proof (cases e)
  case (Protocol_init nm)
  with exec_protocol_init [OF assms(1)] assms(2) show ?thesis by blast
next
  case (Establish w p v)
  with exec_establish [OF assms(1)] assms(2) show ?thesis by blast
next
  case (Receive w xs)
  with exec_receive [OF assms(1)] assms(2) show ?thesis by blast
next
  case (Ws_writeable w)
  with assms(2) obtain p v where "open_ws s w = Some (p, v)" by auto
  from exec_ws_writeable [OF assms(1) this] Ws_writeable show ?thesis by blast
next
  case (Ws_close w)
  with exec_ws_close [OF assms(1)] assms(2) show ?thesis by blast
next
  case (Raw_rx r)
  with exec_raw_rx [OF assms(1) _ assms(3)] assms(2) show ?thesis by blast
next
  case (Raw_writeable r)
  with assms(2) obtain oc w where "raws s r = Some (oc, w)" by auto
  from exec_raw_writeable [OF assms(1) this] Raw_writeable show ?thesis by blast
next
  case (Raw_close r)
  with exec_raw_close [OF assms(1)] assms(2) show ?thesis by blast
qed

lemma bstep_binv:
  assumes "bstep E b s e s'" "binv E b s I" "unat (bufsize b) + unat (e_lws_pre E) < 2 ^ 64"
  shows "\<exists>I'. binv E b s' I' \<and> dom (conns (core s)) \<subseteq> dom (conns (core s'))"
  using assms(1)
proof (rule bstepE)
  assume e: "enabled E s e" "exec E b e s = Inr s'" "list_all (fresh_child s) (calls s (core s'))"
  from exec_binv [OF assms(2) e(1) assms(3)] e(2,3) show ?thesis by auto
qed

lemma reach_binv:
  assumes "reach E b s0 s" "binv E b s0 I0" "unat (bufsize b) + unat (e_lws_pre E) < 2 ^ 64"
  shows "\<exists>I. binv E b s I \<and> dom (conns (core s0)) \<subseteq> dom (conns (core s))"
  using assms(1)
proof (induction rule: reach.induct)
  case start
  with assms(2) show ?case by blast
next
  case (next_step s e s')
  then obtain I where I: "binv E b s I" "dom (conns (core s0)) \<subseteq> dom (conns (core s))" by blast
  from bstep_binv [OF next_step.hyps(2) I(1) assms(3)] I(2) show ?case by (meson subset_trans)
qed

text \<open>No event frees a connection.\<close>

lemma reach_conns:
  assumes "reach E b s0 u" "binv E b s0 I0" "unat (bufsize b) + unat (e_lws_pre E) < 2 ^ 64" "reach E b u s"
  shows "dom (conns (core u)) \<subseteq> dom (conns (core s))"
proof -
  from reach_binv [OF assms(1-3)] obtain I where "binv E b u I" by blast
  from reach_binv [OF assms(4) this assms(3)] show ?thesis by blast
qed

text \<open>The bridge as the service loop starts: an empty store with the read buffer, and no sessions.\<close>

definition fresh_bridge :: "backend_t \<Rightarrow> bridge \<Rightarrow> bool" where
  "fresh_bridge b s \<longleftrightarrow> (case (socklist b, buf b, filedict b) of
      (Some l, Some a, Some h) \<Rightarrow>
        sl_wf l \<and> no_table h (core s) \<and> a < tick (core s) \<and>
        blocks (core s) = [a \<mapsto> replicate (unat (bufsize b)) None]
    | _ \<Rightarrow> False) \<and>
    msgs (core s) = Map.empty \<and> conns (core s) = Map.empty \<and> psss (core s) = Map.empty \<and>
    vhds (core s) = Map.empty \<and> open_ws s = Map.empty \<and> raws s = Map.empty \<and> wants s = {} \<and>
    doomed s = {} \<and> got s = (\<lambda>_. []) \<and> sent s = (\<lambda>_. []) \<and> answers s = (\<lambda>_. [])"

lemma fresh_bridge_binv:
  assumes "fresh_bridge b s"
  shows "binv E b s (\<lambda>_. [])"
proof -
  from assms obtain l a h where b: "socklist b = Some l" "buf b = Some a" "filedict b = Some h"
    "sl_wf l" "no_table h (core s)" "a < tick (core s)"
    "blocks (core s) = [a \<mapsto> replicate (unat (bufsize b)) None]"
    by (auto simp: fresh_bridge_def split: option.splits)
  from assms have e: "msgs (core s) = Map.empty" "conns (core s) = Map.empty" "vhds (core s) = Map.empty"
    "open_ws s = Map.empty" "raws s = Map.empty" "got s = (\<lambda>_. [])" "sent s = (\<lambda>_. [])"
    by (simp_all add: fresh_bridge_def)
  have "qs (core s) [a \<mapsto> unat (bufsize b)] (\<lambda>_. []) {}"
    unfolding qs_def
  proof (intro conjI)
    show "heap_wf (core s)" using b(6,7) e(1) by (simp add: heap_wf_def)
    show "foreign (core s) [a \<mapsto> unat (bufsize b)]" using b(7) e(1) by (simp add: foreign_def)
    show "queued (core s) (\<lambda>_. [])" using e(2) by (simp add: queued_def)
    show "placed (dom (msgs (core s))) (\<lambda>_. []) {}" using e(1) by (simp add: placed_def)
  qed
  then have "holds (core s) [a \<mapsto> unat (bufsize b)] (\<lambda>_. [])" by (rule holdsI) simp
  then have "served b (core s) (\<lambda>_. [])"
    using servedI [OF b(1-5)] e(2) by (simp add: linked_def)
  moreover have "conveyed E d [] [] []" for d by (simp add: conveyed_def)
  ultimately show ?thesis
    using e by (simp add: binv_def sessions_def children_def vhosts_def awake_def routed_def)
qed

section \<open>The service loop ends when it is told to\<close>

text \<open>A sequence of events that the library may deliver from a state.\<close>

fun allowed :: "env \<Rightarrow> backend_t \<Rightarrow> event list \<Rightarrow> bridge \<Rightarrow> bool" where
  "allowed E b [] s = True"
| "allowed E b (e # es) s \<longleftrightarrow> enabled E s e \<and>
     (case exec E b e s of Inl f \<Rightarrow> True
      | Inr s' \<Rightarrow> list_all (fresh_child s) (calls s (core s')) \<and> allowed E b es s')"

definition lawful :: "env \<Rightarrow> service \<Rightarrow> backend_t \<Rightarrow> bool" where
  "lawful E S b \<longleftrightarrow> (\<forall>n s. allowed E b (sv_events S n s) s) \<and> (\<forall>s. allowed E b (sv_destroy S s) s)"

lemma reach_trans: "reach E b s1 s2 \<Longrightarrow> reach E b s0 s1 \<Longrightarrow> reach E b s0 s2"
  by (induction rule: reach.induct) (auto intro: reach.intros)

lemma run_allowed:
  assumes "binv E b s I" "allowed E b es s" "unat (bufsize b) + unat (e_lws_pre E) < 2 ^ 64"
  shows "\<exists>s'. run E b es s = Inr s' \<and> reach E b s s'"
  using assms(1,2)
proof (induction es arbitrary: s I)
  case Nil
  then show ?case by (simp add: reach.start)
next
  case (Cons e es)
  from Cons.prems have en: "enabled E s e" by simp
  from exec_binv [OF Cons.prems(1) en assms(3)] obtain s1 where s1: "exec E b e s = Inr s1" by blast
  with Cons.prems(2) have fresh: "list_all (fresh_child s) (calls s (core s1))" and al: "allowed E b es s1"
    by simp_all
  from bstep.step [OF en s1 fresh] have st: "bstep E b s e s1" .
  from bstep_binv [OF st Cons.prems(1) assms(3)] obtain I1 where "binv E b s1 I1" by blast
  from Cons.IH [OF this al] obtain s' where "run E b es s1 = Inr s'" "reach E b s1 s'" by blast
  moreover have "reach E b s s1" by (rule reach.next_step [OF reach.start st])
  ultimately show ?case using s1 reach_trans by auto
qed

lemma service_loop_ends:
  assumes fits: "unat (bufsize b) + unat (e_lws_pre E) < 2 ^ 64" and law: "lawful E S b"
    and stop: "sv_signal S (k + m) \<or> sv_result S (k + m) < 0"
  shows "binv E b s I \<Longrightarrow> \<exists>s'. service_loop E S b k BIRQ_NONE rc s = Some (Inr s') \<and> reach E b s s'"
  using stop
proof (induction m arbitrary: k rc s I)
  case 0
  show ?case
  proof (cases "0 \<le> rc")
    case False
    then show ?thesis by (simp add: service_loop.simps [of E S b k] reach.start)
  next
    case True
    from law have "allowed E b (sv_events S k s) s" by (simp add: lawful_def)
    from run_allowed [OF 0(1) this fits] obtain s1 where
      s1: "run E b (sv_events S k s) s = Inr s1" "reach E b s s1" by blast
    from 0(2) have "service_loop E S b (Suc k) (if sv_signal S k then BIRQ_GLOBAL else BIRQ_NONE) (sv_result S k) s1
        = Some (Inr s1)"
      by (auto simp: service_loop.simps [of E S b "Suc k"])
    with True s1 show ?thesis
      by (simp add: service_loop.simps [of E S b k BIRQ_NONE] backend_inthandler_def split: if_split_asm)
  qed
next
  case (Suc m)
  show ?case
  proof (cases "0 \<le> rc")
    case False
    then show ?thesis by (simp add: service_loop.simps [of E S b k] reach.start)
  next
    case True
    from law have "allowed E b (sv_events S k s) s" by (simp add: lawful_def)
    from run_allowed [OF Suc.prems(1) this fits] obtain s1 where
      s1: "run E b (sv_events S k s) s = Inr s1" "reach E b s s1" by blast
    from reach_binv [OF s1(2) Suc.prems(1) fits] obtain I1 where I1: "binv E b s1 I1" by blast
    have nxt: "service_loop E S b k BIRQ_NONE rc s = service_loop E S b (Suc k)
        (if sv_signal S k then BIRQ_GLOBAL else BIRQ_NONE) (sv_result S k) s1"
      using True s1 by (simp add: service_loop.simps [of E S b k BIRQ_NONE] backend_inthandler_def)
    show ?thesis
    proof (cases "sv_signal S k")
      case True
      with nxt s1 show ?thesis by (simp add: service_loop.simps [of E S b "Suc k"])
    next
      case False
      from Suc.prems(2) have "sv_signal S (Suc k + m) \<or> sv_result S (Suc k + m) < 0" by simp
      from Suc.IH [OF I1 this, of "sv_result S k"] False nxt s1(2) reach_trans show ?thesis by auto
    qed
  qed
qed

section \<open>The whole run\<close>

text \<open>A process that has used no memory yet and serves nobody.\<close>

definition idle :: "bridge \<Rightarrow> bool" where
  "idle s \<longleftrightarrow> blocks (core s) = Map.empty \<and> msgs (core s) = Map.empty \<and> conns (core s) = Map.empty \<and>
     dicts (core s) = Map.empty \<and> psss (core s) = Map.empty \<and> vhds (core s) = Map.empty \<and>
     open_ws s = Map.empty \<and> raws s = Map.empty \<and> wants s = {} \<and> doomed s = {} \<and>
     got s = (\<lambda>_. []) \<and> sent s = (\<lambda>_. []) \<and> answers s = (\<lambda>_. [])"

text \<open>The backend object and the state with which the service loop is entered.\<close>

definition the_backend :: "socklist_t \<Rightarrow> nat \<Rightarrow> backend_t" where
  "the_backend l n = \<lparr>socklist = Some l, buf = Some n, bufsize = 1024, filedict = Some (Suc n)\<rparr>"

definition begun :: "bridge \<Rightarrow> bridge" where
  "begun s = s\<lparr>core := (step ((step (core s))
       \<lparr>blocks := (blocks (core s))(tick (core s) \<mapsto> replicate 1024 None)\<rparr>))
     \<lparr>dicts := (dicts (core s))(Suc (tick (core s)) \<mapsto> \<lparr>d_size = 0, d_base = None\<rparr>)\<rparr>\<rparr>"

lemma begun_fresh: "idle s \<Longrightarrow> sl_wf l \<Longrightarrow> fresh_bridge (the_backend l (tick (core s))) (begun s)"
  by (simp add: idle_def fresh_bridge_def the_backend_def begun_def no_table_def)

lemma backend_run_begun:
  assumes "e_malloc E (tick (core s))" "e_malloc E (Suc (tick (core s)))"
    and "snd (frontend_start S (the_backend l (tick (core s))) hc fm host port crt kp protos mnt) = Some ctx"
  shows "backend_run E S (Some l) hc fm host port crt kp protos mnt s =
    (case service_loop E S (the_backend l (tick (core s))) 0 BIRQ_NONE 0 (begun s) of
       None \<Rightarrow> None
     | Some r \<Rightarrow> Some (andThen r (\<lambda>s'.
         andThen (frontend_stop E S (the_backend l (tick (core s))) (Some ctx) s') (\<lambda>(rc, s').
         andThen (close_all (Some (Suc (tick (core s)))) (core s')) (\<lambda>t.
           with_core s' (backend_exit 0 (the_backend l (tick (core s))) t))))))"
  using assms
  by (cases "frontend_start S (the_backend l (tick (core s))) hc fm host port crt kp protos mnt")
     (simp add: backend_run_def malloc_block_def dict_init_def begun_def Let_def
       flip: the_backend_def cong del: option.case_cong_weak)

text \<open>Tearing down a served bridge: nothing is in the dictionary, so nothing is closed or freed.\<close>

lemma teardown:
  assumes "served b (core s) I" "filedict b = Some h" "buf b = Some a"
  shows "close_all (Some h) (core s) = Inr (core s) \<and>
    with_core s (backend_exit 0 b (core s)) = Inr (0, s\<lparr>core := (core s)
      \<lparr>dicts := (dicts (core s))(h := None), blocks := (blocks (core s))(a := None)\<rparr>\<rparr>)"
proof -
  from assms(1,3) have "holds (core s) [a \<mapsto> unat (bufsize b)] I" by (auto elim: servedE)
  then obtain Q where "qs (core s) [a \<mapsto> unat (bufsize b)] Q {}" by (rule holdsE)
  from qsD(2) [OF this, of a] have buf: "blocks (core s) a \<noteq> None" by auto
  from assms have nt: "no_table h (core s)" by (auto elim: servedE)
  then obtain d where "dicts (core s) h = Some d" "d_base d = None" by (rule no_tableE)
  then have "close_all (Some h) (core s) = Inr (core s)" by (simp add: close_all_def)
  moreover from dict_deinit_no_table [OF nt] assms(2,3) buf
  have "backend_exit 0 b (core s) = Inr (0, (core s)\<lparr>dicts := (dicts (core s))(h := None),
       blocks := (blocks (core s))(a := None)\<rparr>)"
    by (simp add: backend_exit_def free_block_def)
  ultimately show ?thesis by (simp add: with_core_def)
qed

lemma backend_run_ends:
  assumes idle: "idle s" and wf: "sl_wf l" and pre: "1024 + unat (e_lws_pre E) < 2 ^ 64"
    and mem: "e_malloc E (tick (core s))" "e_malloc E (Suc (tick (core s)))"
    and ctx: "sv_create S (fst (frontend_start S (the_backend l (tick (core s))) hc fm host port crt kp protos mnt)) \<noteq> None"
    and law: "lawful E S (the_backend l (tick (core s)))"
    and stop: "sv_signal S m \<or> sv_result S m < 0"
  shows "\<exists>s1 s2. reach E (the_backend l (tick (core s))) (begun s) s1 \<and>
    backend_run E S (Some l) hc fm host port crt kp protos mnt s = Some (Inr (0, s2)) \<and>
    log (core s2) = log (core s1) \<and> conns (core s2) = conns (core s1) \<and> msgs (core s2) = msgs (core s1) \<and>
    live (core s2) = live (core s1) \<and> blocks (core s2) = (blocks (core s1))(tick (core s) := None) \<and>
    dicts (core s2) = (dicts (core s1))(Suc (tick (core s)) := None) \<and> items (core s2) = items (core s1)"
proof -
  let ?b = "the_backend l (tick (core s))"
  have fits: "unat (bufsize ?b) + unat (e_lws_pre E) < 2 ^ 64" using pre by (simp add: the_backend_def)
  note inv0 = fresh_bridge_binv [OF begun_fresh [OF idle wf], of E]
  obtain ctx' where ctx': "snd (frontend_start S ?b hc fm host port crt kp protos mnt) = Some ctx'"
    using ctx by (auto simp: frontend_start_def Let_def)
  have "sv_signal S (0 + m) \<or> sv_result S (0 + m) < 0" using stop by simp
  from service_loop_ends [OF fits law this inv0, of 0] obtain s1 where
    loop: "service_loop E S ?b 0 BIRQ_NONE 0 (begun s) = Some (Inr s1)" and r1: "reach E ?b (begun s) s1" by blast
  from reach_binv [OF r1 inv0 fits] obtain I1 where I1: "binv E ?b s1 I1" by blast
  have "allowed E ?b (sv_destroy S s1) s1" using law by (simp add: lawful_def)
  from run_allowed [OF I1 this fits] obtain s2 where
    s2: "run E ?b (sv_destroy S s1) s1 = Inr s2" "reach E ?b s1 s2" by blast
  from reach_binv [OF s2(2) I1 fits] obtain I2 where "binv E ?b s2 I2" by blast
  from teardown [OF binvD(1) [OF this], of "Suc (tick (core s))"]
  have td: "close_all (Some (Suc (tick (core s)))) (core s2) = Inr (core s2)"
    "with_core s2 (backend_exit 0 ?b (core s2)) = Inr (0, s2\<lparr>core := (core s2)
      \<lparr>dicts := (dicts (core s2))(Suc (tick (core s)) := None),
       blocks := (blocks (core s2))(tick (core s) := None)\<rparr>\<rparr>)" by (simp_all add: the_backend_def)
  let ?s3 = "s2\<lparr>core := (core s2)
      \<lparr>dicts := (dicts (core s2))(Suc (tick (core s)) := None),
       blocks := (blocks (core s2))(tick (core s) := None)\<rparr>\<rparr>"
  have "backend_run E S (Some l) hc fm host port crt kp protos mnt s = Some (Inr (0, ?s3))"
    using backend_run_begun [OF mem ctx'] loop s2(1) td by (simp add: frontend_stop_def)
  moreover have "log (core ?s3) = log (core s2)" "conns (core ?s3) = conns (core s2)"
    "msgs (core ?s3) = msgs (core s2)" "live (core ?s3) = live (core s2)"
    "blocks (core ?s3) = (blocks (core s2))(tick (core s) := None)"
    "dicts (core ?s3) = (dicts (core s2))(Suc (tick (core s)) := None)" "items (core ?s3) = items (core s2)"
    by simp_all
  ultimately show ?thesis using reach_trans [OF s2(2) r1] by blast
qed

section \<open>Properties\<close>

text \<open>
  C9: \<open>backend_run\<close> returns 0 once a signal has arrived or \<open>lws_service\<close> has failed, whatever
  the library delivered before within its contract (and with memory for the initialisation of the
  protocols): the run goes through reachable states only, without a fault of the program's own
  accesses; calls into the library with bad arguments are followed as if they had no effect. Its own teardown then closes no descriptor and frees no connection and no
  message, since it walks an empty dictionary; the read buffer is freed.
\<close>

theorem backend_run_returns:
  assumes "idle s" "sl_wf l" "1024 + unat (e_lws_pre E) < 2 ^ 64"
    and "e_malloc E (tick (core s))" "e_malloc E (Suc (tick (core s)))"
    and "\<And>i. sv_create S i \<noteq> None"
    and "lawful E S (the_backend l (tick (core s)))"
    and "sv_signal S m \<or> sv_result S m < 0"
  shows "\<exists>s1 s2. reach E (the_backend l (tick (core s))) (begun s) s1 \<and>
    backend_run E S (Some l) hc fm host port crt kp protos mnt s = Some (Inr (0, s2)) \<and>
    log (core s2) = log (core s1) \<and> conns (core s2) = conns (core s1) \<and> msgs (core s2) = msgs (core s1) \<and>
    blocks (core s2) (tick (core s)) = None"
  using backend_run_ends [OF assms] by (metis fun_upd_same)

definition idle_bridge :: bridge where
  "idle_bridge = \<lparr>core = \<lparr>tick = 0, log = [], live = {}, blocks = Map.empty, msgs = Map.empty, items = Map.empty,
       tbls = Map.empty, dicts = Map.empty, conns = Map.empty, psss = Map.empty, vhds = Map.empty\<rparr>,
     open_ws = Map.empty, raws = Map.empty, wants = {}, doomed = {}, got = (\<lambda>_. []), sent = (\<lambda>_. []), answers = (\<lambda>_. [])\<rparr>"

lemma idle_bridge: "idle idle_bridge"
  by (simp add: idle_def idle_bridge_def)

definition demo_service :: service where
  "demo_service = \<lparr>sv_create = (\<lambda>_. Some 0), sv_retrypolicy = True, sv_events = (\<lambda>_ _. []),
     sv_result = (\<lambda>_. 0), sv_signal = (\<lambda>n. n = 3), sv_destroy = (\<lambda>_. [])\<rparr>"

definition demo_mount :: lws_http_mount where
  "demo_mount = \<lparr>mountpoint = ''/'', origin = None, mount_def = ''index.html'', mountpoint_len = 1\<rparr>"

theorem backend_run_returns_witness:
  "\<exists>s'. backend_run demo_env demo_service (Some demo_list) False False ''localhost'' 7681 None None [] demo_mount
     idle_bridge = Some (Inr (0, s'))"
proof -
  have "1024 + unat (e_lws_pre demo_env) < 2 ^ 64" "e_malloc demo_env n" for n
    by (simp_all add: demo_env_def)
  moreover have "sv_create demo_service i \<noteq> None" "lawful demo_env demo_service b"
    "sv_signal demo_service 3 \<or> sv_result demo_service 3 < 0" for i b
    by (simp_all add: demo_service_def lawful_def)
  ultimately show ?thesis
    using backend_run_returns [OF idle_bridge demo_list_wf, of demo_env demo_service 3] by blast
qed

text \<open>
  C40: when the backend cannot be set up, \<open>backend_run\<close> returns without entering the service
  loop: -1 without memory for the read buffer, -2 without memory for the dictionary, -4 when
  libwebsockets makes no context; the memory it had allocated is free again.
\<close>

theorem backend_run_errors:
  assumes "idle s"
  shows "case (e_malloc E (tick (core s)), e_malloc E (Suc (tick (core s))),
      snd (frontend_start S (the_backend l (tick (core s))) hc fm host port crt kp protos mnt)) of
    (False, _, _) \<Rightarrow> \<exists>s'. backend_run E S (Some l) hc fm host port crt kp protos mnt s = Some (Inr (-1, s')) \<and>
        blocks (core s') = Map.empty \<and> log (core s') = log (core s)
  | (True, False, _) \<Rightarrow> \<exists>s'. backend_run E S (Some l) hc fm host port crt kp protos mnt s = Some (Inr (-2, s')) \<and>
        blocks (core s') = Map.empty \<and> dicts (core s') = Map.empty \<and> log (core s') = log (core s)
  | (True, True, None) \<Rightarrow> \<exists>s'. backend_run E S (Some l) hc fm host port crt kp protos mnt s = Some (Inr (-4, s')) \<and>
        blocks (core s') = Map.empty \<and> dicts (core s') = Map.empty \<and> log (core s') = log (core s)
  | (True, True, Some ctx) \<Rightarrow> True"
proof -
  let ?n = "tick (core s)"
  from assms have e: "blocks (core s) = Map.empty" "dicts (core s) = Map.empty" by (simp_all add: idle_def)
  consider "\<not> e_malloc E ?n" | "e_malloc E ?n" "\<not> e_malloc E (Suc ?n)"
    | "e_malloc E ?n" "e_malloc E (Suc ?n)" by blast
  then show ?thesis
  proof cases
    case 1
    with e show ?thesis by (simp add: backend_run_def malloc_block_def)
  next
    case 2
    with e show ?thesis
      by (simp add: backend_run_def malloc_block_def dict_init_def backend_exit_def free_block_def with_core_def Let_def)
  next
    case 3
    let ?b = "the_backend l ?n"
    show ?thesis
    proof (cases "snd (frontend_start S ?b hc fm host port crt kp protos mnt)")
      case None
      then obtain info where "frontend_start S ?b hc fm host port crt kp protos mnt = (info, None)"
        by (cases "frontend_start S ?b hc fm host port crt kp protos mnt") simp
      with 3 have run: "backend_run E S (Some l) hc fm host port crt kp protos mnt s =
          Some (with_core (begun s) (backend_exit (-4) ?b (core (begun s))))"
        by (simp add: backend_run_def malloc_block_def dict_init_def begun_def Let_def flip: the_backend_def)
      have "no_table (Suc ?n) (core (begun s))" by (simp add: no_table_def begun_def)
      from dict_deinit_no_table [OF this] have "\<exists>t. backend_exit (-4) ?b (core (begun s)) = Inr (-4, t) \<and>
          blocks t = Map.empty \<and> dicts t = Map.empty \<and> log t = log (core s)"
        using e by (auto simp: backend_exit_def free_block_def the_backend_def begun_def Let_def)
      with run 3 None show ?thesis by (auto simp: with_core_def)
    next
      case (Some ctx)
      with 3 show ?thesis by simp
    qed
  qed
qed

definition poor_env :: "nat \<Rightarrow> env" where
  "poor_env k = demo_env\<lparr>e_malloc := (\<lambda>n. n < k)\<rparr>"

theorem backend_run_errors_witness:
  "\<exists>s'. backend_run (poor_env 1) demo_service (Some demo_list) False False ''localhost'' 7681 None None []
     demo_mount idle_bridge = Some (Inr (-2, s')) \<and> blocks (core s') = Map.empty"
proof -
  have "e_malloc (poor_env 1) (tick (core idle_bridge))" "\<not> e_malloc (poor_env 1) (Suc (tick (core idle_bridge)))"
    by (simp_all add: poor_env_def idle_bridge_def)
  with backend_run_errors [OF idle_bridge, where E = "poor_env 1" and S = demo_service and l = demo_list
      and hc = False and fm = False and host = "''localhost''" and port = 7681 and crt = None and kp = None
      and protos = "[]" and mnt = demo_mount]
  show ?thesis by auto
qed

end
