(* ===== verification/Callback_Props.thy ===== *)
theory Callback_Props
  imports Callbacks
begin

text \<open>
  The properties of the connections and of the callbacks, with a concrete served state for
  their witnesses: one session with a message waiting in each direction.
\<close>

section \<open>A served state\<close>

definition demo_conn :: conn_t where
  "demo_conn = \<lparr>fd_ds = 3, sock_handle = Some 0,
     mqweb = \<lparr>stqh_first = To 6, stqh_last = LNext 6\<rparr>, mqlocal = \<lparr>stqh_first = To 8, stqh_last = LNext 8\<rparr>\<rparr>"

definition demo_block :: bytes where
  "demo_block = replicate 16 None @ [Some 72]"

definition demo_state :: fheap where
  "demo_state = \<lparr>tick = 10, log = [], live = {},
     blocks = [0 \<mapsto> replicate 4 None, 7 \<mapsto> demo_block, 9 \<mapsto> [Some 65]],
     msgs = [6 \<mapsto> \<lparr>m_data = 7, m_size = 17, m_next = Null\<rparr>, 8 \<mapsto> \<lparr>m_data = 9, m_size = 1, m_next = Null\<rparr>],
     items = Map.empty, tbls = Map.empty, dicts = [1 \<mapsto> \<lparr>d_size = 1, d_base = None\<rparr>],
     conns = [5 \<mapsto> demo_conn],
     psss = [2 \<mapsto> \<lparr>lwsi = Some 31, conn_handle = Some 5\<rparr>, 3 \<mapsto> \<lparr>lwsi = None, conn_handle = None\<rparr>],
     vhds = [4 \<mapsto> \<lparr>context_id = Some 0, vhost = Some 0, protocol = Some ''otdb''\<rparr>]\<rparr>"

definition demo_backend :: backend_t where
  "demo_backend = \<lparr>socklist = Some demo_list, buf = Some 0, bufsize = 4, filedict = Some 1\<rparr>"

definition demo_queues :: "addr \<times> dir \<Rightarrow> addr list" where
  "demo_queues = (\<lambda>_. [])((5, Web) := [6], (5, Local) := [8])"

definition demo_contents :: "addr \<times> dir \<Rightarrow> bytes list" where
  "demo_contents = (\<lambda>_. [])((5, Web) := [demo_block], (5, Local) := [[Some 65]])"

lemma demo_qs: "qs demo_state [0 \<mapsto> 4] demo_queues {}"
  unfolding qs_def
proof (intro conjI)
  show "heap_wf demo_state"
    by (auto simp: heap_wf_def demo_state_def demo_block_def split: if_split_asm)
  show "foreign demo_state [0 \<mapsto> 4]"
    by (auto simp: foreign_def demo_state_def split: if_split_asm)
  show "queued demo_state demo_queues"
  proof (rule queuedI)
    fix c cn assume c: "conns demo_state c = Some cn"
    then show "c < tick demo_state" by (simp add: demo_state_def split: if_split_asm)
    from c have "c = 5" "cn = demo_conn" by (simp_all add: demo_state_def split: if_split_asm)
    then show "mq_rep demo_state (cq d cn) (demo_queues (c, d))" for d
      by (cases d) (simp_all add: demo_conn_def cq_def mq_rep_def demo_state_def demo_queues_def)
  next
    fix c d assume "conns demo_state c = None"
    then show "demo_queues (c, d) = []" by (simp add: demo_state_def demo_queues_def split: if_split_asm)
  qed
  show "placed (dom (msgs demo_state)) demo_queues {}"
  proof (rule placedI)
    have "set (demo_queues x) \<subseteq> {6, 8}" for x by (auto simp: demo_queues_def)
    moreover have "6 \<in> set (demo_queues (5, Web))" "8 \<in> set (demo_queues (5, Local))"
      by (simp_all add: demo_queues_def)
    ultimately have "(\<Union>x. set (demo_queues x)) = {6, 8}" by blast
    moreover have "dom (msgs demo_state) = {6, 8}" by (auto simp: demo_state_def split: if_split_asm)
    ultimately show "dom (msgs demo_state) = (\<Union>x. set (demo_queues x)) \<union> {}" by simp
  qed (auto simp: demo_queues_def)
qed

lemma demo_served: "served demo_backend demo_state demo_contents"
proof -
  have "demo_contents x = map (msg_bytes demo_state) (demo_queues x)" for x
    by (auto simp: demo_contents_def demo_queues_def msg_bytes_def demo_state_def)
  with demo_qs have "holds demo_state [0 \<mapsto> 4] demo_contents" by (rule holdsI)
  moreover have "no_table 1 demo_state" by (simp add: no_table_def demo_state_def)
  moreover have "linked demo_list demo_state"
    by (simp add: linked_def demo_state_def demo_conn_def slot_path_def demo_list_def new_entry_def)
  ultimately show ?thesis using demo_list_wf by (simp add: served_def demo_backend_def)
qed

lemma demo_conns: "conns demo_state 5 = Some demo_conn"
  by (simp add: demo_state_def)

section \<open>Properties of connections\<close>

text \<open>
  C31: in a served bridge \<open>conn_new\<close> succeeds exactly when the name is bridged, the path is still
  a socket, \<open>socket(2)\<close> gives a descriptor and both allocations succeed. On success the one new
  connection has the new descriptor, points to the table entry with the path the name is bridged
  to, and has empty queues. On failure no connection is made, and a descriptor that was opened has
  been closed again. The bridge stays served either way, with the same queue contents.
\<close>

theorem conn_new_outcome:
  assumes "served b s I" "socklist b = Some l"
  shows "\<exists>r s'. conn_new E (Some b) (Some w) s = Inr (r, s') \<and> served b s' I \<and>
    (r \<noteq> None \<longleftrightarrow> can_open E b w (tick s)) \<and>
    (case r of
       None \<Rightarrow> conns s' = conns s \<and> (\<exists>es. log s' = log s @ es \<and>
           (es = [] \<or> (\<exists>fd < 0. es = [IoSocket fd]) \<or> (\<exists>fd. es = [IoSocket fd, IoClose fd])))
     | Some c \<Rightarrow> conns s c = None \<and>
         (\<exists>fd i path. 0 \<le> fd \<and> log s' = log s @ [IoSocket fd] \<and> bridged l w = Some path \<and>
            slot_path l i = Some path \<and>
            conns s' = (conns s)(c \<mapsto> \<lparr>fd_ds = fd, sock_handle = Some i, mqweb = mq_init, mqlocal = mq_init\<rparr>)))"
proof -
  from conn_new_served [OF assms, of E w] obtain r s' where
    "conn_new E (Some b) (Some w) s = Inr (r, s') \<and> served b s' I"
    and r: "case r of
       None \<Rightarrow> \<not> can_open E b w (tick s) \<and> conns s' = conns s \<and>
         (\<exists>es. log s' = log s @ es \<and>
           (es = [] \<or> (\<exists>fd < 0. es = [IoSocket fd]) \<or> (\<exists>fd. es = [IoSocket fd, IoClose fd])))
     | Some c \<Rightarrow> can_open E b w (tick s) \<and> conns s c = None \<and> tick s \<le> c \<and> tick s' = tick s + 4 \<and>
         (\<exists>fd i. 0 \<le> fd \<and> log s' = log s @ [IoSocket fd] \<and> bridged l w \<noteq> None \<and>
            slot_path l i = bridged l w \<and> conns s' = (conns s)(c \<mapsto> fresh_conn fd i))" by blast
  with r show ?thesis
    by (intro exI [of _ r] exI [of _ s']) (cases r; auto simp: fresh_conn_def)
qed

theorem conn_new_outcome_witness:
  "\<exists>c s'. conn_new demo_env (Some demo_backend) (Some ''otdb'') demo_state = Inr (Some c, s') \<and>
     served demo_backend s' demo_contents"
proof -
  have l: "socklist demo_backend = Some demo_list" by (simp add: demo_backend_def)
  have "can_open demo_env demo_backend ''otdb'' (tick demo_state)"
    by (simp add: can_open_def l demo_list_bridged) (simp add: demo_env_def)
  with conn_new_outcome [OF demo_served l, of demo_env "''otdb''"] show ?thesis by auto
qed

text \<open>
  \<open>conn_open\<close> connects the descriptor of the connection to its daemon: a reader of the
  address sees the bridged path when it is shorter than the 104 bytes of the buffer; a longer
  path is cut to 104 characters and its buffer is not terminated.
\<close>

theorem conn_open_address:
  assumes "conns s c = Some cn" "sock_handle cn = Some i" "slot_path l i = Some path"
    and "CHR 0x00 \<notin> set path"
  shows "\<exists>rc addr. conn_open E l (Some c) s = Inr (rc, emit (IoConnect (fd_ds cn) addr rc) (step s)) \<and>
    length addr = 104 \<and> cstring addr = take 104 path \<and> (CHR 0x00 \<in> set addr \<longleftrightarrow> length path < 104)"
proof -
  have "CHR 0x00 \<in> set (strncpy UNIX_PATH_MAX path) \<longleftrightarrow> length path < 104"
    using assms(4) by (auto simp: strncpy_def UNIX_PATH_MAX_def dest: in_set_takeD)
  moreover have "cstring (strncpy UNIX_PATH_MAX path) = take 104 path"
    using cstring_strncpy [OF assms(4)] by (simp add: UNIX_PATH_MAX_def)
  moreover have "length (strncpy UNIX_PATH_MAX path) = 104" by (simp add: UNIX_PATH_MAX_def)
  ultimately show ?thesis using conn_open_linked [OF assms(1-3), of E] by blast
qed

theorem conn_open_address_witness:
  "\<exists>rc addr. conn_open demo_env demo_list (Some 5) demo_state
     = Inr (rc, emit (IoConnect 3 addr rc) (step demo_state)) \<and> cstring addr = ''/run/b''"
proof -
  have "sock_handle demo_conn = Some 0" "slot_path demo_list 0 = Some ''/run/b''" "CHR 0x00 \<notin> set ''/run/b''"
    by (simp_all add: demo_conn_def slot_path_def demo_list_def new_entry_def)
  from conn_open_address [OF demo_conns this, of demo_env] show ?thesis by (auto simp: demo_conn_def)
qed

text \<open>
  \<open>conn_putmsg_forlocal\<close> on a live connection puts exactly the given bytes at the end of the
  local queue, or, without memory, returns -2 and changes no queue; \<open>conn_putmsg_forweb\<close> does the
  same with \<open>LWS_PRE\<close> bytes of room in front, provided the sum of the sizes does not wrap around.
\<close>

theorem conn_putmsg_appends:
  assumes "holds s B I" "conns s c = Some cn" "len \<noteq> 0" "unat len \<le> length xs" "unat len + unat (e_lws_pre E) < 2 ^ 64"
  shows "(\<exists>s'. conn_putmsg_forlocal E (Some c) (Some xs) len s = Inr (if room E (tick s) then 0 else -2, s') \<and>
      holds s' B (if room E (tick s) then I((c, Local) := I (c, Local) @ [take (unat len) xs]) else I)) \<and>
    (\<exists>s'. conn_putmsg_forweb E (Some c) (Some xs) len s = Inr (if room E (tick s) then 0 else -2, s') \<and>
      holds s' B (if room E (tick s)
        then I((c, Web) := I (c, Web) @ [replicate (unat (e_lws_pre E)) None @ take (unat len) xs]) else I))"
  using putmsg_forlocal_holds [OF assms(1-4), of E] putmsg_forweb_holds [OF assms(1-5)]
  by (auto simp: web_block_def)

theorem conn_putmsg_appends_witness:
  "\<exists>s'. conn_putmsg_forlocal demo_env (Some 5) (Some [Some 1, Some 2]) 2 demo_state = Inr (0, s') \<and>
     holds s' [0 \<mapsto> 4] (demo_contents((5, Local) := [[Some 65], [Some 1, Some 2]]))"
proof -
  have h: "holds demo_state [0 \<mapsto> 4] demo_contents"
    using demo_served by (simp add: served_def demo_backend_def)
  have "(2 :: size_t) \<noteq> 0" "unat (2 :: size_t) \<le> length [Some 1, Some (2 :: byte)]" "unat (2 :: size_t) + unat (e_lws_pre demo_env) < 2 ^ 64"
    by (simp_all add: demo_env_def)
  moreover have "room demo_env n" for n by (simp add: room_def demo_env_def)
  moreover have "demo_contents (5, Local) = [[Some 65]]" by (simp add: demo_contents_def)
  ultimately show ?thesis
    using conn_putmsg_appends [OF h demo_conns, of 2 "[Some 1, Some 2]" demo_env] by simp
qed

section \<open>Properties of the callbacks\<close>

lemma writes_map2:
  "writes fd bss es \<Longrightarrow> \<exists>rcs. length rcs = length bss \<and> es = map2 (\<lambda>bs rc. IoWrite fd bs rc) bss rcs"
proof (unfold writes_def, induction bss es rule: list_all2_induct)
  case (Cons bs bss e es)
  then obtain rc rcs where "e = IoWrite fd bs rc" "length rcs = length bss"
    "es = map2 (\<lambda>bs rc. IoWrite fd bs rc) bss rcs" by blast
  then show ?case by (intro exI [of _ "rc # rcs"]) simp
qed simp

text \<open>
  C33: when the raw socket is writeable, the callback hands every waiting message to \<open>write(2)\<close>,
  in order, whole and once, and the queue is empty afterwards; the fuel of the loop is enough.
  What \<open>write\<close> answered makes no difference: a message that was written in part, or not at all,
  is gone.
\<close>

theorem raw_writeable_drains:
  assumes "served b s I" "conns s c = Some cn" "[] \<notin> set (I (c, Local))"
    and "cb_backend x = Some b" "cb_opaque x = Some c"
  shows "\<exists>s' rcs. frontend_cli_callback E LWS_CALLBACK_RAW_WRITEABLE_FILE x s = Inr (0, s') \<and>
    served b s' (I((c, Local) := [])) \<and> length rcs = length (I (c, Local)) \<and>
    log s' = log s @ map2 (\<lambda>bs rc. IoWrite (fd_ds cn) bs rc) (I (c, Local)) rcs"
proof -
  from raw_writeable [OF assms, of E] obtain s' es where
    s': "frontend_cli_callback E LWS_CALLBACK_RAW_WRITEABLE_FILE x s = Inr (0, s')"
      "served b s' (I((c, Local) := []))" "log s' = log s @ es" and "writes (fd_ds cn) (I (c, Local)) es"
    by blast
  from writes_map2 [OF this(4)] s' show ?thesis by blast
qed

definition demo_call :: "addr \<Rightarrow> bytes \<Rightarrow> cb" where
  "demo_call p inp = \<lparr>cb_wsi = 30, cb_user = Some p, cb_in = Some inp, cb_len = of_nat (length inp),
     cb_backend = Some demo_backend, cb_opaque = Some 5, cb_parent = Some 30, cb_vhd = Some 4,
     cb_context = 0, cb_vhost = 0, cb_protocol = []\<rparr>"

lemma demo_call_sel [simp]:
  "cb_wsi (demo_call p i) = 30" "cb_user (demo_call p i) = Some p" "cb_in (demo_call p i) = Some i"
  "cb_len (demo_call p i) = of_nat (length i)" "cb_backend (demo_call p i) = Some demo_backend"
  "cb_opaque (demo_call p i) = Some 5" "cb_parent (demo_call p i) = Some 30" "cb_vhd (demo_call p i) = Some 4"
  by (simp_all add: demo_call_def)

lemma demo_contents_sel [simp]:
  "demo_contents (5, Local) = [[Some 65]]" "demo_contents (5, Web) = [demo_block]"
  by (simp_all add: demo_contents_def)

lemma demo_psss [simp]:
  "psss demo_state 2 = Some \<lparr>lwsi = Some 31, conn_handle = Some 5\<rparr>"
  "psss demo_state 3 = Some \<lparr>lwsi = None, conn_handle = None\<rparr>"
  by (simp_all add: demo_state_def)

theorem raw_writeable_drains_witness:
  "\<exists>s' rc. frontend_cli_callback demo_env LWS_CALLBACK_RAW_WRITEABLE_FILE (demo_call 2 []) demo_state = Inr (0, s') \<and>
     log s' = [IoWrite 3 [Some 65] rc]"
proof -
  have "[] \<notin> set (demo_contents (5, Local))" by simp
  from raw_writeable_drains [OF demo_served demo_conns this, of "demo_call 2 []" demo_env]
  obtain s' rcs where "frontend_cli_callback demo_env LWS_CALLBACK_RAW_WRITEABLE_FILE (demo_call 2 []) demo_state
      = Inr (0, s')" "length rcs = 1"
    "log s' = log demo_state @ map2 (\<lambda>bs rc. IoWrite (fd_ds demo_conn) bs rc) [[Some 65]] rcs" by auto
  moreover have "log demo_state = []" "fd_ds demo_conn = 3" by (simp_all add: demo_state_def demo_conn_def)
  ultimately show ?thesis by (cases rcs) auto
qed

text \<open>
  C34: when the websocket is writeable, the callback sends a prefix of the waiting messages, in
  order, one \<open>lws_write\<close> each; if it stops early it has asked to be called again and the rest is
  still queued. A frame is the bytes of the block from \<open>LWS_PRE\<close> on, as many as the whole block is
  long: for a payload \<open>xs\<close> put by the bridge it is \<open>xs\<close> followed by \<open>LWS_PRE\<close> bytes from beyond the
  block.
\<close>

theorem server_writeable_frames:
  assumes "served b s I" "conns s c = Some cn"
    and "cb_user x = Some p" "psss s p = Some pss" "conn_handle pss = Some c"
  shows "\<exists>s' bms rest. frontend_ws_callback E LWS_CALLBACK_SERVER_WRITEABLE x s = Inr (frames_rc bms, s') \<and>
    I (c, Web) = map fst bms @ rest \<and> served b s' (I((c, Web) := rest)) \<and>
    log s' = log s @ concat (map (\<lambda>(bs, m).
        LwsFrame (cb_wsi x) (peek bs (unat (e_lws_pre E)) (length bs)) m #
        (if short_write m bs then [LwsErr m] else [])) bms) @
      (if rest = [] then [] else [LwsWritable (Some (cb_wsi x))]) \<and>
    (\<forall>xs. peek (web_block E xs) (unat (e_lws_pre E)) (length (web_block E xs))
        = xs @ replicate (unat (e_lws_pre E)) None)"
proof -
  have "frames_log E w bms = concat (map (\<lambda>(bs, m).
        LwsFrame w (peek bs (unat (e_lws_pre E)) (length bs)) m #
        (if short_write m bs then [LwsErr m] else [])) bms)" for w bms
    by (auto simp: frames_log_def frame_log_def web_frame_def split_def intro!: arg_cong [where f = concat])
  with server_writeable [OF assms, of E] web_frame_block [of E] show ?thesis
    by (fastforce simp: web_frame_def)
qed

theorem server_writeable_frames_witness:
  "\<exists>s' bms rest. frontend_ws_callback demo_env LWS_CALLBACK_SERVER_WRITEABLE (demo_call 2 []) demo_state
     = Inr (frames_rc bms, s') \<and> [demo_block] = map fst bms @ rest"
proof -
  have "conn_handle \<lparr>lwsi = Some 31, conn_handle = Some 5\<rparr> = Some 5" by simp
  from server_writeable_frames [OF demo_served demo_conns _ _ this, of "demo_call 2 []" 2 demo_env]
  show ?thesis by auto
qed

text \<open>
  \<open>lws_write\<close> reports a failed connection with -1, but the callback converts the result to
  \<open>size_t\<close> before it compares it with the size: if every write fails it logs no error and
  returns 0, and every message it took is gone.
\<close>

theorem lws_write_failure_unseen:
  assumes "served b s I" "conns s c = Some cn"
    and "cb_user x = Some p" "psss s p = Some pss" "conn_handle pss = Some c"
    and "\<forall>n. e_lws_write E n = -1" "\<forall>n. \<not> e_partial E n \<and> \<not> e_choked E n"
  shows "\<exists>s'. frontend_ws_callback E LWS_CALLBACK_SERVER_WRITEABLE x s = Inr (0, s') \<and>
    served b s' (I((c, Web) := [])) \<and> (\<exists>es. log s' = log s @ es \<and> (\<forall>n. LwsErr n \<notin> set es))"
proof -
  from server_writeable [OF assms(1-5), of E] obtain s' bms rest where
    w: "frontend_ws_callback E LWS_CALLBACK_SERVER_WRITEABLE x s = Inr (frames_rc bms, s')"
      "served b s' (I((c, Web) := rest))" "answered E bms"
      "rest \<noteq> [] \<longrightarrow> (\<exists>n. e_partial E n \<or> e_choked E n)"
      "log s' = log s @ frames_log E (cb_wsi x) bms @
        (if rest = [] then [] else [LwsWritable (Some (cb_wsi x))])" by blast
  from w(4) assms(7) have rest: "rest = []" by blast
  have ok: "\<not> short_write m bs" if "(bs, m) \<in> set bms" for bs m
  proof -
    from w(3) that obtain n where "snd (bs, m) = e_lws_write E n" unfolding answered_def by blast
    with assms(6) have "m = -1" by simp
    then show ?thesis by (simp add: short_write_negative)
  qed
  then have "frames_rc bms = 0" by (auto simp: frames_rc_def list_ex_iff)
  moreover have "\<forall>n. LwsErr n \<notin> set (frames_log E (cb_wsi x) bms)"
    using ok by (auto simp: frames_log_def frame_log_def)
  ultimately show ?thesis using w(1,2,5) rest by auto
qed

definition broken_env :: env where
  "broken_env = demo_env\<lparr>e_lws_write := (\<lambda>_. -1)\<rparr>"

theorem lws_write_failure_unseen_witness:
  "\<exists>s'. frontend_ws_callback broken_env LWS_CALLBACK_SERVER_WRITEABLE (demo_call 2 []) demo_state = Inr (0, s') \<and>
     served demo_backend s' (demo_contents((5, Web) := []))"
proof -
  have env: "\<forall>n. e_lws_write broken_env n = -1" "\<forall>n. \<not> e_partial broken_env n \<and> \<not> e_choked broken_env n"
    by (simp_all add: broken_env_def demo_env_def)
  have "conn_handle \<lparr>lwsi = Some 31, conn_handle = Some 5\<rparr> = Some 5" by simp
  from lws_write_failure_unseen [OF demo_served demo_conns _ _ this env, of "demo_call 2 []" 2]
  show ?thesis by auto
qed

text \<open>
  C32: establishing a websocket whose name can be opened returns 0 and does, in this order:
  create the daemon socket, put the session on the list, connect the socket to the bridged path,
  adopt it as a raw child of the websocket, and give the connection to the child; the session
  then has the new connection and the child. The result of \<open>connect\<close> is not looked at, and a child
  that is NULL because it could not be adopted is handed on all the same.
\<close>

theorem established_opens:
  assumes "served b s I" "cb_backend x = Some b" "cb_user x = Some p" "psss s p = Some pss"
    and "cb_vhd x = Some v" "vhds s v = Some vhd" "protocol vhd = Some w"
    and "socklist b = Some l" "can_open E b w (tick s)"
  shows "\<exists>s' c fd path rc child. frontend_ws_callback E LWS_CALLBACK_ESTABLISHED x s = Inr (0, s') \<and>
    served b s' I \<and> conns s c = None \<and> bridged l w = Some path \<and>
    map_option fd_ds (conns s' c) = Some fd \<and>
    psss s' p = Some (pss\<lparr>conn_handle := Some c, lwsi := child\<rparr>) \<and>
    log s' = log s @ [IoSocket fd, LwsInsert p, IoConnect fd (strncpy UNIX_PATH_MAX path) rc,
      LwsAdopt fd LWS_ADOPT_RAW_FILE_DESC ''CLI'' (cb_wsi x) child, LwsOpaque child (Some c)]"
proof -
  from established_ok [OF assms] obtain s' c fd i path rc child where
    "frontend_ws_callback E LWS_CALLBACK_ESTABLISHED x s = Inr (0, s')" "served b s' I"
    "conns s c = None" "conns s' = (conns s)(c \<mapsto> fresh_conn fd i)" "bridged l w = Some path"
    "psss s' = (psss s)(p \<mapsto> pss\<lparr>conn_handle := Some c, lwsi := child\<rparr>)"
    "log s' = log s @ opened fd p path rc (cb_wsi x) child c" by blast
  then show ?thesis
    by (intro exI [of _ s'] exI [of _ c] exI [of _ fd] exI [of _ path] exI [of _ rc] exI [of _ child])
       (simp add: opened_def fresh_conn_def)
qed

theorem established_opens_witness:
  "\<exists>s' c. frontend_ws_callback demo_env LWS_CALLBACK_ESTABLISHED (demo_call 3 []) demo_state = Inr (0, s') \<and>
     conns demo_state c = None \<and> conns s' c \<noteq> None"
proof -
  have l: "socklist demo_backend = Some demo_list" by (simp add: demo_backend_def)
  have can: "can_open demo_env demo_backend ''otdb'' (tick demo_state)"
    by (simp add: can_open_def l demo_list_bridged) (simp add: demo_env_def)
  have v: "vhds demo_state 4 = Some \<lparr>context_id = Some 0, vhost = Some 0, protocol = Some ''otdb''\<rparr>"
    by (simp add: demo_state_def)
  from established_opens [OF demo_served _ _ _ _ v _ l can, of "demo_call 3 []" 3]
  show ?thesis by fastforce
qed

text \<open>
  A session whose name cannot be opened is rejected with -1: no connection is made, its
  session object has no connection, and a descriptor that was opened on the way is closed.
\<close>

theorem established_rejects:
  assumes "served b s I" "cb_backend x = Some b" "cb_user x = Some p" "psss s p = Some pss"
    and "cb_vhd x = Some v" "vhds s v = Some vhd" "protocol vhd = Some w"
    and "socklist b = Some l" "\<not> can_open E b w (tick s)"
  shows "\<exists>s' es. frontend_ws_callback E LWS_CALLBACK_ESTABLISHED x s = Inr (-1, s') \<and>
    served b s' I \<and> conns s' = conns s \<and> psss s' p = Some (pss\<lparr>conn_handle := None\<rparr>) \<and>
    log s' = log s @ es \<and> (\<forall>fd \<ge> 0. IoSocket fd \<in> set es \<longrightarrow> IoClose fd \<in> set es)"
proof -
  from established_fails [OF assms] obtain s' es where
    "frontend_ws_callback E LWS_CALLBACK_ESTABLISHED x s = Inr (-1, s')" "served b s' I"
    "conns s' = conns s" "psss s' = (psss s)(p \<mapsto> pss\<lparr>conn_handle := None\<rparr>)" "log s' = log s @ es"
    "es = [] \<or> (\<exists>fd < 0. es = [IoSocket fd]) \<or> (\<exists>fd. es = [IoSocket fd, IoClose fd])" by blast
  then show ?thesis by (intro exI [of _ s'] exI [of _ es]) auto
qed

definition gone_env :: env where
  "gone_env = demo_env\<lparr>e_stat := (\<lambda>_ _. None)\<rparr>"

theorem established_rejects_witness:
  "\<exists>s'. frontend_ws_callback gone_env LWS_CALLBACK_ESTABLISHED (demo_call 3 []) demo_state = Inr (-1, s') \<and>
     conns s' = conns demo_state"
proof -
  have l: "socklist demo_backend = Some demo_list" by (simp add: demo_backend_def)
  have cannot: "\<not> can_open gone_env demo_backend ''otdb'' (tick demo_state)"
    by (simp add: can_open_def l demo_list_bridged) (simp add: gone_env_def)
  have v: "vhds demo_state 4 = Some \<lparr>context_id = Some 0, vhost = Some 0, protocol = Some ''otdb''\<rparr>"
    by (simp add: demo_state_def)
  from established_rejects [OF demo_served _ _ _ _ v _ l cannot, of "demo_call 3 []" 3]
  show ?thesis by auto
qed

text \<open>
  What a websocket sends is queued for the daemon, as the bytes it sent, and the raw child
  is asked to be written; what the daemon sends (at most a buffer full, the bytes read) is queued
  for the websocket and the websocket is asked to be written; nothing is queued and nobody is
  asked when the read fails or returns nothing. Other queues keep their contents.
\<close>

theorem data_in:
  assumes "served b s I" "conns s c = Some cn" "cb_backend x = Some b"
    and "cb_user x = Some p" "psss s p = Some pss" "conn_handle pss = Some c" "cb_opaque x = Some c"
    and "cb_in x = Some inp" "cb_len x = of_nat (length inp)" "inp \<noteq> []" "length inp < 2 ^ 64"
    and "unat (bufsize b) + unat (e_lws_pre E) < 2 ^ 64" "\<forall>n. e_malloc E n"
  shows "(\<exists>s'. frontend_ws_callback E LWS_CALLBACK_RECEIVE x s = Inr (0, s') \<and>
      served b s' (I((c, Local) := I (c, Local) @ [inp])) \<and>
      log s' = log s @ [LwsWritable (lwsi pss)]) \<and>
    (\<exists>s'. frontend_cli_callback E LWS_CALLBACK_RAW_RX_FILE x s = Inr (0, s') \<and>
      (let r = map_option (take (unat (bufsize b))) (e_read E (tick s)) in
       if r = None \<or> r = Some []
       then served b s' I \<and> log s' = log s @ [IoRead (fd_ds cn) r]
       else served b s' (I((c, Web) := I (c, Web) @ [web_block E (map Some (the r))])) \<and>
         log s' = log s @ [IoRead (fd_ds cn) r, LwsWritable (cb_parent x)]))"
proof
  have len: "unat (cb_len x) = length inp" using assms(9,11) by (simp add: unat_of_nat)
  with assms(10) have "cb_len x \<noteq> 0" by auto
  from ws_receive [OF assms(1,2,4,5,6,8) this, of E] assms(13) len
  show "\<exists>s'. frontend_ws_callback E LWS_CALLBACK_RECEIVE x s = Inr (0, s') \<and>
      served b s' (I((c, Local) := I (c, Local) @ [inp])) \<and> log s' = log s @ [LwsWritable (lwsi pss)]"
    by (auto simp: enq_def room_def)
next
  have room: "room E n" for n using assms(13) by (simp add: room_def)
  from raw_rx [OF assms(1,2,3,7,12)] obtain s' where
    s': "frontend_cli_callback E LWS_CALLBACK_RAW_RX_FILE x s = Inr (0, s')"
    "case read_at E b (tick s) of
       Some (y # ys) \<Rightarrow>
         served b s' (enq (room E (Suc (tick s))) (c, Web) (web_block E (map Some (y # ys))) I) \<and>
         log s' = log s @ [IoRead (fd_ds cn) (Some (y # ys)), LwsWritable (cb_parent x)]
     | r \<Rightarrow> served b s' I \<and> log s' = log s @ [IoRead (fd_ds cn) r]" by blast
  show "\<exists>s'. frontend_cli_callback E LWS_CALLBACK_RAW_RX_FILE x s = Inr (0, s') \<and>
      (let r = map_option (take (unat (bufsize b))) (e_read E (tick s)) in
       if r = None \<or> r = Some []
       then served b s' I \<and> log s' = log s @ [IoRead (fd_ds cn) r]
       else served b s' (I((c, Web) := I (c, Web) @ [web_block E (map Some (the r))])) \<and>
         log s' = log s @ [IoRead (fd_ds cn) r, LwsWritable (cb_parent x)])"
    using s' unfolding read_at_def [symmetric]
    by (intro exI [of _ s']) (auto simp: enq_def room Let_def split: option.splits list.splits)
qed

theorem data_in_witness:
  "\<exists>s'. frontend_ws_callback demo_env LWS_CALLBACK_RECEIVE (demo_call 2 [Some 9]) demo_state = Inr (0, s') \<and>
     served demo_backend s' (demo_contents((5, Local) := [[Some 65], [Some 9]]))"
proof -
  have "unat (bufsize demo_backend) + unat (e_lws_pre demo_env) < 2 ^ 64" "\<forall>n. e_malloc demo_env n"
    by (simp_all add: demo_backend_def demo_env_def)
  from data_in [OF demo_served demo_conns _ _ _ _ _ _ _ _ _ this, of "demo_call 2 [Some 9]" 2 _ "[Some 9]"]
  show ?thesis by fastforce
qed

text \<open>
  When a raw socket closes, its descriptor is closed, but its connection and every message
  queued on it stay allocated: \<open>conn_del\<close> looks the connection up in a dictionary that is empty.
\<close>

theorem raw_close_leaks:
  assumes "served b s I" "conns s c = Some cn" "cb_backend x = Some b" "cb_opaque x = Some c"
  shows "\<exists>s'. frontend_cli_callback E LWS_CALLBACK_RAW_CLOSE_FILE x s = Inr (0, s') \<and>
    log s' = log s @ [IoClose (fd_ds cn)] \<and> conns s' = conns s \<and> msgs s' = msgs s \<and> blocks s' = blocks s \<and>
    served b s' I"
  using raw_close [OF assms, of E] by (intro exI [of _ "emit (IoClose (fd_ds cn)) s"]) simp

theorem raw_close_leaks_witness:
  "\<exists>s'. frontend_cli_callback demo_env LWS_CALLBACK_RAW_CLOSE_FILE (demo_call 2 []) demo_state = Inr (0, s') \<and>
     log s' = [IoClose 3] \<and> conns s' 5 = Some demo_conn"
  using raw_close_leaks [OF demo_served demo_conns, of "demo_call 2 []" demo_env]
  by (auto simp: demo_state_def demo_conn_def)

end
