(* ===== verification/Bridge_Script.thy ===== *)
theory Bridge_Script
  imports Backend_Run Callback_Props
begin

text \<open>
  Runs of the bridge on concrete events, for the witnesses: \<open>script\<close> delivers a list of events as
  long as the library may deliver them, so that the state it ends in is reachable.
\<close>

text \<open>Like \<open>enabled\<close>, but decidable by evaluation (a \<open>Ws_close\<close> asks about all children).\<close>

fun ready :: "env \<Rightarrow> bridge \<Rightarrow> event \<Rightarrow> bool" where
  "ready E s (Protocol_init nm) \<longleftrightarrow> e_malloc E (tick (core s))"
| "ready E s (Establish w p v) \<longleftrightarrow>
     open_ws s w = None \<and> raws s w = None \<and> psss (core s) p = None \<and> vhds (core s) v \<noteq> None"
| "ready E s (Receive w xs) \<longleftrightarrow> open_ws s w \<noteq> None \<and> w \<notin> doomed s \<and> length xs < 9"
| "ready E s (Ws_writeable w) \<longleftrightarrow> open_ws s w \<noteq> None \<and> w \<notin> doomed s \<and> Some w \<in> wants s"
| "ready E s (Ws_close w) \<longleftrightarrow> False"
| "ready E s (Raw_rx r) \<longleftrightarrow> raws s r \<noteq> None"
| "ready E s (Raw_writeable r) \<longleftrightarrow> raws s r \<noteq> None \<and> Some r \<in> wants s"
| "ready E s (Raw_close r) \<longleftrightarrow> raws s r \<noteq> None"

lemma ready_enabled: "ready E s e \<Longrightarrow> enabled E s e"
  by (cases e) simp_all

fun script :: "env \<Rightarrow> backend_t \<Rightarrow> event list \<Rightarrow> bridge \<Rightarrow> bridge option" where
  "script E b [] s = Some s"
| "script E b (e # es) s = (if ready E s e
     then case exec E b e s of Inl f \<Rightarrow> None
       | Inr s' \<Rightarrow> if list_all (fresh_child s) (calls s (core s')) then script E b es s' else None
     else None)"

lemma script_reach: "script E b es s = Some s' \<Longrightarrow> reach E b s s'"
proof (induction es arbitrary: s)
  case Nil
  then show ?case by (simp add: reach.start)
next
  case (Cons e es)
  then obtain s1 where s1: "ready E s e" "exec E b e s = Inr s1" "list_all (fresh_child s) (calls s (core s1))"
    "script E b es s1 = Some s'" by (auto split: if_split_asm sum.split_asm)
  from bstep.step [OF ready_enabled [OF s1(1)] s1(2,3)] have "reach E b s s1"
    by (rule reach.next_step [OF reach.start])
  with Cons.IH [OF s1(4)] show ?case by (rule reach_trans)
qed

lemma script_step: "script E b [e] s = Some s' \<Longrightarrow> bstep E b s e s'"
  by (auto split: if_split_asm sum.split_asm intro: bstep.step ready_enabled)

text \<open>
  A bridge with one table, one virtual host and one websocket, whose child is 8 and whose
  connection is at 6; in \<open>told_bridge\<close> it has sent a byte, in \<open>fed_bridge\<close> the daemon has.
\<close>

definition new_bridge :: bridge where
  "new_bridge = idle_bridge\<lparr>core := (core idle_bridge)
     \<lparr>tick := 2, blocks := [0 \<mapsto> replicate 4 None], dicts := [1 \<mapsto> \<lparr>d_size = 0, d_base = None\<rparr>]\<rparr>\<rparr>"

lemma new_bridge_fresh: "fresh_bridge demo_backend new_bridge"
  using demo_list_wf
  by (simp add: fresh_bridge_def new_bridge_def idle_bridge_def demo_backend_def no_table_def)

definition greeting :: "event list" where
  "greeting = [Protocol_init ''otdb'', Establish 1 50 2]"

definition open_bridge :: bridge where
  "open_bridge = the (script demo_env demo_backend greeting new_bridge)"

definition told_bridge :: bridge where
  "told_bridge = the (script demo_env demo_backend (greeting @ [Receive 1 [Some 7]]) new_bridge)"

definition fed_bridge :: bridge where
  "fed_bridge = the (script demo_env demo_backend (greeting @ [Raw_rx 8]) new_bridge)"

lemma scripts_run:
  "script demo_env demo_backend greeting new_bridge \<noteq> None"
  "script demo_env demo_backend (greeting @ [Receive 1 [Some 7]]) new_bridge \<noteq> None"
  "script demo_env demo_backend (greeting @ [Raw_rx 8]) new_bridge \<noteq> None"
  by code_simp+

lemma demo_reach:
  "reach demo_env demo_backend new_bridge open_bridge"
  "reach demo_env demo_backend new_bridge told_bridge"
  "reach demo_env demo_backend new_bridge fed_bridge"
  using scripts_run script_reach unfolding open_bridge_def told_bridge_def fed_bridge_def by fastforce+

lemma open_bridge_sel:
  "open_ws open_bridge 1 = Some (50, 2)" "raws open_bridge 8 = Some (Some 6, 1)"
  "conn_of open_bridge 50 = Some 6" "1 \<notin> doomed open_bridge"
  by code_simp+

lemma told_bridge_sel:
  "open_ws told_bridge 1 = Some (50, 2)" "raws told_bridge 8 = Some (Some 6, 1)"
  "conn_of told_bridge 50 = Some 6" "got told_bridge (6, Local) = [[Some 7]]"
  "conn_hasmsg_forlocal (Some 6) (core told_bridge) = Inr True"
  "Some 8 \<in> wants told_bridge"
  by code_simp+

lemma fed_bridge_sel:
  "open_ws fed_bridge 1 = Some (50, 2)" "conn_of fed_bridge 50 = Some 6"
  "got fed_bridge (6, Web) = [[Some 104, Some 105]]" "Some 1 \<in> wants fed_bridge" "1 \<notin> doomed fed_bridge"
  "conn_hasmsg_forweb (Some 6) (core fed_bridge) = Inr True"
  by code_simp+

lemma demo_fits: "unat (bufsize demo_backend) + unat (e_lws_pre demo_env) < 2 ^ 64"
  by (simp add: demo_backend_def demo_env_def)

end
