(* ===== verification/Bridge_Strict.thy ===== *)
theory Bridge_Strict
  imports Backend_Run
begin

text \<open>
  The strict run of an event: next to the faults of the program's own accesses it takes a call into
  libwebsockets or \<open>lws_write\<close> with a pointer or a buffer that the library must not be given for
  what it is, undefined behaviour. \<open>hazard\<close> says beforehand which events run into it, and why.
\<close>

section \<open>What the library may deliver\<close>

text \<open>The library delivers \<open>PROTOCOL_INIT\<close> whether or not there is memory for the callback.\<close>

definition deliverable :: "env \<Rightarrow> bridge \<Rightarrow> event \<Rightarrow> bool" where
  "deliverable E s e \<longleftrightarrow> (case e of Protocol_init nm \<Rightarrow> True | _ \<Rightarrow> enabled E s e)"

section \<open>Calls with bad arguments\<close>

text \<open>The websocket an event is about.\<close>

fun subject :: "bridge \<Rightarrow> event \<Rightarrow> wsi option" where
  "subject s (Protocol_init nm) = None"
| "subject s (Establish w p v) = Some w"
| "subject s (Receive w xs) = Some w"
| "subject s (Ws_writeable w) = Some w"
| "subject s (Ws_close w) = Some w"
| "subject s (Raw_rx r) = map_option snd (raws s r)"
| "subject s (Raw_writeable r) = map_option snd (raws s r)"
| "subject s (Raw_close r) = map_option snd (raws s r)"

text \<open>
  Why a call is bad. \<open>lws_callback_on_writable\<close> must be given the live websocket of the event or a
  live child of that websocket, \<open>lws_set_opaque_user_data\<close> must not be given NULL, and the buffer
  of \<open>lws_write\<close> must be as long as it is said to be, so that no byte comes from beyond the block.
\<close>

fun misuse :: "bridge \<Rightarrow> wsi option \<Rightarrow> io \<Rightarrow> fault option" where
  "misuse s sw (LwsWritable None) = Some NullDeref"
| "misuse s sw (LwsWritable (Some v)) =
     (if sw = Some v \<and> open_ws s v \<noteq> None then None
      else case raws s v of None \<Rightarrow> Some DanglingDeref
      | Some (c, w) \<Rightarrow> if sw = Some w then None else Some DanglingDeref)"
| "misuse s sw (LwsOpaque q c) = (if q = None then Some NullDeref else None)"
| "misuse s sw (LwsFrame w bs rc) = (if None \<in> set bs then Some OutOfBounds else None)"
| "misuse s sw _ = None"

text \<open>The first bad call of an event, if any.\<close>

fun first_misuse :: "bridge \<Rightarrow> wsi option \<Rightarrow> io list \<Rightarrow> fault option" where
  "first_misuse s sw [] = None"
| "first_misuse s sw (e # es) =
     (case misuse s sw e of None \<Rightarrow> first_misuse s sw es | Some f \<Rightarrow> Some f)"

definition exec_strict :: "env \<Rightarrow> backend_t \<Rightarrow> event \<Rightarrow> bridge \<Rightarrow> bridge res" where
  "exec_strict E b e s = andThen (exec E b e s) (\<lambda>s'.
     case first_misuse s (subject s e) (calls s (core s')) of None \<Rightarrow> Inr s' | Some f \<Rightarrow> Inl f)"

section \<open>The hazards\<close>

text \<open>
  \<^item> \<open>PROTOCOL_INIT\<close> writes through the pointer that \<open>lws_protocol_vh_priv_zalloc\<close> returned, which is
    NULL without memory;
  \<^item> \<open>ESTABLISHED\<close>, when the connection could be opened, hands the child that
    \<open>lws_adopt_descriptor_vhost\<close> returned to \<open>lws_set_opaque_user_data\<close>, NULL or not;
  \<^item> \<open>RECEIVE\<close> asks for a callback of the child that the session remembers: NULL when it could not be
    adopted, and a dangling pointer when the child has been closed since;
  \<^item> \<open>SERVER_WRITEABLE\<close> reads \<open>LWS_PRE\<close> bytes beyond the block of every message that it sends.
\<close>

fun hazard :: "env \<Rightarrow> backend_t \<Rightarrow> bridge \<Rightarrow> event \<Rightarrow> fault option" where
  "hazard E b s (Protocol_init nm) = (if e_malloc E (tick (core s)) then None else Some NullDeref)"
| "hazard E b s (Establish w p v) =
     (case Option.bind (vhds (core s) v) protocol of None \<Rightarrow> None
      | Some nm \<Rightarrow> if can_open E b nm (tick (core s)) \<and> e_adopt E (tick (core s) + 5) = None
          then Some NullDeref else None)"
| "hazard E b s (Receive w xs) =
     (case Option.bind (open_ws s w) (\<lambda>(p, v). psss (core s) p) of None \<Rightarrow> None
      | Some x \<Rightarrow> (case lwsi x of None \<Rightarrow> Some NullDeref
          | Some r \<Rightarrow> if map_option snd (raws s r) = Some w then None else Some DanglingDeref))"
| "hazard E b s (Ws_writeable w) =
     (case open_ws s w of None \<Rightarrow> None
      | Some (p, v) \<Rightarrow> if e_lws_pre E \<noteq> 0 \<and> conn_hasmsg_forweb (conn_of s p) (core s) = Inr True \<and>
            \<not> e_partial E (tick (core s)) \<and> \<not> e_choked E (Suc (tick (core s)))
          then Some OutOfBounds else None)"
| "hazard E b s _ = None"

section \<open>What is observed\<close>

text \<open>What the daemons send are bytes, and every block handed on has one result.\<close>

definition clean :: "bridge \<Rightarrow> bool" where
  "clean s \<longleftrightarrow> (\<forall>c. \<forall>xs \<in> set (got s (c, Web)). None \<notin> set xs)"

definition counted :: "bridge \<Rightarrow> bool" where
  "counted s \<longleftrightarrow> (\<forall>z. length (answers s z) = length (sent s z))"

lemma readin_clean: "xs \<in> set (readin es) \<Longrightarrow> None \<notin> set xs"
  by (auto simp: readin_def List.map_filter_def split: io.splits option.splits list.splits)

lemma at_conn_got:
  "got (at_conn c (\<lambda>c. note_got (c, d) xss) s) =
     (case c of None \<Rightarrow> got s | Some a \<Rightarrow> (got s)((a, d) := got s (a, d) @ xss))"
  "got (at_conn c (\<lambda>c. note_sent (c, d) brs) s) = got s"
  "answers (at_conn c (\<lambda>c. note_got (c, d) xss) s) = answers s"
  "sent (at_conn c (\<lambda>c. note_got (c, d) xss) s) = sent s"
  by (simp_all add: at_conn_def split: option.split)

text \<open>Observations change only where something is noted.\<close>

lemma exec_got:
  assumes "exec E b e s = Inr s'"
  shows "got s' = got s \<or> (\<exists>c xss. got s' = (got s)((c, Local) := got s (c, Local) @ xss)) \<or>
    (\<exists>c es. got s' = (got s)((c, Web) := got s (c, Web) @ readin es))"
proof (cases e)
  case (Receive w xs)
  with assms obtain t p where "s' = at_conn (conn_of s p) (\<lambda>c. note_got (c, Local) (if xs = [] then [] else [xs])) (settle t s)"
    by (auto simp: res_simps split: option.split_asm)
  then show ?thesis by (auto simp: at_conn_got split: option.split)
next
  case (Raw_rx r)
  with assms obtain t c where "s' = at_conn c (\<lambda>c. note_got (c, Web) (readin (calls s t))) (settle t s)"
    by (auto simp: res_simps split: option.split_asm)
  then show ?thesis by (auto simp: at_conn_got split: option.split)
next
  case (Establish w p v)
  with assms show ?thesis by (auto simp: res_simps Let_def split: if_split_asm)
qed (use assms in \<open>auto simp: res_simps Let_def at_conn_got split: option.split_asm\<close>)

lemma exec_clean: "exec E b e s = Inr s' \<Longrightarrow> clean s \<Longrightarrow> clean s'"
  using exec_got [of E b e s s'] by (auto simp: clean_def split: if_split_asm dest: readin_clean)

lemma reach_clean: "reach E b s0 s \<Longrightarrow> clean s0 \<Longrightarrow> clean s"
  by (induction rule: reach.induct) (auto elim!: bstepE dest: exec_clean)

lemma at_conn_counted: "counted s \<Longrightarrow> counted (at_conn c (\<lambda>c. note_sent (c, d) brs) s)"
  by (simp add: counted_def at_conn_def split: option.split)

lemma counted_cong: "counted s \<Longrightarrow> answers s' = answers s \<Longrightarrow> sent s' = sent s \<Longrightarrow> counted s'"
  by (simp add: counted_def)

lemma exec_counted:
  assumes "exec E b e s = Inr s'" "counted s"
  shows "counted s'"
proof (cases e)
  case (Ws_writeable w)
  with assms(1) obtain p t u where
    "s' = at_conn (conn_of s p) (\<lambda>c. note_sent (c, Web) (framed (calls s t))) (settle t u)"
    "answers u = answers s" "sent u = sent s"
    by (auto simp: res_simps Let_def split: option.split_asm)
  then show ?thesis using at_conn_counted counted_cong [OF assms(2)] by simp
next
  case (Raw_writeable r)
  with assms(1) obtain c t u where
    "s' = at_conn c (\<lambda>c. note_sent (c, Local) (written (calls s t))) (settle t u)"
    "answers u = answers s" "sent u = sent s"
    by (auto simp: res_simps Let_def split: option.split_asm)
  then show ?thesis using at_conn_counted counted_cong [OF assms(2)] by simp
next
  case (Establish w p v)
  with assms(1) show ?thesis by (intro counted_cong [OF assms(2)]) (auto simp: res_simps Let_def split: if_split_asm)
qed (use assms(1) in \<open>(intro counted_cong [OF assms(2)];
      auto simp: res_simps Let_def at_conn_got split: option.split_asm)+\<close>)

lemma reach_counted: "reach E b s0 s \<Longrightarrow> counted s0 \<Longrightarrow> counted s"
  by (induction rule: reach.induct) (auto elim!: bstepE dest: exec_counted)

lemma fresh_bridge_clean: "fresh_bridge b s \<Longrightarrow> clean s"
  by (simp add: fresh_bridge_def clean_def)

section \<open>When a run is good\<close>

lemma first_misuse_append:
  "first_misuse s sw (xs @ ys) =
     (case first_misuse s sw xs of None \<Rightarrow> first_misuse s sw ys | Some f \<Rightarrow> Some f)"
  by (induction xs) (simp_all split: option.split)

lemma first_misuse_none: "(\<And>e. e \<in> set es \<Longrightarrow> misuse s sw e = None) \<Longrightarrow> first_misuse s sw es = None"
  by (induction es) simp_all

lemma frames_misuse:
  assumes "\<And>bs m. (bs, m) \<in> set bms \<Longrightarrow> \<exists>xs. bs = web_block E xs \<and> None \<notin> set xs"
  shows "first_misuse s sw (frames_log E w bms) =
    (if bms = [] \<or> e_lws_pre E = 0 then None else Some OutOfBounds)"
  using assms
proof (induction bms)
  case (Cons bm bms)
  obtain bs m where bm: "bm = (bs, m)" by (cases bm)
  with Cons.prems obtain xs where xs: "bs = web_block E xs" "None \<notin> set xs" by auto
  have pre: "unat (e_lws_pre E) = 0 \<longleftrightarrow> e_lws_pre E = 0" by (rule unat_eq_0)
  have "None \<in> set (web_frame E bs) \<longleftrightarrow> e_lws_pre E \<noteq> 0"
    using xs pre by (auto simp: web_frame_block)
  moreover have "first_misuse s sw (frames_log E w bms) = (if bms = [] \<or> e_lws_pre E = 0 then None else Some OutOfBounds)"
    using Cons.prems by (intro Cons.IH) (meson list.set_intros(2))
  ultimately show ?case by (simp add: frames_log_def frame_log_def bm)
qed (simp add: frames_log_def)

text \<open>The blocks waiting for a websocket are payloads of bytes behind their room.\<close>

lemma queue_blocks:
  assumes "binv E b s I" "clean s" "bs \<in> set (I (c, Web))"
  shows "\<exists>xs. bs = web_block E xs \<and> None \<notin> set xs"
proof -
  from binvD(2) [OF assms(1), of Web c] obtain ys zs where
    z: "I (c, Web) = map (blk E Web) zs" "subseq (ys @ zs) (got s (c, Web))" by (auto simp: conveyed_def)
  from assms(3) z(1) obtain xs where xs: "xs \<in> set zs" "bs = web_block E xs" by (auto simp: blk_def)
  from z(2) xs(1) have "xs \<in> set (got s (c, Web))" using list_emb_set [OF z(2), of xs] by auto
  with assms(2) xs(2) show ?thesis unfolding clean_def by blast
qed

lemma exec_strictI:
  assumes "exec E b e s = Inr s'" "first_misuse s (subject s e) (calls s (core s')) = hazard E b s e"
  shows "case hazard E b s e of None \<Rightarrow> exec_strict E b e s = Inr s' \<and> exec E b e s = Inr s'
    | Some f \<Rightarrow> exec_strict E b e s = Inl f"
  using assms by (simp add: exec_strict_def split: option.split)

lemma hazard_exact:
  assumes inv: "binv E b s I" and cl: "clean s" and fits: "unat (bufsize b) + unat (e_lws_pre E) < 2 ^ 64"
    and en: "enabled E s e"
  shows "\<exists>s'. exec E b e s = Inr s' \<and> first_misuse s (subject s e) (calls s (core s')) = hazard E b s e"
proof (cases e)
  case (Protocol_init nm)
  with exec_protocol_init [OF inv] en show ?thesis by fastforce
next
  case (Establish w p v)
  with exec_establish [OF inv] en obtain s' x nm where
    s': "exec E b e s = Inr s'" and x: "vhds (core s) v = Some x" "protocol x = Some nm"
    and cs: "if can_open E b nm (tick (core s))
       then \<exists>fd path rc c. calls s (core s') = opened fd p path rc w (e_adopt E (tick (core s) + 5)) c
       else \<exists>es. calls s (core s') = es @ [LwsRemove p] \<and>
         (es = [] \<or> (\<exists>fd < 0. es = [IoSocket fd]) \<or> (\<exists>fd. es = [IoSocket fd, IoClose fd]))" by blast
  have "first_misuse s (subject s e) (calls s (core s')) = hazard E b s e"
    using cs x Establish by (auto simp: opened_def split: if_split_asm)
  with s' show ?thesis by blast
next
  case (Receive w xs)
  with en obtain p v where w: "open_ws s w = Some (p, v)" by auto
  from sessions_ex(2) [OF binvD(3) [OF inv] w] obtain x where
    x: "psss (core s) p = Some x" "lwsi x \<noteq> Some w" by blast
  from exec_receive [OF inv en [unfolded Receive]] obtain s' where
    "exec E b (Receive w xs) s = Inr s'"
    "\<forall>p v x. open_ws s w = Some (p, v) \<longrightarrow> psss (core s) p = Some x \<longrightarrow>
      lwsi x \<in> wants s' \<and> calls s (core s') = [LwsWritable (lwsi x)]" by blast
  with w x Receive have s': "exec E b e s = Inr s'" "calls s (core s') = [LwsWritable (lwsi x)]" by simp_all
  have "first_misuse s (Some w) [LwsWritable (lwsi x)] = hazard E b s (Receive w xs)"
  proof (cases "lwsi x")
    case (Some r)
    with w x show ?thesis by (auto split: option.split)
  qed (use w x in simp)
  with s' Receive show ?thesis by auto
next
  case (Ws_writeable w)
  with en obtain p v where w: "open_ws s w = Some (p, v)" by auto
  from exec_ws_writeable [OF inv w] obtain s' c rest bms where
    s': "exec E b (Ws_writeable w) s = Inr s'" "conn_of s p = Some c"
    and bms: "I (c, Web) = map fst bms @ rest" "bms = [] \<longleftrightarrow> I (c, Web) = [] \<or> congested E (tick (core s))"
      "calls s (core s') = frames_log E w bms @ (if rest = [] then [] else [LwsWritable (Some w)])" by blast
  from sessionsD [OF binvD(3) [OF inv] w] s'(2) obtain cn where "conns (core s) c = Some cn" by (metis option.inject)
  with binvD(1) [OF inv] have has: "conn_hasmsg_forweb (Some c) (core s) = Inr (I (c, Web) \<noteq> [])"
    by (auto elim!: servedE simp: conn_hasmsg_forweb_def conn_nonempty_holds)
  have "\<exists>xs. bs = web_block E xs \<and> None \<notin> set xs" if "(bs, m) \<in> set bms" for bs m
    using queue_blocks [OF inv cl, of bs c] bms(1) that by (force simp: image_iff)
  from frames_misuse [OF this]
  have "first_misuse s (Some w) (calls s (core s')) = (if bms = [] \<or> e_lws_pre E = 0 then None else Some OutOfBounds)"
    using w by (simp add: bms(3) first_misuse_append)
  also have "\<dots> = hazard E b s (Ws_writeable w)"
    using w s'(2) has bms(2) by (auto simp: congested_def)
  finally show ?thesis using s'(1) Ws_writeable by auto
next
  case (Ws_close w)
  with exec_ws_close [OF inv] en show ?thesis by fastforce
next
  case (Raw_rx r)
  with en obtain oc w where r: "raws s r = Some (oc, w)" by auto
  from childrenD [OF binvD(4) [OF inv] r] obtain p v where w: "open_ws s w = Some (p, v)" by metis
  from exec_raw_rx [OF inv _ fits] en Raw_rx r obtain s' fd rd where
    "exec E b e s = Inr s'" "calls s (core s') \<in> {[IoRead fd rd], [IoRead fd rd, LwsWritable (Some w)]}" by force
  with Raw_rx r w show ?thesis by auto
next
  case (Raw_writeable r)
  with en obtain oc w where r: "raws s r = Some (oc, w)" by auto
  from exec_raw_writeable [OF inv r] Raw_writeable obtain s' fd bss where
    s': "exec E b e s = Inr s'" "writes fd bss (calls s (core s'))" by blast
  have "misuse s sw e' = None" if "e' \<in> set (calls s (core s'))" for sw e'
    using s'(2) that unfolding writes_def by (auto simp: list_all2_conv_all_nth in_set_conv_nth)
  then have "first_misuse s (subject s e) (calls s (core s')) = None" by (intro first_misuse_none)
  with s'(1) Raw_writeable show ?thesis by auto
next
  case (Raw_close r)
  with exec_raw_close [OF inv] en show ?thesis by fastforce
qed

lemma strict_exact:
  assumes "binv E b s I" "clean s" "unat (bufsize b) + unat (e_lws_pre E) < 2 ^ 64" "deliverable E s e"
  shows "case hazard E b s e of None \<Rightarrow> \<exists>s'. exec_strict E b e s = Inr s' \<and> exec E b e s = Inr s'
    | Some f \<Rightarrow> exec_strict E b e s = Inl f"
proof (cases "enabled E s e")
  case True
  from hazard_exact [OF assms(1-3) True] exec_strictI [of E b e s] show ?thesis
    by (auto split: option.split)
next
  case False
  with assms(4) obtain nm where e: "e = Protocol_init nm" by (cases e) (auto simp: deliverable_def)
  with False have "exec E b e s = Inl NullDeref" by (simp add: frontend_ws_callback_def Let_def)
  with False e show ?thesis by (simp add: exec_strict_def)
qed

end
