(* ===== verification/Dll.thy ===== *)
theory Dll
  imports Main
begin

text \<open>
  Doubly linked lists as two functions from a node to its neighbours: \<open>dseg pv nx p xs q\<close> says that
  \<open>xs\<close> is linked up, its first node pointing back to \<open>p\<close> and its last one on to \<open>q\<close>. The lemmas
  are the pointer updates that put a node in front, at the end, or take one out.
\<close>

definition head_or :: "'a list \<Rightarrow> 'a option \<Rightarrow> 'a option" where
  "head_or xs q = (case xs of [] \<Rightarrow> q | x # _ \<Rightarrow> Some x)"

definition last_or :: "'a option \<Rightarrow> 'a list \<Rightarrow> 'a option" where
  "last_or p xs = (if xs = [] then p else Some (last xs))"

fun dseg :: "('a \<Rightarrow> 'a option) \<Rightarrow> ('a \<Rightarrow> 'a option) \<Rightarrow> 'a option \<Rightarrow> 'a list \<Rightarrow> 'a option \<Rightarrow> bool" where
  "dseg pv nx p [] q \<longleftrightarrow> True"
| "dseg pv nx p (x # xs) q \<longleftrightarrow> pv x = p \<and> nx x = head_or xs q \<and> dseg pv nx (Some x) xs q"

lemma head_or_simps [simp]:
  "head_or [] q = q" "head_or (x # xs) q = Some x" "xs \<noteq> [] \<Longrightarrow> head_or xs q = Some (hd xs)"
  "head_or (xs @ ys) q = head_or xs (head_or ys q)"
  by (simp_all add: head_or_def split: list.split)

lemma last_or_simps [simp]:
  "last_or p [] = p" "last_or p (xs @ [x]) = Some x" "xs \<noteq> [] \<Longrightarrow> last_or p xs = Some (last xs)"
  by (simp_all add: last_or_def)

lemma last_or_Some_eq: "last_or p xs = Some x \<Longrightarrow> xs \<noteq> [] \<Longrightarrow> x \<in> set xs"
  by (auto simp: last_or_def)

lemma head_or_None [simp]: "head_or xs None = None \<longleftrightarrow> xs = []"
  by (cases xs) simp_all

lemma last_or_None [simp]: "last_or None xs = None \<longleftrightarrow> xs = []"
  by (simp add: last_or_def)

lemma dseg_append:
  "dseg pv nx p (xs @ ys) q \<longleftrightarrow> dseg pv nx p xs (head_or ys q) \<and> dseg pv nx (last_or p xs) ys q"
  by (induction xs arbitrary: p) (auto simp: last_or_def)

lemma dseg_cong:
  "(\<And>x. x \<in> set xs \<Longrightarrow> pv' x = pv x \<and> nx' x = nx x) \<Longrightarrow> dseg pv' nx' p xs q = dseg pv nx p xs q"
  by (induction xs arbitrary: p) auto

lemma dseg_upd [simp]:
  "x \<notin> set xs \<Longrightarrow> dseg (pv(x := v)) nx p xs q = dseg pv nx p xs q"
  "x \<notin> set xs \<Longrightarrow> dseg pv (nx(x := v)) p xs q = dseg pv nx p xs q"
  by (rule dseg_cong; auto)+

section \<open>Pointer updates\<close>

text \<open>A function update at a place that may be missing.\<close>

definition put :: "('a \<Rightarrow> 'b) \<Rightarrow> 'a option \<Rightarrow> 'b \<Rightarrow> 'a \<Rightarrow> 'b" where
  "put f p v = (case p of None \<Rightarrow> f | Some x \<Rightarrow> f(x := v))"

lemma put_simps [simp]: "put f None v = f" "put f (Some x) v = f(x := v)"
  by (simp_all add: put_def)

lemma put_other: "p \<noteq> Some x \<Longrightarrow> put f p v x = f x"
  by (auto simp: put_def split: option.split)

lemma dseg_front:
  assumes "dseg pv nx None xs None" "a \<notin> set xs" "distinct xs"
  shows "dseg (put (pv(a := None)) (head_or xs None) (Some a)) (nx(a := head_or xs None)) None (a # xs) None"
  using assms by (cases xs) (auto simp: put_def)

lemma dseg_end:
  assumes "dseg pv nx p xs None" "a \<notin> set xs" "distinct xs" "xs \<noteq> []"
  shows "dseg (pv(a := Some (last xs))) (nx(a := None, last xs := Some a)) p (xs @ [a]) None"
proof -
  from assms(4) obtain ys y where xs: "xs = ys @ [y]" by (cases xs rule: rev_cases) auto
  from assms(1) have "dseg pv nx p ys (Some y)" "pv y = last_or p ys" by (simp_all add: xs dseg_append)
  with assms(2,3) show ?thesis by (auto simp: xs dseg_append)
qed

text \<open>Putting \<open>a\<close> in front of \<open>y\<close>, wherever \<open>y\<close> stands.\<close>

lemma dseg_insert:
  assumes "dseg pv nx None (xs @ y # ys) None" "distinct (xs @ y # ys)" "a \<notin> set (xs @ y # ys)"
  shows "dseg (pv(a := pv y, y := Some a)) (put (nx(a := Some y)) (pv y) (Some a)) None (xs @ a # y # ys) None"
    "pv y = last_or None xs"
proof -
  from assms(1) have y: "pv y = last_or None xs" "nx y = head_or ys None"
    and s: "dseg pv nx None xs (Some y)" "dseg pv nx (Some y) ys None" by (simp_all add: dseg_append)
  let ?pv = "pv(a := pv y, y := Some a)" and ?nx = "put (nx(a := Some y)) (pv y) (Some a)"
  have "dseg ?pv ?nx None xs (Some a)"
  proof (cases xs rule: rev_cases)
    case (snoc us u)
    have "dseg ?pv ?nx None us (Some u) = dseg pv nx None us (Some u)"
      by (rule dseg_cong) (use assms(2,3) y snoc in auto)
    with s(1) assms(2,3) y snoc show ?thesis by (auto simp: dseg_append)
  qed simp
  moreover have "dseg ?pv ?nx (Some y) ys None = dseg pv nx (Some y) ys None"
    by (rule dseg_cong) (use assms(2,3) y in \<open>cases xs rule: rev_cases; auto simp: put_def\<close>)
  moreover have "?pv a = last_or None xs" "?nx a = Some y" "?pv y = Some a" "?nx y = nx y"
    using assms(2,3) y by (cases xs rule: rev_cases; auto simp: put_def)+
  ultimately show "dseg ?pv ?nx None (xs @ a # y # ys) None" using s y by (simp add: dseg_append)
  from y show "pv y = last_or None xs" by simp
qed

text \<open>Taking \<open>d\<close> out: its neighbours are made to point to each other.\<close>

lemma dseg_remove:
  assumes "dseg pv nx None (xs @ d # ys) None" "distinct (xs @ d # ys)"
  shows "dseg (put pv (nx d) (pv d)) (put nx (pv d) (nx d)) None (xs @ ys) None"
    "pv d = last_or None xs" "nx d = head_or ys None"
proof -
  from assms(1) have d: "pv d = last_or None xs" "nx d = head_or ys None"
    and s: "dseg pv nx None xs (Some d)" "dseg pv nx (Some d) ys None" by (simp_all add: dseg_append)
  let ?pv = "put pv (nx d) (pv d)" and ?nx = "put nx (pv d) (nx d)"
  have "dseg ?pv ?nx None xs (head_or ys None)"
  proof (cases xs rule: rev_cases)
    case (snoc us u)
    have "dseg ?pv ?nx None us (Some u) = dseg pv nx None us (Some u)"
      by (rule dseg_cong) (use assms(2) d snoc in \<open>cases ys; auto simp: put_def\<close>)
    moreover have "?pv u = pv u" "?nx u = nx d"
      using assms(2) d snoc by (cases ys; simp add: put_def)+
    ultimately show ?thesis using s(1) d snoc by (simp add: dseg_append)
  qed simp
  moreover have "dseg ?pv ?nx (last_or None xs) ys None"
  proof (cases ys)
    case (Cons y zs)
    have "dseg ?pv ?nx (Some y) zs None = dseg pv nx (Some y) zs None"
      by (rule dseg_cong) (use assms(2) d Cons in \<open>cases xs rule: rev_cases; auto simp: put_def\<close>)
    moreover have "?pv y = pv d" "?nx y = nx y"
      using assms(2) d Cons by (cases xs rule: rev_cases; auto simp: put_def)+
    ultimately show ?thesis using s(2) d Cons by simp
  qed simp
  ultimately show "dseg ?pv ?nx None (xs @ ys) None" by (simp add: dseg_append)
  from d show "pv d = last_or None xs" "nx d = head_or ys None" by simp_all
qed

end
