(* ===== verification/Uthash_Rep.thy ===== *)
theory Uthash_Rep
  imports Uthash Dll
begin

text \<open>
  The well-formed hash tables, in the terms of \<open>HASH_FSCK\<close>, the library's own integrity check: the
  items are linked in the order they were added, every bucket has a linked chain of the items
  that hash to it, and the counts agree. Links are read as functions from an item to its
  neighbours, so that pointer updates are function updates.
\<close>

section \<open>Handles as functions\<close>

definition hf :: "'a uheap_scheme \<Rightarrow> addr \<Rightarrow> hh" where
  "hf s a = i_hh (the (items s a))"

definition prv :: "'a uheap_scheme \<Rightarrow> addr \<Rightarrow> addr option" where
  "prv s a = h_prev (hf s a)"

definition nxt :: "'a uheap_scheme \<Rightarrow> addr \<Rightarrow> addr option" where
  "nxt s a = h_next (hf s a)"

definition cprv :: "'a uheap_scheme \<Rightarrow> addr \<Rightarrow> addr option" where
  "cprv s a = hh_prev (hf s a)"

definition cnxt :: "'a uheap_scheme \<Rightarrow> addr \<Rightarrow> addr option" where
  "cnxt s a = hh_next (hf s a)"

definition hv :: "'a uheap_scheme \<Rightarrow> addr \<Rightarrow> u32" where
  "hv s a = h_hashv (hf s a)"

definition hmeta :: "'a uheap_scheme \<Rightarrow> addr \<Rightarrow> addr option \<times> addr option \<times> u32 \<times> u32" where
  "hmeta s a = (h_tbl (hf s a), h_key (hf s a), h_keylen (hf s a), h_hashv (hf s a))"

text \<open>What an item holds beside its handle.\<close>

definition held :: "'a uheap_scheme \<Rightarrow> addr \<Rightarrow> (int \<times> addr option) option" where
  "held s a = map_option (\<lambda>i. (i_id i, i_data i)) (items s a)"

definition ukey :: "'a uheap_scheme \<Rightarrow> addr \<Rightarrow> byte list" where
  "ukey s a = int_bytes (i_id (the (items s a)))"

lemma ukey_held: "held s' a = held s a \<Longrightarrow> ukey s' a = ukey s a"
  by (cases "items s a"; cases "items s' a") (auto simp: held_def ukey_def)

lemma dom_held: "dom (items s) = dom (held s)"
  by (auto simp: held_def)

lemma held_dom: "held s' = held s \<Longrightarrow> dom (items s') = dom (items s)"
  by (simp add: dom_held)

section \<open>Updates\<close>

definition upd_hh :: "addr \<Rightarrow> (hh \<Rightarrow> hh) \<Rightarrow> 'a uheap_scheme \<Rightarrow> 'a uheap_scheme" where
  "upd_hh a f s = s\<lparr>items := (items s)(a \<mapsto> (the (items s a))\<lparr>i_hh := f (hf s a)\<rparr>)\<rparr>"

definition upd_opt :: "addr option \<Rightarrow> (hh \<Rightarrow> hh) \<Rightarrow> 'a uheap_scheme \<Rightarrow> 'a uheap_scheme" where
  "upd_opt p f s = (case p of None \<Rightarrow> s | Some a \<Rightarrow> if a \<in> dom (items s) then upd_hh a f s else s)"

lemma modify_hh_eq: "a \<in> dom (items s) \<Longrightarrow> modify_hh (Some a) f s = Inr (upd_opt (Some a) f s)"
  by (auto simp: modify_hh_def upd_opt_def upd_hh_def hf_def)

lemma modify_opt:
  "(\<And>a. p = Some a \<Longrightarrow> a \<in> dom (items s)) \<Longrightarrow>
   (if p = None then Inr s else modify_hh p f s) = Inr (upd_opt p f s)"
  by (cases p) (simp_all add: modify_hh_eq, simp add: upd_opt_def)

lemma upd_opt_sel [simp, frame_simps]:
  "tbls (upd_opt p f s) = tbls s" "tick (upd_opt p f s) = tick s" "log (upd_opt p f s) = log s"
  "blocks (upd_opt p f s) = blocks s" "msgs (upd_opt p f s) = msgs s"
  "uheap.more (upd_opt p f s) = uheap.more s" "dom (items (upd_opt p f s)) = dom (items s)"
  "held (upd_opt p f s) = held s"
  by (auto simp: upd_opt_def upd_hh_def held_def fun_eq_iff split: option.split)

lemma upd_opt_ukey [simp]: "ukey (upd_opt p f s) = ukey s"
  by (rule ext, rule ukey_held) simp

lemma hf_upd_opt:
  "(\<And>a. p = Some a \<Longrightarrow> a \<in> dom (items s)) \<Longrightarrow>
   hf (upd_opt p f s) = (case p of None \<Rightarrow> hf s | Some a \<Rightarrow> (hf s)(a := f (hf s a)))"
  by (auto simp: upd_opt_def upd_hh_def hf_def fun_eq_iff split: option.split)

lemma hf_upd_Some: "a \<in> dom (items s) \<Longrightarrow> hf (upd_opt (Some a) f s) = (hf s)(a := f (hf s a))"
  by (subst hf_upd_opt) auto

lemma set_tbl_sel [simp, frame_simps]:
  "items (set_tbl ta t s) = items s" "tbls (set_tbl ta t s) = (tbls s)(ta \<mapsto> t)" "tick (set_tbl ta t s) = tick s"
  "log (set_tbl ta t s) = log s" "blocks (set_tbl ta t s) = blocks s" "msgs (set_tbl ta t s) = msgs s"
  "uheap.more (set_tbl ta t s) = uheap.more s"
  by (simp_all add: set_tbl_def)

lemma fields_items:
  "items s' = items s \<Longrightarrow> hf s' = hf s" "items s' = items s \<Longrightarrow> held s' = held s"
  "items s' = items s \<Longrightarrow> ukey s' = ukey s" "items s' = items s \<Longrightarrow> prv s' = prv s"
  "items s' = items s \<Longrightarrow> nxt s' = nxt s" "items s' = items s \<Longrightarrow> cprv s' = cprv s"
  "items s' = items s \<Longrightarrow> cnxt s' = cnxt s" "items s' = items s \<Longrightarrow> hv s' = hv s"
  "items s' = items s \<Longrightarrow> hmeta s' = hmeta s"
  by (auto simp: fun_eq_iff hf_def held_def ukey_def prv_def nxt_def cprv_def cnxt_def hv_def hmeta_def)

lemma fields_set_tbl [simp]:
  "hf (set_tbl ta t s) = hf s" "held (set_tbl ta t s) = held s" "ukey (set_tbl ta t s) = ukey s"
  "prv (set_tbl ta t s) = prv s" "nxt (set_tbl ta t s) = nxt s" "cprv (set_tbl ta t s) = cprv s"
  "cnxt (set_tbl ta t s) = cnxt s" "hv (set_tbl ta t s) = hv s" "hmeta (set_tbl ta t s) = hmeta s"
  by (rule fields_items; simp)+

lemma fields_step [simp]:
  "hf (step s) = hf s" "held (step s) = held s" "ukey (step s) = ukey s"
  "prv (step s) = prv s" "nxt (step s) = nxt s" "cprv (step s) = cprv s"
  "cnxt (step s) = cnxt s" "hv (step s) = hv s" "hmeta (step s) = hmeta s"
  by (rule fields_items; simp)+

text \<open>
  The link updates, of one link or of two at once as the macros write them: what each leaves alone,
  and what it does.
\<close>

lemma link_frame [simp]:
  "prv (upd_opt p (\<lambda>h. h\<lparr>h_next := v\<rparr>) s) = prv s"
  "cnxt (upd_opt p (\<lambda>h. h\<lparr>h_next := v\<rparr>) s) = cnxt s"
  "cprv (upd_opt p (\<lambda>h. h\<lparr>h_next := v\<rparr>) s) = cprv s"
  "hmeta (upd_opt p (\<lambda>h. h\<lparr>h_next := v\<rparr>) s) = hmeta s"
  "nxt (upd_opt p (\<lambda>h. h\<lparr>h_prev := v\<rparr>) s) = nxt s"
  "cnxt (upd_opt p (\<lambda>h. h\<lparr>h_prev := v\<rparr>) s) = cnxt s"
  "cprv (upd_opt p (\<lambda>h. h\<lparr>h_prev := v\<rparr>) s) = cprv s"
  "hmeta (upd_opt p (\<lambda>h. h\<lparr>h_prev := v\<rparr>) s) = hmeta s"
  "nxt (upd_opt p (\<lambda>h. h\<lparr>hh_next := v\<rparr>) s) = nxt s"
  "prv (upd_opt p (\<lambda>h. h\<lparr>hh_next := v\<rparr>) s) = prv s"
  "cprv (upd_opt p (\<lambda>h. h\<lparr>hh_next := v\<rparr>) s) = cprv s"
  "hmeta (upd_opt p (\<lambda>h. h\<lparr>hh_next := v\<rparr>) s) = hmeta s"
  "nxt (upd_opt p (\<lambda>h. h\<lparr>hh_prev := v\<rparr>) s) = nxt s"
  "prv (upd_opt p (\<lambda>h. h\<lparr>hh_prev := v\<rparr>) s) = prv s"
  "cnxt (upd_opt p (\<lambda>h. h\<lparr>hh_prev := v\<rparr>) s) = cnxt s"
  "hmeta (upd_opt p (\<lambda>h. h\<lparr>hh_prev := v\<rparr>) s) = hmeta s"
  "cnxt (upd_opt p (\<lambda>h. h\<lparr>h_next := v, h_prev := u\<rparr>) s) = cnxt s"
  "cprv (upd_opt p (\<lambda>h. h\<lparr>h_next := v, h_prev := u\<rparr>) s) = cprv s"
  "hmeta (upd_opt p (\<lambda>h. h\<lparr>h_next := v, h_prev := u\<rparr>) s) = hmeta s"
  "nxt (upd_opt p (\<lambda>h. h\<lparr>hh_next := v, hh_prev := u\<rparr>) s) = nxt s"
  "prv (upd_opt p (\<lambda>h. h\<lparr>hh_next := v, hh_prev := u\<rparr>) s) = prv s"
  "hmeta (upd_opt p (\<lambda>h. h\<lparr>hh_next := v, hh_prev := u\<rparr>) s) = hmeta s"
  "nxt (upd_opt p (\<lambda>h. h\<lparr>hh_prev := u, hh_next := v\<rparr>) s) = nxt s"
  "prv (upd_opt p (\<lambda>h. h\<lparr>hh_prev := u, hh_next := v\<rparr>) s) = prv s"
  "hmeta (upd_opt p (\<lambda>h. h\<lparr>hh_prev := u, hh_next := v\<rparr>) s) = hmeta s"
  by (auto simp: upd_opt_def upd_hh_def nxt_def prv_def cnxt_def cprv_def hmeta_def hf_def fun_eq_iff
      split: option.split)

lemma link_updates:
  assumes "set_option p \<subseteq> dom (items s)"
  shows
    "nxt (upd_opt p (\<lambda>h. h\<lparr>h_next := v\<rparr>) s) = put (nxt s) p v"
    "prv (upd_opt p (\<lambda>h. h\<lparr>h_prev := v\<rparr>) s) = put (prv s) p v"
    "cnxt (upd_opt p (\<lambda>h. h\<lparr>hh_next := v\<rparr>) s) = put (cnxt s) p v"
    "cprv (upd_opt p (\<lambda>h. h\<lparr>hh_prev := v\<rparr>) s) = put (cprv s) p v"
proof -
  have "\<And>a. p = Some a \<Longrightarrow> a \<in> dom (items s)" using assms by auto
  note hf = hf_upd_opt [OF this]
  show "nxt (upd_opt p (\<lambda>h. h\<lparr>h_next := v\<rparr>) s) = put (nxt s) p v" "prv (upd_opt p (\<lambda>h. h\<lparr>h_prev := v\<rparr>) s) = put (prv s) p v" "cnxt (upd_opt p (\<lambda>h. h\<lparr>hh_next := v\<rparr>) s) = put (cnxt s) p v" "cprv (upd_opt p (\<lambda>h. h\<lparr>hh_prev := v\<rparr>) s) = put (cprv s) p v"
    by (auto simp: nxt_def prv_def cnxt_def cprv_def put_def fun_eq_iff hf split: option.split)
qed

lemma both_links:
  assumes "a \<in> dom (items s)"
  shows
    "nxt (upd_opt (Some a) (\<lambda>h. h\<lparr>h_next := v, h_prev := u\<rparr>) s) = (nxt s)(a := v)"
    "prv (upd_opt (Some a) (\<lambda>h. h\<lparr>h_next := v, h_prev := u\<rparr>) s) = (prv s)(a := u)"
    "cnxt (upd_opt (Some a) (\<lambda>h. h\<lparr>hh_next := v, hh_prev := u\<rparr>) s) = (cnxt s)(a := v)"
    "cprv (upd_opt (Some a) (\<lambda>h. h\<lparr>hh_next := v, hh_prev := u\<rparr>) s) = (cprv s)(a := u)"
    "cnxt (upd_opt (Some a) (\<lambda>h. h\<lparr>hh_prev := u, hh_next := v\<rparr>) s) = (cnxt s)(a := v)"
    "cprv (upd_opt (Some a) (\<lambda>h. h\<lparr>hh_prev := u, hh_next := v\<rparr>) s) = (cprv s)(a := u)"
  using hf_upd_opt [of "Some a" s] assms
  by (auto simp: nxt_def prv_def cnxt_def cprv_def fun_eq_iff)

lemma hv_hmeta: "hv s a = snd (snd (snd (hmeta s a)))"
  by (simp add: hv_def hmeta_def)

section \<open>Well-formed tables\<close>

text \<open>An item of the table at \<open>ta\<close>: its handle names the table, its key and the hash of the key.\<close>

definition keyed :: "'a uheap_scheme \<Rightarrow> addr \<Rightarrow> addr \<Rightarrow> bool" where
  "keyed s ta a \<longleftrightarrow> a \<in> dom (items s) \<and> a < tick s \<and>
     hmeta s a = (Some ta, Some a, 4, hash_jen (ukey s a))"

definition slot :: "'a uheap_scheme \<Rightarrow> u32 \<Rightarrow> addr \<Rightarrow> nat" where
  "slot s n a = unat (hash_to_bkt (hv s a) n)"

definition chained :: "'a uheap_scheme \<Rightarrow> ubucket list \<Rightarrow> addr list list \<Rightarrow> bool" where
  "chained s bs C \<longleftrightarrow> length C = length bs \<and>
     (\<forall>i < length bs. hh_head (bs ! i) = head_or (C ! i) None \<and> b_count (bs ! i) = of_nat (length (C ! i)) \<and>
        distinct (C ! i) \<and> dseg (cprv s) (cnxt s) None (C ! i) None)"

definition spread :: "'a uheap_scheme \<Rightarrow> u32 \<Rightarrow> addr list list \<Rightarrow> addr set \<Rightarrow> bool" where
  "spread s n C A \<longleftrightarrow> (\<forall>i < length C. set (C ! i) = {a \<in> A. slot s n a = i})"

definition sized :: "utable \<Rightarrow> nat \<Rightarrow> bool" where
  "sized t k \<longleftrightarrow> k < 32 \<and> num_buckets t = 2 ^ k \<and> log2_num_buckets t = of_nat k \<and> length (buckets t) = 2 ^ k"

text \<open>\<open>listed\<close>: the list in the order of addition; \<open>bucketed\<close>: the items \<open>A\<close> are in the buckets.\<close>

definition listed :: "'a uheap_scheme \<Rightarrow> addr \<Rightarrow> utable \<Rightarrow> addr list \<Rightarrow> bool" where
  "listed s ta t as \<longleftrightarrow> as \<noteq> [] \<and> distinct as \<and> inj_on (ukey s) (set as) \<and> (\<forall>a \<in> set as. keyed s ta a) \<and>
     dseg (prv s) (nxt s) None as None \<and> t_tail t = Some (last as)"

definition bucketed :: "'a uheap_scheme \<Rightarrow> utable \<Rightarrow> addr set \<Rightarrow> bool" where
  "bucketed s t A \<longleftrightarrow> (\<exists>k C. sized t k \<and> chained s (buckets t) C \<and> spread s (num_buckets t) C A)"

text \<open>The table with head \<open>head\<close> holds the items \<open>as\<close>, in the order of addition.\<close>

definition ut_rep :: "'a uheap_scheme \<Rightarrow> addr option \<Rightarrow> addr list \<Rightarrow> bool" where
  "ut_rep s head as \<longleftrightarrow> head = head_or as None \<and> (as = [] \<or>
     (\<exists>ta t. tbls s ta = Some t \<and> listed s ta t as \<and> bucketed s t (set as) \<and>
        num_items t = of_nat (length as)))"

lemma hash_to_bkt_mask: "hash_to_bkt h (2 ^ k) = take_bit k h"
  by (simp add: hash_to_bkt_def take_bit_eq_mask mask_eq_exp_minus_1)

lemma slot_less: "sized t k \<Longrightarrow> slot s (num_buckets t) a < 2 ^ k"
proof -
  assume "sized t k"
  then have k: "k < 32" "num_buckets t = 2 ^ k" by (simp_all add: sized_def)
  have "slot s (num_buckets t) a = take_bit k (unat (hv s a))"
    by (simp add: slot_def k hash_to_bkt_mask unsigned_take_bit_eq)
  then show ?thesis by simp
qed

lemma listedD:
  assumes "listed s ta t as"
  shows "as \<noteq> []" "distinct as" "inj_on (ukey s) (set as)" "a \<in> set as \<Longrightarrow> keyed s ta a"
    "dseg (prv s) (nxt s) None as None" "t_tail t = Some (last as)" "a \<in> set as \<Longrightarrow> a \<in> dom (items s)"
  using assms by (auto simp: listed_def keyed_def)

lemma chainedD:
  assumes "chained s bs C" "i < length bs"
  shows "length C = length bs" "hh_head (bs ! i) = head_or (C ! i) None" "b_count (bs ! i) = of_nat (length (C ! i))"
    "distinct (C ! i)" "dseg (cprv s) (cnxt s) None (C ! i) None"
  using assms by (simp_all add: chained_def)

lemma keyed_cong:
  "hmeta s' = hmeta s \<Longrightarrow> ukey s' = ukey s \<Longrightarrow> dom (items s') = dom (items s) \<Longrightarrow> tick s \<le> tick s' \<Longrightarrow>
   keyed s ta a \<Longrightarrow> keyed s' ta a"
  by (auto simp: keyed_def)

lemma tbl_of_keyed: "keyed s ta a \<Longrightarrow> tbls s ta = Some t \<Longrightarrow> tbl_of s (Some a) = Inr (ta, t)"
  by (auto simp: tbl_of_def keyed_def hmeta_def hf_def)

lemma tbl_of_listed:
  assumes "listed s ta t as" "tbls s ta = Some t'"
  shows "tbl_of s (head_or as None) = Inr (ta, t')"
  using listedD(1) [OF assms(1)] listedD(4) [OF assms(1), of "hd as"] tbl_of_keyed [OF _ assms(2)] by simp

lemma bucketed_cong:
  assumes "bucketed s t A" "cprv s' = cprv s" "cnxt s' = cnxt s" "\<And>x. x \<in> A \<Longrightarrow> hmeta s' x = hmeta s x"
    and "buckets t' = buckets t" "num_buckets t' = num_buckets t" "log2_num_buckets t' = log2_num_buckets t"
  shows "bucketed s' t' A"
proof -
  have "slot s' n x = slot s n x" if "x \<in> A" for n x using assms(4) [OF that] by (simp add: slot_def hv_hmeta)
  then have "{x \<in> A. slot s' n x = i} = {x \<in> A. slot s n x = i}" for n i by auto
  then show ?thesis using assms(1-3,5-7) by (simp add: bucketed_def sized_def chained_def spread_def)
qed

lemma listed_cong:
  assumes "listed s ta t as" "prv s' = prv s" "nxt s' = nxt s" "\<And>x. x \<in> set as \<Longrightarrow> hmeta s' x = hmeta s x"
    and "ukey s' = ukey s" "dom (items s') = dom (items s)" "tick s \<le> tick s'" "t_tail t' = t_tail t"
  shows "listed s' ta t' as"
  using assms by (auto simp: listed_def keyed_def)

section \<open>Lookup\<close>

lemma find_chain:
  assumes "dseg (cprv s) (cnxt s) p xs None" "\<And>a. a \<in> set xs \<Longrightarrow> keyed s ta a" "length xs < n"
  shows "find_in_bkt s (hash_jen (int_bytes idn)) idn n (head_or xs None)
    = Inr (List.find (\<lambda>a. ukey s a = int_bytes idn) xs)"
  using assms
proof (induction xs arbitrary: p n)
  case Nil
  then show ?case by simp
next
  case (Cons x xs)
  then obtain m where n: "n = Suc m" "length xs < m" by (cases n) auto
  from Cons.prems(2) [of x] obtain i where i: "items s x = Some i" "h_key (i_hh i) = Some x" "h_keylen (i_hh i) = 4"
    "h_hashv (i_hh i) = hash_jen (ukey s x)" by (auto simp: keyed_def hmeta_def hf_def)
  have "hh_next (i_hh i) = cnxt s x" by (simp add: cnxt_def hf_def i(1))
  with Cons.prems(1) have nx: "hh_next (i_hh i) = head_or xs None" "dseg (cprv s) (cnxt s) (Some x) xs None"
    by simp_all
  from Cons.IH [OF nx(2) _ n(2)] Cons.prems(2)
  have "find_in_bkt s (hash_jen (int_bytes idn)) idn m (head_or xs None)
    = Inr (List.find (\<lambda>a. ukey s a = int_bytes idn) xs)" by simp
  with i nx show ?case by (auto simp: n(1) ukey_def)
qed

lemma find_unique:
  assumes "inj_on f A" "{a \<in> set xs. f a = k} = {a \<in> set ys. f a = k}" "set xs \<subseteq> A" "set ys \<subseteq> A"
  shows "List.find (\<lambda>a. f a = k) xs = List.find (\<lambda>a. f a = k) ys"
proof (cases "List.find (\<lambda>a. f a = k) ys")
  case None
  then have "\<forall>a \<in> set xs. f a \<noteq> k" using assms(2) by (auto simp: find_None_iff)
  then have "List.find (\<lambda>a. f a = k) xs = None" by (auto simp: find_None_iff)
  with None show ?thesis by simp
next
  case (Some y)
  then have y: "y \<in> set ys" "f y = k" by (auto simp: find_Some_iff)
  with assms(2) have "y \<in> set xs" by blast
  with y(2) have "List.find (\<lambda>a. f a = k) xs \<noteq> None" by (auto simp: find_None_iff)
  then obtain x where x: "List.find (\<lambda>a. f a = k) xs = Some x" by blast
  then have "x \<in> set xs" "f x = k" by (auto simp: find_Some_iff)
  with y assms(1,3,4) have "x = y" by (auto dest: inj_onD)
  with x Some show ?thesis by simp
qed

lemma distinct_below: "distinct xs \<Longrightarrow> (\<And>a. a \<in> set xs \<Longrightarrow> a < n) \<Longrightarrow> length xs \<le> n"
  using card_mono [of "{..<n}" "set xs"] by (auto simp: distinct_card subset_eq)

lemma bucket_chain:
  assumes "bucketed s t A" "\<And>a. a \<in> A \<Longrightarrow> a < tick s"
  shows "\<exists>k C. sized t k \<and> chained s (buckets t) C \<and> spread s (num_buckets t) C A \<and>
    (\<forall>i < length C. length (C ! i) < Suc (tick s))"
proof -
  from assms(1) obtain k C where C: "sized t k" "chained s (buckets t) C" "spread s (num_buckets t) C A"
    by (auto simp: bucketed_def)
  have "length (C ! i) < Suc (tick s)" if i: "i < length C" for i
  proof -
    have "i < length (buckets t)" using i chained_def C(2) by metis
    from chainedD(4) [OF C(2) this] have "distinct (C ! i)" .
    moreover have "a < tick s" if "a \<in> set (C ! i)" for a
      using C(3) i that assms(2) by (auto simp: spread_def)
    ultimately show ?thesis using distinct_below by (simp add: less_Suc_eq_le)
  qed
  with C show ?thesis by blast
qed

lemma ut_find:
  assumes "ut_rep s head as"
  shows "hash_find_int s head idn = Inr (List.find (\<lambda>a. ukey s a = int_bytes idn) as)"
proof (cases "as = []")
  case True
  with assms show ?thesis by (simp add: ut_rep_def hash_find_int_def)
next
  case False
  with assms obtain ta t where t: "head = head_or as None" "tbls s ta = Some t" "listed s ta t as"
    "bucketed s t (set as)" by (auto simp: ut_rep_def)
  have below: "a < tick s" if "a \<in> set as" for a using listedD(4) [OF t(3) that] by (simp add: keyed_def)
  from bucket_chain [OF t(4) below] obtain k C where
    C: "sized t k" "chained s (buckets t) C" "spread s (num_buckets t) C (set as)"
    "\<forall>i < length C. length (C ! i) < Suc (tick s)" by blast
  let ?h = "hash_jen (int_bytes idn)"
  let ?i = "unat (hash_to_bkt ?h (num_buckets t))"
  have "take_bit k (unat ?h) < 2 ^ k" by simp
  then have i: "?i < length (buckets t)" using C(1)
    by (simp add: sized_def hash_to_bkt_mask unsigned_take_bit_eq)
  note ch = chainedD [OF C(2) i]
  have sub: "set (C ! ?i) = {a \<in> set as. slot s (num_buckets t) a = ?i}"
    using C(3) i ch(1) by (simp add: spread_def)
  have "find_in_bkt s ?h idn (Suc (tick s)) (head_or (C ! ?i) None)
      = Inr (List.find (\<lambda>a. ukey s a = int_bytes idn) (C ! ?i))"
    by (rule find_chain [OF ch(5)]) (use sub listedD(4) [OF t(3)] C(4) i ch(1) in auto)
  moreover have "List.find (\<lambda>a. ukey s a = int_bytes idn) (C ! ?i) = List.find (\<lambda>a. ukey s a = int_bytes idn) as"
  proof (rule find_unique [OF listedD(3) [OF t(3)]])
    show "{a \<in> set (C ! ?i). ukey s a = int_bytes idn} = {a \<in> set as. ukey s a = int_bytes idn}"
      using listedD(4) [OF t(3)] by (auto simp: sub slot_def hv_hmeta keyed_def)
  qed (use sub in auto)
  moreover have "head \<noteq> None" using t(1) False by simp
  ultimately show ?thesis
    using tbl_of_listed [OF t(3,2)] i ch(2) by (simp add: hash_find_int_def t(1) bucket_at_def Let_def)
qed

end
