(* ===== verification/Uthash_Ops.thy ===== *)
theory Uthash_Ops
  imports Uthash_Rep
begin

text \<open>
  The macros of the hash table keep it well-formed: putting an item into a bucket, taking one out,
  doubling the buckets, and the additions and deletions made of them.
\<close>

section \<open>What an operation leaves alone\<close>

definition same_store :: "'a uheap_scheme \<Rightarrow> 'a uheap_scheme \<Rightarrow> bool" where
  "same_store s s' \<longleftrightarrow> log s' = log s \<and> blocks s' = blocks s \<and> msgs s' = msgs s \<and>
     uheap.more s' = uheap.more s \<and> held s' = held s \<and> tick s \<le> tick s'"

lemma same_store_refl [simp]: "same_store s s"
  by (simp add: same_store_def)

lemma same_store_trans: "same_store s s' \<Longrightarrow> same_store s' s'' \<Longrightarrow> same_store s s''"
  by (simp add: same_store_def)

lemma same_store_upd [simp]:
  "same_store s (upd_opt p f s') = same_store s s'" "same_store s (set_tbl ta t s') = same_store s s'"
  by (simp_all add: same_store_def)

lemma same_store_step [simp]: "same_store s s' \<Longrightarrow> same_store s (step s')"
  by (simp add: same_store_def)

lemma same_storeD:
  assumes "same_store s s'"
  shows "dom (items s') = dom (items s)" "ukey s' = ukey s" "tick s \<le> tick s'"
  using assms held_dom [of s' s] ukey_held [of s' _ s]
  by (simp_all add: same_store_def fun_eq_iff [of "ukey s'"])

text \<open>Only the links of the bucket chains change.\<close>

definition rechained :: "'a uheap_scheme \<Rightarrow> 'a uheap_scheme \<Rightarrow> bool" where
  "rechained s s' \<longleftrightarrow> same_store s s' \<and> tick s' = tick s \<and> tbls s' = tbls s \<and> prv s' = prv s \<and>
     nxt s' = nxt s \<and> hmeta s' = hmeta s"

lemma rechained_refl [simp]: "rechained s s"
  by (simp add: rechained_def)

lemma rechained_trans: "rechained s s' \<Longrightarrow> rechained s' s'' \<Longrightarrow> rechained s s''"
  by (auto simp: rechained_def intro: same_store_trans)

lemma slot_rechained: "hmeta s' = hmeta s \<Longrightarrow> slot s' = slot s"
  by (simp add: slot_def hv_hmeta fun_eq_iff)

text \<open>The links of the items outside \<open>A\<close> are as they were.\<close>

definition links_out :: "'a uheap_scheme \<Rightarrow> 'a uheap_scheme \<Rightarrow> addr set \<Rightarrow> bool" where
  "links_out s s' A \<longleftrightarrow> (\<forall>x. x \<notin> A \<longrightarrow> cprv s' x = cprv s x \<and> cnxt s' x = cnxt s x)"

lemma links_out_trans: "links_out s s' A \<Longrightarrow> links_out s' s'' B \<Longrightarrow> links_out s s'' (A \<union> B)"
  by (simp add: links_out_def)

lemma links_out_mono: "links_out s s' A \<Longrightarrow> A \<subseteq> B \<Longrightarrow> links_out s s' B"
  by (auto simp: links_out_def)

lemma links_out_dseg:
  "links_out s s' A \<Longrightarrow> set xs \<inter> A = {} \<Longrightarrow>
   dseg (cprv s') (cnxt s') p xs q = dseg (cprv s) (cnxt s) p xs q"
  by (rule dseg_cong) (auto simp: links_out_def)

section \<open>Changing one bucket\<close>

lemma chained_update:
  assumes ch: "chained s bs C" and i: "i < length bs"
    and new: "hh_head b = head_or xs None" "b_count b = of_nat (length xs)" "distinct xs"
      "dseg (cprv s') (cnxt s') None xs None"
    and out: "links_out s s' A" "\<And>j. j < length bs \<Longrightarrow> j \<noteq> i \<Longrightarrow> set (C ! j) \<inter> A = {}"
  shows "chained s' (bs[i := b]) (C[i := xs])"
  unfolding chained_def
proof (intro conjI allI impI)
  from ch have len: "length C = length bs" by (simp add: chained_def)
  then show "length (C[i := xs]) = length (bs[i := b])" by simp
  fix j assume "j < length (bs[i := b])"
  then have j: "j < length bs" by simp
  note old = chainedD [OF ch j]
  show "hh_head (bs[i := b] ! j) = head_or (C[i := xs] ! j) None"
    "b_count (bs[i := b] ! j) = of_nat (length (C[i := xs] ! j))" "distinct (C[i := xs] ! j)"
    using old new i j len by (cases "j = i"; simp)+
  show "dseg (cprv s') (cnxt s') None (C[i := xs] ! j) None"
    using old(5) new(4) i j len links_out_dseg [OF out(1) out(2) [OF j]] by (cases "j = i") simp_all
qed

lemma spread_disjoint:
  "spread s n C A \<Longrightarrow> i < length C \<Longrightarrow> j < length C \<Longrightarrow> j \<noteq> i \<Longrightarrow> set (C ! j) \<inter> set (C ! i) = {}"
  by (auto simp: spread_def)

lemma spread_sub: "spread s n C A \<Longrightarrow> i < length C \<Longrightarrow> set (C ! i) \<subseteq> A"
  by (auto simp: spread_def)

text \<open>\<open>HASH_ADD_TO_BKT\<close> and the inner loop of \<open>HASH_EXPAND_BUCKETS\<close> put an item in front of a chain.\<close>

definition push_links :: "addr \<Rightarrow> addr option \<Rightarrow> 'a uheap_scheme \<Rightarrow> 'a uheap_scheme" where
  "push_links a old s = upd_opt old (\<lambda>h. h\<lparr>hh_prev := Some a\<rparr>)
     (upd_opt (Some a) (\<lambda>h. h\<lparr>hh_next := old, hh_prev := None\<rparr>) s)"

lemma chain_links_swap:
  "(\<lambda>h :: hh. h\<lparr>hh_prev := u, hh_next := v\<rparr>) = (\<lambda>h. h\<lparr>hh_next := v, hh_prev := u\<rparr>)"
proof
  fix h :: hh show "h\<lparr>hh_prev := u, hh_next := v\<rparr> = h\<lparr>hh_next := v, hh_prev := u\<rparr>" by (cases h) simp
qed

lemma push_front:
  assumes ch: "chained s bs C" and sp: "spread s n C A" and i: "i < length bs" "slot s n a = i"
    and A: "A \<subseteq> dom (items s)" "a \<in> dom (items s)" "a \<notin> A"
    and b: "hh_head b = Some a" "b_count b = b_count (bs ! i) + 1"
  defines "s' \<equiv> push_links a (hh_head (bs ! i)) s"
  shows "chained s' (bs[i := b]) (C[i := a # C ! i])" "spread s' n (C[i := a # C ! i]) (insert a A)"
    "rechained s s'" "links_out s s' (insert a A)"
proof -
  note c = chainedD [OF ch i(1)]
  have iC: "i < length C" using i(1) c(1) by simp
  have sub: "set (C ! i) \<subseteq> A" by (rule spread_sub [OF sp iC])
  have hd: "x \<in> dom (items s)" "x \<in> set (C ! i)" if "hh_head (bs ! i) = Some x" for x
    using that c(2) sub A(1) by (cases "C ! i"; auto)+
  have a: "a \<notin> set (C ! i)" using sub A(3) by blast
  have "set_option (hh_head (bs ! i)) \<subseteq> dom (items s)" using hd(1) by (cases "hh_head (bs ! i)") auto
  note upd = this link_updates both_links [OF A(2)]
  have links: "cprv s' = put ((cprv s)(a := None)) (hh_head (bs ! i)) (Some a)"
    "cnxt s' = (cnxt s)(a := hh_head (bs ! i))" "prv s' = prv s" "nxt s' = nxt s" "hmeta s' = hmeta s"
    by (simp_all add: s'_def push_links_def upd)
  show re: "rechained s s'" using links by (simp add: rechained_def s'_def push_links_def)
  have out: "links_out s s' (insert a (set (C ! i)))"
    using hd(2) by (auto simp: links_out_def links put_def split: option.splits)
  from sub have "insert a (set (C ! i)) \<subseteq> insert a A" by blast
  then show "links_out s s' (insert a A)" by (rule links_out_mono [OF out])
  show "chained s' (bs[i := b]) (C[i := a # C ! i])"
  proof (rule chained_update [OF ch i(1) _ _ _ _ out])
    show "dseg (cprv s') (cnxt s') None (a # C ! i) None"
      using dseg_front [OF c(5) a c(4)] by (simp add: links c(2))
    fix j assume j: "j < length bs" "j \<noteq> i"
    with spread_disjoint [OF sp iC, of j] spread_sub [OF sp, of j] c(1) A(3)
    show "set (C ! j) \<inter> insert a (set (C ! i)) = {}" by auto
  qed (use a b c in auto)
  show "spread s' n (C[i := a # C ! i]) (insert a A)"
    unfolding spread_def slot_rechained [OF links(5)]
  proof (intro allI impI)
    fix j assume "j < length (C[i := a # C ! i])"
    then show "set (C[i := a # C ! i] ! j) = {x \<in> insert a A. slot s n x = j}"
      using sp i(2) iC by (cases "j = i") (auto simp: spread_def)
  qed
qed

section \<open>Doubling the buckets\<close>

lemma grow_bucket_sel [simp]:
  "hh_head (grow_bucket ideal b) = hh_head b" "b_count (grow_bucket ideal b) = b_count b + 1"
  by (simp_all add: grow_bucket_def Let_def)

lemma expand_chain_step:
  fixes s :: "'a uheap_scheme"
  assumes x: "items s x = Some it" and i: "slot s nb2 x < length nbs"
    and hd: "\<And>y. hh_head (nbs ! slot s nb2 x) = Some y \<Longrightarrow> y \<in> dom (items s)"
  shows "expand_chain nb2 ideal (Suc m) (Some x) nbs ni s =
    expand_chain nb2 ideal m (hh_next (i_hh it))
      (nbs[slot s nb2 x := grow_bucket ideal (nbs ! slot s nb2 x)\<lparr>hh_head := Some x\<rparr>])
      (if ideal < b_count (nbs ! slot s nb2 x) + 1 then ni + 1 else ni)
      (push_links x (hh_head (nbs ! slot s nb2 x)) s)"
proof -
  let ?b = "nbs ! slot s nb2 x"
  have mod1: "modify_hh (Some x) (\<lambda>h. h\<lparr>hh_prev := None, hh_next := hh_head ?b\<rparr>) s =
      Inr (upd_opt (Some x) (\<lambda>h. h\<lparr>hh_next := hh_head ?b, hh_prev := None\<rparr>) s)"
    unfolding chain_links_swap by (rule modify_hh_eq) (use x in auto)
  have mod2: "(if hh_head ?b = None then Inr t else modify_hh (hh_head ?b) (\<lambda>h. h\<lparr>hh_prev := Some x\<rparr>) t) =
      Inr (upd_opt (hh_head ?b) (\<lambda>h. h\<lparr>hh_prev := Some x\<rparr>) t)" if "dom (items t) = dom (items s)"
    for t :: "'a uheap_scheme"
    by (rule modify_opt) (use hd that in auto)
  have bi: "unat (hash_to_bkt (h_hashv (i_hh it)) nb2) = slot s nb2 x" by (simp add: slot_def hv_def hf_def x)
  show ?thesis
    using i by (simp add: x bi Let_def mod1 mod2 push_links_def cong del: if_weak_cong)
qed

lemma expand_chain_ok:
  assumes "chained s nbs N" "spread s nb2 N A" "\<And>x. slot s nb2 x < length nbs"
    and "dseg (cprv s) (cnxt s) p xs None" "distinct xs" "set xs \<inter> A = {}"
    and "A \<union> set xs \<subseteq> dom (items s)" "length xs < n"
  shows "\<exists>nbs' ni' s' N'. expand_chain nb2 ideal n (head_or xs None) nbs ni s = Inr (nbs', ni', s') \<and>
    chained s' nbs' N' \<and> spread s' nb2 N' (A \<union> set xs) \<and> length nbs' = length nbs \<and> rechained s s' \<and>
    links_out s s' (A \<union> set xs)"
  using assms
proof (induction xs arbitrary: n p nbs ni s N A)
  case Nil
  then show ?case by (cases n) (auto simp: links_out_def)
next
  case (Cons x xs)
  from Cons.prems(8) obtain m where n: "n = Suc m" "length xs < m" by (cases n) auto
  let ?i = "slot s nb2 x"
  have i: "?i < length nbs" by (rule Cons.prems(3))
  have x: "x \<in> dom (items s)" "x \<notin> A" "A \<subseteq> dom (items s)" using Cons.prems(6,7) by auto
  then obtain it where it: "items s x = Some it" by blast
  let ?b = "nbs ! ?i"
  let ?new = "grow_bucket ideal ?b\<lparr>hh_head := Some x\<rparr>" and ?ni = "if ideal < b_count ?b + 1 then ni + 1 else ni"
  let ?s = "push_links x (hh_head ?b) s"
  have new: "hh_head ?new = Some x" "b_count ?new = b_count ?b + 1" by simp_all
  note push = push_front [OF Cons.prems(1,2) i refl x(3,1,2) new(1,2)]
  have "hh_next (i_hh it) = cnxt s x" by (simp add: cnxt_def hf_def it)
  then have nx: "hh_next (i_hh it) = head_or xs None" "dseg (cprv s) (cnxt s) (Some x) xs None"
    using Cons.prems(4) by simp_all
  note c = chainedD [OF Cons.prems(1) i]
  have hd: "y \<in> dom (items s)" if "hh_head ?b = Some y" for y
    using that c(1,2) spread_sub [OF Cons.prems(2), of ?i] i x(3) by (cases "N ! ?i") auto
  have step: "expand_chain nb2 ideal n (head_or (x # xs) None) nbs ni s =
      expand_chain nb2 ideal m (head_or xs None) (nbs[?i := ?new]) ?ni ?s"
    using expand_chain_step [OF it i hd] by (simp add: n(1) nx(1))
  have apart: "set xs \<inter> insert x A = {}" using Cons.prems(5,6) by auto
  have "slot ?s nb2 y < length (nbs[?i := ?new])" for y
    using Cons.prems(3) slot_rechained [of ?s s] push(3) by (simp add: rechained_def)
  moreover have "dseg (cprv ?s) (cnxt ?s) (Some x) xs None"
    using nx(2) links_out_dseg [OF push(4) apart] by simp
  moreover have "insert x A \<union> set xs \<subseteq> dom (items ?s)"
    using Cons.prems(7) same_storeD(1) [of s ?s] push(3) by (simp add: rechained_def)
  ultimately obtain nbs' ni' s' N' where
    r: "expand_chain nb2 ideal m (head_or xs None) (nbs[?i := ?new]) ?ni ?s
        = Inr (nbs', ni', s')"
      "chained s' nbs' N'" "spread s' nb2 N' (insert x A \<union> set xs)" "length nbs' = length (nbs[?i := ?new])"
      "rechained ?s s'" "links_out ?s s' (insert x A \<union> set xs)"
    using Cons.IH [OF push(1,2) _ _ _ apart _ n(2)] Cons.prems(5) by (metis distinct.simps(2))
  have eq: "A \<union> set (x # xs) = insert x A \<union> set xs" by auto
  have "links_out s s' (insert x A \<union> set xs)"
    using links_out_trans [OF push(4) r(6)] by (rule links_out_mono) auto
  then show ?case
    unfolding eq using step r rechained_trans [OF push(3) r(5)] by auto
qed

text \<open>A chain of the old buckets that has not been moved yet.\<close>

definition waiting :: "'a uheap_scheme \<Rightarrow> ubucket \<Rightarrow> addr list \<Rightarrow> bool" where
  "waiting s b xs \<longleftrightarrow> hh_head b = head_or xs None \<and> dseg (cprv s) (cnxt s) None xs None \<and>
     distinct xs \<and> length xs < Suc (tick s)"

lemma expand_all_ok:
  assumes "list_all2 (waiting s) bs Cs" "chained s nbs N" "spread s nb2 N A" "\<And>x. slot s nb2 x < length nbs"
    and "distinct (concat Cs)" "set (concat Cs) \<inter> A = {}" "A \<union> set (concat Cs) \<subseteq> dom (items s)"
  shows "\<exists>nbs' ni' s' N'. expand_all nb2 ideal bs nbs ni s = Inr (nbs', ni', s') \<and>
    chained s' nbs' N' \<and> spread s' nb2 N' (A \<union> set (concat Cs)) \<and> length nbs' = length nbs \<and> rechained s s'"
  using assms
proof (induction bs arbitrary: Cs nbs ni s N A)
  case Nil
  then show ?case by auto
next
  case (Cons b bs)
  from Cons.prems(1) obtain xs Ds where Cs: "Cs = xs # Ds" and w: "waiting s b xs" "list_all2 (waiting s) bs Ds"
    by (cases Cs) auto
  from w(1) have xs: "hh_head b = head_or xs None" "dseg (cprv s) (cnxt s) None xs None" "distinct xs"
    "length xs < Suc (tick s)" by (simp_all add: waiting_def)
  have apart: "set xs \<inter> A = {}" "set (concat Ds) \<inter> (A \<union> set xs) = {}" "distinct (concat Ds)"
    using Cons.prems(5,6) Cs by auto
  have dom: "A \<union> set xs \<subseteq> dom (items s)" using Cons.prems(7) Cs by auto
  from expand_chain_ok [OF Cons.prems(2,3,4) xs(2,3) apart(1) dom xs(4), of ideal ni]
  obtain nbs1 ni1 s1 N1 where
    1: "expand_chain nb2 ideal (Suc (tick s)) (head_or xs None) nbs ni s = Inr (nbs1, ni1, s1)"
      "chained s1 nbs1 N1" "spread s1 nb2 N1 (A \<union> set xs)" "length nbs1 = length nbs" "rechained s s1"
      "links_out s s1 (A \<union> set xs)" by blast
  have "waiting s1 d ys" if "waiting s d ys" "set ys \<inter> (A \<union> set xs) = {}" for d ys
    using that links_out_dseg [OF 1(6) that(2)] 1(5) by (simp add: waiting_def rechained_def)
  moreover have "set ys \<inter> (A \<union> set xs) = {}" if "ys \<in> set Ds" for ys using apart(2) that by auto
  ultimately have w1: "list_all2 (waiting s1) bs Ds"
    using w(2) by (simp add: list_all2_conv_all_nth)
  have "slot s1 nb2 x < length nbs1" for x
    using Cons.prems(4) slot_rechained [of s1 s] 1(4,5) by (simp add: rechained_def)
  moreover have "A \<union> set xs \<union> set (concat Ds) \<subseteq> dom (items s1)"
    using Cons.prems(7) Cs 1(5) same_storeD(1) [of s s1] by (auto simp: rechained_def)
  ultimately obtain nbs' ni' s' N' where
    "expand_all nb2 ideal bs nbs1 ni1 s1 = Inr (nbs', ni', s')" "chained s' nbs' N'"
    "spread s' nb2 N' (A \<union> set xs \<union> set (concat Ds))" "length nbs' = length nbs1" "rechained s1 s'"
    using Cons.IH [OF w1 1(2,3) _ apart(3,2)] by blast
  moreover have "A \<union> set (concat Cs) = A \<union> set xs \<union> set (concat Ds)" by (auto simp: Cs)
  ultimately show ?case using 1(1,4) rechained_trans [OF 1(5)] xs(1) by auto
qed

lemma spread_concat:
  assumes sp: "spread s n C A" and "\<And>x. x \<in> A \<Longrightarrow> slot s n x < length C"
    and "\<And>i. i < length C \<Longrightarrow> distinct (C ! i)"
  shows "set (concat C) = A" "distinct (concat C)"
proof -
  show "set (concat C) = A"
  proof (intro equalityI subsetI)
    fix x assume "x \<in> set (concat C)"
    then obtain i where "i < length C" "x \<in> set (C ! i)" by (auto simp: in_set_conv_nth [of _ C])
    with spread_sub [OF sp] show "x \<in> A" by blast
  next
    fix x assume x: "x \<in> A"
    with assms(2) sp have "x \<in> set (C ! slot s n x)" "slot s n x < length C" by (simp_all add: spread_def)
    then show "x \<in> set (concat C)" by (metis concat_eq_concat_iff in_set_conv_nth UN_I set_concat)
  qed
  have len: "length (concat C) = (\<Sum>i<length C. length (C ! i))"
    by (simp add: length_concat sum_list_sum_nth atLeast0LessThan)
  have "card (set (concat C)) = card (\<Union>i<length C. set (C ! i))"
  proof -
    have "set C = (!) C ` {..<length C}" by (auto simp: set_conv_nth)
    then show ?thesis by simp
  qed
  also have "\<dots> = (\<Sum>i<length C. card (set (C ! i)))"
    by (rule card_UN_disjoint) (use spread_disjoint [OF sp] in auto)
  also have "\<dots> = length (concat C)" unfolding len
    by (rule sum.cong) (use assms(3) in \<open>auto simp: distinct_card\<close>)
  finally show "distinct (concat C)" by (rule card_distinct)
qed

lemma unat_pow2: "k < 32 \<Longrightarrow> unat (2 ^ k :: u32) = 2 ^ k"
proof -
  assume "k < 32"
  then have "(2 :: nat) ^ k < 2 ^ 32" by (intro power_strict_increasing) simp_all
  then have "unat (of_nat (2 ^ k) :: u32) = 2 ^ k" by (simp only: unsigned_of_nat take_bit_nat_eq_self_iff) (use \<open>k < 32\<close> in simp)
  then show ?thesis by simp
qed

lemma expand_buckets_ok:
  assumes t: "tbls s ta = Some t" and bu: "bucketed s t A" and mem: "e_malloc E (tick s)"
    and A: "A \<subseteq> dom (items s)" "\<And>a. a \<in> A \<Longrightarrow> a < tick s" and small: "num_buckets t < 2 ^ 31"
  shows "\<exists>s' t'. hash_expand_buckets E ta s = Inr s' \<and> same_store s s' \<and> tbls s' = (tbls s)(ta \<mapsto> t') \<and>
    bucketed s' t' A \<and> t_tail t' = t_tail t \<and> num_items t' = num_items t \<and> num_buckets t' = 2 * num_buckets t \<and>
    prv s' = prv s \<and> nxt s' = nxt s \<and> hmeta s' = hmeta s"
proof -
  from bucket_chain [OF bu A(2)] obtain k C where
    C: "sized t k" "chained s (buckets t) C" "spread s (num_buckets t) C A"
    "\<forall>i < length C. length (C ! i) < Suc (tick s)" by blast
  from C(1) have k: "k < 32" "num_buckets t = 2 ^ k" "log2_num_buckets t = of_nat k" "length (buckets t) = 2 ^ k"
    by (simp_all add: sized_def)
  have k31: "k < 31"
  proof (rule ccontr)
    assume "\<not> k < 31"
    with k(1) have "k = 31" by simp
    with k(2) small show False by simp
  qed
  have unat: "unat (2 ^ k :: u32) = 2 ^ k" using k(1) by (rule unat_pow2)
  let ?s = "step s" and ?n = "2 * 2 ^ k :: u32"
  let ?t' = "t\<lparr>num_buckets := ?n, log2_num_buckets := of_nat (Suc k), buckets := replicate (2 * 2 ^ k) bucket_zero\<rparr>"
  have n: "?n = 2 ^ Suc k" by simp
  have lenC: "length C = length (buckets t)" using C(2) by (simp add: chained_def)
  have w: "list_all2 (waiting ?s) (buckets t) C"
    unfolding list_all2_conv_all_nth
    using lenC C(4) chainedD [OF C(2)] by (simp add: waiting_def less_Suc_eq)
  have slots: "slot s (num_buckets t) x < length C" for x using slot_less [OF C(1), of s x] lenC k(4) by simp
  have dist: "distinct (C ! i)" if "i < length C" for i using chainedD(4) [OF C(2)] that lenC by simp
  note cc = spread_concat [OF C(3) slots dist]
  let ?N = "replicate (2 * 2 ^ k) [] :: addr list list" and ?nbs = "replicate (2 * 2 ^ k) bucket_zero"
  have "chained ?s ?nbs ?N" by (simp add: chained_def bucket_zero_def)
  moreover have "spread ?s ?n ?N {}" by (simp add: spread_def)
  moreover have "slot ?s ?n x < length ?nbs" for x
  proof -
    have "sized ?t' (Suc k)" using k31 by (simp add: sized_def)
    from slot_less [OF this, of ?s x] show ?thesis by simp
  qed
  moreover have "{} \<union> set (concat C) \<subseteq> dom (items ?s)" using cc(1) A(1) by simp
  ultimately obtain nbs' ni' s' N' where r:
    "expand_all ?n (drop_bit (unat (log2_num_buckets t + 1)) (num_items t) +
               (if num_items t AND (num_buckets t * 2 - 1) \<noteq> 0 then 1 else 0)) (buckets t) ?nbs 0 ?s = Inr (nbs', ni', s')"
    "chained s' nbs' N'" "spread s' ?n N' A" "length nbs' = 2 * 2 ^ k" "rechained ?s s'"
    using expand_all_ok [OF w, of ?nbs ?N ?n "{}"] cc by (metis Int_empty_right Un_empty_left length_replicate)
  let ?ineff = "if drop_bit 1 (num_items t) < ni' then ineff_expands t + 1 else 0"
  let ?r = "t\<lparr>buckets := nbs', num_buckets := num_buckets t * 2, log2_num_buckets := log2_num_buckets t + 1,
      ideal_chain_maxlen := drop_bit (unat (log2_num_buckets t + 1)) (num_items t) +
               (if num_items t AND (num_buckets t * 2 - 1) \<noteq> 0 then 1 else 0),
      nonideal_items := ni', ineff_expands := ?ineff, noexpand := (if 1 < ?ineff then 1 else noexpand t)\<rparr>"
  have ex: "hash_expand_buckets E ta s = Inr (set_tbl ta ?r s')"
    using t mem r(1) by (simp add: hash_expand_buckets_def Let_def k(2) unat mult.commute)
  have "sized ?r (Suc k)" using k31 r(4) by (simp add: sized_def k)
  moreover have "chained (set_tbl ta ?r s') nbs' N'" using r(2) by (simp add: chained_def)
  moreover have "spread (set_tbl ta ?r s') (num_buckets ?r) N' A"
    using r(3) by (simp add: spread_def slot_def k(2) mult.commute)
  ultimately have "bucketed (set_tbl ta ?r s') ?r A" unfolding bucketed_def by (intro exI [of _ "Suc k"] exI [of _ N']) simp
  with ex r(5) show ?thesis
    by (intro exI [of _ "set_tbl ta ?r s'"] exI [of _ ?r]) (auto simp: rechained_def same_store_def mult.commute)
qed

end
