(* ===== verification/Uthash_Map.thy ===== *)
theory Uthash_Map
  imports Uthash_Ops
begin

text \<open>
  The hash table as a finite map from keys to items: \<open>HASH_ADD_INT\<close> and \<open>HASH_DEL\<close> keep a table
  well-formed and act on the list of its items, which \<open>HASH_FIND_INT\<close> searches.
\<close>

section \<open>The buckets\<close>

lemma push_links_tbls [simp]: "tbls (push_links a p s) = tbls s"
  by (simp add: push_links_def)

lemma bkt_linked:
  fixes s :: "'a uheap_scheme" and ta :: addr
  assumes bu: "bucketed s t A" and A: "insert a A \<subseteq> dom (items s)" "a \<notin> A"
  defines "i \<equiv> slot s (num_buckets t) a"
  defines "bk \<equiv> buckets t ! i"
  defines "t1 \<equiv> t\<lparr>buckets := (buckets t)[i := bk\<lparr>b_count := b_count bk + 1, hh_head := Some a\<rparr>]\<rparr>"
  defines "s1 \<equiv> set_tbl ta t1 (push_links a (hh_head bk) s)"
  shows "i < length (buckets t)"
    "modify_hh (Some a) (\<lambda>h. h\<lparr>hh_next := hh_head bk, hh_prev := None\<rparr>) s =
      Inr (upd_opt (Some a) (\<lambda>h. h\<lparr>hh_next := hh_head bk, hh_prev := None\<rparr>) s)"
    "\<And>u :: 'a uheap_scheme. dom (items u) = dom (items s) \<Longrightarrow>
      (if hh_head bk = None then Inr u else modify_hh (hh_head bk) (\<lambda>h. h\<lparr>hh_prev := Some a\<rparr>) u) =
      Inr (upd_opt (hh_head bk) (\<lambda>h. h\<lparr>hh_prev := Some a\<rparr>) u)"
    "bucketed s1 t1 (insert a A)" "same_store s s1" "tick s1 = tick s" "tbls s1 = (tbls s)(ta \<mapsto> t1)"
    "prv s1 = prv s" "nxt s1 = nxt s" "hmeta s1 = hmeta s"
proof -
  from bu obtain k C where C: "sized t k" "chained s (buckets t) C" "spread s (num_buckets t) C A"
    by (auto simp: bucketed_def)
  let ?new = "bk\<lparr>b_count := b_count bk + 1, hh_head := Some a\<rparr>"
  show i: "i < length (buckets t)" using slot_less [OF C(1), of s a] C(1) by (simp add: sized_def i_def)
  have a: "a \<in> dom (items s)" "A \<subseteq> dom (items s)" using A(1) by auto
  have sl: "slot s (num_buckets t) a = i" by (simp add: i_def)
  have new: "hh_head ?new = Some a" "b_count ?new = b_count (buckets t ! i) + 1" by (simp_all add: bk_def)
  note push = push_front [OF C(2,3) i sl a(2,1) A(2) new, folded bk_def]
  note c = chainedD [OF C(2) i, folded bk_def]
  have hd: "y \<in> dom (items s)" if "hh_head bk = Some y" for y
    using that c(1,2) spread_sub [OF C(3), of i] i a(2) by (cases "C ! i") auto
  show "modify_hh (Some a) (\<lambda>h. h\<lparr>hh_next := hh_head bk, hh_prev := None\<rparr>) s =
      Inr (upd_opt (Some a) (\<lambda>h. h\<lparr>hh_next := hh_head bk, hh_prev := None\<rparr>) s)"
    by (rule modify_hh_eq [OF a(1)])
  show "(if hh_head bk = None then Inr u else modify_hh (hh_head bk) (\<lambda>h. h\<lparr>hh_prev := Some a\<rparr>) u) =
      Inr (upd_opt (hh_head bk) (\<lambda>h. h\<lparr>hh_prev := Some a\<rparr>) u)" if "dom (items u) = dom (items s)"
    for u :: "'a uheap_scheme"
    by (rule modify_opt) (use hd that in auto)
  have "sized t1 k" using C(1) by (simp add: sized_def t1_def)
  moreover have "chained s1 (buckets t1) (C[i := a # C ! i])" using push(1) by (simp add: chained_def s1_def t1_def)
  moreover have "spread s1 (num_buckets t1) (C[i := a # C ! i]) (insert a A)"
    using push(2) by (simp add: spread_def slot_def s1_def t1_def)
  ultimately show "bucketed s1 t1 (insert a A)" unfolding bucketed_def by blast
  show "same_store s s1" "tick s1 = tick s" "tbls s1 = (tbls s)(ta \<mapsto> t1)" "prv s1 = prv s"
    "nxt s1 = nxt s" "hmeta s1 = hmeta s" using push(3) by (simp_all add: rechained_def s1_def)
qed

lemma add_to_bkt_ok:
  fixes s :: "'a uheap_scheme"
  assumes t: "tbls s ta = Some t" and bu: "bucketed s t A" and mem: "\<And>n. e_malloc E n"
    and A: "insert a A \<subseteq> dom (items s)" "\<And>x. x \<in> insert a A \<Longrightarrow> x < tick s" "a \<notin> A"
    and small: "num_buckets t < 2 ^ 31"
  shows "\<exists>s' t'. add_to_bkt E ta (hash_to_bkt (hv s a) (num_buckets t)) a s = Inr s' \<and> same_store s s' \<and>
    tbls s' = (tbls s)(ta \<mapsto> t') \<and> bucketed s' t' (insert a A) \<and> t_tail t' = t_tail t \<and>
    num_items t' = num_items t \<and> prv s' = prv s \<and> nxt s' = nxt s \<and> hmeta s' = hmeta s"
proof -
  let ?i = "slot s (num_buckets t) a" and ?bk = "buckets t ! slot s (num_buckets t) a"
  let ?t = "t\<lparr>buckets := (buckets t)[?i := ?bk\<lparr>b_count := b_count ?bk + 1, hh_head := Some a\<rparr>]\<rparr>"
  let ?s1 = "set_tbl ta ?t (push_links a (hh_head ?bk) s)"
  note l = bkt_linked [OF bu A(1,3)]
  have add: "add_to_bkt E ta (hash_to_bkt (hv s a) (num_buckets t)) a s =
      (if (expand_mult ?bk + 1) * 10 \<le> b_count ?bk + 1 \<and> noexpand t = 0
       then hash_expand_buckets E ta ?s1 else Inr ?s1)"
    using l(1-3) t
    by (simp add: add_to_bkt_def bucket_at_def set_bucket_def push_links_def slot_def [symmetric] Let_def
        cong del: if_weak_cong)
  show ?thesis
  proof (cases "(expand_mult ?bk + 1) * 10 \<le> b_count ?bk + 1 \<and> noexpand t = 0")
    case False
    then have "add_to_bkt E ta (hash_to_bkt (hv s a) (num_buckets t)) a s = Inr ?s1" by (simp only: add if_False)
    then show ?thesis by (intro exI [of _ ?s1] exI [of _ ?t] conjI) (use l(4-10) in simp_all)
  next
    case True
    have "insert a A \<subseteq> dom (items ?s1)" using A(1) same_storeD(1) [OF l(5)] by simp
    moreover have "x < tick ?s1" if "x \<in> insert a A" for x using A(2) [OF that] l(6) by simp
    moreover have "num_buckets ?t < 2 ^ 31" using small by simp
    moreover have "tbls ?s1 ta = Some ?t" by simp
    ultimately obtain s2 t2 where
      ex: "hash_expand_buckets E ta ?s1 = Inr s2" "same_store ?s1 s2" "tbls s2 = (tbls ?s1)(ta \<mapsto> t2)"
      "bucketed s2 t2 (insert a A)" "t_tail t2 = t_tail ?t" "num_items t2 = num_items ?t"
      "prv s2 = prv ?s1" "nxt s2 = nxt ?s1" "hmeta s2 = hmeta ?s1"
      using expand_buckets_ok [OF _ l(4) mem] by blast
    have "add_to_bkt E ta (hash_to_bkt (hv s a) (num_buckets t)) a s = Inr s2"
      unfolding add if_P [OF True] by (rule ex(1))
    then show ?thesis
      by (intro exI [of _ s2] exI [of _ t2] conjI)
        (use ex same_store_trans [OF l(5) ex(2)] l(7-10) in simp_all)
  qed
qed

lemma del_in_bkt_ok:
  fixes s :: "'a uheap_scheme"
  assumes t: "tbls s ta = Some t" and bu: "bucketed s t A" and A: "A \<subseteq> dom (items s)" "d \<in> A"
  shows "\<exists>s' t'. del_in_bkt ta (hash_to_bkt (hv s d) (num_buckets t)) d s = Inr s' \<and> same_store s s' \<and>
    tick s' = tick s \<and> tbls s' = (tbls s)(ta \<mapsto> t') \<and> bucketed s' t' (A - {d}) \<and> t_tail t' = t_tail t \<and>
    num_items t' = num_items t \<and> prv s' = prv s \<and> nxt s' = nxt s \<and> hmeta s' = hmeta s"
proof -
  from bu obtain k C where C: "sized t k" "chained s (buckets t) C" "spread s (num_buckets t) C A"
    by (auto simp: bucketed_def)
  let ?i = "slot s (num_buckets t) d" and ?bk = "buckets t ! slot s (num_buckets t) d"
  have i: "?i < length (buckets t)" using slot_less [OF C(1), of s d] C(1) by (simp add: sized_def)
  note c = chainedD [OF C(2) i]
  have iC: "?i < length C" using i c(1) by simp
  have "d \<in> set (C ! ?i)" using C(3) A(2) iC by (simp add: spread_def)
  then obtain us vs where ch: "C ! ?i = us @ d # vs" by (auto dest: split_list)
  note rm = dseg_remove [OF c(5) [unfolded ch] c(4) [unfolded ch]]
  have sub: "set (C ! ?i) \<subseteq> dom (items s)" using spread_sub [OF C(3) iC] A(1) by blast
  have in_chain: "y \<in> set (C ! ?i) - {d}" if "cprv s d = Some y \<or> cnxt s d = Some y" for y
    using that rm(2,3) c(4) unfolding ch by (cases us rule: rev_cases; cases vs; auto)
  have neigh: "y \<in> dom (items s)" if "cprv s d = Some y \<or> cnxt s d = Some y" for y
    using in_chain [OF that] sub by blast
  obtain di where di: "items s d = Some di" using A by blast
  have hdi: "hh_prev (i_hh di) = cprv s d" "hh_next (i_hh di) = cnxt s d"
    by (simp_all add: cprv_def cnxt_def hf_def di)
  let ?new = "?bk\<lparr>b_count := b_count ?bk - 1, hh_head := head_or (us @ vs) None\<rparr>"
  let ?t = "t\<lparr>buckets := (buckets t)[?i := ?new]\<rparr>"
  let ?s0 = "set_tbl ta ?t s"
  let ?s1 = "upd_opt (cprv s d) (\<lambda>h. h\<lparr>hh_next := cnxt s d\<rparr>) ?s0"
  let ?s2 = "upd_opt (cnxt s d) (\<lambda>h. h\<lparr>hh_prev := cprv s d\<rparr>) ?s1"
  have new: "(if hh_head (?bk\<lparr>b_count := b_count ?bk - 1\<rparr>) = Some d
      then ?bk\<lparr>b_count := b_count ?bk - 1\<rparr>\<lparr>hh_head := cnxt s d\<rparr> else ?bk\<lparr>b_count := b_count ?bk - 1\<rparr>) = ?new"
    using c(2,4) rm(3) unfolding ch by (cases us) auto
  have mod: "(if p = None then Inr u else modify_hh p f u) = Inr (upd_opt p f u)"
    if "p = cprv s d \<or> p = cnxt s d" "dom (items u) = dom (items s)" for p f and u :: "'a uheap_scheme"
    by (rule modify_opt) (metis neigh that)
  have del: "del_in_bkt ta (hash_to_bkt (hv s d) (num_buckets t)) d s = Inr ?s2"
    using i t mod [of "cprv s d"] mod [of "cnxt s d"] new
    by (simp add: del_in_bkt_def bucket_at_def set_bucket_def slot_def [symmetric] di hdi Let_def
        cong del: if_weak_cong)
  have "set_option (cprv s d) \<subseteq> dom (items s)" "set_option (cnxt s d) \<subseteq> dom (items s)"
    using neigh by (cases "cprv s d"; cases "cnxt s d"; auto)+
  note upd = this link_updates
  have links: "cprv ?s2 = put (cprv s) (cnxt s d) (cprv s d)" "cnxt ?s2 = put (cnxt s) (cprv s d) (cnxt s d)"
    "prv ?s2 = prv s" "nxt ?s2 = nxt s" "hmeta ?s2 = hmeta s" by (simp_all add: upd)
  have out: "links_out s ?s2 (set (C ! ?i))"
    unfolding links_out_def links
  proof (intro allI impI conjI)
    fix x assume "x \<notin> set (C ! ?i)"
    with in_chain have "cprv s d \<noteq> Some x" "cnxt s d \<noteq> Some x" by blast+
    then show "put (cprv s) (cnxt s d) (cprv s d) x = cprv s x" "put (cnxt s) (cprv s d) (cnxt s d) x = cnxt s x"
      by (simp_all add: put_other)
  qed
  have "chained ?s2 ((buckets t)[?i := ?new]) (C[?i := us @ vs])"
  proof (rule chained_update [OF C(2) i _ _ _ _ out])
    show "dseg (cprv ?s2) (cnxt ?s2) None (us @ vs) None" unfolding links by (rule rm(1))
    show "set (C ! j) \<inter> set (C ! ?i) = {}" if "j < length (buckets t)" "j \<noteq> ?i" for j
      using spread_disjoint [OF C(3) iC] that c(1) by simp
  qed (use c(3,4) in \<open>simp_all add: ch\<close>)
  moreover have "spread ?s2 (num_buckets t) (C[?i := us @ vs]) (A - {d})"
    unfolding spread_def slot_rechained [OF links(5)]
  proof (intro allI impI)
    fix j assume "j < length (C[?i := us @ vs])"
    then have j: "j < length C" "set (C ! j) = {x \<in> A. slot s (num_buckets t) x = j}"
      using C(3) by (simp_all add: spread_def)
    have "set (us @ vs) = set (C ! ?i) - {d}" using c(4) by (auto simp: ch)
    with j iC show "set (C[?i := us @ vs] ! j) = {x \<in> A - {d}. slot s (num_buckets t) x = j}"
      by (cases "j = ?i") auto
  qed
  moreover have "sized ?t k" using C(1) by (simp add: sized_def)
  ultimately have "bucketed ?s2 ?t (A - {d})" unfolding bucketed_def by auto
  with del links show ?thesis by (intro exI [of _ ?s2] exI [of _ ?t]) simp
qed

section \<open>Additions\<close>

text \<open>The list of a table, with the items \<open>A\<close> of it in the buckets.\<close>

lemma append_list_ok:
  assumes t: "tbls s ta = Some t" and l: "listed s ta t as"
    and a: "keyed s ta a" "a \<notin> set as" "ukey s a \<notin> ukey s ` set as"
  shows "\<exists>s' t'. hash_append_list (head_or as None) a s = Inr s' \<and> same_store s s' \<and> tick s' = tick s \<and>
    tbls s' = (tbls s)(ta \<mapsto> t') \<and> listed s' ta t' (as @ [a]) \<and> t' = t\<lparr>t_tail := Some a\<rparr> \<and>
    cprv s' = cprv s \<and> cnxt s' = cnxt s \<and> hmeta s' = hmeta s"
proof -
  note d = listedD [OF l]
  let ?s1 = "upd_opt (Some a) (\<lambda>h. h\<lparr>h_next := None, h_prev := Some (last as)\<rparr>) s"
  let ?s2 = "upd_opt (Some (last as)) (\<lambda>h. h\<lparr>h_next := Some a\<rparr>) ?s1"
  let ?t = "t\<lparr>t_tail := Some a\<rparr>"
  let ?s3 = "set_tbl ta ?t ?s2"
  have ad: "a \<in> dom (items s)" using a(1) by (simp add: keyed_def)
  have ld: "last as \<in> dom (items s)" using d(7) [of "last as"] d(1) by simp
  note upd = ld link_updates both_links [OF ad]
  have app: "hash_append_list (head_or as None) a s = Inr ?s3"
    using tbl_of_listed [OF l t] modify_hh_eq [OF ad] modify_hh_eq [of "last as" ?s1] ld d(6)
    by (simp add: hash_append_list_def)
  have links: "prv ?s3 = (prv s)(a := Some (last as))" "nxt ?s3 = (nxt s)(a := None, last as := Some a)"
    "cprv ?s3 = cprv s" "cnxt ?s3 = cnxt s" "hmeta ?s3 = hmeta s" by (simp_all add: upd)
  have key: "keyed ?s3 ta x" if "x \<in> set (as @ [a])" for x
    by (rule keyed_cong [of _ s]) (use links that a(1) d(4) in auto)
  have "listed ?s3 ta ?t (as @ [a])"
    unfolding listed_def
  proof (intro conjI ballI)
    show "distinct (as @ [a])" using d(2) a(2) by simp
    show "inj_on (ukey ?s3) (set (as @ [a]))" using d(3) a(3) by auto
    show "dseg (prv ?s3) (nxt ?s3) None (as @ [a]) None"
      unfolding links by (rule dseg_end [OF d(5) a(2) d(2,1)])
  qed (use key in auto)
  with app links show ?thesis by (intro exI [of _ ?s3] exI [of _ ?t]) simp
qed

text \<open>\<open>HASH_ADD_TO_TABLE\<close> completes a table whose list has the new item already, wherever it stands.\<close>

lemma add_to_table_ok:
  assumes t: "tbls s ta = Some t" and l: "listed s ta t bs" and a: "a \<in> set bs" and bu: "bucketed s t (set bs - {a})"
    and n: "num_items t + 1 = of_nat (length bs)" and mem: "\<And>n. e_malloc E n" and small: "num_buckets t < 2 ^ 31"
  shows "\<exists>s'. hash_add_to_table E (head_or bs None) (hash_jen (ukey s a)) a s = Inr s' \<and>
    same_store s s' \<and> ut_rep s' (head_or bs None) bs"
proof -
  note d = listedD [OF l]
  let ?A = "set bs - {a}"
  let ?t = "t\<lparr>num_items := num_items t + 1\<rparr>"
  let ?s = "set_tbl ta ?t s"
  have A: "insert a ?A = set bs" using a by blast
  have "bucketed ?s ?t ?A"
    using bu by (simp add: bucketed_def sized_def chained_def spread_def slot_def)
  moreover have "insert a ?A \<subseteq> dom (items ?s)" using d(7) A by auto
  moreover have "x < tick ?s" if "x \<in> insert a ?A" for x using d(4) [of x] that A by (auto simp: keyed_def)
  moreover have "a \<notin> ?A" by simp
  moreover have "num_buckets ?t < 2 ^ 31" "tbls ?s ta = Some ?t" using small by simp_all
  ultimately obtain s' t' where r: "add_to_bkt E ta (hash_to_bkt (hv ?s a) (num_buckets ?t)) a ?s = Inr s'"
    "same_store ?s s'" "tbls s' = (tbls ?s)(ta \<mapsto> t')" "bucketed s' t' (insert a ?A)"
    "t_tail t' = t_tail ?t" "num_items t' = num_items ?t" "prv s' = prv ?s" "nxt s' = nxt ?s" "hmeta s' = hmeta ?s"
    using add_to_bkt_ok [of ?s ta ?t ?A E a] mem by blast
  have st: "same_store s s'" using r(2) by (simp add: same_store_def)
  have "hv s a = hash_jen (ukey s a)" using d(4) [OF a] by (simp add: keyed_def hv_hmeta)
  with r(1) have add: "hash_add_to_table E (head_or bs None) (hash_jen (ukey s a)) a s = Inr s'"
    unfolding hash_add_to_table_def tbl_of_listed [OF l t] by simp
  have "listed s' ta t' bs"
    unfolding listed_def
  proof (intro conjI ballI)
    show "keyed s' ta x" if "x \<in> set bs" for x
      by (rule keyed_cong [OF _ _ _ _ d(4) [OF that]]) (use r(9) same_storeD [OF st] in simp_all)
    show "inj_on (ukey s') (set bs)" using d(3) same_storeD(2) [OF st] by simp
    show "dseg (prv s') (nxt s') None bs None" using d(5) r(7,8) by simp
    show "t_tail t' = Some (last bs)" using d(6) r(5) by simp
  qed (use d in simp_all)
  moreover have "tbls s' ta = Some t'" using r(3) by simp
  moreover have "num_items t' = of_nat (length bs)" using r(6) n by simp
  moreover have "bucketed s' t' (set bs)" using r(4) A by simp
  ultimately have "ut_rep s' (head_or bs None) bs" unfolding ut_rep_def by blast
  with add st show ?thesis by blast
qed

text \<open>The handle of a new item is given its key and hash before it is linked.\<close>

definition key_item :: "addr \<Rightarrow> u32 \<Rightarrow> 'a uheap_scheme \<Rightarrow> 'a uheap_scheme" where
  "key_item a h s = upd_opt (Some a) (\<lambda>x. x\<lparr>h_hashv := h, h_key := Some a, h_keylen := 4\<rparr>) s"

definition own_item :: "addr \<Rightarrow> addr \<Rightarrow> 'a uheap_scheme \<Rightarrow> 'a uheap_scheme" where
  "own_item a ta s = upd_opt (Some a) (\<lambda>x. x\<lparr>h_tbl := Some ta\<rparr>) s"

lemma key_item_fields:
  "prv (key_item a h s) = prv s" "nxt (key_item a h s) = nxt s" "cprv (key_item a h s) = cprv s"
  "cnxt (key_item a h s) = cnxt s" "x \<noteq> a \<Longrightarrow> hmeta (key_item a h s) x = hmeta s x"
  "prv (own_item a h' s) = prv s" "nxt (own_item a h' s) = nxt s" "cprv (own_item a h' s) = cprv s"
  "cnxt (own_item a h' s) = cnxt s" "x \<noteq> a \<Longrightarrow> hmeta (own_item a h' s) x = hmeta s x"
  by (auto simp: key_item_def own_item_def upd_opt_def upd_hh_def prv_def nxt_def cprv_def cnxt_def hmeta_def
      hf_def fun_eq_iff)

lemma key_item_meta:
  assumes "a \<in> dom (items s)"
  shows "hmeta (own_item a ta (key_item a h s)) a = (Some ta, Some a, 4, h)"
    "hmeta (key_item a h s) a = (fst (hmeta s a), Some a, 4, h)"
    "hmeta (own_item a ta s) a = (Some ta, snd (hmeta s a))"
  by (simp_all add: key_item_def own_item_def hmeta_def hf_upd_Some assms)

lemma key_item_sel [simp]:
  "tbls (key_item a h s) = tbls s" "tick (key_item a h s) = tick s" "dom (items (key_item a h s)) = dom (items s)"
  "ukey (key_item a h s) = ukey s" "held (key_item a h s) = held s"
  "tbls (own_item a ta s) = tbls s" "tick (own_item a ta s) = tick s" "dom (items (own_item a ta s)) = dom (items s)"
  "ukey (own_item a ta s) = ukey s" "held (own_item a ta s) = held s"
  "same_store s' (key_item a h s) = same_store s' s" "same_store s' (own_item a ta s) = same_store s' s"
  by (simp_all add: key_item_def own_item_def)

text \<open>The first item brings the table with it.\<close>

lemma first_table_ok:
  assumes a: "a \<in> dom (items s)" "a < tick s" and mem: "\<And>n. e_malloc E n"
  defines "h \<equiv> hash_jen (ukey s a)"
  shows "\<exists>s2 s3 ta t. modify_hh (Some a) (\<lambda>h. h\<lparr>h_next := None, h_prev := None\<rparr>) (key_item a h s) = Inr s2 \<and>
    hash_make_table E a s2 = Inr s3 \<and> same_store s s3 \<and> tbls s3 ta = Some t \<and> listed s3 ta t [a] \<and>
    bucketed s3 t (set [a] - {a}) \<and> num_items t = 0 \<and> num_buckets t = 32"
proof -
  let ?s1 = "key_item a h s"
  let ?s2 = "upd_opt (Some a) (\<lambda>h. h\<lparr>h_next := None, h_prev := None\<rparr>) ?s1"
  let ?t = "\<lparr>buckets = replicate 32 bucket_zero, num_buckets = 32, log2_num_buckets = 5,
                 num_items = 0, t_tail = Some a, ideal_chain_maxlen = 0, nonideal_items = 0,
                 ineff_expands = 0, noexpand = 0, signature = 0xa0111fe1\<rparr>"
  let ?ta = "tick s"
  let ?s3 = "own_item a ?ta (set_tbl ?ta ?t (step (step ?s2)))"
  have mod2: "modify_hh (Some a) (\<lambda>h. h\<lparr>h_next := None, h_prev := None\<rparr>) ?s1 = Inr ?s2"
    by (rule modify_hh_eq) (use a(1) in simp)
  have "modify_hh (Some a) (\<lambda>h. h\<lparr>h_tbl := Some ?ta\<rparr>) (set_tbl ?ta ?t (step (step ?s2))) = Inr ?s3"
    unfolding own_item_def by (rule modify_hh_eq) (use a(1) in simp)
  then have mk: "hash_make_table E a ?s2 = Inr ?s3" using mem by (simp add: hash_make_table_def Let_def)
  have "keyed ?s3 ?ta a"
    using a by (simp add: keyed_def key_item_meta h_def)
  moreover have "prv ?s3 a = None" "nxt ?s3 a = None"
    using a(1) by (simp_all add: key_item_fields both_links)
  ultimately have l: "listed ?s3 ?ta ?t [a]" by (simp add: listed_def)
  have "sized ?t 5" by (simp add: sized_def)
  moreover have "chained ?s3 (buckets ?t) (replicate 32 [])" by (simp add: chained_def bucket_zero_def)
  moreover have "spread ?s3 (num_buckets ?t) (replicate 32 []) {}" by (simp add: spread_def)
  ultimately have bu: "bucketed ?s3 ?t (set [a] - {a})" unfolding bucketed_def by auto
  have "tbls ?s3 ?ta = Some ?t" "num_items ?t = 0" "num_buckets ?t = 32" "same_store s ?s3" by simp_all
  with mod2 mk l bu show ?thesis by blast
qed

lemma first_item_ok:
  assumes a: "a \<in> dom (items s)" "a < tick s" and mem: "\<And>n. e_malloc E n"
  defines "h \<equiv> hash_jen (ukey s a)"
  shows "\<exists>s2 s3 s'. modify_hh (Some a) (\<lambda>h. h\<lparr>h_next := None, h_prev := None\<rparr>) (key_item a h s) = Inr s2 \<and>
    hash_make_table E a s2 = Inr s3 \<and> hash_add_to_table E (Some a) h a s3 = Inr s' \<and> same_store s s' \<and>
    ut_rep s' (Some a) [a]"
proof -
  from first_table_ok [OF a mem] obtain s2 s3 ta t where
    m: "modify_hh (Some a) (\<lambda>h. h\<lparr>h_next := None, h_prev := None\<rparr>) (key_item a h s) = Inr s2"
      "hash_make_table E a s2 = Inr s3" "same_store s s3"
    and t: "tbls s3 ta = Some t" "listed s3 ta t [a]" "bucketed s3 t (set [a] - {a})" "num_items t = 0"
      "num_buckets t = 32" unfolding h_def by blast
  have "a \<in> set [a]" "num_items t + 1 = of_nat (length [a])" "num_buckets t < 2 ^ 31" using t(4,5) by simp_all
  from add_to_table_ok [OF t(1,2) this(1) t(3) this(2) mem this(3)] obtain s' where
    s': "hash_add_to_table E (Some a) (hash_jen (ukey s3 a)) a s3 = Inr s'" "same_store s3 s'" "ut_rep s' (Some a) [a]"
    by auto
  have "ukey s3 a = ukey s a" using same_storeD(2) [OF m(3)] by simp
  with same_store_trans [OF m(3) s'(2)] m s' show ?thesis unfolding h_def by auto
qed

lemma hash_add_ok:
  assumes rep: "ut_rep s head as" and a: "a \<in> dom (items s)" "a < tick s" "a \<notin> set as" "ukey s a \<notin> ukey s ` set as"
    and mem: "\<And>n. e_malloc E n" and small: "\<And>ta t. tbl_of s head = Inr (ta, t) \<Longrightarrow> num_buckets t < 2 ^ 31"
  shows "\<exists>s'. hash_add_int E head a s = Inr (head_or (as @ [a]) None, s') \<and> same_store s s' \<and>
    ut_rep s' (head_or (as @ [a]) None) (as @ [a])"
proof -
  let ?h = "hash_jen (ukey s a)" and ?f = "\<lambda>x. x\<lparr>h_hashv := hash_jen (ukey s a), h_key := Some a, h_keylen := 4\<rparr>"
  let ?s1 = "key_item a ?h s"
  from a(1) obtain i where i: "items s a = Some i" by blast
  have h: "hash_jen (int_bytes (i_id i)) = ?h" by (simp add: ukey_def i)
  have mod1: "modify_hh (Some a) ?f s = Inr ?s1" unfolding key_item_def by (rule modify_hh_eq [OF a(1)])
  show ?thesis
  proof (cases "as = []")
    case True
    with rep have head: "head = None" by (simp add: ut_rep_def)
    from first_item_ok [OF a(1,2) mem] obtain s2 s3 s' where
      s': "modify_hh (Some a) (\<lambda>h. h\<lparr>h_next := None, h_prev := None\<rparr>) ?s1 = Inr s2" "hash_make_table E a s2 = Inr s3"
        "hash_add_to_table E (Some a) ?h a s3 = Inr s'" "same_store s s'" "ut_rep s' (Some a) [a]" by blast
    then have "hash_add_int E head a s = Inr (Some a, s')"
      using i mod1 by (simp add: hash_add_int_def h head Let_def)
    with s' show ?thesis by (simp add: True)
  next
    case False
    with rep obtain ta t where t: "head = head_or as None" "tbls s ta = Some t" "listed s ta t as"
      "bucketed s t (set as)" "num_items t = of_nat (length as)" by (auto simp: ut_rep_def)
    let ?s2 = "own_item a ta ?s1"
    have ne: "x \<noteq> a" if "x \<in> set as" for x using that a(3) by blast
    have l1: "listed ?s1 ta t as"
      by (rule listed_cong [OF t(3)]) (use ne in \<open>simp_all add: key_item_fields\<close>)
    have l2: "listed ?s2 ta t as"
      by (rule listed_cong [OF t(3)]) (use ne in \<open>simp_all add: key_item_fields\<close>)
    have tb: "tbls ?s1 ta = Some t" "tbls ?s2 ta = Some t" using t(2) by simp_all
    have key: "keyed ?s2 ta a" using a(1,2) by (simp add: keyed_def key_item_meta)
    from append_list_ok [OF tb(2) l2 key a(3)] a(4) obtain s3 t3 where
      r: "hash_append_list head a ?s2 = Inr s3" "same_store ?s2 s3" "tbls s3 = (tbls ?s2)(ta \<mapsto> t3)"
        "listed s3 ta t3 (as @ [a])" "t3 = t\<lparr>t_tail := Some a\<rparr>" "cprv s3 = cprv ?s2" "cnxt s3 = cnxt ?s2"
        "hmeta s3 = hmeta ?s2" unfolding t(1) by auto
    have rest: "set (as @ [a]) - {a} = set as" using ne by auto
    have bu: "bucketed s3 t3 (set (as @ [a]) - {a})" unfolding rest
      by (rule bucketed_cong [OF t(4)]) (use r ne in \<open>simp_all add: key_item_fields\<close>)
    have mod2: "modify_hh (Some a) (\<lambda>h. h\<lparr>h_tbl := Some ta\<rparr>) ?s1 = Inr ?s2"
      unfolding own_item_def by (rule modify_hh_eq) (use a(1) in simp)
    have "num_buckets t < 2 ^ 31" using small [of ta t] tbl_of_listed [OF t(3,2)] t(1) by simp
    then have "num_buckets t3 < 2 ^ 31" "tbls s3 ta = Some t3" "num_items t3 + 1 = of_nat (length (as @ [a]))"
        "a \<in> set (as @ [a])"
      using r(3,5) t(5) by simp_all
    from add_to_table_ok [OF this(2) r(4) this(4) bu this(3) mem this(1)] obtain s' where
      s': "hash_add_to_table E (head_or (as @ [a]) None) (hash_jen (ukey s3 a)) a s3 = Inr s'" "same_store s3 s'"
        "ut_rep s' (head_or (as @ [a]) None) (as @ [a])" by blast
    have uk: "ukey s3 a = ukey s a" using same_storeD(2) [OF r(2)] by simp
    have "same_store s ?s2" by simp
    from same_store_trans [OF same_store_trans [OF this r(2)] s'(2)] have st: "same_store s s'" .
    have "head \<noteq> None" using t(1) False by simp
    then have "hash_add_int E head a s = andThen (hash_add_to_table E head ?h a s3) (\<lambda>s. Inr (head, s))"
      using i mod1 mod2 r(1) tbl_of_listed [OF l1 tb(1)] by (simp add: hash_add_int_def h t(1) Let_def)
    moreover have "head_or (as @ [a]) None = head" using t(1) False by simp
    ultimately show ?thesis using s' st uk by simp
  qed
qed

section \<open>Deletions\<close>

text \<open>
  The item \<open>d\<close> can be taken out of its bucket, which leaves the items \<open>A\<close> in the buckets, whatever
  happens to the list of the items in between.
\<close>

definition leaves_bkt :: "'a uheap_scheme \<Rightarrow> addr \<Rightarrow> utable \<Rightarrow> addr \<Rightarrow> addr set \<Rightarrow> bool" where
  "leaves_bkt s ta t d A \<longleftrightarrow> (\<forall>(u :: 'a uheap_scheme) t0.
     cprv u = cprv s \<and> cnxt u = cnxt s \<and> hmeta u = hmeta s \<and> dom (items u) = dom (items s) \<and> tbls u ta = Some t0 \<and>
     buckets t0 = buckets t \<and> num_buckets t0 = num_buckets t \<and> log2_num_buckets t0 = log2_num_buckets t \<longrightarrow>
     (\<exists>s' t'. del_in_bkt ta (hash_to_bkt (hv s d) (num_buckets t)) d u = Inr s' \<and> same_store u s' \<and> tick s' = tick u \<and>
       tbls s' = (tbls u)(ta \<mapsto> t') \<and> bucketed s' t' A \<and> t_tail t' = t_tail t0 \<and> num_items t' = num_items t0 \<and>
       prv s' = prv u \<and> nxt s' = nxt u \<and> hmeta s' = hmeta u))"

lemma bucketed_leaves:
  assumes bu: "bucketed s t A" and A: "A \<subseteq> dom (items s)" "d \<in> A"
  shows "leaves_bkt s ta t d (A - {d})"
  unfolding leaves_bkt_def
proof (intro allI impI, elim conjE)
  fix u :: "'a uheap_scheme" and t0
  assume u: "cprv u = cprv s" "cnxt u = cnxt s" "hmeta u = hmeta s" "dom (items u) = dom (items s)" "tbls u ta = Some t0"
    "buckets t0 = buckets t" "num_buckets t0 = num_buckets t" "log2_num_buckets t0 = log2_num_buckets t"
  have "bucketed u t0 A" by (rule bucketed_cong [OF bu u(1,2) _ u(6-8)]) (simp add: u(3))
  moreover have "A \<subseteq> dom (items u)" using A(1) u(4) by simp
  moreover have "hv u d = hv s d" by (simp add: hv_hmeta u(3))
  ultimately show "\<exists>s' t'. del_in_bkt ta (hash_to_bkt (hv s d) (num_buckets t)) d u = Inr s' \<and> same_store u s' \<and> tick s' = tick u \<and>
       tbls s' = (tbls u)(ta \<mapsto> t') \<and> bucketed s' t' (A - {d}) \<and> t_tail t' = t_tail t0 \<and> num_items t' = num_items t0 \<and>
       prv s' = prv u \<and> nxt s' = nxt u \<and> hmeta s' = hmeta u"
    using del_in_bkt_ok [OF u(5) _ _ A(2)] u(7) by simp
qed

text \<open>The list without \<open>d\<close>, as the macro leaves it before it turns to the bucket.\<close>

definition unlinked_tbl :: "'a uheap_scheme \<Rightarrow> addr \<Rightarrow> utable \<Rightarrow> utable" where
  "unlinked_tbl s d t = (if t_tail t = Some d then t\<lparr>t_tail := prv s d\<rparr> else t)"

definition unlinked :: "'a uheap_scheme \<Rightarrow> addr \<Rightarrow> addr \<Rightarrow> utable \<Rightarrow> 'a uheap_scheme" where
  "unlinked s d ta t = upd_opt (nxt s d) (\<lambda>h. h\<lparr>h_prev := prv s d\<rparr>)
     (upd_opt (prv s d) (\<lambda>h. h\<lparr>h_next := nxt s d\<rparr>) (set_tbl ta (unlinked_tbl s d t) s))"

lemma unlinked_tbl_sel [simp]:
  "buckets (unlinked_tbl s d t) = buckets t" "num_buckets (unlinked_tbl s d t) = num_buckets t"
  "log2_num_buckets (unlinked_tbl s d t) = log2_num_buckets t" "num_items (unlinked_tbl s d t) = num_items t"
  by (simp_all add: unlinked_tbl_def)

lemma listed_neighbours:
  assumes "listed s ta t (xs @ d # ys)"
  shows "set_option (prv s d) \<subseteq> dom (items s)" "set_option (nxt s d) \<subseteq> dom (items s)"
proof -
  note l = listedD [OF assms]
  note rm = dseg_remove [OF l(5) l(2)]
  have neigh: "y \<in> set (xs @ ys)" if "prv s d = Some y \<or> nxt s d = Some y" for y
    using that rm(2,3) by (cases xs rule: rev_cases; cases ys; auto)
  show "set_option (prv s d) \<subseteq> dom (items s)" "set_option (nxt s d) \<subseteq> dom (items s)"
    using neigh l(7) by (cases "prv s d"; cases "nxt s d"; fastforce)+
qed

lemma unlinked_ok:
  fixes s :: "'a uheap_scheme"
  assumes li: "listed s ta t (xs @ d # ys)" and ne: "xs @ ys \<noteq> []"
  defines "u \<equiv> unlinked s d ta t"
  shows "prv s d = None \<and> nxt s d = None \<longleftrightarrow> False"
    "dseg (prv u) (nxt u) None (xs @ ys) None" "t_tail (unlinked_tbl s d t) = Some (last (xs @ ys))"
    "cprv u = cprv s" "cnxt u = cnxt s" "hmeta u = hmeta s" "dom (items u) = dom (items s)"
    "tbls u = (tbls s)(ta \<mapsto> unlinked_tbl s d t)" "tick u = tick s" "same_store s u"
proof -
  note l = listedD [OF li]
  note rm = dseg_remove [OF l(5) l(2)] and sub = listed_neighbours [OF li]
  show "prv s d = None \<and> nxt s d = None \<longleftrightarrow> False" using ne rm(2,3) by (cases ys) auto
  have "prv u = put (prv s) (nxt s d) (prv s d)" "nxt u = put (nxt s) (prv s d) (nxt s d)"
    using sub by (simp_all add: u_def unlinked_def link_updates)
  then show "dseg (prv u) (nxt u) None (xs @ ys) None" using rm(1) by simp
  show "t_tail (unlinked_tbl s d t) = Some (last (xs @ ys))"
    using l(2,6) rm(2) ne by (cases ys rule: rev_cases) (auto simp: unlinked_tbl_def)
  show "cprv u = cprv s" "cnxt u = cnxt s" "hmeta u = hmeta s" "dom (items u) = dom (items s)"
    "tbls u = (tbls s)(ta \<mapsto> unlinked_tbl s d t)" "tick u = tick s" "same_store s u"
    by (simp_all add: u_def unlinked_def)
qed

text \<open>\<open>HASH_DELETE\<close> of an item that is not the only one, as the list and then the bucket.\<close>

lemma hash_delete_unfold:
  fixes s :: "'a uheap_scheme"
  assumes tb: "tbls s ta = Some t" and li: "listed s ta t (xs @ d # ys)" and ne: "xs @ ys \<noteq> []"
  defines "head \<equiv> head_or (xs @ ys) None"
  shows "hash_delete (head_or (xs @ d # ys) None) d s =
    andThen (tbl_of (unlinked s d ta t) head) (\<lambda>(ta', t').
    andThen (del_in_bkt ta' (hash_to_bkt (hv s d) (num_buckets t')) d (unlinked s d ta t)) (\<lambda>s.
    andThen (tbl_of s head) (\<lambda>(ta, t). Inr (head, set_tbl ta (t\<lparr>num_items := num_items t - 1\<rparr>) s))))"
proof -
  let ?as = "xs @ d # ys"
  note l = listedD [OF li]
  note rm = dseg_remove [OF l(5) l(2)] and sub = listed_neighbours [OF li]
  from l(7) obtain di where di: "items s d = Some di" by auto
  have hdi: "h_prev (i_hh di) = prv s d" "h_next (i_hh di) = nxt s d" "h_hashv (i_hh di) = hv s d"
    by (simp_all add: prv_def nxt_def hv_def hf_def di)
  have tb0: "tbl_of s (head_or ?as None) = Inr (ta, t)" by (rule tbl_of_listed [OF li tb])
  let ?s1 = "set_tbl ta (unlinked_tbl s d t) s"
  let ?s2 = "upd_opt (prv s d) (\<lambda>h. h\<lparr>h_next := nxt s d\<rparr>) ?s1"
  have s1: "(if t_tail t = Some d then set_tbl ta (t\<lparr>t_tail := prv s d\<rparr>) s else s) = ?s1"
    using tb by (simp add: set_tbl_def fun_upd_idem unlinked_tbl_def)
  have mod: "(if p = None then Inr u else modify_hh p f u) = Inr (upd_opt p f u)"
    if "set_option p \<subseteq> dom (items s)" "dom (items u) = dom (items s)" for p f and u :: "'a uheap_scheme"
    by (rule modify_opt) (use that in auto)
  have head: "(if prv s d \<noteq> None
      then andThen (modify_hh (prv s d) (\<lambda>h. h\<lparr>h_next := nxt s d\<rparr>) ?s1) (\<lambda>s. Inr (head_or ?as None, s))
      else Inr (nxt s d, ?s1)) = Inr (head, ?s2)"
  proof (cases "prv s d")
    case None
    with rm(2) have "last_or None xs = None" by simp
    with rm(3) have "nxt s d = head" by (simp add: head_def)
    with None show ?thesis by (simp add: upd_opt_def)
  next
    case (Some y)
    with rm(2) have "xs \<noteq> []" by auto
    then have "head = head_or ?as None" by (cases xs) (simp_all add: head_def)
    with mod [OF sub(1), of ?s1 "\<lambda>h. h\<lparr>h_next := nxt s d\<rparr>"] Some show ?thesis by simp
  qed
  have next_: "(if nxt s d \<noteq> None then modify_hh (nxt s d) (\<lambda>h. h\<lparr>h_prev := prv s d\<rparr>) ?s2 else Inr ?s2) =
      Inr (unlinked s d ta t)"
    using mod [OF sub(2), of ?s2 "\<lambda>h. h\<lparr>h_prev := prv s d\<rparr>"] by (cases "nxt s d") (simp_all add: unlinked_def)
  show ?thesis
    by (simp only: hash_delete_def deref_Some [of "items s" d, OF di] andThen_Inr prod.case Let_def hdi
        unlinked_ok(1) [OF li ne] if_False tb0 s1 head next_)
qed

lemma hash_delete_listed:
  fixes s :: "'a uheap_scheme"
  assumes tb: "tbls s ta = Some t" and li: "listed s ta t (xs @ d # ys)" and n: "num_items t = of_nat (length (xs @ d # ys))"
    and ne: "xs @ ys \<noteq> []" and out: "leaves_bkt s ta t d (set (xs @ ys))"
  shows "\<exists>s'. hash_delete (head_or (xs @ d # ys) None) d s = Inr (head_or (xs @ ys) None, s') \<and> same_store s s' \<and>
    tick s' = tick s \<and> ut_rep s' (head_or (xs @ ys) None) (xs @ ys)"
proof -
  note l = listedD [OF li] and u = unlinked_ok [OF li ne]
  let ?u = "unlinked s d ta t" and ?t = "unlinked_tbl s d t" and ?head = "head_or (xs @ ys) None"
  have "tbls ?u ta = Some ?t" by (simp add: u(8))
  then obtain s4 t4 where
    r: "del_in_bkt ta (hash_to_bkt (hv s d) (num_buckets t)) d ?u = Inr s4" "same_store ?u s4"
      "tick s4 = tick ?u" "tbls s4 = (tbls ?u)(ta \<mapsto> t4)" "bucketed s4 t4 (set (xs @ ys))"
      "t_tail t4 = t_tail ?t" "num_items t4 = num_items ?t" "prv s4 = prv ?u" "nxt s4 = nxt ?u" "hmeta s4 = hmeta ?u"
    using out [unfolded leaves_bkt_def, rule_format, of ?u ?t] u(4-7) by auto
  let ?t5 = "t4\<lparr>num_items := num_items t4 - 1\<rparr>"
  let ?s5 = "set_tbl ta ?t5 s4"
  have st: "same_store s s4" by (rule same_store_trans [OF u(10) r(2)])
  have rest: "listed w ta v (xs @ ys)"
    if "hmeta w = hmeta s" "same_store s w" "prv w = prv ?u" "nxt w = nxt ?u" "t_tail v = t_tail ?t"
    for w :: "'a uheap_scheme" and v
    unfolding listed_def
  proof (intro conjI ballI)
    show "keyed w ta x" if "x \<in> set (xs @ ys)" for x
      by (rule keyed_cong [OF _ _ _ _ l(4)]) (use that \<open>hmeta w = hmeta s\<close> same_storeD [OF \<open>same_store s w\<close>] in auto)
    show "inj_on (ukey w) (set (xs @ ys))" using l(3) same_storeD(2) [OF that(2)] by (auto simp: inj_on_def)
    show "dseg (prv w) (nxt w) None (xs @ ys) None" using u(2) that(3,4) by simp
  qed (use ne l(2) u(3) that(5) in auto)
  have lu: "listed ?u ta ?t (xs @ ys)" and l4: "listed s4 ta t4 (xs @ ys)" and l5: "listed ?s5 ta ?t5 (xs @ ys)"
    by (rule rest; use u(6,10) r(6,8-10) st in simp)+
  have "hash_delete (head_or (xs @ d # ys) None) d s = Inr (?head, ?s5)"
    unfolding hash_delete_unfold [OF tb li ne]
    using tbl_of_listed [OF lu, of ?t] tbl_of_listed [OF l4, of t4] r(1,4) u(8) by simp
  moreover have "bucketed ?s5 ?t5 (set (xs @ ys))" by (rule bucketed_cong [OF r(5)]) simp_all
  moreover have "num_items ?t5 = of_nat (length (xs @ ys))" using r(7) n by simp
  moreover have "tbls ?s5 ta = Some ?t5" by simp
  ultimately show ?thesis
    unfolding ut_rep_def using l5 st r(3) u(9) by (intro exI [of _ ?s5]) auto
qed

lemma hash_delete_ok:
  assumes rep: "ut_rep s head (xs @ d # ys)"
  shows "\<exists>s'. hash_delete head d s = Inr (head_or (xs @ ys) None, s') \<and> same_store s s' \<and> tick s' = tick s \<and>
    ut_rep s' (head_or (xs @ ys) None) (xs @ ys)"
proof -
  let ?as = "xs @ d # ys"
  from rep obtain ta t where t: "head = head_or ?as None" "tbls s ta = Some t" "listed s ta t ?as"
    "bucketed s t (set ?as)" "num_items t = of_nat (length ?as)" by (auto simp: ut_rep_def)
  note l = listedD [OF t(3)]
  note rm = dseg_remove [OF l(5) l(2)]
  have d: "d \<in> dom (items s)" using l(7) by simp
  then obtain di where di: "items s d = Some di" by blast
  have hdi: "h_prev (i_hh di) = prv s d" "h_next (i_hh di) = nxt s d" "h_hashv (i_hh di) = hv s d"
    by (simp_all add: prv_def nxt_def hv_def hf_def di)
  show ?thesis
  proof (cases "xs @ ys = []")
    case True
    with rm(2,3) have "prv s d = None \<and> nxt s d = None" by simp
    with True tbl_of_listed [OF t(3,2)] show ?thesis
      by (intro exI [of _ "s\<lparr>tbls := (tbls s)(ta := None)\<rparr>"])
         (simp add: hash_delete_def di hdi t(1) same_store_def held_def ut_rep_def fun_eq_iff)
  next
    case False
    have "set ?as - {d} = set (xs @ ys)" using l(2) by auto
    moreover have "leaves_bkt s ta t d (set ?as - {d})"
      by (rule bucketed_leaves [OF t(4)]) (use l(7) in auto)
    ultimately have "leaves_bkt s ta t d (set (xs @ ys))" by simp
    from hash_delete_listed [OF t(2,3,5) False this] show ?thesis unfolding t(1) .
  qed
qed

end
