(* ===== verification/Uthash_Props.thy ===== *)
theory Uthash_Props
  imports Uthash_Map
begin

text \<open>
  The interface of the hash table to its clients, as a locale over the list of its items, the
  interpretation on the model of the macros, and the library's integrity check \<open>HASH_FSCK\<close>.
\<close>

section \<open>The interface\<close>

text \<open>
  \<open>rep s h as\<close>: in the state \<open>s\<close> the table with head \<open>h\<close> holds the items \<open>as\<close>; \<open>keyof s a\<close> is the
  key of an item, \<open>enc\<close> how a key is given to a lookup, and \<open>fresh\<close> what an addition asks for.
\<close>

locale item_table =
  fixes rep :: "'s \<Rightarrow> 'h \<Rightarrow> 'a list \<Rightarrow> bool" and keyof :: "'s \<Rightarrow> 'a \<Rightarrow> 'k" and enc :: "'i \<Rightarrow> 'k"
    and lookup :: "'s \<Rightarrow> 'h \<Rightarrow> 'i \<Rightarrow> 'a option res" and fresh :: "'s \<Rightarrow> 'h \<Rightarrow> 'a list \<Rightarrow> 'a \<Rightarrow> bool"
    and insertion :: "'h \<Rightarrow> 'a \<Rightarrow> 's \<Rightarrow> ('h \<times> 's) res" and deletion :: "'h \<Rightarrow> 'a \<Rightarrow> 's \<Rightarrow> ('h \<times> 's) res"
  assumes keys_distinct: "rep s h as \<Longrightarrow> distinct as \<and> inj_on (keyof s) (set as)"
    and lookup_list: "rep s h as \<Longrightarrow> lookup s h k = Inr (List.find (\<lambda>a. keyof s a = enc k) as)"
    and insertion_list: "rep s h as \<Longrightarrow> fresh s h as a \<Longrightarrow>
      \<exists>h' s'. insertion h a s = Inr (h', s') \<and> rep s' h' (as @ [a]) \<and> keyof s' = keyof s"
    and deletion_list: "rep s h (xs @ a # ys) \<Longrightarrow>
      \<exists>h' s'. deletion h a s = Inr (h', s') \<and> rep s' h' (xs @ ys) \<and> keyof s' = keyof s"
begin

lemma lookup_Some:
  assumes "rep s h as"
  shows "lookup s h k = Inr (Some a) \<longleftrightarrow> a \<in> set as \<and> keyof s a = enc k"
proof
  assume "lookup s h k = Inr (Some a)"
  then show "a \<in> set as \<and> keyof s a = enc k"
    by (auto simp: lookup_list [OF assms] find_Some_iff)
next
  assume a: "a \<in> set as \<and> keyof s a = enc k"
  then obtain x where x: "List.find (\<lambda>a. keyof s a = enc k) as = Some x"
    by (cases "List.find (\<lambda>a. keyof s a = enc k) as") (auto simp: find_None_iff)
  then have "x \<in> set as" "keyof s x = keyof s a" using a by (auto simp: find_Some_iff)
  then have "x = a" using a keys_distinct [OF assms] by (metis inj_onD)
  then show "lookup s h k = Inr (Some a)" by (simp add: lookup_list [OF assms] x)
qed

lemma lookup_None:
  assumes "rep s h as"
  shows "lookup s h k = Inr None \<longleftrightarrow> enc k \<notin> keyof s ` set as"
  by (simp add: lookup_list [OF assms] find_None_iff) (metis image_iff)

text \<open>What a lookup finds after an addition and after a deletion.\<close>

lemma lookup_inserted:
  assumes "rep s h as" "fresh s h as a" "keyof s a \<notin> keyof s ` set as"
  shows "\<exists>h' s'. insertion h a s = Inr (h', s') \<and> rep s' h' (as @ [a]) \<and>
    (\<forall>k. lookup s' h' k = (if keyof s a = enc k then Inr (Some a) else lookup s h k))"
proof -
  from insertion_list [OF assms(1,2)] obtain h' s' where
    r: "insertion h a s = Inr (h', s')" "rep s' h' (as @ [a])" "keyof s' = keyof s" by blast
  have "lookup s' h' k = (if keyof s a = enc k then Inr (Some a) else lookup s h k)" for k
  proof (cases "keyof s a = enc k")
    case True
    with lookup_Some [OF r(2), of k a] r(3) show ?thesis by simp
  next
    case False
    then have "List.find (\<lambda>a. keyof s a = enc k) (as @ [a]) = List.find (\<lambda>a. keyof s a = enc k) as"
      by (induction as) auto
    with False show ?thesis by (simp add: lookup_list [OF r(2)] lookup_list [OF assms(1)] r(3))
  qed
  with r show ?thesis by blast
qed

lemma lookup_deleted:
  assumes "rep s h (xs @ a # ys)"
  shows "\<exists>h' s'. deletion h a s = Inr (h', s') \<and> rep s' h' (xs @ ys) \<and>
    (\<forall>k. lookup s' h' k = (if keyof s a = enc k then Inr None else lookup s h k))"
proof -
  from deletion_list [OF assms] obtain h' s' where
    r: "deletion h a s = Inr (h', s')" "rep s' h' (xs @ ys)" "keyof s' = keyof s" by blast
  have "lookup s' h' k = (if keyof s a = enc k then Inr None else lookup s h k)" for k
  proof (cases "keyof s a = enc k")
    case True
    have "enc k \<notin> keyof s ` set (xs @ ys)"
      using keys_distinct [OF assms] unfolding True [symmetric] by (auto simp: inj_on_def)
    with True lookup_None [OF r(2), of k] r(3) show ?thesis by simp
  next
    case False
    then have "List.find (\<lambda>a. keyof s a = enc k) (xs @ ys) = List.find (\<lambda>a. keyof s a = enc k) (xs @ a # ys)"
      by (induction xs) auto
    with False show ?thesis by (simp add: lookup_list [OF r(2)] lookup_list [OF assms] r(3))
  qed
  with r show ?thesis by blast
qed

end

text \<open>What \<open>HASH_ADD_INT\<close> asks for: an item that is not in the table, memory, and fewer than 2^31 buckets.\<close>

definition addable :: "env \<Rightarrow> 'a uheap_scheme \<Rightarrow> addr option \<Rightarrow> addr list \<Rightarrow> addr \<Rightarrow> bool" where
  "addable E s head as a \<longleftrightarrow> a \<in> dom (items s) \<and> a < tick s \<and> a \<notin> set as \<and> ukey s a \<notin> ukey s ` set as \<and>
     (\<forall>n. e_malloc E n) \<and> (\<forall>ta t. tbl_of s head = Inr (ta, t) \<longrightarrow> num_buckets t < 2 ^ 31)"

interpretation ut: item_table ut_rep ukey int_bytes hash_find_int "addable E" "hash_add_int E" hash_delete
  for E
proof unfold_locales
  fix s :: "'a uheap_scheme" and head as
  show "distinct as \<and> inj_on (ukey s) (set as)" if "ut_rep s head as"
    using that listedD(2,3) by (cases "as = []") (auto simp: ut_rep_def)
  show "hash_find_int s head k = Inr (List.find (\<lambda>a. ukey s a = int_bytes k) as)" if "ut_rep s head as" for k
    using that by (rule ut_find)
  show "\<exists>h' s'. hash_add_int E head a s = Inr (h', s') \<and> ut_rep s' h' (as @ [a]) \<and> ukey s' = ukey s"
    if "ut_rep s head as" "addable E s head as a" for a
    using that hash_add_ok [of s head as a E] same_storeD(2) unfolding addable_def by blast
  show "\<exists>h' s'. hash_delete head a s = Inr (h', s') \<and> ut_rep s' h' (xs @ ys) \<and> ukey s' = ukey s"
    if "ut_rep s head (xs @ a # ys)" for xs a ys
    using hash_delete_ok [OF that] same_storeD(2) by blast
qed

section \<open>The integrity check of the library\<close>

text \<open>\<open>HASH_FSCK\<close>: the loop along one chain, the loop over the buckets, and the loop along the items.\<close>

fun fsck_chain :: "'a uheap_scheme \<Rightarrow> nat \<Rightarrow> addr option \<Rightarrow> addr option \<Rightarrow> u32 \<Rightarrow> u32 res" where
  "fsck_chain s n prev None cnt = Inr cnt"
| "fsck_chain s 0 prev (Some thh) cnt = Inl Diverge"
| "fsck_chain s (Suc n) prev (Some thh) cnt =
     andThen (deref (items s) (Some thh)) (\<lambda>(a, i).
       if prev \<noteq> hh_prev (i_hh i) then Inl (Exit (-1))
       else fsck_chain s n (Some thh) (hh_next (i_hh i)) (cnt + 1))"

fun fsck_buckets :: "'a uheap_scheme \<Rightarrow> ubucket list \<Rightarrow> u32 \<Rightarrow> u32 res" where
  "fsck_buckets s [] cnt = Inr cnt"
| "fsck_buckets s (b # bs) cnt =
     andThen (fsck_chain s (Suc (tick s)) None (hh_head b) 0) (\<lambda>bc.
       if b_count b \<noteq> bc then Inl (Exit (-1)) else fsck_buckets s bs (cnt + bc))"

fun fsck_items :: "'a uheap_scheme \<Rightarrow> nat \<Rightarrow> addr option \<Rightarrow> addr option \<Rightarrow> u32 \<Rightarrow> u32 res" where
  "fsck_items s n prev None cnt = Inr cnt"
| "fsck_items s 0 prev (Some thh) cnt = Inl Diverge"
| "fsck_items s (Suc n) prev (Some thh) cnt =
     andThen (deref (items s) (Some thh)) (\<lambda>(a, i).
       if prev \<noteq> h_prev (i_hh i) then Inl (Exit (-1))
       else fsck_items s n (Some thh) (h_next (i_hh i)) (cnt + 1))"

definition hash_fsck :: "'a uheap_scheme \<Rightarrow> addr option \<Rightarrow> unit res" where
  "hash_fsck s head =
     (if head = None then Inr ()
      else andThen (tbl_of s head) (\<lambda>(ta, t).
        andThen (fsck_buckets s (take (unat (num_buckets t)) (buckets t)) 0) (\<lambda>cnt.
        if cnt \<noteq> num_items t then Inl (Exit (-1))
        else andThen (fsck_items s (Suc (tick s)) None head 0) (\<lambda>cnt.
          if cnt \<noteq> num_items t then Inl (Exit (-1)) else Inr ()))))"

lemma fsck_chain_ok:
  assumes "dseg (cprv s) (cnxt s) p xs None" "set xs \<subseteq> dom (items s)" "length xs < n"
  shows "fsck_chain s n p (head_or xs None) cnt = Inr (cnt + of_nat (length xs))"
  using assms
proof (induction xs arbitrary: n p cnt)
  case (Cons x xs)
  then obtain m i where n: "n = Suc m" "length xs < m" and i: "items s x = Some i" by (cases n) auto
  have "hh_prev (i_hh i) = cprv s x" "hh_next (i_hh i) = cnxt s x" by (simp_all add: cprv_def cnxt_def hf_def i)
  with Cons i show ?case by (simp add: n)
qed simp

lemma fsck_items_ok:
  assumes "dseg (prv s) (nxt s) p xs None" "set xs \<subseteq> dom (items s)" "length xs < n"
  shows "fsck_items s n p (head_or xs None) cnt = Inr (cnt + of_nat (length xs))"
  using assms
proof (induction xs arbitrary: n p cnt)
  case (Cons x xs)
  then obtain m i where n: "n = Suc m" "length xs < m" and i: "items s x = Some i" by (cases n) auto
  have "h_prev (i_hh i) = prv s x" "h_next (i_hh i) = nxt s x" by (simp_all add: prv_def nxt_def hf_def i)
  with Cons i show ?case by (simp add: n)
qed simp

lemma fsck_buckets_ok:
  assumes "list_all2 (\<lambda>b xs. hh_head b = head_or xs None \<and> b_count b = of_nat (length xs) \<and>
      dseg (cprv s) (cnxt s) None xs None \<and> set xs \<subseteq> dom (items s) \<and> length xs < Suc (tick s)) bs Cs"
  shows "fsck_buckets s bs cnt = Inr (cnt + of_nat (length (concat Cs)))"
  using assms
proof (induction bs Cs arbitrary: cnt rule: list_all2_induct)
  case (Cons b bs xs Cs)
  then have "fsck_chain s (Suc (tick s)) None (hh_head b) 0 = Inr (of_nat (length xs))"
    using fsck_chain_ok [of s None xs "Suc (tick s)" 0] by simp
  with Cons show ?case by (simp add: add.assoc)
qed simp

text \<open>The first loop counts the items in the buckets.\<close>

lemma fsck_buckets_count:
  assumes bu: "bucketed s t (set as)" and as: "distinct as" "set as \<subseteq> dom (items s)" "\<And>a. a \<in> set as \<Longrightarrow> a < tick s"
  shows "fsck_buckets s (take (unat (num_buckets t)) (buckets t)) 0 = Inr (of_nat (length as))"
proof -
  from bu obtain k C where C: "sized t k" "chained s (buckets t) C" "spread s (num_buckets t) C (set as)"
    unfolding bucketed_def by blast
  then have k: "num_buckets t = 2 ^ k" "length (buckets t) = 2 ^ k" "k < 32" "length C = 2 ^ k"
    by (simp_all add: sized_def chained_def)
  have "fsck_buckets s (buckets t) 0 = Inr (0 + of_nat (length (concat C)))"
  proof (rule fsck_buckets_ok, rule list_all2_all_nthI)
    fix i assume i: "i < length (buckets t)"
    have sub: "set (C ! i) \<subseteq> set as" using spread_sub [OF C(3)] i k by simp
    then show "hh_head (buckets t ! i) = head_or (C ! i) None \<and> b_count (buckets t ! i) = of_nat (length (C ! i)) \<and>
      dseg (cprv s) (cnxt s) None (C ! i) None \<and> set (C ! i) \<subseteq> dom (items s) \<and> length (C ! i) < Suc (tick s)"
      using chainedD [OF C(2) i] as(2) distinct_below [of "C ! i" "tick s"] sub as(3) by (auto simp: less_Suc_eq_le)
  qed (simp add: k)
  moreover have "length (concat C) = length as"
  proof -
    have "slot s (num_buckets t) x < length C" for x using slot_less [OF C(1), of s x] k by simp
    moreover have "distinct (C ! i)" if "i < length C" for i using chainedD(4) [OF C(2)] that k by simp
    ultimately show ?thesis using spread_concat [OF C(3)] as(1) by (metis distinct_card)
  qed
  ultimately show ?thesis by (simp add: k unat_pow2)
qed

text \<open>Every well-formed table passes the check, whatever its length.\<close>

lemma hash_fsck_ok:
  assumes "ut_rep s head as"
  shows "hash_fsck s head = Inr ()"
proof (cases "as = []")
  case True
  with assms show ?thesis by (simp add: ut_rep_def hash_fsck_def)
next
  case False
  with assms obtain ta t where t: "head = head_or as None" "tbls s ta = Some t" "listed s ta t as"
    "bucketed s t (set as)" "num_items t = of_nat (length as)" by (auto simp: ut_rep_def)
  note l = listedD [OF t(3)]
  have below: "a < tick s" if "a \<in> set as" for a using l(4) [OF that] by (simp add: keyed_def)
  have "set as \<subseteq> dom (items s)" using l(7) by blast
  note count = fsck_buckets_count [OF t(4) l(2) this below]
  have "length as \<le> tick s" by (rule distinct_below [OF l(2) below])
  then have "fsck_items s (Suc (tick s)) None head 0 = Inr (of_nat (length as))"
    using fsck_items_ok [OF l(5), of "Suc (tick s)" 0] l(7) t(1) by auto
  then show ?thesis using count tbl_of_listed [OF t(3,2)] False by (simp add: hash_fsck_def t(1,5))
qed

section \<open>Properties\<close>

definition plain_item :: "int \<Rightarrow> item" where
  "plain_item n = \<lparr>i_id = n, i_data = None, i_hh = \<lparr>h_tbl = None, h_prev = None, h_next = None,
     hh_prev = None, hh_next = None, h_key = None, h_keylen = 0, h_hashv = 0\<rparr>\<rparr>"

definition demo_uheap :: uheap where
  "demo_uheap = \<lparr>tick = 10, log = [], live = {}, blocks = Map.empty, msgs = Map.empty,
     items = [3 \<mapsto> plain_item 7, 4 \<mapsto> plain_item 8], tbls = Map.empty\<rparr>"

lemma demo_addable: "ut_rep demo_uheap None []" "addable demo_env demo_uheap None [] 3"
  by (simp_all add: ut_rep_def addable_def demo_uheap_def demo_env_def tbl_of_def deref_def)

text \<open>
  C11: adding an item with a new key to a well-formed table never faults; the new table is
  well-formed, passes the library's own integrity check, holds the old items and then the new one,
  and a lookup finds the new item under its key and what it found before under any other key,
  whether or not the buckets were doubled.
\<close>

theorem hash_add_refines:
  assumes "ut_rep s head as" "addable E s head as a"
  shows "\<exists>head' s'. hash_add_int E head a s = Inr (head', s') \<and> ut_rep s' head' (as @ [a]) \<and>
    hash_fsck s' head' = Inr () \<and>
    (\<forall>n. hash_find_int s' head' n = (if ukey s a = int_bytes n then Inr (Some a) else hash_find_int s head n))"
proof -
  have "ukey s a \<notin> ukey s ` set as" using assms(2) by (simp add: addable_def)
  from ut.lookup_inserted [OF assms this] show ?thesis using hash_fsck_ok by blast
qed

theorem hash_add_refines_witness:
  "\<exists>head' s'. hash_add_int demo_env None 3 demo_uheap = Inr (head', s') \<and> hash_fsck s' head' = Inr () \<and>
     hash_find_int s' head' 7 = Inr (Some 3) \<and> hash_find_int s' head' 8 = Inr None"
proof -
  have keys: "ukey demo_uheap 3 = int_bytes 7" "int_bytes 7 \<noteq> int_bytes 8"
    by (simp_all add: ukey_def demo_uheap_def plain_item_def) code_simp
  from hash_add_refines [OF demo_addable] obtain head' s' where
    "hash_add_int demo_env None 3 demo_uheap = Inr (head', s')" "hash_fsck s' head' = Inr ()"
    "\<forall>n. hash_find_int s' head' n = (if ukey demo_uheap 3 = int_bytes n then Inr (Some 3) else hash_find_int demo_uheap None n)"
    by blast
  with keys show ?thesis by (auto simp: hash_find_int_def)
qed

text \<open>
  C12: deleting an item from a well-formed table, wherever it stands, never faults; the rest stays
  well-formed and in order, passes the integrity check, and a lookup no longer finds the key of the
  item and finds what it found before under any other key.
\<close>

theorem hash_delete_refines:
  assumes "ut_rep s head (xs @ d # ys)"
  shows "\<exists>head' s'. hash_delete head d s = Inr (head', s') \<and> ut_rep s' head' (xs @ ys) \<and>
    hash_fsck s' head' = Inr () \<and>
    (\<forall>n. hash_find_int s' head' n = (if ukey s d = int_bytes n then Inr None else hash_find_int s head n))"
  using ut.lookup_deleted [OF assms] hash_fsck_ok by blast

theorem hash_delete_refines_witness:
  "\<exists>head s head' s'. hash_add_int demo_env None 3 demo_uheap = Inr (head, s) \<and>
     hash_delete head 3 s = Inr (head', s') \<and> hash_find_int s head 7 = Inr (Some 3) \<and>
     hash_find_int s' head' 7 = Inr None"
proof -
  have key: "ukey demo_uheap 3 = int_bytes 7" by (simp add: ukey_def demo_uheap_def plain_item_def)
  have "ukey demo_uheap 3 \<notin> ukey demo_uheap ` set []" by simp
  from ut.lookup_inserted [OF demo_addable this] obtain head s where
    s: "hash_add_int demo_env None 3 demo_uheap = Inr (head, s)" "ut_rep s head ([] @ 3 # [])"
      "hash_find_int s head 7 = Inr (Some 3)" using key by auto
  from ut.lookup_Some [OF s(2)] s(3) have "ukey s 3 = int_bytes 7" by blast
  moreover from hash_delete_refines [OF s(2)] obtain head' s' where
    "hash_delete head 3 s = Inr (head', s')"
    "\<forall>n. hash_find_int s' head' n = (if ukey s 3 = int_bytes n then Inr None else hash_find_int s head n)" by blast
  ultimately show ?thesis using s(1,3) by (intro exI [of _ head] exI [of _ s] exI [of _ head'] exI [of _ s']) simp
qed

end
