(* ===== verification/Dict_Table.thy ===== *)
theory Dict_Table
  imports Backend_Run Uthash_Props
begin

text \<open>
  The connection dictionary when its table holds items: what \<open>dict_get\<close>, \<open>dict_del\<close>,
  \<open>dict_deinit\<close> and the teardown of \<open>backend_run\<close> do on any well-formed table. No run of the
  program gets there, because \<open>dict_new\<close> adds no item; these are the contracts the functions keep.
\<close>

section \<open>Frames\<close>

lemma same_store_dheap:
  fixes s s' :: "'a dheap_scheme"
  assumes "same_store s s'"
  shows "dicts s' = dicts s" "conns s' = conns s" "log s' = log s" "dheap.more s' = dheap.more s"
  using assms by (cases s; cases s'; simp add: same_store_def)+

text \<open>A table depends on its own items only.\<close>

lemma ut_rep_frame:
  assumes rep: "ut_rep s head as" and same: "\<And>a. a \<in> set as \<Longrightarrow> items s' a = items s a"
    and "tbls s' = tbls s" "tick s \<le> tick s'"
  shows "ut_rep s' head as"
proof (cases "as = []")
  case True
  with rep show ?thesis by (simp add: ut_rep_def)
next
  case False
  with rep obtain ta t where t: "head = head_or as None" "tbls s ta = Some t" "listed s ta t as"
    "bucketed s t (set as)" "num_items t = of_nat (length as)" by (auto simp: ut_rep_def)
  have f: "hf s' a = hf s a" "ukey s' a = ukey s a" if "a \<in> set as" for a
    using same [OF that] by (simp_all add: hf_def ukey_def)
  have fields: "prv s' a = prv s a" "nxt s' a = nxt s a" "cprv s' a = cprv s a" "cnxt s' a = cnxt s a"
    "hmeta s' a = hmeta s a" "slot s' n a = slot s n a" if "a \<in> set as" for a n
    using f [OF that] by (simp_all add: prv_def nxt_def cprv_def cnxt_def hmeta_def slot_def hv_def)
  note l = listedD [OF t(3)]
  have "keyed s' ta a" if "a \<in> set as" for a
    using l(4) [OF that] same [OF that] f [OF that] fields [OF that] assms(4) by (auto simp: keyed_def)
  moreover have "dseg (prv s') (nxt s') None as None"
    using l(5) dseg_cong [of as "prv s'" "prv s" "nxt s'" "nxt s"] fields by simp
  moreover have "inj_on (ukey s') (set as)" using l(3) f by (auto simp: inj_on_def)
  ultimately have "listed s' ta t as" using l by (simp add: listed_def)
  moreover from t(4) obtain k C where C: "sized t k" "chained s (buckets t) C" "spread s (num_buckets t) C (set as)"
    unfolding bucketed_def by blast
  have "{a \<in> set as. slot s' (num_buckets t) a = i} = {a \<in> set as. slot s (num_buckets t) a = i}" for i
    using fields by auto
  then have "spread s' (num_buckets t) C (set as)" using C(3) by (simp add: spread_def)
  moreover have "dseg (cprv s') (cnxt s') None (C ! i) None" if i: "i < length (buckets t)" for i
  proof -
    have "set (C ! i) \<subseteq> set as" using spread_sub [OF C(3)] i C(2) by (simp add: chained_def)
    with fields chainedD(5) [OF C(2) i] dseg_cong [of "C ! i" "cprv s'" "cprv s" "cnxt s'" "cnxt s"]
    show ?thesis by (metis subsetD)
  qed
  then have "chained s' (buckets t) C" using C(2) by (simp add: chained_def)
  ultimately show ?thesis using C(1) t assms(3) unfolding ut_rep_def bucketed_def by auto
qed

section \<open>Dictionaries that hold items\<close>

definition data_of :: "'a uheap_scheme \<Rightarrow> addr \<Rightarrow> addr option" where
  "data_of s a = i_data (the (items s a))"

definition dict_holds :: "addr \<Rightarrow> addr list \<Rightarrow> 'a dheap_scheme \<Rightarrow> bool" where
  "dict_holds h as s \<longleftrightarrow> (\<exists>d. dicts s h = Some d \<and> ut_rep s (d_base d) as)"

definition key_item_of :: "'a uheap_scheme \<Rightarrow> addr list \<Rightarrow> int \<Rightarrow> addr option" where
  "key_item_of s as n = List.find (\<lambda>a. ukey s a = int_bytes n) as"

lemma same_store_held: "same_store s s' \<Longrightarrow> held s' a = held s a"
  by (simp add: same_store_def)

lemma same_store_data: "same_store s s' \<Longrightarrow> a \<in> dom (items s) \<Longrightarrow> data_of s' a = data_of s a"
  by (cases "items s a"; cases "items s' a"; drule same_store_held [where a = a])
     (auto simp: data_of_def held_def)

lemma ut_rep_dom: "ut_rep s head as \<Longrightarrow> set as \<subseteq> dom (items s)"
  by (cases "as = []") (auto simp: ut_rep_def listed_def keyed_def)

lemma ut_rep_short:
  assumes "ut_rep s head as"
  shows "length as < Suc (tick s)"
proof -
  have "a < tick s" if "a \<in> set as" for a
    using assms that by (cases "as = []") (auto simp: ut_rep_def listed_def keyed_def)
  with distinct_below [of as "tick s"] ut.keys_distinct [OF assms] show ?thesis
    by (simp add: less_Suc_eq_le)
qed

lemma ut_rep_base: "ut_rep s head as \<Longrightarrow> head = None \<longleftrightarrow> as = []"
  by (simp add: ut_rep_def)

lemma dict_get_holds:
  assumes "dict_holds h as s"
  shows "dict_get (Some h) n s = Inr (case key_item_of s as n of None \<Rightarrow> None | Some a \<Rightarrow> data_of s a)"
proof -
  from assms obtain d where d: "dicts s h = Some d" "ut_rep s (d_base d) as" by (auto simp: dict_holds_def)
  note look = ut_find [OF d(2), of n, folded key_item_of_def]
  show ?thesis
  proof (cases "key_item_of s as n")
    case None
    with d look show ?thesis by (simp add: dict_get_def sub_finditem_def)
  next
    case (Some a)
    then have "a \<in> set as" by (auto simp: key_item_of_def find_Some_iff)
    with ut_rep_dom [OF d(2)] obtain i where "items s a = Some i" by blast
    moreover obtain b where "d_base d = Some b"
      using ut_rep_base [OF d(2)] \<open>a \<in> set as\<close> by (cases "d_base d") auto
    ultimately show ?thesis using d look Some by (simp add: dict_get_def sub_finditem_def data_of_def)
  qed
qed

lemma dict_del_miss:
  assumes "dict_holds h as s" "key_item_of s as n = None"
  shows "dict_del (Some h) n s = Inr (0, s)"
proof -
  from assms(1) obtain d where d: "dicts s h = Some d" "ut_rep s (d_base d) as" by (auto simp: dict_holds_def)
  from ut_find [OF d(2), of n, folded key_item_of_def] d assms(2)
  show ?thesis by (simp add: dict_del_def sub_finditem_def)
qed

text \<open>A deletion that finds its item frees the item and the connection it holds.\<close>

lemma dict_del_hit:
  assumes h: "dict_holds h (xs @ a # ys) s" "ukey s a = int_bytes n"
    and c: "data_of s a = Some c" "c \<in> dom (conns s)"
  shows "\<exists>s'. dict_del (Some h) n s = Inr (1, s') \<and> dict_holds h (xs @ ys) s' \<and>
    dict_size h s' = dict_size h s - 1 \<and> items s' a = None \<and> conns s' = (conns s)(c := None) \<and>
    log s' = log s \<and>
    (\<forall>x \<in> set (xs @ ys). ukey s' x = ukey s x \<and> data_of s' x = data_of s x)"
proof -
  from h(1) obtain d where d: "dicts s h = Some d" "ut_rep s (d_base d) (xs @ a # ys)"
    by (auto simp: dict_holds_def)
  have base: "d_base d \<noteq> None" using ut_rep_base [OF d(2)] by simp
  have look: "sub_finditem d n s = Inr (Some a)"
    using ut.lookup_Some [OF d(2), of n a] h(2) by (simp add: sub_finditem_def)
  have dis: "distinct (xs @ a # ys)" using ut.keys_distinct [OF d(2)] by simp
  from hash_delete_ok [OF d(2)] obtain t where
    t: "hash_delete (d_base d) a s = Inr (head_or (xs @ ys) None, t)" "same_store s t" "tick t = tick s"
      "ut_rep t (head_or (xs @ ys) None) (xs @ ys)" by blast
  note frame = same_store_dheap [OF t(2)]
  from ut_rep_dom [OF d(2)] have dom: "x \<in> dom (items s)" if "x \<in> set (xs @ a # ys)" for x using that by blast
  from dom [of a] same_storeD(1) [OF t(2)] obtain i where i: "items t a = Some i" by auto
  have data: "i_data i = Some c"
    using same_store_data [OF t(2) dom, of a] c(1) i by (simp add: data_of_def)
  let ?s' = "t\<lparr>conns := (conns t)(c := None), items := (items t)(a := None),
    dicts := (dicts t)(h \<mapsto> \<lparr>d_size = d_size d - 1, d_base = head_or (xs @ ys) None\<rparr>)\<rparr>"
  have "dict_del (Some h) n s = Inr (1, ?s')"
    using base d(1) look t(1) i data c(2) frame by (auto simp: dict_del_def)
  moreover have rest: "x \<noteq> a" if "x \<in> set (xs @ ys)" for x using that dis by auto
  then have "ut_rep ?s' (head_or (xs @ ys) None) (xs @ ys)"
    by (intro ut_rep_frame [OF t(4)]) auto
  then have "dict_holds h (xs @ ys) ?s'" by (simp add: dict_holds_def)
  moreover have keys: "ukey ?s' x = ukey s x \<and> data_of ?s' x = data_of s x" if "x \<in> set (xs @ ys)" for x
    using same_store_data [OF t(2) dom, of x] fun_cong [OF same_storeD(2) [OF t(2)], of x] rest [OF that] that
    by (auto simp: data_of_def ukey_def)
  ultimately show ?thesis
    using frame d(1) by (intro exI [of _ ?s']) (auto simp: dict_size_def)
qed

section \<open>Tearing a dictionary down\<close>

lemma head_next:
  assumes "ut_rep s (Some i) (i # as)"
  shows "\<exists>it. items s i = Some it \<and> h_next (i_hh it) = head_or as None"
proof -
  from assms obtain ta t where l: "listed s ta t (i # as)" by (auto simp: ut_rep_def)
  from listedD(7) [OF l, of i] obtain it where "items s i = Some it" by auto
  with listedD(5) [OF l] show ?thesis by (simp add: nxt_def hf_def)
qed

lemma deinit_loop_ok:
  assumes "ut_rep s (head_or as None) as" "length as < n"
    and "tmp = head_or (tl as) None"
  shows "\<exists>s'. deinit_loop n (head_or as None) (head_or as None) tmp s = Inr s' \<and>
    dom (items s') = dom (items s) - set as \<and> dicts s' = dicts s \<and> conns s' = conns s \<and> log s' = log s"
  using assms
proof (induction as arbitrary: s n tmp)
  case Nil
  then show ?case by simp
next
  case (Cons i as)
  then obtain m where n: "n = Suc m" "length as < m" by (cases n) auto
  from Cons.prems(1) have "ut_rep s (Some i) ([] @ i # as)" by simp
  from hash_delete_ok [OF this] obtain t where
    t: "hash_delete (Some i) i s = Inr (head_or as None, t)" "same_store s t" "ut_rep t (head_or as None) as"
    by auto
  have i: "i \<notin> set as" using ut.keys_distinct [OF Cons.prems(1)] by simp
  let ?t = "t\<lparr>items := (items t)(i := None)\<rparr>"
  have rep: "ut_rep ?t (head_or as None) as"
    by (rule ut_rep_frame [OF t(3)]) (use i in auto)
  have "(if head_or as None = None then Inr None
      else andThen (deref (items ?t) (head_or as None)) (\<lambda>(t, ti). Inr (h_next (i_hh ti))))
    = Inr (head_or (tl as) None)"
  proof (cases as)
    case (Cons j js)
    with head_next [of ?t j js] rep show ?thesis by auto
  qed simp
  then have "deinit_loop n (Some i) (Some i) tmp s
    = deinit_loop m (head_or as None) (head_or as None) (head_or (tl as) None) ?t"
    using t(1) Cons.prems(3) by (simp add: n(1) Let_def)
  moreover from Cons.IH [OF rep n(2) refl] obtain s' where
    "deinit_loop m (head_or as None) (head_or as None) (head_or (tl as) None) ?t = Inr s'"
    "dom (items s') = dom (items ?t) - set as" "dicts s' = dicts ?t" "conns s' = conns ?t" "log s' = log ?t"
    by blast
  ultimately show ?case
    using same_storeD(1) [OF t(2)] same_store_dheap [OF t(2)] by (intro exI [of _ s']) auto
qed

text \<open>Every item holds a connection that is allocated; its descriptor.\<close>

definition wired :: "'a dheap_scheme \<Rightarrow> addr list \<Rightarrow> bool" where
  "wired s as \<longleftrightarrow> (\<forall>a \<in> set as. \<exists>c. data_of s a = Some c \<and> c \<in> dom (conns s))"

definition fd_of :: "'a dheap_scheme \<Rightarrow> addr \<Rightarrow> int" where
  "fd_of s a = fd_ds (the (conns s (the (data_of s a))))"

lemma close_items_ok:
  assumes "dseg (prv s) (nxt s) p as None" "set as \<subseteq> dom (items s)" "wired s as" "length as < n"
  shows "close_items n (head_or as None) s = Inr (s\<lparr>log := log s @ map (\<lambda>a. IoClose (fd_of s a)) as\<rparr>)"
  using assms
proof (induction as arbitrary: s n p)
  case (Cons a as)
  then obtain m where n: "n = Suc m" "length as < m" by (cases n) auto
  from Cons.prems(2) obtain i where i: "items s a = Some i" by auto
  from Cons.prems(3) i obtain c cn where c: "i_data i = Some c" "conns s c = Some cn"
    by (auto simp: wired_def data_of_def)
  have next_: "h_next (i_hh i) = head_or as None" using Cons.prems(1) i by (simp add: nxt_def hf_def)
  let ?t = "emit (IoClose (fd_of s a)) s"
  have "items ?t = items s" by simp
  note f = fields_items(4,5) [OF this]
  have "wired ?t as" using Cons.prems(3) by (simp add: wired_def data_of_def)
  with Cons.IH [of ?t "Some a" m] Cons.prems(1,2) n(2) f
  have "close_items m (head_or as None) ?t = Inr (?t\<lparr>log := log ?t @ map (\<lambda>a. IoClose (fd_of ?t a)) as\<rparr>)"
    by simp
  moreover have "fd_of s a = fd_ds cn" using i c by (simp add: fd_of_def data_of_def)
  moreover have "fd_of ?t x = fd_of s x" for x by (simp add: fd_of_def data_of_def)
  ultimately show ?case using i c next_ by (simp add: n(1) emit_def)
qed simp

lemma close_all_ok:
  assumes "dict_holds h as s" "wired s as"
  shows "close_all (Some h) s = Inr (s\<lparr>log := log s @ map (\<lambda>a. IoClose (fd_of s a)) as\<rparr>)"
proof -
  from assms(1) obtain d where d: "dicts s h = Some d" "ut_rep s (d_base d) as" by (auto simp: dict_holds_def)
  have seg: "dseg (prv s) (nxt s) None as None" "d_base d = head_or as None"
    using d(2) by (cases "as = []"; auto simp: ut_rep_def listed_def)+
  from close_items_ok [OF seg(1) ut_rep_dom [OF d(2)] assms(2) ut_rep_short [OF d(2)]] d(1) seg(2)
  show ?thesis by (simp add: close_all_def)
qed

lemma dict_deinit_ok:
  assumes "dict_holds h as s"
  shows "\<exists>s'. dict_deinit (Some h) s = Inr s' \<and> dicts s' = (dicts s)(h := None) \<and>
    dom (items s') = dom (items s) - set as \<and> conns s' = conns s \<and> log s' = log s"
proof -
  from assms obtain d where d: "dicts s h = Some d" "ut_rep s (d_base d) as" by (auto simp: dict_holds_def)
  have base: "d_base d = head_or as None" using d(2) by (simp add: ut_rep_def)
  from deinit_loop_ok [OF d(2) [unfolded base] ut_rep_short [OF d(2)] refl] obtain s' where
    s': "deinit_loop (Suc (tick s)) (head_or as None) (head_or as None) (head_or (tl as) None) s = Inr s'"
      "dom (items s') = dom (items s) - set as" "dicts s' = dicts s" "conns s' = conns s" "log s' = log s"
    by blast
  have "(if d_base d = None then Inr None
      else andThen (deref (items s) (d_base d)) (\<lambda>(b, bi). Inr (h_next (i_hh bi)))) = Inr (head_or (tl as) None)"
  proof (cases as)
    case (Cons j js)
    with head_next [of s j js] d(2) base show ?thesis by auto
  qed (simp add: base)
  with d(1) s' base show ?thesis
    by (intro exI [of _ "s'\<lparr>dicts := (dicts s')(h := None)\<rparr>"]) (simp add: dict_deinit_def)
qed

lemma dict_holds_log [simp]: "dict_holds h as (s\<lparr>log := l\<rparr>) = dict_holds h as s"
proof -
  have "ut_rep (s\<lparr>log := l\<rparr>) head as = ut_rep s head as" for head
    using ut_rep_frame [of s head as "s\<lparr>log := l\<rparr>"] ut_rep_frame [of "s\<lparr>log := l\<rparr>" head as s] by auto
  then show ?thesis by (simp add: dict_holds_def)
qed

section \<open>Properties\<close>

text \<open>A dictionary with one connection, made by the additions of the hash table.\<close>

definition demo_item :: item where
  "demo_item = \<lparr>i_id = 7, i_data = Some 5, i_hh = hh_raw\<rparr>"

definition demo_conn :: conn_t where
  "demo_conn = \<lparr>fd_ds = 7, sock_handle = None, mqweb = \<lparr>stqh_first = Null, stqh_last = LHead\<rparr>,
     mqlocal = \<lparr>stqh_first = Null, stqh_last = LHead\<rparr>\<rparr>"

definition demo_start :: dheap where
  "demo_start = \<lparr>tick = 10, log = [], live = {}, blocks = Map.empty, msgs = Map.empty, items = [3 \<mapsto> demo_item],
     tbls = Map.empty, dicts = [0 \<mapsto> \<lparr>d_size = 1, d_base = Some 3\<rparr>], conns = [5 \<mapsto> demo_conn]\<rparr>"

lemma demo_table:
  "\<exists>s. hash_add_int demo_env None 3 demo_start = Inr (Some 3, s) \<and> dict_holds 0 [3] s \<and> wired s [3] \<and>
     key_item_of s [3] 7 = Some 3 \<and> fd_of s 3 = 7 \<and> conns s = conns demo_start \<and> log s = [] \<and>
     dicts s = dicts demo_start"
proof -
  have 1: "ut_rep demo_start None []" "(3::nat) \<in> dom (items demo_start)" "3 < tick demo_start" "3 \<notin> set []"
    "ukey demo_start 3 \<notin> ukey demo_start ` set []" "\<And>n. e_malloc demo_env n"
    by (simp_all add: ut_rep_def demo_start_def demo_env_def)
  have "\<And>ta t. tbl_of demo_start None = Inr (ta, t) \<Longrightarrow> num_buckets t < 2 ^ 31"
    by (simp add: tbl_of_def)
  then have "\<exists>s. hash_add_int demo_env None 3 demo_start = Inr (head_or ([] @ [3]) None, s) \<and>
      same_store demo_start s \<and> ut_rep s (head_or ([] @ [3]) None) ([] @ [3])"
    by (rule hash_add_ok [OF 1])
  then obtain s where
    s: "hash_add_int demo_env None 3 demo_start = Inr (Some 3, s)" "same_store demo_start s" "ut_rep s (Some 3) [3]"
    by auto
  note f = same_store_dheap [OF s(2)]
  have "data_of s 3 = data_of demo_start 3" "ukey s 3 = ukey demo_start 3"
    using same_store_data [OF s(2)] same_storeD(2) [OF s(2)] by (simp_all add: demo_start_def)
  then have "data_of s 3 = Some 5" "ukey s 3 = int_bytes 7"
    by (simp_all add: data_of_def ukey_def demo_start_def demo_item_def)
  with s f show ?thesis
    by (auto simp: dict_holds_def wired_def key_item_of_def fd_of_def demo_start_def demo_conn_def)
qed

text \<open>
  C35: on a dictionary whose table holds connections, \<open>dict_get\<close> finds exactly the keys of its items;
  \<open>dict_del\<close> of a key that is not there changes nothing; of one that is there it takes that item
  out, frees it and its connection and counts down, and afterwards \<open>dict_get\<close> misses that key and
  finds what it found before under the others.
\<close>

theorem dict_table_spec:
  assumes "dict_holds h as s" "wired s as"
  shows "case key_item_of s as n of
      None \<Rightarrow> dict_get (Some h) n s = Inr None \<and> dict_del (Some h) n s = Inr (0, s)
    | Some a \<Rightarrow> dict_get (Some h) n s = Inr (data_of s a) \<and>
        (\<exists>s'. dict_del (Some h) n s = Inr (1, s') \<and> dict_holds h (remove1 a as) s' \<and>
          dict_size h s' = dict_size h s - 1 \<and> items s' a = None \<and>
          conns s' = (conns s)(the (data_of s a) := None) \<and>
          (\<forall>m. dict_get (Some h) m s' = (if int_bytes m = int_bytes n then Inr None else dict_get (Some h) m s)))"
proof (cases "key_item_of s as n")
  case None
  with dict_get_holds [OF assms(1), of n] dict_del_miss [OF assms(1) None] show ?thesis by simp
next
  case (Some a)
  then have a: "a \<in> set as" "ukey s a = int_bytes n" by (auto simp: key_item_of_def find_Some_iff)
  then obtain xs ys where as: "as = xs @ a # ys" by (meson split_list)
  from assms(1) obtain d where d: "dicts s h = Some d" "ut_rep s (d_base d) as"
    by (auto simp: dict_holds_def)
  note keys = ut.keys_distinct [OF d(2)]
  have rem: "remove1 a as = xs @ ys" using keys by (simp add: as remove1_append)
  from assms(2) a(1) obtain c where c: "data_of s a = Some c" "c \<in> dom (conns s)" unfolding wired_def by blast
  from dict_del_hit [OF assms(1) [unfolded as] a(2) c] obtain s' where
    s': "dict_del (Some h) n s = Inr (1, s')" "dict_holds h (xs @ ys) s'" "dict_size h s' = dict_size h s - 1"
      "items s' a = None" "conns s' = (conns s)(c := None)"
      "\<forall>x \<in> set (xs @ ys). ukey s' x = ukey s x \<and> data_of s' x = data_of s x" by blast
  have look: "dict_get (Some h) m s' = (if int_bytes m = int_bytes n then Inr None else dict_get (Some h) m s)" for m
  proof (cases "int_bytes m = int_bytes n")
    case True
    have "ukey s x \<noteq> int_bytes n" if "x \<in> set (xs @ ys)" for x
      using keys that a(2) by (auto simp: as inj_on_def)
    with s'(6) True have "key_item_of s' (xs @ ys) m = None" unfolding key_item_of_def find_None_iff by metis
    with True dict_get_holds [OF s'(2), of m] show ?thesis by simp
  next
    case False
    have "key_item_of s' (xs @ ys) m = key_item_of s (xs @ ys) m"
      unfolding key_item_of_def by (rule find_cong) (use s'(6) in simp_all)
    also have "\<dots> = key_item_of s as m"
      using False a(2) unfolding key_item_of_def as by (induction xs) auto
    finally have same: "key_item_of s' (xs @ ys) m = key_item_of s as m" .
    have "x \<in> set (xs @ ys)" if "key_item_of s' (xs @ ys) m = Some x" for x
      using that unfolding key_item_of_def find_Some_iff by (metis nth_mem)
    with False same s'(6) show ?thesis
      by (auto simp: dict_get_holds [OF s'(2)] dict_get_holds [OF assms(1)] split: option.split)
  qed
  show ?thesis using Some dict_get_holds [OF assms(1), of n] s' c look rem by simp
qed

theorem dict_table_spec_witness:
  "\<exists>s s'. hash_add_int demo_env None 3 demo_start = Inr (Some 3, s) \<and> dict_get (Some 0) 7 s = Inr (Some 5) \<and>
     dict_del (Some 0) 7 s = Inr (1, s') \<and> conns s' = Map.empty \<and> dict_get (Some 0) 7 s' = Inr None"
proof -
  from demo_table obtain s where
    s: "hash_add_int demo_env None 3 demo_start = Inr (Some 3, s)" "dict_holds 0 [3] s" "wired s [3]"
      "key_item_of s [3] 7 = Some 3" "data_of s 3 = Some 5" "conns s = [5 \<mapsto> demo_conn]"
    by (auto simp: wired_def demo_start_def split: if_splits)
  from dict_table_spec [OF s(2,3), of 7] s(4-6)
  have "dict_get (Some 0) 7 s = Inr (Some 5) \<and> (\<exists>s'. dict_del (Some 0) 7 s = Inr (1, s') \<and>
    conns s' = Map.empty \<and> dict_get (Some 0) 7 s' = Inr None)" by auto
  with s(1) show ?thesis by blast
qed

text \<open>
  The teardown of \<open>backend_run\<close> on such a dictionary: the loop before \<open>dict_deinit\<close> closes the
  descriptor of every connection, once, in the order the connections were added, and \<open>dict_deinit\<close>
  then frees every item and the dictionary; the connections themselves stay allocated.
\<close>

theorem dict_teardown:
  assumes "dict_holds h as s" "wired s as"
  shows "\<exists>s'. andThen (close_all (Some h) s) (dict_deinit (Some h)) = Inr s' \<and>
    log s' = log s @ map (\<lambda>a. IoClose (fd_of s a)) as \<and> dom (items s') = dom (items s) - set as \<and>
    dicts s' = (dicts s)(h := None) \<and> conns s' = conns s"
proof -
  let ?t = "s\<lparr>log := log s @ map (\<lambda>a. IoClose (fd_of s a)) as\<rparr>"
  from assms(1) have "dict_holds h as ?t" by simp
  from dict_deinit_ok [OF this] close_all_ok [OF assms] show ?thesis by auto
qed

theorem dict_teardown_witness:
  "\<exists>s s'. hash_add_int demo_env None 3 demo_start = Inr (Some 3, s) \<and>
     andThen (close_all (Some 0) s) (dict_deinit (Some 0)) = Inr s' \<and> log s' = [IoClose 7] \<and>
     dicts s' = Map.empty \<and> conns s' 5 = Some demo_conn"
proof -
  obtain s where
    s: "hash_add_int demo_env None 3 demo_start = Inr (Some 3, s)" "dict_holds 0 [3] s" "wired s [3]"
      "fd_of s 3 = 7" "conns s = conns demo_start" "log s = []" "dicts s = dicts demo_start"
    using demo_table by blast
  from dict_teardown [OF s(2,3)] s show ?thesis
    by (auto simp: demo_start_def)
qed

end
