(* ===== verification/Cliopt.thy ===== *)
theory Cliopt
  imports Wf_Prelude
begin

text \<open>
  The options of \<^verbatim>\<open>main/cliopt.c\<close>: a global pointer to the options record that
  \<open>main\<close> fills, and its accessors. The enumerations have the order of their C values.
\<close>

datatype INTF_Type = INTF_unix | INTF_ip | INTF_ubus | INTF_dbus | INTF_max

datatype FORMAT_Type =
  FORMAT_Default | FORMAT_Json | FORMAT_JsonHex | FORMAT_Bintex | FORMAT_Hex | FORMAT_MAX

fun intf_value :: "INTF_Type \<Rightarrow> int" where
  "intf_value INTF_unix = 0"
| "intf_value INTF_ip = 1"
| "intf_value INTF_ubus = 2"
| "intf_value INTF_dbus = 3"
| "intf_value INTF_max = 4"

fun format_value :: "FORMAT_Type \<Rightarrow> int" where
  "format_value FORMAT_Default = 0"
| "format_value FORMAT_Json = 1"
| "format_value FORMAT_JsonHex = 2"
| "format_value FORMAT_Bintex = 3"
| "format_value FORMAT_Hex = 4"
| "format_value FORMAT_MAX = 5"

lemma intf_value_inj [simp]: "intf_value x = intf_value y \<longleftrightarrow> x = y"
  by (cases x; cases y) simp_all

lemma format_value_inj [simp]: "format_value x = format_value y \<longleftrightarrow> x = y"
  by (cases x; cases y) simp_all

instantiation INTF_Type :: linorder
begin

definition less_eq_INTF_Type :: "INTF_Type \<Rightarrow> INTF_Type \<Rightarrow> bool" where
  "less_eq_INTF_Type x y \<longleftrightarrow> intf_value x \<le> intf_value y"

definition less_INTF_Type :: "INTF_Type \<Rightarrow> INTF_Type \<Rightarrow> bool" where
  "less_INTF_Type x y \<longleftrightarrow> intf_value x < intf_value y"

instance
  by standard (auto simp: less_eq_INTF_Type_def less_INTF_Type_def)

end

instantiation FORMAT_Type :: linorder
begin

definition less_eq_FORMAT_Type :: "FORMAT_Type \<Rightarrow> FORMAT_Type \<Rightarrow> bool" where
  "less_eq_FORMAT_Type x y \<longleftrightarrow> format_value x \<le> format_value y"

definition less_FORMAT_Type :: "FORMAT_Type \<Rightarrow> FORMAT_Type \<Rightarrow> bool" where
  "less_FORMAT_Type x y \<longleftrightarrow> format_value x < format_value y"

instance
  by standard (auto simp: less_eq_FORMAT_Type_def less_FORMAT_Type_def)

end

record cliopt_t =
  verbose_on :: bool
  debug_on :: bool
  quiet_on :: bool
  format :: FORMAT_Type
  intf :: INTF_Type

text \<open>\<open>master\<close> is NULL until \<open>cliopt_init\<close> has been called.\<close>

type_synonym master = "cliopt_t option"

definition cliopt_init :: "cliopt_t option \<Rightarrow> master" where
  "cliopt_init new_master = new_master"

definition cliopt_field :: "(cliopt_t \<Rightarrow> 'a) \<Rightarrow> master \<Rightarrow> 'a res" where
  "cliopt_field f m = (case m of None \<Rightarrow> Inl NullDeref | Some o' \<Rightarrow> Inr (f o'))"

definition cliopt_isverbose :: "master \<Rightarrow> bool res" where
  "cliopt_isverbose = cliopt_field verbose_on"

definition cliopt_isdebug :: "master \<Rightarrow> bool res" where
  "cliopt_isdebug = cliopt_field debug_on"

definition cliopt_isquiet :: "master \<Rightarrow> bool res" where
  "cliopt_isquiet = cliopt_field quiet_on"

definition cliopt_getformat :: "master \<Rightarrow> FORMAT_Type res" where
  "cliopt_getformat = cliopt_field format"

definition cliopt_getintf :: "master \<Rightarrow> INTF_Type res" where
  "cliopt_getintf = cliopt_field intf"

end
