(* ===== verification/Wfedd_Main.thy ===== *)
theory Wfedd_Main
  imports Backend_Run Cliopt
begin

text \<open>
  The process: \<open>main\<close> of \<^verbatim>\<open>main/main.c\<close> checks what the argument parser found and builds the
  socket table; \<open>wfedd\<close> sets up the protocols and the mount and runs the backend. The parser is
  a library; what it leaves in its table is the record \<open>args\<close>.
\<close>

section \<open>Arguments\<close>

text \<open>
  \<open>a_nullcheck\<close> is the result of \<open>arg_nullcheck\<close>, \<open>a_nerrors\<close> that of \<open>arg_parse\<close>; the counts
  and the values of the options are what \<open>arg_parse\<close> stored.
\<close>

record args =
  a_argc :: int
  a_nullcheck :: int
  a_nerrors :: int
  a_help :: nat
  a_version :: nat
  a_verbose :: nat
  a_debug :: nat
  a_quiet :: nat
  a_tls :: nat
  a_rsrc :: "string list"
  a_urlpath :: "string list"
  a_port :: "int list"
  a_socket :: "string list"

text \<open>
  The variables of \<open>main\<close>. A string on the heap is the address of its block and its characters.
\<close>

type_synonym hstring = "addr \<times> string"

record config =
  rsrc_val :: "hstring option"
  urlpath_val :: "hstring option"
  port_val :: int
  tls_val :: bool
  table :: "socklist_t option"
  opts :: master

definition config_init :: config where
  "config_init = \<lparr>rsrc_val = None, urlpath_val = None, port_val = 7681, tls_val = False,
     table = None, opts = None\<rparr>"

text \<open>\<open>FILL_STRINGARG\<close> on a variable that is NULL, and the allocation of a default: NULL when there is no memory.\<close>

definition fill_stringarg ::
  "env \<Rightarrow> string list \<Rightarrow> string \<Rightarrow> 'a os_scheme \<Rightarrow> hstring option \<times> 'a os_scheme" where
  "fill_stringarg E sval dflt s =
     (let (a, s) = alloc E s in
      (map_option (\<lambda>a. (a, case sval of x # _ \<Rightarrow> x | [] \<Rightarrow> dflt)) a, s))"

text \<open>The range test of the port, as it is written.\<close>

definition port_arg :: "int list \<Rightarrow> int" where
  "port_arg port =
     (case port of [] \<Rightarrow> 7681
      | p # _ \<Rightarrow> if 0 \<le> p \<or> 65536 \<le> p then 7681 else p)"

text \<open>The loop over the socket arguments; the codes of \<open>socklist_addmap\<close> are not looked at.\<close>

fun fill_table :: "env \<Rightarrow> socklist_t option \<Rightarrow> string list \<Rightarrow> 'a os_scheme \<Rightarrow>
    (socklist_t option \<times> 'a os_scheme) res" where
  "fill_table E sl [] s = Inr (sl, s)"
| "fill_table E sl (m # ms) s =
     andThen (socklist_addmap E sl m s) (\<lambda>(rc, sl, s). fill_table E sl ms s)"

text \<open>The verbose, debug and quiet flags.\<close>

definition output_opts :: "args \<Rightarrow> cliopt_t" where
  "output_opts x =
     (let verbose = (a_verbose x \<noteq> 0); debug = False; quiet = False;
          (quiet, verbose) = (if a_quiet x \<noteq> 0 then (True, False) else (quiet, verbose));
          (debug, quiet) = (if a_debug x \<noteq> 0 then (True, False) else (debug, quiet))
      in \<lparr>verbose_on = verbose, debug_on = debug, quiet_on = quiet,
          format = FORMAT_Default, intf = INTF_unix\<rparr>)"

text \<open>
  \<open>main\<close> up to \<open>main_FINISH\<close>: the exit code, \<open>bailout\<close> and the variables. The fields \<open>format\<close> and
  \<open>intf\<close> of the static options stay 0.
\<close>

definition main_config :: "env \<Rightarrow> args \<Rightarrow> 'a os_scheme \<Rightarrow> (int \<times> bool \<times> config \<times> 'a os_scheme) res" where
  "main_config E x s =
     (let c = config_init in
      if a_nullcheck x \<noteq> 0 then Inr (1, True, c, s)
      else if 0 < a_help x then Inr (0, True, c, s)
      else if 0 < a_version x then Inr (0, True, c, s)
      else if 0 < a_nerrors x then Inr (1, True, c, s)
      else if a_argc x = 1 then Inr (0, True, c, s)
      else let c = c\<lparr>tls_val := (0 < a_tls x)\<rparr>;
               (rsrc, s) = fill_stringarg E (a_rsrc x) ''./resources'' s; c = c\<lparr>rsrc_val := rsrc\<rparr> in
        if rsrc = None then Inr (0, True, c, s)
        else let (urlpath, s) = fill_stringarg E (a_urlpath x) ''/'' s; c = c\<lparr>urlpath_val := urlpath\<rparr> in
          if urlpath = None then Inr (0, True, c, s)
          else let c = c\<lparr>port_val := port_arg (a_port x)\<rparr> in
            if a_socket x = [] then Inr (1, True, c, s)
            else andThen (socklist_init E True (length (a_socket x)) s) (\<lambda>(rc, sl, s).
              let c = c\<lparr>table := sl\<rparr> in
              if rc \<noteq> 0 then Inr (2, True, c, s)
              else andThen (fill_table E sl (a_socket x) s) (\<lambda>(sl, s).
                Inr (0, False, c\<lparr>table := sl, opts := cliopt_init (Some (output_opts x))\<rparr>, s))))"

section \<open>Running the backend\<close>

definition protocol_zero :: lws_protocols where
  "protocol_zero = \<lparr>p_name = None, p_callback = None, p_session_size = False, p_rx_buffer = 0\<rparr>"

definition protocol_http :: lws_protocols where
  "protocol_http = \<lparr>p_name = Some ''http'', p_callback = Some Http_callback, p_session_size = False, p_rx_buffer = 0\<rparr>"

definition protocol_cli :: lws_protocols where
  "protocol_cli = \<lparr>p_name = Some ''CLI'', p_callback = Some Cli_callback, p_session_size = False, p_rx_buffer = 0\<rparr>"

definition protocol_ws :: "string option \<Rightarrow> lws_protocols" where
  "protocol_ws nm = \<lparr>p_name = nm, p_callback = Some Ws_callback, p_session_size = True, p_rx_buffer = 1024\<rparr>"

text \<open>The loop \<open>for (i=0, j=2; i<socklist->size; i++, j++)\<close>, \<open>n\<close> rounds before its end.\<close>

fun fill_protocols :: "socklist_t \<Rightarrow> nat \<Rightarrow> nat \<Rightarrow> nat \<Rightarrow> lws_protocols list \<Rightarrow> (nat \<times> lws_protocols list) res" where
  "fill_protocols l 0 i j ps = Inr (j, ps)"
| "fill_protocols l (Suc n) i j ps =
     (if length (sl_map l) \<le> i \<or> length ps \<le> j then Inl OutOfBounds
      else fill_protocols l n (Suc i) (Suc j) (ps[j := protocol_ws (websocket (sl_map l ! i))]))"

definition protocol_array :: "socklist_t \<Rightarrow> lws_protocols list res" where
  "protocol_array l =
     (let ps = replicate (2 + sl_size l + 1) protocol_zero;
          ps = ps[0 := protocol_http]; ps = ps[1 := protocol_cli] in
      andThen (fill_protocols l (sl_size l) 0 2 ps) (\<lambda>(j, ps).
        if length ps \<le> j then Inl OutOfBounds else Inr (ps[j := protocol_zero])))"

text \<open>
  \<open>asprintf\<close>: the number of characters and the string, or -1 without memory; the variable it was
  given, NULL in every call, is then taken to be left as it was.
\<close>

definition asprintf :: "env \<Rightarrow> string \<Rightarrow> 'a os_scheme \<Rightarrow> int \<times> hstring option \<times> 'a os_scheme" where
  "asprintf E str s =
     (let (a, s) = alloc E s in
      case a of Some a \<Rightarrow> (int (length str), Some (a, str), s) | None \<Rightarrow> (-1, None, s))"

text \<open>The certificate and key paths: the exit code, 0 to go on.\<close>

definition tls_paths :: "env \<Rightarrow> bool \<Rightarrow> string \<Rightarrow> 'a os_scheme \<Rightarrow>
    int \<times> hstring option \<times> hstring option \<times> 'a os_scheme" where
  "tls_paths E use_tls rsrcpath s =
     (if \<not> use_tls then (0, None, None, s)
      else let (cursor, certpath, s) = asprintf E (rsrcpath @ ''/localhost-100y.cert'') s in
        if 0 < cursor then (1, certpath, None, s)
        else let (cursor, keypath, s) = asprintf E (rsrcpath @ ''/localhost-100y.key'') s in
          if 0 < cursor then (2, certpath, keypath, s)
          else (0, certpath, keypath, s))"

text \<open>\<open>wfedd_FINISH\<close>: the cases fall through; the result is 0 whatever \<open>exitcode\<close> is.\<close>

fun dealloc_all :: "addr option list \<Rightarrow> 'a os_scheme \<Rightarrow> 'a os_scheme res" where
  "dealloc_all [] s = Inr s"
| "dealloc_all (p # ps) s = andThen (dealloc p s) (dealloc_all ps)"

definition wfedd_finish ::
  "int \<Rightarrow> hstring option \<Rightarrow> hstring option \<Rightarrow> hstring option \<Rightarrow> addr option \<Rightarrow> bridge \<Rightarrow> (int \<times> bridge) res" where
  "wfedd_finish exitcode str_mountorigin keypath certpath protocols s =
     (let block = map_option fst;
          frees = (if exitcode = 1 then [protocols]
                   else if exitcode = 2 then [block certpath, protocols]
                   else if exitcode = 3 then [block keypath, block certpath, protocols]
                   else [block str_mountorigin, block keypath, block certpath, protocols]) in
      andThen (dealloc_all frees (core s)) (\<lambda>t. Inr (0, s\<lparr>core := t\<rparr>)))"

text \<open>\<open>wfedd\<close>: the code of \<open>backend_run\<close> is dropped.\<close>

definition wfedd ::
  "env \<Rightarrow> service \<Rightarrow> string \<Rightarrow> string \<Rightarrow> int \<Rightarrow> bool \<Rightarrow> socklist_t option \<Rightarrow> bridge \<Rightarrow>
   (int \<times> bridge) res option" where
  "wfedd E S rsrcpath urlpath port use_tls sl s =
     (case sl of None \<Rightarrow> Some (Inl NullDeref)
      | Some l \<Rightarrow>
        let (pa, t) = alloc E (core s) in
        if pa = None then Some (Inr (-1, s\<lparr>core := t\<rparr>))
        else case protocol_array l of Inl f \<Rightarrow> Some (Inl f)
        | Inr protocols \<Rightarrow>
          let (exitcode, certpath, keypath, t) = tls_paths E use_tls rsrcpath t in
          if exitcode \<noteq> 0 then Some (wfedd_finish exitcode None keypath certpath pa (s\<lparr>core := t\<rparr>))
          else let (n, orig, t) = asprintf E (rsrcpath @ ''/mount-origin'') t in
            if n < 0 then Some (wfedd_finish 3 orig keypath certpath pa (s\<lparr>core := t\<rparr>))
            else (case backend_run E S sl False False ''localhost'' port (map_option snd certpath)
                    (map_option snd keypath) protocols
                    \<lparr>mountpoint = urlpath, origin = map_option snd orig, mount_def = ''index.html'',
                     mountpoint_len = length urlpath\<rparr> (s\<lparr>core := t\<rparr>) of
                   None \<Rightarrow> None
                 | Some r \<Rightarrow> Some (andThen r (\<lambda>(rc, s). wfedd_finish 0 orig keypath certpath pa s))))"

text \<open>
  \<open>main\<close>: the configuration, then \<open>wfedd\<close> unless it bailed out, then the frees; the exit code of the
  process.
\<close>

definition main_free :: "config \<Rightarrow> int \<Rightarrow> bridge \<Rightarrow> (int \<times> bridge) res" where
  "main_free c exitcode s =
     andThen (socklist_deinit (table c) (core s)) (\<lambda>t.
     andThen (dealloc_all [map_option fst (rsrc_val c), map_option fst (urlpath_val c)] t) (\<lambda>t.
       Inr (exitcode, s\<lparr>core := t\<rparr>)))"

definition wfedd_main :: "env \<Rightarrow> service \<Rightarrow> args \<Rightarrow> bridge \<Rightarrow> (int \<times> bridge) res option" where
  "wfedd_main E S x s =
     (case main_config E x (core s) of
        Inl f \<Rightarrow> Some (Inl f)
      | Inr (exitcode, bailout, c, t) \<Rightarrow>
          let s = s\<lparr>core := t\<rparr> in
          if bailout then Some (main_free c exitcode s)
          else case (rsrc_val c, urlpath_val c) of
            (Some (_, rsrc), Some (_, url)) \<Rightarrow>
              (case wfedd E S rsrc url (port_val c) (tls_val c) (table c) s of
                 None \<Rightarrow> None
               | Some r \<Rightarrow> Some (andThen r (\<lambda>(exitcode, s). main_free c exitcode s)))
          | _ \<Rightarrow> Some (Inl NullDeref))"

section \<open>The socket table that \<open>main\<close> builds\<close>

definition sock_arg :: "string \<times> string \<Rightarrow> string" where
  "sock_arg p = fst p @ CHR '':'' # snd p"

text \<open>A surroundings with memory, in which the daemon sockets exist.\<close>

definition sockets_ready :: "env \<Rightarrow> (string \<times> string) list \<Rightarrow> bool" where
  "sockets_ready E ps \<longleftrightarrow> (\<forall>n. e_malloc E n \<and> (\<forall>p \<in> set ps. e_stat E n (fst p) = Some True))"

text \<open>Blocks that came to be allocated: \<open>n\<close> of them, none of which was.\<close>

definition gained :: "'a os_scheme \<Rightarrow> nat \<Rightarrow> 'a os_scheme \<Rightarrow> bool" where
  "gained s n s' \<longleftrightarrow> live_ok s' \<and> (\<exists>A. live s' = A \<union> live s \<and> A \<inter> live s = {} \<and> finite A \<and> card A = n)"

lemma gained_refl: "live_ok s' \<Longrightarrow> live s' = live s \<Longrightarrow> gained s 0 s'"
  unfolding gained_def by (auto intro!: exI [of _ "{}"])

lemma gained_trans:
  assumes "gained s m s'" "gained s' n s''"
  shows "gained s (m + n) s''"
proof -
  from assms(1) obtain A where A: "live s' = A \<union> live s" "A \<inter> live s = {}" "finite A" "card A = m"
    by (auto simp: gained_def)
  from assms(2) obtain B where B: "live s'' = B \<union> live s'" "B \<inter> live s' = {}" "finite B" "card B = n" "live_ok s''"
    by (auto simp: gained_def)
  have "A \<inter> B = {}" using A B by auto
  then have "card (A \<union> B) = m + n" using A B by (simp add: card_Un_disjoint)
  moreover have "live s'' = (A \<union> B) \<union> live s" "(A \<union> B) \<inter> live s = {}" using A B by auto
  ultimately show ?thesis using A B unfolding gained_def by blast
qed

lemma gained_two: "live_ok s \<Longrightarrow> live_ok s' \<Longrightarrow> live s' = {tick s, Suc (tick s)} \<union> live s \<Longrightarrow> gained s 2 s'"
  unfolding gained_def using live_ok_next [of s] by (auto intro!: exI [of _ "{tick s, Suc (tick s)}"])

lemma fill_table_eq:
  assumes "sl_wf l" "sl_size l + length ps \<le> sl_alloc l" "\<forall>p \<in> set ps. CHR '':'' \<notin> set (fst p)"
  shows "\<exists>r s'. fill_table E (Some l) (map sock_arg ps) s = Inr (Some r, s') \<and> sl_wf r \<and>
    dom (bridged l) \<subseteq> dom (bridged r) \<and> dom (bridged r) \<subseteq> dom (bridged l) \<union> snd ` set ps \<and>
    (sockets_ready E ps \<longrightarrow> bridged r = map_of (map prod.swap ps) ++ bridged l) \<and>
    sl_self r = sl_self l \<and> sl_block r = sl_block l \<and> sl_size l \<le> sl_size r \<and>
    (live_ok s \<longrightarrow> gained s (2 * (sl_size r - sl_size l)) s')"
  using assms
proof (induction ps arbitrary: l s)
  case Nil
  then show ?case by (simp add: gained_refl)
next
  case (Cons p ps)
  obtain d w where p: "p = (d, w)" by (cases p)
  let ?rc = "addmap_rc E l d w (tick s)"
  from Cons.prems p have d: "CHR '':'' \<notin> set d" by simp
  from socklist_addmap_eq [OF Cons.prems(1) d, of E w s] obtain r1 s1 where
    add: "socklist_addmap E (Some l) (sock_arg p) s = Inr (?rc, Some r1, s1)" and wf1: "sl_wf r1"
    and r1: "if ?rc = 0 then bridged r1 = (bridged l)(w \<mapsto> d) \<and> sl_size r1 = Suc (sl_size l) \<and>
      sl_alloc r1 = sl_alloc l else r1 = l"
    and blk1: "sl_self r1 = sl_self l" "sl_block r1 = sl_block l"
    and live1: "live_ok s \<Longrightarrow> live_ok s1 \<and>
      live s1 = (if ?rc = 0 then {tick s, Suc (tick s)} \<union> live s else live s)"
    by (auto simp: sock_arg_def p)
  have gain1: "gained s (2 * (sl_size r1 - sl_size l)) s1" if "live_ok s"
  proof (cases "?rc = 0")
    case True
    with live1 [OF that] r1 gained_two [OF that, of s1] show ?thesis by simp
  next
    case False
    with live1 [OF that] r1 gained_refl [of s1 s] show ?thesis by simp
  qed
  have size1: "sl_size r1 + length ps \<le> sl_alloc r1" "sl_size l \<le> sl_size r1"
    using r1 Cons.prems(2) by (simp_all split: if_split_asm)
  have rest: "\<forall>p \<in> set ps. CHR '':'' \<notin> set (fst p)" using Cons.prems(3) by simp
  from Cons.IH [OF wf1 size1(1) rest, of s1] obtain r s' where
    fill: "fill_table E (Some r1) (map sock_arg ps) s1 = Inr (Some r, s')" and wf: "sl_wf r"
    and dom: "dom (bridged r1) \<subseteq> dom (bridged r)" "dom (bridged r) \<subseteq> dom (bridged r1) \<union> snd ` set ps"
    and ready: "sockets_ready E ps \<longrightarrow> bridged r = map_of (map prod.swap ps) ++ bridged r1"
    and blk: "sl_self r = sl_self r1" "sl_block r = sl_block r1" "sl_size r1 \<le> sl_size r"
    and gain: "live_ok s1 \<Longrightarrow> gained s1 (2 * (sl_size r - sl_size r1)) s'" by blast
  have dom1: "dom (bridged l) \<subseteq> dom (bridged r1)" "dom (bridged r1) \<subseteq> insert w (dom (bridged l))"
    using r1 by (auto split: if_split_asm)
  have "bridged r = map_of (map prod.swap (p # ps)) ++ bridged l" if ok: "sockets_ready E (p # ps)"
  proof -
    have "sockets_ready E ps" using ok by (simp add: sockets_ready_def)
    with ready have r: "bridged r = map_of (map prod.swap ps) ++ bridged r1" by blast
    have rc: "?rc = (if w \<in> dom (bridged l) then -5 else 0)"
      using ok Cons.prems(2) p by (simp add: addmap_rc_def sockets_ready_def)
    show ?thesis
    proof (cases "w \<in> dom (bridged l)")
      case True
      with rc r1 have "r1 = l" by simp
      with r True show ?thesis by (auto simp: p map_add_def fun_eq_iff split: option.split)
    next
      case False
      with rc r1 have "bridged r1 = (bridged l)(w \<mapsto> d)" by simp
      with r False show ?thesis by (auto simp: p map_add_def fun_eq_iff domIff split: option.split)
    qed
  qed
  moreover have "dom (bridged l) \<subseteq> dom (bridged r)" using dom1(1) dom(1) by (rule subset_trans)
  moreover have "dom (bridged r) \<subseteq> dom (bridged l) \<union> snd ` set (p # ps)"
    using dom(2) dom1(2) by (simp add: p) blast
  moreover have "fill_table E (Some l) (map sock_arg (p # ps)) s = Inr (Some r, s')" using add fill by simp
  moreover have "gained s (2 * (sl_size r - sl_size l)) s'" if "live_ok s"
  proof -
    have "2 * (sl_size r1 - sl_size l) + 2 * (sl_size r - sl_size r1) = 2 * (sl_size r - sl_size l)"
      using size1(2) blk(3) by simp
    with gained_trans [OF gain1 [OF that] gain] live1 [OF that] show ?thesis by simp
  qed
  moreover have "sl_size l \<le> sl_size r" using size1(2) blk(3) by (rule le_trans)
  ultimately show ?case using wf blk(1,2) blk1 by metis
qed

section \<open>The protocol array\<close>

lemma fill_protocols_eq:
  assumes "i + n \<le> length (sl_map l)" "j + n \<le> length ps"
  shows "fill_protocols l n i j ps = Inr (j + n,
    take j ps @ map (\<lambda>e. protocol_ws (websocket e)) (take n (drop i (sl_map l))) @ drop (j + n) ps)"
  using assms
proof (induction n arbitrary: i j ps)
  case 0
  then show ?case by simp
next
  case (Suc n)
  let ?x = "protocol_ws (websocket (sl_map l ! i))" and ?ps = "ps[j := protocol_ws (websocket (sl_map l ! i))]"
  have j: "j < length ps" using Suc.prems by simp
  have "fill_protocols l (Suc n) i j ps = fill_protocols l n (Suc i) (Suc j) ?ps"
    using Suc.prems by simp
  also have "\<dots> = Inr (Suc j + n, take (Suc j) ?ps @
      map (\<lambda>e. protocol_ws (websocket e)) (take n (drop (Suc i) (sl_map l))) @ drop (Suc j + n) ?ps)"
    by (rule Suc.IH) (use Suc.prems in simp_all)
  also have "take (Suc j) ?ps = take j ps @ [?x]" using j by (simp add: take_Suc_conv_app_nth)
  finally show ?case using Suc.prems by (simp add: take_Suc_drop)
qed

lemma protocol_array_eq:
  assumes "sl_wf l"
  shows "protocol_array l = Inr (protocol_http # protocol_cli #
    map (\<lambda>nm. protocol_ws (Some nm)) (keys l) @ [protocol_zero])"
proof -
  have len: "sl_size l \<le> length (sl_map l)" using assms by (simp add: sl_wf_def)
  have ws: "map (\<lambda>e. protocol_ws (websocket e)) (entries l) = map (\<lambda>nm. protocol_ws (Some nm)) (keys l)"
    using assms by (auto simp: sl_wf_def keys_def key_def list_all_iff)
  let ?ps = "protocol_http # protocol_cli # replicate (Suc (sl_size l)) protocol_zero"
  have "fill_protocols l (sl_size l) 0 2 ?ps = Inr (2 + sl_size l, take 2 ?ps @
      map (\<lambda>e. protocol_ws (websocket e)) (take (sl_size l) (drop 0 (sl_map l))) @ drop (2 + sl_size l) ?ps)"
    by (rule fill_protocols_eq) (use len in simp_all)
  moreover have "replicate (Suc 0) protocol_zero = [protocol_zero]" by simp
  ultimately have fill: "fill_protocols l (sl_size l) 0 2 ?ps = Inr (2 + sl_size l,
      protocol_http # protocol_cli # map (\<lambda>nm. protocol_ws (Some nm)) (keys l) @ [protocol_zero])"
    using ws by (simp add: entries_def replicate_append_same [symmetric] del: replicate.simps replicate_Suc)
  have n: "length (keys l) = sl_size l" using len by (simp add: keys_def entries_def)
  show ?thesis
    using fill n by (simp add: protocol_array_def Let_def list_update_append)
qed

section \<open>What the configuration leaves alone\<close>

lemma sub_testsocket_more: "sub_testsocket E path n s = (rc, s') \<Longrightarrow> os.more s' = os.more s \<and> log s' = log s"
  by (auto simp: sub_testsocket_def Let_def split: option.splits if_split_asm)

lemma socklist_addmap_more:
  assumes "socklist_addmap E sl m s = Inr (rc, sl', s')"
  shows "os.more s' = os.more s \<and> log s' = log s"
proof -
  have test: "os.more (snd (sub_testsocket E path n t)) = os.more t \<and> log (snd (sub_testsocket E path n t)) = log t"
    for path n and t :: "'a os_scheme"
    using sub_testsocket_more [of E path n t] by (cases "sub_testsocket E path n t") simp
  show ?thesis
    using assms
    by (fastforce simp: socklist_addmap_def addmap_term_def Let_def res_simps split: option.splits if_split_asm prod.splits
        dest!: alloc_more dealloc_more sub_testsocket_more)
qed

lemma fill_table_more:
  "fill_table E sl ms s = Inr (sl', s') \<Longrightarrow> os.more s' = os.more s \<and> log s' = log s"
proof (induction ms arbitrary: sl s)
  case Nil
  then show ?case by simp
next
  case (Cons m ms)
  from Cons.prems obtain rc sl1 s1 where add: "socklist_addmap E sl m s = Inr (rc, sl1, s1)"
    and fill: "fill_table E sl1 ms s1 = Inr (sl', s')" by (auto simp: res_simps)
  from Cons.IH [OF fill] socklist_addmap_more [OF add] show ?case by simp
qed

section \<open>Properties\<close>

text \<open>Arguments that pass every check before the sockets are looked at.\<close>

definition accepted :: "args \<Rightarrow> bool" where
  "accepted x \<longleftrightarrow> a_nullcheck x = 0 \<and> a_help x = 0 \<and> a_version x = 0 \<and> a_nerrors x \<le> 0 \<and> a_argc x \<noteq> 1"

text \<open>The configuration that a call with accepted arguments and memory makes.\<close>

definition main_start :: "args \<Rightarrow> nat \<Rightarrow> socklist_t" where
  "main_start x n = \<lparr>sl_alloc = length (a_socket x), sl_size = 0,
     sl_map = replicate (length (a_socket x)) sockmap_zero, sl_self = n + 2, sl_block = n + 3\<rparr>"

definition main_result :: "args \<Rightarrow> nat \<Rightarrow> socklist_t option \<Rightarrow> config" where
  "main_result x n sl = \<lparr>rsrc_val = Some (n, case a_rsrc x of [] \<Rightarrow> ''./resources'' | r # _ \<Rightarrow> r),
     urlpath_val = Some (n + 1, case a_urlpath x of [] \<Rightarrow> ''/'' | u # _ \<Rightarrow> u),
     port_val = port_arg (a_port x), tls_val = (0 < a_tls x), table = sl, opts = Some (output_opts x)\<rparr>"

lemma main_config_accepted:
  assumes "accepted x" "\<And>n. e_malloc E n" "a_socket x \<noteq> []"
  shows "main_config E x s =
    andThen (fill_table E (Some (main_start x (tick s))) (a_socket x) (grab (grab (grab (grab s))))) (\<lambda>(sl, s').
      Inr (0, False, main_result x (tick s) sl, s'))"
  using assms
  by (simp add: main_config_def accepted_def fill_stringarg_def socklist_init_def cliopt_init_def Let_def alloc_Some
      config_init_def main_start_def main_result_def numeral_2_eq_2 numeral_3_eq_3 cong: list.case_cong)

lemma gained_four:
  assumes "live_ok s"
  shows "gained s 4 (grab (grab (grab (grab s))))"
proof -
  have two: "gained t 2 (grab (grab t))" if "live_ok t" for t :: "'a os_scheme"
    using that by (intro gained_two) (auto simp: live_ok_def)
  then have "live_ok (grab (grab s))" using assms by (simp add: gained_def)
  from gained_trans [OF two [OF assms] two [OF this]] show ?thesis by simp
qed

lemma main_config_serves:
  assumes "accepted x" "sockets_ready E ps" "a_socket x = map sock_arg ps" "ps \<noteq> []"
    and "\<forall>p \<in> set ps. CHR '':'' \<notin> set (fst p)"
  shows "\<exists>l s'. main_config E x s = Inr (0, False, main_result x (tick s) (Some l), s') \<and> sl_wf l \<and>
    bridged l = map_of (map prod.swap ps) \<and> os.more s' = os.more s \<and> log s' = log s \<and>
    sl_self l = tick s + 2 \<and> sl_block l = tick s + 3 \<and>
    (live_ok s \<longrightarrow> gained (grab (grab (grab (grab s)))) (2 * sl_size l) s')"
proof -
  let ?l0 = "main_start x (tick s)"
  let ?s = "grab (grab (grab (grab s)))"
  have mem: "e_malloc E n" for n using assms(2) by (simp add: sockets_ready_def)
  have wf0: "sl_wf ?l0" and b0: "bridged ?l0 = Map.empty"
    and l0: "sl_size ?l0 = 0" "sl_self ?l0 = tick s + 2" "sl_block ?l0 = tick s + 3"
    by (simp_all add: main_start_def sl_wf_def entries_def keys_def bridged_def)
  have ok: "live_ok ?s" if "live_ok s" using gained_four [OF that] by (simp add: gained_def)
  have "sl_size ?l0 + length ps \<le> sl_alloc ?l0" using assms(3) by (simp add: main_start_def)
  from fill_table_eq [OF wf0 this assms(5), of E ?s] assms(2) obtain r s' where
    fill: "fill_table E (Some ?l0) (map sock_arg ps) ?s = Inr (Some r, s')" and wf: "sl_wf r"
    and br: "bridged r = map_of (map prod.swap ps)" and blk: "sl_self r = tick s + 2" "sl_block r = tick s + 3"
    and gain: "live_ok ?s \<longrightarrow> gained ?s (2 * sl_size r) s'" unfolding b0 l0 by auto
  have "a_socket x \<noteq> []" using assms(3,4) by simp
  from main_config_accepted [OF assms(1) mem this, of s] fill
  have "main_config E x s = Inr (0, False, main_result x (tick s) (Some r), s')" by (simp add: assms(3))
  with fill_table_more [OF fill] wf br blk gain ok show ?thesis by auto
qed

text \<open>
  With sockets that exist and enough memory, \<open>main\<close> builds a well-formed table in which every
  websocket name is bridged to the socket of the first argument that names it.
\<close>

theorem main_builds_table:
  assumes "accepted x" "sockets_ready E ps" "a_socket x = map (\<lambda>(ds, ws). ds @ '':'' @ ws) ps" "ps \<noteq> []"
    and "\<forall>(ds, ws) \<in> set ps. CHR '':'' \<notin> set ds"
  shows "\<exists>c l s'. main_config E x s = Inr (0, False, c, s') \<and> table c = Some l \<and> sl_wf l \<and>
    bridged l = map_of (map (\<lambda>(ds, ws). (ws, ds)) ps)"
proof -
  have "a_socket x = map sock_arg ps" using assms(3) by (simp add: sock_arg_def split_def)
  moreover have "\<forall>p \<in> set ps. CHR '':'' \<notin> set (fst p)" using assms(5) by auto
  ultimately obtain l s' where r: "main_config E x s = Inr (0, False, main_result x (tick s) (Some l), s')"
      "sl_wf l" "bridged l = map_of (map prod.swap ps)"
    using main_config_serves [OF assms(1,2) _ assms(4), of s] by blast
  have swap: "prod.swap = (\<lambda>(ds, ws). (ws, ds))" by (auto simp: fun_eq_iff)
  from r(3) have "bridged l = map_of (map (\<lambda>(ds, ws). (ws, ds)) ps)" unfolding swap .
  moreover have "table (main_result x (tick s) (Some l)) = Some l" by (simp add: main_result_def)
  ultimately show ?thesis using r(1,2) by blast
qed

definition demo_args :: args where
  "demo_args = \<lparr>a_argc = 5, a_nullcheck = 0, a_nerrors = 0, a_help = 0, a_version = 0, a_verbose = 1,
     a_debug = 0, a_quiet = 0, a_tls = 0, a_rsrc = [], a_urlpath = [], a_port = [8080],
     a_socket = [''/a:x'', ''/b:x'', ''/c:y'']\<rparr>"

lemma demo_args_accepted: "accepted demo_args"
  by (simp add: accepted_def demo_args_def)

lemma demo_ready: "sockets_ready demo_env ps"
  by (simp add: sockets_ready_def demo_env_def)

theorem main_builds_table_witness:
  "\<exists>c l s'. main_config demo_env demo_args demo_os = Inr (0, False, c, s') \<and> table c = Some l \<and>
     bridged l = [''x'' \<mapsto> ''/a'', ''y'' \<mapsto> ''/c'']"
proof -
  let ?ps = "[(''/a'', ''x''), (''/b'', ''x''), (''/c'', ''y'')] :: (string \<times> string) list"
  have "a_socket demo_args = map (\<lambda>(ds, ws). ds @ '':'' @ ws) ?ps" by (simp add: demo_args_def)
  from main_builds_table [OF demo_args_accepted demo_ready this, of demo_os]
  have "\<exists>c l s'. main_config demo_env demo_args demo_os = Inr (0, False, c, s') \<and> table c = Some l \<and>
     bridged l = map_of (map (\<lambda>(ds, ws). (ws, ds)) ?ps)" by auto
  moreover have "map_of (map (\<lambda>(ds, ws). (ws, ds)) ?ps) = [''x'' \<mapsto> ''/a'', ''y'' \<mapsto> ''/c'']"
    by (auto simp: fun_eq_iff)
  ultimately show ?thesis by simp
qed

text \<open>
  The port given on the command line is used only when it is negative; every port from 0 up
  is refused and the default 7681 stays.
\<close>

theorem main_port_refused:
  assumes "main_config E x s = Inr (ec, False, c, s')" "a_port x = p # ps"
  shows "port_val c = (if 0 \<le> p then 7681 else p)"
proof -
  have "port_val c = port_arg (a_port x)"
    using assms(1) by (auto simp: main_config_def Let_def res_simps split: if_split_asm option.splits prod.splits)
  with assms(2) show ?thesis by (simp add: port_arg_def)
qed

theorem main_port_refused_witness:
  "\<exists>c s'. main_config demo_env demo_args demo_os = Inr (0, False, c, s') \<and> port_val c = 7681"
proof -
  let ?ps = "[(''/a'', ''x''), (''/b'', ''x''), (''/c'', ''y'')] :: (string \<times> string) list"
  have "a_socket demo_args = map sock_arg ?ps" by (simp add: demo_args_def sock_arg_def)
  from main_config_serves [OF demo_args_accepted demo_ready this, of demo_os] obtain c s' where
    c: "main_config demo_env demo_args demo_os = Inr (0, False, c, s')" by auto
  have "a_port demo_args = 8080 # []" by (simp add: demo_args_def)
  from main_port_refused [OF c this] c show ?thesis by simp
qed

end
