(* ===== verification/Live_Frame.thy ===== *)
theory Live_Frame
  imports Backend_Run
begin

text \<open>
  The blocks of \<open>main\<close>, \<open>wfedd\<close> and the socket table (\<open>live\<close>) are out of reach of everything that
  runs under \<open>backend_run\<close>: no operation, callback, event or run allocates or frees one.
\<close>

section \<open>Messages, the hash table and the dictionary\<close>

named_theorems live_frame \<open>an operation leaves the blocks held as values alone\<close>

lemma malloc_block_live [live_frame]: "malloc_block E n s = (p, s') \<Longrightarrow> live s' = live s"
  by (auto del: equalityI subsetI simp: malloc_block_def Let_def split: if_split_asm)

lemma msg_new_live [live_frame]: "msg_new E n s = (p, s') \<Longrightarrow> live s' = live s"
  by (auto del: equalityI subsetI simp: msg_new_def Let_def split: if_split_asm prod.split_asm option.split_asm dest!: live_frame)

lemma msg_free_live [live_frame]: "msg_free p s = Inr s' \<Longrightarrow> live s' = live s"
  by (auto del: equalityI subsetI simp: msg_free_def res_simps split: option.split_asm if_split_asm)

lemma set_next_live [simp]: "live (set_next a l s) = live s"
  by (simp add: set_next_def)

lemma mq_putmsg_live [live_frame]: "mq_putmsg q p s = Inr (q', s') \<Longrightarrow> live s' = live s"
  by (cases "stqh_last q") (auto simp: mq_putmsg_def Let_def res_simps split: if_split_asm)

lemma modify_hh_live [live_frame]: "modify_hh p f s = Inr s' \<Longrightarrow> live s' = live s"
  by (auto del: equalityI subsetI simp: modify_hh_def res_simps)

lemma set_tbl_live [simp]: "live (set_tbl a t s) = live s"
  by (simp add: set_tbl_def)

lemma del_in_bkt_live [live_frame]: "del_in_bkt ta b d s = Inr s' \<Longrightarrow> live s' = live s"
  by (auto del: equalityI subsetI simp: del_in_bkt_def Let_def res_simps set_bucket_def split: if_split_asm dest!: live_frame)

lemma hash_delete_live [live_frame]: "hash_delete head d s = Inr (h, s') \<Longrightarrow> live s' = live s"
  by (auto del: equalityI subsetI simp: hash_delete_def Let_def res_simps split: if_split_asm dest!: live_frame)

lemma dict_init_live [live_frame]: "dict_init E s = (p, s') \<Longrightarrow> live s' = live s"
  by (auto del: equalityI subsetI simp: dict_init_def Let_def split: if_split_asm)

lemma dict_del_live [live_frame]: "dict_del h n s = Inr (k, s') \<Longrightarrow> live s' = live s"
  by (auto del: equalityI subsetI simp: all_conj_distrib dict_del_def res_simps split: option.split_asm if_split_asm dest!: live_frame)
    (metis option.distinct(1))+

lemma dict_new_live [live_frame]: "dict_new E h n s = Inr (err, p, s') \<Longrightarrow> live s' = live s"
  by (auto del: equalityI subsetI simp: dict_new_def Let_def res_simps split: if_split_asm)

section \<open>Connections\<close>

lemma set_conn_live [simp]: "live (set_conn c cn s) = live s"
  by (simp add: set_conn_def)

lemma memcpy_msg_live [live_frame]: "memcpy_msg p off src len s = Inr s' \<Longrightarrow> live s' = live s"
  by (auto del: equalityI subsetI simp: memcpy_msg_def res_simps split: option.split_asm if_split_asm)

lemma frontend_createmsg_live [live_frame]: "frontend_createmsg E inp len s = Inr (p, s') \<Longrightarrow> live s' = live s"
  by (auto del: equalityI subsetI simp: frontend_createmsg_def res_simps split: if_split_asm prod.split_asm dest!: live_frame)

lemma conn_enqueue_live [live_frame]: "conn_enqueue d c p s = Inr s' \<Longrightarrow> live s' = live s"
  by (auto del: equalityI subsetI simp: conn_enqueue_def res_simps dest!: live_frame)

lemma conn_dequeue_live [live_frame]: "conn_dequeue d c s = Inr (p, s') \<Longrightarrow> live s' = live s"
  by (auto del: equalityI subsetI simp: conn_dequeue_def res_simps)

lemma conn_putmsg_live [live_frame]:
  "conn_putmsg_forweb E c xs len s = Inr (rc, s') \<Longrightarrow> live s' = live s"
  "conn_putmsg_forlocal E c xs len s = Inr (rc, s') \<Longrightarrow> live s' = live s"
  by (auto del: equalityI subsetI simp: conn_putmsg_forweb_def conn_putmsg_forlocal_def res_simps split: if_split_asm prod.split_asm
      dest!: live_frame)

lemma conn_getmsg_live [live_frame]:
  "conn_getmsg_forweb c s = Inr (p, s') \<Longrightarrow> live s' = live s"
  "conn_getmsg_forlocal c s = Inr (p, s') \<Longrightarrow> live s' = live s"
  by (auto del: equalityI subsetI simp: conn_getmsg_forweb_def conn_getmsg_forlocal_def split: if_split_asm dest!: live_frame)

lemma socklist_newclient_live [live_frame]:
  assumes "socklist_newclient E sl w s = Inr (fd, i, s')"
  shows "live s' = live s"
proof -
  from assms obtain r where r: "socklist_search sl w = Inr r" by (auto simp: socklist_newclient_def res_simps)
  show ?thesis
  proof (cases "sl = None \<or> r = None")
    case True
    with assms r show ?thesis by (auto del: equalityI simp: socklist_newclient_def split: option.split_asm)
  next
    case False
    then obtain l j where lj: "sl = Some l" "r = Some j" by auto
    with assms r obtain path where "l_socket (sl_map l ! j) = Some path"
      by (cases "l_socket (sl_map l ! j)") (simp_all add: socklist_newclient_def)
    with assms r lj show ?thesis
      by (auto del: equalityI simp: socklist_newclient_def sub_testsocket_eq Let_def split: if_split_asm)
  qed
qed

lemma conn_new_live [live_frame]: "conn_new E b w s = Inr (c, s') \<Longrightarrow> live s' = live s"
  by (auto del: equalityI subsetI simp: conn_new_def Let_def res_simps split: option.split_asm if_split_asm
      dest!: live_frame)

lemma conn_del_live [live_frame]: "conn_del b c s = Inr s' \<Longrightarrow> live s' = live s"
  by (auto del: equalityI subsetI simp: conn_del_def res_simps split: option.split_asm if_split_asm dest!: live_frame)

lemma conn_open_live [live_frame]: "conn_open E l c s = Inr (rc, s') \<Longrightarrow> live s' = live s"
  by (auto del: equalityI subsetI simp: all_conj_distrib conn_open_def Let_def res_simps split: option.split_asm if_split_asm)

lemma conn_close_frame [live_frame]: "conn_close c s = Inr s' \<Longrightarrow> live s' = live s"
  by (auto del: equalityI subsetI simp: conn_close_def res_simps split: if_split_asm)

lemma conn_raw_live [live_frame]:
  "conn_readraw_local E out b c s = Inr (n, d, s') \<Longrightarrow> live s' = live s"
  "conn_writeraw_local E b c d len s = Inr (rc, s') \<Longrightarrow> live s' = live s"
  by (auto del: equalityI subsetI simp: conn_readraw_local_def conn_writeraw_local_def Let_def res_simps split: option.split_asm if_split_asm)

section \<open>Callbacks\<close>

text \<open>A loop leaves alone what its rounds leave alone.\<close>

lemma while_loop_frame:
  assumes "\<And>s go s'. round s = Inr (go, s') \<Longrightarrow> f s' = f s"
  shows "while_loop n has round s = Inr s' \<Longrightarrow> f s' = f s"
proof (induction n arbitrary: s)
  case 0
  then show ?case by (auto del: equalityI subsetI simp: res_simps split: if_split_asm)
next
  case (Suc n)
  then show ?case by (auto del: equalityI subsetI simp: res_simps split: if_split_asm dest!: assms)
qed

lemma raw_round_live [live_frame]: "raw_round E b c s = Inr (go, s') \<Longrightarrow> live s' = live s"
  by (auto del: equalityI subsetI simp: raw_round_def res_simps split: if_split_asm dest!: live_frame)

lemma ws_round_live [live_frame]: "ws_round E w c rcs = Inr (go, rcs') \<Longrightarrow> live (snd rcs') = live (snd rcs)"
  by (auto del: equalityI subsetI simp: ws_round_def Let_def res_simps split: if_split_asm prod.split_asm dest!: live_frame)

lemma set_pss_live [simp]: "live (set_pss p x s) = live s"
  by (simp add: set_pss_def)

lemma ws_established_live [live_frame]: "ws_established E x s = Inr (rc, s') \<Longrightarrow> live s' = live s"
  by (auto del: equalityI subsetI simp: ws_established_def Let_def res_simps split: option.split_asm if_split_asm dest!: live_frame)

lemma ws_callback_live [live_frame]: "frontend_ws_callback E reason x s = Inr (rc, s') \<Longrightarrow> live s' = live s"
proof (cases reason)
  case LWS_CALLBACK_SERVER_WRITEABLE
  assume "frontend_ws_callback E reason x s = Inr (rc, s')"
  then have "\<exists>p :: per_session_data. while_loop (Suc (tick s)) (\<lambda>(rc, s). conn_hasmsg_forweb (conn_handle p) s)
      (ws_round E (cb_wsi x) (conn_handle p)) (0, s) = Inr (rc, s')"
    unfolding frontend_ws_callback_def LWS_CALLBACK_SERVER_WRITEABLE
    by (auto simp: res_simps simp del: while_loop.simps)
  then obtain p :: per_session_data where "while_loop (Suc (tick s)) (\<lambda>(rc, s). conn_hasmsg_forweb (conn_handle p) s)
      (ws_round E (cb_wsi x) (conn_handle p)) (0, s) = Inr (rc, s')" ..
  from while_loop_frame [where f = "\<lambda>x. live (snd x)", OF ws_round_live this] show ?thesis by simp
qed (auto del: equalityI subsetI simp del: while_loop.simps simp: frontend_ws_callback_def Let_def res_simps
    split: if_split_asm dest!: live_frame)

lemma cli_callback_live [live_frame]: "frontend_cli_callback E reason x s = Inr (rc, s') \<Longrightarrow> live s' = live s"
proof (cases reason)
  case LWS_CALLBACK_RAW_WRITEABLE_FILE
  assume "frontend_cli_callback E reason x s = Inr (rc, s')"
  then have "while_loop (Suc (tick s)) (conn_hasmsg_forlocal (cb_opaque x))
      (raw_round E (cb_backend x) (cb_opaque x)) s = Inr s'"
    unfolding frontend_cli_callback_def LWS_CALLBACK_RAW_WRITEABLE_FILE
    by (auto simp: res_simps Let_def simp del: while_loop.simps)
  from while_loop_frame [where f = live, OF raw_round_live this] show ?thesis by simp
qed (auto del: equalityI subsetI simp del: while_loop.simps simp: frontend_cli_callback_def Let_def res_simps
    split: if_split_asm dest!: live_frame)

section \<open>Events and runs\<close>

lemma settle_core [simp]: "core (settle t s) = t"
proof -
  have "core (fold lws_apply es u) = core u" for es u by (induction es arbitrary: u) simp_all
  then show ?thesis by (simp add: settle_def)
qed

lemma at_conn_core [simp]:
  "core (at_conn c (\<lambda>c. note_got (g c) xs) s) = core s" "core (at_conn c (\<lambda>c. note_sent (g c) brs) s) = core s"
  by (simp_all add: at_conn_def note_got_def note_sent_def split: option.split)

lemma exec_live:
  assumes "exec E b e s = Inr s'"
  shows "live (core s') = live (core s)"
proof (cases e)
  case (Protocol_init nm)
  with assms show ?thesis by (auto del: equalityI simp: res_simps dest!: live_frame)
next
  case (Establish w p v)
  with assms show ?thesis
    by (auto del: equalityI simp: res_simps Let_def free_pss_def split: if_split_asm dest!: live_frame)
qed (use assms in \<open>auto del: equalityI simp: res_simps Let_def free_pss_def split: option.split_asm
      dest!: live_frame\<close>)

lemma bstep_live: "bstep E b s e s' \<Longrightarrow> live (core s') = live (core s)"
  by (auto elim: bstepE dest: exec_live)

lemma reach_live: "reach E b s0 s \<Longrightarrow> live (core s) = live (core s0)"
  by (induction rule: reach.induct) (simp_all add: bstep_live)

end
