(* ===== verification/Wfedd_Serve.thy ===== *)
theory Wfedd_Serve
  imports Wfedd_Main Live_Frame
begin

text \<open>
  From the command line to the service loop: what \<open>wfedd\<close> and \<open>main\<close> hand on to \<open>backend_run\<close>,
  and when the process serves at all.
\<close>

section \<open>What is offered\<close>

lemma sl_wf_keys:
  assumes "sl_wf l"
  shows "keys l = sorted_list_of_set (dom (bridged l))" "distinct (keys l)" "length (keys l) = sl_size l"
proof -
  have "sorted_wrt (<) (keys l)" using assms by (simp add: sl_wf_def)
  then show "distinct (keys l)" "keys l = sorted_list_of_set (dom (bridged l))"
    by (simp_all add: strict_sorted_iff dom_bridged sorted_list_of_set.idem_if_sorted_distinct)
  show "length (keys l) = sl_size l" using assms by (simp add: sl_wf_def keys_def entries_def)
qed

text \<open>The protocols offered for the websocket names \<open>ns\<close>.\<close>

definition offered :: "string list \<Rightarrow> lws_protocols list" where
  "offered ns = protocol_http # protocol_cli # map (\<lambda>nm. protocol_ws (Some nm)) ns @ [protocol_zero]"

lemma protocol_array_offers: "sl_wf l \<Longrightarrow> protocol_array l = Inr (offered (sorted_list_of_set (dom (bridged l))))"
  by (simp add: protocol_array_eq offered_def flip: sl_wf_keys(1))









section \<open>Properties\<close>

text \<open>
  C39: \<open>wfedd\<close> offers libwebsockets exactly the HTTP protocol, the raw client protocol, one
  websocket protocol per bridged name in the order of the names, each name once, and the zero
  entry that ends the array; the array is filled within its bounds.
\<close>

theorem protocol_array_spec:
  assumes "sl_wf l"
  shows "\<exists>ps. protocol_array l = Inr ps \<and> length ps = sl_size l + 3 \<and> last ps = protocol_zero \<and>
    take 2 ps = [protocol_http, protocol_cli] \<and>
    (\<forall>i < sl_size l. \<exists>nm ds. ps ! (i + 2) = protocol_ws (Some nm) \<and> bridged l nm = Some ds) \<and>
    (\<forall>nm \<in> dom (bridged l). \<exists>!i. i < length ps \<and> i \<ge> 2 \<and> p_name (ps ! i) = Some nm)"
proof -
  note k = sl_wf_keys [OF assms]
  let ?ps = "protocol_http # protocol_cli # map (\<lambda>nm. protocol_ws (Some nm)) (keys l) @ [protocol_zero]"
  have "\<exists>nm ds. ?ps ! (i + 2) = protocol_ws (Some nm) \<and> bridged l nm = Some ds" if "i < sl_size l" for i
  proof -
    have i: "i < length (keys l)" using that k(3) by simp
    then have "keys l ! i \<in> dom (bridged l)" by (simp add: dom_bridged)
    with i show ?thesis by (auto simp: nth_append)
  qed
  moreover have "\<exists>!i. i < length ?ps \<and> i \<ge> 2 \<and> p_name (?ps ! i) = Some nm" if "nm \<in> dom (bridged l)" for nm
  proof -
    have name: "p_name (?ps ! (j + 2)) = Some nm \<longleftrightarrow> j < length (keys l) \<and> keys l ! j = nm"
      if "j < length (keys l) + 1" for j
      using that by (auto simp: nth_append protocol_ws_def protocol_zero_def less_Suc_eq)
    from that obtain j where j: "j < length (keys l)" "keys l ! j = nm"
      by (auto simp: dom_bridged in_set_conv_nth)
    show ?thesis
    proof (rule ex1I [of _ "j + 2"])
      show "j + 2 < length ?ps \<and> 2 \<le> j + 2 \<and> p_name (?ps ! (j + 2)) = Some nm" using name j by simp
    next
      fix i assume i: "i < length ?ps \<and> 2 \<le> i \<and> p_name (?ps ! i) = Some nm"
      then obtain m where m: "i = m + 2" by (metis le_add_diff_inverse2)
      with i name [of m] have "m < length (keys l)" "keys l ! m = nm" by auto
      with j k(2) nth_eq_iff_index_eq show "i = j + 2" unfolding m by blast
    qed
  qed
  ultimately show ?thesis using protocol_array_eq [OF assms] k(3) by auto
qed

theorem protocol_array_spec_witness:
  "\<exists>ps. protocol_array demo_list = Inr ps \<and> last ps = protocol_zero \<and> length ps = sl_size demo_list + 3"
  using protocol_array_spec [OF demo_list_wf] by blast



text \<open>
  C38: with \<open>--tls\<close> and memory for the first path, \<open>wfedd\<close> never serves: \<open>asprintf\<close> returns the
  positive length of the path, which the code takes for a failure, so the backend is not
  run, whatever the certificates are, and 0 is returned. Of the two blocks allocated until
  then the protocol array is freed, and the path is not.
\<close>

theorem wfedd_tls_never_serves:
  assumes "sl_wf l" "live_ok (core s)" "e_malloc E (tick (core s))" "e_malloc E (Suc (tick (core s)))"
  shows "\<exists>t. wfedd E S rsrc url port True (Some l) s = Some (Inr (0, s\<lparr>core := t\<rparr>)) \<and>
    log t = log (core s) \<and> os.more t = os.more (core s) \<and> live t = insert (Suc (tick (core s))) (live (core s))"
proof -
  let ?n = "tick (core s)"
  let ?t = "(grab (grab (core s)))\<lparr>live := insert (Suc ?n) (live (core s))\<rparr>"
  have "insert (Suc ?n) (insert ?n (live (core s))) - {?n} = insert (Suc ?n) (live (core s))"
    using live_ok_next [OF assms(2)] by auto
  then have "wfedd E S rsrc url port True (Some l) s = Some (Inr (0, s\<lparr>core := ?t\<rparr>))"
    using assms by (simp add: wfedd_def protocol_array_offers tls_paths_def asprintf_def alloc_Some wfedd_finish_def)
  moreover have "log ?t = log (core s)" "os.more ?t = os.more (core s)" "live ?t = insert (Suc ?n) (live (core s))"
    by (simp_all add: grab_def step_def)
  ultimately show ?thesis by blast
qed

theorem wfedd_tls_never_serves_witness:
  "\<exists>t. wfedd demo_env demo_service ''/r'' ''/'' 7681 True (Some demo_list) idle_bridge =
     Some (Inr (0, idle_bridge\<lparr>core := t\<rparr>)) \<and> log t = [] \<and> live t = {1}"
proof -
  have "e_malloc demo_env n" "live_ok (core idle_bridge)" for n
    by (simp_all add: demo_env_def idle_bridge_def live_ok_def)
  from wfedd_tls_never_serves [OF demo_list_wf this(2,1,1), of demo_service "''/r''" "''/''" 7681] obtain t where
    "wfedd demo_env demo_service ''/r'' ''/'' 7681 True (Some demo_list) idle_bridge =
      Some (Inr (0, idle_bridge\<lparr>core := t\<rparr>))"
    "log t = log (core idle_bridge)" "live t = insert (Suc (tick (core idle_bridge))) (live (core idle_bridge))" by blast
  moreover have "log (core idle_bridge) = []" "tick (core idle_bridge) = 0" "live (core idle_bridge) = {}"
    by (simp_all add: idle_bridge_def)
  ultimately show ?thesis by auto
qed

end
