(* ===== verification/Merge_Runs.thy ===== *)
theory Merge_Runs
  imports Main "HOL-Library.Multiset"
begin

text \<open>
  The bottom-up merge sort of \<^verbatim>\<open>utlist.h\<close> and \<^verbatim>\<open>uthash.h\<close> on lists: a pass over runs of length
  \<open>k\<close> merges each pair of neighbouring runs, and the passes go on with \<open>2 k\<close> until a pass has
  had one merge only. Where the comparison is that of a key the result is the stable sort of
  the library.
\<close>

section \<open>Merging\<close>

fun merge_by :: "('a \<Rightarrow> 'a \<Rightarrow> bool) \<Rightarrow> 'a list \<Rightarrow> 'a list \<Rightarrow> 'a list" where
  "merge_by le [] ys = ys"
| "merge_by le xs [] = xs"
| "merge_by le (x # xs) (y # ys) =
     (if le x y then x # merge_by le xs (y # ys) else y # merge_by le (x # xs) ys)"

text \<open>The comparison of a key.\<close>

abbreviation on_key :: "('a \<Rightarrow> 'k::linorder) \<Rightarrow> 'a \<Rightarrow> 'a \<Rightarrow> bool" where
  "on_key f \<equiv> (\<lambda>x y. f x \<le> f y)"

lemma merge_by_Nil2 [simp]: "merge_by le xs [] = xs"
  by (cases xs) simp_all

lemma mset_merge_by [simp]: "mset (merge_by le xs ys) = mset xs + mset ys"
  by (induction le xs ys rule: merge_by.induct) simp_all

lemma set_merge_by [simp]: "set (merge_by le xs ys) = set xs \<union> set ys"
  by (induction le xs ys rule: merge_by.induct) auto

lemma length_merge_by [simp]: "length (merge_by le xs ys) = length xs + length ys"
  by (induction le xs ys rule: merge_by.induct) simp_all

lemma distinct_merge_by [simp]: "distinct (merge_by le xs ys) \<longleftrightarrow> distinct (xs @ ys)"
  by (rule mset_eq_imp_distinct_iff) simp

lemma sorted_merge_by:
  "sorted (map f xs) \<Longrightarrow> sorted (map f ys) \<Longrightarrow> sorted (map f (merge_by (on_key f) xs ys))"
  by (induction "on_key f" xs ys rule: merge_by.induct) auto

lemma filter_key_Nil: "\<forall>x \<in> set xs. (k :: 'k::linorder) < f x \<Longrightarrow> filter (\<lambda>x. f x = k) xs = []"
  by (induction xs) auto

lemma stable_merge_by:
  "sorted (map f xs) \<Longrightarrow> filter (\<lambda>x. f x = k) (merge_by (on_key f) xs ys)
    = filter (\<lambda>x. f x = k) xs @ filter (\<lambda>x. f x = k) ys"
proof (induction "on_key f" xs ys rule: merge_by.induct)
  case (3 x xs y ys)
  show ?case
  proof (cases "f x \<le> f y")
    case False
    then have "filter (\<lambda>x. f x = k) (x # xs) = []" if "f y = k"
      using 3(3) that by (intro filter_key_Nil) auto
    with False 3 show ?thesis by (cases "f y = k") auto
  qed (use 3 in auto)
qed simp_all

section \<open>A pass over the runs\<close>

function merge_pass :: "('a \<Rightarrow> 'a \<Rightarrow> bool) \<Rightarrow> nat \<Rightarrow> 'a list \<Rightarrow> 'a list" where
  "merge_pass le k xs =
     (if xs = [] \<or> k = 0 then []
      else merge_by le (take k xs) (take k (drop k xs)) @ merge_pass le k (drop (2 * k) xs))"
  by pat_completeness auto
termination by (relation "measure (\<lambda>(le, k, xs). length xs)") auto

declare merge_pass.simps [simp del]

lemma merge_pass_step:
  "0 < k \<Longrightarrow> xs \<noteq> [] \<Longrightarrow>
   merge_pass le k xs = merge_by le (take k xs) (take k (drop k xs)) @ merge_pass le k (drop (2 * k) xs)"
  by (simp only: merge_pass.simps [of le k xs]) simp

lemma merge_pass_Nil [simp]: "merge_pass le k [] = []"
  by (simp add: merge_pass.simps)

lemma mset_merge_pass [simp]: "0 < k \<Longrightarrow> mset (merge_pass le k xs) = mset xs"
proof (induction le k xs rule: merge_pass.induct)
  case (1 le k xs)
  have "mset (take k xs) + (mset (take k (drop k xs)) + mset (drop (2 * k) xs)) = mset xs"
    by (metis append_take_drop_id drop_drop mult_2 mset_append)
  with 1 show ?case by (simp only: merge_pass.simps [of le k xs]) (simp add: add.assoc)
qed

lemma set_merge_pass [simp]: "0 < k \<Longrightarrow> set (merge_pass le k xs) = set xs"
  by (metis mset_merge_pass set_mset_mset)

lemma length_merge_pass [simp]: "0 < k \<Longrightarrow> length (merge_pass le k xs) = length xs"
  by (metis mset_merge_pass size_mset)

lemma distinct_merge_pass [simp]: "0 < k \<Longrightarrow> distinct (merge_pass le k xs) \<longleftrightarrow> distinct xs"
  by (rule mset_eq_imp_distinct_iff) simp

text \<open>Every aligned run of length \<open>k\<close> is sorted.\<close>

definition runs_sorted :: "('a \<Rightarrow> 'k::linorder) \<Rightarrow> nat \<Rightarrow> 'a list \<Rightarrow> bool" where
  "runs_sorted f k xs \<longleftrightarrow> (\<forall>i. sorted (map f (take k (drop (i * k) xs))))"

lemma runs_sorted_1: "runs_sorted f 1 xs"
proof -
  have "sorted (map f (take 1 ys))" for ys by (cases ys) simp_all
  then show ?thesis by (simp add: runs_sorted_def)
qed

lemma runs_sortedD:
  assumes "runs_sorted f k xs"
  shows "sorted (map f (take k xs))" "runs_sorted f k (drop k xs)"
proof -
  show "sorted (map f (take k xs))"
    using spec [OF assms [unfolded runs_sorted_def], of 0] by simp
  have "sorted (map f (take k (drop (i * k) (drop k xs))))" for i
    using spec [OF assms [unfolded runs_sorted_def], of "Suc i"] by (simp add: add.commute)
  then show "runs_sorted f k (drop k xs)" by (simp add: runs_sorted_def)
qed

lemma runs_sorted_append:
  assumes "length xs = k" "sorted (map f xs)" "runs_sorted f k ys"
  shows "runs_sorted f k (xs @ ys)"
proof -
  have "sorted (map f (take k (drop (i * k) (xs @ ys))))" for i
    using assms by (cases i) (simp_all add: runs_sorted_def)
  then show ?thesis by (simp add: runs_sorted_def)
qed

lemma runs_sorted_short:
  assumes "length xs \<le> k" "sorted (map f xs)"
  shows "runs_sorted f k xs"
proof -
  have "sorted (map f (take k (drop (i * k) xs)))" for i
    using assms by (cases i) simp_all
  then show ?thesis by (simp add: runs_sorted_def)
qed

lemma runs_sorted_pass:
  "0 < k \<Longrightarrow> runs_sorted f k xs \<Longrightarrow> runs_sorted f (2 * k) (merge_pass (on_key f) k xs)"
proof (induction "on_key f" k xs rule: merge_pass.induct)
  case (1 k xs)
  show ?case
  proof (cases "xs = []")
    case False note ne = this
    let ?as = "take k xs" and ?bs = "take k (drop k xs)" and ?r = "drop (2 * k) xs"
    note r = runs_sortedD [OF 1(3)] and r' = runs_sortedD [OF runs_sortedD(2) [OF 1(3)]]
    have s: "sorted (map f ?as)" "sorted (map f ?bs)" "runs_sorted f k ?r"
      using r r' by (simp_all add: mult_2)
    with 1 False have ih: "runs_sorted f (2 * k) (merge_pass (on_key f) k ?r)" by simp
    show ?thesis
    proof (cases "2 * k \<le> length xs")
      case True
      with s ih 1(2) False show ?thesis
        unfolding merge_pass_step [OF 1(2) ne]
        by (intro runs_sorted_append) (auto simp: min_def sorted_merge_by)
    next
      case False
      with s 1(2) \<open>xs \<noteq> []\<close> show ?thesis
        unfolding merge_pass_step [OF 1(2) ne] by (simp add: runs_sorted_short sorted_merge_by)
    qed
  qed (simp add: runs_sorted_short)
qed

lemma stable_merge_pass:
  "0 < k \<Longrightarrow> runs_sorted f k xs \<Longrightarrow>
   filter (\<lambda>x. f x = c) (merge_pass (on_key f) k xs) = filter (\<lambda>x. f x = c) xs"
proof (induction "on_key f" k xs rule: merge_pass.induct)
  case (1 k xs)
  show ?case
  proof (cases "xs = []")
    case False
    let ?P = "filter (\<lambda>x. f x = c)"
    have s: "sorted (map f (take k xs))" "runs_sorted f k (drop (2 * k) xs)"
      using runs_sortedD [OF 1(3)] runs_sortedD [OF runs_sortedD(2) [OF 1(3)]] by (simp_all add: mult_2)
    have "?P (take k xs) @ ?P (take k (drop k xs)) @ ?P (drop (2 * k) xs) = ?P xs"
      by (metis append_take_drop_id drop_drop filter_append mult_2)
    then show ?thesis
      using s 1(1) [OF _ 1(2)] 1(2) False by (simp add: stable_merge_by merge_pass_step)
  qed simp
qed

section \<open>The passes\<close>

text \<open>The number of merges of a pass.\<close>

function merges :: "nat \<Rightarrow> 'a list \<Rightarrow> nat" where
  "merges k xs = (if xs = [] \<or> k = 0 then 0 else Suc (merges k (drop (2 * k) xs)))"
  by pat_completeness auto
termination by (relation "measure (\<lambda>(k, xs). length xs)") auto

declare merges.simps [simp del]

lemma merges_Nil [simp]: "merges k [] = 0"
  by (simp add: merges.simps)

lemma merges_step: "0 < k \<Longrightarrow> xs \<noteq> [] \<Longrightarrow> merges k xs = Suc (merges k (drop (2 * k) xs))"
  by (simp only: merges.simps [of k xs]) simp

lemma merges_pos: "0 < k \<Longrightarrow> xs \<noteq> [] \<Longrightarrow> 0 < merges k xs"
  using merges_step [of k xs] by simp

lemma merges_le_1: "0 < k \<Longrightarrow> merges k xs \<le> 1 \<longleftrightarrow> length xs \<le> 2 * k"
  using merges_pos [of k "drop (2 * k) xs"]
  by (cases "xs = []"; cases "length xs \<le> 2 * k") (simp_all add: merges_step)

text \<open>The passes until there is one merge only.\<close>

function merge_rounds :: "('a \<Rightarrow> 'a \<Rightarrow> bool) \<Rightarrow> nat \<Rightarrow> 'a list \<Rightarrow> 'a list" where
  "merge_rounds le k xs =
     (if k = 0 \<or> length xs \<le> 2 * k then merge_pass le k xs else merge_rounds le (2 * k) (merge_pass le k xs))"
  by pat_completeness auto
termination by (relation "measure (\<lambda>(le, k, xs). length xs - k)") auto

declare merge_rounds.simps [simp del]

lemma mset_merge_rounds [simp]: "0 < k \<Longrightarrow> mset (merge_rounds le k xs) = mset xs"
  by (induction le k xs rule: merge_rounds.induct) (simp add: merge_rounds.simps)

lemma rounds_perm [simp]:
  assumes "0 < k"
  shows "set (merge_rounds le k xs) = set xs" "length (merge_rounds le k xs) = length xs"
    "distinct (merge_rounds le k xs) \<longleftrightarrow> distinct xs" "merge_rounds le k xs = [] \<longleftrightarrow> xs = []"
  using mset_merge_rounds [OF assms, of le xs]
  by (metis set_mset_mset, metis size_mset, metis mset_eq_imp_distinct_iff, metis mset_zero_iff)

lemma sort_key_cong:
  assumes "mset ys = mset xs" "\<And>c. filter (\<lambda>x. f x = c) ys = filter (\<lambda>x. f x = c) xs"
  shows "sort_key f ys = sort_key f xs"
proof (rule properties_for_sort_key)
  have flip: "(\<lambda>x. f k = f x) = (\<lambda>x. f x = f k)" for k by (auto simp: fun_eq_iff)
  show "filter (\<lambda>x. f k = f x) (sort_key f xs) = filter (\<lambda>x. f k = f x) ys" for k
    unfolding flip assms(2) by (simp add: sort_key_stable)
qed (simp_all add: assms(1))

lemma sort_key_pass:
  "0 < k \<Longrightarrow> runs_sorted f k xs \<Longrightarrow> sort_key f (merge_pass (on_key f) k xs) = sort_key f xs"
  by (rule sort_key_cong) (simp_all add: stable_merge_pass)

lemma rounds_sort_key:
  "0 < k \<Longrightarrow> runs_sorted f k xs \<Longrightarrow> merge_rounds (on_key f) k xs = sort_key f xs"
proof (induction "on_key f" k xs rule: merge_rounds.induct)
  case (1 k xs)
  note r = runs_sorted_pass [OF 1(2,3)] and p = sort_key_pass [OF 1(2,3)]
  show ?case
  proof (cases "length xs \<le> 2 * k")
    case True
    with runs_sortedD(1) [OF r] 1(2) have "sorted (map f (merge_pass (on_key f) k xs))" by simp
    from sort_key_id_if_sorted [OF this] p True show ?thesis
      by (simp add: merge_rounds.simps [of "on_key f" k])
  next
    case False
    with 1 r p show ?thesis by (simp add: merge_rounds.simps [of "on_key f" k])
  qed
qed

theorem rounds_stable_sort: "merge_rounds (on_key f) 1 xs = sort_key f xs"
  by (rule rounds_sort_key [OF _ runs_sorted_1]) simp

end
