(* ===== verification/Link_Sort.thy ===== *)
theory Link_Sort
  imports C_Env Dll Merge_Runs
begin

text \<open>
  Simon Tatham's merge sort of linked lists, the text that \<open>LL_SORT2\<close>, \<open>DL_SORT2\<close>, \<open>CDL_SORT2\<close> of
  \<^verbatim>\<open>utlist.h\<close> and \<open>HASH_SRT\<close> of \<^verbatim>\<open>uthash.h\<close> share. What differs is a parameter: the link fields and the
  comparison (\<open>linkops\<close>), whether \<open>p\<close> and \<open>e\<close> are tested for NULL before they are followed, as in
  \<open>HASH_SRT\<close> (\<open>lk_tests\<close>), the old head at which a circular list ends (\<open>oh\<close>, NULL in the other lists),
  how a pass ties up the ends, and how the run length is doubled: an \<open>int\<close> overflows, an \<open>unsigned\<close>
  wraps. Every operation that follows links has fuel, and runs out of it only on a list that does
  not end.
\<close>

section \<open>The macros\<close>

record 's linkops =
  lk_next :: "'s \<Rightarrow> addr option \<Rightarrow> addr option res"
  lk_set_next :: "addr option \<Rightarrow> addr option \<Rightarrow> 's \<Rightarrow> 's res"
  lk_set_prev :: "addr option \<Rightarrow> addr option \<Rightarrow> 's \<Rightarrow> 's res"
  lk_cmp :: "'s \<Rightarrow> addr option \<Rightarrow> addr option \<Rightarrow> int res"
  lk_tests :: bool

text \<open>The link of \<open>q\<close>, NULL where a circular list closes.\<close>

definition ls_next :: "'s linkops \<Rightarrow> addr option \<Rightarrow> 's \<Rightarrow> addr option \<Rightarrow> addr option res" where
  "ls_next F oh s q = andThen (lk_next F s q) (\<lambda>n. Inr (if n = oh then None else n))"

text \<open>\<open>for (i = 0; i < insize; i++) { psize++; q = q->next; if (!q) break; }\<close>\<close>

fun ls_advance ::
  "'s linkops \<Rightarrow> addr option \<Rightarrow> 's \<Rightarrow> nat \<Rightarrow> nat \<Rightarrow> addr option \<Rightarrow> (nat \<times> addr option) res" where
  "ls_advance F oh s 0 psize q = Inr (psize, q)"
| "ls_advance F oh s (Suc n) psize q =
     andThen (ls_next F oh s q) (\<lambda>q.
       if q = None then Inr (Suc psize, None) else ls_advance F oh s n (Suc psize) q)"

text \<open>One choice of the merge: the element taken and what is left of the two runs.\<close>

definition ls_pick ::
  "'s linkops \<Rightarrow> addr option \<Rightarrow> 's \<Rightarrow> nat \<Rightarrow> nat \<Rightarrow> addr option \<Rightarrow> addr option \<Rightarrow>
   (addr option \<times> nat \<times> nat \<times> addr option \<times> addr option) res" where
  "ls_pick F oh s psize qsize p q =
     (let from_p = andThen (if lk_tests F \<and> p = None then Inr None else ls_next F oh s p)
            (\<lambda>p'. Inr (p, psize - 1, qsize, p', q));
          from_q = andThen (ls_next F oh s q) (\<lambda>q'. Inr (q, psize, qsize - 1, p, q')) in
      if psize = 0 then from_q
      else if qsize = 0 \<or> q = None then from_p
      else andThen (lk_cmp F s p q) (\<lambda>c. if c \<le> 0 then from_p else from_q))"

text \<open>The element goes behind the tail of what is merged, or becomes the head.\<close>

definition ls_link ::
  "'s linkops \<Rightarrow> addr option \<Rightarrow> addr option \<Rightarrow> addr option \<Rightarrow> 's \<Rightarrow> (addr option \<times> 's) res" where
  "ls_link F list tail e s =
     andThen (if tail \<noteq> None then andThen (lk_set_next F tail e s) (\<lambda>s. Inr (list, s)) else Inr (e, s))
       (\<lambda>(list, s). andThen (if lk_tests F \<and> e = None then Inr s else lk_set_prev F e tail s) (\<lambda>s. Inr (list, s)))"

fun ls_merge ::
  "'s linkops \<Rightarrow> addr option \<Rightarrow> nat \<Rightarrow> nat \<Rightarrow> nat \<Rightarrow> addr option \<Rightarrow> addr option \<Rightarrow> addr option \<Rightarrow>
   addr option \<Rightarrow> 's \<Rightarrow> (addr option \<times> addr option \<times> addr option \<times> 's) res" where
  "ls_merge F oh n psize qsize p q list tail s =
     (if \<not> (0 < psize \<or> 0 < qsize \<and> q \<noteq> None) then Inr (q, list, tail, s)
      else (case n of 0 \<Rightarrow> Inl Diverge
        | Suc n \<Rightarrow> andThen (ls_pick F oh s psize qsize p q) (\<lambda>(e, psize, qsize, p, q).
            andThen (ls_link F list tail e s) (\<lambda>(list, s).
              ls_merge F oh n psize qsize p q list e s))))"

text \<open>The loop over the pairs of runs: the new head and tail and the number of merges.\<close>

fun ls_pass ::
  "'s linkops \<Rightarrow> addr option \<Rightarrow> nat \<Rightarrow> nat \<Rightarrow> addr option \<Rightarrow> addr option \<Rightarrow> addr option \<Rightarrow> nat \<Rightarrow> 's \<Rightarrow>
   (addr option \<times> addr option \<times> nat \<times> 's) res" where
  "ls_pass F oh insize n p list tail nmerges s =
     (if p = None then Inr (list, tail, nmerges, s)
      else (case n of 0 \<Rightarrow> Inl Diverge
        | Suc n \<Rightarrow> andThen (ls_advance F oh s insize 0 p) (\<lambda>(psize, q).
            andThen (ls_merge F oh (psize + insize) psize insize p q list tail s) (\<lambda>(q, list, tail, s).
              ls_pass F oh insize n q list tail (Suc nmerges) s))))"

text \<open>
  The passes. \<open>circ\<close>: whether the list is circular; \<open>finish\<close>: how a pass ties up the list from its
  head and tail; \<open>double\<close>: \<open>insize *= 2\<close>.
\<close>

fun ls_loop ::
  "'s linkops \<Rightarrow> bool \<Rightarrow> (addr option \<Rightarrow> addr option \<Rightarrow> 's \<Rightarrow> 's res) \<Rightarrow> (nat \<Rightarrow> nat res) \<Rightarrow> nat \<Rightarrow> nat \<Rightarrow>
   nat \<Rightarrow> addr option \<Rightarrow> 's \<Rightarrow> (addr option \<times> addr option \<times> 's) res" where
  "ls_loop F circ finish double m 0 insize list s = Inl Diverge"
| "ls_loop F circ finish double m (Suc n) insize list s =
     andThen (ls_pass F (if circ then list else None) insize m list None None 0 s) (\<lambda>(list, tail, nmerges, s).
     andThen (finish list tail s) (\<lambda>s.
     andThen (double insize) (\<lambda>insize.
       if nmerges \<le> 1 then Inr (list, tail, s)
       else ls_loop F circ finish double m n insize list s)))"

declare ls_merge.simps [simp del] ls_pass.simps [simp del]

section \<open>Links as functions\<close>

text \<open>\<open>nseg nx xs q\<close>: each node of \<open>xs\<close> points to the next one, the last one to \<open>q\<close>.\<close>

fun nseg :: "('a \<Rightarrow> 'a option) \<Rightarrow> 'a list \<Rightarrow> 'a option \<Rightarrow> bool" where
  "nseg nx [] q \<longleftrightarrow> True"
| "nseg nx (x # xs) q \<longleftrightarrow> nx x = head_or xs q \<and> nseg nx xs q"

fun pseg :: "('a \<Rightarrow> 'a option) \<Rightarrow> 'a option \<Rightarrow> 'a list \<Rightarrow> bool" where
  "pseg pv p [] \<longleftrightarrow> True"
| "pseg pv p (x # xs) \<longleftrightarrow> pv x = p \<and> pseg pv (Some x) xs"

lemma dseg_split: "dseg pv nx p xs q \<longleftrightarrow> nseg nx xs q \<and> pseg pv p xs"
  by (induction xs arbitrary: p) auto

lemma nseg_append: "nseg nx (xs @ ys) q \<longleftrightarrow> nseg nx xs (head_or ys q) \<and> nseg nx ys q"
  by (induction xs) auto

lemma pseg_append: "pseg pv p (xs @ ys) \<longleftrightarrow> pseg pv p xs \<and> pseg pv (last_or p xs) ys"
  by (induction xs arbitrary: p) (auto simp: last_or_def)

lemma nseg_cong: "(\<And>x. x \<in> set xs \<Longrightarrow> nx' x = nx x) \<Longrightarrow> nseg nx' xs q = nseg nx xs q"
  by (induction xs) auto

lemma pseg_cong: "(\<And>x. x \<in> set xs \<Longrightarrow> pv' x = pv x) \<Longrightarrow> pseg pv' p xs = pseg pv p xs"
  by (induction xs arbitrary: p) auto

lemma seg_upd [simp]:
  "x \<notin> set xs \<Longrightarrow> nseg (nx(x := v)) xs q = nseg nx xs q"
  "x \<notin> set xs \<Longrightarrow> pseg (pv(x := v)) p xs = pseg pv p xs"
  by (rule nseg_cong pseg_cong; auto)+

text \<open>What has been merged: linked back and forth, but for the link of the last node.\<close>

definition partway :: "bool \<Rightarrow> ('a \<Rightarrow> 'a option) \<Rightarrow> ('a \<Rightarrow> 'a option) \<Rightarrow> 'a list \<Rightarrow> bool" where
  "partway wp nx pv out \<longleftrightarrow> nseg nx (butlast out) (last_or None out) \<and> (wp \<longrightarrow> pseg pv None out)"

lemma partway_Nil [simp]: "partway wp nx pv []"
  by (simp add: partway_def)

lemma partway_cong:
  "(\<And>x. x \<in> set out \<Longrightarrow> nx' x = nx x \<and> pv' x = pv x) \<Longrightarrow> partway wp nx' pv' out = partway wp nx pv out"
  unfolding partway_def by (intro arg_cong2 [where f = "(\<and>)"] nseg_cong imp_cong refl pseg_cong)
    (auto dest: in_set_butlastD)

lemma partway_snoc:
  assumes "partway wp nx pv out" "e \<notin> set out" "distinct out"
  shows "partway wp (put nx (last_or None out) (Some e)) (if wp then pv(e := last_or None out) else pv) (out @ [e])"
proof (cases out rule: rev_cases)
  case (snoc us u)
  then have "butlast (out @ [e]) = us @ [u]" by (simp add: butlast_append)
  with snoc assms show ?thesis by (auto simp: partway_def nseg_append pseg_append)
qed (simp add: partway_def)

lemma partway_end:
  assumes "partway wp nx pv out" "out \<noteq> []" "distinct out"
  shows "nseg (nx(last out := q)) out q" "wp \<Longrightarrow> pseg pv None out"
proof -
  obtain us u where "out = us @ [u]" using assms(2) by (cases out rule: rev_cases) auto
  with assms show "nseg (nx(last out := q)) out q" "wp \<Longrightarrow> pseg pv None out"
    by (auto simp: partway_def nseg_append)
qed

section \<open>The interface\<close>

text \<open>
  What the sort asks of the link fields: reading and writing the links of the nodes in \<open>dm\<close> is
  reading and updating the functions \<open>nx\<close> and \<open>pv\<close> (\<open>wp\<close>: whether there is a back link), the rest of
  the state is left alone, and the comparison is the relation \<open>le\<close>.
\<close>

text \<open>The two runs of a merge, \<open>as\<close> from \<open>p\<close> and \<open>bs\<close> with the list \<open>rs\<close> behind it, of which at most \<open>qsize\<close> are left.\<close>

definition runs_at ::
  "('a \<Rightarrow> 'a option) \<Rightarrow> 'a set \<Rightarrow> 'a option \<Rightarrow> 'a option \<Rightarrow> 'a list \<Rightarrow> 'a list \<Rightarrow> 'a list \<Rightarrow> nat \<Rightarrow> 'a option \<Rightarrow> bool" where
  "runs_at nx A oh y as bs rs qsize p \<longleftrightarrow>
     nseg nx as y \<and> nseg nx (bs @ rs) oh \<and> oh \<notin> Some ` set (tl as) \<and> oh \<notin> Some ` set (bs @ rs) \<and>
     set (as @ bs @ rs) \<subseteq> A \<and> distinct (as @ bs @ rs) \<and> (as \<noteq> [] \<longrightarrow> p = Some (hd as)) \<and>
     length bs \<le> qsize \<and> (length bs < qsize \<longrightarrow> rs = [])"

lemma runs_at_cong:
  assumes "runs_at nx A oh y as bs rs qsize p" "\<And>x. x \<in> set (as @ bs @ rs) \<Longrightarrow> nx' x = nx x"
  shows "runs_at nx' A oh y as bs rs qsize p"
  using assms nseg_cong [of as nx' nx] nseg_cong [of "bs @ rs" nx' nx] by (auto simp: runs_at_def)

locale link_fields =
  fixes F :: "'s linkops" and nx pv :: "'s \<Rightarrow> addr \<Rightarrow> addr option" and dm :: "'s \<Rightarrow> addr set"
    and rest :: "'s \<Rightarrow> 'r" and le :: "'r \<Rightarrow> addr \<Rightarrow> addr \<Rightarrow> bool" and wp :: bool
  assumes next_ok: "a \<in> dm s \<Longrightarrow> lk_next F s (Some a) = Inr (nx s a)"
    and set_next_ok: "a \<in> dm s \<Longrightarrow> \<exists>s'. lk_set_next F (Some a) v s = Inr s' \<and> nx s' = (nx s)(a := v) \<and>
      pv s' = pv s \<and> dm s' = dm s \<and> rest s' = rest s"
    and set_prev_ok: "a \<in> dm s \<Longrightarrow> \<exists>s'. lk_set_prev F (Some a) v s = Inr s' \<and> nx s' = nx s \<and>
      pv s' = (if wp then (pv s)(a := v) else pv s) \<and> dm s' = dm s \<and> rest s' = rest s"
    and cmp_ok: "a \<in> dm s \<Longrightarrow> b \<in> dm s \<Longrightarrow> \<exists>c. lk_cmp F s (Some a) (Some b) = Inr c \<and>
      (c \<le> 0 \<longleftrightarrow> le (rest s) a b)"
begin

lemma next_seg:
  assumes "nseg (nx s) (x # xs) y" "x \<in> dm s" "oh \<notin> Some ` set xs"
  shows "\<exists>r. ls_next F oh s (Some x) = Inr r \<and> (xs \<noteq> [] \<longrightarrow> r = Some (hd xs)) \<and> (y = oh \<longrightarrow> r = head_or xs None)"
  using assms by (cases xs) (auto simp: ls_next_def next_ok)

lemma link_ok:
  assumes "set (out @ [e]) \<subseteq> dm s" "distinct (out @ [e])" "partway wp (nx s) (pv s) out"
  shows "\<exists>s'. ls_link F (head_or out None) (last_or None out) (Some e) s = Inr (head_or (out @ [e]) None, s') \<and>
    partway wp (nx s') (pv s') (out @ [e]) \<and> dm s' = dm s \<and> rest s' = rest s \<and>
    (\<forall>x. x \<notin> set (out @ [e]) \<longrightarrow> nx s' x = nx s x \<and> pv s' x = pv s x) \<and> nx s' e = nx s e"
proof -
  note snoc = partway_snoc [OF assms(3), of e]
  show ?thesis
  proof (cases out rule: rev_cases)
    case Nil
    from assms(1) set_prev_ok [of e s None] obtain s' where
      "lk_set_prev F (Some e) None s = Inr s'" "nx s' = nx s"
      "pv s' = (if wp then (pv s)(e := None) else pv s)" "dm s' = dm s" "rest s' = rest s" by auto
    then show ?thesis using snoc by (auto simp: ls_link_def Nil)
  next
    case (snoc us u)
    from assms(1) snoc set_next_ok [of u s "Some e"] obtain s1 where
      1: "lk_set_next F (Some u) (Some e) s = Inr s1" "nx s1 = (nx s)(u := Some e)" "pv s1 = pv s"
        "dm s1 = dm s" "rest s1 = rest s" by auto
    from assms(1) 1(4) set_prev_ok [of e s1 "Some u"] obtain s' where
      "lk_set_prev F (Some e) (Some u) s1 = Inr s'" "nx s' = nx s1"
      "pv s' = (if wp then (pv s1)(e := Some u) else pv s1)" "dm s' = dm s1" "rest s' = rest s1" by auto
    with 1 show ?thesis using partway_snoc [OF assms(3), of e] assms(2)
      by (auto simp: ls_link_def snoc)
  qed
qed

lemma pick_ok:
  assumes "runs_at (nx s) (dm s) oh y as bs rs qsize p" "as \<noteq> [] \<or> bs \<noteq> []"
  shows "\<exists>e as' bs' qsize' p'.
    ls_pick F oh s (length as) qsize p (head_or (bs @ rs) None)
      = Inr (Some e, length as', qsize', p', head_or (bs' @ rs) None) \<and>
    merge_by (le (rest s)) as bs = e # merge_by (le (rest s)) as' bs' \<and>
    (as = e # as' \<and> bs' = bs \<and> qsize' = qsize \<or> bs = e # bs' \<and> as' = as \<and> qsize' = qsize - 1 \<and> 0 < qsize) \<and>
    runs_at (nx s) (dm s) oh y as' bs' rs qsize' p'"
proof -
  let ?f = "le (rest s)" and ?q = "head_or (bs @ rs) None"
  have from_p: "\<exists>p'. ls_next F oh s p = Inr p' \<and> p = Some a \<and> runs_at (nx s) (dm s) oh y as' bs rs qsize p'"
    if "as = a # as'" for a as'
    using assms(1) next_seg [of s a as' y oh] that by (cases as') (auto simp: runs_at_def)
  have from_q: "\<exists>q'. ls_next F oh s ?q = Inr (head_or (bs' @ rs) None) \<and> ?q = Some b \<and> 0 < qsize \<and>
      runs_at (nx s) (dm s) oh y as bs' rs (qsize - 1) p" if "bs = b # bs'" for b bs'
    using assms(1) next_seg [of s b "bs' @ rs" oh oh] that by (auto simp: runs_at_def)
  show ?thesis
  proof (cases as)
    case Nil
    with assms(2) obtain b bs' where bs: "bs = b # bs'" by (cases bs) auto
    from from_q [OF bs] show ?thesis using Nil bs by (auto simp: ls_pick_def)
  next
    case (Cons a as')
    note pp = from_p [OF Cons]
    show ?thesis
    proof (cases bs)
      case Nil
      then have "qsize = 0 \<or> ?q = None" using assms(1) by (auto simp: runs_at_def)
      then show ?thesis using pp Cons Nil by (auto simp: ls_pick_def Let_def)
    next
      case (Cons b bs')
      from from_q [OF this] have q: "ls_next F oh s ?q = Inr (head_or (bs' @ rs) None)" "?q = Some b" "0 < qsize"
        "runs_at (nx s) (dm s) oh y as bs' rs (qsize - 1) p" by auto
      from assms(1) \<open>as = a # as'\<close> Cons cmp_ok [of a s b] obtain c where
        c: "lk_cmp F s (Some a) (Some b) = Inr c" "c \<le> 0 \<longleftrightarrow> ?f a b" by (auto simp: runs_at_def)
      from pp obtain p' where p': "ls_next F oh s p = Inr p'" "p = Some a"
        "runs_at (nx s) (dm s) oh y as' bs rs qsize p'" by blast
      show ?thesis
      proof (cases "?f a b")
        case True
        then show ?thesis using p' q c \<open>as = a # as'\<close> Cons
          by (intro exI [of _ a] exI [of _ as'] exI [of _ bs] exI [of _ qsize] exI [of _ p'])
            (auto simp: ls_pick_def Let_def)
      next
        case False
        then show ?thesis using p' q c \<open>as = a # as'\<close> Cons
          by (intro exI [of _ b] exI [of _ as] exI [of _ bs'] exI [of _ "qsize - 1"] exI [of _ p])
            (auto simp: ls_pick_def Let_def)
      qed
    qed
  qed
qed

lemma merge_ok:
  assumes "runs_at (nx s) (dm s) oh y as bs rs qsize p" "partway wp (nx s) (pv s) out" "set out \<subseteq> dm s"
    and "distinct (out @ as @ bs @ rs)" "length as + qsize \<le> n"
  shows "\<exists>s'. ls_merge F oh n (length as) qsize p (head_or (bs @ rs) None) (head_or out None) (last_or None out) s
      = Inr (head_or rs None, head_or (out @ merge_by (le (rest s)) as bs) None,
          last_or None (out @ merge_by (le (rest s)) as bs), s') \<and>
    partway wp (nx s') (pv s') (out @ merge_by (le (rest s)) as bs) \<and> dm s' = dm s \<and> rest s' = rest s \<and>
    (\<forall>x. x \<notin> set (out @ as @ bs) \<longrightarrow> nx s' x = nx s x \<and> pv s' x = pv s x)"
  using assms
proof (induction n arbitrary: s as bs qsize p out)
  case (0 s as bs qsize p out)
  then show ?case by (auto simp: ls_merge.simps runs_at_def)
next
  case (Suc n s as bs qsize p out)
  show ?case
  proof (cases "as = [] \<and> bs = []")
    case True
    then show ?thesis using Suc.prems(1,2) by (auto simp: ls_merge.simps [of _ _ "Suc n"] runs_at_def)
  next
    case False
    then have "as \<noteq> [] \<or> bs \<noteq> []" by simp
    from pick_ok [OF Suc.prems(1) this] obtain e as' bs' qsize' p' where
      e: "ls_pick F oh s (length as) qsize p (head_or (bs @ rs) None)
        = Inr (Some e, length as', qsize', p', head_or (bs' @ rs) None)"
      "merge_by (le (rest s)) as bs = e # merge_by (le (rest s)) as' bs'"
      "as = e # as' \<and> bs' = bs \<and> qsize' = qsize \<or> bs = e # bs' \<and> as' = as \<and> qsize' = qsize - 1 \<and> 0 < qsize"
      "runs_at (nx s) (dm s) oh y as' bs' rs qsize' p'" by blast
    have out': "set (out @ [e]) \<subseteq> dm s" "distinct (out @ [e])"
      using Suc.prems(1,3,4) e(3) by (auto simp: runs_at_def)
    from link_ok [OF this Suc.prems(2)] obtain s1 where
      s1: "ls_link F (head_or out None) (last_or None out) (Some e) s = Inr (head_or (out @ [e]) None, s1)"
      "partway wp (nx s1) (pv s1) (out @ [e])" "dm s1 = dm s" "rest s1 = rest s"
      "\<forall>x. x \<notin> set (out @ [e]) \<longrightarrow> nx s1 x = nx s x \<and> pv s1 x = pv s x" by blast
    have dis: "distinct ((out @ [e]) @ as' @ bs' @ rs)" using Suc.prems(4) e(3) by auto
    then have "runs_at (nx s1) (dm s) oh y as' bs' rs qsize' p'"
      by (intro runs_at_cong [OF e(4)]) (use s1(5) in auto)
    moreover have "length as' + qsize' \<le> n" using e(3) Suc.prems(5) by auto
    ultimately obtain s' where
      s': "ls_merge F oh n (length as') qsize' p' (head_or (bs' @ rs) None) (head_or (out @ [e]) None)
          (last_or None (out @ [e])) s1
        = Inr (head_or rs None, head_or ((out @ [e]) @ merge_by (le (rest s1)) as' bs') None,
          last_or None ((out @ [e]) @ merge_by (le (rest s1)) as' bs'), s')"
      "partway wp (nx s') (pv s') ((out @ [e]) @ merge_by (le (rest s1)) as' bs')" "dm s' = dm s1" "rest s' = rest s1"
      "\<forall>x. x \<notin> set ((out @ [e]) @ as' @ bs') \<longrightarrow> nx s' x = nx s1 x \<and> pv s' x = pv s1 x"
      using Suc.IH [OF _ s1(2) _ dis, of qsize' p'] out'(1) s1(3) by metis
    have go: "0 < length as \<or> 0 < qsize \<and> head_or (bs @ rs) None \<noteq> None" using e(3) by auto
    have "\<forall>x. x \<notin> set (out @ as @ bs) \<longrightarrow> nx s' x = nx s x \<and> pv s' x = pv s x"
      using s'(5) s1(5) e(3) by auto
    with s' s1 e(1,2) go show ?thesis
      by (simp add: ls_merge.simps [of _ _ "Suc n"])
  qed
qed

lemma advance_ok:
  assumes "nseg (nx s) xs oh" "set xs \<subseteq> dm s" "oh \<notin> Some ` set (tl xs)" "xs \<noteq> []"
  shows "ls_advance F oh s n k (Some (hd xs)) = Inr (k + length (take n xs), head_or (drop n xs) None)"
  using assms
proof (induction n arbitrary: xs k)
  case (Suc n)
  then obtain x xs' where xs: "xs = x # xs'" by (cases xs) auto
  with Suc.prems next_seg [of s x xs' oh oh] have nx: "ls_next F oh s (Some x) = Inr (head_or xs' None)" by auto
  show ?case
  proof (cases xs')
    case (Cons y ys)
    with Suc.prems xs have "ls_advance F oh s n (Suc k) (Some (hd xs'))
      = Inr (Suc k + length (take n xs'), head_or (drop n xs') None)"
      by (intro Suc.IH) auto
    with nx xs Cons show ?thesis by simp
  qed (use nx xs in simp)
qed simp

lemma pass_ok:
  assumes "nseg (nx s) xs oh" "oh \<notin> Some ` set (tl xs)" "distinct (out @ xs)" "set (out @ xs) \<subseteq> dm s"
    and "partway wp (nx s) (pv s) out" "0 < k" "length xs \<le> n"
  shows "\<exists>s'. ls_pass F oh k n (head_or xs None) (head_or out None) (last_or None out) m s
      = Inr (head_or (out @ merge_pass (le (rest s)) k xs) None, last_or None (out @ merge_pass (le (rest s)) k xs),
          m + merges k xs, s') \<and>
    partway wp (nx s') (pv s') (out @ merge_pass (le (rest s)) k xs) \<and> dm s' = dm s \<and> rest s' = rest s \<and>
    (\<forall>x. x \<notin> set (out @ xs) \<longrightarrow> nx s' x = nx s x \<and> pv s' x = pv s x)"
  using assms
proof (induction n arbitrary: xs out m s)
  case (0 xs out m s)
  then show ?case by (simp add: ls_pass.simps)
next
  case (Suc n xs out m s)
  show ?case
  proof (cases "xs = []")
    case True
    with Suc.prems show ?thesis by (simp add: ls_pass.simps [of _ _ _ "Suc n"])
  next
    case False
    let ?as = "take k xs" and ?bs = "take k (drop k xs)" and ?rs = "drop (2 * k) xs" and ?f = "le (rest s)"
    let ?out = "out @ merge_by ?f ?as ?bs"
    have parts: "?bs @ ?rs = drop k xs" "?as @ ?bs @ ?rs = xs"
      by (metis append_take_drop_id drop_drop mult_2) (metis append_take_drop_id drop_drop mult_2)
    have sub: "set (drop k xs) \<subseteq> set (tl xs)" "set (tl ?as) \<subseteq> set (tl xs)"
      using False Suc.prems(6) by (cases xs; cases k; auto dest: in_set_takeD in_set_dropD)+
    have r: "runs_at (nx s) (dm s) oh (head_or (drop k xs) oh) ?as ?bs ?rs k (Some (hd xs))"
      unfolding runs_at_def parts
      using Suc.prems False sub nseg_append [of "nx s" ?as "drop k xs" oh] by auto
    have "distinct (out @ ?as @ ?bs @ ?rs)" using Suc.prems(3) unfolding parts(2) .
    from merge_ok [OF r Suc.prems(5) _ this order_refl] Suc.prems(4) parts(1) obtain s1 where
      s1: "ls_merge F oh (length ?as + k) (length ?as) k (Some (hd xs)) (head_or (drop k xs) None)
          (head_or out None) (last_or None out) s = Inr (head_or ?rs None, head_or ?out None, last_or None ?out, s1)"
      "partway wp (nx s1) (pv s1) ?out" "dm s1 = dm s" "rest s1 = rest s"
      "\<forall>x. x \<notin> set (out @ ?as @ ?bs) \<longrightarrow> nx s1 x = nx s x \<and> pv s1 x = pv s x" by auto
    have dis: "distinct (?out @ ?rs)"
      using \<open>distinct (out @ ?as @ ?bs @ ?rs)\<close> by auto
    have "nseg (nx s) ?rs oh" using Suc.prems(1) parts nseg_append [of "nx s" "?as @ ?bs" ?rs oh] by simp
    moreover have "nseg (nx s1) ?rs oh = nseg (nx s) ?rs oh"
      by (rule nseg_cong) (use s1(5) \<open>distinct (out @ ?as @ ?bs @ ?rs)\<close> in auto)
    moreover have "set (tl ?rs) \<subseteq> set (tl xs)"
      using Suc.prems(6) False by (cases xs) (auto simp: tl_drop dest: in_set_dropD)
    moreover have "set xs = set ?as \<union> set ?bs \<union> set ?rs" by (metis parts(2) set_append sup_assoc)
    then have "set (?out @ ?rs) \<subseteq> dm s1" "length ?rs \<le> n"
      using Suc.prems(4,6,7) s1(3) False by auto
    ultimately obtain s' where
      s': "ls_pass F oh k n (head_or ?rs None) (head_or ?out None) (last_or None ?out) (Suc m) s1
        = Inr (head_or (?out @ merge_pass (le (rest s1)) k ?rs) None,
          last_or None (?out @ merge_pass (le (rest s1)) k ?rs), Suc m + merges k ?rs, s')"
      "partway wp (nx s') (pv s') (?out @ merge_pass (le (rest s1)) k ?rs)" "dm s' = dm s1" "rest s' = rest s1"
      "\<forall>x. x \<notin> set (?out @ ?rs) \<longrightarrow> nx s' x = nx s1 x \<and> pv s' x = pv s1 x"
      using Suc.IH [OF _ _ dis _ s1(2) Suc.prems(6), of "Suc m"] Suc.prems(2) by blast
    have adv: "ls_advance F oh s k 0 (Some (hd xs)) = Inr (length ?as, head_or (drop k xs) None)"
      using advance_ok [OF Suc.prems(1) _ Suc.prems(2) False, of k 0] Suc.prems(4) by simp
    have "set xs = set ?as \<union> set ?bs \<union> set ?rs" by (metis parts(2) set_append sup_assoc)
    then have "\<forall>x. x \<notin> set (out @ xs) \<longrightarrow> nx s' x = nx s x \<and> pv s' x = pv s x"
      using s'(5) s1(5) by auto
    with s' s1 adv False Suc.prems(6) show ?thesis
      by (simp add: ls_pass.simps [of _ _ _ "Suc n"] merge_pass_step merges_step)
  qed
qed

end

text \<open>
  A whole sort: \<open>tied s xs\<close> is the list \<open>xs\<close> as its macros keep it, which a pass takes apart and
  \<open>finish\<close> ties up again; run lengths up to \<open>L\<close> can be doubled.
\<close>

locale link_sort = link_fields F nx pv dm rest le wp
  for F :: "'s linkops" and nx pv :: "'s \<Rightarrow> addr \<Rightarrow> addr option" and dm :: "'s \<Rightarrow> addr set"
    and rest :: "'s \<Rightarrow> 'r" and le :: "'r \<Rightarrow> addr \<Rightarrow> addr \<Rightarrow> bool" and wp :: bool +
  fixes circ :: bool and finish :: "addr option \<Rightarrow> addr option \<Rightarrow> 's \<Rightarrow> 's res" and tied :: "'s \<Rightarrow> addr list \<Rightarrow> bool"
    and double :: "nat \<Rightarrow> nat res" and L :: nat
  assumes tied_next: "tied s xs \<Longrightarrow> xs \<noteq> [] \<Longrightarrow> nseg (nx s) xs (if circ then Some (hd xs) else None)"
    and finish_ok: "partway wp (nx s) (pv s) xs \<Longrightarrow> xs \<noteq> [] \<Longrightarrow> distinct xs \<Longrightarrow> set xs \<subseteq> dm s \<Longrightarrow>
      \<exists>s'. finish (Some (hd xs)) (Some (last xs)) s = Inr s' \<and> tied s' xs \<and> dm s' = dm s \<and> rest s' = rest s \<and>
        (\<forall>x. x \<notin> set xs \<longrightarrow> nx s' x = nx s x \<and> pv s' x = pv s x)"
    and double_ok: "k \<le> L \<Longrightarrow> double k = Inr (2 * k)"
begin

lemma loop_ok:
  assumes "tied s xs" "xs \<noteq> []" "distinct xs" "set xs \<subseteq> dm s"
    and "0 < k" "length xs \<le> m" "length xs \<le> 2 ^ n * k" "0 < n" "k \<le> L" "length xs \<le> Suc L"
  shows "\<exists>s'. ls_loop F circ finish double m n k (Some (hd xs)) s
      = Inr (Some (hd (merge_rounds (le (rest s)) k xs)), Some (last (merge_rounds (le (rest s)) k xs)), s') \<and>
    tied s' (merge_rounds (le (rest s)) k xs) \<and> dm s' = dm s \<and> rest s' = rest s \<and>
    (\<forall>x. x \<notin> set xs \<longrightarrow> nx s' x = nx s x \<and> pv s' x = pv s x)"
  using assms
proof (induction n arbitrary: xs k s)
  case (Suc n xs k s)
  let ?f = "le (rest s)" and ?oh = "if circ then Some (hd xs) else None"
  let ?ys = "merge_pass ?f k xs"
  have ys: "set ?ys = set xs" "distinct ?ys" "?ys \<noteq> []" "length ?ys = length xs" "mset ?ys = mset xs"
    using Suc.prems(2,3,5) length_merge_pass [of k ?f xs] by (auto simp del: length_merge_pass)
  have "?oh \<notin> Some ` set (tl xs)" using Suc.prems(2,3) by (cases xs) auto
  from pass_ok [OF tied_next [OF Suc.prems(1,2)] this, where out = "[]" and k = k and n = m and m = 0] Suc.prems obtain s1 where
    s1: "ls_pass F ?oh k m (Some (hd xs)) None None 0 s
      = Inr (Some (hd ?ys), Some (last ?ys), merges k xs, s1)"
    "partway wp (nx s1) (pv s1) ?ys" "dm s1 = dm s" "rest s1 = rest s"
    "\<forall>x. x \<notin> set xs \<longrightarrow> nx s1 x = nx s x \<and> pv s1 x = pv s x" using ys(3) by auto
  from finish_ok [OF s1(2) ys(3,2)] ys(1) s1(3) Suc.prems(4) obtain s2 where
    s2: "finish (Some (hd ?ys)) (Some (last ?ys)) s1 = Inr s2" "tied s2 ?ys" "dm s2 = dm s1" "rest s2 = rest s1"
    "\<forall>x. x \<notin> set ?ys \<longrightarrow> nx s2 x = nx s1 x \<and> pv s2 x = pv s1 x" by auto
  have frame: "\<forall>x. x \<notin> set xs \<longrightarrow> nx s2 x = nx s x \<and> pv s2 x = pv s x" using s1(5) s2(5) ys(1) by simp
  have run: "ls_loop F circ finish double m (Suc n) k (Some (hd xs)) s =
      (if merges k xs \<le> 1 then Inr (Some (hd ?ys), Some (last ?ys), s2)
       else ls_loop F circ finish double m n (2 * k) (Some (hd ?ys)) s2)"
    using s1(1) s2(1) double_ok [OF Suc.prems(9)] by simp
  show ?case
  proof (cases "length xs \<le> 2 * k")
    case True
    then have "merge_rounds ?f k xs = ?ys" by (simp add: merge_rounds.simps [of ?f k])
    with run True s2 s1 frame merges_le_1 [OF Suc.prems(5), of xs] show ?thesis by auto
  next
    case False
    with Suc.prems(10) have "2 * k \<le> L" by simp
    moreover have "length ?ys \<le> 2 ^ n * (2 * k)" "0 < n"
      using Suc.prems(7) False ys(4) by (simp_all add: algebra_simps) (cases n; simp)
    ultimately obtain s' where s': "ls_loop F circ finish double m n (2 * k) (Some (hd ?ys)) s2
        = Inr (Some (hd (merge_rounds (le (rest s2)) (2 * k) ?ys)), Some (last (merge_rounds (le (rest s2)) (2 * k) ?ys)), s')"
      "tied s' (merge_rounds (le (rest s2)) (2 * k) ?ys)" "dm s' = dm s2" "rest s' = rest s2"
      "\<forall>x. x \<notin> set ?ys \<longrightarrow> nx s' x = nx s2 x \<and> pv s' x = pv s2 x"
      using Suc.IH [OF s2(2) ys(3,2), of "2 * k"] ys(1,4) s1(3) s2(3) Suc.prems(4,5,6,10) by auto
    have "merge_rounds (le (rest s2)) (2 * k) ?ys = merge_rounds ?f k xs"
      using False Suc.prems(5) s1(4) s2(4) by (simp add: merge_rounds.simps [of ?f k])
    with s' run False frame ys(1) s1 s2 merges_le_1 [OF Suc.prems(5), of xs] show ?thesis by auto
  qed
qed simp

text \<open>The sort, from runs of length one, with fuel for as many rounds as there are nodes.\<close>

lemma sort_ok:
  assumes "tied s xs" "xs \<noteq> []" "distinct xs" "set xs \<subseteq> dm s" "length xs \<le> n" "length xs \<le> Suc L" "0 < L"
  shows "\<exists>s'. ls_loop F circ finish double n n 1 (Some (hd xs)) s
      = Inr (Some (hd (merge_rounds (le (rest s)) 1 xs)), Some (last (merge_rounds (le (rest s)) 1 xs)), s') \<and>
    tied s' (merge_rounds (le (rest s)) 1 xs) \<and> dm s' = dm s \<and> rest s' = rest s \<and>
    (\<forall>x. x \<notin> set xs \<longrightarrow> nx s' x = nx s x \<and> pv s' x = pv s x)"
proof (rule loop_ok [OF assms(1-4)])
  show "length xs \<le> 2 ^ n * 1" using assms(5) less_exp [of n] by linarith
  show "0 < n" using assms(2,5) by (cases n) auto
qed (use assms in auto)

end

end
