(* ===== verification/Hash_Sort.thy ===== *)
theory Hash_Sort
  imports Uthash_Props Link_Sort
begin

text \<open>
  \<open>HASH_SRT\<close> of \<^verbatim>\<open>uthash.h\<close>: the merge sort of \<open>Link_Sort\<close> on the list of a table in the order of
  addition; the buckets and their chains stay as they are.
\<close>

section \<open>The macro\<close>

text \<open>What the user's comparison sees of an item: its own fields.\<close>

type_synonym item_cmp = "int \<times> addr option \<Rightarrow> int \<times> addr option \<Rightarrow> int"

definition hash_cmp :: "item_cmp \<Rightarrow> 'a uheap_scheme \<Rightarrow> addr option \<Rightarrow> addr option \<Rightarrow> int res" where
  "hash_cmp c s p q =
     andThen (deref (items s) p) (\<lambda>(p, x). andThen (deref (items s) q) (\<lambda>(q, y).
       Inr (c (i_id x, i_data x) (i_id y, i_data y))))"

definition hash_links :: "item_cmp \<Rightarrow> 'a uheap_scheme linkops" where
  "hash_links c =
     \<lparr>lk_next = (\<lambda>s q. andThen (deref (items s) q) (\<lambda>(q, i). Inr (h_next (i_hh i)))),
      lk_set_next = (\<lambda>p v. modify_hh p (\<lambda>h. h\<lparr>h_next := v\<rparr>)),
      lk_set_prev = (\<lambda>p v. modify_hh p (\<lambda>h. h\<lparr>h_prev := v\<rparr>)),
      lk_cmp = hash_cmp c, lk_tests = True\<rparr>"

definition srt_finish :: "addr option \<Rightarrow> addr option \<Rightarrow> 'a uheap_scheme \<Rightarrow> 'a uheap_scheme res" where
  "srt_finish list tail s =
     (if tail = None then Inr s else modify_hh tail (\<lambda>h. h\<lparr>h_next := None\<rparr>) s)"

text \<open>\<open>_hs_insize *= 2U\<close> of an \<open>unsigned\<close>\<close>

definition srt_double :: "nat \<Rightarrow> nat res" where
  "srt_double k = Inr (2 * k mod 2 ^ 32)"

definition hash_srt ::
  "item_cmp \<Rightarrow> addr option \<Rightarrow> 'a uheap_scheme \<Rightarrow> (addr option \<times> 'a uheap_scheme) res" where
  "hash_srt c head s =
     (if head = None then Inr (None, s)
      else andThen (ls_loop (hash_links c) False srt_finish srt_double (Suc (tick s)) (Suc (tick s)) 1 head s)
        (\<lambda>(list, tail, s). andThen (tbl_of s head) (\<lambda>(ta, t).
           Inr (list, set_tbl ta (t\<lparr>t_tail := tail\<rparr>) s))))"

section \<open>Correctness\<close>

text \<open>What the sort leaves alone.\<close>

definition srt_rest :: "'a uheap_scheme \<Rightarrow>
   (addr \<Rightarrow> (int \<times> addr option) option) \<times> (addr \<Rightarrow> addr option) \<times> (addr \<Rightarrow> addr option) \<times>
   (addr \<Rightarrow> addr option \<times> addr option \<times> u32 \<times> u32) \<times> (addr \<rightharpoonup> utable) \<times> nat" where
  "srt_rest s = (held s, cprv s, cnxt s, hmeta s, tbls s, tick s)"

lemma srt_rest_upd [simp]:
  "srt_rest (upd_opt p (\<lambda>h. h\<lparr>h_next := v\<rparr>) s) = srt_rest s"
  "srt_rest (upd_opt p (\<lambda>h. h\<lparr>h_prev := v\<rparr>) s) = srt_rest s"
  by (simp_all add: srt_rest_def)

definition app_list :: "'a uheap_scheme \<Rightarrow> addr list \<Rightarrow> bool" where
  "app_list s as \<longleftrightarrow> dseg (prv s) (nxt s) None as None"

interpretation srt: link_sort "hash_links c" nxt prv "\<lambda>s. dom (items s)" srt_rest
  "\<lambda>r a b. c (the (fst r a)) (the (fst r b)) \<le> 0" True False srt_finish app_list srt_double "2 ^ 31 - 1"
  for c
proof unfold_locales
  fix s :: "'a uheap_scheme" and a b v
  assume a: "a \<in> dom (items s)"
  then obtain i where i: "items s a = Some i" by blast
  then show "lk_next (hash_links c) s (Some a) = Inr (nxt s a)"
    by (simp add: hash_links_def nxt_def hf_def)
  show "\<exists>s'. lk_set_next (hash_links c) (Some a) v s = Inr s' \<and> nxt s' = (nxt s)(a := v) \<and> prv s' = prv s \<and>
      dom (items s') = dom (items s) \<and> srt_rest s' = srt_rest s"
    using a by (auto simp: hash_links_def modify_hh_eq link_updates)
  show "\<exists>s'. lk_set_prev (hash_links c) (Some a) v s = Inr s' \<and> nxt s' = nxt s \<and>
      prv s' = (if True then (prv s)(a := v) else prv s) \<and> dom (items s') = dom (items s) \<and> srt_rest s' = srt_rest s"
    using a by (auto simp: hash_links_def modify_hh_eq link_updates)
  assume "b \<in> dom (items s)"
  then show "\<exists>d. lk_cmp (hash_links c) s (Some a) (Some b) = Inr d \<and>
      (d \<le> 0 \<longleftrightarrow> c (the (fst (srt_rest s) a)) (the (fst (srt_rest s) b)) \<le> 0)"
    using i by (auto simp: hash_links_def hash_cmp_def srt_rest_def held_def)
next
  fix s :: "'a uheap_scheme" and xs
  assume "app_list s xs"
  then show "nseg (nxt s) xs (if False then Some (hd xs) else None)" by (simp add: app_list_def dseg_split)
next
  fix s :: "'a uheap_scheme" and xs
  assume xs: "partway True (nxt s) (prv s) xs" "xs \<noteq> []" "distinct xs" "set xs \<subseteq> dom (items s)"
  then have "last xs \<in> dom (items s)" using last_in_set by blast
  then show "\<exists>s'. srt_finish (Some (hd xs)) (Some (last xs)) s = Inr s' \<and> app_list s' xs \<and>
      dom (items s') = dom (items s) \<and> srt_rest s' = srt_rest s \<and>
      (\<forall>x. x \<notin> set xs \<longrightarrow> nxt s' x = nxt s x \<and> prv s' x = prv s x)"
    using partway_end(1) [OF xs(1-3), of None] partway_end(2) [OF xs(1-3)] xs(2)
    by (auto simp: srt_finish_def modify_hh_eq link_updates app_list_def dseg_split)
next
  fix k :: nat
  assume "k \<le> 2 ^ 31 - 1"
  then show "srt_double k = Inr (2 * k)" by (simp add: srt_double_def)
qed

lemma hash_srt_ok:
  fixes c :: item_cmp
  assumes "ut_rep s head as" "length as \<le> 2 ^ 31"
  defines "bs \<equiv> merge_rounds (\<lambda>a b. c (the (held s a)) (the (held s b)) \<le> 0) 1 as"
  shows "\<exists>s'. hash_srt c head s = Inr (head_or bs None, s') \<and> ut_rep s' (head_or bs None) bs \<and>
    held s' = held s"
proof (cases "as = []")
  case True
  with assms(1) show ?thesis by (auto simp: bs_def hash_srt_def ut_rep_def merge_rounds.simps)
next
  case False
  with assms(1) obtain ta t where t: "head = head_or as None" "tbls s ta = Some t" "listed s ta t as"
    "bucketed s t (set as)" "num_items t = of_nat (length as)" by (auto simp: ut_rep_def)
  note l = listedD [OF t(3)]
  have bs: "bs \<noteq> []" "set bs = set as" "distinct bs" "length bs = length as" using False l(2) by (simp_all add: bs_def)
  have "length as \<le> tick s" by (rule distinct_below [OF l(2)]) (use l(4) in \<open>auto simp: keyed_def\<close>)
  with srt.sort_ok [where s = s and xs = as and n = "Suc (tick s)" and c = c] l False assms(2)
  obtain s' where s': "ls_loop (hash_links c) False srt_finish srt_double (Suc (tick s)) (Suc (tick s)) 1 head s
      = Inr (Some (hd bs), Some (last bs), s')"
    "app_list s' bs" "dom (items s') = dom (items s)" "srt_rest s' = srt_rest s"
    by (auto simp: app_list_def bs_def srt_rest_def t(1) subset_eq)
  from s'(4) have same: "held s' = held s" "cprv s' = cprv s" "cnxt s' = cnxt s" "hmeta s' = hmeta s"
    "tbls s' = tbls s" "tick s' = tick s" by (simp_all add: srt_rest_def)
  let ?t = "t\<lparr>t_tail := Some (last bs)\<rparr>" let ?s = "set_tbl ta ?t s'"
  have k: "keyed s' ta a" if "a \<in> set as" for a
    using keyed_cong [OF same(4) _ s'(3) _ l(4) [OF that]] ukey_held [of s' _ s] same by auto
  then have "tbl_of s' head = Inr (ta, t)"
    using tbl_of_keyed [of s' ta "hd as" t] t(1,2) False same(5) by simp
  then have "hash_srt c head s = Inr (Some (hd bs), ?s)" using s'(1) t(1) False by (simp add: hash_srt_def)
  moreover have uk: "ukey s' = ukey s" by (rule ext, rule ukey_held) (simp add: same)
  moreover have "listed ?s ta ?t bs"
    using bs k l s'(2) uk by (auto simp: listed_def keyed_def app_list_def inj_on_def)
  moreover have "bucketed ?s ?t (set bs)"
    by (rule bucketed_cong [OF t(4) [folded bs(2)]]) (simp_all add: same)
  ultimately show ?thesis using bs t(5) same(1) by (auto simp: ut_rep_def)
qed

section \<open>Properties\<close>

lemma hash_srt_find:
  assumes "ut_rep s h as" "ut_rep s' h' bs" "set bs = set as" "ukey s' = ukey s"
  shows "hash_find_int s' h' n = hash_find_int s h n"
proof -
  have "inj_on (ukey s) (set as)" using ut.keys_distinct [OF assms(1)] by simp
  then have "List.find (\<lambda>a. ukey s a = int_bytes n) bs = List.find (\<lambda>a. ukey s a = int_bytes n) as"
    by (rule find_unique) (use assms(3) in auto)
  then show ?thesis by (simp add: ut_find [OF assms(1)] ut_find [OF assms(2)] assms(4))
qed

text \<open>
  C14: sorting a well-formed table by a comparison of a key never faults and leaves a well-formed
  table that passes the integrity check and finds what it found before; the items stand in the
  order of the stable sort by that key.
\<close>

theorem hash_srt_refines:
  fixes c :: item_cmp and f :: "int \<times> addr option \<Rightarrow> 'k::linorder"
  assumes "ut_rep s head as" "length as \<le> 2 ^ 31" "\<And>x y. c x y \<le> 0 \<longleftrightarrow> f x \<le> f y"
  shows "\<exists>head' s'. hash_srt c head s = Inr (head', s') \<and>
    ut_rep s' head' (sort_key (\<lambda>a. f (the (held s a))) as) \<and> hash_fsck s' head' = Inr () \<and>
    (\<forall>n. hash_find_int s' head' n = hash_find_int s head n)"
proof -
  let ?bs = "sort_key (\<lambda>a. f (the (held s a))) as"
  have "merge_rounds (\<lambda>a b. c (the (held s a)) (the (held s b)) \<le> 0) 1 as = ?bs"
    using rounds_stable_sort [of "\<lambda>a. f (the (held s a))" as] by (simp add: assms(3))
  with hash_srt_ok [OF assms(1,2), of c] obtain s' where
    s': "hash_srt c head s = Inr (head_or ?bs None, s')" "ut_rep s' (head_or ?bs None) ?bs" "held s' = held s" by auto
  have "ukey s' = ukey s" by (rule ext, rule ukey_held) (simp add: s'(3))
  with hash_srt_find [OF assms(1) s'(2)] s' hash_fsck_ok [OF s'(2)] show ?thesis by auto
qed

definition by_id_down :: item_cmp where
  "by_id_down x y = fst y - fst x"

lemma modify_hh_tbls: "modify_hh p f s = Inr s' \<Longrightarrow> tbls s' = tbls s"
  by (auto simp: modify_hh_def res_simps)

lemma if_modify_tbls: "(if b then Inr s else modify_hh p f s) = Inr s' \<Longrightarrow> tbls s' = tbls s"
  by (auto split: if_splits dest: modify_hh_tbls)

text \<open>The table of the first item has the initial number of buckets.\<close>

lemma first_add_tables:
  assumes "hash_add_int E None a s = Inr (head, s')" "tbls s = Map.empty"
  shows "\<exists>ta t. tbls s' = [ta \<mapsto> t] \<and> num_buckets t = 32"
proof -
  from assms(1) obtain s1 s2 hv where 
    "tbls s1 = tbls s" "hash_make_table E a s1 = Inr s2" and add: "hash_add_to_table E (Some a) hv a s2 = Inr s'"
    by (auto simp: hash_add_int_def Let_def res_simps dest!: modify_hh_tbls)
  then obtain t0 ta0 where s2: "tbls s2 = [ta0 \<mapsto> t0]" "buckets t0 = replicate 32 bucket_zero" "num_buckets t0 = 32"
    using assms(2) by (auto simp: hash_make_table_def Let_def res_simps set_tbl_def split: if_splits dest!: modify_hh_tbls)
  from add obtain ta1 t1 where "tbl_of s2 (Some a) = Inr (ta1, t1)" and
    b: "add_to_bkt E ta1 (hash_to_bkt hv (num_buckets t1)) a (set_tbl ta1 (t1\<lparr>num_items := num_items t1 + 1\<rparr>) s2) = Inr s'"
    by (auto simp: hash_add_to_table_def res_simps)
  moreover from this(1) s2(1) have t1: "ta1 = ta0" "t1 = t0" by (auto simp: tbl_of_def res_simps split: if_splits)
  moreover have "\<not> (10::u32) \<le> 1" by (simp add: word_le_nat_alt)
  ultimately have "tbls s' = [ta0 \<mapsto> the (tbls s' ta0)] \<and> num_buckets (the (tbls s' ta0)) = 32"
    using s2 unfolding t1
    by (auto simp: add_to_bkt_def Let_def res_simps bucket_at_def bucket_zero_def set_bucket_def set_tbl_def
        split: if_splits dest!: modify_hh_tbls if_modify_tbls)
  then show ?thesis by blast
qed

lemma first_add_buckets:
  assumes "hash_add_int E None a s = Inr (head, s')" "tbls s = Map.empty" "tbl_of s' head = Inr (ta, t)"
  shows "num_buckets t = 32"
proof -
  from assms(3) have "tbls s' ta = Some t" by (auto simp: tbl_of_def res_simps)
  with first_add_tables [OF assms(1,2)] show ?thesis by (auto split: if_splits)
qed

definition two_items :: "(addr option \<times> uheap) res" where
  "two_items = andThen (hash_add_int demo_env None 3 demo_uheap) (\<lambda>(head, s). hash_add_int demo_env head 4 s)"

lemma two_items_rep:
  "\<exists>head s. two_items = Inr (head, s) \<and> ut_rep s head [3, 4] \<and> held s = held demo_uheap"
proof -
  have keys: "ukey demo_uheap 4 \<noteq> ukey demo_uheap 3"
    by (simp add: ukey_def demo_uheap_def plain_item_def) code_simp
  have "e_malloc demo_env n" for n by (simp add: demo_env_def)
  note add = hash_add_ok [where E = demo_env, OF _ _ _ _ _ this]
  have u: "tick demo_uheap = 10" "dom (items demo_uheap) = {3, 4}" by (auto simp: demo_uheap_def)
  with add [OF demo_addable(1), of 3] obtain s1 where
    s1: "hash_add_int demo_env None 3 demo_uheap = Inr (Some 3, s1)" "same_store demo_uheap s1" "ut_rep s1 (Some 3) [3]"
    by (auto simp: tbl_of_def)
  have "num_buckets t < 2 ^ 31" if "tbl_of s1 (Some 3) = Inr (ta, t)" for ta t
    using first_add_buckets [OF s1(1) _ that] by (simp add: demo_uheap_def word_less_nat_alt)
  moreover have "4 \<in> dom (items s1)" "4 < tick s1" "ukey s1 4 \<notin> ukey s1 ` set [3]"
    using u keys same_storeD [OF s1(2)] by auto
  ultimately obtain s2 where
    s2: "hash_add_int demo_env (Some 3) 4 s1 = Inr (Some 3, s2)" "same_store s1 s2" "ut_rep s2 (Some 3) [3, 4]"
    using add [OF s1(3), of 4] by auto
  moreover have "held s2 = held demo_uheap" using s1(2) s2(2) by (simp add: same_store_def)
  ultimately show ?thesis using s1(1) by (auto simp: two_items_def)
qed

theorem hash_srt_refines_witness:
  "\<exists>head s head' s'. two_items = Inr (head, s) \<and> hash_srt by_id_down head s = Inr (head', s') \<and>
     ut_rep s' head' [4, 3] \<and> hash_fsck s' head' = Inr ()"
proof -
  from two_items_rep obtain head s where
    s: "two_items = Inr (head, s)" "ut_rep s head [3, 4]" "held s = held demo_uheap" by blast
  have "by_id_down x y \<le> 0 \<longleftrightarrow> - fst x \<le> - fst y" for x y by (simp add: by_id_down_def)
  from hash_srt_refines [where c = by_id_down and f = "\<lambda>x. - fst x", OF s(2) _ this] obtain head' s' where
    "hash_srt by_id_down head s = Inr (head', s')" "ut_rep s' head' (sort_key (\<lambda>a. - fst (the (held s a))) [3, 4])"
    "hash_fsck s' head' = Inr ()" by (simp del: sort_key_simps) blast
  moreover have "sort_key (\<lambda>a. - fst (the (held s a))) [3, 4] = [4, 3 :: addr]"
    by (simp add: s(3) held_def demo_uheap_def plain_item_def)
  ultimately show ?thesis using s(1) by auto
qed

end
