(* ===== verification/Hash_Inorder.thy ===== *)
theory Hash_Inorder
  imports Hash_Sort
begin

text \<open>
  The macros of \<^verbatim>\<open>uthash.h\<close> beyond those the program's dictionary uses: insertion in order, replacement,
  iteration, clearing and counting, again with the \<open>int\<close> keys of the items.
\<close>

section \<open>Insertion in order\<close>

text \<open>\<open>HASH_AKBI_INNER_LOOP\<close>: the first item that is greater than \<open>a\<close>, NULL when there is none.\<close>

fun akbi_loop :: "item_cmp \<Rightarrow> addr \<Rightarrow> nat \<Rightarrow> addr option \<Rightarrow> 'a uheap_scheme \<Rightarrow> addr option res" where
  "akbi_loop c a 0 it s = Inl Diverge"
| "akbi_loop c a (Suc n) it s =
     andThen (hash_cmp c s it (Some a)) (\<lambda>d.
       if 0 < d then Inr it
       else andThen (deref (items s) it) (\<lambda>(_, i).
         if h_next (i_hh i) = None then Inr None else akbi_loop c a n (h_next (i_hh i)) s))"

text \<open>The item \<open>a\<close> is linked in front of \<open>it\<close>, or at the end.\<close>

definition akbi_link ::
  "addr option \<Rightarrow> addr \<Rightarrow> addr option \<Rightarrow> 'a uheap_scheme \<Rightarrow> (addr option \<times> 'a uheap_scheme) res" where
  "akbi_link head a it s =
     (if it = None then andThen (hash_append_list head a s) (\<lambda>s. Inr (head, s))
      else
        andThen (modify_hh (Some a) (\<lambda>h. h\<lparr>h_next := it\<rparr>) s) (\<lambda>s.
        andThen (deref (items s) it) (\<lambda>(_, i).
        let p = h_prev (i_hh i) in
        andThen (modify_hh (Some a) (\<lambda>h. h\<lparr>h_prev := p\<rparr>) s) (\<lambda>s.
        andThen (if p = None then Inr (Some a, s)
                 else andThen (modify_hh p (\<lambda>h. h\<lparr>h_next := Some a\<rparr>) s) (\<lambda>s. Inr (head, s))) (\<lambda>(head, s).
        andThen (modify_hh it (\<lambda>h. h\<lparr>h_prev := Some a\<rparr>) s) (\<lambda>s. Inr (head, s)))))))"

text \<open>\<open>HASH_ADD_INORDER\<close>, that is \<open>HASH_ADD_KEYPTR_BYHASHVALUE_INORDER\<close>.\<close>

definition hash_add_inorder ::
  "env \<Rightarrow> item_cmp \<Rightarrow> addr option \<Rightarrow> addr \<Rightarrow> 'a uheap_scheme \<Rightarrow> (addr option \<times> 'a uheap_scheme) res" where
  "hash_add_inorder E c head a s =
     andThen (deref (items s) (Some a)) (\<lambda>(a, i).
       let hashv = hash_jen (int_bytes (i_id i)) in
       andThen (modify_hh (Some a) (\<lambda>h. h\<lparr>h_hashv := hashv, h_key := Some a, h_keylen := 4\<rparr>) s) (\<lambda>s.
       andThen (if head = None
                then andThen (modify_hh (Some a) (\<lambda>h. h\<lparr>h_next := None, h_prev := None\<rparr>) s) (\<lambda>s.
                     andThen (hash_make_table E a s) (\<lambda>s. Inr (Some a, s)))
                else andThen (tbl_of s head) (\<lambda>(ta, t).
                     andThen (modify_hh (Some a) (\<lambda>h. h\<lparr>h_tbl := Some ta\<rparr>) s) (\<lambda>s.
                     andThen (akbi_loop c a (Suc (tick s)) head s) (\<lambda>it.
                       akbi_link head a it s)))) (\<lambda>(head, s).
         andThen (hash_add_to_table E head hashv a s) (\<lambda>s. Inr (head, s)))))"

section \<open>Replacement, iteration, clearing, counting\<close>

text \<open>\<open>HASH_REPLACE\<close> and \<open>HASH_REPLACE_INORDER\<close>: what was replaced, the new head and the heap.\<close>

definition hash_replace ::
  "env \<Rightarrow> addr option \<Rightarrow> addr \<Rightarrow> 'a uheap_scheme \<Rightarrow> (addr option \<times> addr option \<times> 'a uheap_scheme) res" where
  "hash_replace E head a s =
     andThen (deref (items s) (Some a)) (\<lambda>(a, i).
     andThen (hash_find_int s head (i_id i)) (\<lambda>replaced.
     andThen (case replaced of None \<Rightarrow> Inr (head, s) | Some d \<Rightarrow> hash_delete head d s) (\<lambda>(head, s).
     andThen (hash_add_int E head a s) (\<lambda>(head, s). Inr (replaced, head, s)))))"

definition hash_replace_inorder ::
  "env \<Rightarrow> item_cmp \<Rightarrow> addr option \<Rightarrow> addr \<Rightarrow> 'a uheap_scheme \<Rightarrow>
   (addr option \<times> addr option \<times> 'a uheap_scheme) res" where
  "hash_replace_inorder E c head a s =
     andThen (deref (items s) (Some a)) (\<lambda>(a, i).
     andThen (hash_find_int s head (i_id i)) (\<lambda>replaced.
     andThen (case replaced of None \<Rightarrow> Inr (head, s) | Some d \<Rightarrow> hash_delete head d s) (\<lambda>(head, s).
     andThen (hash_add_inorder E c head a s) (\<lambda>(head, s). Inr (replaced, head, s)))))"

text \<open>
  \<open>HASH_ITER\<close>: the next item is read before the body runs, which may delete and free the current one
  and change the head.
\<close>

fun iter_loop :: "(addr \<Rightarrow> addr option \<times> 'a uheap_scheme \<Rightarrow> (addr option \<times> 'a uheap_scheme) res) \<Rightarrow> nat \<Rightarrow>
    addr option \<Rightarrow> addr option \<times> 'a uheap_scheme \<Rightarrow> (addr option \<times> 'a uheap_scheme) res" where
  "iter_loop body n None hs = Inr hs"
| "iter_loop body 0 (Some el) hs = Inl Diverge"
| "iter_loop body (Suc n) (Some el) hs =
     andThen (deref (items (snd hs)) (Some el)) (\<lambda>(_, i).
     andThen (body el hs) (iter_loop body n (h_next (i_hh i))))"

definition hash_iter :: "(addr \<Rightarrow> addr option \<times> 'a uheap_scheme \<Rightarrow> (addr option \<times> 'a uheap_scheme) res) \<Rightarrow>
    addr option \<Rightarrow> 'a uheap_scheme \<Rightarrow> (addr option \<times> 'a uheap_scheme) res" where
  "hash_iter body head s = iter_loop body (tick s) head (head, s)"

text \<open>\<open>HASH_CLEAR\<close>\<close>

definition hash_clear :: "addr option \<Rightarrow> 'a uheap_scheme \<Rightarrow> (addr option \<times> 'a uheap_scheme) res" where
  "hash_clear head s =
     (if head \<noteq> None then andThen (tbl_of s head) (\<lambda>(ta, t). Inr (None, s\<lparr>tbls := (tbls s)(ta := None)\<rparr>))
      else Inr (head, s))"

text \<open>\<open>HASH_COUNT\<close>\<close>

definition hash_count :: "addr option \<Rightarrow> 'a uheap_scheme \<Rightarrow> u32 res" where
  "hash_count head s =
     (if head \<noteq> None then andThen (tbl_of s head) (\<lambda>(ta, t). Inr (num_items t)) else Inr 0)"

section \<open>Insertion in order is correct\<close>

text \<open>What an item is to the user's comparison.\<close>

lemma hash_cmp_held:
  "a \<in> dom (items s) \<Longrightarrow> b \<in> dom (items s) \<Longrightarrow>
   hash_cmp c s (Some a) (Some b) = Inr (c (the (held s a)) (the (held s b)))"
  by (auto simp: hash_cmp_def held_def)

lemma akbi_loop_ok:
  assumes "dseg (prv s) (nxt s) p xs None" "xs \<noteq> []" "set xs \<subseteq> dom (items s)" "a \<in> dom (items s)" "length xs < n"
  shows "akbi_loop c a n (head_or xs None) s =
    Inr (head_or (dropWhile (\<lambda>x. c (the (held s x)) (the (held s a)) \<le> 0) xs) None)"
  using assms
proof (induction xs arbitrary: p n)
  case (Cons x xs)
  then obtain m i where n: "n = Suc m" "length xs < m" and i: "items s x = Some i" by (cases n) auto
  have "h_next (i_hh i) = head_or xs None" using Cons.prems(1) by (simp add: nxt_def hf_def i)
  with Cons.IH [of "Some x" m] Cons.prems n i hash_cmp_held [of x s a c] show ?case
    by (cases "xs = []") (auto simp: not_le)
qed simp

declare akbi_loop.simps(2) [simp del]

text \<open>The item goes in front of the first greater one.\<close>

definition ahead :: "item_cmp \<Rightarrow> 'a uheap_scheme \<Rightarrow> addr \<Rightarrow> addr \<Rightarrow> bool" where
  "ahead c s a x \<longleftrightarrow> c (the (held s x)) (the (held s a)) \<le> 0"

definition put_in_order :: "item_cmp \<Rightarrow> 'a uheap_scheme \<Rightarrow> addr \<Rightarrow> addr list \<Rightarrow> addr list" where
  "put_in_order c s a as = takeWhile (ahead c s a) as @ a # dropWhile (ahead c s a) as"

lemma in_order_sel [simp]:
  "set (put_in_order c s a as) = insert a (set as)" "length (put_in_order c s a as) = Suc (length as)" "put_in_order c s a as \<noteq> []"
proof -
  have "takeWhile (ahead c s a) as @ dropWhile (ahead c s a) as = as" by simp
  then have "set as = set (takeWhile (ahead c s a) as) \<union> set (dropWhile (ahead c s a) as)"
    "length as = length (takeWhile (ahead c s a) as) + length (dropWhile (ahead c s a) as)"
    by (metis set_append, metis length_append)
  then show "set (put_in_order c s a as) = insert a (set as)" "length (put_in_order c s a as) = Suc (length as)"
    by (auto simp: put_in_order_def simp del: takeWhile_dropWhile_id)
qed (simp add: put_in_order_def)

lemma in_order_distinct: "distinct (put_in_order c s a as) \<longleftrightarrow> distinct as \<and> a \<notin> set as"
proof -
  have "distinct (put_in_order c s a as) \<longleftrightarrow>
      distinct (takeWhile (ahead c s a) as @ dropWhile (ahead c s a) as) \<and>
      a \<notin> set (takeWhile (ahead c s a) as @ dropWhile (ahead c s a) as)"
    unfolding put_in_order_def by (auto simp del: takeWhile_dropWhile_id)
  then show ?thesis by simp
qed

lemma in_order_cong: "held s' = held s \<Longrightarrow> put_in_order c s' a as = put_in_order c s a as"
  by (simp add: put_in_order_def ahead_def cong: takeWhile_cong dropWhile_cong)

lemma in_order_Cons: "put_in_order c s a (x # as) = (if ahead c s a x then x # put_in_order c s a as else a # x # as)"
  by (simp add: put_in_order_def)

text \<open>On items that are sorted by a key, the result is sorted; equal ones stay in front of the new one.\<close>

lemma in_order_sorted:
  fixes f :: "int \<times> addr option \<Rightarrow> 'k::linorder"
  assumes "\<And>x y. c x y \<le> 0 \<longleftrightarrow> f x \<le> f y" "sorted (map (\<lambda>x. f (the (held s x))) as)"
  shows "sorted (map (\<lambda>x. f (the (held s x))) (put_in_order c s a as))"
  using assms(2)
proof (induction as)
  case (Cons x as)
  then show ?case
    by (auto simp: in_order_Cons ahead_def assms(1))
qed (simp add: put_in_order_def)

lemma akbi_link_ok:
  assumes t: "tbls s ta = Some t" and l: "listed s ta t (us @ y # vs)"
    and a: "keyed s ta a" "a \<notin> set (us @ y # vs)" "ukey s a \<notin> ukey s ` set (us @ y # vs)"
  shows "\<exists>s'. akbi_link (head_or (us @ y # vs) None) a (Some y) s = Inr (head_or (us @ a # y # vs) None, s') \<and>
    same_store s s' \<and> tbls s' = tbls s \<and> listed s' ta t (us @ a # y # vs) \<and>
    cprv s' = cprv s \<and> cnxt s' = cnxt s \<and> hmeta s' = hmeta s"
proof -
  note d = listedD [OF l]
  note ins = dseg_insert [OF d(5,2) a(2)]
  have ad: "a \<in> dom (items s)" "y \<in> dom (items s)" using a(1) d(7) by (simp_all add: keyed_def)
  have ya: "y \<noteq> a" using a(2) by auto
  have p: "set_option (prv s y) \<subseteq> dom (items s)" using ins(2) d(7) by (cases us rule: rev_cases) auto
  let ?s1 = "upd_opt (Some a) (\<lambda>h. h\<lparr>h_next := Some y\<rparr>) s"
  let ?s2 = "upd_opt (Some a) (\<lambda>h. h\<lparr>h_prev := prv s y\<rparr>) ?s1"
  let ?s3 = "upd_opt (prv s y) (\<lambda>h. h\<lparr>h_next := Some a\<rparr>) ?s2"
  let ?s4 = "upd_opt (Some y) (\<lambda>h. h\<lparr>h_prev := Some a\<rparr>) ?s3"
  obtain i where i: "items ?s1 y = Some i" using ad(2) by (metis domD upd_opt_sel(7))
  have "prv ?s1 y = h_prev (i_hh i)" by (simp only: prv_def hf_def i option.sel)
  then have pi: "h_prev (i_hh i) = prv s y" by simp
  have hd: "(if prv s y = None then Inr (Some a, ?s2)
      else andThen (modify_hh (prv s y) (\<lambda>h. h\<lparr>h_next := Some a\<rparr>) ?s2) (\<lambda>s'. Inr (head_or (us @ y # vs) None, s')))
      = Inr (head_or (us @ a # y # vs) None, ?s3)"
  proof (cases "prv s y")
    case None
    with ins(2) show ?thesis by (cases us) (simp_all add: upd_opt_def [of None])
  next
    case (Some x)
    with p have "x \<in> dom (items ?s2)" by simp
    with ins(2) Some show ?thesis by (cases us) (simp_all add: modify_hh_eq)
  qed
  have link: "akbi_link (head_or (us @ y # vs) None) a (Some y) s = Inr (head_or (us @ a # y # vs) None, ?s4)"
    using ad modify_hh_eq [of a s] modify_hh_eq [of a ?s1] modify_hh_eq [of y ?s3] hd i pi
    by (simp add: akbi_link_def Let_def cong del: if_weak_cong)
  have links: "prv ?s4 = (prv s)(a := prv s y, y := Some a)" "nxt ?s4 = put ((nxt s)(a := Some y)) (prv s y) (Some a)"
    "cprv ?s4 = cprv s" "cnxt ?s4 = cnxt s" "hmeta ?s4 = hmeta s"
    using ad p by (simp_all add: link_updates)
  have "listed ?s4 ta t (us @ a # y # vs)"
    unfolding listed_def
  proof (intro conjI ballI)
    show "keyed ?s4 ta x" if "x \<in> set (us @ a # y # vs)" for x
      by (rule keyed_cong [of _ s]) (use links that a(1) d(4) in auto)
    show "inj_on (ukey ?s4) (set (us @ a # y # vs))" using d(3) a(3) by auto
    show "dseg (prv ?s4) (nxt ?s4) None (us @ a # y # vs) None" unfolding links by (rule ins(1))
  qed (use d(2,6) a(2) in auto)
  with link links show ?thesis by (intro exI [of _ ?s4]) simp
qed

text \<open>Both ways of linking the new item in, after the search for its place.\<close>

lemma akbi_place_ok:
  assumes t: "tbls s ta = Some t" and l: "listed s ta t as"
    and a: "keyed s ta a" "a \<notin> set as" "ukey s a \<notin> ukey s ` set as"
  shows "\<exists>s' t'. andThen (akbi_loop c a (Suc (tick s)) (head_or as None) s) (\<lambda>it. akbi_link (head_or as None) a it s)
      = Inr (head_or (put_in_order c s a as) None, s') \<and>
    same_store s s' \<and> tbls s' ta = Some t' \<and> t' = t\<lparr>t_tail := t_tail t'\<rparr> \<and> listed s' ta t' (put_in_order c s a as) \<and>
    cprv s' = cprv s \<and> cnxt s' = cnxt s \<and> hmeta s' = hmeta s"
proof -
  note d = listedD [OF l]
  have "length as \<le> tick s" by (rule distinct_below [OF d(2)]) (use d(4) in \<open>auto simp: keyed_def\<close>)
  then have lp: "akbi_loop c a (Suc (tick s)) (head_or as None) s = Inr (head_or (dropWhile (ahead c s a) as) None)"
    using akbi_loop_ok [OF d(5,1), of a "Suc (tick s)" c] d(7) a(1) by (auto simp: keyed_def ahead_def [abs_def])
  show ?thesis
  proof (cases "dropWhile (ahead c s a) as")
    case Nil
    moreover from this have "takeWhile (ahead c s a) as = as" by (metis append_Nil2 takeWhile_dropWhile_id)
    ultimately have pl: "put_in_order c s a as = as @ [a]" by (simp add: put_in_order_def)
    from append_list_ok [OF t l a] lp Nil d(1) show ?thesis by (auto simp: akbi_link_def pl)
  next
    case (Cons y vs)
    let ?us = "takeWhile (ahead c s a) as"
    have as: "as = ?us @ y # vs" using Cons by (metis takeWhile_dropWhile_id)
    have pl: "put_in_order c s a as = ?us @ a # y # vs" by (simp add: put_in_order_def Cons)
    from akbi_link_ok [OF t, of ?us y vs a] l a as obtain s' where
      "akbi_link (head_or as None) a (Some y) s = Inr (head_or (?us @ a # y # vs) None, s')" "same_store s s'"
      "tbls s' = tbls s" "listed s' ta t (?us @ a # y # vs)" "cprv s' = cprv s" "cnxt s' = cnxt s" "hmeta s' = hmeta s"
      by (metis (no_types, lifting))
    with lp Cons t show ?thesis unfolding pl by (intro exI [of _ s'] exI [of _ t]) simp
  qed
qed

lemma hash_add_inorder_ok:
  fixes c :: item_cmp
  assumes rep: "ut_rep s head as" and a: "a \<in> dom (items s)" "a < tick s" "a \<notin> set as" "ukey s a \<notin> ukey s ` set as"
    and mem: "\<And>n. e_malloc E n" and small: "\<And>ta t. tbl_of s head = Inr (ta, t) \<Longrightarrow> num_buckets t < 2 ^ 31"
  defines "bs \<equiv> put_in_order c s a as"
  shows "\<exists>s'. hash_add_inorder E c head a s = Inr (head_or bs None, s') \<and> same_store s s' \<and> ut_rep s' (head_or bs None) bs"
proof -
  let ?h = "hash_jen (ukey s a)" and ?f = "\<lambda>x. x\<lparr>h_hashv := hash_jen (ukey s a), h_key := Some a, h_keylen := 4\<rparr>"
  let ?s1 = "key_item a ?h s"
  from a(1) obtain i where i: "items s a = Some i" by blast
  have h: "hash_jen (int_bytes (i_id i)) = ?h" by (simp add: ukey_def i)
  have mod1: "modify_hh (Some a) ?f s = Inr ?s1" unfolding key_item_def by (rule modify_hh_eq [OF a(1)])
  show ?thesis
  proof (cases "as = []")
    case True
    with rep have head: "head = None" by (simp add: ut_rep_def)
    have bs: "bs = [a]" by (simp add: bs_def put_in_order_def True)
    from first_item_ok [OF a(1,2) mem] obtain s2 s3 s' where
      s': "modify_hh (Some a) (\<lambda>h. h\<lparr>h_next := None, h_prev := None\<rparr>) ?s1 = Inr s2" "hash_make_table E a s2 = Inr s3"
        "hash_add_to_table E (Some a) ?h a s3 = Inr s'" "same_store s s'" "ut_rep s' (Some a) [a]" by blast
    then have "hash_add_inorder E c head a s = Inr (Some a, s')"
      using i mod1 by (simp add: hash_add_inorder_def h head Let_def)
    with s' show ?thesis by (simp add: bs)
  next
    case False
    with rep obtain ta t where t: "head = head_or as None" "tbls s ta = Some t" "listed s ta t as"
      "bucketed s t (set as)" "num_items t = of_nat (length as)" by (auto simp: ut_rep_def)
    let ?s2 = "own_item a ta ?s1"
    have ne: "x \<noteq> a" if "x \<in> set as" for x using that a(3) by blast
    have l1: "listed ?s1 ta t as"
      by (rule listed_cong [OF t(3)]) (use ne in \<open>simp_all add: key_item_fields\<close>)
    have l2: "listed ?s2 ta t as"
      by (rule listed_cong [OF t(3)]) (use ne in \<open>simp_all add: key_item_fields\<close>)
    have tb: "tbls ?s1 ta = Some t" "tbls ?s2 ta = Some t" using t(2) by simp_all
    have key: "keyed ?s2 ta a" using a(1,2) by (simp add: keyed_def key_item_meta)
    have pl: "put_in_order c ?s2 a as = bs" unfolding bs_def by (rule in_order_cong) simp
    from akbi_place_ok [OF tb(2) l2 key a(3), of c] a(4) obtain s3 t3 where
      r: "andThen (akbi_loop c a (Suc (tick s)) head ?s2) (\<lambda>it. akbi_link head a it ?s2) = Inr (head_or bs None, s3)"
        "same_store ?s2 s3" "tbls s3 ta = Some t3" "t3 = t\<lparr>t_tail := t_tail t3\<rparr>" "listed s3 ta t3 bs"
        "cprv s3 = cprv ?s2" "cnxt s3 = cnxt ?s2" "hmeta s3 = hmeta ?s2" unfolding t(1) pl by auto
    from r(4) obtain v where t3: "t3 = t\<lparr>t_tail := v\<rparr>" by blast
    have rest: "set bs - {a} = set as" using ne by (auto simp: bs_def)
    have bu: "bucketed s3 t3 (set bs - {a})" unfolding rest
      by (rule bucketed_cong [OF t(4)]) (use r(6-8) ne t3 in \<open>simp_all add: key_item_fields\<close>)
    have mod2: "modify_hh (Some a) (\<lambda>h. h\<lparr>h_tbl := Some ta\<rparr>) ?s1 = Inr ?s2"
      unfolding own_item_def by (rule modify_hh_eq) (use a(1) in simp)
    have "num_buckets t < 2 ^ 31" using small [of ta t] tbl_of_listed [OF t(3,2)] t(1) by simp
    then have "num_buckets t3 < 2 ^ 31" "num_items t3 + 1 = of_nat (length bs)" "a \<in> set bs"
      using t3 t(5) by (simp_all add: bs_def)
    from add_to_table_ok [OF r(3,5) this(3) bu this(2) mem this(1)] obtain s' where
      s': "hash_add_to_table E (head_or bs None) (hash_jen (ukey s3 a)) a s3 = Inr s'" "same_store s3 s'"
        "ut_rep s' (head_or bs None) bs" by blast
    have uk: "ukey s3 a = ukey s a" using same_storeD(2) [OF r(2)] by simp
    have "same_store s ?s2" by simp
    from same_store_trans [OF same_store_trans [OF this r(2)] s'(2)] have st: "same_store s s'" .
    have "head \<noteq> None" using t(1) False by simp
    then have "hash_add_inorder E c head a s =
        andThen (hash_add_to_table E (head_or bs None) ?h a s3) (\<lambda>s. Inr (head_or bs None, s))"
      using i mod1 mod2 r(1) tbl_of_listed [OF l1 tb(1)] by (simp add: hash_add_inorder_def h t(1) Let_def)
    with s' st uk show ?thesis by simp
  qed
qed

lemma find_snoc:
  assumes "ut_rep s' h' bs" "ut_rep s h as" "set bs = insert a (set as)" "ukey s' = ukey s" "a \<notin> set as"
  shows "hash_find_int s' h' n = (if ukey s a = int_bytes n then Inr (Some a) else hash_find_int s h n)"
proof -
  have inj: "inj_on (ukey s) (set bs)" using ut.keys_distinct [OF assms(1)] assms(4) by simp
  have "List.find (\<lambda>x. ukey s x = int_bytes n) bs = List.find (\<lambda>x. ukey s x = int_bytes n) (a # as)"
    by (rule find_unique [OF inj]) (auto simp: assms(3))
  then show ?thesis by (simp add: ut_find [OF assms(1)] ut_find [OF assms(2)] assms(4))
qed

section \<open>Replacement\<close>

definition small_tables :: "'a uheap_scheme \<Rightarrow> bool" where
  "small_tables s \<longleftrightarrow> (\<forall>ta t. tbls s ta = Some t \<longrightarrow> num_buckets t < 2 ^ 31)"

lemma small_tables_upd:
  "modify_hh p f s = Inr s' \<Longrightarrow> small_tables s' = small_tables s"
  "small_tables s \<Longrightarrow> num_buckets t < 2 ^ 31 \<Longrightarrow> small_tables (set_tbl ta t s)"
  by (auto simp: small_tables_def dest: modify_hh_tbls)

lemma tbl_of_tbls: "tbl_of s h = Inr (ta, t) \<Longrightarrow> tbls s ta = Some t"
  by (auto simp: tbl_of_def res_simps)

lemma small_tablesD: "small_tables s \<Longrightarrow> tbl_of s h = Inr (ta, t) \<Longrightarrow> num_buckets t < 2 ^ 31"
  by (auto simp: small_tables_def dest: tbl_of_tbls)

lemma small_set_bucket:
  "small_tables s \<Longrightarrow> tbls s ta = Some t \<Longrightarrow> small_tables (set_bucket ta t b bk s)"
  by (auto simp: set_bucket_def small_tables_def)

lemma del_in_bkt_small:
  assumes "del_in_bkt ta b d s = Inr s'" "small_tables s"
  shows "small_tables s'"
  using assms
  by (auto simp: del_in_bkt_def Let_def res_simps small_set_bucket split: if_splits dest!: small_tables_upd(1))

lemma hash_delete_small:
  assumes "hash_delete head d s = Inr (h', s')" "small_tables s"
  shows "small_tables s'"
proof -
  from assms(1) obtain i where i: "items s d = Some i"
    by (auto simp: hash_delete_def res_simps)
  let ?p = "h_prev (i_hh i)" and ?n = "h_next (i_hh i)"
  show ?thesis
  proof (cases "?p = None \<and> ?n = None")
    case True
    with assms i show ?thesis by (auto simp: hash_delete_def res_simps small_tables_def split: if_splits)
  next
    case False
    let ?s1 = "\<lambda>ta t. if t_tail t = Some d then set_tbl ta (t\<lparr>t_tail := ?p\<rparr>) s else s"
    from assms(1) obtain ta t h2 s2 s3 ta3 t3 s4 ta4 t4 where
      t: "tbl_of s head = Inr (ta, t)" and
      h: "(if ?p \<noteq> None then andThen (modify_hh ?p (\<lambda>h. h\<lparr>h_next := ?n\<rparr>) (?s1 ta t)) (\<lambda>s. Inr (head, s))
           else Inr (?n, ?s1 ta t)) = Inr (h2, s2)" and
      n: "(if ?n \<noteq> None then modify_hh ?n (\<lambda>h. h\<lparr>h_prev := ?p\<rparr>) s2 else Inr s2) = Inr s3" and
      u: "tbl_of s3 h2 = Inr (ta3, t3)" and
      d: "del_in_bkt ta3 (hash_to_bkt (h_hashv (i_hh i)) (num_buckets t3)) d s3 = Inr s4" and
      e: "tbl_of s4 h2 = Inr (ta4, t4)" "set_tbl ta4 (t4\<lparr>num_items := num_items t4 - 1\<rparr>) s4 = s'"
      unfolding hash_delete_def Let_def deref_Some [of "items s" d, OF i] andThen_Inr prod.case if_not_P [OF False]
        andThen_eq_Inr split_paired_Ex sum.inject prod.inject by (elim exE conjE) (rule that)
    have "small_tables (?s1 ta t)" using small_tables_upd(2) [OF assms(2), of "t\<lparr>t_tail := ?p\<rparr>" ta] small_tablesD [OF assms(2) t] assms(2) by simp
    with h have "small_tables s2" by (auto simp: res_simps split: if_splits dest!: small_tables_upd(1))
    with n have "small_tables s3" by (auto split: if_splits dest!: small_tables_upd(1))
    with d have "small_tables s4" by (rule del_in_bkt_small)
    then show ?thesis
      unfolding e(2) [symmetric] by (rule small_tables_upd(2)) (use small_tablesD [OF _ e(1)] \<open>small_tables s4\<close> in simp)
  qed
qed

text \<open>What replacing asks for: an item that is not in the table, memory, and fewer than 2^31 buckets.\<close>

definition replacer :: "env \<Rightarrow> 'a uheap_scheme \<Rightarrow> addr list \<Rightarrow> addr \<Rightarrow> bool" where
  "replacer E s as a \<longleftrightarrow> a \<in> dom (items s) \<and> a < tick s \<and> a \<notin> set as \<and> (\<forall>n. e_malloc E n) \<and> small_tables s"

text \<open>After the first half, the table has no item with the key of the new one.\<close>

lemma replace_clear_ok:
  assumes rep: "ut_rep s head as" and a: "replacer E s as a" and i: "items s a = Some i"
  defines "bs \<equiv> filter (\<lambda>x. ukey s x \<noteq> ukey s a) as" and "r \<equiv> List.find (\<lambda>x. ukey s x = ukey s a) as"
  shows "\<exists>s'. hash_find_int s head (i_id i) = Inr r \<and>
    (case r of None \<Rightarrow> Inr (head, s) | Some d \<Rightarrow> hash_delete head d s) = Inr (head_or bs None, s') \<and>
    ut_rep s' (head_or bs None) bs \<and> same_store s s' \<and> replacer E s' bs a \<and> ukey s' a \<notin> ukey s' ` set bs"
proof -
  have uk: "int_bytes (i_id i) = ukey s a" by (simp add: ukey_def i)
  have find: "hash_find_int s head (i_id i) = Inr r" using ut_find [OF rep] by (simp add: r_def uk)
  show ?thesis
  proof (cases r)
    case None
    then have none: "ukey s x \<noteq> ukey s a" if "x \<in> set as" for x using that by (auto simp: r_def find_None_iff)
    then have "bs = as" by (simp add: bs_def)
    moreover from rep have "head = head_or as None" by (simp add: ut_rep_def)
    moreover from none have "ukey s a \<notin> ukey s ` set as" by (metis imageE)
    ultimately show ?thesis using find None rep a by simp
  next
    case (Some d)
    then have d: "d \<in> set as" "ukey s d = ukey s a" by (auto simp: r_def find_Some_iff)
    then obtain us vs where as: "as = us @ d # vs" by (meson split_list)
    have inj: "inj_on (ukey s) (set as)" "distinct as" using ut.keys_distinct [OF rep] by simp_all
    then have "ukey s x \<noteq> ukey s a" if "x \<in> set (us @ vs)" for x
      using that d by (auto simp: as inj_on_def)
    then have bs: "bs = us @ vs" by (auto simp: bs_def as d(2))
    from hash_delete_ok [OF rep [unfolded as]] obtain s' where
      s': "hash_delete head d s = Inr (head_or bs None, s')" "same_store s s'" "tick s' = tick s"
        "ut_rep s' (head_or bs None) bs" unfolding bs by blast
    moreover have "replacer E s' bs a"
      using a s'(3) same_storeD(1) [OF s'(2)] hash_delete_small [OF s'(1)] by (auto simp: replacer_def bs as)
    moreover have "ukey s' a \<notin> ukey s' ` set bs" using same_storeD(2) [OF s'(2)] by (auto simp: bs_def)
    ultimately show ?thesis using find Some by auto
  qed
qed

lemma hash_replace_ok:
  fixes c :: item_cmp
  assumes rep: "ut_rep s head as" and a: "replacer E s as a"
  defines "bs \<equiv> filter (\<lambda>x. ukey s x \<noteq> ukey s a) as" and "r \<equiv> List.find (\<lambda>x. ukey s x = ukey s a) as"
  shows "\<exists>s'. hash_replace E head a s = Inr (r, head_or (bs @ [a]) None, s') \<and> same_store s s' \<and>
      ut_rep s' (head_or (bs @ [a]) None) (bs @ [a])"
    and "\<exists>s'. hash_replace_inorder E c head a s = Inr (r, head_or (put_in_order c s a bs) None, s') \<and> same_store s s' \<and>
      ut_rep s' (head_or (put_in_order c s a bs) None) (put_in_order c s a bs)"
proof -
  from a obtain i where i: "items s a = Some i" by (auto simp: replacer_def)
  from replace_clear_ok [OF rep a i] obtain s1 where
    1: "hash_find_int s head (i_id i) = Inr r" 
      "(case r of None \<Rightarrow> Inr (head, s) | Some d \<Rightarrow> hash_delete head d s) = Inr (head_or bs None, s1)"
      "ut_rep s1 (head_or bs None) bs" "same_store s s1" "replacer E s1 bs a" "ukey s1 a \<notin> ukey s1 ` set bs"
    unfolding bs_def r_def by blast
  have a1: "a \<in> dom (items s1)" "a < tick s1" "a \<notin> set bs" "\<And>n. e_malloc E n" using 1(5) by (auto simp: replacer_def)
  have small: "num_buckets t < 2 ^ 31" if "tbl_of s1 (head_or bs None) = Inr (ta, t)" for ta t
    by (rule small_tablesD [OF _ that]) (use 1(5) in \<open>simp add: replacer_def\<close>)
  from hash_add_ok [OF 1(3) a1(1-3) 1(6) a1(4)] small obtain s' where
    "hash_add_int E (head_or bs None) a s1 = Inr (head_or (bs @ [a]) None, s')" "same_store s1 s'"
    "ut_rep s' (head_or (bs @ [a]) None) (bs @ [a])" by blast
  with 1 i show "\<exists>s'. hash_replace E head a s = Inr (r, head_or (bs @ [a]) None, s') \<and> same_store s s' \<and>
      ut_rep s' (head_or (bs @ [a]) None) (bs @ [a])"
    by (auto simp: hash_replace_def intro: same_store_trans)
  have "held s1 = held s" using 1(4) by (simp add: same_store_def)
  note pl = in_order_cong [OF this, of c a bs]
  from hash_add_inorder_ok [OF 1(3) a1(1-3) 1(6) a1(4), of c] small obtain s' where
    "hash_add_inorder E c (head_or bs None) a s1 = Inr (head_or (put_in_order c s a bs) None, s')" "same_store s1 s'"
    "ut_rep s' (head_or (put_in_order c s a bs) None) (put_in_order c s a bs)" unfolding pl by blast
  with 1 i show "\<exists>s'. hash_replace_inorder E c head a s = Inr (r, head_or (put_in_order c s a bs) None, s') \<and> same_store s s' \<and>
      ut_rep s' (head_or (put_in_order c s a bs) None) (put_in_order c s a bs)"
    by (auto simp: hash_replace_inorder_def intro: same_store_trans)
qed

section \<open>Counting, clearing\<close>

lemma hash_count_ok:
  assumes "ut_rep s head as"
  shows "hash_count head s = Inr (of_nat (length as))"
proof (cases "as = []")
  case False
  with assms obtain ta t where t: "head = head_or as None" "tbls s ta = Some t" "listed s ta t as"
    "num_items t = of_nat (length as)" by (auto simp: ut_rep_def)
  with tbl_of_listed [OF t(3,2)] False show ?thesis by (simp add: hash_count_def)
qed (use assms in \<open>simp add: ut_rep_def hash_count_def\<close>)

text \<open>Clearing frees the table and leaves the items as they are.\<close>

lemma hash_clear_ok:
  assumes "ut_rep s head as"
  shows "\<exists>s'. hash_clear head s = Inr (None, s') \<and> ut_rep s' None [] \<and> items s' = items s \<and>
    (as \<noteq> [] \<longrightarrow> (\<exists>ta. tbl_of s head = Inr (ta, the (tbls s ta)) \<and> tbls s' = (tbls s)(ta := None)))"
proof (cases "as = []")
  case False
  with assms obtain ta t where t: "head = head_or as None" "tbls s ta = Some t" "listed s ta t as"
    by (auto simp: ut_rep_def)
  with tbl_of_listed [OF t(3,2)] False show ?thesis
    by (intro exI [of _ "s\<lparr>tbls := (tbls s)(ta := None)\<rparr>"]) (auto simp: hash_clear_def ut_rep_def)
qed (use assms in \<open>auto simp: ut_rep_def hash_clear_def\<close>)

section \<open>Iteration\<close>

text \<open>A table does not depend on the items that are not in it.\<close>

definition free_item :: "addr \<Rightarrow> 'a uheap_scheme \<Rightarrow> 'a uheap_scheme" where
  "free_item a s = s\<lparr>items := (items s)(a := None)\<rparr>"

lemma free_item_sel [simp]:
  "tick (free_item a s) = tick s" "tbls (free_item a s) = tbls s" "dom (items (free_item a s)) = dom (items s) - {a}"
  "held (free_item a s) = (held s)(a := None)"
  by (auto simp: free_item_def held_def)

lemma free_item_other:
  assumes "x \<noteq> a"
  shows "hmeta (free_item a s) x = hmeta s x" "prv (free_item a s) x = prv s x" "nxt (free_item a s) x = nxt s x"
    "cprv (free_item a s) x = cprv s x" "cnxt (free_item a s) x = cnxt s x" "ukey (free_item a s) x = ukey s x"
    "slot (free_item a s) n x = slot s n x"
  using assms
  by (simp_all add: free_item_def hmeta_def prv_def nxt_def cprv_def cnxt_def ukey_def hf_def slot_def hv_def)

lemma ut_rep_free:
  assumes "ut_rep s head as" "a \<notin> set as"
  shows "ut_rep (free_item a s) head as"
proof (cases "as = []")
  case False
  let ?s = "free_item a s"
  from False assms(1) obtain ta t where t: "head = head_or as None" "tbls s ta = Some t" "listed s ta t as"
    "bucketed s t (set as)" "num_items t = of_nat (length as)" by (auto simp: ut_rep_def)
  have ne: "x \<noteq> a" if "x \<in> set as" for x using that assms(2) by blast
  note other = free_item_other [OF ne]
  have "dseg (prv ?s) (nxt ?s) None as None = dseg (prv s) (nxt s) None as None"
    by (rule dseg_cong) (simp add: other)
  moreover have "inj_on (ukey ?s) (set as) = inj_on (ukey s) (set as)" by (rule inj_on_cong) (simp add: other)
  ultimately have "listed ?s ta t as" using t(3) ne by (auto simp: listed_def keyed_def other)
  moreover have "bucketed ?s t (set as)"
  proof -
    from t(4) obtain k C where C: "sized t k" "chained s (buckets t) C" "spread s (num_buckets t) C (set as)"
      unfolding bucketed_def by blast
    have "dseg (cprv ?s) (cnxt ?s) None (C ! i) None = dseg (cprv s) (cnxt s) None (C ! i) None" if "i < length C" for i
      by (rule dseg_cong) (use other(4,5) [OF subsetD [OF spread_sub [OF C(3) that]]] in auto)
    with C have "chained ?s (buckets t) C" by (simp add: chained_def)
    moreover have "{x \<in> set as. slot ?s n x = i} = {x \<in> set as. slot s n x = i}" for n i
      by (intro Collect_cong conj_cong) (simp_all add: other)
    with C(3) have "spread ?s (num_buckets t) C (set as)" by (simp add: spread_def)
    ultimately show ?thesis using C(1) unfolding bucketed_def by blast
  qed
  ultimately show ?thesis using t unfolding ut_rep_def by auto
qed (use assms in \<open>simp add: ut_rep_def\<close>)

text \<open>The usual body: delete and free what satisfies a predicate.\<close>

definition hash_drop :: "(int \<times> addr option \<Rightarrow> bool) \<Rightarrow> addr \<Rightarrow> addr option \<times> 'a uheap_scheme \<Rightarrow>
    (addr option \<times> 'a uheap_scheme) res" where
  "hash_drop P a hs = andThen (deref (items (snd hs)) (Some a)) (\<lambda>(_, i).
     if P (i_id i, i_data i)
     then andThen (hash_delete (fst hs) a (snd hs)) (\<lambda>(head, s). Inr (head, free_item a s))
     else Inr hs)"

lemma hash_drop_ok:
  fixes P :: "int \<times> addr option \<Rightarrow> bool"
  assumes "ut_rep s head (us @ x # vs)"
  defines "gone \<equiv> P (the (held s x))"
  shows "\<exists>h' s'. hash_drop P x (head, s) = Inr (h', s') \<and> tick s' = tick s \<and>
    ut_rep s' h' (us @ (if gone then [] else [x]) @ vs) \<and> held s' = (if gone then (held s)(x := None) else held s)"
proof -
  from assms(1) obtain ta t where "listed s ta t (us @ x # vs)" by (auto simp: ut_rep_def)
  note l = listedD [OF this]
  from l(7) obtain i where i: "items s x = Some i" by fastforce
  then have gone: "gone \<longleftrightarrow> P (i_id i, i_data i)" by (simp add: gone_def held_def)
  from hash_delete_ok [OF assms(1)] obtain s' where
    s': "hash_delete head x s = Inr (head_or (us @ vs) None, s')" "same_store s s'" "tick s' = tick s"
      "ut_rep s' (head_or (us @ vs) None) (us @ vs)" by blast
  with ut_rep_free [OF s'(4), of x] l(2) i gone assms(1) show ?thesis
    by (auto simp: hash_drop_def same_store_def)
qed

lemma iter_loop_ok:
  assumes "ut_rep s head (ks @ xs)" "length xs \<le> n"
  shows "\<exists>h' s'. iter_loop (hash_drop P) n (head_or xs None) (head, s) = Inr (h', s') \<and>
    ut_rep s' h' (ks @ filter (\<lambda>x. \<not> P (the (held s x))) xs) \<and>
    held s' = (\<lambda>x. if x \<in> set xs \<and> P (the (held s x)) then None else held s x)"
  using assms
proof (induction xs arbitrary: ks head s n)
  case (Cons x xs)
  then obtain m where n: "n = Suc m" by (cases n) auto
  from Cons.prems(1) obtain ta t where l: "listed s ta t (ks @ x # xs)" by (auto simp: ut_rep_def)
  obtain i where i: "items s x = Some i" using listedD(7) [OF l] by fastforce
  have nx: "h_next (i_hh i) = head_or xs None"
    using listedD(5) [OF l] by (simp add: dseg_append nxt_def hf_def i)
  let ?ks = "ks @ (if P (the (held s x)) then [] else [x])"
  from hash_drop_ok [OF Cons.prems(1), of P] obtain h1 s1 where
    1: "hash_drop P x (head, s) = Inr (h1, s1)" "ut_rep s1 h1 (?ks @ xs)"
      "held s1 = (if P (the (held s x)) then (held s)(x := None) else held s)" by auto
  have "x \<notin> set xs" using listedD(2) [OF l] by simp
  then have same: "held s1 y = held s y" if "y \<in> set xs" for y using 1(3) that by auto
  then have f: "filter (\<lambda>y. \<not> P (the (held s1 y))) xs = filter (\<lambda>y. \<not> P (the (held s y))) xs"
    by (intro filter_cong) auto
  from Cons.IH [OF 1(2), of m] Cons.prems(2) n f obtain h' s' where
    2: "iter_loop (hash_drop P) m (head_or xs None) (h1, s1) = Inr (h', s')"
      "ut_rep s' h' (?ks @ filter (\<lambda>y. \<not> P (the (held s y))) xs)"
      "held s' = (\<lambda>y. if y \<in> set xs \<and> P (the (held s1 y)) then None else held s1 y)" by auto
  have "iter_loop (hash_drop P) n (head_or (x # xs) None) (head, s) = Inr (h', s')"
    using 1(1) 2(1) nx i n by simp
  moreover have "held s' = (\<lambda>y. if y \<in> set (x # xs) \<and> P (the (held s y)) then None else held s y)"
    using 2(3) 1(3) same by (auto simp: fun_eq_iff)
  ultimately show ?case using 2(2) by (cases "P (the (held s x))") auto
qed simp

section \<open>Properties\<close>

text \<open>With a comparison of a key, insertion in order keeps a sorted table sorted.\<close>

theorem hash_add_inorder_refines:
  fixes c :: item_cmp and f :: "int \<times> addr option \<Rightarrow> 'k::linorder"
  assumes "ut_rep s head as" "addable E s head as a" "\<And>x y. c x y \<le> 0 \<longleftrightarrow> f x \<le> f y"
    and "sorted (map (\<lambda>x. f (the (held s x))) as)"
  shows "\<exists>head' s' bs. hash_add_inorder E c head a s = Inr (head', s') \<and> ut_rep s' head' bs \<and>
    hash_fsck s' head' = Inr () \<and> set bs = insert a (set as) \<and> sorted (map (\<lambda>x. f (the (held s' x))) bs) \<and>
    (\<forall>n. hash_find_int s' head' n = (if ukey s a = int_bytes n then Inr (Some a) else hash_find_int s head n))"
proof -
  let ?bs = "put_in_order c s a as"
  have a: "a \<in> dom (items s)" "a < tick s" "a \<notin> set as" "ukey s a \<notin> ukey s ` set as" "\<And>n. e_malloc E n"
    "\<And>ta t. tbl_of s head = Inr (ta, t) \<Longrightarrow> num_buckets t < 2 ^ 31" using assms(2) by (auto simp: addable_def)
  from hash_add_inorder_ok [OF assms(1) a(1-5), of c] a(6) obtain s' where
    s': "hash_add_inorder E c head a s = Inr (head_or ?bs None, s')" "same_store s s'" "ut_rep s' (head_or ?bs None) ?bs"
    by blast
  have "held s' = held s" using s'(2) by (simp add: same_store_def)
  then have "sorted (map (\<lambda>x. f (the (held s' x))) ?bs)" using in_order_sorted [OF assms(3,4)] by simp
  moreover from find_snoc [OF s'(3) assms(1) _ same_storeD(2) [OF s'(2)] a(3)]
  have "hash_find_int s' (head_or ?bs None) n = (if ukey s a = int_bytes n then Inr (Some a) else hash_find_int s head n)"
    for n by simp
  ultimately show ?thesis using s' hash_fsck_ok [OF s'(3)] by (metis in_order_sel(1))
qed

lemma find_replaced:
  assumes "ut_rep s head as" "ut_rep s' h' bs" "ukey s' = ukey s"
    and "set bs = insert a (set (filter (\<lambda>x. ukey s x \<noteq> ukey s a) as))"
  shows "hash_find_int s' h' n = (if ukey s a = int_bytes n then Inr (Some a) else hash_find_int s head n)"
proof -
  let ?find = "List.find (\<lambda>x. ukey s x = int_bytes n)" and ?rest = "filter (\<lambda>x. ukey s x \<noteq> ukey s a) as"
  have inj: "inj_on (ukey s) (set as)" "inj_on (ukey s) (set bs)"
    using ut.keys_distinct [OF assms(1)] ut.keys_distinct [OF assms(2)] assms(3) by simp_all
  have "?find bs = ?find (a # ?rest)" by (rule find_unique [OF inj(2)]) (auto simp: assms(4))
  moreover have "?find ?rest = ?find as" if "ukey s a \<noteq> int_bytes n"
    by (rule find_unique [OF inj(1)]) (use that in auto)
  ultimately show ?thesis by (simp add: ut_find [OF assms(1)] ut_find [OF assms(2)] assms(3))
qed

lemma hash_replace_both:
  fixes c :: item_cmp and f :: "int \<times> addr option \<Rightarrow> 'k::linorder"
  assumes "ut_rep s head as" "replacer E s as a" "\<And>x y. c x y \<le> 0 \<longleftrightarrow> f x \<le> f y"
    and "sorted (map (\<lambda>x. f (the (held s x))) as)"
  defines "rest \<equiv> filter (\<lambda>x. ukey s x \<noteq> ukey s a) as" and "old \<equiv> List.find (\<lambda>x. ukey s x = ukey s a) as"
  shows "\<exists>h' s'. hash_replace E head a s = Inr (old, h', s') \<and> ut_rep s' h' (rest @ [a]) \<and> hash_fsck s' h' = Inr () \<and>
      (\<forall>n. hash_find_int s' h' n = (if ukey s a = int_bytes n then Inr (Some a) else hash_find_int s head n))"
    and "\<exists>h' s' bs. hash_replace_inorder E c head a s = Inr (old, h', s') \<and> ut_rep s' h' bs \<and> hash_fsck s' h' = Inr () \<and>
      set bs = insert a (set rest) \<and> sorted (map (\<lambda>x. f (the (held s' x))) bs) \<and>
      (\<forall>n. hash_find_int s' h' n = (if ukey s a = int_bytes n then Inr (Some a) else hash_find_int s head n))"
proof -
  from hash_replace_ok(1) [OF assms(1,2)] obtain h' s' where
    1: "hash_replace E head a s = Inr (old, h', s')" "same_store s s'" "ut_rep s' h' (rest @ [a])"
    unfolding rest_def old_def by blast
  from find_replaced [OF assms(1) 1(3) same_storeD(2) [OF 1(2)], of a] 1 hash_fsck_ok [OF 1(3)]
  show "\<exists>h' s'. hash_replace E head a s = Inr (old, h', s') \<and> ut_rep s' h' (rest @ [a]) \<and> hash_fsck s' h' = Inr () \<and>
      (\<forall>n. hash_find_int s' h' n = (if ukey s a = int_bytes n then Inr (Some a) else hash_find_int s head n))"
    by (intro exI [of _ h'] exI [of _ s'] conjI allI) (simp_all add: rest_def)
  let ?bs = "put_in_order c s a rest"
  from hash_replace_ok(2) [OF assms(1,2)] obtain h' s' where
    2: "hash_replace_inorder E c head a s = Inr (old, h', s')" "same_store s s'" "ut_rep s' h' ?bs"
    unfolding rest_def old_def by blast
  have "held s' = held s" using 2(2) by (simp add: same_store_def)
  moreover have "sorted (map (\<lambda>x. f (the (held s x))) rest)"
    unfolding rest_def by (rule sorted_filter [OF assms(4)])
  ultimately have "sorted (map (\<lambda>x. f (the (held s' x))) ?bs)" using in_order_sorted [OF assms(3)] by simp
  with find_replaced [OF assms(1) 2(3) same_storeD(2) [OF 2(2)], of a] 2 hash_fsck_ok [OF 2(3)]
  show "\<exists>h' s' bs. hash_replace_inorder E c head a s = Inr (old, h', s') \<and> ut_rep s' h' bs \<and> hash_fsck s' h' = Inr () \<and>
      set bs = insert a (set rest) \<and> sorted (map (\<lambda>x. f (the (held s' x))) bs) \<and>
      (\<forall>n. hash_find_int s' h' n = (if ukey s a = int_bytes n then Inr (Some a) else hash_find_int s head n))"
    by (intro exI [of _ h'] exI [of _ s'] exI [of _ ?bs] conjI allI) (simp_all add: rest_def)
qed

text \<open>
  C13: \<open>HASH_REPLACE\<close> and \<open>HASH_REPLACE_INORDER\<close> of an item that is not in the table never fault, hand out
  the item with the same key, if there is one, and leave a well-formed table that passes the
  integrity check: without that item, with the new one at the end or in front of the first greater
  one, sorted when it was; a lookup finds the new item under its key and what it found before under
  any other.
\<close>

theorem hash_replace_refines:
  fixes c :: item_cmp and f :: "int \<times> addr option \<Rightarrow> 'k::linorder"
  assumes "ut_rep s head as" "replacer E s as a" "\<And>x y. c x y \<le> 0 \<longleftrightarrow> f x \<le> f y"
    and "sorted (map (\<lambda>x. f (the (held s x))) as)"
  shows "\<exists>h1 s1 h2 s2 bs.
    hash_replace E head a s = Inr (List.find (\<lambda>x. ukey s x = ukey s a) as, h1, s1) \<and>
    ut_rep s1 h1 (filter (\<lambda>x. ukey s x \<noteq> ukey s a) as @ [a]) \<and> hash_fsck s1 h1 = Inr () \<and>
    (\<forall>n. hash_find_int s1 h1 n = (if ukey s a = int_bytes n then Inr (Some a) else hash_find_int s head n)) \<and>
    hash_replace_inorder E c head a s = Inr (List.find (\<lambda>x. ukey s x = ukey s a) as, h2, s2) \<and>
    ut_rep s2 h2 bs \<and> set bs = insert a (set (filter (\<lambda>x. ukey s x \<noteq> ukey s a) as)) \<and>
    sorted (map (\<lambda>x. f (the (held s2 x))) bs) \<and> hash_fsck s2 h2 = Inr () \<and>
    (\<forall>n. hash_find_int s2 h2 n = (if ukey s a = int_bytes n then Inr (Some a) else hash_find_int s head n))"
  using hash_replace_both [OF assms] by blast

text \<open>A table with the item 3 of key 7, and another item 5 of the same key.\<close>

definition rekey_uheap :: uheap where
  "rekey_uheap = demo_uheap\<lparr>items := (items demo_uheap)(5 \<mapsto> plain_item 7)\<rparr>"

lemma rekey_table:
  "\<exists>s. hash_add_int demo_env None 3 rekey_uheap = Inr (Some 3, s) \<and> ut_rep s (Some 3) [3] \<and>
     replacer demo_env s [3] 5 \<and> ukey s 3 = int_bytes 7 \<and> ukey s 5 = int_bytes 7"
proof -
  have mem: "\<And>n. e_malloc demo_env n" by (simp add: demo_env_def)
  have u: "tick rekey_uheap = 10" "dom (items rekey_uheap) = {3, 4, 5}" "tbls rekey_uheap = Map.empty"
    "ukey rekey_uheap 3 = int_bytes 7" "ukey rekey_uheap 5 = int_bytes 7"
    by (auto simp: rekey_uheap_def demo_uheap_def plain_item_def ukey_def)
  have rep: "ut_rep rekey_uheap None []" by (simp add: ut_rep_def)
  from hash_add_ok [OF rep, of 3 demo_env] u mem obtain s where
    s: "hash_add_int demo_env None 3 rekey_uheap = Inr (Some 3, s)" "same_store rekey_uheap s" "ut_rep s (Some 3) [3]"
    by (auto simp: tbl_of_def)
  have "small_tables s" using first_add_tables [OF s(1) u(3)] by (auto simp: small_tables_def word_less_nat_alt split: if_splits)
  then have "replacer demo_env s [3] 5" using same_storeD [OF s(2)] u mem by (auto simp: replacer_def)
  moreover have "ukey s 3 = int_bytes 7" "ukey s 5 = int_bytes 7" using same_storeD(2) [OF s(2)] u by simp_all
  ultimately show ?thesis using s by blast
qed

theorem hash_replace_refines_witness:
  "\<exists>s h' s'. hash_add_int demo_env None 3 rekey_uheap = Inr (Some 3, s) \<and>
     hash_replace demo_env (Some 3) 5 s = Inr (Some 3, h', s') \<and> ut_rep s' h' [5] \<and>
     hash_find_int s' h' 7 = Inr (Some 5)"
proof -
  from rekey_table obtain s where s: "hash_add_int demo_env None 3 rekey_uheap = Inr (Some 3, s)"
    "ut_rep s (Some 3) [3]" "replacer demo_env s [3] 5" "ukey s 3 = int_bytes 7" "ukey s 5 = int_bytes 7" by blast
  have cmp: "by_id_down x y \<le> 0 \<longleftrightarrow> - fst x \<le> - fst y" for x y by (simp add: by_id_down_def)
  have "sorted (map (\<lambda>x. - fst (the (held s x))) [3])" by simp
  from hash_replace_refines [where c = by_id_down and f = "\<lambda>x. - fst x", OF s(2,3) cmp this] s show ?thesis by auto
qed

theorem hash_iter_drops:
  assumes "ut_rep s head as"
  shows "\<exists>h' s'. hash_iter (hash_drop P) head s = Inr (h', s') \<and>
    ut_rep s' h' (filter (\<lambda>x. \<not> P (the (held s x))) as) \<and>
    held s' = (\<lambda>x. if x \<in> set as \<and> P (the (held s x)) then None else held s x)"
proof -
  have "length as \<le> tick s" if "as \<noteq> []"
  proof -
    from that assms obtain ta t where "listed s ta t as" by (auto simp: ut_rep_def)
    note l = listedD [OF this]
    show ?thesis by (rule distinct_below [OF l(2)]) (use l(4) in \<open>auto simp: keyed_def\<close>)
  qed
  moreover have "head = head_or as None" using assms by (simp add: ut_rep_def)
  ultimately show ?thesis using iter_loop_ok [of s head "[]" as "tick s" P] assms
    unfolding hash_iter_def by (cases "as = []") auto
qed

end
