(* ===== verification/Hash_Select.thy ===== *)
theory Hash_Select
  imports Hash_Inorder
begin

text \<open>
  \<open>HASH_SELECT\<close> of \<^verbatim>\<open>local_lib/uthash.h\<close>: the items of a table that satisfy a condition are put into
  a second table as well, through a second handle \<open>hh_dst\<close> in the same items. The second handles and
  the table they belong to are kept in a heap of their own, \<open>d\<close>, which holds the same items at the same
  addresses; the heap \<open>s\<close> of the first handles is only read. The new table is a good one but for its
  \<open>tail\<close>, which the macro never moves from the first item it selects.
\<close>

section \<open>The macro\<close>

text \<open>The state of the loop: \<open>dst\<close>, \<open>_last_elt\<close> (and its handle \<open>_last_elt_hh\<close>), and the second heap.\<close>

type_synonym 'a select_state = "addr option \<times> addr option \<times> 'a uheap_scheme"

text \<open>The body for an item \<open>a\<close> that satisfies the condition; \<open>h\<close> is its first handle.\<close>

definition select_item :: "env \<Rightarrow> addr \<Rightarrow> hh \<Rightarrow> 'a select_state \<Rightarrow> 'a select_state res" where
  "select_item E a h = (\<lambda>(dst, last_elt, d).
     andThen (modify_hh (Some a) (\<lambda>g. g\<lparr>h_key := h_key h, h_keylen := h_keylen h, h_hashv := h_hashv h,
                h_prev := last_elt, h_next := None\<rparr>) d) (\<lambda>d.
     andThen (if last_elt \<noteq> None then modify_hh last_elt (\<lambda>g. g\<lparr>h_next := Some a\<rparr>) d else Inr d) (\<lambda>d.
     andThen (if dst = None then andThen (hash_make_table E a d) (\<lambda>d. Inr (Some a, d))
              else andThen (tbl_of d dst) (\<lambda>(ta, t).
                   andThen (modify_hh (Some a) (\<lambda>g. g\<lparr>h_tbl := Some ta\<rparr>) d) (\<lambda>d. Inr (dst, d)))) (\<lambda>(dst, d).
     andThen (tbl_of d (Some a)) (\<lambda>(ta, t).
     andThen (add_to_bkt E ta (hash_to_bkt (h_hashv h) (num_buckets t)) a d) (\<lambda>d.
     andThen (tbl_of d dst) (\<lambda>(ta, t).
       Inr (dst, Some a, set_tbl ta (t\<lparr>num_items := num_items t + 1\<rparr>) d))))))))"

text \<open>The inner loop along a chain of the source, and the outer one over its buckets.\<close>

fun select_chain ::
  "env \<Rightarrow> (item \<Rightarrow> bool) \<Rightarrow> 'b uheap_scheme \<Rightarrow> nat \<Rightarrow> addr option \<Rightarrow> 'a select_state \<Rightarrow> 'a select_state res" where
  "select_chain E cond s n None acc = Inr acc"
| "select_chain E cond s 0 (Some a) acc = Inl Diverge"
| "select_chain E cond s (Suc n) (Some a) acc =
     andThen (deref (items s) (Some a)) (\<lambda>(a, i).
     andThen (if cond i then select_item E a (i_hh i) acc else Inr acc) (\<lambda>acc.
       select_chain E cond s n (hh_next (i_hh i)) acc))"

fun select_bkts ::
  "env \<Rightarrow> (item \<Rightarrow> bool) \<Rightarrow> 'b uheap_scheme \<Rightarrow> ubucket list \<Rightarrow> 'a select_state \<Rightarrow> 'a select_state res" where
  "select_bkts E cond s [] acc = Inr acc"
| "select_bkts E cond s (b # bs) acc =
     andThen (select_chain E cond s (Suc (tick s)) (hh_head b) acc) (select_bkts E cond s bs)"

definition hash_select ::
  "env \<Rightarrow> (item \<Rightarrow> bool) \<Rightarrow> addr option \<Rightarrow> 'b uheap_scheme \<Rightarrow> addr option \<Rightarrow> 'a uheap_scheme \<Rightarrow>
   (addr option \<times> 'a uheap_scheme) res" where
  "hash_select E cond dst s src d =
     (if src \<noteq> None
      then andThen (tbl_of s src) (\<lambda>(ta, t).
        andThen (select_bkts E cond s (take (unat (num_buckets t)) (buckets t)) (dst, None, d)) (\<lambda>(dst, last_elt, d).
          Inr (dst, d)))
      else Inr (dst, d))"

section \<open>The items one by one\<close>

text \<open>The macro runs its body for the items that satisfy the condition, chain by chain.\<close>

fun select_run :: "env \<Rightarrow> 'b uheap_scheme \<Rightarrow> addr list \<Rightarrow> 'a select_state \<Rightarrow> 'a select_state res" where
  "select_run E s [] acc = Inr acc"
| "select_run E s (a # as) acc = andThen (select_item E a (hf s a) acc) (select_run E s as)"

lemma select_run_append:
  "select_run E s (as @ bs) acc = andThen (select_run E s as acc) (select_run E s bs)"
proof (induction as arbitrary: acc)
  case (Cons a as)
  then show ?case by (cases "select_item E a (hf s a) acc") simp_all
qed simp

abbreviation chosen :: "(item \<Rightarrow> bool) \<Rightarrow> 'b uheap_scheme \<Rightarrow> addr list \<Rightarrow> addr list" where
  "chosen cond s \<equiv> filter (\<lambda>a. cond (the (items s a)))"

lemma select_chain_run:
  fixes acc :: "'a select_state"
  assumes "dseg (cprv s) (cnxt s) p xs None" "set xs \<subseteq> dom (items s)" "length xs < n"
  shows "select_chain E cond s n (head_or xs None) acc = select_run E s (chosen cond s xs) acc"
  using assms
proof (induction xs arbitrary: n p acc)
  case (Cons x xs)
  then obtain m i where n: "n = Suc m" "length xs < m" and i: "items s x = Some i" by (cases n) auto
  have h: "hh_next (i_hh i) = cnxt s x" "i_hh i = hf s x" by (simp_all add: cnxt_def hf_def i)
  with Cons.prems have nx: "hh_next (i_hh i) = head_or xs None" "dseg (cprv s) (cnxt s) (Some x) xs None" by simp_all
  from Cons.IH [OF nx(2) _ n(2)] Cons.prems(2)
  have "select_chain E cond s m (head_or xs None) acc = select_run E s (chosen cond s xs) acc"
    for acc :: "'a select_state" by simp
  then have "select_chain E cond s m (head_or xs None) = (select_run E s (chosen cond s xs) :: 'a select_state \<Rightarrow> _)"
    by (rule ext)
  with i nx(1) h(2) show ?case by (simp add: n(1))
qed simp

lemma select_bkts_run:
  fixes acc :: "'a select_state"
  assumes "list_all2 (\<lambda>b xs. hh_head b = head_or xs None \<and> dseg (cprv s) (cnxt s) None xs None \<and>
      set xs \<subseteq> dom (items s) \<and> length xs < Suc (tick s)) bs Cs"
  shows "select_bkts E cond s bs acc = select_run E s (chosen cond s (concat Cs)) acc"
  using assms
proof (induction bs Cs arbitrary: acc rule: list_all2_induct)
  case (Cons b bs xs Cs)
  then have "select_chain E cond s (Suc (tick s)) (hh_head b) acc = select_run E s (chosen cond s xs) acc"
    using select_chain_run [of s None xs "Suc (tick s)" E cond acc] by simp
  moreover have "select_bkts E cond s bs = (select_run E s (chosen cond s (concat Cs)) :: 'a select_state \<Rightarrow> _)"
    by (rule ext) (rule Cons.IH)
  ultimately show ?case using Cons.hyps(1) by (simp add: select_run_append)
qed simp

text \<open>The items of a table, in the order of its buckets.\<close>

lemma hash_select_run:
  assumes "ut_rep s src xs"
  shows "\<exists>ys. distinct ys \<and> set ys = set xs \<and> (\<forall>E cond (dst :: addr option) (d :: 'a uheap_scheme).
    hash_select E cond dst s src d =
      andThen (select_run E s (chosen cond s ys) (dst, None, d)) (\<lambda>(dst, last_elt, d). Inr (dst, d)))"
proof (cases "xs = []")
  case True
  with assms show ?thesis by (intro exI [of _ "[]"]) (simp add: ut_rep_def hash_select_def)
next
  case False
  with assms obtain ta t where t: "src = head_or xs None" "tbls s ta = Some t" "listed s ta t xs"
    "bucketed s t (set xs)" by (auto simp: ut_rep_def)
  note l = listedD [OF t(3)]
  have below: "a < tick s" if "a \<in> set xs" for a using l(4) [OF that] by (simp add: keyed_def)
  from bucket_chain [OF t(4) below] obtain k C where C: "sized t k" "chained s (buckets t) C"
    "spread s (num_buckets t) C (set xs)" "\<forall>i < length C. length (C ! i) < Suc (tick s)" by blast
  then have k: "num_buckets t = 2 ^ k" "length (buckets t) = 2 ^ k" "k < 32" "length C = 2 ^ k"
    by (simp_all add: sized_def chained_def)
  have "list_all2 (\<lambda>b xs. hh_head b = head_or xs None \<and> dseg (cprv s) (cnxt s) None xs None \<and>
      set xs \<subseteq> dom (items s) \<and> length xs < Suc (tick s)) (buckets t) C"
  proof (rule list_all2_all_nthI)
    fix i assume i: "i < length (buckets t)"
    have "set (C ! i) \<subseteq> set xs" using spread_sub [OF C(3)] i k by simp
    then show "hh_head (buckets t ! i) = head_or (C ! i) None \<and> dseg (cprv s) (cnxt s) None (C ! i) None \<and>
      set (C ! i) \<subseteq> dom (items s) \<and> length (C ! i) < Suc (tick s)"
      using chainedD [OF C(2) i] l(7) C(4) i k by auto
  qed (simp add: k)
  from select_bkts_run [OF this, where 'a = 'a]
  have run: "select_bkts E cond s (buckets t) = (select_run E s (chosen cond s (concat C)) :: 'a select_state \<Rightarrow> _)" for E cond
    by (intro ext) blast
  have "slot s (num_buckets t) x < length C" for x using slot_less [OF C(1), of s x] k by simp
  moreover have "distinct (C ! i)" if "i < length C" for i using chainedD(4) [OF C(2)] that k by simp
  ultimately have cc: "set (concat C) = set xs" "distinct (concat C)" using spread_concat [OF C(3)] by blast+
  have "hash_select E cond dst s src d =
      andThen (select_run E s (chosen cond s (concat C)) (dst, None, d)) (\<lambda>(dst, last_elt, d). Inr (dst, d))"
    for E cond dst and d :: "'a uheap_scheme"
    using run tbl_of_listed [OF t(3,2)] False by (simp add: hash_select_def t(1) k unat_pow2)
  with cc show ?thesis by (intro exI [of _ "concat C"]) simp
qed

section \<open>The second table\<close>

text \<open>What the loop keeps: everything a well-formed table has, but for the tail, which is the first item.\<close>

definition sel_rep :: "'a uheap_scheme \<Rightarrow> addr option \<Rightarrow> addr option \<Rightarrow> addr list \<Rightarrow> bool" where
  "sel_rep d dst last_elt as \<longleftrightarrow> dst = head_or as None \<and> last_elt = last_or None as \<and> (as = [] \<or>
     (\<exists>ta t. tbls d ta = Some t \<and> listed d ta (t\<lparr>t_tail := Some (last as)\<rparr>) as \<and> bucketed d t (set as) \<and>
        num_items t = of_nat (length as) \<and> t_tail t = Some (hd as)))"

lemma select_finish:
  assumes t: "tbls d ta = Some t" and l: "listed d ta (t\<lparr>t_tail := Some a\<rparr>) (as @ [a])" and bu: "bucketed d t (set as)"
    and n: "num_items t + 1 = of_nat (length (as @ [a]))" and tl: "t_tail t = Some (hd (as @ [a]))"
    and mem: "\<And>n. e_malloc E n" and small: "num_buckets t < 2 ^ 31"
  shows "\<exists>d'. andThen (tbl_of d (Some a)) (\<lambda>(ta, t).
      andThen (add_to_bkt E ta (hash_to_bkt (hash_jen (ukey d a)) (num_buckets t)) a d) (\<lambda>d.
      andThen (tbl_of d (Some (hd (as @ [a])))) (\<lambda>(ta, t).
        Inr (Some (hd (as @ [a])), Some a, set_tbl ta (t\<lparr>num_items := num_items t + 1\<rparr>) d))))
    = Inr (Some (hd (as @ [a])), Some a, d') \<and> same_store d d' \<and> sel_rep d' (Some (hd (as @ [a]))) (Some a) (as @ [a])"
proof -
  let ?bs = "as @ [a]"
  note ld = listedD [OF l]
  have hv: "hv d a = hash_jen (ukey d a)" using ld(4) [of a] by (simp add: keyed_def hv_hmeta)
  have "insert a (set as) \<subseteq> dom (items d)" using ld(7) by auto
  moreover have "x < tick d" if "x \<in> insert a (set as)" for x using ld(4) [of x] that by (auto simp: keyed_def)
  moreover have "a \<notin> set as" using ld(2) by simp
  ultimately obtain d1 t1 where r: "add_to_bkt E ta (hash_to_bkt (hv d a) (num_buckets t)) a d = Inr d1"
    "same_store d d1" "tbls d1 = (tbls d)(ta \<mapsto> t1)" "bucketed d1 t1 (insert a (set as))" "t_tail t1 = t_tail t"
    "num_items t1 = num_items t" "prv d1 = prv d" "nxt d1 = nxt d" "hmeta d1 = hmeta d"
    using add_to_bkt_ok [OF t bu mem _ _ _ small, of a] by blast
  let ?d' = "set_tbl ta (t1\<lparr>num_items := num_items t1 + 1\<rparr>) d1"
  have key: "keyed d1 ta x" if "x \<in> set ?bs" for x
    by (rule keyed_cong [OF _ _ _ _ ld(4) [OF that]]) (use r(9) same_storeD [OF r(2)] in simp_all)
  have "tbl_of d (Some a) = Inr (ta, t)" by (rule tbl_of_keyed [OF ld(4) t]) simp
  moreover have "tbl_of d1 (Some (hd ?bs)) = Inr (ta, t1)"
    by (rule tbl_of_keyed [OF key]) (use r(3) hd_in_set [of ?bs] in auto)
  moreover have "sel_rep ?d' (Some (hd ?bs)) (Some a) ?bs"
    unfolding sel_rep_def
  proof (intro conjI disjI2 exI)
    show "listed ?d' ta (t1\<lparr>num_items := num_items t1 + 1, t_tail := Some (last ?bs)\<rparr>) ?bs"
      unfolding listed_def
    proof (intro conjI ballI)
      show "keyed ?d' ta x" if "x \<in> set ?bs" for x
        by (rule keyed_cong [OF _ _ _ _ key [OF that]]) simp_all
      show "inj_on (ukey ?d') (set ?bs)" using ld(3) same_storeD(2) [OF r(2)] by simp
      show "dseg (prv ?d') (nxt ?d') None ?bs None" using ld(5) r(7,8) by simp
    qed (use ld(2) in simp_all)
    show "bucketed ?d' (t1\<lparr>num_items := num_items t1 + 1\<rparr>) (set ?bs)"
      by (rule bucketed_cong [of d1 t1]) (use r(4) in simp_all)
    show "tbls ?d' ta = Some (t1\<lparr>num_items := num_items t1 + 1\<rparr>)" by simp
    show "num_items (t1\<lparr>num_items := num_items t1 + 1\<rparr>) = of_nat (length ?bs)" using r(6) n by simp
    show "t_tail (t1\<lparr>num_items := num_items t1 + 1\<rparr>) = Some (hd ?bs)" using r(5) tl by simp
  qed (cases as; simp)+
  moreover have "same_store d ?d'" using r(2) by simp
  ultimately show ?thesis using r(1) hv by simp
qed

text \<open>The handle of a selected item is a copy of the first one, linked behind the item selected before.\<close>

definition copy_hh :: "addr \<Rightarrow> hh \<Rightarrow> addr option \<Rightarrow> 'a uheap_scheme \<Rightarrow> 'a uheap_scheme" where
  "copy_hh a h p d = upd_opt (Some a) (\<lambda>g. g\<lparr>h_key := h_key h, h_keylen := h_keylen h, h_hashv := h_hashv h,
                h_prev := p, h_next := None\<rparr>) d"

lemma copy_hh_sel [simp]:
  "tbls (copy_hh a h p d) = tbls d" "tick (copy_hh a h p d) = tick d" "dom (items (copy_hh a h p d)) = dom (items d)"
  "ukey (copy_hh a h p d) = ukey d" "held (copy_hh a h p d) = held d" "same_store s' (copy_hh a h p d) = same_store s' d"
  by (simp_all add: copy_hh_def)

lemma copy_hh_fields:
  "cprv (copy_hh a h p d) = cprv d" "cnxt (copy_hh a h p d) = cnxt d"
  "x \<noteq> a \<Longrightarrow> hmeta (copy_hh a h p d) x = hmeta d x"
  by (auto simp: copy_hh_def upd_opt_def upd_hh_def cprv_def cnxt_def hmeta_def hf_def fun_eq_iff)

lemma copy_hh_links:
  assumes "a \<in> dom (items d)"
  shows "prv (copy_hh a h p d) = (prv d)(a := p)" "nxt (copy_hh a h p d) = (nxt d)(a := None)"
    "hmeta (copy_hh a h p d) a = (fst (hmeta d a), h_key h, h_keylen h, h_hashv h)"
  using hf_upd_Some [OF assms]
  by (auto simp: copy_hh_def prv_def nxt_def hmeta_def fun_eq_iff)

text \<open>The item and its first handle, as far as the macro uses them.\<close>

definition selectable :: "'a uheap_scheme \<Rightarrow> hh \<Rightarrow> addr list \<Rightarrow> addr \<Rightarrow> bool" where
  "selectable d h as a \<longleftrightarrow> a \<in> dom (items d) \<and> a < tick d \<and> a \<notin> set as \<and> ukey d a \<notin> ukey d ` set as \<and>
     h_key h = Some a \<and> h_keylen h = 4 \<and> h_hashv h = hash_jen (ukey d a)"

lemma select_first:
  assumes a: "selectable d h [] a" and mem: "\<And>n. e_malloc E n"
  shows "\<exists>dst d'. select_item E a h (None, None, d) = Inr (dst, Some a, d') \<and> same_store d d' \<and> sel_rep d' dst (Some a) [a]"
proof -
  have ad: "a \<in> dom (items d)" "a < tick d" using a by (simp_all add: selectable_def)
  let ?d1 = "copy_hh a h None d" and ?ta = "tick d"
  let ?t = "\<lparr>buckets = replicate 32 bucket_zero, num_buckets = 32, log2_num_buckets = 5,
                 num_items = 0, t_tail = Some a, ideal_chain_maxlen = 0, nonideal_items = 0,
                 ineff_expands = 0, noexpand = 0, signature = 0xa0111fe1\<rparr>"
  let ?d2 = "own_item a ?ta (set_tbl ?ta ?t (step (step ?d1)))"
  have cp: "modify_hh (Some a) (\<lambda>g. g\<lparr>h_key := h_key h, h_keylen := h_keylen h, h_hashv := h_hashv h,
                h_prev := None, h_next := None\<rparr>) d = Inr ?d1"
    unfolding copy_hh_def by (rule modify_hh_eq [OF ad(1)])
  have "modify_hh (Some a) (\<lambda>h. h\<lparr>h_tbl := Some ?ta\<rparr>) (set_tbl ?ta ?t (step (step ?d1))) = Inr ?d2"
    unfolding own_item_def by (rule modify_hh_eq) (use ad(1) in simp)
  then have mk: "hash_make_table E a ?d1 = Inr ?d2" using mem by (simp add: hash_make_table_def Let_def)
  have "keyed ?d2 ?ta a"
    using ad a by (simp add: keyed_def key_item_meta copy_hh_links selectable_def)
  moreover have "prv ?d2 a = None" "nxt ?d2 a = None"
    using ad(1) by (simp_all add: key_item_fields copy_hh_links)
  ultimately have l: "listed ?d2 ?ta (?t\<lparr>t_tail := Some a\<rparr>) ([] @ [a])" by (simp add: listed_def)
  have "sized ?t 5" by (simp add: sized_def)
  moreover have "chained ?d2 (buckets ?t) (replicate 32 [])" by (simp add: chained_def bucket_zero_def)
  moreover have "spread ?d2 (num_buckets ?t) (replicate 32 []) {}" by (simp add: spread_def)
  ultimately have bu: "bucketed ?d2 ?t (set [])" unfolding bucketed_def by auto
  have "tbls ?d2 ?ta = Some ?t" "num_items ?t + 1 = of_nat (length ([] @ [a]))" "t_tail ?t = Some (hd ([] @ [a]))"
    "num_buckets ?t < 2 ^ 31" by simp_all
  from select_finish [OF this(1) l bu this(2,3) mem this(4)] obtain d' where
    f: "andThen (tbl_of ?d2 (Some a)) (\<lambda>(ta, t).
      andThen (add_to_bkt E ta (hash_to_bkt (hash_jen (ukey ?d2 a)) (num_buckets t)) a ?d2) (\<lambda>d.
      andThen (tbl_of d (Some a)) (\<lambda>(ta, t).
        Inr (Some a, Some a, set_tbl ta (t\<lparr>num_items := num_items t + 1\<rparr>) d)))) = Inr (Some a, Some a, d')"
      "same_store ?d2 d'" "sel_rep d' (Some a) (Some a) [a]" by auto
  have hash: "hash_jen (ukey ?d2 a) = h_hashv h" using a by (simp add: selectable_def)
  have "select_item E a h (None, None, d) = Inr (Some a, Some a, d')"
    using cp mk f(1) unfolding hash by (simp add: select_item_def)
  moreover have "same_store d ?d2" by simp
  ultimately show ?thesis using f(2,3) same_store_trans by blast
qed

lemma select_next:
  assumes rep: "sel_rep d dst le as" and ne: "as \<noteq> []" and a: "selectable d h as a" and mem: "\<And>n. e_malloc E n"
    and small: "small_tables d"
  shows "\<exists>d'. select_item E a h (dst, le, d) = Inr (dst, Some a, d') \<and> same_store d d' \<and>
    sel_rep d' dst (Some a) (as @ [a])"
proof -
  from rep ne obtain ta t where t: "dst = Some (hd as)" "le = Some (last as)" "tbls d ta = Some t"
    "listed d ta (t\<lparr>t_tail := Some (last as)\<rparr>) as" "bucketed d t (set as)" "num_items t = of_nat (length as)"
    "t_tail t = Some (hd as)" by (auto simp: sel_rep_def)
  note l = listedD [OF t(4)]
  have ad: "a \<in> dom (items d)" "a < tick d" "a \<notin> set as" using a by (simp_all add: selectable_def)
  have ld: "last as \<in> dom (items d)" using l(7) ne by simp
  have nea: "x \<noteq> a" if "x \<in> set as" for x using that ad(3) by blast
  let ?d1 = "copy_hh a h (Some (last as)) d"
  let ?d2 = "upd_opt (Some (last as)) (\<lambda>g. g\<lparr>h_next := Some a\<rparr>) ?d1"
  let ?d3 = "own_item a ta ?d2"
  have cp: "modify_hh (Some a) (\<lambda>g. g\<lparr>h_key := h_key h, h_keylen := h_keylen h, h_hashv := h_hashv h,
                h_prev := Some (last as), h_next := None\<rparr>) d = Inr ?d1"
    unfolding copy_hh_def by (rule modify_hh_eq [OF ad(1)])
  have lk: "modify_hh (Some (last as)) (\<lambda>g. g\<lparr>h_next := Some a\<rparr>) ?d1 = Inr ?d2"
    by (rule modify_hh_eq) (use ld in simp)
  have own: "modify_hh (Some a) (\<lambda>g. g\<lparr>h_tbl := Some ta\<rparr>) ?d2 = Inr ?d3"
    unfolding own_item_def by (rule modify_hh_eq) (use ad(1) in simp)
  have links: "prv ?d2 = (prv d)(a := Some (last as))" "nxt ?d2 = (nxt d)(a := None, last as := Some a)"
    "cprv ?d2 = cprv d" "cnxt ?d2 = cnxt d" "hmeta ?d2 = hmeta ?d1"
    using ld ad(1) by (simp_all add: link_updates copy_hh_links copy_hh_fields)
  have links3: "prv ?d3 = prv ?d2" "nxt ?d3 = nxt ?d2" "cprv ?d3 = cprv d" "cnxt ?d3 = cnxt d"
    using links by (simp_all add: key_item_fields)
  have meta: "hmeta ?d2 x = hmeta d x" "hmeta ?d3 x = hmeta d x" if "x \<in> set as" for x
    using nea [OF that] links(5) by (simp_all add: key_item_fields copy_hh_fields)
  have key2: "keyed ?d2 ta x" if "x \<in> set as" for x
    using l(4) [OF that] meta(1) [OF that] by (simp add: keyed_def)
  have tb2: "tbl_of ?d2 dst = Inr (ta, t)"
    unfolding t(1) by (rule tbl_of_keyed [OF key2]) (use ne t(3) in simp_all)
  have "keyed ?d3 ta x" if "x \<in> set (as @ [a])" for x
  proof (cases "x = a")
    case True
    with ad a links(5) show ?thesis by (simp add: keyed_def key_item_meta copy_hh_links selectable_def)
  next
    case False
    with that have "x \<in> set as" by simp
    with key2 [OF this] meta [OF this] show ?thesis by (simp add: keyed_def)
  qed
  moreover have "inj_on (ukey ?d3) (set (as @ [a]))" using l(3) a by (auto simp: selectable_def)
  moreover have "dseg (prv ?d3) (nxt ?d3) None (as @ [a]) None"
    unfolding links3 links by (rule dseg_end [OF l(5) ad(3) l(2) ne])
  ultimately have l3: "listed ?d3 ta (t\<lparr>t_tail := Some a\<rparr>) (as @ [a])"
    using l(2) ad(3) by (simp add: listed_def)
  have bu: "bucketed ?d3 t (set as)"
    by (rule bucketed_cong [OF t(5) links3(3,4) meta(2)]) simp_all
  have hd: "hd (as @ [a]) = hd as" using ne by simp
  have "tbls ?d3 ta = Some t" "num_items t + 1 = of_nat (length (as @ [a]))" "t_tail t = Some (hd (as @ [a]))"
    "num_buckets t < 2 ^ 31" using t(3,6,7) hd small by (simp_all add: small_tables_def)
  from select_finish [OF this(1) l3 bu this(2,3) mem this(4)] obtain d' where
    f: "andThen (tbl_of ?d3 (Some a)) (\<lambda>(ta, t).
      andThen (add_to_bkt E ta (hash_to_bkt (hash_jen (ukey ?d3 a)) (num_buckets t)) a ?d3) (\<lambda>d.
      andThen (tbl_of d dst) (\<lambda>(ta, t).
        Inr (dst, Some a, set_tbl ta (t\<lparr>num_items := num_items t + 1\<rparr>) d)))) = Inr (dst, Some a, d')"
      "same_store ?d3 d'" "sel_rep d' dst (Some a) (as @ [a])" unfolding hd t(1) [symmetric] by blast
  have hash: "hash_jen (ukey ?d3 a) = h_hashv h" using a by (simp add: selectable_def)
  have "select_item E a h (dst, le, d) = Inr (dst, Some a, d')"
    using cp lk own tb2 f(1) unfolding hash t(2) by (simp add: select_item_def t(1))
  moreover have "same_store d ?d3" by simp
  ultimately show ?thesis using f(2,3) same_store_trans by blast
qed

section \<open>The loop\<close>

text \<open>The selected items, with what their first handles say of them.\<close>

definition selectables :: "'b uheap_scheme \<Rightarrow> 'a uheap_scheme \<Rightarrow> addr list \<Rightarrow> bool" where
  "selectables s d as \<longleftrightarrow> distinct as \<and> inj_on (ukey d) (set as) \<and>
     (\<forall>a \<in> set as. a \<in> dom (items d) \<and> a < tick d \<and> h_key (hf s a) = Some a \<and> h_keylen (hf s a) = 4 \<and>
        h_hashv (hf s a) = hash_jen (ukey d a))"

lemma selectables_same: "same_store d d' \<Longrightarrow> selectables s d as \<Longrightarrow> selectables s d' as"
  using same_storeD [of d d'] by (fastforce simp: selectables_def)

lemma selectables_next: "selectables s d (as @ a # bs) \<Longrightarrow> selectable d (hf s a) as a"
  by (auto simp: selectables_def selectable_def)

text \<open>No table of the second heap gets to 2^31 buckets in the run.\<close>

definition stays_small :: "env \<Rightarrow> 'b uheap_scheme \<Rightarrow> addr list \<Rightarrow> 'a select_state \<Rightarrow> bool" where
  "stays_small E s as acc \<longleftrightarrow>
     (\<forall>n dst le d. select_run E s (take n as) acc = Inr (dst, le, d) \<longrightarrow> small_tables d)"

lemma stays_smallD:
  "stays_small E s as (dst, le, d) \<Longrightarrow> small_tables d"
  "stays_small E s (a # as) acc \<Longrightarrow> select_item E a (hf s a) acc = Inr acc' \<Longrightarrow> stays_small E s as acc'"
proof -
  show "small_tables d" if "stays_small E s as (dst, le, d)"
    using that unfolding stays_small_def by (metis select_run.simps(1) take0)
  assume small: "stays_small E s (a # as) acc" and item: "select_item E a (hf s a) acc = Inr acc'"
  show "stays_small E s as acc'"
    unfolding stays_small_def
  proof (intro allI impI)
    fix n dst le d assume "select_run E s (take n as) acc' = Inr (dst, le, d)"
    with item have "select_run E s (take (Suc n) (a # as)) acc = Inr (dst, le, d)" by simp
    with small show "small_tables d" unfolding stays_small_def by blast
  qed
qed

lemma select_run_ok:
  assumes "sel_rep d dst le as" "selectables s d (as @ bs)" "stays_small E s bs (dst, le, d)" and mem: "\<And>n. e_malloc E n"
  shows "\<exists>dst' le' d'. select_run E s bs (dst, le, d) = Inr (dst', le', d') \<and> same_store d d' \<and>
    sel_rep d' dst' le' (as @ bs)"
  using assms(1-3)
proof (induction bs arbitrary: d dst le as)
  case Nil
  then show ?case by simp
next
  case (Cons b bs)
  note sel = selectables_next [OF Cons.prems(2)]
  obtain dst1 d1 where
    1: "select_item E b (hf s b) (dst, le, d) = Inr (dst1, Some b, d1)" "same_store d d1" "sel_rep d1 dst1 (Some b) (as @ [b])"
  proof (cases "as = []")
    case True
    then have "dst = None" "le = None" using Cons.prems(1) by (simp_all add: sel_rep_def)
    with select_first [OF sel [unfolded True] mem] True that show ?thesis by auto
  next
    case False
    from select_next [OF Cons.prems(1) False sel mem stays_smallD(1) [OF Cons.prems(3)]] that show ?thesis by blast
  qed
  have "selectables s d1 ((as @ [b]) @ bs)" using selectables_same [OF 1(2) Cons.prems(2)] by simp
  from Cons.IH [OF 1(3) this stays_smallD(2) [OF Cons.prems(3) 1(1)]] obtain dst' le' d' where
    2: "select_run E s bs (dst1, Some b, d1) = Inr (dst', le', d')" "same_store d1 d'" "sel_rep d' dst' le' ((as @ [b]) @ bs)"
    by blast
  with 1 same_store_trans [OF 1(2) 2(2)] show ?case by (intro exI [of _ dst'] exI [of _ le'] exI [of _ d']) simp
qed

section \<open>Lookups and the integrity check do not read the tail\<close>

lemma find_in_bkt_items:
  assumes "items d' = items d"
  shows "find_in_bkt d' h k n p = find_in_bkt d h k n p"
proof (induction n arbitrary: p)
  case 0
  show ?case by (cases p) simp_all
next
  case (Suc n)
  then show ?case by (cases p) (simp_all add: assms cong del: if_weak_cong)
qed

lemma fsck_items_items:
  assumes "items d' = items d"
  shows "fsck_items d' n q p c = fsck_items d n q p c"
proof (induction n arbitrary: q p c)
  case 0
  show ?case by (cases p) simp_all
next
  case (Suc n)
  then show ?case by (cases p) (simp_all add: assms cong del: if_weak_cong)
qed

lemma fsck_chain_items:
  assumes "items d' = items d"
  shows "fsck_chain d' n q p c = fsck_chain d n q p c"
proof (induction n arbitrary: q p c)
  case 0
  show ?case by (cases p) simp_all
next
  case (Suc n)
  then show ?case by (cases p) (simp_all add: assms cong del: if_weak_cong)
qed

lemma fsck_buckets_items:
  "items d' = items d \<Longrightarrow> tick d' = tick d \<Longrightarrow> fsck_buckets d' bs c = fsck_buckets d bs c"
  by (induction bs arbitrary: c) (simp_all add: fsck_chain_items [of d' d] cong del: if_weak_cong)

text \<open>The table as it would be with the right tail.\<close>

lemma sel_rep_ut:
  fixes d :: "'a uheap_scheme"
  assumes "sel_rep d dst le as"
  shows "\<exists>d0 :: 'a uheap_scheme. ut_rep d0 dst as \<and> items d0 = items d \<and> hash_find_int d0 dst k = hash_find_int d dst k \<and>
    hash_fsck d0 dst = hash_fsck d dst"
proof (cases "as = []")
  case True
  with assms have "ut_rep d dst as" by (simp add: sel_rep_def ut_rep_def)
  then show ?thesis by blast
next
  case False
  with assms obtain ta t where t: "dst = Some (hd as)" "tbls d ta = Some t"
    "listed d ta (t\<lparr>t_tail := Some (last as)\<rparr>) as" "bucketed d t (set as)" "num_items t = of_nat (length as)"
    by (auto simp: sel_rep_def)
  let ?t = "t\<lparr>t_tail := Some (last as)\<rparr>"
  let ?d = "set_tbl ta ?t d"
  have l: "listed ?d ta ?t as" by (rule listed_cong [OF t(3)]) simp_all
  have bu: "bucketed ?d ?t (set as)" by (rule bucketed_cong [OF t(4)]) simp_all
  have "ut_rep ?d dst as" using l bu t(1,5) False unfolding ut_rep_def by (intro conjI disjI2 exI [of _ ta] exI [of _ ?t]) simp_all
  moreover have "tbl_of ?d dst = Inr (ta, ?t)" "tbl_of d dst = Inr (ta, t)"
    unfolding t(1) using listedD(4) [OF l, of "hd as"] listedD(4) [OF t(3), of "hd as"] False t(2)
    by (auto intro: tbl_of_keyed)
  then have "hash_find_int ?d dst k = hash_find_int d dst k" "hash_fsck ?d dst = hash_fsck d dst"
    by (simp_all add: hash_find_int_def hash_fsck_def bucket_at_def find_in_bkt_items [of ?d d]
        fsck_items_items [of ?d d] fsck_buckets_items [of ?d d] Let_def cong del: if_weak_cong)
  moreover have "items ?d = items d" by simp
  ultimately show ?thesis by blast
qed

text \<open>Selecting from a well-formed table.\<close>

lemma hash_select_ok:
  fixes s :: "'b uheap_scheme" and d :: "'a uheap_scheme"
  assumes src: "ut_rep s src xs" and same: "held d = held s" "tick s \<le> tick d" and mem: "\<And>n. e_malloc E n"
    and small: "\<And>as. distinct as \<Longrightarrow> set as = {a \<in> set xs. cond (the (items s a))} \<Longrightarrow> stays_small E s as (None, None, d)"
  shows "\<exists>dst d' as. hash_select E cond None s src d = Inr (dst, d') \<and> same_store d d' \<and> distinct as \<and>
    set as = {a \<in> set xs. cond (the (items s a))} \<and> sel_rep d' dst (last_or None as) as \<and> small_tables d'"
proof -
  from hash_select_run [OF src, where 'a = 'a] obtain ys where ys: "distinct ys" "set ys = set xs"
    "\<And>E cond dst (d :: 'a uheap_scheme). hash_select E cond dst s src d =
      andThen (select_run E s (chosen cond s ys) (dst, None, d)) (\<lambda>(dst, last_elt, d). Inr (dst, d))" by blast
  let ?as = "chosen cond s ys"
  have as: "distinct ?as" "set ?as = {a \<in> set xs. cond (the (items s a))}" using ys(1,2) by auto
  have uk: "ukey d a = ukey s a" for a using ukey_held [of d a s] same(1) by simp
  have "selectables s d ([] @ ?as)"
  proof (cases "xs = []")
    case True
    with ys(2) show ?thesis by (simp add: selectables_def)
  next
    case False
    with src obtain ta t where l: "listed s ta t xs" by (auto simp: ut_rep_def)
    have k: "keyed s ta a" if "a \<in> set ?as" for a using that listedD(4) [OF l, of a] ys(2) by auto
    have "inj_on (ukey d) (set ?as)"
      using listedD(3) [OF l] uk ys(2) unfolding inj_on_def by auto
    moreover have "a \<in> dom (items d) \<and> a < tick d \<and> h_key (hf s a) = Some a \<and> h_keylen (hf s a) = 4 \<and>
        h_hashv (hf s a) = hash_jen (ukey d a)" if "a \<in> set ?as" for a
      using k [OF that] same(2) held_dom [OF same(1)] uk by (simp add: keyed_def hmeta_def)
    ultimately show ?thesis using as(1) unfolding selectables_def by simp
  qed
  moreover have "sel_rep d None None []" by (simp add: sel_rep_def)
  ultimately obtain dst le d' where r: "select_run E s ?as (None, None, d) = Inr (dst, le, d')" "same_store d d'"
    "sel_rep d' dst le ([] @ ?as)" using select_run_ok [OF _ _ small [OF as] mem, of "[]"] by blast
  have "small_tables d'" using r(1) small [OF as] unfolding stays_small_def by (metis order_refl take_all)
  moreover have "le = last_or None ?as" using r(3) by (simp add: sel_rep_def)
  ultimately show ?thesis using r as ys(3) by (intro exI [of _ dst] exI [of _ d'] exI [of _ ?as]) simp
qed

section \<open>Adding to a selected table\<close>

text \<open>
  \<open>HASH_ADD_INT\<close> links a new item behind the tail, which is the first of the selected items: the others
  are no longer on the list, though they are in the buckets.
\<close>

lemma add_selected:
  assumes rep: "sel_rep d dst le as" and two: "2 \<le> length as" "length as < 2 ^ 31"
    and a: "a \<in> dom (items d)" "a < tick d" "a \<notin> set as" and mem: "\<And>n. e_malloc E n" and small: "small_tables d"
  shows "\<exists>d'. hash_add_int E dst a d = Inr (dst, d') \<and> nxt d' (hd as) = Some a \<and> nxt d' a = None \<and>
    hash_fsck d' dst = Inl (Exit (-1))"
proof -
  have ne: "as \<noteq> []" using two(1) by auto
  with rep obtain ta t where t: "dst = Some (hd as)" "tbls d ta = Some t"
    "listed d ta (t\<lparr>t_tail := Some (last as)\<rparr>) as" "bucketed d t (set as)" "num_items t = of_nat (length as)"
    "t_tail t = Some (hd as)" by (auto simp: sel_rep_def)
  note l = listedD [OF t(3)]
  have hd: "hd as \<in> set as" "hd as \<in> dom (items d)" "hd as \<noteq> a" using ne l(7) a(3) by (auto intro: hd_in_set)
  let ?h = "hash_jen (ukey d a)"
  let ?d1 = "key_item a ?h d"
  let ?d2 = "own_item a ta ?d1"
  let ?d3 = "upd_opt (Some a) (\<lambda>h. h\<lparr>h_next := None, h_prev := Some (hd as)\<rparr>) ?d2"
  let ?d4 = "upd_opt (Some (hd as)) (\<lambda>h. h\<lparr>h_next := Some a\<rparr>) ?d3"
  let ?t4 = "t\<lparr>t_tail := Some a, num_items := num_items t + 1\<rparr>"
  let ?d5 = "set_tbl ta ?t4 ?d4"
  from a(1) obtain i where i: "items d a = Some i" by blast
  have h: "hash_jen (int_bytes (i_id i)) = ?h" by (simp add: ukey_def i)
  have m: "modify_hh (Some a) (\<lambda>x. x\<lparr>h_hashv := ?h, h_key := Some a, h_keylen := 4\<rparr>) d = Inr ?d1"
      "modify_hh (Some a) (\<lambda>h. h\<lparr>h_tbl := Some ta\<rparr>) ?d1 = Inr ?d2"
      "modify_hh (Some a) (\<lambda>h. h\<lparr>h_next := None, h_prev := Some (hd as)\<rparr>) ?d2 = Inr ?d3"
      "modify_hh (Some (hd as)) (\<lambda>h. h\<lparr>h_next := Some a\<rparr>) ?d3 = Inr ?d4"
    unfolding key_item_def own_item_def using a(1) hd(2) by (simp_all add: modify_hh_eq)
  have links: "prv ?d5 = (prv d)(a := Some (hd as))" "nxt ?d5 = (nxt d)(a := None, hd as := Some a)"
    "cprv ?d5 = cprv d" "cnxt ?d5 = cnxt d" "hmeta ?d5 = hmeta ?d2"
    using a(1) hd(2) by (simp_all add: link_updates both_links key_item_fields)
  have ma: "hmeta ?d2 a = (Some ta, Some a, 4, ?h)" using a(1) by (simp add: key_item_meta)
  have mx: "hmeta ?d1 x = hmeta d x" "hmeta ?d2 x = hmeta d x" if "x \<in> set as" for x
  proof -
    have "x \<noteq> a" using that a(3) by blast
    then show "hmeta ?d1 x = hmeta d x" "hmeta ?d2 x = hmeta d x" by (simp_all add: key_item_fields)
  qed
  have tb: "tbl_of ?d1 dst = Inr (ta, t)" "tbl_of ?d2 dst = Inr (ta, t)"
    "tbl_of (set_tbl ta (t\<lparr>t_tail := Some a\<rparr>) ?d4) dst = Inr (ta, t\<lparr>t_tail := Some a\<rparr>)"
    unfolding t(1) using l(4) [OF hd(1)] mx [OF hd(1)] links(5) t(2)
    by (auto intro!: tbl_of_keyed simp: keyed_def)
  have "hash_append_list dst a ?d2 = Inr (set_tbl ta (t\<lparr>t_tail := Some a\<rparr>) ?d4)"
    using tb(2) m(3,4) t(6) by (simp add: hash_append_list_def)
  then have add: "hash_add_int E dst a d =
      andThen (add_to_bkt E ta (hash_to_bkt ?h (num_buckets t)) a ?d5) (\<lambda>d. Inr (dst, d))"
    using i m(1,2) tb(1,3) t(1)
    by (simp add: hash_add_int_def h Let_def hash_add_to_table_def) (simp add: set_tbl_def)
  have hv: "hv ?d5 a = ?h" using links(5) ma by (simp add: hv_hmeta)
  have "bucketed ?d5 ?t4 (set as)"
    by (rule bucketed_cong [OF t(4) links(3,4)]) (use mx links(5) in simp_all)
  moreover have "tbls ?d5 ta = Some ?t4" "num_buckets ?t4 < 2 ^ 31" using small t(2) by (simp_all add: small_tables_def)
  moreover have "insert a (set as) \<subseteq> dom (items ?d5)" using a(1) l(7) by auto
  moreover have below: "x < tick ?d5" if "x \<in> insert a (set as)" for x
    using a(2) l(4) [of x] that by (auto simp: keyed_def)
  ultimately obtain d' t' where r: "add_to_bkt E ta (hash_to_bkt (hv ?d5 a) (num_buckets ?t4)) a ?d5 = Inr d'"
    "same_store ?d5 d'" "tbls d' = (tbls ?d5)(ta \<mapsto> t')" "bucketed d' t' (insert a (set as))"
    "num_items t' = num_items ?t4" "prv d' = prv ?d5" "nxt d' = nxt ?d5" "hmeta d' = hmeta ?d5"
    using add_to_bkt_ok [of ?d5 ta ?t4 "set as" E a] mem a(3) by blast
  have dom: "dom (items d') = dom (items d)" "tick d \<le> tick d'" using same_storeD [OF r(2)] by simp_all
  have "keyed d' ta (hd as)"
    using l(4) [OF hd(1)] mx(2) [OF hd(1)] links(5) r(8) dom same_storeD(2) [OF r(2)] by (simp add: keyed_def)
  then have tb': "tbl_of d' dst = Inr (ta, t')" unfolding t(1) by (rule tbl_of_keyed) (simp add: r(3))
  have cnt: "num_items t' = of_nat (Suc (length as))" using r(5) t(5) by simp
  have "bucketed d' t' (set (a # as))" using r(4) by simp
  moreover have "distinct (a # as)" "set (a # as) \<subseteq> dom (items d')" using a(1,3) l(2,7) dom(1) by auto
  moreover have "x < tick d'" if "x \<in> set (a # as)" for x using below [of x] that dom(2) by fastforce
  ultimately have fb: "fsck_buckets d' (take (unat (num_buckets t')) (buckets t')) 0 = Inr (num_items t')"
    using fsck_buckets_count [of d' t' "a # as"] cnt by simp
  have "prv d (hd as) = None" using l(5) ne by (cases as) simp_all
  then have "dseg (prv d') (nxt d') None [hd as, a] None" using r(6,7) links(1,2) hd(3) by simp
  moreover have "set [hd as, a] \<subseteq> dom (items d')" using hd(2) a(1) dom(1) by simp
  moreover have "length [hd as, a] < Suc (tick d')"
  proof -
    have "hd as < tick d'" "a < tick d'" "hd as \<noteq> a" using below [of "hd as"] below [of a] hd dom(2) by auto
    then show ?thesis by (cases "tick d' \<le> 1") auto
  qed
  ultimately have fi: "fsck_items d' (Suc (tick d')) None dst 0 = Inr 2"
    using fsck_items_ok [of d' None "[hd as, a]" "Suc (tick d')" 0] t(1) by simp
  have "num_items t' \<noteq> 2"
  proof
    assume "num_items t' = 2"
    then have "unat (of_nat (Suc (length as)) :: u32) = 2" using cnt by simp
    moreover have "unat (of_nat (Suc (length as)) :: u32) = Suc (length as)" using two(2) by (subst unat_of_nat) simp
    ultimately show False using two(1) by simp
  qed
  then have "hash_fsck d' dst = Inl (Exit (-1))" using tb' fb fi t(1) by (simp add: hash_fsck_def)
  moreover have "hash_add_int E dst a d = Inr (dst, d')" using add r(1) hv by simp
  ultimately show ?thesis using r(7) links(2) hd(3) by simp
qed

section \<open>Few items\<close>

text \<open>One addition doubles the buckets at most once.\<close>

definition upto_buckets :: "nat \<Rightarrow> 'a uheap_scheme \<Rightarrow> bool" where
  "upto_buckets k d \<longleftrightarrow> (\<forall>ta t. tbls d ta = Some t \<longrightarrow> unat (num_buckets t) \<le> 2 ^ k)"

lemma upto_set_tbl:
  "upto_buckets k d \<Longrightarrow> unat (num_buckets t) \<le> 2 ^ k \<Longrightarrow> upto_buckets k (set_tbl ta t d)"
  by (auto simp: upto_buckets_def)

lemma upto_same: "tbls d' = tbls d \<Longrightarrow> upto_buckets k d' = upto_buckets k d"
  by (simp add: upto_buckets_def)

lemma upto_tbl_of: "tbl_of d h = Inr (ta, t) \<Longrightarrow> upto_buckets k d \<Longrightarrow> unat (num_buckets t) \<le> 2 ^ k"
  by (auto simp: upto_buckets_def dest: tbl_of_tbls)

lemma upto_mono: "upto_buckets k d \<Longrightarrow> k \<le> m \<Longrightarrow> upto_buckets m d"
  unfolding upto_buckets_def by (meson le_trans one_le_numeral power_increasing)

lemma expand_chain_tbls:
  "expand_chain nb2 ideal n p nbs ni s = Inr (nbs', ni', s') \<Longrightarrow> tbls s' = tbls s"
proof (induction nb2 ideal n p nbs ni s rule: expand_chain.induct)
  case (3 nb2 ideal n a nbs ni s)
  then show ?case by (auto simp: res_simps Let_def split: if_split_asm dest!: modify_hh_tbls)
qed auto

lemma expand_all_tbls:
  "expand_all nb2 ideal bs nbs ni s = Inr (nbs', ni', s') \<Longrightarrow> tbls s' = tbls s"
  by (induction bs arbitrary: nbs ni s) (auto simp: res_simps dest!: expand_chain_tbls)

lemma unat_double: "unat (n * 2 :: u32) \<le> 2 * unat n"
  by (simp add: unat_word_ariths)

lemma expand_upto:
  assumes "hash_expand_buckets E ta s = Inr s'" "upto_buckets k s"
  shows "upto_buckets (Suc k) s'"
proof -
  from assms(1) obtain t t' s1 where t: "tbls s ta = Some t" "s' = set_tbl ta t' s1" "num_buckets t' = num_buckets t * 2"
    "tbls s1 = tbls s"
    by (auto simp: hash_expand_buckets_def res_simps Let_def split: if_split_asm dest!: expand_all_tbls)
  have "unat (num_buckets t) \<le> 2 ^ k" using assms(2) t(1) by (auto simp: upto_buckets_def)
  then have "unat (num_buckets t') \<le> 2 ^ Suc k" unfolding t(3) using unat_double [of "num_buckets t"] by simp
  moreover have "upto_buckets (Suc k) s1" using upto_mono [OF assms(2), of "Suc k"] upto_same [OF t(4)] by simp
  ultimately show ?thesis unfolding t(2) by (rule upto_set_tbl [rotated])
qed

lemma add_to_bkt_upto:
  assumes "add_to_bkt E ta b a s = Inr s'" "upto_buckets k s"
  shows "upto_buckets (Suc k) s'"
proof -
  have "\<exists>t bk s1. tbls s ta = Some t \<and> tbls s1 = tbls s \<and>
    (hash_expand_buckets E ta (set_bucket ta t b bk s1) = Inr s' \<or> s' = set_bucket ta t b bk s1)"
    using assms(1) by (auto simp: add_to_bkt_def res_simps Let_def split: if_split_asm dest!: modify_hh_tbls) blast+
  then obtain t bk s1 where t: "tbls s ta = Some t" "tbls s1 = tbls s"
    "hash_expand_buckets E ta (set_bucket ta t b bk s1) = Inr s' \<or> s' = set_bucket ta t b bk s1" by blast
  have "upto_buckets k s1" using assms(2) upto_same [OF t(2)] by simp
  moreover have "unat (num_buckets t) \<le> 2 ^ k" using assms(2) t(1) by (auto simp: upto_buckets_def)
  ultimately have b: "upto_buckets k (set_bucket ta t b bk s1)"
    by (simp add: set_bucket_def upto_set_tbl)
  with t(3) show ?thesis using expand_upto upto_mono [OF b, of "Suc k"] by auto
qed

lemma make_table_upto:
  assumes "hash_make_table E a s = Inr s'" "upto_buckets k s" "5 \<le> k"
  shows "upto_buckets k s'"
proof -
  have "(32 :: nat) \<le> 2 ^ k" using power_increasing [OF assms(3), of "2 :: nat"] by simp
  with assms show ?thesis
    by (auto simp: hash_make_table_def Let_def upto_buckets_def split: if_split_asm dest!: modify_hh_tbls)
qed

lemma select_item_upto:
  assumes "select_item E a h (dst, le, d) = Inr (dst', le', d')" "upto_buckets k d" "5 \<le> k"
  shows "upto_buckets (Suc k) d'"
proof -
  have "\<exists>d1 d2 d3 d4 ta (t :: utable) ta' t'.
    modify_hh (Some a) (\<lambda>g. g\<lparr>h_key := h_key h, h_keylen := h_keylen h, h_hashv := h_hashv h,
                h_prev := le, h_next := None\<rparr>) d = Inr d1 \<and>
    (if le \<noteq> None then modify_hh le (\<lambda>g. g\<lparr>h_next := Some a\<rparr>) d1 else Inr d1) = Inr d2 \<and>
    (if dst = None then andThen (hash_make_table E a d2) (\<lambda>d. Inr (Some a, d))
      else andThen (tbl_of d2 dst) (\<lambda>(ta, t).
           andThen (modify_hh (Some a) (\<lambda>g. g\<lparr>h_tbl := Some ta\<rparr>) d2) (\<lambda>d. Inr (dst, d)))) = Inr (dst', d3) \<and>
    add_to_bkt E ta (hash_to_bkt (h_hashv h) (num_buckets t)) a d3 = Inr d4 \<and>
    tbl_of d4 dst' = Inr (ta', t') \<and> d' = set_tbl ta' (t'\<lparr>num_items := num_items t' + 1\<rparr>) d4"
    using assms(1)
    unfolding select_item_def prod.case andThen_eq_Inr split_paired_Ex sum.inject prod.inject
    by - (elim exE conjE, hypsubst, intro exI conjI, (assumption | rule refl)+)
  then obtain d1 d2 d3 d4 ta and t :: utable and ta' t' where s:
    "modify_hh (Some a) (\<lambda>g. g\<lparr>h_key := h_key h, h_keylen := h_keylen h, h_hashv := h_hashv h,
                h_prev := le, h_next := None\<rparr>) d = Inr d1"
    "(if le \<noteq> None then modify_hh le (\<lambda>g. g\<lparr>h_next := Some a\<rparr>) d1 else Inr d1) = Inr d2"
    "(if dst = None then andThen (hash_make_table E a d2) (\<lambda>d. Inr (Some a, d))
      else andThen (tbl_of d2 dst) (\<lambda>(ta, t).
           andThen (modify_hh (Some a) (\<lambda>g. g\<lparr>h_tbl := Some ta\<rparr>) d2) (\<lambda>d. Inr (dst, d)))) = Inr (dst', d3)"
    "add_to_bkt E ta (hash_to_bkt (h_hashv h) (num_buckets t)) a d3 = Inr d4"
    "tbl_of d4 dst' = Inr (ta', t')" "d' = set_tbl ta' (t'\<lparr>num_items := num_items t' + 1\<rparr>) d4" by blast
  have "tbls d2 = tbls d" using s(1,2) by (auto split: if_split_asm dest!: modify_hh_tbls)
  then have "upto_buckets k d2" using assms(2) upto_same by blast
  moreover have "tbls d3 = tbls d2" if "dst \<noteq> None" using s(3) that by (auto simp: res_simps dest!: modify_hh_tbls)
  moreover have "hash_make_table E a d2 = Inr d3" if "dst = None" using s(3) that by (auto simp: res_simps)
  ultimately have "upto_buckets k d3" using make_table_upto [OF _ _ assms(3)] upto_same by blast
  then have d4: "upto_buckets (Suc k) d4" using add_to_bkt_upto [OF s(4)] by blast
  with upto_tbl_of [OF s(5) this] show ?thesis unfolding s(6) by (simp add: upto_set_tbl)
qed

lemma select_run_upto:
  "select_run E s as (dst, le, d) = Inr (dst', le', d') \<Longrightarrow> upto_buckets k d \<Longrightarrow> 5 \<le> k \<Longrightarrow> upto_buckets (k + length as) d'"
proof (induction as arbitrary: dst le d k)
  case Nil
  then show ?case by simp
next
  case (Cons a as)
  from Cons.prems(1) obtain dst1 le1 d1 where 1: "select_item E a (hf s a) (dst, le, d) = Inr (dst1, le1, d1)"
    "select_run E s as (dst1, le1, d1) = Inr (dst', le', d')" by (auto simp: res_simps)
  from Cons.IH [OF 1(2) select_item_upto [OF 1(1) Cons.prems(2,3)]] Cons.prems(3) show ?case by simp
qed

lemma stays_small_few:
  assumes "upto_buckets 5 d" "length as \<le> 25"
  shows "stays_small E s as (dst, le, d)"
  unfolding stays_small_def
proof (intro allI impI)
  fix n dst' le' d' assume "select_run E s (take n as) (dst, le, d) = Inr (dst', le', d')"
  from upto_mono [OF select_run_upto [OF this assms(1)], of 30] assms(2) have "upto_buckets 30 d'" by simp
  then have "unat (num_buckets t) \<le> 2 ^ 30" if "tbls d' ta = Some t" for ta t using that unfolding upto_buckets_def by blast
  then have "num_buckets t < 2 ^ 31" if "tbls d' ta = Some t" for ta t
    using that by (fastforce simp: word_less_nat_alt)
  then show "small_tables d'" by (simp add: small_tables_def)
qed

lemma hash_add_upto:
  assumes "hash_add_int E head a s = Inr (head', s')" "upto_buckets k s" "5 \<le> k"
  shows "upto_buckets (Suc k) s'"
proof -
  have add: "upto_buckets (Suc k) s2" if "hash_add_to_table E h hv a s1 = Inr s2" "upto_buckets k s1" for s1 s2 h hv
  proof -
    from that(1) obtain ta t where t: "tbl_of s1 h = Inr (ta, t)"
      "add_to_bkt E ta (hash_to_bkt hv (num_buckets t)) a (set_tbl ta (t\<lparr>num_items := num_items t + 1\<rparr>) s1) = Inr s2"
      by (auto simp: hash_add_to_table_def res_simps)
    have "upto_buckets k (set_tbl ta (t\<lparr>num_items := num_items t + 1\<rparr>) s1)"
      using upto_tbl_of [OF t(1) that(2)] that(2) by (simp add: upto_set_tbl)
    with t(2) show ?thesis by (rule add_to_bkt_upto)
  qed
  have app: "upto_buckets k s2" if "hash_append_list h a s1 = Inr s2" "upto_buckets k s1" for s1 s2 h
  proof -
    from that(1) obtain ta t s3 where t: "tbl_of s1 h = Inr (ta, t)" "tbls s3 = tbls s1" "s2 = set_tbl ta (t\<lparr>t_tail := Some a\<rparr>) s3"
      by (auto simp: hash_append_list_def res_simps dest!: modify_hh_tbls)
    with upto_tbl_of [OF t(1) that(2)] that(2) upto_same [OF t(2)] show ?thesis by (simp add: upto_set_tbl)
  qed
  from assms(1) obtain s1 s2 h hv where s: "upto_buckets k s1" "hash_add_to_table E h hv a s1 = Inr s2" "s' = s2"
  proof (cases "head = None")
    case True
    from assms(1) True obtain s0 s1 hv where "tbls s0 = tbls s" "hash_make_table E a s0 = Inr s1"
      "hash_add_to_table E (Some a) hv a s1 = Inr s'" by (auto simp: hash_add_int_def Let_def res_simps dest!: modify_hh_tbls)
    with that make_table_upto [OF _ _ assms(3)] assms(2) upto_same show ?thesis by blast
  next
    case False
    from assms(1) False obtain s0 s1 hv where "tbls s0 = tbls s" "hash_append_list head a s0 = Inr s1"
      "hash_add_to_table E head hv a s1 = Inr s'" by (auto simp: hash_add_int_def Let_def res_simps dest!: modify_hh_tbls)
    with that app assms(2) upto_same show ?thesis by blast
  qed
  with add show ?thesis by blast
qed

section \<open>Properties\<close>

text \<open>
  C15: \<open>HASH_SELECT\<close> into an empty table puts exactly the items of a well-formed table that satisfy the
  condition into it: a lookup in the new table finds an item if and only if it is in the old one under
  that key and satisfies the condition, the integrity check passes, and the old table is only read.
\<close>

theorem hash_select_spec:
  fixes s :: "'b uheap_scheme" and d :: "'a uheap_scheme"
  assumes "ut_rep s src xs" "held d = held s" "tick s \<le> tick d" "\<And>n. e_malloc E n"
    and "\<And>as. distinct as \<Longrightarrow> set as = {a \<in> set xs. cond (the (items s a))} \<Longrightarrow> stays_small E s as (None, None, d)"
  shows "\<exists>dst d'. hash_select E cond None s src d = Inr (dst, d') \<and> hash_fsck d' dst = Inr () \<and>
    (\<forall>k a. hash_find_int d' dst k = Inr (Some a) \<longleftrightarrow> a \<in> set xs \<and> cond (the (items s a)) \<and> ukey s a = int_bytes k)"
proof -
  from hash_select_ok [OF assms] obtain dst d' as where
    r: "hash_select E cond None s src d = Inr (dst, d')" "same_store d d'"
      "set as = {a \<in> set xs. cond (the (items s a))}" "sel_rep d' dst (last_or None as) as" by blast
  have "hash_find_int d' dst k = Inr (Some a) \<longleftrightarrow> a \<in> set as \<and> ukey s a = int_bytes k" for k a
  proof -
    from sel_rep_ut [OF r(4), of k] obtain d0 :: "'a uheap_scheme" where
      d0: "ut_rep d0 dst as" "items d0 = items d'" "hash_find_int d0 dst k = hash_find_int d' dst k" by blast
    have "ukey d0 = ukey d'" by (rule fields_items(3) [OF d0(2)])
    moreover have "ukey d a = ukey s a" by (rule ukey_held) (simp only: assms(2))
    ultimately have "ukey d0 a = ukey s a" using same_storeD(2) [OF r(2)] by simp
    with ut.lookup_Some [OF d0(1), of k a] d0(3) show ?thesis by simp
  qed
  moreover from sel_rep_ut [OF r(4), of 0] obtain d0 :: "'a uheap_scheme" where
    "ut_rep d0 dst as" "hash_fsck d0 dst = hash_fsck d' dst" by blast
  then have "hash_fsck d' dst = Inr ()" using hash_fsck_ok by metis
  ultimately show ?thesis using r(1,3) by auto
qed

text \<open>
  C16: adding an item to a table that \<open>HASH_SELECT\<close> has filled with two or more breaks it: the macro has
  left the tail at the first of them, the new item is linked behind that one, the others drop out of
  the list of the table, and the library's integrity check ends the process.
\<close>

theorem select_then_add_breaks:
  fixes s :: "'b uheap_scheme" and d :: "'a uheap_scheme"
  assumes "ut_rep s src xs" "held d = held s" "tick s \<le> tick d" "\<And>n. e_malloc E n"
    and "\<And>as. distinct as \<Longrightarrow> set as = {a \<in> set xs. cond (the (items s a))} \<Longrightarrow> stays_small E s as (None, None, d)"
    and "2 \<le> card {a \<in> set xs. cond (the (items s a))}" "card {a \<in> set xs. cond (the (items s a))} < 2 ^ 31"
    and "b \<in> dom (items s)" "b < tick s" "\<not> (b \<in> set xs \<and> cond (the (items s b)))"
  shows "\<exists>dst d1 d2. hash_select E cond None s src d = Inr (dst, d1) \<and> hash_fsck d1 dst = Inr () \<and>
    hash_add_int E dst b d1 = Inr (dst, d2) \<and>
    (\<exists>a \<in> set xs. dst = Some a \<and> nxt d2 a = Some b \<and> nxt d2 b = None) \<and> hash_fsck d2 dst = Inl (Exit (-1))"
proof -
  from hash_select_ok [OF assms(1-5)] obtain dst d1 as where
    r: "hash_select E cond None s src d = Inr (dst, d1)" "same_store d d1" "distinct as"
      "set as = {a \<in> set xs. cond (the (items s a))}" "sel_rep d1 dst (last_or None as) as" "small_tables d1" by blast
  have len: "length as = card {a \<in> set xs. cond (the (items s a))}" using r(3,4) distinct_card by metis
  have two: "2 \<le> length as" using len assms(6) by (simp only:)
  then have ne: "as \<noteq> []" by auto
  have "b \<in> dom (items d1)" "b < tick d1" "b \<notin> set as"
    using assms(3,8-10) held_dom [OF assms(2)] same_storeD [OF r(2)] r(4) by auto
  from add_selected [OF r(5) two _ this assms(4) r(6)] len assms(7) obtain d2 where
    d2: "hash_add_int E dst b d1 = Inr (dst, d2)" "nxt d2 (hd as) = Some b" "nxt d2 b = None"
      "hash_fsck d2 dst = Inl (Exit (-1))" by auto
  have "dst = Some (hd as)" using r(5) ne by (simp add: sel_rep_def)
  moreover have "hd as \<in> set xs" using hd_in_set [OF ne] r(4) by auto
  moreover from sel_rep_ut [OF r(5), of 0] obtain d0 :: "'a uheap_scheme" where
    "ut_rep d0 dst as" "hash_fsck d0 dst = hash_fsck d1 dst" by blast
  then have "hash_fsck d1 dst = Inr ()" using hash_fsck_ok by metis
  ultimately show ?thesis using r(1) d2 by blast
qed

text \<open>Three items, two of them in a table, for the witnesses.\<close>

definition three_items :: uheap where
  "three_items = \<lparr>tick = 10, log = [], live = {}, blocks = Map.empty, msgs = Map.empty,
     items = [3 \<mapsto> plain_item 7, 4 \<mapsto> plain_item 8, 5 \<mapsto> plain_item 9], tbls = Map.empty\<rparr>"

lemma two_in_a_table:
  obtains s :: uheap and src where "ut_rep s src [3, 4]" "held three_items = held s" "10 \<le> tick s"
proof -
  have keys: "ukey three_items 3 = int_bytes 7" "ukey three_items 4 = int_bytes 8" "int_bytes 8 \<noteq> int_bytes 7"
    by (simp_all add: ukey_def three_items_def plain_item_def) code_simp
  have up: "upto_buckets 5 three_items" by (simp add: upto_buckets_def three_items_def)
  have mem: "e_malloc demo_env n" for n by (simp add: demo_env_def)
  have "ut_rep three_items None []" by (simp add: ut_rep_def)
  from hash_add_ok [OF this, of 3 demo_env] obtain s1 where
    s1: "hash_add_int demo_env None 3 three_items = Inr (Some 3, s1)" "same_store three_items s1" "ut_rep s1 (Some 3) [3]"
    using mem by (auto simp: three_items_def tbl_of_def deref_def)
  have "upto_buckets 6 s1" using hash_add_upto [OF s1(1) up] by simp
  then have small: "num_buckets t < 2 ^ 31" if "tbl_of s1 (Some 3) = Inr (ta, t)" for ta t
    using upto_tbl_of [OF that] by (fastforce simp: word_less_nat_alt)
  have small: "\<And>ta t. tbl_of s1 (Some 3) = Inr (ta, t) \<Longrightarrow> num_buckets t < 2 ^ 31" by (rule small)
  note st = same_storeD [OF s1(2)]
  have "4 \<in> dom (items s1)" "4 < tick s1" "(4 :: addr) \<notin> set [3]" "ukey s1 4 \<notin> ukey s1 ` set [3]"
    using st keys by (auto simp: three_items_def)
  from hash_add_ok [OF s1(3) this, of demo_env] mem small obtain s2 where
    s2: "same_store s1 s2" "ut_rep s2 (Some 3) [3, 4]" by auto
  from same_store_trans [OF s1(2) s2(1)] have "held three_items = held s2" "10 \<le> tick s2"
    by (simp_all add: same_store_def three_items_def)
  with s2(2) that show ?thesis by blast
qed

lemma three_items_small:
  assumes "distinct as" "set as = {a \<in> set [3, 4]. P a}"
  shows "stays_small E s as (None, None, three_items\<lparr>tick := n\<rparr>)"
proof (rule stays_small_few)
  show "upto_buckets 5 (three_items\<lparr>tick := n\<rparr>)" by (simp add: upto_buckets_def three_items_def)
  have "length as = card (set as)" using assms(1) by (simp add: distinct_card)
  also have "\<dots> \<le> card {3, 4 :: addr}" unfolding assms(2) by (rule card_mono) auto
  finally show "length as \<le> 25" by simp
qed

lemma three_items_sel: "held (three_items\<lparr>tick := n\<rparr>) = held three_items" "ukey (three_items\<lparr>tick := n\<rparr>) = ukey three_items"
  by (rule fields_items; simp)+

lemma held_id: "held s' a = held s a \<Longrightarrow> a \<in> dom (items s') \<Longrightarrow> i_id (the (items s a)) = i_id (the (items s' a))"
  by (cases "items s a") (auto simp: held_def)

theorem hash_select_spec_witness:
  "\<exists>(s :: uheap) src dst (d :: uheap).
    hash_select demo_env (\<lambda>i. i_id i < 8) None s src (three_items\<lparr>tick := tick s\<rparr>) = Inr (dst, d) \<and>
    hash_find_int d dst 7 = Inr (Some 3) \<and> hash_find_int d dst 8 \<noteq> Inr (Some 4)"
proof -
  from two_in_a_table obtain s :: uheap and src where
    s: "ut_rep s src [3, 4]" "held three_items = held s" "10 \<le> tick s" by blast
  let ?d = "three_items\<lparr>tick := tick s\<rparr>"
  have mem: "e_malloc demo_env n" for n by (simp add: demo_env_def)
  have h: "held ?d = held s" "tick s \<le> tick ?d" using s(2) three_items_sel by simp_all
  have it: "items three_items 3 = Some (plain_item 7)" "items three_items 4 = Some (plain_item 8)"
    by (simp_all add: three_items_def)
  have "held three_items a = held s a" for a by (simp only: s(2))
  from held_id [OF this, of 3] held_id [OF this, of 4] it
  have id: "i_id (the (items s 3)) = 7" "i_id (the (items s 4)) = 8"
    by (simp_all add: domI plain_item_def)
  then have key: "ukey s 3 = int_bytes 7" by (simp add: ukey_def)
  have "stays_small demo_env s as (None, None, ?d)"
    if "distinct as" "set as = {a \<in> set [3, 4]. i_id (the (items s a)) < 8}" for as
    by (rule three_items_small [OF that])
  from hash_select_spec [where cond = "\<lambda>i. i_id i < 8", OF s(1) h mem this] obtain dst d where
    r: "hash_select demo_env (\<lambda>i. i_id i < 8) None s src ?d = Inr (dst, d)"
    "\<forall>k a. hash_find_int d dst k = Inr (Some a) \<longleftrightarrow> a \<in> set [3, 4] \<and> i_id (the (items s a)) < 8 \<and> ukey s a = int_bytes k"
    by blast
  have "hash_find_int d dst 7 = Inr (Some 3)" using r(2) [rule_format, of 7 3] id(1) key by (simp only: list.set) simp
  moreover have "hash_find_int d dst 8 \<noteq> Inr (Some 4)" using r(2) [rule_format, of 8 4] id(2) by (simp only:) simp
  ultimately show ?thesis using r(1) by blast
qed

theorem select_then_add_breaks_witness:
  "\<exists>(s :: uheap) src dst (d1 :: uheap) d2.
    hash_select demo_env (\<lambda>i. True) None s src (three_items\<lparr>tick := tick s\<rparr>) = Inr (dst, d1) \<and>
    hash_fsck d1 dst = Inr () \<and> hash_add_int demo_env dst 5 d1 = Inr (dst, d2) \<and> hash_fsck d2 dst = Inl (Exit (-1))"
proof -
  from two_in_a_table obtain s :: uheap and src where
    s: "ut_rep s src [3, 4]" "held three_items = held s" "10 \<le> tick s" by blast
  let ?d = "three_items\<lparr>tick := tick s\<rparr>"
  have mem: "e_malloc demo_env n" for n by (simp add: demo_env_def)
  have h: "held ?d = held s" "tick s \<le> tick ?d" using s(2) three_items_sel by simp_all
  have two: "card {a \<in> set [3, 4 :: addr]. True} = 2"
  proof -
    have "{a \<in> set [3, 4 :: addr]. True} = {3, 4}" by auto
    then show ?thesis by simp
  qed
  have "dom (items s) = dom (items three_items)" by (rule held_dom) (simp add: s(2))
  then have b: "5 \<in> dom (items s)" "5 < tick s" using s(3) by (simp_all add: three_items_def)
  have "2 \<le> card {a \<in> set [3, 4 :: addr]. True}" "card {a \<in> set [3, 4 :: addr]. True} < 2 ^ 31"
    "\<not> (5 \<in> set [3, 4 :: addr] \<and> True)" unfolding two by simp_all
  note c = this
  have "stays_small demo_env s as (None, None, ?d)" if "distinct as" "set as = {a \<in> set [3, 4]. True}" for as
    by (rule three_items_small [OF that])
  from select_then_add_breaks [where cond = "\<lambda>i. True", OF s(1) h mem this c(1,2) b c(3)] show ?thesis by blast
qed

end
