(* ===== verification/Hash_Nonfatal.thy ===== *)
theory Hash_Nonfatal
  imports Hash_Inorder
begin

text \<open>
  The build of \<^verbatim>\<open>local_lib/uthash.h\<close> that survives a failed allocation (\<open>HASH_NONFATAL_OOM\<close>): where the
  other build ends the process, an insertion records the failure in \<open>_ha_oomed\<close>, takes back what it has
  done and tells the user's \<open>uthash_nonfatal_oom\<close>. An insertion returns \<open>_ha_oomed\<close> with the head: it is
  set exactly when the user's hook has been called.
\<close>

section \<open>The macros\<close>

text \<open>A table after its buckets have been zeroed.\<close>

definition new_table :: "addr \<Rightarrow> utable" where
  "new_table a = \<lparr>buckets = replicate 32 bucket_zero, num_buckets = 32, log2_num_buckets = 5,
     num_items = 0, t_tail = Some a, ideal_chain_maxlen = 0, nonideal_items = 0,
     ineff_expands = 0, noexpand = 0, signature = 0xa0111fe1\<rparr>"

text \<open>\<open>HASH_MAKE_TABLE\<close>: when there is no memory for the buckets the table is freed again.\<close>

definition nf_make_table :: "env \<Rightarrow> addr \<Rightarrow> 'a uheap_scheme \<Rightarrow> (bool \<times> 'a uheap_scheme) res" where
  "nf_make_table E a s =
     (let ta = tick s; s = step s in
      if \<not> e_malloc E ta
      then andThen (modify_hh (Some a) (\<lambda>h. h\<lparr>h_tbl := None\<rparr>) s) (\<lambda>s. Inr (True, s))
      else let ba = tick s; s = step s in
        andThen (modify_hh (Some a) (\<lambda>h. h\<lparr>h_tbl := Some ta\<rparr>) (set_tbl ta (new_table a) s)) (\<lambda>s.
          if \<not> e_malloc E ba then Inr (True, s\<lparr>tbls := (tbls s)(ta := None)\<rparr>) else Inr (False, s)))"

text \<open>
  \<open>HASH_EXPAND_BUCKETS\<close>: with memory for the new buckets it goes on like the macro of the other build,
  whose own request is the one tested here.
\<close>

definition nf_expand_buckets :: "env \<Rightarrow> addr \<Rightarrow> 'a uheap_scheme \<Rightarrow> (bool \<times> 'a uheap_scheme) res" where
  "nf_expand_buckets E ta s =
     (if \<not> e_malloc E (tick s) then Inr (True, step s)
      else andThen (hash_expand_buckets E ta s) (\<lambda>s. Inr (False, s)))"

text \<open>\<open>HASH_ADD_TO_BKT\<close>\<close>

definition nf_add_to_bkt :: "env \<Rightarrow> addr \<Rightarrow> u32 \<Rightarrow> addr \<Rightarrow> 'a uheap_scheme \<Rightarrow> (bool \<times> 'a uheap_scheme) res" where
  "nf_add_to_bkt E ta b a s =
     andThen (deref (tbls s) (Some ta)) (\<lambda>(ta, t).
     andThen (bucket_at t b) (\<lambda>bk.
       let bk = bk\<lparr>b_count := b_count bk + 1\<rparr> in
       andThen (modify_hh (Some a) (\<lambda>h. h\<lparr>hh_next := hh_head bk, hh_prev := None\<rparr>) s) (\<lambda>s.
       andThen (if hh_head bk = None then Inr s
                else modify_hh (hh_head bk) (\<lambda>h. h\<lparr>hh_prev := Some a\<rparr>) s) (\<lambda>s.
       let s = set_bucket ta t b (bk\<lparr>hh_head := Some a\<rparr>) s in
       if (expand_mult bk + 1) * 10 \<le> b_count bk \<and> noexpand t = 0
       then andThen (nf_expand_buckets E ta s) (\<lambda>(oomed, s).
         if oomed then andThen (del_in_bkt ta b a s) (\<lambda>s. Inr (True, s)) else Inr (False, s))
       else Inr (False, s)))))"

text \<open>\<open>HASH_ROLLBACK_BKT\<close>: the count goes up again, for the deletion that follows.\<close>

definition nf_rollback_bkt :: "addr option \<Rightarrow> addr \<Rightarrow> 'a uheap_scheme \<Rightarrow> 'a uheap_scheme res" where
  "nf_rollback_bkt head a s =
     andThen (deref (items s) (Some a)) (\<lambda>(a, i).
     andThen (tbl_of s head) (\<lambda>(ta, t).
     let b = hash_to_bkt (h_hashv (i_hh i)) (num_buckets t) in
     andThen (bucket_at t b) (\<lambda>bk.
       modify_hh (Some a) (\<lambda>h. h\<lparr>hh_next := None, hh_prev := None\<rparr>)
         (set_bucket ta t b (bk\<lparr>b_count := b_count bk + 1\<rparr>) s))))"

text \<open>\<open>HASH_ADD_TO_TABLE\<close>\<close>

definition nf_add_to_table ::
  "env \<Rightarrow> addr option \<Rightarrow> u32 \<Rightarrow> addr \<Rightarrow> bool \<Rightarrow> 'a uheap_scheme \<Rightarrow> (addr option \<times> bool \<times> 'a uheap_scheme) res" where
  "nf_add_to_table E head hashv a oomed s =
     (if \<not> oomed
      then andThen (tbl_of s head) (\<lambda>(ta, t).
        andThen (nf_add_to_bkt E ta (hash_to_bkt hashv (num_buckets t)) a
            (set_tbl ta (t\<lparr>num_items := num_items t + 1\<rparr>) s)) (\<lambda>(oomed, s).
        if oomed
        then andThen (nf_rollback_bkt head a s) (\<lambda>s.
          andThen (hash_delete head a s) (\<lambda>(head, s).
          andThen (modify_hh (Some a) (\<lambda>h. h\<lparr>h_tbl := None\<rparr>) s) (\<lambda>s. Inr (head, True, s))))
        else Inr (head, False, s)))
      else andThen (modify_hh (Some a) (\<lambda>h. h\<lparr>h_tbl := None\<rparr>) s) (\<lambda>s. Inr (head, True, s)))"

text \<open>\<open>HASH_ADD_INT\<close> and \<open>HASH_ADD_INORDER\<close>, that is the two macros by hash value.\<close>

definition nf_add_int ::
  "env \<Rightarrow> addr option \<Rightarrow> addr \<Rightarrow> 'a uheap_scheme \<Rightarrow> (addr option \<times> bool \<times> 'a uheap_scheme) res" where
  "nf_add_int E head a s =
     andThen (deref (items s) (Some a)) (\<lambda>(a, i).
       let hashv = hash_jen (int_bytes (i_id i)) in
       andThen (modify_hh (Some a) (\<lambda>h. h\<lparr>h_hashv := hashv, h_key := Some a, h_keylen := 4\<rparr>) s) (\<lambda>s.
       andThen (if head = None
                then andThen (modify_hh (Some a) (\<lambda>h. h\<lparr>h_next := None, h_prev := None\<rparr>) s) (\<lambda>s.
                     andThen (nf_make_table E a s) (\<lambda>(oomed, s).
                       Inr (if \<not> oomed then Some a else head, oomed, s)))
                else andThen (tbl_of s head) (\<lambda>(ta, t).
                     andThen (modify_hh (Some a) (\<lambda>h. h\<lparr>h_tbl := Some ta\<rparr>) s) (\<lambda>s.
                     andThen (hash_append_list head a s) (\<lambda>s. Inr (head, False, s))))) (\<lambda>(head, oomed, s).
         nf_add_to_table E head hashv a oomed s)))"

definition nf_add_inorder ::
  "env \<Rightarrow> item_cmp \<Rightarrow> addr option \<Rightarrow> addr \<Rightarrow> 'a uheap_scheme \<Rightarrow> (addr option \<times> bool \<times> 'a uheap_scheme) res" where
  "nf_add_inorder E c head a s =
     andThen (deref (items s) (Some a)) (\<lambda>(a, i).
       let hashv = hash_jen (int_bytes (i_id i)) in
       andThen (modify_hh (Some a) (\<lambda>h. h\<lparr>h_hashv := hashv, h_key := Some a, h_keylen := 4\<rparr>) s) (\<lambda>s.
       andThen (if head = None
                then andThen (modify_hh (Some a) (\<lambda>h. h\<lparr>h_next := None, h_prev := None\<rparr>) s) (\<lambda>s.
                     andThen (nf_make_table E a s) (\<lambda>(oomed, s).
                       Inr (if \<not> oomed then Some a else head, oomed, s)))
                else andThen (tbl_of s head) (\<lambda>(ta, t).
                     andThen (modify_hh (Some a) (\<lambda>h. h\<lparr>h_tbl := Some ta\<rparr>) s) (\<lambda>s.
                     andThen (akbi_loop c a (Suc (tick s)) head s) (\<lambda>it.
                     andThen (akbi_link head a it s) (\<lambda>(head, s). Inr (head, False, s)))))) (\<lambda>(head, oomed, s).
         nf_add_to_table E head hashv a oomed s)))"

section \<open>Frames\<close>

lemma bucketed_frame:
  assumes bu: "bucketed s t A" and A: "\<And>x. x \<in> A \<Longrightarrow> cprv s' x = cprv s x \<and> cnxt s' x = cnxt s x \<and> hmeta s' x = hmeta s x"
    and t: "buckets t' = buckets t" "num_buckets t' = num_buckets t" "log2_num_buckets t' = log2_num_buckets t"
  shows "bucketed s' t' A"
proof -
  from bu obtain k C where C: "sized t k" "chained s (buckets t) C" "spread s (num_buckets t) C A"
    by (auto simp: bucketed_def)
  have "slot s' n x = slot s n x" if "x \<in> A" for n x using A [OF that] by (simp add: slot_def hv_hmeta)
  then have "spread s' (num_buckets t') C A" using C(3) t(2) by (auto simp: spread_def)
  moreover have "chained s' (buckets t') C"
    unfolding chained_def t(1)
  proof (intro conjI allI impI)
    fix i assume i: "i < length (buckets t)"
    note c = chainedD [OF C(2) i]
    have "set (C ! i) \<subseteq> A" using spread_sub [OF C(3)] i c(1) by simp
    then have "dseg (cprv s') (cnxt s') None (C ! i) None = dseg (cprv s) (cnxt s) None (C ! i) None"
      by (intro dseg_cong) (use A in blast)
    with c show "hh_head (buckets t ! i) = head_or (C ! i) None" "b_count (buckets t ! i) = of_nat (length (C ! i))"
      "distinct (C ! i)" "dseg (cprv s') (cnxt s') None (C ! i) None" by simp_all
  qed (use C(2) in \<open>simp add: chained_def\<close>)
  moreover have "sized t' k" using C(1) t by (simp add: sized_def)
  ultimately show ?thesis unfolding bucketed_def by blast
qed

text \<open>A table does not depend on the handle of an item outside.\<close>

lemma listed_frame:
  assumes li: "listed s ta t as" and as: "\<And>x. x \<in> set as \<Longrightarrow> prv s' x = prv s x \<and> nxt s' x = nxt s x \<and> hmeta s' x = hmeta s x"
    and s': "ukey s' = ukey s" "dom (items s') = dom (items s)" "tick s \<le> tick s'" "t_tail t' = t_tail t"
  shows "listed s' ta t' as"
proof -
  have "dseg (prv s') (nxt s') None as None = dseg (prv s) (nxt s) None as None"
    by (rule dseg_cong) (use as in blast)
  with assms show ?thesis by (auto simp: listed_def keyed_def)
qed

definition disown :: "addr \<Rightarrow> 'a uheap_scheme \<Rightarrow> 'a uheap_scheme" where
  "disown a s = upd_opt (Some a) (\<lambda>h. h\<lparr>h_tbl := None\<rparr>) s"

lemma disown_fields:
  "prv (disown a s) = prv s" "nxt (disown a s) = nxt s" "cprv (disown a s) = cprv s" "cnxt (disown a s) = cnxt s"
  "x \<noteq> a \<Longrightarrow> hmeta (disown a s) x = hmeta s x" "a \<in> dom (items s) \<Longrightarrow> h_tbl (hf (disown a s) a) = None"
  "tbls (disown a s) = tbls s" "tick (disown a s) = tick s"
  by (auto simp: disown_def upd_opt_def upd_hh_def prv_def nxt_def cprv_def cnxt_def hmeta_def hf_def fun_eq_iff)

lemma disown_store [simp]: "same_store s' (disown a s) = same_store s' s"
  by (simp add: disown_def)

lemma disown_rep:
  assumes "ut_rep s head as" "a \<notin> set as"
  shows "ut_rep (disown a s) head as"
proof (cases "as = []")
  case True
  with assms(1) show ?thesis by (simp add: ut_rep_def)
next
  case False
  with assms(1) obtain ta t where t: "head = head_or as None" "tbls s ta = Some t" "listed s ta t as"
    "bucketed s t (set as)" "num_items t = of_nat (length as)" by (auto simp: ut_rep_def)
  have ne: "x \<noteq> a" if "x \<in> set as" for x using that assms(2) by blast
  have "same_store s (disown a s)" by simp
  note st = same_storeD [OF this]
  have "listed (disown a s) ta t as"
    by (rule listed_frame [OF t(3)]) (use ne st in \<open>simp_all add: disown_fields\<close>)
  moreover have "bucketed (disown a s) t (set as)"
    by (rule bucketed_frame [OF t(4)]) (use ne in \<open>simp_all add: disown_fields\<close>)
  ultimately show ?thesis unfolding ut_rep_def using t(1,2,5) by (auto simp: disown_fields)
qed


section \<open>Adding to a bucket without memory\<close>

abbreviation plenty :: "env \<Rightarrow> env" where
  "plenty E \<equiv> E\<lparr>e_malloc := \<lambda>_. True\<rparr>"

lemma expand_plenty: "e_malloc E (tick s) \<Longrightarrow> hash_expand_buckets E ta s = hash_expand_buckets (plenty E) ta s"
  by (cases "deref (tbls s) (Some ta)") (simp_all add: hash_expand_buckets_def Let_def)

text \<open>Below the threshold nothing is asked of the allocator.\<close>

lemma nf_add_to_bkt_below:
  assumes "tbls s ta = Some t" "bucket_at t b = Inr bk" "\<not> ((expand_mult bk + 1) * 10 \<le> b_count bk + 1 \<and> noexpand t = 0)"
  shows "nf_add_to_bkt E ta b a s = andThen (add_to_bkt E' ta b a s) (\<lambda>s. Inr (False, s))"
proof -
  let ?m = "modify_hh (Some a) (\<lambda>h. h\<lparr>hh_next := hh_head bk, hh_prev := None\<rparr>) s"
  show ?thesis
  proof (cases ?m)
    case (Inr u)
    let ?n = "if hh_head bk = None then Inr u else modify_hh (hh_head bk) (\<lambda>h. h\<lparr>hh_prev := Some a\<rparr>) u"
    show ?thesis
      by (cases ?n) (use assms Inr in \<open>auto simp: nf_add_to_bkt_def add_to_bkt_def Let_def cong del: if_weak_cong\<close>)
  qed (use assms in \<open>simp add: nf_add_to_bkt_def add_to_bkt_def Let_def\<close>)
qed

lemma nf_add_to_bkt_ok:
  fixes s :: "'a uheap_scheme"
  assumes t: "tbls s ta = Some t" and bu: "bucketed s t A"
    and A: "insert a A \<subseteq> dom (items s)" "\<And>x. x \<in> insert a A \<Longrightarrow> x < tick s" "a \<notin> A"
    and small: "num_buckets t < 2 ^ 31"
  shows "(\<exists>s'. nf_add_to_bkt E ta (hash_to_bkt (hv s a) (num_buckets t)) a s = Inr (False, s') \<and>
      add_to_bkt (plenty E) ta (hash_to_bkt (hv s a) (num_buckets t)) a s = Inr s') \<or>
    (\<exists>s' t'. nf_add_to_bkt E ta (hash_to_bkt (hv s a) (num_buckets t)) a s = Inr (True, s') \<and>
      \<not> e_malloc E (tick s) \<and> same_store s s' \<and> tbls s' = (tbls s)(ta \<mapsto> t') \<and> bucketed s' t' A \<and>
      t_tail t' = t_tail t \<and> num_items t' = num_items t \<and> prv s' = prv s \<and> nxt s' = nxt s \<and> hmeta s' = hmeta s)"
proof -
  let ?b = "hash_to_bkt (hv s a) (num_buckets t)"
  let ?i = "slot s (num_buckets t) a" and ?bk = "buckets t ! slot s (num_buckets t) a"
  let ?t = "t\<lparr>buckets := (buckets t)[?i := ?bk\<lparr>b_count := b_count ?bk + 1, hh_head := Some a\<rparr>]\<rparr>"
  let ?s1 = "set_tbl ta ?t (push_links a (hh_head ?bk) s)"
  note l = bkt_linked [OF bu A(1,3)]
  from add_to_bkt_ok [OF t bu _ A small, of "plenty E"] obtain s' where
    s': "add_to_bkt (plenty E) ta ?b a s = Inr s'" by auto
  have bk: "bucket_at t ?b = Inr ?bk" using l(1) by (simp add: bucket_at_def slot_def)
  show ?thesis
  proof (cases "(expand_mult ?bk + 1) * 10 \<le> b_count ?bk + 1 \<and> noexpand t = 0")
    case False
    from nf_add_to_bkt_below [OF t bk this, of E a "plenty E"] s' show ?thesis by simp
  next
    case True
    have nf: "nf_add_to_bkt E ta ?b a s = andThen (nf_expand_buckets E ta ?s1) (\<lambda>(oomed, s).
         if oomed then andThen (del_in_bkt ta ?b a s) (\<lambda>s. Inr (True, s)) else Inr (False, s))"
      using l(1-3) t True
      by (simp add: nf_add_to_bkt_def bucket_at_def set_bucket_def push_links_def slot_def [symmetric] Let_def
          cong del: if_weak_cong)
    have add: "add_to_bkt (plenty E) ta ?b a s = hash_expand_buckets (plenty E) ta ?s1"
      using l(1-3) t True
      by (simp add: add_to_bkt_def bucket_at_def set_bucket_def push_links_def slot_def [symmetric] Let_def
          cong del: if_weak_cong)
    show ?thesis
    proof (cases "e_malloc E (tick s)")
      case True
      then have "e_malloc E (tick ?s1)" by (simp only: l(6))
      with nf s' [unfolded add] expand_plenty [OF this, of ta] show ?thesis
        by (simp add: nf_expand_buckets_def s')
    next
      case False
      let ?s2 = "step ?s1"
      from False nf have nf2: "nf_add_to_bkt E ta ?b a s = andThen (del_in_bkt ta ?b a ?s2) (\<lambda>s. Inr (True, s))"
        using l(6) by (simp add: nf_expand_buckets_def)
      have "bucketed ?s2 ?t (insert a A)" by (rule bucketed_cong [OF l(4)]) simp_all
      moreover have "tbls ?s2 ta = Some ?t" "insert a A \<subseteq> dom (items ?s2)"
        using A(1) same_storeD(1) [OF l(5)] by simp_all
      ultimately obtain s3 t3 where r: "del_in_bkt ta (hash_to_bkt (hv ?s2 a) (num_buckets ?t)) a ?s2 = Inr s3"
        "same_store ?s2 s3" "tbls s3 = (tbls ?s2)(ta \<mapsto> t3)" "bucketed s3 t3 (insert a A - {a})"
        "t_tail t3 = t_tail ?t" "num_items t3 = num_items ?t" "prv s3 = prv ?s2" "nxt s3 = nxt ?s2" "hmeta s3 = hmeta ?s2"
        using del_in_bkt_ok [of ?s2 ta ?t "insert a A" a] by blast
      have "hv ?s2 a = hv s a" using l(10) by (simp add: hv_hmeta)
      then have "nf_add_to_bkt E ta ?b a s = Inr (True, s3)" using nf2 r(1) by simp
      moreover have "same_store s ?s2" using l(5) by simp
      from same_store_trans [OF this r(2)] have "same_store s s3" .
      moreover have "insert a A - {a} = A" using A(3) by blast
      ultimately show ?thesis using False r(3-9) l(8-10) by (intro disjI2 exI [of _ s3] exI [of _ t3]) simp
    qed
  qed
qed


section \<open>Taking an insertion back\<close>

text \<open>
  After the rollback the item is in no chain but counted in its bucket, so that the deletion that
  follows only corrects the count.
\<close>

lemma rolled_back_leaves:
  fixes s s' :: "'a uheap_scheme"
  assumes bu: "bucketed s t A" and a: "a \<notin> A" "cprv s' a = None" "cnxt s' a = None"
    and out: "\<And>x. x \<noteq> a \<Longrightarrow> cprv s' x = cprv s x \<and> cnxt s' x = cnxt s x" and hm: "hmeta s' = hmeta s"
    and dom: "a \<in> dom (items s')"
  defines "i \<equiv> slot s (num_buckets t) a"
  defines "t' \<equiv> t\<lparr>buckets := (buckets t)[i := (buckets t ! i)\<lparr>b_count := b_count (buckets t ! i) + 1\<rparr>]\<rparr>"
  shows "leaves_bkt s' ta t' a A"
  unfolding leaves_bkt_def
proof (intro allI impI, elim conjE)
  fix u :: "'a uheap_scheme" and t0
  assume u: "cprv u = cprv s'" "cnxt u = cnxt s'" "hmeta u = hmeta s'" "dom (items u) = dom (items s')" "tbls u ta = Some t0"
    "buckets t0 = buckets t'" "num_buckets t0 = num_buckets t'" "log2_num_buckets t0 = log2_num_buckets t'"
  from bu obtain k C where C: "sized t k" "chained s (buckets t) C" "spread s (num_buckets t) C A"
    by (auto simp: bucketed_def)
  have i: "i < length (buckets t)" using slot_less [OF C(1), of s a] C(1) by (simp add: sized_def i_def)
  note c = chainedD [OF C(2) i]
  let ?bk = "buckets t ! i" and ?b = "hash_to_bkt (hv s' a) (num_buckets t')"
  have b: "unat ?b = i" by (simp add: hv_hmeta hm i_def slot_def t'_def)
  have "set (C ! i) \<subseteq> A" using spread_sub [OF C(3)] i c(1) by simp
  with a(1) c(2) have hd: "hh_head ?bk \<noteq> Some a" by (cases "C ! i") auto
  from dom u(4) obtain it where it: "items u a = Some it" by blast
  have "hh_prev (i_hh it) = cprv u a" "hh_next (i_hh it) = cnxt u a" by (simp_all add: cprv_def cnxt_def hf_def it)
  then have links: "hh_prev (i_hh it) = None" "hh_next (i_hh it) = None" using a(2,3) u(1,2) by simp_all
  let ?t = "t0\<lparr>buckets := buckets t\<rparr>"
  have bs: "buckets t0 = (buckets t)[i := ?bk\<lparr>b_count := b_count ?bk + 1\<rparr>]" using u(6) by (simp add: t'_def)
  have "del_in_bkt ta ?b a u = Inr (set_tbl ta ?t u)"
    using u(5) i it links hd by (simp add: del_in_bkt_def bucket_at_def set_bucket_def b bs Let_def)
  moreover have same: "cprv s' x = cprv s x \<and> cnxt s' x = cnxt s x" if "x \<in> A" for x
    by (rule out) (use that a(1) in blast)
  have "bucketed (set_tbl ta ?t u) ?t A"
    by (rule bucketed_frame [OF bu]) (use same u(1-3,7,8) hm in \<open>simp_all add: t'_def\<close>)
  ultimately show "\<exists>s'' t''. del_in_bkt ta ?b a u = Inr s'' \<and> same_store u s'' \<and> tick s'' = tick u \<and>
       tbls s'' = (tbls u)(ta \<mapsto> t'') \<and> bucketed s'' t'' A \<and> t_tail t'' = t_tail t0 \<and> num_items t'' = num_items t0 \<and>
       prv s'' = prv u \<and> nxt s'' = nxt u \<and> hmeta s'' = hmeta u"
    by (intro exI [of _ "set_tbl ta ?t u"] exI [of _ ?t]) simp
qed

lemma nf_rollback_ok:
  fixes s :: "'a uheap_scheme"
  assumes tb: "tbl_of s head = Inr (ta, t)" "tbls s ta = Some t" and bu: "bucketed s t A" and a: "a \<in> dom (items s)" "a \<notin> A"
  shows "\<exists>s' t'. nf_rollback_bkt head a s = Inr s' \<and> same_store s s' \<and> tick s' = tick s \<and> tbls s' = (tbls s)(ta \<mapsto> t') \<and>
    t_tail t' = t_tail t \<and> num_items t' = num_items t \<and> prv s' = prv s \<and> nxt s' = nxt s \<and> hmeta s' = hmeta s \<and>
    leaves_bkt s' ta t' a A"
proof -
  let ?i = "slot s (num_buckets t) a"
  let ?t = "t\<lparr>buckets := (buckets t)[?i := (buckets t ! ?i)\<lparr>b_count := b_count (buckets t ! ?i) + 1\<rparr>]\<rparr>"
  let ?s = "upd_opt (Some a) (\<lambda>h. h\<lparr>hh_next := None, hh_prev := None\<rparr>) (set_tbl ta ?t s)"
  from bu obtain k where k: "sized t k" by (auto simp: bucketed_def)
  have i: "?i < length (buckets t)" using slot_less [OF k, of s a] k by (simp add: sized_def)
  from a(1) obtain it where it: "items s a = Some it" by blast
  have h: "h_hashv (i_hh it) = hv s a" by (simp add: hv_def hf_def it)
  have "modify_hh (Some a) (\<lambda>h. h\<lparr>hh_next := None, hh_prev := None\<rparr>) (set_tbl ta ?t s) = Inr ?s"
    by (rule modify_hh_eq) (use a(1) in simp)
  then have "nf_rollback_bkt head a s = Inr ?s"
    using tb it i by (simp add: nf_rollback_bkt_def bucket_at_def set_bucket_def h slot_def [symmetric] Let_def)
  moreover have dom: "a \<in> dom (items (set_tbl ta ?t s))" using a(1) by simp
  have "leaves_bkt ?s ta ?t a A"
    by (rule rolled_back_leaves [OF bu a(2)]) (use a(1) dom in \<open>simp_all add: both_links\<close>)
  ultimately show ?thesis
    by (intro exI [of _ ?s] exI [of _ ?t]) simp
qed

text \<open>\<open>HASH_ADD_TO_TABLE\<close> does what it does in the other build, or takes the item out again.\<close>

lemma nf_add_to_table_ok:
  fixes s :: "'a uheap_scheme"
  assumes t: "tbls s ta = Some t" and l: "listed s ta t (us @ a # vs)" and bu: "bucketed s t (set (us @ vs))"
    and n: "num_items t + 1 = of_nat (length (us @ a # vs))" and small: "num_buckets t < 2 ^ 31" and ne: "us @ vs \<noteq> []"
  defines "head \<equiv> head_or (us @ a # vs) None" and "h \<equiv> hash_jen (ukey s a)"
  shows "(\<exists>s'. nf_add_to_table E head h a False s = Inr (head, False, s') \<and> hash_add_to_table (plenty E) head h a s = Inr s') \<or>
    (\<exists>s'. nf_add_to_table E head h a False s = Inr (head_or (us @ vs) None, True, s') \<and> \<not> e_malloc E (tick s) \<and>
      same_store s s' \<and> ut_rep s' (head_or (us @ vs) None) (us @ vs) \<and> h_tbl (hf s' a) = None)"
proof -
  let ?bs = "us @ a # vs" and ?A = "set (us @ vs)"
  note d = listedD [OF l]
  have hv: "hv s a = h" using d(4) [of a] by (simp add: keyed_def hv_hmeta h_def)
  let ?t = "t\<lparr>num_items := num_items t + 1\<rparr>"
  let ?s = "set_tbl ta ?t s"
  have "bucketed ?s ?t ?A" by (rule bucketed_cong [OF bu]) simp_all
  moreover have "insert a ?A \<subseteq> dom (items ?s)" using d(7) by auto
  moreover have "x < tick ?s" if "x \<in> insert a ?A" for x using d(4) [of x] that by (auto simp: keyed_def)
  moreover have "a \<notin> ?A" using d(2) by auto
  moreover have "num_buckets ?t < 2 ^ 31" "tbls ?s ta = Some ?t" using small by simp_all
  ultimately have two: "(\<exists>s'. nf_add_to_bkt E ta (hash_to_bkt h (num_buckets t)) a ?s = Inr (False, s') \<and>
      add_to_bkt (plenty E) ta (hash_to_bkt h (num_buckets t)) a ?s = Inr s') \<or>
    (\<exists>s' t'. nf_add_to_bkt E ta (hash_to_bkt h (num_buckets t)) a ?s = Inr (True, s') \<and>
      \<not> e_malloc E (tick s) \<and> same_store s s' \<and> tbls s' = (tbls s)(ta \<mapsto> t') \<and> bucketed s' t' ?A \<and>
      t_tail t' = t_tail t \<and> num_items t' = num_items t + 1 \<and> prv s' = prv s \<and> nxt s' = nxt s \<and> hmeta s' = hmeta s)"
    using nf_add_to_bkt_ok [of ?s ta ?t ?A a E] hv by (simp add: same_store_def)
  have tb: "tbl_of s head = Inr (ta, t)" unfolding head_def by (rule tbl_of_listed [OF l t])
  from two show ?thesis
  proof (elim disjE exE conjE)
    fix s' assume "nf_add_to_bkt E ta (hash_to_bkt h (num_buckets t)) a ?s = Inr (False, s')"
      "add_to_bkt (plenty E) ta (hash_to_bkt h (num_buckets t)) a ?s = Inr s'"
    with tb show ?thesis by (simp add: nf_add_to_table_def hash_add_to_table_def)
  next
    fix s1 t1 assume 1: "nf_add_to_bkt E ta (hash_to_bkt h (num_buckets t)) a ?s = Inr (True, s1)" "\<not> e_malloc E (tick s)"
      "same_store s s1" "tbls s1 = (tbls s)(ta \<mapsto> t1)" "bucketed s1 t1 ?A" "t_tail t1 = t_tail t"
      "num_items t1 = num_items t + 1" "prv s1 = prv s" "nxt s1 = nxt s" "hmeta s1 = hmeta s"
    note st1 = same_storeD [OF 1(3)]
    have l1: "listed s1 ta t1 ?bs" by (rule listed_frame [OF l]) (use 1(6,8-10) st1 in simp_all)
    have "tbls s1 ta = Some t1" "a \<in> dom (items s1)" "a \<notin> ?A" using 1(4) st1(1) d(2) d(7) [of a] by auto
    from nf_rollback_ok [OF tbl_of_listed [OF l1 this(1)] this(1) 1(5) this(2,3)] obtain s2 t2 where
      2: "nf_rollback_bkt head a s1 = Inr s2" "same_store s1 s2" "tick s2 = tick s1" "tbls s2 = (tbls s1)(ta \<mapsto> t2)"
      "t_tail t2 = t_tail t1" "num_items t2 = num_items t1" "prv s2 = prv s1" "nxt s2 = nxt s1" "hmeta s2 = hmeta s1"
      "leaves_bkt s2 ta t2 a ?A" unfolding head_def by blast
    note st2 = same_storeD [OF 2(2)]
    have l2: "listed s2 ta t2 ?bs" by (rule listed_frame [OF l1]) (use 2(5,7-9) st2 in simp_all)
    have "tbls s2 ta = Some t2" "num_items t2 = of_nat (length ?bs)" using 2(4,6) 1(7) n by simp_all
    from hash_delete_listed [OF this(1) l2 this(2) ne 2(10)] obtain s3 where
      3: "hash_delete head a s2 = Inr (head_or (us @ vs) None, s3)" "same_store s2 s3"
      "ut_rep s3 (head_or (us @ vs) None) (us @ vs)" unfolding head_def by blast
    have st: "same_store s s3" by (rule same_store_trans [OF same_store_trans [OF 1(3) 2(2)] 3(2)])
    then have a3: "a \<in> dom (items s3)" using same_storeD(1) [OF st] d(7) [of a] by simp
    then have "modify_hh (Some a) (\<lambda>h. h\<lparr>h_tbl := None\<rparr>) s3 = Inr (disown a s3)" by (simp add: modify_hh_eq disown_def)
    then have "nf_add_to_table E head h a False s = Inr (head_or (us @ vs) None, True, disown a s3)"
      using tb 1(1) 2(1) 3(1) by (simp add: nf_add_to_table_def)
    moreover have "ut_rep (disown a s3) (head_or (us @ vs) None) (us @ vs)"
      by (rule disown_rep [OF 3(3)]) (use d(2) in auto)
    ultimately show ?thesis using 1(2) st disown_fields(6) [OF a3] by simp
  qed
qed


section \<open>The first item\<close>

lemma make_table_plenty:
  assumes "hash_make_table (plenty E) a s = Inr s'" "e_malloc E (tick s)" "e_malloc E (Suc (tick s))"
  shows "nf_make_table E a s = Inr (False, s')"
  using assms by (simp add: hash_make_table_def nf_make_table_def new_table_def Let_def)

lemma make_table_tbl:
  assumes "hash_make_table E a s = Inr s'"
  shows "\<exists>ta. tbls s' ta = Some (new_table a) \<and> tbl_of s' (Some a) = Inr (ta, new_table a)"
  using assms
  by (auto simp: hash_make_table_def modify_hh_def new_table_def tbl_of_def deref_def Let_def res_simps
      split: if_splits option.splits)

text \<open>A bucket of a new table is below the threshold.\<close>

lemma nf_add_to_new_table:
  assumes "hash_make_table E' a s = Inr s'" "hash_add_to_table E'' (Some a) h a s' = Inr s2"
  shows "nf_add_to_table E (Some a) h a False s' = Inr (Some a, False, s2)"
proof -
  from make_table_tbl [OF assms(1)] obtain ta where
    t: "tbls s' ta = Some (new_table a)" "tbl_of s' (Some a) = Inr (ta, new_table a)" by blast
  let ?t = "new_table a\<lparr>num_items := 1\<rparr>" and ?b = "hash_to_bkt h 32"
  let ?s = "set_tbl ta ?t s'"
  have n: "num_buckets (new_table a) = 32" "num_items (new_table a) = 0" by (simp_all add: new_table_def)
  have "?b = take_bit 5 h" using hash_to_bkt_mask [of h 5] by simp
  then have "unat ?b < 32" using take_bit_nat_less_exp [of 5 "unat h"] by (simp add: unsigned_take_bit_eq)
  then have "bucket_at ?t ?b = Inr bucket_zero" by (simp add: bucket_at_def new_table_def)
  moreover have "\<not> ((expand_mult bucket_zero + 1) * 10 \<le> b_count bucket_zero + 1 \<and> noexpand ?t = 0)"
    by (simp add: bucket_zero_def word_le_nat_alt)
  moreover have "tbls ?s ta = Some ?t" by simp
  ultimately have "nf_add_to_bkt E ta ?b a ?s = andThen (add_to_bkt E'' ta ?b a ?s) (\<lambda>s. Inr (False, s))"
    by (intro nf_add_to_bkt_below)
  with assms(2) t(2) n show ?thesis by (simp add: nf_add_to_table_def hash_add_to_table_def)
qed

lemma same_store_tbls [simp]: "same_store s (s'\<lparr>tbls := f\<rparr>) = same_store s s'"
  by (simp add: same_store_def held_def fun_eq_iff)

lemma nf_make_table_oom:
  assumes "a \<in> dom (items s)" "\<not> (e_malloc E (tick s) \<and> e_malloc E (Suc (tick s)))"
  shows "\<exists>s'. nf_make_table E a s = Inr (True, s') \<and> same_store s s'"
proof -
  have dom: "a \<in> dom (items (step s))" "a \<in> dom (items (set_tbl ta t (step (step s))))" for ta t using assms(1) by simp_all
  show ?thesis
    by (cases "e_malloc E (tick s)") (use assms(2) modify_hh_eq [OF dom(1)] modify_hh_eq [OF dom(2)] in \<open>simp_all add: nf_make_table_def Let_def\<close>)
qed

lemma nf_first_ok:
  assumes a: "a \<in> dom (items s)" "a < tick s"
  defines "h \<equiv> hash_jen (ukey s a)"
  shows "\<exists>s2 oomed s3 s'. modify_hh (Some a) (\<lambda>h. h\<lparr>h_next := None, h_prev := None\<rparr>) (key_item a h s) = Inr s2 \<and>
    nf_make_table E a s2 = Inr (oomed, s3) \<and> same_store s s' \<and>
    nf_add_to_table E (if \<not> oomed then Some a else None) h a oomed s3 = Inr (if \<not> oomed then Some a else None, oomed, s') \<and>
    (if oomed then h_tbl (hf s' a) = None \<and> \<not> (\<forall>n. e_malloc E n) else ut_rep s' (Some a) [a])"
proof -
  let ?s2 = "upd_opt (Some a) (\<lambda>h. h\<lparr>h_next := None, h_prev := None\<rparr>) (key_item a h s)"
  have mod2: "modify_hh (Some a) (\<lambda>h. h\<lparr>h_next := None, h_prev := None\<rparr>) (key_item a h s) = Inr ?s2"
    by (rule modify_hh_eq) (use a(1) in simp)
  have st2: "same_store s ?s2" "a \<in> dom (items ?s2)" using a(1) by simp_all
  show ?thesis
  proof (cases "e_malloc E (tick ?s2) \<and> e_malloc E (Suc (tick ?s2))")
    case True
    from first_item_ok [OF a, of "plenty E"] mod2 obtain s3 s' where
      r: "hash_make_table (plenty E) a ?s2 = Inr s3" "hash_add_to_table (plenty E) (Some a) h a s3 = Inr s'"
        "same_store s s'" "ut_rep s' (Some a) [a]" by (auto simp: h_def)
    from make_table_plenty [OF r(1)] True nf_add_to_new_table [OF r(1,2), of E] mod2 r(3,4) show ?thesis
      by (intro exI [of _ ?s2] exI [of _ False] exI [of _ s3] exI [of _ s']) simp
  next
    case False
    from nf_make_table_oom [OF st2(2) this] obtain s3 where s3: "nf_make_table E a ?s2 = Inr (True, s3)" "same_store ?s2 s3"
      by blast
    have dom: "a \<in> dom (items s3)" using same_storeD(1) [OF s3(2)] st2(2) by simp
    then have "nf_add_to_table E None h a True s3 = Inr (None, True, disown a s3)"
      by (simp add: nf_add_to_table_def modify_hh_eq disown_def)
    with mod2 s3(1) same_store_trans [OF st2(1) s3(2)] False disown_fields(6) [OF dom] show ?thesis
      by (intro exI [of _ ?s2] exI [of _ True] exI [of _ s3] exI [of _ "disown a s3"]) auto
  qed
qed


section \<open>Insertions\<close>

text \<open>
  What either insertion ends in: the table with the new item in it, as the other build leaves it when
  it has memory, or the table as it was.
\<close>

definition added_or_not ::
  "env \<Rightarrow> 'a uheap_scheme \<Rightarrow> addr list \<Rightarrow> addr \<Rightarrow> addr list \<Rightarrow> (addr option \<times> bool \<times> 'a uheap_scheme) res \<Rightarrow> bool" where
  "added_or_not E s as a bs r \<longleftrightarrow> (\<exists>oomed s'. r = Inr (head_or (if oomed then as else bs) None, oomed, s') \<and>
     same_store s s' \<and> ut_rep s' (head_or (if oomed then as else bs) None) (if oomed then as else bs) \<and>
     (oomed \<longrightarrow> h_tbl (hf s' a) = None \<and> \<not> (\<forall>n. e_malloc E n)))"

lemma nf_first_added:
  assumes "a \<in> dom (items s)" "a < tick s"
    and r: "\<And>s2 oomed s3. modify_hh (Some a) (\<lambda>h. h\<lparr>h_next := None, h_prev := None\<rparr>) (key_item a (hash_jen (ukey s a)) s) = Inr s2 \<Longrightarrow>
      nf_make_table E a s2 = Inr (oomed, s3) \<Longrightarrow>
      r = nf_add_to_table E (if \<not> oomed then Some a else None) (hash_jen (ukey s a)) a oomed s3"
  shows "added_or_not E s [] a [a] r"
proof -
  from nf_first_ok [OF assms(1,2), of E] obtain s2 oomed s3 s' where
    1: "modify_hh (Some a) (\<lambda>h. h\<lparr>h_next := None, h_prev := None\<rparr>) (key_item a (hash_jen (ukey s a)) s) = Inr s2"
    "nf_make_table E a s2 = Inr (oomed, s3)" "same_store s s'"
    "nf_add_to_table E (if \<not> oomed then Some a else None) (hash_jen (ukey s a)) a oomed s3 =
       Inr (if \<not> oomed then Some a else None, oomed, s')"
    "if oomed then h_tbl (hf s' a) = None \<and> \<not> (\<forall>n. e_malloc E n) else ut_rep s' (Some a) [a]" by blast
  from r [OF 1(1,2)] 1(3-5) show ?thesis
    unfolding added_or_not_def by (intro exI [of _ oomed] exI [of _ s']) (cases oomed; simp add: ut_rep_def)
qed

text \<open>The state in which an item has been linked into the list of a table and is in no bucket yet.\<close>

definition in_list :: "'a uheap_scheme \<Rightarrow> addr list \<Rightarrow> addr \<Rightarrow> addr list \<Rightarrow> 'a uheap_scheme \<Rightarrow> bool" where
  "in_list s as a bs s3 \<longleftrightarrow> (\<exists>us vs ta t. as = us @ vs \<and> bs = us @ a # vs \<and> same_store s s3 \<and> tbls s3 ta = Some t \<and>
     listed s3 ta t bs \<and> bucketed s3 t (set as) \<and> num_items t + 1 = of_nat (length bs) \<and> num_buckets t < 2 ^ 31)"

lemma nf_listed_added:
  assumes "in_list s as a bs s3" "as \<noteq> []"
  shows "added_or_not E s as a bs (nf_add_to_table E (head_or bs None) (hash_jen (ukey s a)) a False s3)"
proof -
  from assms(1) obtain us vs ta t where 1: "as = us @ vs" "bs = us @ a # vs" "same_store s s3" "tbls s3 ta = Some t"
    "listed s3 ta t (us @ a # vs)" "bucketed s3 t (set (us @ vs))" "num_items t + 1 = of_nat (length (us @ a # vs))"
    "num_buckets t < 2 ^ 31" unfolding in_list_def by blast
  have ne: "us @ vs \<noteq> []" using assms(2) 1(1) by simp
  have uk: "ukey s3 a = ukey s a" using same_storeD(2) [OF 1(3)] by simp
  have rest: "set (us @ a # vs) - {a} = set (us @ vs)" using listedD(2) [OF 1(5)] by auto
  from nf_add_to_table_ok [OF 1(4-8) ne, of E] show ?thesis
    unfolding uk 1(1,2)
  proof (elim disjE exE conjE)
    fix s' assume r: "nf_add_to_table E (head_or (us @ a # vs) None) (hash_jen (ukey s a)) a False s3 =
        Inr (head_or (us @ a # vs) None, False, s')"
      "hash_add_to_table (plenty E) (head_or (us @ a # vs) None) (hash_jen (ukey s a)) a s3 = Inr s'"
    have "\<exists>s'. hash_add_to_table (plenty E) (head_or (us @ a # vs) None) (hash_jen (ukey s3 a)) a s3 = Inr s' \<and>
        same_store s3 s' \<and> ut_rep s' (head_or (us @ a # vs) None) (us @ a # vs)"
      by (rule add_to_table_ok [OF 1(4,5)]) (use 1(6-8) rest in simp_all)
    with r(2) have "same_store s3 s'" "ut_rep s' (head_or (us @ a # vs) None) (us @ a # vs)" by (auto simp: uk)
    with r(1) same_store_trans [OF 1(3)] show "added_or_not E s (us @ vs) a (us @ a # vs)
        (nf_add_to_table E (head_or (us @ a # vs) None) (hash_jen (ukey s a)) a False s3)"
      unfolding added_or_not_def by (intro exI [of _ False] exI [of _ s']) simp
  next
    fix s' assume r: "nf_add_to_table E (head_or (us @ a # vs) None) (hash_jen (ukey s a)) a False s3 =
        Inr (head_or (us @ vs) None, True, s')" "\<not> e_malloc E (tick s3)" "same_store s3 s'"
      "ut_rep s' (head_or (us @ vs) None) (us @ vs)" "h_tbl (hf s' a) = None"
    from r same_store_trans [OF 1(3) r(3)] show "added_or_not E s (us @ vs) a (us @ a # vs)
        (nf_add_to_table E (head_or (us @ a # vs) None) (hash_jen (ukey s a)) a False s3)"
      unfolding added_or_not_def by (intro exI [of _ True] exI [of _ s']) auto
  qed
qed

text \<open>An item that may be added: it is allocated, and neither it nor its key is in the table.\<close>

definition newcomer :: "'a uheap_scheme \<Rightarrow> addr option \<Rightarrow> addr list \<Rightarrow> addr \<Rightarrow> bool" where
  "newcomer s head as a \<longleftrightarrow> a \<in> dom (items s) \<and> a < tick s \<and> a \<notin> set as \<and> ukey s a \<notin> ukey s ` set as \<and>
     (\<forall>ta t. tbl_of s head = Inr (ta, t) \<longrightarrow> num_buckets t < 2 ^ 31)"

lemma owned_table:
  assumes rep: "ut_rep s head as" "as \<noteq> []" and nc: "newcomer s head as a"
  defines "s1 \<equiv> key_item a (hash_jen (ukey s a)) s"
  obtains ta t where "head = head_or as None" "tbl_of s1 head = Inr (ta, t)" "num_buckets t < 2 ^ 31"
    "num_items t = of_nat (length as)" "tbls (own_item a ta s1) ta = Some t" "listed (own_item a ta s1) ta t as"
    "bucketed s t (set as)" "keyed (own_item a ta s1) ta a" "ukey (own_item a ta s1) a \<notin> ukey (own_item a ta s1) ` set as"
    "modify_hh (Some a) (\<lambda>h. h\<lparr>h_tbl := Some ta\<rparr>) s1 = Inr (own_item a ta s1)"
proof -
  from rep obtain ta t where t: "head = head_or as None" "tbls s ta = Some t" "listed s ta t as"
    "bucketed s t (set as)" "num_items t = of_nat (length as)" by (auto simp: ut_rep_def)
  from nc have a: "a \<in> dom (items s)" "a < tick s" "a \<notin> set as" "ukey s a \<notin> ukey s ` set as"
    and small: "\<And>ta t. tbl_of s head = Inr (ta, t) \<Longrightarrow> num_buckets t < 2 ^ 31" by (auto simp: newcomer_def)
  have ne: "x \<noteq> a" if "x \<in> set as" for x using that a(3) by blast
  have l1: "listed s1 ta t as" and l2: "listed (own_item a ta s1) ta t as"
    by (rule listed_cong [OF t(3)]; use ne in \<open>simp add: s1_def key_item_fields\<close>)+
  have "tbls s1 ta = Some t" using t(2) by (simp add: s1_def)
  from tbl_of_listed [OF l1 this] have tb: "tbl_of s1 head = Inr (ta, t)" by (simp add: t(1))
  have sm: "num_buckets t < 2 ^ 31" using small [of ta t] tbl_of_listed [OF t(3,2)] t(1) by simp
  have key: "keyed (own_item a ta s1) ta a" using a(1,2) by (simp add: s1_def keyed_def key_item_meta)
  have own: "modify_hh (Some a) (\<lambda>h. h\<lparr>h_tbl := Some ta\<rparr>) s1 = Inr (own_item a ta s1)"
    unfolding own_item_def by (rule modify_hh_eq) (use a(1) in \<open>simp add: s1_def\<close>)
  have "tbls (own_item a ta s1) ta = Some t" "ukey (own_item a ta s1) a \<notin> ukey (own_item a ta s1) ` set as"
    using t(2) a(4) by (simp_all add: s1_def)
  from that [OF t(1) tb sm t(5) this(1) l2 t(4) key this(2) own] show ?thesis .
qed


lemma keyed_first:
  assumes "newcomer s head as a" "items s a = Some i"
  shows "modify_hh (Some a) (\<lambda>h. h\<lparr>h_hashv := hash_jen (int_bytes (i_id i)), h_key := Some a, h_keylen := 4\<rparr>) s =
    Inr (key_item a (hash_jen (ukey s a)) s)" "hash_jen (int_bytes (i_id i)) = hash_jen (ukey s a)"
proof -
  show h: "hash_jen (int_bytes (i_id i)) = hash_jen (ukey s a)" by (simp add: ukey_def assms(2))
  show "modify_hh (Some a) (\<lambda>h. h\<lparr>h_hashv := hash_jen (int_bytes (i_id i)), h_key := Some a, h_keylen := 4\<rparr>) s =
      Inr (key_item a (hash_jen (ukey s a)) s)"
    unfolding h key_item_def by (rule modify_hh_eq) (use assms(1) in \<open>simp add: newcomer_def\<close>)
qed

lemma nf_add_ok:
  assumes rep: "ut_rep s head as" and nc: "newcomer s head as a"
  shows "added_or_not E s as a (as @ [a]) (nf_add_int E head a s)"
proof -
  let ?h = "hash_jen (ukey s a)"
  let ?s1 = "key_item a ?h s"
  from nc obtain i where i: "items s a = Some i" by (auto simp: newcomer_def)
  note k = keyed_first [OF nc i]
  have nf: "nf_add_int E head a s = andThen
      (if head = None
       then andThen (modify_hh (Some a) (\<lambda>h. h\<lparr>h_next := None, h_prev := None\<rparr>) ?s1) (\<lambda>s.
            andThen (nf_make_table E a s) (\<lambda>(oomed, s). Inr (if \<not> oomed then Some a else head, oomed, s)))
       else andThen (tbl_of ?s1 head) (\<lambda>(ta, t).
            andThen (modify_hh (Some a) (\<lambda>h. h\<lparr>h_tbl := Some ta\<rparr>) ?s1) (\<lambda>s.
            andThen (hash_append_list head a s) (\<lambda>s. Inr (head, False, s)))))
      (\<lambda>(head, oomed, s). nf_add_to_table E head ?h a oomed s)"
    using i k by (simp add: nf_add_int_def Let_def)
  show ?thesis
  proof (cases "as = []")
    case True
    with rep have head: "head = None" by (simp add: ut_rep_def)
    have "added_or_not E s [] a [a] (nf_add_int E head a s)"
      by (rule nf_first_added) (use nc in \<open>simp_all add: nf [unfolded head] head newcomer_def\<close>)
    then show ?thesis by (simp add: True)
  next
    case False
    from owned_table [OF rep False nc] obtain ta t where t: "head = head_or as None" "tbl_of ?s1 head = Inr (ta, t)"
      "num_buckets t < 2 ^ 31" "num_items t = of_nat (length as)" "tbls (own_item a ta ?s1) ta = Some t"
      "listed (own_item a ta ?s1) ta t as" "bucketed s t (set as)" "keyed (own_item a ta ?s1) ta a"
      "ukey (own_item a ta ?s1) a \<notin> ukey (own_item a ta ?s1) ` set as"
      "modify_hh (Some a) (\<lambda>h. h\<lparr>h_tbl := Some ta\<rparr>) ?s1 = Inr (own_item a ta ?s1)" .
    have out: "a \<notin> set as" using nc by (simp add: newcomer_def)
    from append_list_ok [OF t(5,6,8) out t(9)] obtain s3 t3 where
      r: "hash_append_list head a (own_item a ta ?s1) = Inr s3" "same_store (own_item a ta ?s1) s3"
        "tbls s3 = (tbls (own_item a ta ?s1))(ta \<mapsto> t3)" "listed s3 ta t3 (as @ [a])" "t3 = t\<lparr>t_tail := Some a\<rparr>"
        "cprv s3 = cprv (own_item a ta ?s1)" "cnxt s3 = cnxt (own_item a ta ?s1)" "hmeta s3 = hmeta (own_item a ta ?s1)"
      unfolding t(1) by blast
    have ne: "x \<noteq> a" if "x \<in> set as" for x using that out by blast
    have bu: "bucketed s3 t3 (set as)"
      by (rule bucketed_frame [OF t(7)]) (use r(5-8) ne in \<open>simp_all add: key_item_fields\<close>)
    have "same_store s (own_item a ta ?s1)" by simp
    from same_store_trans [OF this r(2)] have st: "same_store s s3" .
    have il: "in_list s as a (as @ [a]) s3"
      unfolding in_list_def
      by (rule exI [of _ as], rule exI [of _ "[]"], rule exI [of _ ta], rule exI [of _ t3]) (use st r(3-5) bu t(3,4) in simp)
    have hd: "head \<noteq> None" "head_or (as @ [a]) None = head" using t(1) False by simp_all
    have "nf_add_int E head a s = nf_add_to_table E head ?h a False s3"
      unfolding nf if_not_P [OF hd(1)] t(2) by (simp add: t(10) r(1))
    with nf_listed_added [OF il False, of E] hd(2) show ?thesis by simp
  qed
qed

lemma nf_add_inorder_ok:
  fixes c :: item_cmp
  assumes rep: "ut_rep s head as" and nc: "newcomer s head as a"
  shows "added_or_not E s as a (put_in_order c s a as) (nf_add_inorder E c head a s)"
proof -
  let ?h = "hash_jen (ukey s a)"
  let ?s1 = "key_item a ?h s"
  from nc obtain i where i: "items s a = Some i" by (auto simp: newcomer_def)
  note k = keyed_first [OF nc i]
  have nf: "nf_add_inorder E c head a s = andThen
      (if head = None
       then andThen (modify_hh (Some a) (\<lambda>h. h\<lparr>h_next := None, h_prev := None\<rparr>) ?s1) (\<lambda>s.
            andThen (nf_make_table E a s) (\<lambda>(oomed, s). Inr (if \<not> oomed then Some a else head, oomed, s)))
       else andThen (tbl_of ?s1 head) (\<lambda>(ta, t).
            andThen (modify_hh (Some a) (\<lambda>h. h\<lparr>h_tbl := Some ta\<rparr>) ?s1) (\<lambda>s.
            andThen (akbi_loop c a (Suc (tick s)) head s) (\<lambda>it.
            andThen (akbi_link head a it s) (\<lambda>(head, s). Inr (head, False, s))))))
      (\<lambda>(head, oomed, s). nf_add_to_table E head ?h a oomed s)"
    using i k by (simp add: nf_add_inorder_def Let_def)
  show ?thesis
  proof (cases "as = []")
    case True
    with rep have head: "head = None" by (simp add: ut_rep_def)
    have "added_or_not E s [] a [a] (nf_add_inorder E c head a s)"
      by (rule nf_first_added) (use nc in \<open>simp_all add: nf [unfolded head] head newcomer_def\<close>)
    then show ?thesis by (simp add: True put_in_order_def)
  next
    case False
    from owned_table [OF rep False nc] obtain ta t where t: "head = head_or as None" "tbl_of ?s1 head = Inr (ta, t)"
      "num_buckets t < 2 ^ 31" "num_items t = of_nat (length as)" "tbls (own_item a ta ?s1) ta = Some t"
      "listed (own_item a ta ?s1) ta t as" "bucketed s t (set as)" "keyed (own_item a ta ?s1) ta a"
      "ukey (own_item a ta ?s1) a \<notin> ukey (own_item a ta ?s1) ` set as"
      "modify_hh (Some a) (\<lambda>h. h\<lparr>h_tbl := Some ta\<rparr>) ?s1 = Inr (own_item a ta ?s1)" .
    let ?s2 = "own_item a ta ?s1" and ?bs = "put_in_order c s a as"
    have out: "a \<notin> set as" using nc by (simp add: newcomer_def)
    have pl: "put_in_order c ?s2 a as = ?bs" by (rule in_order_cong) simp
    from akbi_place_ok [OF t(5,6,8) out t(9), of c] obtain s3 t3 where
      r: "andThen (akbi_loop c a (Suc (tick ?s2)) head ?s2) (\<lambda>it. akbi_link head a it ?s2) = Inr (head_or ?bs None, s3)"
        "same_store ?s2 s3" "tbls s3 ta = Some t3" "t3 = t\<lparr>t_tail := t_tail t3\<rparr>" "listed s3 ta t3 ?bs"
        "cprv s3 = cprv ?s2" "cnxt s3 = cnxt ?s2" "hmeta s3 = hmeta ?s2" unfolding t(1) pl by blast
    from r(4) obtain v where t3: "t3 = t\<lparr>t_tail := v\<rparr>" by blast
    have ne: "x \<noteq> a" if "x \<in> set as" for x using that out by blast
    have bu: "bucketed s3 t3 (set as)"
      by (rule bucketed_frame [OF t(7)]) (use t3 r(6-8) ne in \<open>simp_all add: key_item_fields\<close>)
    have "same_store s ?s2" by simp
    from same_store_trans [OF this r(2)] have st: "same_store s s3" .
    have "as = takeWhile (ahead c s a) as @ dropWhile (ahead c s a) as" by simp
    moreover have "?bs = takeWhile (ahead c s a) as @ a # dropWhile (ahead c s a) as" by (simp add: put_in_order_def)
    moreover have "num_items t3 + 1 = of_nat (length ?bs)" "num_buckets t3 < 2 ^ 31" using t3 t(3,4) by simp_all
    ultimately have il: "in_list s as a ?bs s3" unfolding in_list_def using st r(3,5) bu by blast
    have hd: "head \<noteq> None" using t(1) False by simp
    obtain it where "akbi_loop c a (Suc (tick ?s2)) head ?s2 = Inr it" "akbi_link head a it ?s2 = Inr (head_or ?bs None, s3)"
      using r(1) by (auto simp: res_simps)
    then have "nf_add_inorder E c head a s = nf_add_to_table E (head_or ?bs None) ?h a False s3"
      unfolding nf if_not_P [OF hd] t(2) by (simp add: t(10) del: akbi_loop.simps)
    with nf_listed_added [OF il False, of E] show ?thesis by simp
  qed
qed

section \<open>Properties\<close>

text \<open>
  C17: an insertion into a well-formed table, at the end or in order, never ends the process whatever
  the allocator answers: it leaves a table that passes the integrity check, and either the item is in it
  and lookups see exactly the addition, or the failure is reported, the head is what it was, every
  lookup finds what it found before and the item belongs to no table. With memory it is added.
\<close>

theorem nonfatal_add_or_nothing:
  assumes "ut_rep s head as" "newcomer s head as a" "r = nf_add_int E head a s \<or> r = nf_add_inorder E c head a s"
  shows "\<exists>head' oomed s'. r = Inr (head', oomed, s') \<and> hash_fsck s' head' = Inr () \<and>
    (if oomed then \<not> (\<forall>n. e_malloc E n) \<and> head' = head \<and> ut_rep s' head as \<and> h_tbl (i_hh (the (items s' a))) = None \<and>
        hash_find_int s' head' = hash_find_int s head
     else (\<exists>us vs. as = us @ vs \<and> ut_rep s' head' (us @ a # vs)) \<and>
        (\<forall>n. hash_find_int s' head' n = (if ukey s a = int_bytes n then Inr (Some a) else hash_find_int s head n)))"
proof -
  have "\<exists>bs us vs. added_or_not E s as a bs r \<and> as = us @ vs \<and> bs = us @ a # vs"
    using assms(3)
  proof
    assume "r = nf_add_int E head a s"
    with nf_add_ok [OF assms(1,2), of E] show ?thesis
      by (intro exI [of _ "as @ [a]"] exI [of _ as] exI [of _ "[]"]) simp
  next
    assume "r = nf_add_inorder E c head a s"
    with nf_add_inorder_ok [OF assms(1,2), of E c] show ?thesis
      unfolding put_in_order_def by (metis takeWhile_dropWhile_id)
  qed
  then obtain us vs oomed s' where b: "as = us @ vs" and
    r: "r = Inr (head_or (if oomed then as else us @ a # vs) None, oomed, s')" "same_store s s'"
    "ut_rep s' (head_or (if oomed then as else us @ a # vs) None) (if oomed then as else us @ a # vs)"
    "oomed \<longrightarrow> h_tbl (hf s' a) = None \<and> \<not> (\<forall>n. e_malloc E n)"
    unfolding added_or_not_def by blast
  have uk: "ukey s' = ukey s" by (rule same_storeD(2) [OF r(2)])
  show ?thesis
  proof (cases oomed)
    case True
    have "head = head_or as None" using assms(1) by (simp add: ut_rep_def)
    then have 1: "r = Inr (head, True, s')" "ut_rep s' head as" "h_tbl (i_hh (the (items s' a))) = None"
      "\<not> (\<forall>n. e_malloc E n)" using r(1,3,4) True by (simp_all add: hf_def)
    have "hash_find_int s' head = hash_find_int s head"
      by (rule ext) (simp only: ut_find [OF 1(2)] ut_find [OF assms(1)] uk)
    with 1 hash_fsck_ok [OF 1(2)] show ?thesis
      by (intro exI [of _ head] exI [of _ True] exI [of _ s']) (simp only: if_True simp_thms)
  next
    case False
    let ?head = "head_or (us @ a # vs) None"
    have 1: "r = Inr (?head, False, s')" "ut_rep s' ?head (us @ a # vs)" using r(1,3) False by simp_all
    have new: "ukey s a \<notin> ukey s ` set as" using assms(2) by (simp add: newcomer_def)
    have "List.find (\<lambda>x. ukey s x = int_bytes n) (us @ a # vs) =
        (if ukey s a = int_bytes n then Some a else List.find (\<lambda>x. ukey s x = int_bytes n) (us @ vs))" for n
      using new unfolding b by (induction us) auto
    then have "hash_find_int s' ?head n = (if ukey s a = int_bytes n then Inr (Some a) else hash_find_int s head n)" for n
      unfolding ut_find [OF 1(2)] ut_find [OF assms(1)] uk b by simp
    with 1 hash_fsck_ok [OF 1(2)] b show ?thesis
      by (intro exI [of _ ?head] exI [of _ False] exI [of _ s']) (simp only: if_False simp_thms, blast)
  qed
qed

definition no_memory :: env where
  "no_memory = demo_env\<lparr>e_malloc := \<lambda>_. False\<rparr>"

theorem nonfatal_add_or_nothing_witness:
  "\<exists>s1 s2. nf_add_int demo_env None 3 demo_uheap = Inr (Some 3, False, s1) \<and> hash_find_int s1 (Some 3) 7 = Inr (Some 3) \<and>
     nf_add_int no_memory None 3 demo_uheap = Inr (None, True, s2) \<and> ut_rep s2 None []"
proof -
  have nc: "newcomer demo_uheap None [] 3" using demo_addable(2) by (simp add: addable_def newcomer_def)
  have key: "ukey demo_uheap 3 = int_bytes 7" by (simp add: ukey_def demo_uheap_def plain_item_def)
  have mem: "\<forall>n. e_malloc demo_env n" by (simp add: demo_env_def)
  from nonfatal_add_or_nothing [OF demo_addable(1) nc disjI1 [OF refl], of demo_env] mem key obtain h1 s1 where
    1: "nf_add_int demo_env None 3 demo_uheap = Inr (h1, False, s1)" "ut_rep s1 h1 [3]" "hash_find_int s1 h1 7 = Inr (Some 3)"
    by (auto split: if_split_asm)
  have "h1 = Some 3" using 1(2) by (simp add: ut_rep_def)
  have no: "nf_make_table no_memory a s = Inr (oomed, s') \<Longrightarrow> oomed" for a oomed s' and s :: uheap
    by (auto simp: nf_make_table_def no_memory_def Let_def res_simps)
  have "nf_add_int no_memory None 3 demo_uheap \<noteq> Inr (h, False, s)" for h s
    by (auto simp: nf_add_int_def nf_add_to_table_def Let_def res_simps dest!: no)
  then have not_added: "nf_add_int no_memory None 3 demo_uheap = Inr (h, b, s) \<Longrightarrow> b" for h b s
    by (cases b) auto
  from nonfatal_add_or_nothing [OF demo_addable(1) nc disjI1 [OF refl], of no_memory] obtain h2 b s2 where
    2: "nf_add_int no_memory None 3 demo_uheap = Inr (h2, b, s2)" "b \<longrightarrow> h2 = None \<and> ut_rep s2 None []"
    by (metis (full_types))
  have "b" using not_added [OF 2(1)] .
  with 2 have "nf_add_int no_memory None 3 demo_uheap = Inr (None, True, s2)" "ut_rep s2 None []" by simp_all
  with 1 \<open>h1 = Some 3\<close> show ?thesis by blast
qed

end
