(* ===== verification/Hash_Bloom.thy ===== *)
theory Hash_Bloom
  imports Uthash_Props
begin

text \<open>
  The Bloom filter of \<^verbatim>\<open>local_lib/uthash.h\<close> (\<open>HASH_BLOOM\<close>): a table keeps one bit for each value of the
  low \<open>HASH_BLOOM\<close> bits of a hash. An insertion sets the bit of the new item, a lookup looks at the
  chains only when the bit of its key is set, and a deletion clears nothing. The filter is a value
  beside the table, made with it and given up with it.
\<close>

section \<open>The macros\<close>

record bloom =
  bloom_sig :: u32
  bloom_bv :: "byte list"
  bloom_nbits :: nat

text \<open>\<open>HASH_BLOOM_BITLEN\<close>, \<open>HASH_BLOOM_BYTELEN\<close>\<close>

definition bloom_bitlen :: "nat \<Rightarrow> 64 word" where
  "bloom_bitlen n = push_bit n 1"

definition bloom_bytelen :: "nat \<Rightarrow> 64 word" where
  "bloom_bytelen n = bloom_bitlen n div 8 + (if bloom_bitlen n mod 8 \<noteq> 0 then 1 else 0)"

definition bloom_make :: "env \<Rightarrow> nat \<Rightarrow> 'a os_scheme \<Rightarrow> (bloom \<times> 'a os_scheme) res" where
  "bloom_make E n s =
     (if \<not> e_malloc E (tick s) then Inl (Exit (-1))
      else Inr (\<lparr>bloom_sig = 0xb12220f2, bloom_bv = replicate (unat (bloom_bytelen n)) 0, bloom_nbits = n\<rparr>, step s))"

definition bloom_bitset :: "byte list \<Rightarrow> u32 \<Rightarrow> byte list res" where
  "bloom_bitset bv idx =
     (if unat (idx div 8) < length bv
      then Inr (bv[unat (idx div 8) := bv ! unat (idx div 8) OR push_bit (unat (idx mod 8)) 1])
      else Inl OutOfBounds)"

definition bloom_bittest :: "byte list \<Rightarrow> u32 \<Rightarrow> bool res" where
  "bloom_bittest bv idx =
     (if unat (idx div 8) < length bv
      then Inr (bv ! unat (idx div 8) AND push_bit (unat (idx mod 8)) 1 \<noteq> 0)
      else Inl OutOfBounds)"

text \<open>\<open>(hashv) & (uint32_t)((1UL << bloom_nbits) - 1U)\<close>\<close>

definition bloom_index :: "bloom \<Rightarrow> u32 \<Rightarrow> u32" where
  "bloom_index bl hashv = hashv AND ucast (push_bit (bloom_nbits bl) (1 :: 64 word) - 1)"

definition bloom_add :: "u32 \<Rightarrow> bloom \<Rightarrow> bloom res" where
  "bloom_add hashv bl =
     andThen (bloom_bitset (bloom_bv bl) (bloom_index bl hashv)) (\<lambda>bv. Inr (bl\<lparr>bloom_bv := bv\<rparr>))"

definition bloom_test :: "bloom \<Rightarrow> u32 \<Rightarrow> bool res" where
  "bloom_test bl hashv = bloom_bittest (bloom_bv bl) (bloom_index bl hashv)"

text \<open>\<open>HASH_FIND\<close> with the filter.\<close>

definition bloom_find_int :: "bloom \<Rightarrow> 'a uheap_scheme \<Rightarrow> addr option \<Rightarrow> int \<Rightarrow> addr option res" where
  "bloom_find_int bl s head idn =
     (if head = None then Inr None
      else let hashv = hash_jen (int_bytes idn) in
        andThen (tbl_of s head) (\<lambda>(ta, t).
        andThen (bloom_test bl hashv) (\<lambda>set.
          if set
          then andThen (bucket_at t (hash_to_bkt hashv (num_buckets t))) (\<lambda>b.
            find_in_bkt s hashv idn (Suc (tick s)) (hh_head b))
          else Inr None)))"

text \<open>
  \<open>HASH_ADD_INT\<close> of this build: \<open>HASH_MAKE_TABLE\<close> ends with the making of the filter, which is the one
  returned, and \<open>HASH_ADD_TO_TABLE\<close> with the setting of the bit. Without a table \<open>bl\<close> is not looked at.
\<close>

definition bloom_add_int ::
  "env \<Rightarrow> nat \<Rightarrow> bloom \<Rightarrow> addr option \<Rightarrow> addr \<Rightarrow> 'a uheap_scheme \<Rightarrow> (bloom \<times> addr option \<times> 'a uheap_scheme) res" where
  "bloom_add_int E n bl head a s =
     andThen (deref (items s) (Some a)) (\<lambda>(a, i).
       let hashv = hash_jen (int_bytes (i_id i)) in
       andThen (modify_hh (Some a) (\<lambda>h. h\<lparr>h_hashv := hashv, h_key := Some a, h_keylen := 4\<rparr>) s) (\<lambda>s.
       andThen (if head = None
                then andThen (modify_hh (Some a) (\<lambda>h. h\<lparr>h_next := None, h_prev := None\<rparr>) s) (\<lambda>s.
                     andThen (hash_make_table E a s) (\<lambda>s. bloom_make E n s))
                else andThen (tbl_of s head) (\<lambda>(ta, t).
                     andThen (modify_hh (Some a) (\<lambda>h. h\<lparr>h_tbl := Some ta\<rparr>) s) (\<lambda>s.
                     andThen (hash_append_list head a s) (\<lambda>s. Inr (bl, s))))) (\<lambda>(bl, s).
         let head = (if head = None then Some a else head) in
         andThen (hash_add_to_table E head hashv a s) (\<lambda>s.
         andThen (bloom_add hashv bl) (\<lambda>bl. Inr (bl, head, s))))))"

text \<open>A history of insertions and deletions; the filter goes with the last item and comes with the next first.\<close>

datatype bloom_op = Bloom_add addr | Bloom_del addr

fun bloom_run ::
  "env \<Rightarrow> nat \<Rightarrow> bloom_op list \<Rightarrow> bloom \<times> addr option \<times> 'a uheap_scheme \<Rightarrow> (bloom \<times> addr option \<times> 'a uheap_scheme) res" where
  "bloom_run E n [] z = Inr z"
| "bloom_run E n (Bloom_add a # ops) (bl, head, s) = andThen (bloom_add_int E n bl head a s) (bloom_run E n ops)"
| "bloom_run E n (Bloom_del a # ops) (bl, head, s) =
     andThen (hash_delete head a s) (\<lambda>(head, s). bloom_run E n ops (bl, head, s))"

text \<open>Insertions by their hash values alone.\<close>

fun bloom_adds :: "u32 list \<Rightarrow> bloom \<Rightarrow> bloom res" where
  "bloom_adds [] bl = Inr bl"
| "bloom_adds (h # hs) bl = andThen (bloom_add h bl) (bloom_adds hs)"

section \<open>The bits\<close>

lemma bloom_index_mask:
  assumes "bloom_nbits bl \<le> 32"
  shows "bloom_index bl h = take_bit (bloom_nbits bl) h"
proof -
  have "ucast (push_bit n (1 :: 64 word) - 1) = (mask n :: u32)" if "n \<le> 32" for n
  proof -
    have "push_bit n (1 :: 64 word) - 1 = mask n" by (simp add: mask_eq_exp_minus_1 push_bit_eq_mult)
    moreover have "ucast (mask n :: 64 word) = (mask n :: u32)"
      by (rule bit_word_eqI) (use that in \<open>auto simp: bit_simps\<close>)
    ultimately show ?thesis by simp
  qed
  with assms show ?thesis by (simp add: bloom_index_def take_bit_eq_mask)
qed

text \<open>The filter of \<open>n\<close> bits in which the bits of the hash values \<open>H\<close> are set.\<close>

definition bloom_rep :: "nat \<Rightarrow> bloom \<Rightarrow> u32 set \<Rightarrow> bool" where
  "bloom_rep n bl H \<longleftrightarrow> n \<le> 32 \<and> bloom_nbits bl = n \<and> length (bloom_bv bl) = 2 ^ n div 8 + (if n < 3 then 1 else 0) \<and>
     (\<forall>i < 2 ^ n. bit (bloom_bv bl ! (i div 8)) (i mod 8) \<longleftrightarrow> (\<exists>h \<in> H. unat (take_bit n h) = i))"

lemma small_power: "n < 3 \<longleftrightarrow> (2 :: nat) ^ n mod 8 \<noteq> 0"
proof (cases "n < 3")
  case True
  then have "n = 0 \<or> n = 1 \<or> n = 2" by auto
  then show ?thesis by auto
next
  case False
  then have "(2 :: nat) ^ 3 dvd 2 ^ n" by (intro le_imp_power_dvd) simp
  with False show ?thesis by (simp add: dvd_eq_mod_eq_0)
qed

lemma byte_bound:
  assumes "i < (2 :: nat) ^ n"
  shows "i div 8 < 2 ^ n div 8 + (if n < 3 then 1 else 0)"
proof (cases "n < 3")
  case True
  then have "(2 :: nat) ^ n \<le> 2 ^ 2" by (intro power_increasing) auto
  with assms True show ?thesis by auto
next
  case False
  then have "(2 :: nat) ^ n mod 8 = 0" using small_power by blast
  with assms False show ?thesis by (auto simp: less_mult_imp_div_less)
qed

lemma bytelen_nat:
  assumes "n \<le> 32"
  shows "unat (bloom_bytelen n) = 2 ^ n div 8 + (if n < 3 then 1 else 0)"
proof -
  have n: "unat (2 ^ n :: 64 word) = 2 ^ n"
  proof -
    have "take_bit 64 ((2 :: nat) ^ n) = 2 ^ n" using assms by (simp add: take_bit_nat_eq_self_iff)
    then have "unat (of_nat (2 ^ n) :: 64 word) = 2 ^ n" by (simp only: unsigned_of_nat) simp
    then show ?thesis by simp
  qed
  have m: "unat ((2 ^ n :: 64 word) mod 8) = 2 ^ n mod 8" "unat ((2 ^ n :: 64 word) div 8) = 2 ^ n div 8"
    by (simp_all add: unat_mod unat_div n)
  have "(2 ^ n :: 64 word) mod 8 \<noteq> 0 \<longleftrightarrow> n < 3"
    unfolding small_power m(1) [symmetric] by (simp add: unat_eq_0)
  moreover have "(2 :: nat) ^ n div 8 < 2 ^ 64 - 1"
  proof -
    have "(2 :: nat) ^ n \<le> 2 ^ 32" using assms by (intro power_increasing) auto
    then show ?thesis by simp
  qed
  then have "unat ((2 ^ n :: 64 word) div 8 + 1) = 2 ^ n div 8 + 1"
    by (subst unat_add_lem [THEN iffD1]) (simp_all add: m)
  ultimately show ?thesis by (simp add: bloom_bytelen_def bloom_bitlen_def m(2))
qed

lemma bloom_make_rep:
  assumes "n \<le> 32" "e_malloc E (tick s)"
  shows "\<exists>bl. bloom_make E n s = Inr (bl, step s) \<and> bloom_rep n bl {}"
  using assms byte_bound [of _ n] by (simp add: bloom_make_def bloom_rep_def bytelen_nat)

lemma bit_index:
  fixes x :: u32
  shows "unat (x div 8) = unat x div 8" "unat (x mod 8) = unat x mod 8"
  by (simp_all add: unat_div unat_mod)

lemma bloom_test_rep:
  assumes "bloom_rep n bl H"
  shows "bloom_test bl x = Inr (\<exists>h \<in> H. take_bit n h = take_bit n x)"
proof -
  let ?i = "unat (take_bit n x)"
  have n: "n \<le> 32" "bloom_nbits bl = n" using assms by (simp_all add: bloom_rep_def)
  have i: "?i < 2 ^ n" by (simp add: unsigned_take_bit_eq)
  with assms byte_bound [OF i] have "?i div 8 < length (bloom_bv bl)"
    "bit (bloom_bv bl ! (?i div 8)) (?i mod 8) \<longleftrightarrow> (\<exists>h \<in> H. unat (take_bit n h) = ?i)"
    by (simp_all add: bloom_rep_def)
  moreover have "b AND push_bit k 1 \<noteq> 0 \<longleftrightarrow> bit b k" for b :: byte and k
    by (simp add: push_bit_eq_mult and_exp_eq_0_iff_not_bit)
  moreover have "bloom_index bl x = take_bit n x" using bloom_index_mask [of bl x] n by simp
  ultimately show ?thesis by (simp add: bloom_test_def bloom_bittest_def bit_index word_unat_eq_iff)
qed

lemma bloom_add_rep:
  assumes "bloom_rep n bl H"
  shows "\<exists>bl'. bloom_add h bl = Inr bl' \<and> bloom_rep n bl' (insert h H)"
proof -
  let ?i = "unat (take_bit n h)"
  let ?bv = "(bloom_bv bl)[?i div 8 := bloom_bv bl ! (?i div 8) OR push_bit (?i mod 8) 1]"
  have n: "n \<le> 32" "bloom_nbits bl = n" using assms by (simp_all add: bloom_rep_def)
  have i: "?i < 2 ^ n" by (simp add: unsigned_take_bit_eq)
  with assms byte_bound [OF i] have len: "?i div 8 < length (bloom_bv bl)" by (simp add: bloom_rep_def)
  have "bloom_index bl h = take_bit n h" using bloom_index_mask [of bl h] n by simp
  with len have "bloom_add h bl = Inr (bl\<lparr>bloom_bv := ?bv\<rparr>)"
    by (simp add: bloom_add_def bloom_bitset_def bit_index)
  moreover have "bit (?bv ! (j div 8)) (j mod 8) \<longleftrightarrow> (\<exists>g \<in> insert h H. unat (take_bit n g) = j)" if j: "j < 2 ^ n" for j
  proof -
    have old: "bit (bloom_bv bl ! (j div 8)) (j mod 8) \<longleftrightarrow> (\<exists>g \<in> H. unat (take_bit n g) = j)"
      using assms j by (simp add: bloom_rep_def)
    have one: "bit (push_bit (?i mod 8) 1 :: byte) (j mod 8) \<longleftrightarrow> j mod 8 = ?i mod 8"
      by (auto simp: bit_simps bit_1_iff)
    show ?thesis
    proof (cases "j div 8 = ?i div 8")
      case True
      then have "j mod 8 = ?i mod 8 \<longleftrightarrow> ?i = j" by (metis div_mult_mod_eq)
      with True old one len show ?thesis by (auto simp: bit_or_iff)
    next
      case False
      then have "?i \<noteq> j" by auto
      with False old len show ?thesis by auto
    qed
  qed
  ultimately show ?thesis using assms by (simp add: bloom_rep_def)
qed

lemma bloom_adds_rep:
  "bloom_rep n bl H \<Longrightarrow> \<exists>bl'. bloom_adds hs bl = Inr bl' \<and> bloom_rep n bl' (H \<union> set hs)"
proof (induction hs arbitrary: bl H)
  case (Cons h hs)
  from bloom_add_rep [OF Cons.prems, of h] obtain bl1 where 1: "bloom_add h bl = Inr bl1" "bloom_rep n bl1 (insert h H)" by blast
  from Cons.IH [OF 1(2)] 1(1) show ?case by auto
qed simp

section \<open>Lookups and insertions with the filter\<close>

text \<open>A filter covers the items of a table when the bit of each is set.\<close>

definition covers :: "nat \<Rightarrow> bloom \<Rightarrow> 'a uheap_scheme \<Rightarrow> addr list \<Rightarrow> bool" where
  "covers n bl s as \<longleftrightarrow> as = [] \<or> (\<exists>H. bloom_rep n bl H \<and> (\<forall>a \<in> set as. hash_jen (ukey s a) \<in> H))"

lemma bloom_find_covered:
  assumes rep: "ut_rep s head as" and cov: "covers n bl s as"
  shows "bloom_find_int bl s head k = hash_find_int s head k"
proof (cases "as = []")
  case True
  with rep show ?thesis by (simp add: ut_rep_def bloom_find_int_def hash_find_int_def)
next
  case False
  with cov obtain H where H: "bloom_rep n bl H" "\<And>a. a \<in> set as \<Longrightarrow> hash_jen (ukey s a) \<in> H"
    by (auto simp: covers_def)
  note test = bloom_test_rep [OF H(1)]
  from False rep obtain ta t where t: "head = head_or as None" "tbls s ta = Some t" "listed s ta t as"
    by (auto simp: ut_rep_def)
  then obtain h where h: "head = Some h" using False by (cases as) auto
  have tb: "tbl_of s head = Inr (ta, t)" using tbl_of_listed [OF t(3,2)] t(1) by simp
  show ?thesis
  proof (cases "\<exists>h \<in> H. take_bit n h = take_bit n (hash_jen (int_bytes k))")
    case True
    with h tb test show ?thesis by (simp add: bloom_find_int_def hash_find_int_def Let_def)
  next
    case no: False
    have "ukey s a \<noteq> int_bytes k" if "a \<in> set as" for a using no H(2) [OF that] by metis
    then have "List.find (\<lambda>a. ukey s a = int_bytes k) as = None" by (simp add: find_None_iff)
    with ut_find [OF rep, of k] no h tb test show ?thesis by (simp add: bloom_find_int_def Let_def)
  qed
qed

lemma bloom_first_ok:
  assumes a: "a \<in> dom (items s)" "a < tick s" and mem: "\<And>n. e_malloc E n" and n: "n \<le> 32"
  shows "\<exists>bl' s'. bloom_add_int E n bl None a s = Inr (bl', Some a, s') \<and> same_store s s' \<and> ut_rep s' (Some a) [a] \<and>
    bloom_rep n bl' {hash_jen (ukey s a)}"
proof -
  let ?h = "hash_jen (ukey s a)"
  from a(1) obtain i where i: "items s a = Some i" by blast
  have h: "hash_jen (int_bytes (i_id i)) = ?h" by (simp add: ukey_def i)
  have mod1: "modify_hh (Some a) (\<lambda>x. x\<lparr>h_hashv := ?h, h_key := Some a, h_keylen := 4\<rparr>) s = Inr (key_item a ?h s)"
    unfolding key_item_def by (rule modify_hh_eq [OF a(1)])
  from first_table_ok [OF a mem] obtain s2 s3 ta t where
    m: "modify_hh (Some a) (\<lambda>h. h\<lparr>h_next := None, h_prev := None\<rparr>) (key_item a ?h s) = Inr s2"
      "hash_make_table E a s2 = Inr s3" "same_store s s3"
    and t: "tbls s3 ta = Some t" "listed s3 ta t [a]" "bucketed s3 t (set [a] - {a})" "num_items t = 0"
      "num_buckets t = 32" by blast
  from bloom_make_rep [OF n, of E s3] mem obtain bl1 where
    mk: "bloom_make E n s3 = Inr (bl1, step s3)" "bloom_rep n bl1 {}" by blast
  from bloom_add_rep [OF mk(2), of ?h] obtain bl' where ad: "bloom_add ?h bl1 = Inr bl'" "bloom_rep n bl' {?h}" by auto
  have l: "listed (step s3) ta t [a]" by (rule listed_cong [OF t(2)]) simp_all
  have bu: "bucketed (step s3) t (set [a] - {a})" by (rule bucketed_cong [OF t(3)]) simp_all
  have "tbls (step s3) ta = Some t" "a \<in> set [a]" "num_items t + 1 = of_nat (length [a])" "num_buckets t < 2 ^ 31"
    using t(1,4,5) by simp_all
  from add_to_table_ok [OF this(1) l this(2) bu this(3) mem this(4)] obtain s' where
    s': "hash_add_to_table E (Some a) (hash_jen (ukey (step s3) a)) a (step s3) = Inr s'" "same_store (step s3) s'"
      "ut_rep s' (Some a) [a]" by auto
  have st: "same_store s (step s3)" using m(3) by (simp add: same_store_def)
  have "ukey (step s3) a = ukey s a" using same_storeD(2) [OF st] by simp
  with s'(1) have "bloom_add_int E n bl None a s = Inr (bl', Some a, s')"
    using i mod1 m(1,2) mk(1) ad(1) by (simp add: bloom_add_int_def h Let_def)
  with same_store_trans [OF st s'(2)] s'(3) ad(2) show ?thesis by blast
qed

text \<open>With a table it is the plain insertion, and the bit.\<close>

lemma andThen_assoc: "andThen (andThen m f) g = andThen m (\<lambda>x. andThen (f x) g)"
  by (cases m) simp_all

lemma bloom_add_int_plain:
  assumes "head \<noteq> None" "items s a = Some i"
  shows "bloom_add_int E n bl head a s = andThen (hash_add_int E head a s) (\<lambda>(head, s).
    andThen (bloom_add (hash_jen (int_bytes (i_id i))) bl) (\<lambda>bl. Inr (bl, head, s)))"
proof -
  from assms(1) obtain h where "head = Some h" by blast
  with assms(2) show ?thesis
    by (simp add: bloom_add_int_def hash_add_int_def Let_def andThen_assoc split_def)
qed

lemma bloom_add_int_ok:
  assumes rep: "ut_rep s head as" and cov: "covers n bl s as" and n: "n \<le> 32" and ok: "addable E s head as a"
  shows "\<exists>bl' head' s'. bloom_add_int E n bl head a s = Inr (bl', head', s') \<and> same_store s s' \<and>
    ut_rep s' head' (as @ [a]) \<and> covers n bl' s' (as @ [a])"
proof (cases "as = []")
  case True
  with rep have head: "head = None" by (simp add: ut_rep_def)
  from bloom_first_ok [of a s E n bl] ok n obtain bl' s' where
    r: "bloom_add_int E n bl None a s = Inr (bl', Some a, s')" "same_store s s'" "ut_rep s' (Some a) [a]"
      "bloom_rep n bl' {hash_jen (ukey s a)}" unfolding addable_def by blast
  have "covers n bl' s' [a]" using r(4) same_storeD(2) [OF r(2)] by (auto simp: covers_def)
  with r head True show ?thesis by auto
next
  case False
  with rep have head: "head \<noteq> None" by (auto simp: ut_rep_def)
  from ok obtain i where i: "items s a = Some i" by (auto simp: addable_def)
  from hash_add_ok [OF rep, of a E] ok obtain s' where
    r: "hash_add_int E head a s = Inr (head_or (as @ [a]) None, s')" "same_store s s'"
      "ut_rep s' (head_or (as @ [a]) None) (as @ [a])" unfolding addable_def by blast
  from cov False obtain H where H: "bloom_rep n bl H" "\<forall>a \<in> set as. hash_jen (ukey s a) \<in> H" by (auto simp: covers_def)
  have key: "hash_jen (int_bytes (i_id i)) = hash_jen (ukey s a)" by (simp add: ukey_def i)
  from bloom_add_rep [OF H(1), of "hash_jen (ukey s a)"] obtain bl' where
    bl': "bloom_add (hash_jen (ukey s a)) bl = Inr bl'" "bloom_rep n bl' (insert (hash_jen (ukey s a)) H)" by blast
  have "covers n bl' s' (as @ [a])"
    unfolding covers_def by (rule disjI2, rule exI, rule conjI [OF bl'(2)]) (use H(2) same_storeD(2) [OF r(2)] in auto)
  moreover have "bloom_add_int E n bl head a s = Inr (bl', head_or (as @ [a]) None, s')"
    using bloom_add_int_plain [OF head i, of E n bl] r(1) bl'(1) by (simp add: key)
  ultimately show ?thesis using r(2,3) by blast
qed

section \<open>Properties\<close>

text \<open>
  In every history of insertions and deletions that starts without a table, in which only items that
  may be added are added and only items of the table are deleted, the filter is made, kept and given
  up by the macros themselves such that every lookup through it is the lookup without it. The items
  of the table are what the history says.
\<close>

fun bloom_legal :: "env \<Rightarrow> nat \<Rightarrow> bloom_op list \<Rightarrow> addr list \<Rightarrow> bloom \<times> addr option \<times> 'a uheap_scheme \<Rightarrow> bool" where
  "bloom_legal E n [] as z = True"
| "bloom_legal E n (Bloom_add a # ops) as (bl, head, s) \<longleftrightarrow> addable E s head as a \<and>
     (case bloom_add_int E n bl head a s of Inl f \<Rightarrow> True | Inr z \<Rightarrow> bloom_legal E n ops (as @ [a]) z)"
| "bloom_legal E n (Bloom_del a # ops) as (bl, head, s) \<longleftrightarrow> a \<in> set as \<and>
     (case hash_delete head a s of Inl f \<Rightarrow> True
      | Inr (head, s) \<Rightarrow> bloom_legal E n ops (remove1 a as) (bl, head, s))"

fun bloom_items :: "bloom_op list \<Rightarrow> addr list \<Rightarrow> addr list" where
  "bloom_items [] as = as"
| "bloom_items (Bloom_add a # ops) as = bloom_items ops (as @ [a])"
| "bloom_items (Bloom_del a # ops) as = bloom_items ops (remove1 a as)"

lemma bloom_history_same:
  assumes "n \<le> 32" "ut_rep s head as" "covers n bl s as" "bloom_legal E n ops as (bl, head, s)"
  shows "\<exists>bl' head' s'. bloom_run E n ops (bl, head, s) = Inr (bl', head', s') \<and>
    ut_rep s' head' (bloom_items ops as) \<and> covers n bl' s' (bloom_items ops as) \<and>
    (\<forall>k. bloom_find_int bl' s' head' k = hash_find_int s' head' k)"
  using assms(2-4)
proof (induction ops arbitrary: as bl head s)
  case Nil
  with bloom_find_covered [OF Nil(1,2)] show ?case by simp
next
  case (Cons op ops)
  show ?case
  proof (cases op)
    case (Bloom_add a)
    with Cons.prems have ok: "addable E s head as a" by simp
    from bloom_add_int_ok [OF Cons.prems(1,2) assms(1) ok] obtain bl1 h1 s1 where
      r: "bloom_add_int E n bl head a s = Inr (bl1, h1, s1)" "ut_rep s1 h1 (as @ [a])" "covers n bl1 s1 (as @ [a])" by blast
    with Cons.prems(3) Bloom_add have "bloom_legal E n ops (as @ [a]) (bl1, h1, s1)" by simp
    from Cons.IH [OF r(2,3) this] r(1) Bloom_add show ?thesis by simp
  next
    case (Bloom_del a)
    with Cons.prems have a: "a \<in> set as" by simp
    then obtain xs ys where as: "as = xs @ a # ys" "a \<notin> set xs" by (meson split_list_first)
    from hash_delete_ok [OF Cons.prems(1) [unfolded as(1)]] obtain h1 s1 where
      r: "hash_delete head a s = Inr (h1, s1)" "ut_rep s1 h1 (xs @ ys)" "same_store s s1" by blast
    have rm: "remove1 a as = xs @ ys" using as by (simp add: remove1_append)
    have "covers n bl s1 (xs @ ys)"
      using Cons.prems(2) same_storeD(2) [OF r(3)] by (auto simp: covers_def as(1))
    moreover from Cons.prems(3) Bloom_del r(1) rm have "bloom_legal E n ops (xs @ ys) (bl, h1, s1)" by simp
    ultimately show ?thesis using Cons.IH [OF r(2)] r(1) Bloom_del rm by simp
  qed
qed

text \<open>
  C18: a lookup through the filter is the lookup without it: for a table whose items are among those
  inserted since the filter was made, whatever has been deleted since, both give the same for every key.
  The filter lets through exactly the hash values that agree with an inserted one in the low
  \<open>HASH_BLOOM\<close> bits. That the items of the table are among those whose bits were set is a premise here; it
  holds in every history of the macros, as \<open>bloom_add_int_ok\<close> and the theorem before show.
\<close>

theorem bloom_lookup_same:
  assumes "n \<le> 32" "e_malloc E (tick s0)" "ut_rep s head as" "\<And>a. a \<in> set as \<Longrightarrow> hash_jen (ukey s a) \<in> set hs"
  shows "\<exists>bl bl'. bloom_make E n s0 = Inr (bl, step s0) \<and> bloom_adds hs bl = Inr bl' \<and>
    (\<forall>k. bloom_find_int bl' s head k = hash_find_int s head k) \<and>
    (\<forall>x. bloom_test bl' x = Inr (\<exists>h \<in> set hs. take_bit n h = take_bit n x))"
proof -
  from bloom_make_rep [OF assms(1), of E s0] assms(2) obtain bl where
    mk: "bloom_make E n s0 = Inr (bl, step s0)" "bloom_rep n bl {}" by blast
  from bloom_adds_rep [OF mk(2), of hs] obtain bl' where
    add: "bloom_adds hs bl = Inr bl'" "bloom_rep n bl' (set hs)" by auto
  note test = bloom_test_rep [OF add(2)]
  have "covers n bl' s as" using add(2) assms(4) by (auto simp: covers_def)
  note find = bloom_find_covered [OF assms(3) this]
  with mk(1) add(1) test find show ?thesis by blast
qed

theorem bloom_lookup_same_witness:
  "\<exists>s head bl bl'. hash_add_int demo_env None 3 demo_uheap = Inr (head, s) \<and>
     bloom_make demo_env 8 s = Inr (bl, step s) \<and> bloom_adds [hash_jen (int_bytes 7)] bl = Inr bl' \<and>
     bloom_find_int bl' s head 7 = Inr (Some 3)"
proof -
  have key: "ukey demo_uheap 3 = int_bytes 7" by (simp add: ukey_def demo_uheap_def plain_item_def)
  have new: "ukey demo_uheap 3 \<notin> ukey demo_uheap ` set []" by simp
  from ut.lookup_inserted [OF demo_addable new] obtain head s where
    s: "hash_add_int demo_env None 3 demo_uheap = Inr (head, s)" "ut_rep s head ([] @ 3 # [])"
      "hash_find_int s head 7 = Inr (Some 3)" using key by auto
  from ut.lookup_Some [OF s(2)] s(3) have k: "ukey s 3 = int_bytes 7" by blast
  have "e_malloc demo_env (tick s)" by (simp add: demo_env_def)
  from bloom_lookup_same [OF _ this s(2), of 8 "[hash_jen (int_bytes 7)]"] k s(1,3) show ?thesis by fastforce
qed

end
