(* ===== verification/Hash_Mur.thy ===== *)
theory Hash_Mur
  imports Hash_Fun
begin

text \<open>
  The two larger alternatives to \<open>HASH_JEN\<close> of \<^verbatim>\<open>local_lib/uthash.h\<close>: Paul Hsieh's hash and MurmurHash.
  Every step of the latter can be undone, so keys of four bytes never collide.
\<close>

unbundle bit_operations_syntax

section \<open>HASH_SFH\<close>

text \<open>\<open>get16bits\<close>: two bytes, least significant first.\<close>

definition get16bits :: "byte list \<Rightarrow> nat \<Rightarrow> u32" where
  "get16bits key i = push_bit 8 (ucast (key ! (i + 1))) + ucast (key ! i)"

text \<open>The main loop, over blocks of four bytes.\<close>

fun sfh_loop :: "u32 \<Rightarrow> byte list \<Rightarrow> u32 \<times> byte list" where
  "sfh_loop h key =
     (if length key < 4 then (h, key)
      else let h = h + get16bits key 0;
               tmp = push_bit 11 (get16bits key 2) XOR h;
               h = push_bit 16 h XOR tmp
           in sfh_loop (h + drop_bit 11 h) (drop 4 key))"

declare sfh_loop.simps [simp del]

text \<open>The \<open>switch\<close> over the bytes left.\<close>

definition sfh_tail :: "u32 \<Rightarrow> byte list \<Rightarrow> u32" where
  "sfh_tail h key =
     (if length key = 3
      then let h = h + get16bits key 0; h = h XOR push_bit 16 h; h = h XOR push_bit 18 (ucast (key ! 2))
           in h + drop_bit 11 h
      else if length key = 2
      then let h = h + get16bits key 0; h = h XOR push_bit 11 h in h + drop_bit 17 h
      else if length key = 1
      then let h = h + ucast (key ! 0); h = h XOR push_bit 10 h in h + drop_bit 1 h
      else h)"

definition hash_sfh :: "byte list \<Rightarrow> u32" where
  "hash_sfh key =
     (let (h, rest) = sfh_loop 0xcafebabe key;
          h = sfh_tail h rest;
          h = h XOR push_bit 3 h;
          h = h + drop_bit 5 h;
          h = h XOR push_bit 4 h;
          h = h + drop_bit 17 h;
          h = h XOR push_bit 25 h
      in h + drop_bit 6 h)"

section \<open>HASH_MUR\<close>

definition mur_rotl32 :: "u32 \<Rightarrow> nat \<Rightarrow> u32" where
  "mur_rotl32 x r = push_bit r x OR drop_bit (32 - r) x"

definition mur_fmix :: "u32 \<Rightarrow> u32" where
  "mur_fmix h =
     (let h = h XOR drop_bit 16 h; h = h * 0x85ebca6b;
          h = h XOR drop_bit 13 h; h = h * 0xc2b2ae35
      in h XOR drop_bit 16 h)"

text \<open>What is done to a block, and the loop over the blocks (\<open>MUR_GETBLOCK\<close> of a little-endian machine).\<close>

definition mur_scramble :: "u32 \<Rightarrow> u32" where
  "mur_scramble k = mur_rotl32 (k * 0xcc9e2d51) 15 * 0x1b873593"

definition mur_block :: "u32 \<Rightarrow> u32 \<Rightarrow> u32" where
  "mur_block h k = mur_rotl32 (h XOR mur_scramble k) 13 * 5 + 0xe6546b64"

fun mur_loop :: "u32 \<Rightarrow> byte list \<Rightarrow> u32 \<times> byte list" where
  "mur_loop h key =
     (if length key < 4 then (h, key)
      else mur_loop (mur_block h (word4 (key ! 0) (key ! 1) (key ! 2) (key ! 3))) (drop 4 key))"

declare mur_loop.simps [simp del]

text \<open>The \<open>switch\<close>, whose cases fall through.\<close>

definition mur_tail :: "u32 \<Rightarrow> byte list \<Rightarrow> u32" where
  "mur_tail h key =
     (if length key = 0 then h
      else let k = (if 3 \<le> length key then push_bit 16 (ucast (key ! 2)) else 0);
               k = (if 2 \<le> length key then k XOR push_bit 8 (ucast (key ! 1)) else k);
               k = k XOR ucast (key ! 0)
           in h XOR mur_scramble k)"

definition hash_mur :: "byte list \<Rightarrow> u32" where
  "hash_mur key =
     (let (h, rest) = mur_loop 0xf88D5353 key in mur_fmix (mur_tail h rest XOR of_nat (length key)))"

section \<open>Every step can be undone\<close>

lemma inj_mult:
  assumes "(c :: u32) * d = 1"
  shows "inj (\<lambda>x. x * c)"
proof (rule injI)
  fix x y assume "x * c = y * c"
  then have "x * c * d = y * c * d" by simp
  with assms show "x = y" by (simp add: mult.assoc)
qed

lemma inj_rotl: 
  assumes "0 < r" "r < 32"
  shows "inj (\<lambda>x. mur_rotl32 x r)"
proof (rule injI)
  fix x y :: u32 assume eq: "mur_rotl32 x r = mur_rotl32 y r"
  have b: "bit (mur_rotl32 z r) n = (if r \<le> n then n < 32 \<and> bit z (n - r) else bit z (32 - r + n))" for z n
    using assms by (auto simp: mur_rotl32_def bit_or_iff bit_push_bit_iff bit_drop_bit_eq dest: bit_imp_le_length)
  show "x = y"
  proof (rule bit_word_eqI)
    fix n assume n: "n < LENGTH(32)"
    have "bit (mur_rotl32 x r) ((n + r) mod 32) = bit (mur_rotl32 y r) ((n + r) mod 32)" using eq by simp
    moreover have "bit (mur_rotl32 z r) ((n + r) mod 32) = bit z n" for z
    proof (cases "n + r < 32")
      case False
      then have "(n + r) mod 32 = n + r - 32" using n assms by (simp add: mod_if)
      moreover from False n assms have "\<not> r \<le> n + r - 32" "32 - r + (n + r - 32) = n" by auto
      ultimately show ?thesis by (simp add: b)
    qed (simp add: b)
    ultimately show "bit x n = bit y n" by simp
  qed
qed

lemma inj_xorshift:
  assumes "0 < r"
  shows "inj (\<lambda>x :: u32. x XOR drop_bit r x)"
proof (rule injI)
  fix x y :: u32 assume eq: "x XOR drop_bit r x = y XOR drop_bit r y"
  have all: "m \<le> 31 \<longrightarrow> bit x (31 - m) = bit y (31 - m)" for m
  proof (induction m rule: less_induct)
    case (less m)
    have "bit (x XOR drop_bit r x) (31 - m) = bit (y XOR drop_bit r y) (31 - m)" using eq by simp
    moreover have "bit x (r + (31 - m)) = bit y (r + (31 - m))" if "m \<le> 31"
    proof (cases "r \<le> m")
      case True
      then have "31 - (m - r) = r + (31 - m)" "m - r < m" using assms that by auto
      with less.IH [of "m - r"] that show ?thesis by auto
    next
      case False
      then have "\<not> r + (31 - m) < 32" using that by simp
      then show ?thesis by (auto dest!: bit_imp_le_length)
    qed
    ultimately show ?case by (auto simp: bit_xor_iff bit_drop_bit_eq)
  qed
  show "x = y"
  proof (rule bit_word_eqI)
    fix n assume "n < LENGTH(32)"
    then show "bit x n = bit y n" using all [of "31 - n"] by simp
  qed
qed

lemma inj_fmix: "inj mur_fmix"
proof -
  have eq: "mur_fmix = (\<lambda>x. x XOR drop_bit 16 x) \<circ> (\<lambda>x. x * 0xc2b2ae35) \<circ> (\<lambda>x. x XOR drop_bit 13 x)
    \<circ> (\<lambda>x. x * 0x85ebca6b) \<circ> (\<lambda>x. x XOR drop_bit 16 x)"
    by (simp add: fun_eq_iff mur_fmix_def Let_def)
  have m: "inj (\<lambda>x :: u32. x * 0xc2b2ae35)" by (rule inj_mult [of _ "0x7ed1b41d"]) simp
  have m': "inj (\<lambda>x :: u32. x * 0x85ebca6b)" by (rule inj_mult [of _ "0xa5cb9243"]) simp
  show ?thesis unfolding eq by (intro inj_compose inj_xorshift m m') simp_all
qed

lemma inj_scramble: "inj mur_scramble"
proof -
  have eq: "mur_scramble = (\<lambda>x. x * 0x1b873593) \<circ> (\<lambda>x. mur_rotl32 x 15) \<circ> (\<lambda>x. x * 0xcc9e2d51)"
    by (simp add: fun_eq_iff mur_scramble_def)
  have m: "inj (\<lambda>x :: u32. x * 0x1b873593)" by (rule inj_mult [of _ "0x56ed309b"]) simp
  have m': "inj (\<lambda>x :: u32. x * 0xcc9e2d51)" by (rule inj_mult [of _ "0xdee13bb1"]) simp
  show ?thesis unfolding eq by (intro inj_compose inj_rotl m m') simp_all
qed

lemma inj_block: "inj (mur_block h)"
proof (rule injI)
  fix x y assume "mur_block h x = mur_block h y"
  then have "mur_rotl32 (h XOR mur_scramble x) 13 * 5 = mur_rotl32 (h XOR mur_scramble y) 13 * 5"
    by (simp add: mur_block_def)
  moreover have "inj (\<lambda>x :: u32. x * 5)" by (rule inj_mult [of _ "0xcccccccd"]) simp
  ultimately have "h XOR mur_scramble x = h XOR mur_scramble y"
    using inj_rotl [of 13] by (auto dest!: injD)
  then have "h XOR (h XOR mur_scramble x) = h XOR (h XOR mur_scramble y)" by simp
  then show "x = y" using inj_scramble by (simp add: xor.assoc [symmetric] inj_eq)
qed

lemma digit_inj: "a + 256 * b = c + 256 * d \<Longrightarrow> a < 256 \<Longrightarrow> c < (256::nat) \<Longrightarrow> a = c \<and> b = d"
  by (metis add.commute div_mult_self4 div_less add_0_right mod_mult_self2 mod_less add_left_cancel
      mult_cancel_left zero_neq_numeral)

lemma word4_inj:
  assumes "word4 a0 a1 a2 a3 = word4 b0 b1 b2 b3"
  shows "a0 = b0 \<and> a1 = b1 \<and> a2 = b2 \<and> a3 = b3"
proof -
  have byte: "unat x < 256" for x :: byte using unsigned_less [of x] by simp
  have val: "unat (word4 k0 k1 k2 k3) = unat k0 + 256 * unat k1 + 65536 * unat k2 + 16777216 * unat k3"
    for k0 k1 k2 k3 :: byte
  proof -
    have "word4 k0 k1 k2 k3 = of_nat (unat k0 + 256 * unat k1 + 65536 * unat k2 + 16777216 * unat k3)"
      by (simp add: word4_def push_bit_eq_mult mult.commute)
    moreover have "unat k0 + 256 * unat k1 + 65536 * unat k2 + 16777216 * unat k3 < 2 ^ LENGTH(32)"
      using byte [of k0] byte [of k1] byte [of k2] byte [of k3] by simp
    ultimately show ?thesis by (simp only: unat_of_nat mod_less)
  qed
  have "unat a0 + 256 * (unat a1 + 256 * (unat a2 + 256 * unat a3))
    = unat b0 + 256 * (unat b1 + 256 * (unat b2 + 256 * unat b3))"
    using arg_cong [OF assms, of unat] by (simp add: val)
  note 1 = digit_inj [OF this byte byte] note 2 = digit_inj [OF conjunct2 [OF 1] byte byte]
  note 3 = digit_inj [OF conjunct2 [OF 2] byte byte]
  from 1 2 3 show ?thesis by (simp add: word_unat_eq_iff)
qed

lemma hash_mur_4:
  assumes "length key = 4"
  shows "hash_mur key = mur_fmix (mur_block 0xf88D5353 (word4 (key ! 0) (key ! 1) (key ! 2) (key ! 3)) XOR 4)"
  using assms by (simp add: hash_mur_def mur_loop.simps [of _ key] mur_loop.simps [of _ "[]"] mur_tail_def)

text \<open>
  Under \<open>HASH_MUR\<close> no two keys of four bytes have the same hash, so the \<open>int\<close> keys of a table
  collide in a bucket only.
\<close>

theorem hash_mur_no_collision: "inj_on hash_mur {key. length key = 4}"
proof (rule inj_onI)
  fix k l assume "k \<in> {key. length key = 4}" "l \<in> {key. length key = 4}" and eq: "hash_mur k = hash_mur l"
  then have len: "length k = 4" "length l = 4" by simp_all
  let ?w = "\<lambda>key. word4 (key ! 0) (key ! 1) (key ! 2) (key ! 3)"
  from eq have "mur_block 0xf88D5353 (?w k) XOR 4 = mur_block 0xf88D5353 (?w l) XOR 4"
    using inj_fmix by (simp add: hash_mur_4 len inj_eq)
  then have "mur_block 0xf88D5353 (?w k) XOR (4 XOR 4) = mur_block 0xf88D5353 (?w l) XOR (4 XOR 4)"
    unfolding xor.assoc [symmetric] by simp
  then have "?w k = ?w l" using inj_block by (simp add: inj_eq)
  from word4_inj [OF this] show "k = l"
    by (intro nth_equalityI) (auto simp: len less_Suc_eq numeral_eq_Suc)
qed

end
