(* ===== verification/Hash_Mur_Portable.thy ===== *)
theory Hash_Mur_Portable
  imports Hash_Mur
begin

text \<open>
  \<open>HASH_MUR\<close> of \<^verbatim>\<open>local_lib/uthash.h\<close> on machines other than Intel's, little-endian ones, where a word is
  read at an aligned address only and \<open>MUR_GETBLOCK\<close> puts an unaligned word together from two aligned
  ones. At an aligned key the hash is the one of the other build. At an unaligned key the macro forgets
  the index of the block: every block is read at the end of the key.
\<close>

unbundle bit_operations_syntax

section \<open>Words in memory\<close>

type_synonym mem = "64 word \<Rightarrow> byte"

definition load_word :: "mem \<Rightarrow> 64 word \<Rightarrow> u32" where
  "load_word m p = word4 (m p) (m (p + 1)) (m (p + 2)) (m (p + 3))"

text \<open>\<open>WP\<close>, \<open>MUR_THREE_ONE\<close>, \<open>MUR_TWO_TWO\<close>, \<open>MUR_ONE_THREE\<close>, \<open>MUR_GETBLOCK\<close>\<close>

definition mur_wp :: "64 word \<Rightarrow> 64 word" where
  "mur_wp p = p AND NOT 3"

definition mur_three_one :: "mem \<Rightarrow> 64 word \<Rightarrow> u32" where
  "mur_three_one m p = drop_bit 8 (load_word m (mur_wp p) AND 0xffffff00) OR
     push_bit 24 (load_word m (mur_wp p + 4) AND 0x000000ff)"

definition mur_two_two :: "mem \<Rightarrow> 64 word \<Rightarrow> u32" where
  "mur_two_two m p = drop_bit 16 (load_word m (mur_wp p) AND 0xffff0000) OR
     push_bit 16 (load_word m (mur_wp p + 4) AND 0x0000ffff)"

definition mur_one_three :: "mem \<Rightarrow> 64 word \<Rightarrow> u32" where
  "mur_one_three m p = drop_bit 24 (load_word m (mur_wp p) AND 0xff000000) OR
     push_bit 8 (load_word m (mur_wp p + 4) AND 0x00ffffff)"

definition mur_getblock :: "mem \<Rightarrow> 64 word \<Rightarrow> int \<Rightarrow> u32" where
  "mur_getblock m p i =
     (if p AND 3 = 0 then load_word m (p + 4 * of_int i)
      else if p AND 3 = 1 then mur_three_one m p
      else if p AND 3 = 2 then mur_two_two m p
      else mur_one_three m p)"

text \<open>The loop from \<open>i = -n\<close> to \<open>-1\<close>, and the macro for a key of \<open>len\<close> bytes at \<open>p\<close>.\<close>

fun mur_blocks :: "mem \<Rightarrow> 64 word \<Rightarrow> nat \<Rightarrow> u32 \<Rightarrow> u32" where
  "mur_blocks m b 0 h = h"
| "mur_blocks m b (Suc n) h = mur_blocks m b n (mur_block h (mur_getblock m b (- int (Suc n))))"

definition mem_bytes :: "mem \<Rightarrow> 64 word \<Rightarrow> nat \<Rightarrow> byte list" where
  "mem_bytes m p n = map (\<lambda>i. m (p + of_nat i)) [0..<n]"

definition hash_mur_portable :: "mem \<Rightarrow> 64 word \<Rightarrow> nat \<Rightarrow> u32" where
  "hash_mur_portable m p len =
     (let nblocks = len div 4;
          b = p + of_nat (nblocks * 4);
          h = mur_blocks m b nblocks 0xf88D5353
      in mur_fmix (mur_tail h (mem_bytes m b (len mod 4)) XOR of_nat len))"

section \<open>Aligned keys\<close>

lemma mem_bytes_Suc: "mem_bytes m p (Suc n) = m p # mem_bytes m (p + 1) n"
proof (rule nth_equalityI)
  fix i assume "i < length (mem_bytes m p (Suc n))"
  then show "mem_bytes m p (Suc n) ! i = (m p # mem_bytes m (p + 1) n) ! i"
    by (cases i) (simp_all add: mem_bytes_def nth_append add.assoc del: upt_Suc)
qed (simp add: mem_bytes_def)

lemma mem_bytes_4: "mem_bytes m p (4 + n) = m p # m (p + 1) # m (p + 2) # m (p + 3) # mem_bytes m (p + 4) n"
  by (simp add: mem_bytes_Suc numeral_eq_Suc add.assoc)

lemma mur_blocks_aligned:
  assumes "b AND 3 = 0" "r < 4"
  shows "mur_loop h (mem_bytes m (b - 4 * of_nat n) (4 * n + r)) = (mur_blocks m b n h, mem_bytes m b r)"
proof (induction n arbitrary: h)
  case 0
  with assms(2) show ?case by (simp add: mur_loop.simps mem_bytes_def)
next
  case (Suc n)
  let ?p = "b - 4 * of_nat (Suc n)"
  have p: "?p + 4 = b - 4 * of_nat n" by (simp add: algebra_simps)
  have "4 * Suc n + r = 4 + (4 * n + r)" by simp
  then have key: "mem_bytes m ?p (4 * Suc n + r) =
      m ?p # m (?p + 1) # m (?p + 2) # m (?p + 3) # mem_bytes m (b - 4 * of_nat n) (4 * n + r)"
    by (simp only: mem_bytes_4 p)
  have "mur_getblock m b (- int (Suc n)) = load_word m ?p"
    using assms(1) by (simp add: mur_getblock_def algebra_simps)
  then show ?case unfolding key
    using Suc.IH by (simp add: mur_loop.simps [of h] load_word_def)
qed

lemma and_3: "unat (x AND 3) = unat (x :: 64 word) mod 4"
proof -
  have "x AND 3 = take_bit 2 x" by (simp add: take_bit_eq_mask mask_eq_exp_minus_1)
  then have "unat (x AND 3) = take_bit 2 (unat x)" by (simp only: unsigned_take_bit_eq)
  then show ?thesis by (simp only: take_bit_eq_mod) simp
qed

text \<open>An aligned key has the hash of the other build.\<close>

theorem mur_portable_aligned:
  assumes "p AND 3 = 0"
  shows "hash_mur_portable m p len = hash_mur (mem_bytes m p len)"
proof -
  let ?n = "len div 4" and ?r = "len mod 4"
  let ?b = "p + of_nat (?n * 4)"
  have "unat ?b mod 4 = (unat p + ?n * 4) mod 2 ^ 64 mod 4"
    by (simp add: unat_word_ariths unat_of_nat mod_add_right_eq del: of_nat_mult)
  also have "\<dots> = (unat p + ?n * 4) mod 4" by (rule mod_mod_cancel) simp
  also have "\<dots> = 0" using assms and_3 [of p] by (simp add: unat_eq_0 [symmetric])
  finally have "?b AND 3 = 0" using and_3 [of ?b] by (simp add: unat_eq_0 [symmetric])
  from mur_blocks_aligned [OF this, where r = ?r and h = "0xf88D5353" and m = m and n = ?n]
  have "mur_loop 0xf88D5353 (mem_bytes m p len) = (mur_blocks m ?b ?n 0xf88D5353, mem_bytes m ?b ?r)"
    by (simp add: algebra_simps)
  then show ?thesis by (simp add: hash_mur_portable_def hash_mur_def mem_bytes_def Let_def)
qed

section \<open>Unaligned keys\<close>

lemma bit_word4:
  "bit (word4 a b c d) n \<longleftrightarrow> (if n < 8 then bit a n else if n < 16 then bit b (n - 8) else if n < 24 then bit c (n - 16)
     else n < 32 \<and> bit d (n - 24))"
proof -
  let ?a = "ucast a :: u32" and ?b = "push_bit 8 (ucast b) :: u32" and ?c = "push_bit 16 (ucast c) :: u32"
    and ?d = "push_bit 24 (ucast d) :: u32"
  have 1: "?a + ?b = ?a OR ?b"
    by (rule disjunctive_add_eq_or, rule bit_word_eqI) (auto simp: bit_simps dest: bit_imp_le_length)
  have 2: "(?a OR ?b) + ?c = (?a OR ?b) OR ?c"
    by (rule disjunctive_add_eq_or, rule bit_word_eqI) (auto simp: bit_simps dest: bit_imp_le_length)
  have 3: "((?a OR ?b) OR ?c) + ?d = ((?a OR ?b) OR ?c) OR ?d"
    by (rule disjunctive_add_eq_or, rule bit_word_eqI) (auto simp: bit_simps dest: bit_imp_le_length)
  have "word4 a b c d = ((?a OR ?b) OR ?c) OR ?d" unfolding word4_def by (simp only: 1 2 3)
  then show ?thesis by (auto simp: bit_simps dest: bit_imp_le_length)
qed

lemma mur_wp_split: "mur_wp p + (p AND 3) = p"
proof -
  have "(p AND NOT 3) + (p AND 3) = (p AND NOT 3) OR (p AND 3)"
    by (rule disjunctive_add_eq_or, rule bit_word_eqI) (auto simp: bit_simps)
  also have "\<dots> = p" by (rule bit_word_eqI) (auto simp: bit_simps)
  finally show ?thesis by (simp add: mur_wp_def)
qed


lemma align_cases: "p AND 3 = 0 \<or> p AND 3 = 1 \<or> p AND 3 = 2 \<or> p AND 3 = (3 :: 64 word)"
proof -
  have "unat (p AND 3) < 4" unfolding and_3 by simp
  then have "unat (p AND 3) = 0 \<or> unat (p AND 3) = 1 \<or> unat (p AND 3) = 2 \<or> unat (p AND 3) = 3" by arith
  then show ?thesis by (auto simp: word_unat_eq_iff)
qed

text \<open>The word that is put together is the one at \<open>p\<close>, whatever block was asked for.\<close>

lemma mur_getblock_unaligned:
  assumes "p AND 3 \<noteq> 0"
  shows "mur_getblock m p i = load_word m p"
proof -
  let ?w = "mur_wp p"
  have p: "p = ?w + (p AND 3)" by (rule mur_wp_split [symmetric])
  have hi: "bit (0xffffff00 :: int) n \<longleftrightarrow> 8 \<le> n \<and> n < 32" "bit (0xffff0000 :: int) n \<longleftrightarrow> 16 \<le> n \<and> n < 32"
    "bit (0xff000000 :: int) n \<longleftrightarrow> 24 \<le> n \<and> n < 32" "bit (0xff :: int) n \<longleftrightarrow> n < 8" "bit (0xffff :: int) n \<longleftrightarrow> n < 16"
    "bit (0xffffff :: int) n \<longleftrightarrow> n < 24" for n
  proof -
    have m: "0xffffff00 = push_bit 8 (mask 24 :: int)" "0xffff0000 = push_bit 16 (mask 16 :: int)"
      "0xff000000 = push_bit 24 (mask 8 :: int)" "0xff = (mask 8 :: int)" "0xffff = (mask 16 :: int)" "0xffffff = (mask 24 :: int)"
      by (simp_all add: mask_eq_exp_minus_1 push_bit_eq_mult)
    show "bit (0xffffff00 :: int) n \<longleftrightarrow> 8 \<le> n \<and> n < 32" "bit (0xffff0000 :: int) n \<longleftrightarrow> 16 \<le> n \<and> n < 32"
      "bit (0xff000000 :: int) n \<longleftrightarrow> 24 \<le> n \<and> n < 32" "bit (0xff :: int) n \<longleftrightarrow> n < 8" "bit (0xffff :: int) n \<longleftrightarrow> n < 16"
      "bit (0xffffff :: int) n \<longleftrightarrow> n < 24" unfolding m by (auto simp: bit_simps)
  qed
  consider "p AND 3 = 1" | "p AND 3 = 2" | "p AND 3 = 3" using align_cases [of p] assms by blast
  then show ?thesis
  proof cases
    case 1
    with p have "p = ?w + 1" by simp
    then have "load_word m p = load_word m (?w + 1)" by (rule arg_cong)
    then have l: "load_word m p = word4 (m (?w + 1)) (m (?w + 2)) (m (?w + 3)) (m (?w + 4))"
      by (simp only: load_word_def add.assoc) simp
    show ?thesis unfolding l by (rule bit_word_eqI) (auto simp: mur_getblock_def 1 mur_three_one_def load_word_def bit_simps bit_word4 hi)
  next
    case 2
    with p have "p = ?w + 2" by simp
    then have "load_word m p = load_word m (?w + 2)" by (rule arg_cong)
    then have l: "load_word m p = word4 (m (?w + 2)) (m (?w + 3)) (m (?w + 4)) (m (?w + 5))"
      by (simp only: load_word_def add.assoc) simp
    show ?thesis unfolding l by (rule bit_word_eqI) (auto simp: mur_getblock_def 2 mur_two_two_def load_word_def bit_simps bit_word4 add.assoc hi)
  next
    case 3
    with p have "p = ?w + 3" by simp
    then have "load_word m p = load_word m (?w + 3)" by (rule arg_cong)
    then have l: "load_word m p = word4 (m (?w + 3)) (m (?w + 4)) (m (?w + 5)) (m (?w + 6))"
      by (simp only: load_word_def add.assoc) simp
    show ?thesis unfolding l by (rule bit_word_eqI) (auto simp: mur_getblock_def 3 mur_one_three_def load_word_def bit_simps bit_word4 add.assoc hi)
  qed
qed

text \<open>
  The hash of an unaligned \<open>int\<close> is the hash of the four bytes behind it: the key itself is not read, and
  the same key at another place has another hash unless the same bytes follow it.
\<close>

theorem mur_unaligned_reads_behind:
  assumes "p AND 3 \<noteq> 0"
  shows "hash_mur_portable m p 4 = hash_mur (mem_bytes m (p + 4) 4)"
proof -
  have "unat (p + 4) mod 4 = (unat p + 4) mod 2 ^ 64 mod 4" by (simp add: unat_word_ariths)
  also have "\<dots> = (unat p + 4) mod 4" by (rule mod_mod_cancel) simp
  finally have "(p + 4) AND 3 = p AND 3" unfolding word_unat_eq_iff [of "(p + 4) AND 3"] and_3 by simp
  with assms mur_getblock_unaligned have "mur_getblock m (p + 4) (- 1) = load_word m (p + 4)" by simp
  then have "hash_mur_portable m p 4 = mur_fmix (mur_block 0xf88D5353 (load_word m (p + 4)) XOR 4)"
    by (simp add: hash_mur_portable_def mem_bytes_def mur_tail_def numeral_eq_Suc [of "num.Bit0 num.One"])
  moreover have "mem_bytes m (p + 4) 4 = [m (p + 4), m (p + 4 + 1), m (p + 4 + 2), m (p + 4 + 3)]"
    using mem_bytes_4 [of m "p + 4" 0] by (simp add: mem_bytes_def)
  ultimately show ?thesis by (simp add: hash_mur_4 load_word_def)
qed

theorem mur_unaligned_same_key:
  assumes "p AND 3 \<noteq> 0" "q AND 3 \<noteq> 0" "mem_bytes m p 4 = mem_bytes m q 4"
  shows "hash_mur_portable m p 4 = hash_mur_portable m q 4 \<longleftrightarrow> mem_bytes m (p + 4) 4 = mem_bytes m (q + 4) 4"
  unfolding mur_unaligned_reads_behind [OF assms(1)] mur_unaligned_reads_behind [OF assms(2)]
  by (rule inj_on_eq_iff [OF hash_mur_no_collision]) (simp_all add: mem_bytes_def)

end
