(* ===== verification/Kmp.thy ===== *)
theory Kmp
  imports Wf_Prelude
begin

text \<open>
  The substring search of \<^verbatim>\<open>local_lib/utstring.h\<close>: the table of Knuth, Morris and Pratt and the search
  with it, from left to right and from right to left. Positions and table entries are the \<open>long\<close>s
  of the code; the bounds of the loops are cast to \<open>int\<close> where the code does so. An access outside
  of an array and the use of an entry that has not been written are faults.
\<close>

section \<open>Arrays\<close>

definition at :: "'a list \<Rightarrow> int \<Rightarrow> 'a res" where
  "at xs i = (if 0 \<le> i \<and> i < int (length xs) then Inr (xs ! nat i) else Inl OutOfBounds)"

text \<open>A slot that may be indeterminate.\<close>

definition slot_at :: "'a option list \<Rightarrow> int \<Rightarrow> 'a res" where
  "slot_at xs i = andThen (at xs i) (\<lambda>x. case x of None \<Rightarrow> Inl UninitRead | Some v \<Rightarrow> Inr v)"

definition put_at :: "'a option list \<Rightarrow> int \<Rightarrow> 'a \<Rightarrow> 'a option list res" where
  "put_at xs i v = (if 0 \<le> i \<and> i < int (length xs) then Inr (xs[nat i := Some v]) else Inl OutOfBounds)"

text \<open>\<open>(int)n\<close> of a \<open>size_t\<close> or \<open>long\<close>\<close>

definition c_int :: "int \<Rightarrow> int" where
  "c_int n = signed_take_bit 31 n"

section \<open>The tables\<close>

text \<open>\<open>while (j > -1 && needle[i] != needle[j]) j = table[j];\<close>\<close>

fun bt_fall :: "'a list \<Rightarrow> int option list \<Rightarrow> int \<Rightarrow> nat \<Rightarrow> int \<Rightarrow> int res" where
  "bt_fall P T i n j =
     (if \<not> -1 < j then Inr j
      else andThen (at P i) (\<lambda>a. andThen (at P j) (\<lambda>b.
        if a = b then Inr j
        else (case n of 0 \<Rightarrow> Inl Diverge
          | Suc n \<Rightarrow> andThen (slot_at T j) (bt_fall P T i n)))))"

text \<open>The entry of a position from its longest border.\<close>

definition bt_entry :: "'a list \<Rightarrow> int option list \<Rightarrow> int \<Rightarrow> int \<Rightarrow> int res" where
  "bt_entry P T i j =
     (if i < int (length P)
      then andThen (at P i) (\<lambda>a. andThen (at P j) (\<lambda>b. if a = b then slot_at T j else Inr j))
      else Inr j)"

fun bt_loop :: "'a list \<Rightarrow> nat \<Rightarrow> int \<Rightarrow> int \<Rightarrow> int option list \<Rightarrow> int option list res" where
  "bt_loop P n i j T =
     (if \<not> i < int (length P) then Inr T
      else (case n of 0 \<Rightarrow> Inl Diverge
        | Suc n \<Rightarrow>
          andThen (bt_fall P T i (length P) j) (\<lambda>j.
          andThen (bt_entry P T (i + 1) (j + 1)) (\<lambda>v.
          andThen (put_at T (i + 1) v) (\<lambda>T.
            bt_loop P n (i + 1) (j + 1) T)))))"

declare bt_fall.simps [simp del] bt_loop.simps [simp del]

definition utstring_build_table :: "'a list \<Rightarrow> int option list \<Rightarrow> int option list res" where
  "utstring_build_table P T = andThen (put_at T 0 (-1)) (bt_loop P (length P) 0 (-1))"

section \<open>The search\<close>

text \<open>\<open>while (i > -1 && needle[i] != haystack[j]) i = table[i];\<close>\<close>

fun find_fall :: "'a list \<Rightarrow> 'a option list \<Rightarrow> int option list \<Rightarrow> int \<Rightarrow> nat \<Rightarrow> int \<Rightarrow> int res" where
  "find_fall P H T j n i =
     (if \<not> -1 < i then Inr i
      else andThen (at P i) (\<lambda>a. andThen (slot_at H j) (\<lambda>b.
        if a = b then Inr i
        else (case n of 0 \<Rightarrow> Inl Diverge
          | Suc n \<Rightarrow> andThen (slot_at T i) (find_fall P H T j n)))))"

fun find_loop :: "'a list \<Rightarrow> 'a option list \<Rightarrow> int option list \<Rightarrow> nat \<Rightarrow> int \<Rightarrow> int \<Rightarrow> int res" where
  "find_loop P H T n i j =
     (if \<not> (j < c_int (int (length H)) \<and> int (length P) \<le> (int (length H) - j) + i) then Inr (-1)
      else (case n of 0 \<Rightarrow> Inl Diverge
        | Suc n \<Rightarrow>
          andThen (find_fall P H T j (length P) i) (\<lambda>i.
            if c_int (int (length P)) \<le> i + 1 then Inr ((j + 1) - (i + 1))
            else find_loop P H T n (i + 1) (j + 1))))"

declare find_fall.simps [simp del] find_loop.simps [simp del]

definition utstring_find_in :: "'a option list \<Rightarrow> 'a list \<Rightarrow> int option list \<Rightarrow> int res" where
  "utstring_find_in H P T = find_loop P H T (length H) 0 0"

section \<open>Borders and occurrences\<close>

text \<open>\<open>border P i k\<close>: the prefix of length \<open>k\<close> is a proper suffix of the prefix of length \<open>i\<close>.\<close>

definition border :: "'a list \<Rightarrow> nat \<Rightarrow> nat \<Rightarrow> bool" where
  "border P i k \<longleftrightarrow> k < i \<and> i \<le> length P \<and> (\<forall>m < k. P ! (i - k + m) = P ! m)"

lemma border_0: "0 < i \<Longrightarrow> i \<le> length P \<Longrightarrow> border P i 0"
  by (simp add: border_def)

lemma borderD: "border P i k \<Longrightarrow> m < k \<Longrightarrow> P ! (i - k + m) = P ! m"
  unfolding border_def by blast

lemma border_trans:
  assumes "border P i j" "border P j k"
  shows "border P i k"
proof -
  have lt: "k < j" "j < i" using assms by (simp_all add: border_def)
  have "P ! (i - k + m) = P ! m" if "m < k" for m
  proof -
    have eq: "i - j + (j - k + m) = i - k + m" "j - k + m < j" using lt that by simp_all
    show ?thesis using borderD [OF assms(1) eq(2)] borderD [OF assms(2) that] unfolding eq(1) by metis
  qed
  with assms show ?thesis by (simp add: border_def)
qed

lemma border_between:
  assumes "border P i j" "border P i k" "k < j"
  shows "border P j k"
proof -
  have lt: "j < i" using assms by (simp add: border_def)
  have "P ! (j - k + m) = P ! m" if "m < k" for m
  proof -
    have eq: "i - j + (j - k + m) = i - k + m" "j - k + m < j" using lt assms(3) that by simp_all
    show ?thesis using borderD [OF assms(1) eq(2)] borderD [OF assms(2) that] unfolding eq(1) by metis
  qed
  with assms show ?thesis by (simp add: border_def)
qed

lemma border_Suc:
  "i < length P \<Longrightarrow> border P (Suc i) (Suc k) \<longleftrightarrow> border P i k \<and> P ! k = P ! i"
proof (cases "k < i")
  case True
  assume i: "i < length P"
  have "(\<forall>m < Suc k. P ! (i - k + m) = P ! m) \<longleftrightarrow> (\<forall>m < k. P ! (i - k + m) = P ! m) \<and> P ! i = P ! k"
    using True by (auto simp: less_Suc_eq)
  with True i show ?thesis by (auto simp: border_def)
qed (simp add: border_def)

text \<open>The needle stands in the haystack at position \<open>s\<close>; the first \<open>i\<close> characters of the needle end at \<open>j\<close>.\<close>

definition occurs :: "'a list \<Rightarrow> 'a list \<Rightarrow> nat \<Rightarrow> bool" where
  "occurs H P s \<longleftrightarrow> s + length P \<le> length H \<and> (\<forall>m < length P. H ! (s + m) = P ! m)"

definition ends_at :: "'a list \<Rightarrow> 'a list \<Rightarrow> nat \<Rightarrow> nat \<Rightarrow> bool" where
  "ends_at H P i j \<longleftrightarrow> i \<le> j \<and> j \<le> length H \<and> i \<le> length P \<and> (\<forall>m < i. H ! (j - i + m) = P ! m)"

lemma occurs_take: "occurs H P s \<longleftrightarrow> take (length P) (drop s H) = P \<and> s \<le> length H"
proof
  assume o: "occurs H P s"
  then have "take (length P) (drop s H) = P"
    by (intro nth_equalityI) (auto simp: occurs_def)
  with o show "take (length P) (drop s H) = P \<and> s \<le> length H" by (simp add: occurs_def)
next
  assume t: "take (length P) (drop s H) = P \<and> s \<le> length H"
  then have "min (length H - s) (length P) = length P" by (metis length_drop length_take)
  moreover have "H ! (s + m) = P ! m" if "m < length P" for m
    using that t calculation nth_take [of m "length P" "drop s H"] by simp
  ultimately show "occurs H P s" using t by (auto simp: occurs_def)
qed

lemma endsD: "ends_at H P i j \<Longrightarrow> m < i \<Longrightarrow> H ! (j - i + m) = P ! m"
  unfolding ends_at_def by blast

lemma occursD: "occurs H P s \<Longrightarrow> m < length P \<Longrightarrow> H ! (s + m) = P ! m"
  by (simp add: occurs_def)

lemma ends_border:
  assumes "ends_at H P i j" "border P i k"
  shows "ends_at H P k j"
proof -
  have lt: "k < i" "i \<le> j" using assms by (simp_all add: border_def ends_at_def)
  have "H ! (j - k + m) = P ! m" if "m < k" for m
  proof -
    have eq: "j - i + (i - k + m) = j - k + m" "i - k + m < i" using lt that by simp_all
    show ?thesis using endsD [OF assms(1) eq(2)] borderD [OF assms(2) that] unfolding eq(1) by metis
  qed
  with assms show ?thesis by (simp add: border_def ends_at_def)
qed

text \<open>An occurrence that starts inside a match of \<open>i\<close> characters is one of a border.\<close>

lemma occurs_border:
  assumes "ends_at H P i j" "occurs H P (j - k)" "k < i" "j < length H" "k < length P"
  shows "border P i k" "H ! j = P ! k"
proof -
  have lt: "i \<le> j" using assms by (simp add: ends_at_def)
  have "P ! (i - k + m) = P ! m" if "m < k" for m
  proof -
    have eq: "j - i + (i - k + m) = j - k + m" "i - k + m < i" "m < length P" using lt assms that by simp_all
    show ?thesis using endsD [OF assms(1) eq(2)] occursD [OF assms(2) eq(3)] unfolding eq(1) by metis
  qed
  with assms show "border P i k" by (simp add: border_def ends_at_def)
  have "H ! (j - k + k) = P ! k" using assms by (simp add: occurs_def)
  then show "H ! j = P ! k" using assms by (simp add: ends_at_def)
qed

lemma ends_Suc:
  "ends_at H P i j \<Longrightarrow> i < length P \<Longrightarrow> j < length H \<Longrightarrow> P ! i = H ! j \<Longrightarrow> ends_at H P (Suc i) (Suc j)"
  by (auto simp: ends_at_def less_Suc_eq)

lemma ends_occurs: "ends_at H P (length P) j \<longleftrightarrow> length P \<le> j \<and> occurs H P (j - length P)"
  by (auto simp: ends_at_def occurs_def)

section \<open>The table is right\<close>

lemma at_nth [simp]: "i < length xs \<Longrightarrow> at xs (int i) = Inr (xs ! i)"
  by (simp add: at_def)

lemma slot_at_Some [simp]: "i < length xs \<Longrightarrow> xs ! i = Some v \<Longrightarrow> slot_at xs (int i) = Inr v"
  by (simp add: slot_at_def)

text \<open>
  An entry: the longest border whose next character differs, -1 when there is none; \<open>longest\<close>: the
  longest border at all.
\<close>

definition next_ok :: "'a list \<Rightarrow> nat \<Rightarrow> int \<Rightarrow> bool" where
  "next_ok P i t \<longleftrightarrow> -1 \<le> t \<and> t < int i \<and> (0 \<le> t \<longrightarrow> border P i (nat t) \<and> P ! nat t \<noteq> P ! i) \<and>
     (\<forall>k. border P i k \<and> t < int k \<longrightarrow> P ! k = P ! i)"

definition longest :: "'a list \<Rightarrow> nat \<Rightarrow> int \<Rightarrow> bool" where
  "longest P i j \<longleftrightarrow> -1 \<le> j \<and> j < int i \<and> (0 \<le> j \<longrightarrow> border P i (nat j)) \<and> (\<forall>k. border P i k \<longrightarrow> int k \<le> j)"

definition filled :: "'a list \<Rightarrow> int option list \<Rightarrow> nat \<Rightarrow> bool" where
  "filled P T i \<longleftrightarrow> length T = Suc (length P) \<and> i \<le> length P \<and>
     (\<forall>k \<le> i. \<exists>t. T ! k = Some t \<and> (k < length P \<longrightarrow> next_ok P k t))"

lemma filled_at:
  assumes "filled P T i" "k \<le> i" "k < length P"
  shows "\<exists>t. slot_at T (int k) = Inr t \<and> next_ok P k t"
proof -
  from assms obtain t where "T ! k = Some t" "next_ok P k t" "k < length T" by (auto simp: filled_def)
  then show ?thesis by auto
qed

text \<open>Falling back ends at the longest border that the character at \<open>i\<close> extends.\<close>

definition extends :: "'a list \<Rightarrow> nat \<Rightarrow> int \<Rightarrow> bool" where
  "extends P i j \<longleftrightarrow> -1 \<le> j \<and> j < int i \<and> (0 \<le> j \<longrightarrow> border P i (nat j) \<and> P ! nat j = P ! i) \<and>
     (\<forall>k. border P i k \<and> j < int k \<longrightarrow> P ! k \<noteq> P ! i)"

lemma bt_fall_ok:
  assumes "filled P T i" "i < length P" "-1 \<le> j" "j < int i" "0 \<le> j \<longrightarrow> border P i (nat j)"
    and "\<forall>k. border P i k \<and> j < int k \<longrightarrow> P ! k \<noteq> P ! i" "j < int n"
  shows "\<exists>j'. bt_fall P T (int i) n j = Inr j' \<and> extends P i j'"
  using assms
proof (induction n arbitrary: j)
  case 0
  then show ?case by (auto simp: bt_fall.simps extends_def)
next
  case (Suc n)
  show ?case
  proof (cases "j = -1 \<or> P ! nat j = P ! i")
    case True
    have "at P j = Inr (P ! nat j)" if "j \<noteq> -1" using that Suc.prems(2-4) by (simp add: at_def)
    then have "bt_fall P T (int i) (Suc n) j = Inr j"
      using True Suc.prems(2,3) by (cases "j = -1") (simp_all add: bt_fall.simps [of P T "int i" "Suc n"])
    moreover have "extends P i j" using True Suc.prems(3-6) unfolding extends_def by auto
    ultimately show ?thesis by simp
  next
    case False
    then obtain m where m: "j = int m" using Suc.prems(3) by (cases j rule: int_cases) auto
    with Suc.prems False have b: "m < i" "border P i m" "P ! m \<noteq> P ! i" by auto
    from filled_at [OF Suc.prems(1), of m] b Suc.prems(2) obtain t where
      t: "slot_at T (int m) = Inr t" "next_ok P m t" by auto
    have "P ! k \<noteq> P ! i" if k: "border P i k" "t < int k" for k
    proof (cases k m rule: linorder_cases)
      case less
      with border_between [OF b(2) k(1)] t(2) k(2) have "P ! k = P ! m" by (simp add: next_ok_def)
      with b(3) show ?thesis by simp
    next
      case greater
      with Suc.prems(6) k(1) m show ?thesis by auto
    qed (use b in simp)
    moreover have "0 \<le> t \<longrightarrow> border P i (nat t)" using t(2) border_trans [OF b(2)] by (simp add: next_ok_def)
    moreover have "-1 \<le> t" "t < int i" "t < int n" using t(2) b(1) m Suc.prems(7) by (auto simp: next_ok_def)
    ultimately obtain j' where j': "bt_fall P T (int i) n t = Inr j'" "extends P i j'"
      using Suc.IH [OF Suc.prems(1,2), of t] by blast
    have "bt_fall P T (int i) (Suc n) j = bt_fall P T (int i) n t"
      using b Suc.prems(2) t(1) by (simp add: bt_fall.simps [of P T "int i" "Suc n"] m)
    with j' show ?thesis by auto
  qed
qed

lemma extends_longest:
  assumes "extends P i j" "i < length P"
  shows "longest P (Suc i) (j + 1)"
proof -
  have "border P (Suc i) (nat (j + 1))"
  proof (cases "j = -1")
    case True
    then show ?thesis using border_0 [of "Suc i" P] assms(2) by simp
  next
    case False
    with assms(1) obtain m where m: "j = int m" by (cases j rule: int_cases) (auto simp: extends_def)
    then have "nat (j + 1) = Suc m" by simp
    with border_Suc [OF assms(2), of m] assms(1) m show ?thesis by (simp add: extends_def)
  qed
  moreover have "int k \<le> j + 1" if "border P (Suc i) k" for k
  proof (cases k)
    case 0
    with assms(1) show ?thesis by (simp add: extends_def)
  next
    case (Suc m)
    with border_Suc [OF assms(2), of m] that have "border P i m" "P ! m = P ! i" by simp_all
    with assms(1) Suc show ?thesis by (force simp: extends_def)
  qed
  ultimately show ?thesis using assms(1) by (simp add: longest_def extends_def)
qed

text \<open>The entry of a position from its longest border.\<close>

lemma bt_entry_ok:
  assumes "filled P T i" "i < length P" "longest P (Suc i) j" "0 \<le> j"
  shows "\<exists>v. bt_entry P T (int (Suc i)) j = Inr v \<and> (Suc i < length P \<longrightarrow> next_ok P (Suc i) v)"
proof (cases "Suc i < length P")
  case False
  then show ?thesis by (simp add: bt_entry_def)
next
  case True
  let ?i = "Suc i"
  obtain m where m: "j = int m" using assms(4) by (cases j rule: int_cases) auto
  with assms(3) have b: "m < ?i" "border P ?i m" "\<And>k. border P ?i k \<Longrightarrow> k \<le> m" by (auto simp: longest_def)
  from filled_at [OF assms(1), of m] b(1) assms(2) obtain t where
    t: "slot_at T (int m) = Inr t" "next_ok P m t" by auto
  show ?thesis
  proof (cases "P ! ?i = P ! m")
    case True
    have "P ! k = P ! ?i" if k: "border P ?i k" "t < int k" for k
    proof (cases "k = m")
      case False
      with b(3) [OF k(1)] have "k < m" by simp
      with border_between [OF b(2) k(1)] t(2) k(2) True show ?thesis by (simp add: next_ok_def)
    qed (simp add: True)
    moreover have "0 \<le> t \<longrightarrow> border P ?i (nat t) \<and> P ! nat t \<noteq> P ! ?i"
      using t(2) border_trans [OF b(2)] True by (simp add: next_ok_def)
    ultimately have "next_ok P ?i t" using t(2) b(1) by (auto simp: next_ok_def)
    moreover have "at P (int ?i) = Inr (P ! ?i)" "at P (int m) = Inr (P ! m)"
      using \<open>?i < length P\<close> b(1) by (intro at_nth; simp)+
    ultimately show ?thesis
      using t(1) True \<open>?i < length P\<close> unfolding m bt_entry_def by simp
  next
    case False
    have "at P (int ?i) = Inr (P ! ?i)" "at P (int m) = Inr (P ! m)"
      using \<open>?i < length P\<close> b(1) by (intro at_nth; simp)+
    moreover have "next_ok P ?i (int m)" using b False by (force simp: next_ok_def)
    ultimately show ?thesis using False \<open>?i < length P\<close> unfolding m bt_entry_def by simp
  qed
qed

lemma bt_loop_ok:
  assumes "filled P T i" "longest P i j" "length P \<le> n + i"
  shows "\<exists>T'. bt_loop P n (int i) j T = Inr T' \<and> filled P T' (length P)"
  using assms
proof (induction n arbitrary: i j T)
  case 0
  then show ?case by (simp add: bt_loop.simps filled_def)
next
  case (Suc n)
  have i: "i \<le> length P" using Suc.prems(1) by (simp add: filled_def)
  show ?case
  proof (cases "i < length P")
    case False
    with i Suc.prems(1) show ?thesis by (simp add: bt_loop.simps)
  next
    case True
    have "0 \<le> j \<longrightarrow> border P i (nat j)" "\<forall>k. border P i k \<and> j < int k \<longrightarrow> P ! k \<noteq> P ! i" "-1 \<le> j" "j < int i"
      "j < int (length P)" using Suc.prems(2) True by (auto simp: longest_def)
    from bt_fall_ok [OF Suc.prems(1) True this(3,4,1,2,5)] obtain j' where
      f: "bt_fall P T (int i) (length P) j = Inr j'" "extends P i j'" by blast
    note lg = extends_longest [OF f(2) True]
    have "0 \<le> j' + 1" using f(2) by (simp add: extends_def)
    from bt_entry_ok [OF Suc.prems(1) True lg this] obtain v where
      v: "bt_entry P T (int (Suc i)) (j' + 1) = Inr v" "Suc i < length P \<longrightarrow> next_ok P (Suc i) v" by blast
    let ?T = "T[Suc i := Some v]"
    have len: "length T = Suc (length P)" using Suc.prems(1) by (simp add: filled_def)
    then have "put_at T (int (Suc i)) v = Inr ?T" using True by (simp add: put_at_def nat_add_distrib)
    moreover have "filled P ?T (Suc i)"
      using Suc.prems(1) True v(2) by (auto simp: filled_def nth_list_update le_Suc_eq)
    ultimately show ?thesis
      using Suc.IH [of ?T "Suc i" "j' + 1"] lg Suc.prems(3) f(1) v(1) True
      by (simp add: bt_loop.simps [of P "Suc n"] add.commute)
  qed
qed

lemma build_table_ok:
  assumes "length T = Suc (length P)"
  shows "\<exists>T'. utstring_build_table P T = Inr T' \<and> filled P T' (length P)"
proof -
  obtain x T0 where T: "T = x # T0" using assms by (cases T) auto
  have "put_at T 0 (-1) = Inr (T[0 := Some (-1)])" using T by (simp add: put_at_def)
  moreover have "filled P (T[0 := Some (-1)]) 0"
    using assms T by (auto simp: filled_def next_ok_def border_def)
  moreover have "longest P 0 (-1)" by (simp add: longest_def border_def)
  ultimately show ?thesis
    using bt_loop_ok [of P "T[0 := Some (-1)]" 0 "-1" "length P"] by (simp add: utstring_build_table_def)
qed

section \<open>The search finds the first occurrence\<close>

lemma c_int_small: "0 \<le> n \<Longrightarrow> n < 2 ^ 31 \<Longrightarrow> c_int n = n"
  by (simp add: c_int_def signed_take_bit_int_eq_self)

text \<open>\<open>none_before H P s\<close>: the needle does not stand before position \<open>s\<close>.\<close>

definition none_before :: "'a list \<Rightarrow> 'a list \<Rightarrow> int \<Rightarrow> bool" where
  "none_before H P s \<longleftrightarrow> (\<forall>k. int k < s \<longrightarrow> \<not> occurs H P k)"

lemma find_fall_ok:
  assumes "filled P T (length P)" "j < length H" "-1 \<le> i" "i < int (length P)" "0 \<le> i \<longrightarrow> ends_at H P (nat i) j"
    and "i < int n" "none_before H P (int j - i)"
  shows "\<exists>i'. find_fall P (map Some H) T (int j) n i = Inr i' \<and> -1 \<le> i' \<and> i' < int (length P) \<and>
    ends_at H P (nat (i' + 1)) (Suc j) \<and> none_before H P (int j - i')"
  using assms
proof (induction n arbitrary: i)
  case 0
  then show ?case by (auto simp: find_fall.simps ends_at_def)
next
  case (Suc n)
  show ?case
  proof (cases "i = -1")
    case True
    with Suc.prems show ?thesis by (auto simp: find_fall.simps ends_at_def)
  next
    case False
    then obtain m where m: "i = int m" using Suc.prems(3) by (cases i rule: int_cases) auto
    with Suc.prems have e: "m < length P" "ends_at H P m j" by auto
    have at: "at P (int m) = Inr (P ! m)" "slot_at (map Some H) (int j) = Inr (H ! j)"
      using e(1) Suc.prems(2) by simp_all
    show ?thesis
    proof (cases "P ! m = H ! j")
      case True
      with e Suc.prems ends_Suc [OF e(2,1) Suc.prems(2)] at show ?thesis
        by (simp add: find_fall.simps [of P _ _ _ "Suc n"] m nat_add_distrib)
    next
      case False
      from filled_at [OF Suc.prems(1), of m] e(1) obtain t where t: "slot_at T (int m) = Inr t" "next_ok P m t" by auto
      have "\<not> occurs H P k" if k: "int k < int j - t" for k
      proof
        assume o: "occurs H P k"
        then have len: "k + length P \<le> length H" by (simp add: occurs_def)
        from Suc.prems(7) o have "int j - int m \<le> int k" unfolding none_before_def m by force
        moreover have "k \<noteq> j - m"
        proof
          assume "k = j - m"
          then have "H ! (j - m + m) = P ! m" using occursD [OF o e(1)] by simp
          with e(2) False show False by (simp add: ends_at_def)
        qed
        moreover have "m \<le> j" using e(2) by (simp add: ends_at_def)
        ultimately have lt: "j - m < k" by linarith
        show False
        proof (cases "k \<le> j")
          case True
          then have kk: "occurs H P (j - (j - k))" "j - k < m" "j - k < length P" using lt e(1) o by simp_all
          from occurs_border [OF e(2) kk(1,2) Suc.prems(2) kk(3)]
          have "border P m (j - k)" "H ! j = P ! (j - k)" by simp_all
          moreover have "t < int (j - k)" using k True by linarith
          ultimately have "H ! j = P ! m" using t(2) by (simp add: next_ok_def)
          with False show False by simp
        next
          case False
          with k t(2) show False by (simp add: next_ok_def)
        qed
      qed
      then have "none_before H P (int j - t)" by (simp add: none_before_def)
      moreover have "0 \<le> t \<longrightarrow> ends_at H P (nat t) j" using t(2) ends_border [OF e(2)] by (simp add: next_ok_def)
      moreover have "-1 \<le> t" "t < int (length P)" "t < int n"
        using t(2) e(1) Suc.prems(6) m by (auto simp: next_ok_def)
      ultimately obtain i' where "find_fall P (map Some H) T (int j) n t = Inr i'" "-1 \<le> i'" "i' < int (length P)"
        "ends_at H P (nat (i' + 1)) (Suc j)" "none_before H P (int j - i')"
        using Suc.IH [OF Suc.prems(1,2), of t] by blast
      moreover have "find_fall P (map Some H) T (int j) (Suc n) i = find_fall P (map Some H) T (int j) n t"
        using False at t(1) by (simp add: find_fall.simps [of P _ _ _ "Suc n"] m)
      ultimately show ?thesis by auto
    qed
  qed
qed

text \<open>The first occurrence, or -1.\<close>

definition first_at :: "'a list \<Rightarrow> 'a list \<Rightarrow> int \<Rightarrow> bool" where
  "first_at H P r \<longleftrightarrow> (if r = -1 then \<forall>k. \<not> occurs H P k
     else 0 \<le> r \<and> occurs H P (nat r) \<and> (\<forall>k. int k < r \<longrightarrow> \<not> occurs H P k))"

lemma first_atI: "occurs H P s \<Longrightarrow> none_before H P (int s) \<Longrightarrow> first_at H P (int s)"
  by (simp add: first_at_def none_before_def)

lemma find_loop_ok:
  assumes "filled P T (length P)" "ends_at H P i j" "i < length P" "none_before H P (int j - int i)"
    and "length H < 2 ^ 31" "length P < 2 ^ 31" "length H \<le> n + j"
  shows "\<exists>r. find_loop P (map Some H) T n (int i) (int j) = Inr r \<and> first_at H P r"
  using assms
proof (induction n arbitrary: i j)
  case (0 i j)
  then have j: "j = length H" by (simp add: ends_at_def)
  have "\<not> occurs H P k" for k
    using 0 by (auto simp: none_before_def j occurs_def)
  with 0 show ?case by (simp add: find_loop.simps j c_int_small first_at_def)
next
  case (Suc n i j)
  note c = c_int_small [of "int (length H)"] c_int_small [of "int (length P)"]
  have j: "j \<le> length H" "i \<le> j" using Suc.prems(2) by (simp_all add: ends_at_def)
  show ?case
  proof (cases "j < length H \<and> int (length P) \<le> int (length H) - int j + int i")
    case False
    have "\<not> occurs H P k" for k
    proof
      assume o: "occurs H P k"
      then have "k + length P \<le> length H" "int j - int i \<le> int k"
        using Suc.prems(4) unfolding none_before_def occurs_def by force+
      with False j Suc.prems(3) show False by linarith
    qed
    with False c Suc.prems(5) show ?thesis by (simp add: find_loop.simps [of P _ _ "Suc n"] first_at_def)
  next
    case True
    from find_fall_ok [OF Suc.prems(1), of j H "int i" "length P"] Suc.prems(2-4) True obtain i' where
      f: "find_fall P (map Some H) T (int j) (length P) (int i) = Inr i'" "-1 \<le> i'" "i' < int (length P)"
        "ends_at H P (nat (i' + 1)) (Suc j)" "none_before H P (int j - i')" by auto
    obtain i'' where i'': "i' = int i'' - 1" using f(2) by (metis add_diff_cancel_right' diff_ge_0_iff_ge
        diff_minus_eq_add nonneg_int_cases)
    have run: "find_loop P (map Some H) T (Suc n) (int i) (int j) =
      (if length P \<le> i'' then Inr (int (Suc j) - int i'') else find_loop P (map Some H) T n (int i'') (int (Suc j)))"
      using True f(1) c Suc.prems(5,6) by (simp add: find_loop.simps [of P _ _ "Suc n"] i'' add.commute)
    have nb: "none_before H P (int (Suc j) - int i'')" and e: "ends_at H P i'' (Suc j)"
      using f(4,5) i'' by (simp_all add: algebra_simps)
    show ?thesis
    proof (cases "length P \<le> i''")
      case True
      with e f(3) i'' have "i'' = length P" by (simp add: ends_at_def)
      with e ends_occurs [of H P "Suc j"] have "length P \<le> Suc j" "occurs H P (Suc j - length P)" by simp_all
      moreover from this(1) have r: "int (Suc j) - int (length P) = int (Suc j - length P)"
        by (simp only: of_nat_diff)
      moreover have "none_before H P (int (Suc j - length P))" using nb unfolding \<open>i'' = length P\<close> r .
      ultimately have "first_at H P (int (Suc j - length P))" by (intro first_atI)
      moreover have "find_loop P (map Some H) T (Suc n) (int i) (int j) = Inr (int (Suc j) - int i'')"
        by (subst run) (rule if_P [OF True])
      ultimately show ?thesis unfolding \<open>i'' = length P\<close> r by blast
    next
      case False
      then have "i'' < length P" by simp
      from Suc.IH [OF Suc.prems(1) e this nb Suc.prems(5,6)] Suc.prems(7) run False show ?thesis by simp
    qed
  qed
qed

lemma find_ok:
  assumes "filled P T (length P)" "P \<noteq> []" "length H < 2 ^ 31" "length P < 2 ^ 31"
  shows "\<exists>r. utstring_find_in (map Some H) P T = Inr r \<and> first_at H P r"
  using find_loop_ok [OF assms(1), of H 0 0 "length H"] assms(2-4)
  by (simp add: utstring_find_in_def ends_at_def none_before_def)

end
