(* ===== verification/Kmp_Rev.thy ===== *)
theory Kmp_Rev
  imports Kmp
begin

text \<open>
  The search from right to left of \<^verbatim>\<open>local_lib/utstring.h\<close>. Read backwards it is the search from left
  to right: every loop of one is the mirror image of the loop of the other.
\<close>

section \<open>The code\<close>

text \<open>\<open>while (j < (long)len && needle[i] != needle[j]) j = table[j + 1];\<close>\<close>

fun btr_fall :: "'a list \<Rightarrow> int option list \<Rightarrow> int \<Rightarrow> nat \<Rightarrow> int \<Rightarrow> int res" where
  "btr_fall P T i n j =
     (if \<not> j < int (length P) then Inr j
      else andThen (at P i) (\<lambda>a. andThen (at P j) (\<lambda>b.
        if a = b then Inr j
        else (case n of 0 \<Rightarrow> Inl Diverge
          | Suc n \<Rightarrow> andThen (slot_at T (j + 1)) (btr_fall P T i n)))))"

definition btr_entry :: "'a list \<Rightarrow> int option list \<Rightarrow> int \<Rightarrow> int \<Rightarrow> int res" where
  "btr_entry P T i j =
     (if 0 \<le> i
      then andThen (at P i) (\<lambda>a. andThen (at P j) (\<lambda>b. if a = b then slot_at T (j + 1) else Inr j))
      else Inr j)"

fun btr_loop :: "'a list \<Rightarrow> nat \<Rightarrow> int \<Rightarrow> int \<Rightarrow> int option list \<Rightarrow> int option list res" where
  "btr_loop P n i j T =
     (if \<not> 0 \<le> i then Inr T
      else (case n of 0 \<Rightarrow> Inl Diverge
        | Suc n \<Rightarrow>
          andThen (btr_fall P T i (length P) j) (\<lambda>j.
          andThen (btr_entry P T (i - 1) (j - 1)) (\<lambda>v.
          andThen (put_at T (i - 1 + 1) v) (\<lambda>T.
            btr_loop P n (i - 1) (j - 1) T)))))"

declare btr_fall.simps [simp del] btr_loop.simps [simp del]

definition utstring_build_table_r :: "'a list \<Rightarrow> int option list \<Rightarrow> int option list res" where
  "utstring_build_table_r P T =
     (let i = int (length P) - 1; j = i + 1 in
      andThen (put_at T (i + 1) j) (btr_loop P (length P) i j))"

text \<open>\<open>while (i < (int)len && needle[i] != haystack[j]) i = table[i + 1];\<close>\<close>

fun findr_fall :: "'a list \<Rightarrow> 'a option list \<Rightarrow> int option list \<Rightarrow> int \<Rightarrow> nat \<Rightarrow> int \<Rightarrow> int res" where
  "findr_fall P H T j n i =
     (if \<not> i < c_int (int (length P)) then Inr i
      else andThen (at P i) (\<lambda>a. andThen (slot_at H j) (\<lambda>b.
        if a = b then Inr i
        else (case n of 0 \<Rightarrow> Inl Diverge
          | Suc n \<Rightarrow> andThen (slot_at T (i + 1)) (findr_fall P H T j n)))))"

fun findr_loop :: "'a list \<Rightarrow> 'a option list \<Rightarrow> int option list \<Rightarrow> nat \<Rightarrow> int \<Rightarrow> int \<Rightarrow> int res" where
  "findr_loop P H T n i j =
     (if \<not> (0 \<le> j \<and> i \<le> j) then Inr (-1)
      else (case n of 0 \<Rightarrow> Inl Diverge
        | Suc n \<Rightarrow>
          andThen (findr_fall P H T j (length P) i) (\<lambda>i.
            if i - 1 < 0 then Inr (j - 1 + 1) else findr_loop P H T n (i - 1) (j - 1))))"

declare findr_fall.simps [simp del] findr_loop.simps [simp del]

definition utstring_find_in_r :: "'a option list \<Rightarrow> 'a list \<Rightarrow> int option list \<Rightarrow> int res" where
  "utstring_find_in_r H P T = findr_loop P H T (length H) (int (length P) - 1) (int (length H) - 1)"

section \<open>The mirror image\<close>

definition map_res :: "('a \<Rightarrow> 'b) \<Rightarrow> 'a res \<Rightarrow> 'b res" where
  "map_res f r = andThen r (\<lambda>x. Inr (f x))"

lemma map_res_simps [simp]: "map_res f (Inr x) = Inr (f x)" "map_res f (Inl e) = Inl e"
  by (simp_all add: map_res_def)

lemma andThen_map_res [simp]: "andThen (map_res f r) k = andThen r (\<lambda>x. k (f x))"
  by (cases r) simp_all

lemma map_res_andThen: "map_res f (andThen r k) = andThen r (\<lambda>x. map_res f (k x))"
  by (cases r) simp_all

lemma map_res_if: "map_res f (if b then r else r') = (if b then map_res f r else map_res f r')"
  by simp

definition flip :: "nat \<Rightarrow> int \<Rightarrow> int" where
  "flip m i = int m - 1 - i"

definition mirror :: "nat \<Rightarrow> int option list \<Rightarrow> int option list" where
  "mirror m T = rev (map (map_option (flip m)) T)"

lemma flip_flip [simp]: "flip m (flip m i) = i"
  by (simp add: flip_def)

lemma mirror_mirror [simp]: "mirror m (mirror m T) = T"
  by (simp add: mirror_def rev_map o_def option.map_comp option.map_ident)

lemma at_rev: "at (rev xs) i = at xs (flip (length xs) i)"
proof (cases "0 \<le> i \<and> i < int (length xs)")
  case True
  then have "nat (flip (length xs) i) = length xs - Suc (nat i)" by (simp add: flip_def nat_diff_distrib)
  with True show ?thesis by (auto simp: at_def flip_def rev_nth)
qed (auto simp: at_def flip_def)

lemma at_map: "at (map f xs) i = map_res f (at xs i)"
  by (auto simp: at_def)

lemma slot_at_rev: "slot_at (rev xs) i = slot_at xs (flip (length xs) i)"
  by (simp add: slot_at_def at_rev)

lemma slot_at_mirror:
  assumes "length T = Suc m"
  shows "slot_at (mirror m T) (flip m i + 1) = map_res (flip m) (slot_at T i)"
proof -
  have "flip (Suc m) (flip m i + 1) = i" by (simp add: flip_def)
  then have "at (mirror m T) (flip m i + 1) = map_res (map_option (flip m)) (at T i)"
    using assms at_rev [of "map (map_option (flip m)) T"] by (simp add: mirror_def at_map)
  then show ?thesis by (cases "at T i") (auto simp: slot_at_def split: option.split)
qed

lemma put_at_mirror:
  assumes "length T = Suc m"
  shows "put_at (mirror m T) (flip m i + 1) (flip m v) = map_res (mirror m) (put_at T i v)"
proof (cases "0 \<le> i \<and> i \<le> int m")
  case True
  then have "nat (flip m i + 1) = m - nat i" by (simp add: flip_def nat_diff_distrib)
  moreover have "rev (map (map_option (flip m)) (T[nat i := Some v]))
      = (rev (map (map_option (flip m)) T))[m - nat i := Some (flip m v)]"
  proof -
    have "nat i < length (map (map_option (flip m)) T)" using True assms by (simp add: nat_less_iff)
    from rev_update [OF this] show ?thesis using assms by (simp add: map_update)
  qed
  ultimately show ?thesis using True assms by (simp add: put_at_def mirror_def) (simp add: flip_def)
qed (use assms in \<open>auto simp: put_at_def mirror_def flip_def\<close>)

lemma btr_fall_mirror:
  assumes "length T = Suc (length P)"
  shows "btr_fall P (mirror (length P) T) (flip (length P) i) n (flip (length P) j)
    = map_res (flip (length P)) (bt_fall (rev P) T i n j)"
proof (induction n arbitrary: j)
  case 0
  have "(flip (length P) j < int (length P)) = (-1 < j)" by (auto simp: flip_def)
  then show ?case
    by (auto simp: btr_fall.simps [of P _ _ 0] bt_fall.simps [of _ _ _ 0] at_rev map_res_andThen
        intro!: arg_cong2 [where f = andThen] ext)
next
  case (Suc n)
  have "(flip (length P) j < int (length P)) = (-1 < j)" by (auto simp: flip_def)
  then show ?case
    by (auto simp: btr_fall.simps [of P _ _ "Suc n"] bt_fall.simps [of _ _ _ "Suc n"] at_rev map_res_andThen
        slot_at_mirror [OF assms] Suc intro!: arg_cong2 [where f = andThen] ext)
qed

lemma btr_entry_mirror:
  assumes "length T = Suc (length P)"
  shows "btr_entry P (mirror (length P) T) (flip (length P) i) (flip (length P) j)
    = map_res (flip (length P)) (bt_entry (rev P) T i j)"
proof -
  have "(0 \<le> flip (length P) i) = (i < int (length P))" by (auto simp: flip_def)
  then show ?thesis
    by (auto simp: btr_entry_def bt_entry_def at_rev map_res_andThen slot_at_mirror [OF assms]
        intro!: arg_cong2 [where f = andThen] ext)
qed

lemma flip_step: "flip m i - 1 = flip m (i + 1)"
  by (simp add: flip_def)

lemma flip_back: "flip m (i + 1) + 1 = flip m i"
  by (simp add: flip_def)

lemma btr_loop_mirror:
  assumes "length T = Suc (length P)"
  shows "btr_loop P n (flip (length P) i) (flip (length P) j) (mirror (length P) T)
    = map_res (mirror (length P)) (bt_loop (rev P) n i j T)"
  using assms
proof (induction n arbitrary: i j T)
  case 0
  have "(0 \<le> flip (length P) i) = (i < int (length P))" by (auto simp: flip_def)
  then show ?case by (simp add: btr_loop.simps [of P 0] bt_loop.simps [of _ 0])
next
  case (Suc n)
  have i: "(0 \<le> flip (length P) i) = (i < int (length P))" by (auto simp: flip_def)
  have len: "length T' = Suc (length P)" if "put_at T k v = Inr T'" for k v T'
    using that Suc.prems by (auto simp: put_at_def split: if_splits)
  have step: "andThen (put_at (mirror (length P) T) (flip (length P) k + 1) (flip (length P) v))
      (\<lambda>T. btr_loop P n (flip (length P) k) (flip (length P) l) T)
    = map_res (mirror (length P)) (andThen (put_at T k v) (\<lambda>T. bt_loop (rev P) n k l T))" for k l v
    by (cases "put_at T k v") (simp_all add: put_at_mirror [OF Suc.prems] Suc.IH [OF len] map_res_andThen)
  show ?case
    by (simp add: btr_loop.simps [of P "Suc n"] bt_loop.simps [of _ "Suc n"] i map_res_andThen flip_step
        btr_fall_mirror [OF Suc.prems] btr_entry_mirror [OF Suc.prems] step del: diff_add_cancel)
qed

lemma build_table_mirror:
  assumes "length T = Suc (length P)"
  shows "utstring_build_table_r P (mirror (length P) T) = map_res (mirror (length P)) (utstring_build_table (rev P) T)"
proof -
  have f: "int (length P) - 1 = flip (length P) 0" and f': "flip (length P) 0 + 1 = flip (length P) (-1)"
    by (simp_all add: flip_def)
  have len: "length T' = Suc (length P)" if "put_at T k v = Inr T'" for k v T'
    using that assms by (auto simp: put_at_def split: if_splits)
  have e: "put_at (mirror (length P) T) (flip (length P) (-1)) (flip (length P) (-1))
      = map_res (mirror (length P)) (put_at T 0 (-1))"
    using put_at_mirror [OF assms, of 0 "-1"] by (simp add: flip_def)
  show ?thesis
    unfolding utstring_build_table_r_def utstring_build_table_def Let_def f f' e
    by (cases "put_at T 0 (-1)") (simp_all add: btr_loop_mirror [OF len])
qed

lemma findr_fall_mirror:
  assumes "length T = Suc (length P)" "length P < 2 ^ 31"
  shows "findr_fall P H (mirror (length P) T) (flip (length H) j) n (flip (length P) i)
    = map_res (flip (length P)) (find_fall (rev P) (rev H) T j n i)"
proof (induction n arbitrary: i)
  case 0
  have "(flip (length P) i < c_int (int (length P))) = (-1 < i)" using assms(2) by (auto simp: flip_def c_int_small)
  then show ?case
    by (auto simp: findr_fall.simps [of P _ _ _ 0] find_fall.simps [of _ _ _ _ 0] at_rev slot_at_rev map_res_andThen
        intro!: arg_cong2 [where f = andThen] ext)
next
  case (Suc n)
  have "(flip (length P) i < c_int (int (length P))) = (-1 < i)" using assms(2) by (auto simp: flip_def c_int_small)
  then show ?case
    by (auto simp: findr_fall.simps [of P _ _ _ "Suc n"] find_fall.simps [of _ _ _ _ "Suc n"] at_rev slot_at_rev
        map_res_andThen slot_at_mirror [OF assms(1)] Suc intro!: arg_cong2 [where f = andThen] ext)
qed

text \<open>A position of the needle in the mirrored haystack.\<close>

definition from_right :: "nat \<Rightarrow> nat \<Rightarrow> int \<Rightarrow> int" where
  "from_right n m r = (if r = -1 then -1 else int n - int m - r)"

lemma findr_loop_mirror:
  fixes H P :: "'a list"
  defines "m \<equiv> length P" and "h \<equiv> length H" and "G \<equiv> rev H" and "Q \<equiv> rev P"
  assumes "filled Q T m" "ends_at G Q i j" "i < m" "none_before G Q (int j - int i)" "h < 2 ^ 31" "m < 2 ^ 31"
  shows "findr_loop P (map Some H) (mirror m T) n (flip m (int i)) (flip h (int j))
    = map_res (from_right h m) (find_loop Q (map Some G) T n (int i) (int j))"
  using assms(5-8)
proof (induction n arbitrary: i j)
  case (0 i j)
  have "(0 \<le> flip h (int j) \<and> flip m (int i) \<le> flip h (int j))
      = (int j < c_int (int h) \<and> int m \<le> (int h - int j) + int i)"
    using assms(9) by (auto simp: flip_def c_int_small)
  then show ?case
    by (simp add: findr_loop.simps [of P _ _ 0] find_loop.simps [of _ _ _ 0] from_right_def G_def Q_def h_def m_def)
next
  case (Suc n i j)
  have len: "length T = Suc (length P)" "length G = h" "length Q = m"
    using Suc.prems(1) by (simp_all add: filled_def Q_def G_def h_def m_def)
  let ?c = "int j < c_int (int h) \<and> int m \<le> (int h - int j) + int i"
  have c: "(0 \<le> flip h (int j) \<and> flip m (int i) \<le> flip h (int j)) = ?c"
    using assms(9) by (auto simp: flip_def c_int_small)
  have run: "findr_loop P (map Some H) (mirror m T) (Suc n) (flip m (int i)) (flip h (int j)) =
      (if \<not> ?c then Inr (-1)
       else andThen (find_fall Q (map Some G) T (int j) m (int i)) (\<lambda>i'.
         if flip m i' < 1 then Inr (flip h (int j))
         else findr_loop P (map Some H) (mirror m T) n (flip m (i' + 1)) (flip h (int j + 1))))"
    using findr_fall_mirror [OF len(1) assms(10) [unfolded m_def], of "map Some H" "int j" "length P" "int i"] c
    unfolding m_def h_def G_def Q_def
    by (simp only: findr_loop.simps [of P _ _ "Suc n"] length_map rev_map) (simp add: flip_step flip_back cong: if_cong)
  have run': "find_loop Q (map Some G) T (Suc n) (int i) (int j) =
      (if \<not> ?c then Inr (-1)
       else andThen (find_fall Q (map Some G) T (int j) m (int i)) (\<lambda>i'.
         if int m \<le> i' + 1 then Inr ((int j + 1) - (i' + 1)) else find_loop Q (map Some G) T n (i' + 1) (int j + 1)))"
    using assms(10) by (simp add: find_loop.simps [of Q _ _ "Suc n"] len c_int_small)
  show ?case
  proof (cases ?c)
    case False
    then show ?thesis unfolding run run' by (simp add: from_right_def)
  next
    case True
    then have "j < length G" using assms(9) len by (simp add: c_int_small)
    from find_fall_ok [of Q T j G "int i" m] this Suc.prems len obtain i' where
      f: "find_fall Q (map Some G) T (int j) m (int i) = Inr i'" "-1 \<le> i'" "i' < int m"
        "ends_at G Q (nat (i' + 1)) (Suc j)" "none_before G Q (int j - i')" by auto
    show ?thesis
    proof (cases "int m \<le> i' + 1")
      case found: True
      with f(3) have "i' = int m - 1" by simp
      moreover have "int j - i' \<noteq> -1" using f(2,4) by (auto simp: ends_at_def)
      ultimately show ?thesis using True f(1) unfolding run run' by (simp add: from_right_def flip_def)
    next
      case False
      then have "nat (i' + 1) < m" using f(2) by simp
      moreover have "none_before G Q (int (Suc j) - int (nat (i' + 1)))" using f(2,5) by simp
      ultimately have "findr_loop P (map Some H) (mirror m T) n (flip m (i' + 1)) (flip h (int j + 1))
          = map_res (from_right h m) (find_loop Q (map Some G) T n (i' + 1) (int j + 1))"
        using Suc.IH [OF Suc.prems(1) f(4)] f(2) by (simp add: add.commute)
      then show ?thesis using True False f(1) unfolding run run' by (simp add: flip_def)
    qed
  qed
qed

section \<open>The last occurrence\<close>

definition last_at :: "'a list \<Rightarrow> 'a list \<Rightarrow> int \<Rightarrow> bool" where
  "last_at H P r \<longleftrightarrow> (if r = -1 then \<forall>k. \<not> occurs H P k
     else 0 \<le> r \<and> occurs H P (nat r) \<and> (\<forall>k. r < int k \<longrightarrow> \<not> occurs H P k))"

lemma all_less_rev: "(\<forall>m < n. Q (n - Suc m)) \<longleftrightarrow> (\<forall>m < (n::nat). Q m)"
proof (intro iffI allI impI)
  fix m assume q: "\<forall>m < n. Q (n - Suc m)" and "m < n"
  then have "n - Suc m < n" "n - Suc (n - Suc m) = m" by simp_all
  with q show "Q m" by metis
qed simp

lemma occurs_rev:
  assumes "s + length P \<le> length H"
  shows "occurs (rev H) (rev P) (length H - length P - s) \<longleftrightarrow> occurs H P s"
proof -
  have ix: "length H - Suc (length H - length P - s + m) = s + (length P - Suc m)" if "m < length P" for m
    using assms that by simp
  have "rev H ! (length H - length P - s + m) = H ! (s + (length P - Suc m))" if "m < length P" for m
    using ix [OF that] assms that by (simp add: rev_nth)
  moreover note all_less_rev [of "length P" "\<lambda>m. H ! (s + m) = P ! m"]
  ultimately show ?thesis using assms by (simp add: occurs_def rev_nth)
qed

lemma first_last:
  assumes "first_at (rev H) (rev P) r"
  shows "last_at H P (from_right (length H) (length P) r)"
proof (cases "r = -1")
  case True
  have "\<not> occurs H P k" for k
  proof
    assume o: "occurs H P k"
    then have "k + length P \<le> length H" by (simp add: occurs_def)
    with o occurs_rev [of k P H] True assms show False by (simp add: first_at_def)
  qed
  with True show ?thesis by (simp add: from_right_def last_at_def)
next
  case False
  with assms have r: "0 \<le> r" "occurs (rev H) (rev P) (nat r)" "\<forall>k. int k < r \<longrightarrow> \<not> occurs (rev H) (rev P) k"
    by (simp_all add: first_at_def)
  let ?s = "length H - length P - nat r"
  have s: "nat r + length P \<le> length H" using r(2) by (simp add: occurs_def)
  then have fr: "from_right (length H) (length P) r = int ?s" using False r(1) by (simp add: from_right_def)
  have "occurs H P ?s" using occurs_rev [of ?s P H] s r(2) by simp
  moreover have "\<not> occurs H P k" if "?s < k" for k
  proof
    assume o: "occurs H P k"
    then have "k + length P \<le> length H" by (simp add: occurs_def)
    with o occurs_rev [of k P H] have "occurs (rev H) (rev P) (length H - length P - k)" by simp
    moreover have "int (length H - length P - k) < r" using that s r(1) \<open>k + length P \<le> length H\<close> by linarith
    ultimately show False using r(3) by blast
  qed
  ultimately show ?thesis by (simp add: last_at_def fr)
qed

lemma build_table_r_ok:
  assumes "length T = Suc (length P)"
  shows "\<exists>T'. utstring_build_table_r P T = Inr (mirror (length P) T') \<and> filled (rev P) T' (length P)"
proof -
  have "length (mirror (length P) T) = Suc (length (rev P))" using assms by (simp add: mirror_def)
  from build_table_ok [OF this] obtain T' where
    "utstring_build_table (rev P) (mirror (length P) T) = Inr T'" "filled (rev P) T' (length (rev P))" by blast
  with build_table_mirror [of "mirror (length P) T" P] assms show ?thesis by (auto simp: \<open>length (mirror (length P) T) = _\<close>)
qed

lemma find_r_ok:
  assumes "filled (rev P) T (length P)" "P \<noteq> []" "length H < 2 ^ 31" "length P < 2 ^ 31"
  shows "\<exists>r. utstring_find_in_r (map Some H) P (mirror (length P) T) = Inr r \<and> last_at H P r"
proof -
  from find_ok [of "rev P" T "rev H"] assms obtain r where
    r: "utstring_find_in (map Some (rev H)) (rev P) T = Inr r" "first_at (rev H) (rev P) r" by auto
  have "ends_at (rev H) (rev P) 0 0" "none_before (rev H) (rev P) (int 0 - int 0)"
    by (simp_all add: ends_at_def none_before_def)
  from findr_loop_mirror [OF assms(1) this(1) _ this(2) assms(3,4), of "length H"] assms(2) r(1)
  have "utstring_find_in_r (map Some H) P (mirror (length P) T) = Inr (from_right (length H) (length P) r)"
    by (simp add: utstring_find_in_r_def utstring_find_in_def flip_def)
  with first_last [OF r(2)] show ?thesis by simp
qed

end
