(* ===== verification/Utstring.thy ===== *)
theory Utstring
  imports C_Env Kmp_Rev
begin

text \<open>
  The dynamic string of \<^verbatim>\<open>local_lib/utstring.h\<close>: a buffer that grows by what is asked for, always ended
  by a NUL byte, and the searches in it. The buffer is the contents of a block of memory; sizes
  are \<open>size_t\<close> and wrap. A failed allocation ends the process (\<open>oom\<close>), except in the searches.
\<close>

section \<open>Data\<close>

text \<open>The pointer \<open>d\<close>: NULL, a block with its contents, or a block that has been freed.\<close>

datatype ubuf = Nul | Blk bytes | Freed

record ut_string =
  us_d :: ubuf
  us_n :: size_t
  us_i :: size_t

section \<open>Operations\<close>

text \<open>\<open>realloc\<close>: the old contents as far as they fit, and indeterminate bytes.\<close>

definition us_realloc :: "env \<Rightarrow> ubuf \<Rightarrow> size_t \<Rightarrow> 'a os_scheme \<Rightarrow> (ubuf \<times> 'a os_scheme) res" where
  "us_realloc E d n s =
     (case d of
        Freed \<Rightarrow> Inl DanglingDeref
      | Nul \<Rightarrow> Inr (if e_malloc E (tick s) then Blk (replicate (unat n) None) else Nul, step s)
      | Blk b \<Rightarrow> Inr (if e_malloc E (tick s) then Blk (peek b 0 (unat n)) else Nul, step s))"

definition utstring_reserve ::
  "env \<Rightarrow> size_t \<Rightarrow> ut_string \<Rightarrow> 'a os_scheme \<Rightarrow> (ut_string \<times> 'a os_scheme) res" where
  "utstring_reserve E amt u s =
     (if us_n u - us_i u < amt
      then andThen (us_realloc E (us_d u) (us_n u + amt) s) (\<lambda>(tmp, s).
        if tmp = Nul then Inl (Exit (-1)) else Inr (u\<lparr>us_d := tmp, us_n := us_n u + amt\<rparr>, s))
      else Inr (u, s))"

text \<open>Write at an index of the buffer.\<close>

definition us_poke :: "size_t \<Rightarrow> bytes \<Rightarrow> ut_string \<Rightarrow> ut_string res" where
  "us_poke k xs u =
     (case us_d u of Nul \<Rightarrow> Inl NullDeref | Freed \<Rightarrow> Inl DanglingDeref
      | Blk b \<Rightarrow> andThen (poke b (unat k) xs) (\<lambda>b. Inr (u\<lparr>us_d := Blk b\<rparr>)))"

definition utstring_init :: "env \<Rightarrow> 'a os_scheme \<Rightarrow> (ut_string \<times> 'a os_scheme) res" where
  "utstring_init E s =
     andThen (utstring_reserve E 100 \<lparr>us_d = Nul, us_n = 0, us_i = 0\<rparr> s) (\<lambda>(u, s).
     andThen (us_poke 0 [Some 0] u) (\<lambda>u. Inr (u, s)))"

definition utstring_done :: "ut_string \<Rightarrow> ut_string res" where
  "utstring_done u =
     (case us_d u of Nul \<Rightarrow> Inr (u\<lparr>us_n := 0\<rparr>) | Freed \<Rightarrow> Inl DanglingDeref
      | Blk b \<Rightarrow> Inr (u\<lparr>us_d := Freed, us_n := 0\<rparr>))"

definition utstring_clear :: "ut_string \<Rightarrow> ut_string res" where
  "utstring_clear u = us_poke 0 [Some 0] (u\<lparr>us_i := 0\<rparr>)"

definition utstring_new :: "env \<Rightarrow> 'a os_scheme \<Rightarrow> (ut_string \<times> 'a os_scheme) res" where
  "utstring_new E s =
     (let a = tick s; s = step s in if \<not> e_malloc E a then Inl (Exit (-1)) else utstring_init E s)"

definition utstring_renew ::
  "env \<Rightarrow> ut_string option \<Rightarrow> 'a os_scheme \<Rightarrow> (ut_string \<times> 'a os_scheme) res" where
  "utstring_renew E p s =
     (case p of Some u \<Rightarrow> andThen (utstring_clear u) (\<lambda>u. Inr (u, s)) | None \<Rightarrow> utstring_new E s)"

text \<open>\<open>utstring_bincpy(s, b, l)\<close>, where \<open>b\<close> points to \<open>l\<close> bytes.\<close>

definition utstring_bincpy ::
  "env \<Rightarrow> byte list \<Rightarrow> ut_string \<Rightarrow> 'a os_scheme \<Rightarrow> (ut_string \<times> 'a os_scheme) res" where
  "utstring_bincpy E b u s =
     (let l = of_nat (length b) in
      andThen (utstring_reserve E (l + 1) u s) (\<lambda>(u, s).
      andThen (if l \<noteq> 0 then us_poke (us_i u) (map Some b) u else Inr u) (\<lambda>u.
      andThen (us_poke (us_i u + l) [Some 0] (u\<lparr>us_i := us_i u + l\<rparr>)) (\<lambda>u. Inr (u, s)))))"

text \<open>\<open>utstring_concat(dst, src)\<close> of two different strings.\<close>

definition us_peek :: "ut_string \<Rightarrow> bytes res" where
  "us_peek u =
     (case us_d u of Nul \<Rightarrow> Inl NullDeref | Freed \<Rightarrow> Inl DanglingDeref
      | Blk b \<Rightarrow> if unat (us_i u) \<le> length b then Inr (take (unat (us_i u)) b) else Inl OutOfBounds)"

definition utstring_concat ::
  "env \<Rightarrow> ut_string \<Rightarrow> ut_string \<Rightarrow> 'a os_scheme \<Rightarrow> (ut_string \<times> 'a os_scheme) res" where
  "utstring_concat E src u s =
     andThen (utstring_reserve E (us_i src + 1) u s) (\<lambda>(u, s).
     andThen (if us_i src \<noteq> 0 then andThen (us_peek src) (\<lambda>b. us_poke (us_i u) b u) else Inr u) (\<lambda>u.
     andThen (us_poke (us_i u + us_i src) [Some 0] (u\<lparr>us_i := us_i u + us_i src\<rparr>)) (\<lambda>u. Inr (u, s))))"

definition utstring_len :: "ut_string \<Rightarrow> size_t" where
  "utstring_len u = us_i u"

text \<open>
  \<open>utstring_printf_va\<close>. What the format and its arguments amount to is \<open>txt\<close>, \<open>None\<close> where \<open>vsnprintf\<close>
  fails; it fails, too, where the length is no \<open>int\<close>. It writes as much as fits into \<open>n - i\<close> bytes, the
  last of them NUL, and returns the whole length. The fuel bounds the number of attempts.
\<close>

definition us_vsnprintf :: "byte list option \<Rightarrow> ut_string \<Rightarrow> (int \<times> ut_string) res" where
  "us_vsnprintf txt u =
     (let sz = us_n u - us_i u in
      case txt of None \<Rightarrow> Inr (-1, u)
      | Some t \<Rightarrow> if 2 ^ 31 \<le> length t then Inr (-1, u)
          else if sz = 0 then Inr (int (length t), u)
          else andThen (us_poke (us_i u) (map Some (take (unat sz - 1) t) @ [Some 0]) u) (\<lambda>u. Inr (int (length t), u)))"

fun utstring_printf_va ::
  "nat \<Rightarrow> env \<Rightarrow> byte list option \<Rightarrow> ut_string \<Rightarrow> 'a os_scheme \<Rightarrow> (ut_string \<times> 'a os_scheme) res" where
  "utstring_printf_va 0 E txt u s = Inl Diverge"
| "utstring_printf_va (Suc k) E txt u s =
     andThen (us_vsnprintf txt u) (\<lambda>(n, u).
       if -1 < n \<and> word_of_int n < us_n u - us_i u then Inr (u\<lparr>us_i := us_i u + word_of_int n\<rparr>, s)
       else if -1 < n
       then if n = 2 ^ 31 - 1 then Inl Overflow
         else andThen (utstring_reserve E (word_of_int (n + 1)) u s) (\<lambda>(u, s). utstring_printf_va k E txt u s)
       else andThen (utstring_reserve E (us_n u * 2) u s) (\<lambda>(u, s). utstring_printf_va k E txt u s))"

text \<open>
  \<open>utstring_find\<close> and \<open>utstring_findR\<close>. The first byte the search from the left reads is the one at
  the start position, which lies before the buffer when that is negative; the first byte the
  search from the right reads is the one at the start position, too.
\<close>

definition us_start :: "ut_string \<Rightarrow> int \<Rightarrow> int" where
  "us_start u start = (if start < 0 then sint (us_i u + word_of_int start) else start)"

definition utstring_find ::
  "env \<Rightarrow> ut_string \<Rightarrow> int \<Rightarrow> byte list \<Rightarrow> 'a os_scheme \<Rightarrow> (int \<times> 'a os_scheme) res" where
  "utstring_find E u start P s =
     (let st = us_start u start; hl = sint (us_i u - word_of_int st) in
      if int (length P) \<le> hl \<and> 0 < length P
      then (if \<not> e_malloc E (tick s) then Inr (-1, step s)
        else andThen (utstring_build_table P (replicate (length P + 1) None)) (\<lambda>T.
          andThen (if c_int hl \<le> 0 then Inr (-1)
              else case us_d u of Nul \<Rightarrow> Inl NullDeref | Freed \<Rightarrow> Inl DanglingDeref
              | Blk b \<Rightarrow> if st < 0 then Inl OutOfBounds else utstring_find_in (take (nat hl) (drop (nat st) b)) P T)
            (\<lambda>r. Inr (if 0 \<le> r then r + st else r, step s))))
      else Inr (-1, s))"

definition utstring_find_r ::
  "env \<Rightarrow> ut_string \<Rightarrow> int \<Rightarrow> byte list \<Rightarrow> 'a os_scheme \<Rightarrow> (int \<times> 'a os_scheme) res" where
  "utstring_find_r E u start P s =
     (let st = us_start u start; hl = st + 1 in
      if int (length P) \<le> hl \<and> 0 < length P
      then (if \<not> e_malloc E (tick s) then Inr (-1, step s)
        else andThen (utstring_build_table_r P (replicate (length P + 1) None)) (\<lambda>T.
          andThen (case us_d u of Nul \<Rightarrow> Inl NullDeref | Freed \<Rightarrow> Inl DanglingDeref
              | Blk b \<Rightarrow> if length b < nat hl then Inl OutOfBounds else utstring_find_in_r (take (nat hl) b) P T)
            (\<lambda>r. Inr (r, step s))))
      else Inr (-1, s))"

section \<open>The byte string it stands for\<close>

lemma size_t_less: "unat (w :: size_t) < 2 ^ 64"
  using unsigned_less [where 'a = nat, of w] by simp

lemma unat_size_t: "n < 2 ^ 64 \<Longrightarrow> unat (of_nat n :: size_t) = n"
  by (simp add: unat_of_nat)

lemma size_t_eqI: "unat (w :: size_t) = n \<Longrightarrow> w = of_nat n"
  by auto

definition us_rep :: "ut_string \<Rightarrow> byte list \<Rightarrow> bool" where
  "us_rep u str \<longleftrightarrow> (\<exists>rest. us_d u = Blk (map Some str @ Some 0 # rest) \<and>
     unat (us_n u) = length str + 1 + length rest \<and> unat (us_i u) = length str)"

lemma us_repE:
  assumes "us_rep u str"
  obtains rest where "us_d u = Blk (map Some str @ Some 0 # rest)" "unat (us_n u) = length str + 1 + length rest"
    "unat (us_i u) = length str"
  using assms by (auto simp: us_rep_def)

text \<open>A buffer with room for \<open>k\<close> bytes behind the string, of which the first need not be NUL.\<close>

definition us_room :: "ut_string \<Rightarrow> byte list \<Rightarrow> nat \<Rightarrow> bool" where
  "us_room u str k \<longleftrightarrow> (\<exists>rest. us_d u = Blk (map Some str @ rest) \<and> unat (us_n u) = length str + length rest \<and>
     k \<le> length rest \<and> unat (us_i u) = length str)"

lemma us_rep_room: "us_rep u str \<Longrightarrow> us_room u str 1"
  unfolding us_rep_def us_room_def by force

lemma us_reserve_ok:
  assumes "us_room u str j" "\<And>n. e_malloc E n" "unat (us_n u) + unat amt < 2 ^ 64"
  shows "\<exists>u' s'. utstring_reserve E amt u s = Inr (u', s') \<and> us_room u' str (max j (unat amt)) \<and>
    (unat (us_n u') = unat (us_n u) \<or> unat (us_n u') = unat (us_n u) + unat amt)"
proof -
  from assms(1) obtain rest where r: "us_d u = Blk (map Some str @ rest)" "unat (us_n u) = length str + length rest"
    "j \<le> length rest" "unat (us_i u) = length str" by (auto simp: us_room_def)
  have "us_i u \<le> us_n u" using r by (simp add: word_le_nat_alt)
  then have gap: "unat (us_n u - us_i u) = length rest" using r by (simp add: unat_sub)
  show ?thesis
  proof (cases "us_n u - us_i u < amt")
    case True
    have n: "unat (us_n u + amt) = unat (us_n u) + unat amt"
      using assms(3) by (simp add: unat_add_lem [THEN iffD1])
    let ?d = "map Some str @ rest @ replicate (unat amt) None"
    let ?u = "u\<lparr>us_d := Blk ?d, us_n := us_n u + amt\<rparr>"
    have "utstring_reserve E amt u s = Inr (?u, step s)"
      using True assms(2) r(1,2) n by (simp add: utstring_reserve_def us_realloc_def peek_def)
    moreover have "us_room ?u str (max j (unat amt))"
      using r n by (auto simp: us_room_def)
    ultimately show ?thesis using n by auto
  next
    case False
    then have "unat amt \<le> length rest" using gap by (simp add: word_less_nat_alt)
    with r have "us_room u str (max j (unat amt))" by (auto simp: us_room_def)
    with False show ?thesis by (auto simp: utstring_reserve_def)
  qed
qed

lemma poke_room:
  assumes "us_room u str k" "length xs \<le> k"
  shows "\<exists>u'. us_poke (us_i u) (map Some xs) u = Inr u' \<and> us_i u' = us_i u \<and> us_n u' = us_n u \<and>
    us_room (u'\<lparr>us_i := us_i u + of_nat (length xs)\<rparr>) (str @ xs) (k - length xs)"
proof -
  from assms(1) obtain rest where r: "us_d u = Blk (map Some str @ rest)" "unat (us_n u) = length str + length rest"
    "k \<le> length rest" "unat (us_i u) = length str" by (auto simp: us_room_def)
  let ?d = "map Some str @ map Some xs @ drop (length xs) rest"
  have "poke (map Some str @ rest) (unat (us_i u)) (map Some xs) = Inr ?d"
    using r assms(2) by (simp add: poke_def)
  then have p: "us_poke (us_i u) (map Some xs) u = Inr (u\<lparr>us_d := Blk ?d\<rparr>)" by (simp add: us_poke_def r(1))
  have "length str + length xs < 2 ^ 64" using r assms(2) size_t_less [of "us_n u"] by linarith
  moreover have "us_i u + of_nat (length xs) = of_nat (length str + length xs)" using size_t_eqI [OF r(4)] by simp
  ultimately have "unat (us_i u + of_nat (length xs)) = length str + length xs"
    by (simp only: unat_size_t)
  then have "us_room (u\<lparr>us_d := Blk ?d, us_i := us_i u + of_nat (length xs)\<rparr>) (str @ xs) (k - length xs)"
    using r assms(2) by (auto simp: us_room_def)
  with p show ?thesis by simp
qed

lemma poke_end:
  assumes "us_room u str k" "0 < k"
  shows "\<exists>u'. us_poke (us_i u) [Some 0] u = Inr u' \<and> us_rep u' str \<and> us_n u' = us_n u"
proof -
  from assms obtain r rest where r: "us_d u = Blk (map Some str @ r # rest)" "unat (us_n u) = length str + 1 + length rest"
    "unat (us_i u) = length str" by (auto simp: us_room_def neq_Nil_conv Suc_le_eq) (metis length_greater_0_conv
      less_le_trans neq_Nil_conv length_Cons add_Suc_right)
  then have "us_poke (us_i u) [Some 0] u = Inr (u\<lparr>us_d := Blk (map Some str @ Some 0 # rest)\<rparr>)"
    by (simp add: us_poke_def poke_def)
  with r show ?thesis by (auto simp: us_rep_def)
qed

text \<open>Writing the bytes and the NUL behind them, which \<open>bincpy\<close> and \<open>concat\<close> share.\<close>

lemma us_append_ok:
  assumes "us_room u str k" "length xs < k" "l = of_nat (length xs)"
  shows "\<exists>u'. andThen (if l \<noteq> 0 then us_poke (us_i u) (map Some xs) u else Inr u) (\<lambda>u.
      us_poke (us_i u + l) [Some 0] (u\<lparr>us_i := us_i u + l\<rparr>)) = Inr u' \<and> us_rep u' (str @ xs) \<and> us_n u' = us_n u"
proof -
  have "\<exists>v. (if l \<noteq> 0 then us_poke (us_i u) (map Some xs) u else Inr u) = Inr v \<and> us_i v = us_i u \<and> us_n v = us_n u \<and>
      us_room (v\<lparr>us_i := us_i u + l\<rparr>) (str @ xs) (k - length xs)"
  proof (cases "l = 0")
    case True
    have "length xs < 2 ^ 64" using assms(1,2) size_t_less [of "us_n u"] by (auto simp: us_room_def)
    with True assms(3) have "xs = []" using unat_size_t [of "length xs"] by auto
    with assms(1) True show ?thesis by simp
  next
    case False
    with poke_room [OF assms(1), of xs] assms(2,3) show ?thesis by auto
  qed
  then obtain v where v: "(if l \<noteq> 0 then us_poke (us_i u) (map Some xs) u else Inr u) = Inr v" "us_i v = us_i u"
    "us_n v = us_n u" "us_room (v\<lparr>us_i := us_i u + l\<rparr>) (str @ xs) (k - length xs)" by blast
  from poke_end [OF v(4)] assms(2) v(2,3) obtain w where
    "us_poke (us_i v + l) [Some 0] (v\<lparr>us_i := us_i v + l\<rparr>) = Inr w" "us_rep w (str @ xs)" "us_n w = us_n u" by auto
  with v(1) show ?thesis by simp
qed

lemma us_bincpy_ok:
  assumes "us_rep u str" "\<And>n. e_malloc E n" "unat (us_n u) + length b + 1 < 2 ^ 64"
  shows "\<exists>u' s'. utstring_bincpy E b u s = Inr (u', s') \<and> us_rep u' (str @ b) \<and>
    unat (us_n u') \<le> unat (us_n u) + length b + 1"
proof -
  let ?l = "of_nat (length b) :: size_t"
  have l: "unat (?l + 1) = length b + 1"
  proof -
    have "?l + 1 = of_nat (length b + 1)" by simp
    moreover have "length b + 1 < 2 ^ 64" using assms(3) by simp
    ultimately show ?thesis by (simp only: unat_size_t)
  qed
  from us_reserve_ok [OF us_rep_room [OF assms(1)] assms(2), of "?l + 1" s] assms(3) l obtain u1 s1 where
    r: "utstring_reserve E (?l + 1) u s = Inr (u1, s1)" "us_room u1 str (max 1 (unat (?l + 1)))"
      "unat (us_n u1) \<le> unat (us_n u) + length b + 1" by auto
  from us_append_ok [OF r(2), of b ?l] l obtain u2 where
    "andThen (if ?l \<noteq> 0 then us_poke (us_i u1) (map Some b) u1 else Inr u1) (\<lambda>u.
      us_poke (us_i u + ?l) [Some 0] (u\<lparr>us_i := us_i u + ?l\<rparr>)) = Inr u2" "us_rep u2 (str @ b)" "us_n u2 = us_n u1" by auto
  with r(1,3) show ?thesis
    by (cases "?l = 0") (auto simp: utstring_bincpy_def Let_def andThen_eq_Inr)
qed

lemma us_concat_ok:
  assumes "us_rep u str" "us_rep v xs" "\<And>n. e_malloc E n" "unat (us_n u) + length xs + 1 < 2 ^ 64"
  shows "\<exists>u' s'. utstring_concat E v u s = Inr (u', s') \<and> us_rep u' (str @ xs) \<and>
    unat (us_n u') \<le> unat (us_n u) + length xs + 1"
proof -
  from assms(2) obtain rest where v: "us_d v = Blk (map Some xs @ Some 0 # rest)" "unat (us_i v) = length xs"
    by (auto simp: us_rep_def)
  then have i: "us_i v = of_nat (length xs)" by (intro size_t_eqI)
  have p: "us_peek v = Inr (map Some xs)" using v by (simp add: us_peek_def)
  have l: "unat (us_i v + 1) = length xs + 1"
  proof -
    have "us_i v + 1 = of_nat (length xs + 1)" using i by simp
    moreover have "length xs + 1 < 2 ^ 64" using assms(4) by simp
    ultimately show ?thesis by (simp only: unat_size_t)
  qed
  from us_reserve_ok [OF us_rep_room [OF assms(1)] assms(3), of "us_i v + 1" s] assms(4) l obtain u1 s1 where
    r: "utstring_reserve E (us_i v + 1) u s = Inr (u1, s1)" "us_room u1 str (max 1 (unat (us_i v + 1)))"
      "unat (us_n u1) \<le> unat (us_n u) + length xs + 1" by auto
  from us_append_ok [OF r(2) _ i] l obtain u2 where
    "andThen (if us_i v \<noteq> 0 then us_poke (us_i u1) (map Some xs) u1 else Inr u1) (\<lambda>u.
      us_poke (us_i u + us_i v) [Some 0] (u\<lparr>us_i := us_i u + us_i v\<rparr>)) = Inr u2" "us_rep u2 (str @ xs)" "us_n u2 = us_n u1" by auto
  with r(1,3) p show ?thesis
    by (cases "us_i v = 0") (auto simp: utstring_concat_def Let_def andThen_eq_Inr)
qed

lemma us_init_ok:
  assumes "\<And>n. e_malloc E n"
  shows "\<exists>u s'. utstring_init E s = Inr (u, s') \<and> us_rep u [] \<and> unat (us_n u) = 100"
proof -
  have "replicate 100 None = (None :: byte option) # replicate 99 None" by (simp add: numeral_eq_Suc)
  then show ?thesis using assms
    by (simp add: utstring_init_def utstring_reserve_def us_realloc_def us_poke_def poke_def us_rep_def)
qed

lemma us_clear_ok:
  assumes "us_rep u str"
  shows "\<exists>u'. utstring_clear u = Inr u' \<and> us_rep u' [] \<and> us_n u' = us_n u"
proof -
  from assms obtain rest where r: "us_d u = Blk (map Some str @ Some 0 # rest)"
    "unat (us_n u) = length str + 1 + length rest" by (auto simp: us_rep_def)
  let ?d = "Some 0 # tl (map Some str @ Some 0 # rest)"
  have "poke (map Some str @ Some 0 # rest) 0 [Some 0] = Inr ?d"
    by (cases str) (simp_all add: poke_def)
  then have "utstring_clear u = Inr (u\<lparr>us_d := Blk ?d, us_i := 0\<rparr>)"
    by (simp add: utstring_clear_def us_poke_def r(1))
  with r show ?thesis by (auto simp: us_rep_def)
qed

text \<open>Printing: at the second attempt at the latest there is room.\<close>

lemma us_room_Cons:
  assumes "us_room u str k" "0 < k"
  obtains x rest where "us_d u = Blk (map Some str @ x # rest)" "unat (us_n u) = length str + 1 + length rest"
    "unat (us_i u) = length str"
proof -
  from assms(1) obtain r where r: "us_d u = Blk (map Some str @ r)" "unat (us_n u) = length str + length r"
    "k \<le> length r" "unat (us_i u) = length str" by (auto simp: us_room_def)
  with assms(2) show ?thesis using that by (cases r) auto
qed

lemma vsnprintf_room:
  assumes "us_room u str k" "0 < k" "length t < 2 ^ 31"
  shows "\<exists>u'. us_vsnprintf (Some t) u = Inr (int (length t), u') \<and> us_room u' str 1 \<and> us_n u' = us_n u \<and>
    us_i u' = us_i u \<and> unat (us_n u - us_i u) = unat (us_n u) - length str \<and>
    (length t < unat (us_n u) - length str \<longrightarrow> us_rep (u'\<lparr>us_i := us_i u + of_nat (length t)\<rparr>) (str @ t))"
proof -
  from us_room_Cons [OF assms(1,2)] obtain x rest where r: "us_d u = Blk (map Some str @ x # rest)"
    "unat (us_n u) = length str + 1 + length rest" "unat (us_i u) = length str" .
  have "us_i u \<le> us_n u" using r by (simp add: word_le_nat_alt)
  then have gap: "unat (us_n u - us_i u) = Suc (length rest)" using r by (simp add: unat_sub)
  then have nz: "us_n u - us_i u \<noteq> 0" by (metis Zero_not_Suc unat_0)
  let ?t = "take (length rest) t"
  let ?d = "map Some str @ map Some ?t @ Some 0 # drop (length ?t) rest"
  have "poke (map Some str @ x # rest) (length str) (map Some ?t @ [Some 0]) = Inr ?d"
    by (simp add: poke_def min_def)
  then have v: "us_vsnprintf (Some t) u = Inr (int (length t), u\<lparr>us_d := Blk ?d\<rparr>)"
    using nz gap r assms(3) by (simp add: us_vsnprintf_def us_poke_def Let_def)
  have "us_room (u\<lparr>us_d := Blk ?d\<rparr>) str 1"
    unfolding us_room_def using r by (intro exI [of _ "map Some ?t @ Some 0 # drop (length ?t) rest"]) (simp add: min_def)
  moreover have "us_rep (u\<lparr>us_d := Blk ?d, us_i := us_i u + of_nat (length t)\<rparr>) (str @ t)"
    if "length t < unat (us_n u) - length str"
  proof -
    from that r have le: "length t \<le> length rest" by simp
    have "length str + length t < 2 ^ 64" using r le size_t_less [of "us_n u"] by linarith
    moreover have "us_i u + of_nat (length t) = of_nat (length str + length t)" using size_t_eqI [OF r(3)] by simp
    ultimately have "unat (us_i u + of_nat (length t)) = length str + length t" by (simp only: unat_size_t)
    with r le show ?thesis by (auto simp: us_rep_def)
  qed
  ultimately show ?thesis using v gap r by simp
qed

lemma printf_fits:
  assumes "us_room u str j" "0 < j" "length t < unat (us_n u) - length str" "length t < 2 ^ 31"
  shows "\<exists>u'. utstring_printf_va (Suc k) E (Some t) u s = Inr (u', s) \<and> us_rep u' (str @ t) \<and> us_n u' = us_n u"
proof -
  from vsnprintf_room [OF assms(1,2,4)] assms(3) obtain u' where
    v: "us_vsnprintf (Some t) u = Inr (int (length t), u')" "us_n u' = us_n u" "us_i u' = us_i u"
      "unat (us_n u - us_i u) = unat (us_n u) - length str"
      "us_rep (u'\<lparr>us_i := us_i u + of_nat (length t)\<rparr>) (str @ t)" by blast
  have "of_nat (length t) < us_n u - us_i u"
    using assms(3,4) v(4) by (simp add: word_less_nat_alt unat_size_t)
  with v show ?thesis by simp
qed

lemma us_printf_ok:
  assumes "us_rep u str" "\<And>n. e_malloc E n" "unat (us_n u) + length t + 1 < 2 ^ 64" "length t < 2 ^ 31 - 1"
  shows "\<exists>u' s'. utstring_printf_va (Suc (Suc k)) E (Some t) u s = Inr (u', s') \<and> us_rep u' (str @ t) \<and>
    unat (us_n u') \<le> unat (us_n u) + length t + 1"
proof (cases "length t < unat (us_n u) - length str")
  case True
  from printf_fits [OF us_rep_room [OF assms(1)] _ this, of "Suc k" E s] assms(4) show ?thesis by auto
next
  case False
  let ?n = "of_nat (length t) :: size_t"
  have t: "length t < 2 ^ 31" using assms(4) by simp
  from vsnprintf_room [OF us_rep_room [OF assms(1)] _ t] obtain u1 where
    v: "us_vsnprintf (Some t) u = Inr (int (length t), u1)" "us_room u1 str 1" "us_n u1 = us_n u" "us_i u1 = us_i u"
      "unat (us_n u - us_i u) = unat (us_n u) - length str" by auto
  have "?n + 1 = of_nat (length t + 1)" "length t < 2 ^ 64" "length t + 1 < 2 ^ 64" using assms(3) by simp_all
  then have l: "unat (?n + 1) = length t + 1" "unat ?n = length t" by (simp_all only: unat_size_t)
  from us_reserve_ok [OF v(2) assms(2), of "?n + 1" s] l v(3) assms(3) obtain u2 s2 where
    r: "utstring_reserve E (?n + 1) u1 s = Inr (u2, s2)" "us_room u2 str (max 1 (length t + 1))"
      "unat (us_n u2) \<le> unat (us_n u) + length t + 1" by auto
  from r(2) have "length t < unat (us_n u2) - length str" by (auto simp: us_room_def)
  from printf_fits [OF r(2) _ this t, of k E s2] obtain u3 where
    f: "utstring_printf_va (Suc k) E (Some t) u2 s2 = Inr (u3, s2)" "us_rep u3 (str @ t)" "us_n u3 = us_n u2" by auto
  have "\<not> ?n < us_n u1 - us_i u1" using False v(3-5) l by (simp add: word_less_nat_alt)
  moreover have "int (length t) < 2 ^ 31 - 1" using assms(4) by simp
  ultimately have "utstring_printf_va (Suc (Suc k)) E (Some t) u s = utstring_printf_va (Suc k) E (Some t) u2 s2"
    using v(1) r(1) by (simp del: utstring_printf_va.simps(2) add: utstring_printf_va.simps(2) [of "Suc k"])
  with f r(3) show ?thesis by auto
qed

text \<open>
  A conversion that fails every time is never reported: the loop asks for more and more room, until
  there is no memory left.
\<close>

lemma printf_never_reports: "\<exists>f. utstring_printf_va k E None u s = Inl f"
proof (induction k arbitrary: u s)
  case (Suc k)
  then show ?case
    by (cases "utstring_reserve E (us_n u * 2) u s") (auto simp: us_vsnprintf_def Let_def)
qed simp

section \<open>Properties\<close>

text \<open>A history of the operations, on the string and on the list of bytes it stands for.\<close>

datatype us_op = Bincpy "byte list" | Concat ut_string | Printf "byte list" | Clear

fun us_run :: "env \<Rightarrow> us_op list \<Rightarrow> ut_string \<Rightarrow> 'a os_scheme \<Rightarrow> (ut_string \<times> 'a os_scheme) res" where
  "us_run E [] u s = Inr (u, s)"
| "us_run E (x # xs) u s =
     andThen (case x of Bincpy b \<Rightarrow> utstring_bincpy E b u s | Concat v \<Rightarrow> utstring_concat E v u s
       | Printf t \<Rightarrow> utstring_printf_va 2 E (Some t) u s | Clear \<Rightarrow> andThen (utstring_clear u) (\<lambda>u. Inr (u, s)))
     (\<lambda>(u, s). us_run E xs u s)"

fun us_arg :: "us_op \<Rightarrow> byte list \<Rightarrow> bool" where
  "us_arg (Bincpy b) xs \<longleftrightarrow> xs = b"
| "us_arg (Concat v) xs \<longleftrightarrow> us_rep v xs"
| "us_arg (Printf t) xs \<longleftrightarrow> xs = t \<and> length t < 2 ^ 31 - 1"
| "us_arg Clear xs \<longleftrightarrow> xs = []"

text \<open>What the operation does to the list of bytes, its argument standing for \<open>xs\<close>.\<close>

definition us_step :: "us_op \<Rightarrow> byte list \<Rightarrow> byte list \<Rightarrow> byte list" where
  "us_step x xs str = (case x of Clear \<Rightarrow> [] | _ \<Rightarrow> str @ xs)"

text \<open>
  C27: over any history of \<open>utstring_bincpy\<close>, \<open>utstring_concat\<close>, \<open>utstring_printf\<close> and \<open>utstring_clear\<close>
  with memory for it, a string stands for the bytes appended since the last clearing, embedded
  NULs included, with a NUL behind them and within its buffer; every printing ends after at most
  two attempts.
\<close>

theorem utstring_refines_append:
  assumes "us_rep u str" "list_all2 us_arg ops xss" "\<And>n. e_malloc E n"
    and "unat (us_n u) + sum_list (map (\<lambda>xs. length xs + 1) xss) < 2 ^ 64"
  shows "\<exists>u' s'. us_run E ops u s = Inr (u', s') \<and>
    us_rep u' (fold (\<lambda>(x, xs). us_step x xs) (zip ops xss) str)"
  using assms(2,1,4)
proof (induction ops xss arbitrary: u str s rule: list_all2_induct)
  case (Cons x ops xs xss)
  have "\<exists>u' s'. (case x of Bincpy b \<Rightarrow> utstring_bincpy E b u s | Concat v \<Rightarrow> utstring_concat E v u s
       | Printf t \<Rightarrow> utstring_printf_va 2 E (Some t) u s | Clear \<Rightarrow> andThen (utstring_clear u) (\<lambda>u. Inr (u, s)))
      = Inr (u', s') \<and> us_rep u' (us_step x xs str) \<and> unat (us_n u') \<le> unat (us_n u) + length xs + 1"
    using Cons.hyps(1) Cons.prems us_bincpy_ok [OF Cons.prems(1) assms(3), of xs s]
      us_concat_ok [OF Cons.prems(1) _ assms(3), of _ xs s] us_printf_ok [OF Cons.prems(1) assms(3), of xs 0 s] us_clear_ok [OF Cons.prems(1)]
    by (cases x) (force simp: us_step_def numeral_2_eq_2)+
  then obtain u' s' where "us_run E (x # ops) u s = us_run E ops u' s'" "us_rep u' (us_step x xs str)"
    "unat (us_n u') \<le> unat (us_n u) + length xs + 1" by auto
  with Cons.IH [OF this(2), of s'] Cons.prems(2) show ?case by simp
qed simp

theorem utstring_refines_append_witness:
  "\<exists>u s u' s'. utstring_init demo_env demo_os = Inr (u, s) \<and>
     us_run demo_env [Bincpy [1], Clear, Bincpy [104, 0], Printf [33]] u s = Inr (u', s') \<and> us_rep u' [104, 0, 33]"
proof -
  have mem: "\<And>n. e_malloc demo_env n" by (simp add: demo_env_def)
  from us_init_ok [OF mem, where s = demo_os] obtain u s where
    u: "utstring_init demo_env demo_os = Inr (u, s)" "us_rep u []" "unat (us_n u) = 100" by auto
  let ?ops = "[Bincpy [1], Clear, Bincpy [104, 0], Printf [33]]" and ?xss = "[[1], [], [104, 0], [33]]"
  from utstring_refines_append [OF u(2) _ mem, where ops = ?ops and xss = ?xss and s = s] u(3) obtain u' s' where
    "us_run demo_env ?ops u s = Inr (u', s')" "us_rep u' (fold (\<lambda>(x, xs). us_step x xs) (zip ?ops ?xss) [])" by auto
  with u(1) show ?thesis by (auto simp: us_step_def)
qed

end
