(* ===== verification/Utstring_Find.thy ===== *)
theory Utstring_Find
  imports Utstring
begin

text \<open>
  The searches of \<^verbatim>\<open>local_lib/utstring.h\<close> in a string: the first occurrence from a start position, the
  last one up to a start position, and what happens outside of their range.
\<close>

lemma sint_size: "- (2 ^ 63) \<le> x \<Longrightarrow> x < 2 ^ 63 \<Longrightarrow> sint (word_of_int x :: size_t) = x"
  using signed_take_bit_int_eq_self [of 63 x] by (simp add: signed_of_int)

text \<open>The position a start argument stands for: a negative one counts from the end.\<close>

definition start_pos :: "byte list \<Rightarrow> int \<Rightarrow> int" where
  "start_pos str start = (if start < 0 then int (length str) + start else start)"

lemma us_start_pos:
  assumes "unat (us_i u) = length str" "length str < 2 ^ 31" "- (2 ^ 62) < start"
  shows "us_start u start = start_pos str start"
proof -
  have "us_i u = word_of_int (int (length str))" using size_t_eqI [OF assms(1)] by simp
  then have "us_i u + word_of_int start = word_of_int (int (length str) + start)" by simp
  moreover have "sint (word_of_int (int (length str) + start) :: size_t) = int (length str) + start" if "start < 0"
    by (rule sint_size) (use assms(2,3) that in auto)
  ultimately show ?thesis by (simp add: us_start_def start_pos_def)
qed

lemma occurs_drop: "p \<le> length H \<Longrightarrow> occurs (drop p H) P k \<longleftrightarrow> occurs H P (p + k)"
  by (auto simp: occurs_def add.assoc)

definition first_from :: "byte list \<Rightarrow> byte list \<Rightarrow> int \<Rightarrow> int \<Rightarrow> bool" where
  "first_from str P p r \<longleftrightarrow> (if r = -1 then \<forall>k. p \<le> int k \<longrightarrow> \<not> occurs str P k
     else p \<le> r \<and> 0 \<le> r \<and> occurs str P (nat r) \<and> (\<forall>k. p \<le> int k \<and> int k < r \<longrightarrow> \<not> occurs str P k))"

definition last_to :: "byte list \<Rightarrow> byte list \<Rightarrow> int \<Rightarrow> int \<Rightarrow> bool" where
  "last_to str P p r \<longleftrightarrow> last_at (take (nat (p + 1)) str) P r"

lemma first_from_drop:
  assumes "first_at (drop (nat p) str) P r" "0 \<le> p" "p \<le> int (length str)"
  shows "first_from str P p (if 0 \<le> r then r + p else r)"
proof -
  have o: "occurs (drop (nat p) str) P k \<longleftrightarrow> occurs str P (nat p + k)" for k
    by (rule occurs_drop) (use assms(2,3) in simp)
  show ?thesis
  proof (cases "r = -1")
    case True
    have "\<not> occurs str P k" if "p \<le> int k" for k
      using assms(1,2) True o [of "k - nat p"] that by (simp add: first_at_def)
    with True show ?thesis by (simp add: first_from_def)
  next
    case False
    with assms(1) have r: "0 \<le> r" "occurs str P (nat p + nat r)" "\<forall>k. int k < r \<longrightarrow> \<not> occurs str P (nat p + k)"
      by (simp_all add: first_at_def o)
    have "\<not> occurs str P k" if "p \<le> int k" "int k < r + p" for k
      using r(3) [rule_format, of "k - nat p"] that assms(2) by simp
    moreover have "nat (r + p) = nat p + nat r" using r(1) assms(2) by (simp add: nat_add_distrib)
    ultimately show ?thesis using r(1,2) assms(2) by (simp add: first_from_def)
  qed
qed

text \<open>
  C25: with memory for its table, in a string shorter than 2^31 bytes, \<open>utstring_find\<close> returns the first
  occurrence of a needle that is not empty at or after the start position, and -1 when there is none.
  The start position counts from the end when it is negative, and then is not before the string.
\<close>

theorem utstring_find_first:
  assumes "us_rep u str" "length str < 2 ^ 31" "P \<noteq> []" "- int (length str) \<le> start" "start < 2 ^ 62"
    and "e_malloc E (tick s)"
  shows "\<exists>r s'. utstring_find E u start P s = Inr (r, s') \<and> first_from str P (start_pos str start) r"
proof -
  let ?p = "start_pos str start"
  from assms(1) obtain rest where u: "us_d u = Blk (map Some str @ Some 0 # rest)" "unat (us_i u) = length str"
    by (auto simp: us_rep_def)
  have st: "us_start u start = ?p" by (rule us_start_pos [OF u(2) assms(2)]) (use assms(2,4) in auto)
  have p: "0 \<le> ?p" "?p < 2 ^ 62" using assms(2,4,5) by (auto simp: start_pos_def)
  have "us_i u - word_of_int ?p = word_of_int (int (length str) - ?p)" using size_t_eqI [OF u(2)] by simp
  moreover have "sint (word_of_int (int (length str) - ?p) :: size_t) = int (length str) - ?p"
    by (rule sint_size) (use assms(2) p in auto)
  ultimately have hl: "sint (us_i u - word_of_int ?p) = int (length str) - ?p" by simp
  show ?thesis
  proof (cases "int (length P) \<le> int (length str) - ?p")
    case False
    have "\<not> occurs str P k" if "?p \<le> int k" for k using that False by (auto simp: occurs_def)
    with False st hl show ?thesis by (simp add: utstring_find_def Let_def first_from_def)
  next
    case True
    let ?H = "drop (nat ?p) str"
    have len: "length ?H < 2 ^ 31" "length P < 2 ^ 31" using assms(2) True p by simp_all
    have "1 \<le> int (length P)" using assms(3) by (cases P) auto
    moreover have "c_int (int (length str) - ?p) = int (length str) - ?p"
      by (rule c_int_small) (use True assms(2) p in auto)
    ultimately have c: "\<not> c_int (int (length str) - ?p) \<le> 0" using True by linarith
    have H: "take (nat (int (length str) - ?p)) (drop (nat ?p) (map Some str @ Some 0 # rest)) = map Some ?H"
      using True p by (simp add: drop_map nat_diff_distrib)
    from build_table_ok [of "replicate (length P + 1) None" P] obtain T where
      T: "utstring_build_table P (replicate (length P + 1) None) = Inr T" "filled P T (length P)" by auto
    from find_ok [OF T(2) assms(3) len] obtain r where
      r: "utstring_find_in (map Some ?H) P T = Inr r" "first_at ?H P r" by blast
    have "utstring_find E u start P s = Inr (if 0 \<le> r then r + ?p else r, step s)"
      using True c p assms(3,6) T(1) r(1) u(1) H by (simp add: utstring_find_def Let_def st hl del: take_append)
    moreover have "?p \<le> int (length str)" using True by simp
    ultimately show ?thesis using first_from_drop [OF r(2) p(1)] by blast
  qed
qed

text \<open>
  C26: with memory for its table, in a string shorter than 2^31 bytes, \<open>utstring_findR\<close> returns the last
  occurrence of a needle that is not empty that ends at or before the start position, which lies
  before the end of the string, and -1 when there is none.
\<close>

theorem utstring_find_last:
  assumes "us_rep u str" "length str < 2 ^ 31" "P \<noteq> []" "- (2 ^ 62) < start" "start < int (length str)"
    and "e_malloc E (tick s)"
  shows "\<exists>r s'. utstring_find_r E u start P s = Inr (r, s') \<and> last_to str P (start_pos str start) r"
proof -
  let ?p = "start_pos str start"
  from assms(1) obtain rest where u: "us_d u = Blk (map Some str @ Some 0 # rest)" "unat (us_i u) = length str"
    by (auto simp: us_rep_def)
  have st: "us_start u start = ?p" by (rule us_start_pos [OF u(2) assms(2,4)])
  have p: "?p < int (length str)" using assms(5) by (auto simp: start_pos_def)
  let ?H = "take (nat (?p + 1)) str"
  show ?thesis
  proof (cases "int (length P) \<le> ?p + 1")
    case False
    have "\<not> occurs ?H P k" for k
    proof
      assume "occurs ?H P k"
      then have "k + length P \<le> nat (?p + 1)" by (simp add: occurs_def)
      moreover have "0 < length P" using assms(3) by simp
      ultimately show False using False by linarith
    qed
    with False st show ?thesis by (auto simp: utstring_find_r_def Let_def last_to_def last_at_def)
  next
    case True
    have len: "length ?H < 2 ^ 31" "length P < 2 ^ 31" "\<not> length (map Some str @ Some 0 # rest) < nat (?p + 1)"
      using assms(2) True p by auto
    have H: "take (nat (?p + 1)) (map Some str @ Some 0 # rest) = map Some ?H"
      using p by (simp add: take_map)
    from build_table_r_ok [of "replicate (length P + 1) None" P] obtain T where
      T: "utstring_build_table_r P (replicate (length P + 1) None) = Inr (mirror (length P) T)" "filled (rev P) T (length P)"
      by auto
    from find_r_ok [OF T(2) assms(3) len(1,2)] obtain r where
      r: "utstring_find_in_r (map Some ?H) P (mirror (length P) T) = Inr r" "last_at ?H P r" by blast
    have "utstring_find_r E u start P s = Inr (r, step s)"
      using True assms(3,6) T(1) r(1) u(1) H len(3) by (simp add: utstring_find_r_def Let_def st del: take_append length_append)
    with r(2) show ?thesis by (auto simp: last_to_def)
  qed
qed

lemma c_int_negative:
  assumes "2 ^ 31 \<le> n" "n < 2 ^ 32"
  shows "c_int n < 0"
proof -
  have "(n + 2 ^ 31) mod 2 ^ 32 = ((n - 2 ^ 31) + 2 ^ 32) mod 2 ^ 32" by (simp add: add.commute)
  also have "\<dots> = n - 2 ^ 31" using assms by (simp only: mod_add_self2) simp
  finally have "c_int n = n - 2 ^ 32"
    unfolding c_int_def signed_take_bit_eq_take_bit_shift take_bit_eq_mod by simp
  with assms show ?thesis by simp
qed

text \<open>
  In a string of 2^31 bytes or more (and less than 2^32), \<open>utstring_find\<close> never finds anything,
  since its loop compares with the length cast to \<open>int\<close>, which is negative.
\<close>

theorem utstring_find_long:
  assumes "us_rep u str" "2 ^ 31 \<le> length str" "length str < 2 ^ 32"
  shows "\<exists>s'. utstring_find E u 0 P s = Inr (-1, s')"
proof -
  have "sint (us_i u - word_of_int 0) = int (length str)"
  proof -
    have "us_i u = word_of_int (int (length str))" using assms(1) size_t_eqI [of "us_i u" "length str"] by (auto simp: us_rep_def)
    then show ?thesis using sint_size [of "int (length str)"] assms(3) by simp
  qed
  moreover have "c_int (int (length str)) \<le> 0" using c_int_negative [of "int (length str)"] assms(2,3) by simp
  ultimately show ?thesis 
    using build_table_ok [of "replicate (length P + 1) None" P]
    by (auto simp: utstring_find_def Let_def us_start_def)
qed

section \<open>Witnesses\<close>

definition demo_us :: ut_string where
  "demo_us = \<lparr>us_d = Blk [Some 97, Some 98, Some 97, Some 98, Some 0], us_n = 5, us_i = 4\<rparr>"

lemma demo_us_rep: "us_rep demo_us [97, 98, 97, 98]"
  by (simp add: us_rep_def demo_us_def)

theorem utstring_find_first_witness:
  "\<exists>r s'. utstring_find demo_env demo_us (-3) [97, 98] demo_os = Inr (r, s') \<and> first_from [97, 98, 97, 98] [97, 98] 1 r"
proof -
  have "start_pos [97, 98, 97, 98] (-3) = 1" by (simp add: start_pos_def)
  with utstring_find_first [OF demo_us_rep, where P = "[97, 98]" and start = "-3" and E = demo_env and s = demo_os]
  show ?thesis by (simp add: demo_env_def)
qed

theorem utstring_find_last_witness:
  "\<exists>r s'. utstring_find_r demo_env demo_us (-1) [97, 98] demo_os = Inr (r, s') \<and> last_to [97, 98, 97, 98] [97, 98] 3 r"
proof -
  have "start_pos [97, 98, 97, 98] (-1) = 3" by (simp add: start_pos_def)
  with utstring_find_last [OF demo_us_rep, where P = "[97, 98]" and start = "-1" and E = demo_env and s = demo_os]
  show ?thesis by (simp add: demo_env_def)
qed

theorem utstring_find_long_witness:
  "\<exists>u s'. us_rep u (replicate (2 ^ 31) 97) \<and> utstring_find demo_env u 0 [97] demo_os = Inr (-1, s')"
proof -
  let ?u = "\<lparr>us_d = Blk (map Some (replicate (2 ^ 31) 97) @ [Some 0]), us_n = 2 ^ 31 + 1, us_i = 2 ^ 31\<rparr>"
  have "unat (2 ^ 31 + 1 :: size_t) = 2 ^ 31 + 1" "unat (2 ^ 31 :: size_t) = 2 ^ 31" by simp_all
  then have "us_rep ?u (replicate (2 ^ 31) 97)"
    unfolding us_rep_def ut_string.simps length_replicate by (intro exI [of _ "[]"]) auto
  with utstring_find_long [OF this, of demo_env "[97]" demo_os] show ?thesis by auto
qed

end
