(* ===== verification/Utlist.thy ===== *)
theory Utlist
  imports C_Env Link_Sort
begin

text \<open>
  The macros for singly linked lists of \<^verbatim>\<open>local_lib/utlist.h\<close>, on a heap of nodes, as a compiler with
  \<open>__typeof\<close> sees them (\<open>NO_DECLTYPE\<close> not defined). A macro that assigns to \<open>head\<close> returns the new
  head. Loops that follow links have \<open>tick\<close> as their fuel, the number of allocations so far.
\<close>

section \<open>Nodes\<close>

text \<open>The fields of the user's structure: its own ones, and the links.\<close>

record 'k lnode =
  ln_val :: 'k
  ln_prev :: "addr option"
  ln_next :: "addr option"

record 'k lheap = os +
  nodes :: "addr \<rightharpoonup> 'k lnode"

definition next_of :: "addr option \<Rightarrow> ('k, 'a) lheap_scheme \<Rightarrow> addr option res" where
  "next_of p s = andThen (deref (nodes s) p) (\<lambda>(_, x). Inr (ln_next x))"

definition prev_of :: "addr option \<Rightarrow> ('k, 'a) lheap_scheme \<Rightarrow> addr option res" where
  "prev_of p s = andThen (deref (nodes s) p) (\<lambda>(_, x). Inr (ln_prev x))"

definition to_next :: "addr option \<Rightarrow> addr option \<Rightarrow> ('k, 'a) lheap_scheme \<Rightarrow> ('k, 'a) lheap_scheme res" where
  "to_next p v s = andThen (deref (nodes s) p) (\<lambda>(a, x). Inr (s\<lparr>nodes := (nodes s)(a \<mapsto> x\<lparr>ln_next := v\<rparr>)\<rparr>))"

definition to_prev :: "addr option \<Rightarrow> addr option \<Rightarrow> ('k, 'a) lheap_scheme \<Rightarrow> ('k, 'a) lheap_scheme res" where
  "to_prev p v s = andThen (deref (nodes s) p) (\<lambda>(a, x). Inr (s\<lparr>nodes := (nodes s)(a \<mapsto> x\<lparr>ln_prev := v\<rparr>)\<rparr>))"

text \<open>A comparison of two nodes sees their own fields.\<close>

type_synonym 'k ncmp = "'k \<Rightarrow> 'k \<Rightarrow> int"

definition node_cmp :: "'k ncmp \<Rightarrow> addr option \<Rightarrow> addr option \<Rightarrow> ('k, 'a) lheap_scheme \<Rightarrow> int res" where
  "node_cmp c p q s = andThen (deref (nodes s) p) (\<lambda>(_, x). andThen (deref (nodes s) q) (\<lambda>(_, y).
     Inr (c (ln_val x) (ln_val y))))"

definition c_assert :: "bool \<Rightarrow> 'b res \<Rightarrow> 'b res" where
  "c_assert b k = (if b then k else Inl AssertFail)"

text \<open>The head and the heap after a macro.\<close>

type_synonym ('k, 'a) lres = "(addr option \<times> ('k, 'a) lheap_scheme) res"

section \<open>Walks\<close>

text \<open>\<open>for (el = head; el; el = el->next)\<close>: the nodes it comes to.\<close>

fun foreach :: "nat \<Rightarrow> addr option \<Rightarrow> ('k, 'a) lheap_scheme \<Rightarrow> addr list res" where
  "foreach n el s =
     (case el of None \<Rightarrow> Inr []
      | Some a \<Rightarrow> (case n of 0 \<Rightarrow> Inl Diverge
        | Suc n \<Rightarrow> andThen (next_of el s) (\<lambda>el. andThen (foreach n el s) (\<lambda>as. Inr (a # as)))))"

text \<open>
  \<open>LL_FOREACH_SAFE2\<close> and \<open>DL_FOREACH_SAFE2\<close>: the body may change the list and its head, and the node it
  is at; the next node has been read before.
\<close>

fun safe_loop :: "(addr \<Rightarrow> addr option \<times> ('k, 'a) lheap_scheme \<Rightarrow> ('k, 'a) lres) \<Rightarrow> nat \<Rightarrow> addr option \<Rightarrow>
    addr option \<times> ('k, 'a) lheap_scheme \<Rightarrow> ('k, 'a) lres" where
  "safe_loop body n el hs =
     (case el of None \<Rightarrow> Inr hs
      | Some a \<Rightarrow> (case n of 0 \<Rightarrow> Inl Diverge
        | Suc n \<Rightarrow> andThen (next_of el (snd hs)) (\<lambda>tmp. andThen (body a hs) (safe_loop body n tmp))))"

definition foreach_safe :: "(addr \<Rightarrow> addr option \<times> ('k, 'a) lheap_scheme \<Rightarrow> ('k, 'a) lres) \<Rightarrow>
    addr option \<Rightarrow> ('k, 'a) lheap_scheme \<Rightarrow> ('k, 'a) lres" where
  "foreach_safe body head s = safe_loop body (tick s) head (head, s)"

text \<open>\<open>LL_COUNT2\<close>; \<open>LL_SEARCH_SCALAR2\<close> and \<open>LL_SEARCH2\<close>, which leave the loop at the first node that fits.\<close>

definition ll_count :: "addr option \<Rightarrow> ('k, 'a) lheap_scheme \<Rightarrow> nat res" where
  "ll_count head s = andThen (foreach (tick s) head s) (\<lambda>as. Inr (length as))"

fun search_loop :: "(addr option \<Rightarrow> ('k, 'a) lheap_scheme \<Rightarrow> bool res) \<Rightarrow> nat \<Rightarrow> addr option \<Rightarrow>
    ('k, 'a) lheap_scheme \<Rightarrow> addr option res" where
  "search_loop fits n out s =
     (if out = None then Inr None
      else andThen (fits out s) (\<lambda>b. if b then Inr out
        else (case n of 0 \<Rightarrow> Inl Diverge
          | Suc n \<Rightarrow> andThen (next_of out s) (\<lambda>out. search_loop fits n out s))))"

definition ll_search_scalar ::
  "('k \<Rightarrow> 'v) \<Rightarrow> 'v \<Rightarrow> addr option \<Rightarrow> ('k, 'a) lheap_scheme \<Rightarrow> addr option res" where
  "ll_search_scalar field val head s =
     search_loop (\<lambda>out s. andThen (deref (nodes s) out) (\<lambda>(_, x). Inr (field (ln_val x) = val))) (tick s) head s"

definition ll_search ::
  "'k ncmp \<Rightarrow> addr option \<Rightarrow> addr option \<Rightarrow> ('k, 'a) lheap_scheme \<Rightarrow> addr option res" where
  "ll_search cmp elt head s =
     search_loop (\<lambda>out s. andThen (node_cmp cmp out elt s) (\<lambda>d. Inr (d = 0))) (tick s) head s"

text \<open>\<open>while (_tmp->next) _tmp = _tmp->next;\<close>\<close>

fun walk_end :: "nat \<Rightarrow> addr option \<Rightarrow> ('k, 'a) lheap_scheme \<Rightarrow> addr option res" where
  "walk_end n tmp s =
     andThen (next_of tmp s) (\<lambda>nx. if nx = None then Inr tmp
       else (case n of 0 \<Rightarrow> Inl Diverge | Suc n \<Rightarrow> walk_end n nx s))"

text \<open>\<open>while (_tmp->next && _tmp->next != el) _tmp = _tmp->next;\<close>\<close>

fun walk_before :: "nat \<Rightarrow> addr option \<Rightarrow> addr option \<Rightarrow> ('k, 'a) lheap_scheme \<Rightarrow> addr option res" where
  "walk_before n tmp el s =
     andThen (next_of tmp s) (\<lambda>nx. if nx = None \<or> nx = el then Inr tmp
       else (case n of 0 \<Rightarrow> Inl Diverge | Suc n \<Rightarrow> walk_before n nx el s))"

text \<open>
  \<open>for (elt = head; elt->next != stop; elt = elt->next) if (cmp(elt->next, like) >= 0) break;\<close> where
  \<open>stop\<close> is NULL, or the head of a circular list.
\<close>

fun bound_loop :: "'k ncmp \<Rightarrow> addr option \<Rightarrow> addr option \<Rightarrow> nat \<Rightarrow> addr option \<Rightarrow>
    ('k, 'a) lheap_scheme \<Rightarrow> addr option res" where
  "bound_loop cmp stop like n elt s =
     andThen (next_of elt s) (\<lambda>nx. if nx = stop then Inr elt
       else andThen (node_cmp cmp nx like s) (\<lambda>d. if 0 \<le> d then Inr elt
         else (case n of 0 \<Rightarrow> Inl Diverge | Suc n \<Rightarrow> bound_loop cmp stop like n nx s)))"

declare foreach.simps [simp del] safe_loop.simps [simp del] search_loop.simps [simp del] walk_end.simps [simp del]
  walk_before.simps [simp del] bound_loop.simps [simp del]

section \<open>The macros\<close>

definition ll_prepend :: "addr option \<Rightarrow> addr option \<Rightarrow> ('k, 'a) lheap_scheme \<Rightarrow> ('k, 'a) lres" where
  "ll_prepend head add s = andThen (to_next add head s) (\<lambda>s. Inr (add, s))"

definition ll_concat :: "addr option \<Rightarrow> addr option \<Rightarrow> ('k, 'a) lheap_scheme \<Rightarrow> ('k, 'a) lres" where
  "ll_concat head1 head2 s =
     (if head1 \<noteq> None
      then andThen (walk_end (tick s) head1 s) (\<lambda>tmp. andThen (to_next tmp head2 s) (\<lambda>s. Inr (head1, s)))
      else Inr (head2, s))"

definition ll_append :: "addr option \<Rightarrow> addr option \<Rightarrow> ('k, 'a) lheap_scheme \<Rightarrow> ('k, 'a) lres" where
  "ll_append head add s =
     andThen (to_next add None s) (\<lambda>s.
       if head \<noteq> None
       then andThen (walk_end (tick s) head s) (\<lambda>tmp. andThen (to_next tmp add s) (\<lambda>s. Inr (head, s)))
       else Inr (add, s))"

definition ll_lower_bound ::
  "'k ncmp \<Rightarrow> addr option \<Rightarrow> addr option \<Rightarrow> ('k, 'a) lheap_scheme \<Rightarrow> addr option res" where
  "ll_lower_bound cmp head like s =
     (if head = None then Inr None
      else andThen (node_cmp cmp head like s) (\<lambda>d. if 0 \<le> d then Inr None
        else bound_loop cmp None like (tick s) head s))"

definition ll_append_elem ::
  "addr option \<Rightarrow> addr option \<Rightarrow> addr option \<Rightarrow> ('k, 'a) lheap_scheme \<Rightarrow> ('k, 'a) lres" where
  "ll_append_elem head el add s =
     (if el \<noteq> None
      then c_assert (head \<noteq> None) (c_assert (add \<noteq> None)
        (andThen (next_of el s) (\<lambda>nx. andThen (to_next add nx s) (\<lambda>s.
          andThen (to_next el add s) (\<lambda>s. Inr (head, s))))))
      else ll_prepend head add s)"

definition ll_insert_inorder ::
  "'k ncmp \<Rightarrow> addr option \<Rightarrow> addr option \<Rightarrow> ('k, 'a) lheap_scheme \<Rightarrow> ('k, 'a) lres" where
  "ll_insert_inorder cmp head add s =
     (if head \<noteq> None
      then andThen (ll_lower_bound cmp head add s) (\<lambda>tmp. ll_append_elem head tmp add s)
      else andThen (to_next add None s) (\<lambda>s. Inr (add, s)))"

definition ll_delete :: "addr option \<Rightarrow> addr option \<Rightarrow> ('k, 'a) lheap_scheme \<Rightarrow> ('k, 'a) lres" where
  "ll_delete head del s =
     (if head = del then andThen (next_of head s) (\<lambda>nx. Inr (nx, s))
      else andThen (walk_before (tick s) head del s) (\<lambda>tmp. andThen (next_of tmp s) (\<lambda>nx.
        if nx \<noteq> None
        then andThen (next_of del s) (\<lambda>v. andThen (to_next tmp v s) (\<lambda>s. Inr (head, s)))
        else Inr (head, s))))"

text \<open>The end that \<open>LL_REPLACE_ELEM2\<close> and \<open>LL_PREPEND_ELEM2\<close> share: \<open>add\<close> behind the node before \<open>el\<close>.\<close>

definition ll_link_before ::
  "addr option \<Rightarrow> addr option \<Rightarrow> addr option \<Rightarrow> ('k, 'a) lheap_scheme \<Rightarrow> ('k, 'a) lres" where
  "ll_link_before head el add s =
     (if head = el then Inr (add, s)
      else andThen (walk_before (tick s) head el s) (\<lambda>tmp. andThen (next_of tmp s) (\<lambda>nx.
        if nx \<noteq> None then andThen (to_next tmp add s) (\<lambda>s. Inr (head, s)) else Inr (head, s))))"

definition ll_replace_elem ::
  "addr option \<Rightarrow> addr option \<Rightarrow> addr option \<Rightarrow> ('k, 'a) lheap_scheme \<Rightarrow> ('k, 'a) lres" where
  "ll_replace_elem head el add s =
     c_assert (head \<noteq> None) (c_assert (el \<noteq> None) (c_assert (add \<noteq> None)
       (andThen (next_of el s) (\<lambda>nx. andThen (to_next add nx s) (\<lambda>s. ll_link_before head el add s)))))"

definition ll_prepend_elem ::
  "addr option \<Rightarrow> addr option \<Rightarrow> addr option \<Rightarrow> ('k, 'a) lheap_scheme \<Rightarrow> ('k, 'a) lres" where
  "ll_prepend_elem head el add s =
     (if el \<noteq> None
      then c_assert (head \<noteq> None) (c_assert (add \<noteq> None)
        (andThen (to_next add el s) (\<lambda>s. ll_link_before head el add s)))
      else ll_append head add s)"

end
