(* ===== verification/Utlist_Rep.thy ===== *)
theory Utlist_Rep
  imports Utlist
begin

text \<open>
  What the list macros of \<^verbatim>\<open>local_lib/utlist.h\<close> promise: on a head that stands for a list of nodes each
  of them does what its name says to that list, touches no node outside of it and no field of the
  user's. \<open>list_macros\<close> is this contract, which the singly linked, the doubly linked and the
  circular lists fulfil; any history of operations follows from it.
\<close>

section \<open>The heap as functions\<close>

definition lnxt :: "('k, 'a) lheap_scheme \<Rightarrow> addr \<Rightarrow> addr option" where
  "lnxt s a = Option.bind (nodes s a) ln_next"

definition lprv :: "('k, 'a) lheap_scheme \<Rightarrow> addr \<Rightarrow> addr option" where
  "lprv s a = Option.bind (nodes s a) ln_prev"

definition vals :: "('k, 'a) lheap_scheme \<Rightarrow> addr \<Rightarrow> 'k option" where
  "vals s a = map_option ln_val (nodes s a)"

definition upd_next :: "addr \<Rightarrow> addr option \<Rightarrow> ('k, 'a) lheap_scheme \<Rightarrow> ('k, 'a) lheap_scheme" where
  "upd_next a v s = s\<lparr>nodes := (nodes s)(a := map_option (\<lambda>x. x\<lparr>ln_next := v\<rparr>) (nodes s a))\<rparr>"

definition upd_prev :: "addr \<Rightarrow> addr option \<Rightarrow> ('k, 'a) lheap_scheme \<Rightarrow> ('k, 'a) lheap_scheme" where
  "upd_prev a v s = s\<lparr>nodes := (nodes s)(a := map_option (\<lambda>x. x\<lparr>ln_prev := v\<rparr>) (nodes s a))\<rparr>"

lemma dom_vals [simp]: "dom (vals s) = dom (nodes s)"
  by (auto simp: vals_def)

named_theorems link_simps \<open>the link accesses of nodes that are allocated\<close>

lemma links_eq [link_simps]:
  assumes "a \<in> dom (nodes s)"
  shows "next_of (Some a) s = Inr (lnxt s a)" "prev_of (Some a) s = Inr (lprv s a)"
    "to_next (Some a) v s = Inr (upd_next a v s)" "to_prev (Some a) v s = Inr (upd_prev a v s)"
  using assms by (auto simp: next_of_def prev_of_def to_next_def to_prev_def lnxt_def lprv_def upd_next_def upd_prev_def)

lemma node_cmp_eq [link_simps]:
  assumes "a \<in> dom (nodes s)" "b \<in> dom (nodes s)"
  shows "node_cmp c (Some a) (Some b) s = Inr (c (the (vals s a)) (the (vals s b)))"
  using assms by (auto simp: node_cmp_def vals_def)

lemma bind_map_option: "Option.bind (map_option f x) g = Option.bind x (\<lambda>y. g (f y))"
  by (cases x) simp_all

lemma upd_sel [simp]:
  "dom (nodes (upd_next a v s)) = dom (nodes s)" "dom (nodes (upd_prev a v s)) = dom (nodes s)"
  "vals (upd_next a v s) = vals s" "vals (upd_prev a v s) = vals s"
  "tick (upd_next a v s) = tick s" "tick (upd_prev a v s) = tick s"
  "lprv (upd_next a v s) = lprv s" "lnxt (upd_prev a v s) = lnxt s"
  by (auto simp: upd_next_def upd_prev_def vals_def lprv_def lnxt_def fun_eq_iff dom_def bind_map_option
      option.map_comp comp_def split: option.split option.split_asm)

lemma upd_links [link_simps]:
  assumes "a \<in> dom (nodes s)"
  shows "lnxt (upd_next a v s) = (lnxt s)(a := v)" "lprv (upd_prev a v s) = (lprv s)(a := v)"
  using assms by (auto simp: upd_next_def upd_prev_def lnxt_def lprv_def fun_eq_iff)

text \<open>What an operation on the nodes \<open>A\<close> leaves as it was.\<close>

definition keeps :: "addr set \<Rightarrow> ('k, 'a) lheap_scheme \<Rightarrow> ('k, 'a) lheap_scheme \<Rightarrow> bool" where
  "keeps A s s' \<longleftrightarrow> vals s' = vals s \<and> tick s' = tick s \<and> (\<forall>x. x \<notin> A \<longrightarrow> nodes s' x = nodes s x)"

lemma keeps_refl [simp]: "keeps A s s"
  by (simp add: keeps_def)

lemma keeps_updI [simp, intro]:
  "a \<in> A \<Longrightarrow> keeps A s s' \<Longrightarrow> keeps A s (upd_next a v s')"
  "a \<in> A \<Longrightarrow> keeps A s s' \<Longrightarrow> keeps A s (upd_prev a v s')"
  unfolding keeps_def by (auto simp: upd_next_def upd_prev_def vals_def fun_eq_iff option.map_comp comp_def)

lemma keeps_trans: "keeps A s s' \<Longrightarrow> keeps B s' s'' \<Longrightarrow> keeps (A \<union> B) s s''"
  by (simp add: keeps_def)

lemma keeps_mono: "keeps A s s' \<Longrightarrow> A \<subseteq> B \<Longrightarrow> keeps B s s'"
  unfolding keeps_def by blast

lemma keepsD: "keeps A s s' \<Longrightarrow> vals s' = vals s" "keeps A s s' \<Longrightarrow> tick s' = tick s"
  "keeps A s s' \<Longrightarrow> x \<notin> A \<Longrightarrow> nodes s' x = nodes s x" "keeps A s s' \<Longrightarrow> dom (nodes s') = dom (nodes s)"
  unfolding keeps_def by (auto simp flip: dom_vals)

text \<open>The comparison of nodes by their own fields; \<open>V\<close> gives the fields of the nodes.\<close>

definition val_cmp :: "(addr \<rightharpoonup> 'k) \<Rightarrow> 'k ncmp \<Rightarrow> addr \<Rightarrow> addr \<Rightarrow> int" where
  "val_cmp V c x y = c (the (V x)) (the (V y))"

text \<open>Nodes have the numbers of the allocations they came from, so no list is longer than \<open>tick\<close>.\<close>

definition numbered :: "('k, 'a) lheap_scheme \<Rightarrow> bool" where
  "numbered s \<longleftrightarrow> (\<forall>a \<in> dom (nodes s). a < tick s)"

lemma numbered_keeps: "keeps A s s' \<Longrightarrow> numbered s \<Longrightarrow> numbered s'"
  by (simp add: numbered_def keepsD)

lemma numbered_upd [simp]:
  "numbered (upd_next a v s) = numbered s" "numbered (upd_prev a v s) = numbered s"
  by (simp_all add: numbered_def)

lemma numbered_length:
  assumes "numbered s" "distinct xs" "set xs \<subseteq> dom (nodes s)"
  shows "length xs \<le> tick s"
proof -
  have "set xs \<subseteq> {..<tick s}" using assms(1,3) by (auto simp: numbered_def)
  then have "card (set xs) \<le> card {..<tick s}" by (intro card_mono) auto
  with assms(2) show ?thesis by (simp add: distinct_card)
qed

section \<open>Walks along a list\<close>

lemma foreach_ok:
  "nseg (lnxt s) xs None \<Longrightarrow> set xs \<subseteq> dom (nodes s) \<Longrightarrow> length xs \<le> n \<Longrightarrow>
    foreach n (head_or xs None) s = Inr xs"
proof (induction xs arbitrary: n)
  case (Cons x xs)
  then obtain m where n: "n = Suc m" by (cases n) auto
  have x: "x \<in> dom (nodes s)" using Cons.prems by simp
  from Cons.IH [of m] Cons.prems n show ?case by (simp add: foreach.simps [of "Suc m"] links_eq [OF x])
qed (simp add: foreach.simps)

lemma search_loop_ok:
  "(\<And>x. x \<in> set xs \<Longrightarrow> fits (Some x) s = Inr (P x)) \<Longrightarrow> nseg (lnxt s) xs None \<Longrightarrow> set xs \<subseteq> dom (nodes s) \<Longrightarrow> length xs \<le> n \<Longrightarrow>
    search_loop fits n (head_or xs None) s = Inr (find P xs)"
proof (induction xs arbitrary: n)
  case (Cons x xs)
  then obtain m where n: "n = Suc m" by (cases n) auto
  have x: "x \<in> dom (nodes s)" using Cons.prems by simp
  from Cons.IH [of m] Cons.prems n show ?case by (simp add: search_loop.simps [of fits "Suc m"] links_eq [OF x])
qed (simp add: search_loop.simps)

lemma walk_end_ok:
  "nseg (lnxt s) xs None \<Longrightarrow> xs \<noteq> [] \<Longrightarrow> set xs \<subseteq> dom (nodes s) \<Longrightarrow> length xs \<le> Suc n \<Longrightarrow>
    walk_end n (Some (hd xs)) s = Inr (Some (last xs))"
proof (induction xs arbitrary: n)
  case (Cons x xs)
  have x: "x \<in> dom (nodes s)" using Cons.prems by simp
  show ?case
  proof (cases xs)
    case Nil
    with Cons.prems show ?thesis by (simp add: walk_end.simps links_eq [OF x])
  next
    case (Cons y ys)
    with Cons.prems obtain m where "n = Suc m" by (cases n) auto
    with Cons Cons.prems Cons.IH [of m] show ?thesis by (simp add: walk_end.simps [of "Suc m"] links_eq [OF x])
  qed
qed simp

lemma walk_before_ok:
  "nseg (lnxt s) (us @ el # vs) q \<Longrightarrow> us \<noteq> [] \<Longrightarrow> el \<notin> set us \<Longrightarrow> set us \<subseteq> dom (nodes s) \<Longrightarrow> length us \<le> Suc n \<Longrightarrow>
    walk_before n (Some (hd us)) (Some el) s = Inr (Some (last us))"
proof (induction us arbitrary: n)
  case (Cons x us)
  have x: "x \<in> dom (nodes s)" using Cons.prems by simp
  show ?case
  proof (cases us)
    case Nil
    with Cons.prems show ?thesis by (simp add: walk_before.simps links_eq [OF x])
  next
    case (Cons y ys)
    with Cons.prems obtain m where "n = Suc m" by (cases n) auto
    with Cons Cons.prems Cons.IH [of m] show ?thesis by (simp add: walk_before.simps [of "Suc m"] links_eq [OF x])
  qed
qed simp

lemma bound_loop_ok:
  fixes c :: "'k ncmp" and s :: "('k, 'a) lheap_scheme"
  assumes "a \<in> dom (nodes s)"
  defines "P \<equiv> \<lambda>x. val_cmp (vals s) c x a < 0"
  shows "nseg (lnxt s) xs stop \<Longrightarrow> xs \<noteq> [] \<Longrightarrow> stop \<notin> Some ` set (tl xs) \<Longrightarrow> set xs \<subseteq> dom (nodes s) \<Longrightarrow>
    length xs \<le> Suc n \<Longrightarrow> P (hd xs) \<Longrightarrow>
    bound_loop c stop (Some a) n (Some (hd xs)) s = Inr (Some (last (takeWhile P xs)))"
proof (induction xs arbitrary: n)
  case (Cons x xs)
  have x: "x \<in> dom (nodes s)" using Cons.prems by simp
  show ?case
  proof (cases xs)
    case Nil
    with Cons.prems show ?thesis by (simp add: bound_loop.simps links_eq [OF x])
  next
    case (Cons y ys)
    with Cons.prems obtain m where m: "n = Suc m" by (cases n) auto
    have y: "y \<in> dom (nodes s)" "stop \<noteq> Some y" using Cons.prems Cons by auto
    show ?thesis
      using Cons.prems Cons m y Cons.IH [of m]
      by (auto simp: bound_loop.simps [of c stop _ "Suc m"] links_eq [OF x] node_cmp_eq [OF y(1) assms(1)] P_def val_cmp_def
          not_less)
  qed
qed simp

section \<open>Operations on lists of nodes\<close>

fun put_before :: "'a \<Rightarrow> 'a \<Rightarrow> 'a list \<Rightarrow> 'a list" where
  "put_before el a [] = []"
| "put_before el a (x # xs) = (if x = el then a # x # xs else x # put_before el a xs)"

fun put_after :: "'a \<Rightarrow> 'a \<Rightarrow> 'a list \<Rightarrow> 'a list" where
  "put_after el a [] = []"
| "put_after el a (x # xs) = (if x = el then x # a # xs else x # put_after el a xs)"

fun put_for :: "'a \<Rightarrow> 'a \<Rightarrow> 'a list \<Rightarrow> 'a list" where
  "put_for el a [] = []"
| "put_for el a (x # xs) = (if x = el then a # xs else x # put_for el a xs)"

lemma put_at_split:
  assumes "el \<notin> set us"
  shows "put_before el a (us @ el # vs) = us @ a # el # vs" "put_after el a (us @ el # vs) = us @ el # a # vs"
    "put_for el a (us @ el # vs) = us @ a # vs" "remove1 el (us @ el # vs) = us @ vs"
  using assms by (induction us) auto

text \<open>In front of the first node that is not smaller.\<close>

definition put_inorder :: "('a \<Rightarrow> 'a \<Rightarrow> int) \<Rightarrow> 'a \<Rightarrow> 'a list \<Rightarrow> 'a list" where
  "put_inorder c a xs = takeWhile (\<lambda>x. c x a < 0) xs @ a # dropWhile (\<lambda>x. c x a < 0) xs"

datatype 'k lop =
    Prepend addr
  | Append addr
  | Insert_inorder "'k ncmp" addr
  | Delete addr
  | Replace addr addr
  | Prepend_elem addr addr
  | Append_elem addr addr

text \<open>What an operation does, and what it asks of its arguments.\<close>

fun lop_spec :: "(addr \<rightharpoonup> 'k) \<Rightarrow> 'k lop \<Rightarrow> addr list \<Rightarrow> addr list" where
  "lop_spec V (Prepend a) xs = a # xs"
| "lop_spec V (Append a) xs = xs @ [a]"
| "lop_spec V (Insert_inorder c a) xs = put_inorder (val_cmp V c) a xs"
| "lop_spec V (Delete a) xs = remove1 a xs"
| "lop_spec V (Replace el a) xs = put_for el a xs"
| "lop_spec V (Prepend_elem el a) xs = put_before el a xs"
| "lop_spec V (Append_elem el a) xs = put_after el a xs"

fun lop_ok :: "(addr \<rightharpoonup> 'k) \<Rightarrow> 'k lop \<Rightarrow> addr list \<Rightarrow> bool" where
  "lop_ok V (Prepend a) xs \<longleftrightarrow> a \<in> dom V \<and> a \<notin> set xs"
| "lop_ok V (Append a) xs \<longleftrightarrow> a \<in> dom V \<and> a \<notin> set xs"
| "lop_ok V (Insert_inorder c a) xs \<longleftrightarrow> a \<in> dom V \<and> a \<notin> set xs"
| "lop_ok V (Delete a) xs \<longleftrightarrow> a \<in> set xs"
| "lop_ok V (Replace el a) xs \<longleftrightarrow> el \<in> set xs \<and> a \<in> dom V \<and> a \<notin> set xs"
| "lop_ok V (Prepend_elem el a) xs \<longleftrightarrow> el \<in> set xs \<and> a \<in> dom V \<and> a \<notin> set xs"
| "lop_ok V (Append_elem el a) xs \<longleftrightarrow> el \<in> set xs \<and> a \<in> dom V \<and> a \<notin> set xs"

fun lop_nodes :: "'k lop \<Rightarrow> addr set" where
  "lop_nodes (Prepend a) = {a}"
| "lop_nodes (Append a) = {a}"
| "lop_nodes (Insert_inorder c a) = {a}"
| "lop_nodes (Delete a) = {}"
| "lop_nodes (Replace el a) = {a}"
| "lop_nodes (Prepend_elem el a) = {a}"
| "lop_nodes (Append_elem el a) = {a}"

lemma set_put:
  "set (put_before el a xs) \<subseteq> insert a (set xs)" "set (put_after el a xs) \<subseteq> insert a (set xs)"
  "set (put_for el a xs) \<subseteq> insert a (set xs)" "set (put_inorder c a xs) \<subseteq> insert a (set xs)"
  by (induction xs) (auto simp: put_inorder_def dest: set_takeWhileD set_dropWhileD)

lemma spec_nodes: "set (lop_spec V x xs) \<subseteq> set xs \<union> lop_nodes x"
proof (cases x)
  case (Delete a)
  then show ?thesis using set_remove1_subset [of a xs] by simp
qed (use set_put in simp_all)

text \<open>The macros of one kind of list, and a history of calls.\<close>

record ('k, 'a) lmacros =
  m_prepend :: "addr option \<Rightarrow> addr option \<Rightarrow> ('k, 'a) lheap_scheme \<Rightarrow> ('k, 'a) lres"
  m_append :: "addr option \<Rightarrow> addr option \<Rightarrow> ('k, 'a) lheap_scheme \<Rightarrow> ('k, 'a) lres"
  m_insert :: "'k ncmp \<Rightarrow> addr option \<Rightarrow> addr option \<Rightarrow> ('k, 'a) lheap_scheme \<Rightarrow> ('k, 'a) lres"
  m_delete :: "addr option \<Rightarrow> addr option \<Rightarrow> ('k, 'a) lheap_scheme \<Rightarrow> ('k, 'a) lres"
  m_replace :: "addr option \<Rightarrow> addr option \<Rightarrow> addr option \<Rightarrow> ('k, 'a) lheap_scheme \<Rightarrow> ('k, 'a) lres"
  m_prepend_elem :: "addr option \<Rightarrow> addr option \<Rightarrow> addr option \<Rightarrow> ('k, 'a) lheap_scheme \<Rightarrow> ('k, 'a) lres"
  m_append_elem :: "addr option \<Rightarrow> addr option \<Rightarrow> addr option \<Rightarrow> ('k, 'a) lheap_scheme \<Rightarrow> ('k, 'a) lres"

fun lop_run :: "('k, 'a) lmacros \<Rightarrow> 'k lop \<Rightarrow> addr option \<Rightarrow> ('k, 'a) lheap_scheme \<Rightarrow> ('k, 'a) lres" where
  "lop_run M (Prepend a) h s = m_prepend M h (Some a) s"
| "lop_run M (Append a) h s = m_append M h (Some a) s"
| "lop_run M (Insert_inorder c a) h s = m_insert M c h (Some a) s"
| "lop_run M (Delete a) h s = m_delete M h (Some a) s"
| "lop_run M (Replace el a) h s = m_replace M h (Some el) (Some a) s"
| "lop_run M (Prepend_elem el a) h s = m_prepend_elem M h (Some el) (Some a) s"
| "lop_run M (Append_elem el a) h s = m_append_elem M h (Some el) (Some a) s"

fun lops_run :: "('k, 'a) lmacros \<Rightarrow> 'k lop list \<Rightarrow> addr option \<Rightarrow> ('k, 'a) lheap_scheme \<Rightarrow> ('k, 'a) lres" where
  "lops_run M [] h s = Inr (h, s)"
| "lops_run M (x # xs) h s = andThen (lop_run M x h s) (\<lambda>(h, s). lops_run M xs h s)"

fun lops_ok :: "(addr \<rightharpoonup> 'k) \<Rightarrow> 'k lop list \<Rightarrow> addr list \<Rightarrow> bool" where
  "lops_ok V [] xs \<longleftrightarrow> True"
| "lops_ok V (x # ops) xs \<longleftrightarrow> lop_ok V x xs \<and> lops_ok V ops (lop_spec V x xs)"

section \<open>The contract\<close>

locale list_macros =
  fixes M :: "('k, 'a) lmacros" and rep :: "('k, 'a) lheap_scheme \<Rightarrow> addr option \<Rightarrow> addr list \<Rightarrow> bool"
  assumes prepend_ok: "rep s h xs \<Longrightarrow> a \<in> dom (nodes s) \<Longrightarrow> a \<notin> set xs \<Longrightarrow>
      \<exists>h' s'. m_prepend M h (Some a) s = Inr (h', s') \<and> rep s' h' (a # xs) \<and> keeps (insert a (set xs)) s s'"
    and append_ok: "rep s h xs \<Longrightarrow> a \<in> dom (nodes s) \<Longrightarrow> a \<notin> set xs \<Longrightarrow>
      \<exists>h' s'. m_append M h (Some a) s = Inr (h', s') \<and> rep s' h' (xs @ [a]) \<and> keeps (insert a (set xs)) s s'"
    and insert_ok: "rep s h xs \<Longrightarrow> a \<in> dom (nodes s) \<Longrightarrow> a \<notin> set xs \<Longrightarrow>
      \<exists>h' s'. m_insert M c h (Some a) s = Inr (h', s') \<and> rep s' h' (put_inorder (val_cmp (vals s) c) a xs) \<and>
        keeps (insert a (set xs)) s s'"
    and delete_ok: "rep s h (us @ el # vs) \<Longrightarrow>
      \<exists>h' s'. m_delete M h (Some el) s = Inr (h', s') \<and> rep s' h' (us @ vs) \<and> keeps (set (us @ el # vs)) s s'"
    and replace_ok: "rep s h (us @ el # vs) \<Longrightarrow> a \<in> dom (nodes s) \<Longrightarrow> a \<notin> set (us @ el # vs) \<Longrightarrow>
      \<exists>h' s'. m_replace M h (Some el) (Some a) s = Inr (h', s') \<and> rep s' h' (us @ a # vs) \<and>
        keeps (insert a (set (us @ el # vs))) s s'"
    and prepend_elem_ok: "rep s h (us @ el # vs) \<Longrightarrow> a \<in> dom (nodes s) \<Longrightarrow> a \<notin> set (us @ el # vs) \<Longrightarrow>
      \<exists>h' s'. m_prepend_elem M h (Some el) (Some a) s = Inr (h', s') \<and> rep s' h' (us @ a # el # vs) \<and>
        keeps (insert a (set (us @ el # vs))) s s'"
    and append_elem_ok: "rep s h (us @ el # vs) \<Longrightarrow> a \<in> dom (nodes s) \<Longrightarrow> a \<notin> set (us @ el # vs) \<Longrightarrow>
      \<exists>h' s'. m_append_elem M h (Some el) (Some a) s = Inr (h', s') \<and> rep s' h' (us @ el # a # vs) \<and>
        keeps (insert a (set (us @ el # vs))) s s'"
    and rep_distinct: "rep s h xs \<Longrightarrow> distinct xs"
begin

lemma lop_run_ok:
  assumes "rep s h xs" "lop_ok (vals s) x xs"
  shows "\<exists>h' s'. lop_run M x h s = Inr (h', s') \<and> rep s' h' (lop_spec (vals s) x xs) \<and>
    keeps (set xs \<union> lop_nodes x) s s'"
proof -
  show ?thesis
  proof (cases x)
    case (Delete el)
    with assms(2) split_list_first [of el xs] obtain us vs where "xs = us @ el # vs" "el \<notin> set us" by auto
    with assms(1) delete_ok [of s h us el vs] put_at_split(4) [of el us vs] Delete show ?thesis by auto
  next
    case (Replace el a)
    with assms(2) split_list_first [of el xs] obtain us vs where "xs = us @ el # vs" "el \<notin> set us" by auto
    with assms replace_ok [of s h us el vs a] put_at_split(3) [of el us a vs] Replace show ?thesis by auto
  next
    case (Prepend_elem el a)
    with assms(2) split_list_first [of el xs] obtain us vs where "xs = us @ el # vs" "el \<notin> set us" by auto
    with assms prepend_elem_ok [of s h us el vs a] put_at_split(1) [of el us a vs] Prepend_elem show ?thesis by auto
  next
    case (Append_elem el a)
    with assms(2) split_list_first [of el xs] obtain us vs where "xs = us @ el # vs" "el \<notin> set us" by auto
    with assms append_elem_ok [of s h us el vs a] put_at_split(2) [of el us a vs] Append_elem show ?thesis by auto
  qed (use assms prepend_ok [of s h xs] append_ok [of s h xs] insert_ok [of s h xs] in auto)
qed

lemma lops_run_ok:
  assumes "rep s h xs" "lops_ok (vals s) ops xs"
  shows "\<exists>h' s'. lops_run M ops h s = Inr (h', s') \<and> rep s' h' (fold (lop_spec (vals s)) ops xs) \<and>
    keeps (set xs \<union> \<Union> (lop_nodes ` set ops)) s s'"
  using assms
proof (induction ops arbitrary: s h xs)
  case (Cons x ops)
  from Cons.prems lop_run_ok [of s h xs x] obtain h1 s1 where
    1: "lop_run M x h s = Inr (h1, s1)" "rep s1 h1 (lop_spec (vals s) x xs)" "keeps (set xs \<union> lop_nodes x) s s1" by auto
  note same = keepsD(1) [OF 1(3)]
  from Cons.IH [OF 1(2)] Cons.prems(2) same obtain h' s' where
    2: "lops_run M ops h1 s1 = Inr (h', s')" "rep s' h' (fold (lop_spec (vals s)) ops (lop_spec (vals s) x xs))"
      "keeps (set (lop_spec (vals s) x xs) \<union> \<Union> (lop_nodes ` set ops)) s1 s'" by auto
  have "set (lop_spec (vals s) x xs) \<subseteq> set xs \<union> lop_nodes x"
    using spec_nodes by blast
  with 1(1) 2 keeps_mono [OF keeps_trans [OF 1(3) 2(3)], of "set xs \<union> \<Union> (lop_nodes ` set (x # ops))"] show ?case by auto
qed simp

end

section \<open>Deleting while walking\<close>

text \<open>The body of a loop that takes out and frees the nodes whose fields satisfy \<open>P\<close>.\<close>

definition free_node :: "addr \<Rightarrow> ('k, 'a) lheap_scheme \<Rightarrow> ('k, 'a) lheap_scheme" where
  "free_node a s = s\<lparr>nodes := (nodes s)(a := None)\<rparr>"

definition drop_if :: "(addr option \<Rightarrow> addr option \<Rightarrow> ('k, 'a) lheap_scheme \<Rightarrow> ('k, 'a) lres) \<Rightarrow> ('k \<Rightarrow> bool) \<Rightarrow> addr \<Rightarrow>
    addr option \<times> ('k, 'a) lheap_scheme \<Rightarrow> ('k, 'a) lres" where
  "drop_if del P a hs = andThen (deref (nodes (snd hs)) (Some a)) (\<lambda>(_, x).
     if P (ln_val x) then andThen (del (fst hs) (Some a) (snd hs)) (\<lambda>(h, s). Inr (h, free_node a s)) else Inr hs)"

lemma free_node_sel [simp]:
  "tick (free_node a s) = tick s" "vals (free_node a s) = (vals s)(a := None)"
  "dom (nodes (free_node a s)) = dom (nodes s) - {a}"
  "x \<noteq> a \<Longrightarrow> lnxt (free_node a s) x = lnxt s x" "x \<noteq> a \<Longrightarrow> lprv (free_node a s) x = lprv s x"
  "x \<noteq> a \<Longrightarrow> nodes (free_node a s) x = nodes s x"
  by (auto simp: free_node_def vals_def lnxt_def lprv_def)

lemma numbered_free [simp]: "numbered s \<Longrightarrow> numbered (free_node a s)"
  by (simp add: numbered_def)

lemma nseg_free: "a \<notin> set xs \<Longrightarrow> nseg (lnxt (free_node a s)) xs q = nseg (lnxt s) xs q"
  by (rule nseg_cong, rule free_node_sel) metis

lemma pseg_free: "a \<notin> set xs \<Longrightarrow> pseg (lprv (free_node a s)) p xs = pseg (lprv s) p xs"
  by (rule pseg_cong, rule free_node_sel) metis

locale freeing_lists = list_macros +
  assumes rep_free: "rep s h xs \<Longrightarrow> a \<notin> set xs \<Longrightarrow> rep (free_node a s) h xs"
    and rep_dom: "rep s h xs \<Longrightarrow> set xs \<subseteq> dom (nodes s)"
begin

text \<open>One turn of the loop.\<close>

lemma drop_if_ok:
  assumes "rep s h (us @ x # vs)"
  shows "\<exists>h' s'. drop_if (m_delete M) P x (h, s) = Inr (h', s') \<and> tick s' = tick s \<and>
    rep s' h' (us @ (if P (the (vals s x)) then [] else [x]) @ vs) \<and>
    vals s' = (if P (the (vals s x)) then (vals s)(x := None) else vals s)"
proof -
  have x: "x \<in> dom (nodes s)" "x \<notin> set (us @ vs)" using rep_dom [OF assms] rep_distinct [OF assms] by auto
  then obtain n where n: "nodes s x = Some n" "the (vals s x) = ln_val n" by (auto simp: vals_def)
  show ?thesis
  proof (cases "P (ln_val n)")
    case True
    from delete_ok [OF assms] obtain h' s' where
      "m_delete M h (Some x) s = Inr (h', s')" "rep s' h' (us @ vs)" "keeps (set (us @ x # vs)) s s'" by blast
    with True n rep_free [of s' h' "us @ vs" x] x(2) show ?thesis by (auto simp: drop_if_def keepsD)
  next
    case False
    with n assms show ?thesis by (simp add: drop_if_def)
  qed
qed

end

text \<open>Lists that end: the next node is there to be read, or it is NULL.\<close>

locale linear_lists = freeing_lists +
  assumes rep_next: "rep s h (us @ x # vs) \<Longrightarrow> next_of (Some x) s = Inr (head_or vs None)"
begin

lemma safe_loop_ok:
  assumes "rep s h (ks @ xs)" "length xs \<le> n"
  shows "\<exists>h' s'. safe_loop (drop_if (m_delete M) P) n (head_or xs None) (h, s) = Inr (h', s') \<and>
    rep s' h' (ks @ filter (\<lambda>x. \<not> P (the (vals s x))) xs) \<and>
    vals s' = (\<lambda>x. if x \<in> set xs \<and> P (the (vals s x)) then None else vals s x)"
  using assms
proof (induction xs arbitrary: ks h s n)
  case (Cons x xs)
  then obtain m where n: "n = Suc m" by (cases n) auto
  let ?ks = "ks @ (if P (the (vals s x)) then [] else [x])"
  from drop_if_ok [OF Cons.prems(1), of P] obtain h1 s1 where
    1: "drop_if (m_delete M) P x (h, s) = Inr (h1, s1)" "rep s1 h1 (?ks @ xs)"
      "vals s1 = (if P (the (vals s x)) then (vals s)(x := None) else vals s)" by auto
  have "x \<notin> set xs" using rep_distinct [OF Cons.prems(1)] by simp
  then have same: "vals s1 y = vals s y" if "y \<in> set xs" for y using 1(3) that by auto
  then have f: "filter (\<lambda>y. \<not> P (the (vals s1 y))) xs = filter (\<lambda>y. \<not> P (the (vals s y))) xs"
    by (intro filter_cong) auto
  from Cons.IH [OF 1(2), of m] Cons.prems(2) n f obtain h' s' where
    2: "safe_loop (drop_if (m_delete M) P) m (head_or xs None) (h1, s1) = Inr (h', s')"
      "rep s' h' (?ks @ filter (\<lambda>y. \<not> P (the (vals s y))) xs)"
      "vals s' = (\<lambda>y. if y \<in> set xs \<and> P (the (vals s1 y)) then None else vals s1 y)" by auto
  have "safe_loop (drop_if (m_delete M) P) n (head_or (x # xs) None) (h, s) = Inr (h', s')"
    using 1(1) 2(1) rep_next [OF Cons.prems(1)] n by (simp add: safe_loop.simps [of _ "Suc m"])
  moreover have "vals s' = (\<lambda>y. if y \<in> set (x # xs) \<and> P (the (vals s y)) then None else vals s y)"
    using 2(3) 1(3) same by (auto simp: fun_eq_iff)
  ultimately show ?case using 2(2) by (cases "P (the (vals s x))") auto
qed (simp add: safe_loop.simps)

end

section \<open>A heap with five nodes\<close>

definition demo_lheap :: "int lheap" where
  "demo_lheap = \<lparr>tick = 10, log = [], live = {}, nodes = (\<lambda>a. if 2 \<le> a \<and> a \<le> 6
     then Some \<lparr>ln_val = int a, ln_prev = None, ln_next = None\<rparr> else None)\<rparr>"

lemma demo_lheap_sel:
  "tick demo_lheap = 10" "dom (nodes demo_lheap) = {2..6}" "numbered demo_lheap"
  "vals demo_lheap = (\<lambda>a. if 2 \<le> a \<and> a \<le> 6 then Some (int a) else None)"
  by (auto simp: demo_lheap_def numbered_def vals_def dom_def)

definition diff :: "int ncmp" where
  "diff x y = x - y"

definition demo_ops :: "int lop list" where
  "demo_ops = [Append 3, Prepend 5, Insert_inorder diff 4, Prepend_elem 5 2, Delete 5, Append_elem 3 6, Replace 2 5]"

lemma demo_ops_ok: "lops_ok (vals demo_lheap) demo_ops []"
  by (simp add: demo_ops_def demo_lheap_sel(4) put_inorder_def val_cmp_def diff_def dom_def)

lemma demo_ops_spec: "fold (lop_spec (vals demo_lheap)) demo_ops [] = [4, 5, 3, 6]"
  by (simp add: demo_ops_def demo_lheap_sel(4) put_inorder_def val_cmp_def diff_def dom_def)

end
