(* ===== verification/Utlist_LL.thy ===== *)
theory Utlist_LL
  imports Utlist_Rep
begin

text \<open>The macros for singly linked lists do to the list what they say.\<close>

definition ll_rep :: "('k, 'a) lheap_scheme \<Rightarrow> addr option \<Rightarrow> addr list \<Rightarrow> bool" where
  "ll_rep s h xs \<longleftrightarrow> h = head_or xs None \<and> nseg (lnxt s) xs None \<and> distinct xs \<and> set xs \<subseteq> dom (nodes s) \<and> numbered s"

lemma ll_repD:
  assumes "ll_rep s h xs"
  shows "h = head_or xs None" "nseg (lnxt s) xs None" "distinct xs" "set xs \<subseteq> dom (nodes s)" "numbered s"
    "length xs \<le> tick s"
  using assms numbered_length by (auto simp: ll_rep_def)

lemma ll_split:
  assumes "ll_rep s h (us @ el # vs)"
  shows "el \<in> dom (nodes s)" "lnxt s el = head_or vs None" "nseg (lnxt s) us (Some el)" "nseg (lnxt s) vs None"
    "el \<notin> set us" "el \<notin> set vs" "set us \<inter> set vs = {}" "distinct us" "distinct vs" "set us \<subseteq> dom (nodes s)"
    "set vs \<subseteq> dom (nodes s)"
  using assms by (auto simp: ll_rep_def nseg_append)

lemma ll_prepend_ok:
  assumes "ll_rep s h xs" "a \<in> dom (nodes s)" "a \<notin> set xs"
  shows "\<exists>h' s'. ll_prepend h (Some a) s = Inr (h', s') \<and> ll_rep s' h' (a # xs) \<and> keeps (insert a (set xs)) s s'"
  using assms by (auto simp: ll_prepend_def links_eq upd_links ll_rep_def)

text \<open>What the next two share: the last node of a list is made to point to the front of another one.\<close>

lemma join_ok:
  assumes "nseg (lnxt s) xs None" "xs \<noteq> []" "distinct xs" "set xs \<subseteq> dom (nodes s)" "length xs \<le> tick s"
  shows "andThen (walk_end (tick s) (Some (hd xs)) s) (\<lambda>tmp. andThen (to_next tmp q s) (\<lambda>s. Inr (h, s)))
      = Inr (h, upd_next (last xs) q s)" "nseg (lnxt (upd_next (last xs) q s)) xs q"
proof -
  obtain us u where xs: "xs = us @ [u]" using assms(2) by (cases xs rule: rev_cases) auto
  then have u: "u \<in> dom (nodes s)" using assms(4) by simp
  from walk_end_ok [OF assms(1,2,4), of "tick s"] assms(5) xs
  show "andThen (walk_end (tick s) (Some (hd xs)) s) (\<lambda>tmp. andThen (to_next tmp q s) (\<lambda>s. Inr (h, s)))
      = Inr (h, upd_next (last xs) q s)" by (simp add: links_eq [OF u])
  show "nseg (lnxt (upd_next (last xs) q s)) xs q"
    using assms(1,3) xs by (simp add: upd_links [OF u] nseg_append)
qed

lemma ll_append_ok:
  assumes "ll_rep s h xs" "a \<in> dom (nodes s)" "a \<notin> set xs"
  shows "\<exists>h' s'. ll_append h (Some a) s = Inr (h', s') \<and> ll_rep s' h' (xs @ [a]) \<and> keeps (insert a (set xs)) s s'"
proof (cases "xs = []")
  case True
  with assms show ?thesis by (auto simp: ll_append_def links_eq upd_links ll_rep_def)
next
  case False
  note r = ll_repD [OF assms(1)]
  let ?s = "upd_next a None s"
  have "nseg (lnxt ?s) xs None" using r(2) assms(2,3) by (simp add: upd_links)
  from join_ok(1) [OF this False r(3), where q = "Some a" and h = "Some (hd xs)"]
    join_ok(2) [OF this False r(3), where q = "Some a"] r False assms
  have j: "andThen (walk_end (tick ?s) (Some (hd xs)) ?s) (\<lambda>tmp. andThen (to_next tmp (Some a) ?s) (\<lambda>s. Inr (Some (hd xs), s)))
      = Inr (Some (hd xs), upd_next (last xs) (Some a) ?s)" "nseg (lnxt (upd_next (last xs) (Some a) ?s)) xs (Some a)"
    by auto
  have l: "last xs \<in> set xs" "last xs \<noteq> a" using False assms(3) last_in_set by metis+
  then have "last xs \<in> dom (nodes ?s)" using r(4) by auto
  then have "ll_rep (upd_next (last xs) (Some a) ?s) (Some (hd xs)) (xs @ [a])"
    using j(2) r assms False l by (simp add: ll_rep_def nseg_append upd_links)
  moreover have "keeps (insert a (set xs)) s (upd_next (last xs) (Some a) ?s)" using l(1) by auto
  ultimately show ?thesis using j(1) r(1) assms(2) False by (simp add: ll_append_def links_eq)
qed

lemma ll_concat_ok:
  assumes "ll_rep s h xs" "ll_rep s k ys" "set xs \<inter> set ys = {}"
  shows "\<exists>h' s'. ll_concat h k s = Inr (h', s') \<and> ll_rep s' h' (xs @ ys) \<and> keeps (set xs) s s'"
proof (cases "xs = []")
  case True
  with assms show ?thesis by (auto simp: ll_concat_def ll_rep_def)
next
  case False
  note r = ll_repD [OF assms(1)] and q = ll_repD [OF assms(2)]
  note j = join_ok(1) [OF r(2) False r(3,4,6), where q = k and h = "Some (hd xs)"]
    join_ok(2) [OF r(2) False r(3,4,6), where q = k]
  have l: "last xs \<in> set xs" using False by simp
  then have "last xs \<in> dom (nodes s)" "last xs \<notin> set ys" using r(4) assms(3) by auto
  then have "ll_rep (upd_next (last xs) k s) (Some (hd xs)) (xs @ ys)"
    using j(2) r q assms(3) False by (simp add: ll_rep_def nseg_append upd_links)
  with j(1) r(1) False l show ?thesis by (auto simp: ll_concat_def)
qed

lemma ll_append_elem_ok:
  assumes "ll_rep s h (us @ el # vs)" "a \<in> dom (nodes s)" "a \<notin> set (us @ el # vs)"
  shows "\<exists>h' s'. ll_append_elem h (Some el) (Some a) s = Inr (h', s') \<and> ll_rep s' h' (us @ el # a # vs) \<and>
    keeps (insert a (set (us @ el # vs))) s s'"
proof -
  note r = ll_repD [OF assms(1)] and e = ll_split [OF assms(1)]
  let ?s = "upd_next el (Some a) (upd_next a (head_or vs None) s)"
  have "ll_append_elem h (Some el) (Some a) s = Inr (h, ?s)"
    using r(1) e(1,2) assms(2) by (cases us) (simp_all add: ll_append_elem_def c_assert_def links_eq)
  moreover have "ll_rep ?s h (us @ el # a # vs)"
    using r(1,5) e assms(2,3) by (simp add: ll_rep_def nseg_append upd_links)
  moreover have "keeps (insert a (set (us @ el # vs))) s ?s" by auto
  ultimately show ?thesis by blast
qed

text \<open>\<open>add\<close>, which points to \<open>q\<close> already, takes the place behind the node before \<open>el\<close>.\<close>

lemma link_before_ok:
  assumes "ll_rep s h (us @ el # vs)" "a \<in> dom (nodes s)" "a \<notin> set (us @ el # vs)"
  shows "\<exists>h' s'. ll_link_before h (Some el) (Some a) (upd_next a q s) = Inr (h', s') \<and> h' = head_or us (Some a) \<and>
    nseg (lnxt s') us (Some a) \<and> lnxt s' a = q \<and> (\<forall>x. x \<notin> insert a (set us) \<longrightarrow> lnxt s' x = lnxt s x) \<and>
    keeps (insert a (set us)) s s'"
proof (cases us rule: rev_cases)
  case Nil
  with ll_repD(1) [OF assms(1)] assms(2) show ?thesis by (auto simp: ll_link_before_def upd_links)
next
  case (snoc ws u)
  note r = ll_repD [OF assms(1)] and e = ll_split [OF assms(1)]
  let ?s = "upd_next a q s"
  have dom: "u \<in> dom (nodes ?s)" "set us \<subseteq> dom (nodes ?s)" and ne: "us \<noteq> []" "last us = u" using e(10) snoc by auto
  have "nseg (lnxt ?s) (us @ el # vs) None" using r(2) assms(2,3) by (simp add: upd_links)
  from walk_before_ok [OF this ne(1) e(5) dom(2), of "tick ?s"] r(6) ne(2)
  have w: "walk_before (tick ?s) (Some (hd us)) (Some el) ?s = Inr (Some u)" by simp
  have u: "lnxt ?s u = Some el" "u \<noteq> a" "u \<noteq> el" "hd us \<noteq> el" "u \<notin> set ws"
    using e(3,5,8) assms(2,3) snoc ne(1) hd_in_set [OF ne(1)] by (auto simp: upd_links nseg_append)
  have h: "h = Some (hd us)" using r(1) ne(1) by simp
  then have "ll_link_before h (Some el) (Some a) ?s = Inr (h, upd_next u (Some a) ?s)"
    using w u by (simp add: ll_link_before_def links_eq [OF dom(1)])
  moreover have "nseg (lnxt (upd_next u (Some a) ?s)) us (Some a)"
    using e(3,8) assms(2,3) snoc u dom by (simp add: upd_links nseg_append)
  moreover have "lnxt (upd_next u (Some a) ?s) a = q" using u(2) assms(2) dom(1) by (simp add: upd_links)
  moreover have "\<forall>x. x \<notin> insert a (set us) \<longrightarrow> lnxt (upd_next u (Some a) ?s) x = lnxt s x"
    using dom(1) assms(2) snoc by (auto simp: upd_links)
  moreover have "keeps (insert a (set us)) s (upd_next u (Some a) ?s)" using snoc by auto
  ultimately show ?thesis using h ne(1) by simp
qed

lemma ll_replace_elem_ok:
  assumes "ll_rep s h (us @ el # vs)" "a \<in> dom (nodes s)" "a \<notin> set (us @ el # vs)"
  shows "\<exists>h' s'. ll_replace_elem h (Some el) (Some a) s = Inr (h', s') \<and> ll_rep s' h' (us @ a # vs) \<and>
    keeps (insert a (set (us @ el # vs))) s s'"
proof -
  note r = ll_repD [OF assms(1)] and e = ll_split [OF assms(1)]
  from link_before_ok [OF assms, of "head_or vs None"] obtain h' s' where l:
    "ll_link_before h (Some el) (Some a) (upd_next a (head_or vs None) s) = Inr (h', s')" "h' = head_or us (Some a)"
    "nseg (lnxt s') us (Some a)" "lnxt s' a = head_or vs None"
    "\<forall>x. x \<notin> insert a (set us) \<longrightarrow> lnxt s' x = lnxt s x" "keeps (insert a (set us)) s s'" by blast
  have "nseg (lnxt s') vs None = nseg (lnxt s) vs None"
    by (rule nseg_cong) (use l(5) e(7) assms(3) in auto)
  with l e r assms have "ll_rep s' h' (us @ a # vs)"
    by (auto simp: ll_rep_def nseg_append keepsD numbered_keeps)
  moreover have "keeps (insert a (set (us @ el # vs))) s s'" by (rule keeps_mono [OF l(6)]) auto
  moreover have "ll_replace_elem h (Some el) (Some a) s = Inr (h', s')"
    using l(1) r(1) e(1,2) assms(2) by (cases us) (simp_all add: ll_replace_elem_def c_assert_def links_eq)
  ultimately show ?thesis by blast
qed

lemma ll_prepend_elem_ok:
  assumes "ll_rep s h (us @ el # vs)" "a \<in> dom (nodes s)" "a \<notin> set (us @ el # vs)"
  shows "\<exists>h' s'. ll_prepend_elem h (Some el) (Some a) s = Inr (h', s') \<and> ll_rep s' h' (us @ a # el # vs) \<and>
    keeps (insert a (set (us @ el # vs))) s s'"
proof -
  note r = ll_repD [OF assms(1)] and e = ll_split [OF assms(1)]
  from link_before_ok [OF assms, of "Some el"] obtain h' s' where l:
    "ll_link_before h (Some el) (Some a) (upd_next a (Some el) s) = Inr (h', s')" "h' = head_or us (Some a)"
    "nseg (lnxt s') us (Some a)" "lnxt s' a = Some el"
    "\<forall>x. x \<notin> insert a (set us) \<longrightarrow> lnxt s' x = lnxt s x" "keeps (insert a (set us)) s s'" by blast
  have "nseg (lnxt s') (el # vs) None = nseg (lnxt s) (el # vs) None"
    by (rule nseg_cong) (use l(5) e(5,7) assms(3) in auto)
  with l e r assms have "ll_rep s' h' (us @ a # el # vs)"
    by (auto simp: ll_rep_def nseg_append keepsD numbered_keeps)
  moreover have "keeps (insert a (set (us @ el # vs))) s s'" by (rule keeps_mono [OF l(6)]) auto
  moreover have "ll_prepend_elem h (Some el) (Some a) s = Inr (h', s')"
    using l(1) r(1) e(1) assms(2) by (cases us) (simp_all add: ll_prepend_elem_def c_assert_def links_eq)
  ultimately show ?thesis by blast
qed

text \<open>The lower bound is the last node of the run of smaller ones at the front.\<close>

lemma lower_bound_ok:
  assumes "ll_rep s h xs" "a \<in> dom (nodes s)"
  shows "ll_lower_bound c h (Some a) s = Inr (last_or None (takeWhile (\<lambda>x. val_cmp (vals s) c x a < 0) xs))"
proof (cases xs)
  case Nil
  with ll_repD(1) [OF assms(1)] show ?thesis by (simp add: ll_lower_bound_def)
next
  case (Cons x ys)
  note r = ll_repD [OF assms(1)]
  have x: "x \<in> dom (nodes s)" using r(4) Cons by simp
  show ?thesis
  proof (cases "val_cmp (vals s) c x a < 0")
    case True
    with bound_loop_ok [OF assms(2) r(2) _ _ r(4), of "tick s" c] r(6) Cons
    have "bound_loop c None (Some a) (tick s) (Some x) s
      = Inr (Some (last (takeWhile (\<lambda>x. val_cmp (vals s) c x a < 0) xs)))" by simp
    with True r(1) Cons x assms(2) show ?thesis
      by (simp add: ll_lower_bound_def node_cmp_eq val_cmp_def)
  next
    case False
    with r(1) Cons x assms(2) show ?thesis
      by (simp add: ll_lower_bound_def node_cmp_eq val_cmp_def not_less)
  qed
qed

text \<open>The insertion from the two macros it calls, which every kind of list has in this way.\<close>

lemma inorder_ok:
  assumes "lb = Inr (last_or None (takeWhile P xs))"
    and "\<exists>h' s'. app None = Inr (h', s') \<and> R h' s' (a # xs)"
    and "\<And>us el vs. xs = us @ el # vs \<Longrightarrow> \<exists>h' s'. app (Some el) = Inr (h', s') \<and> R h' s' (us @ el # a # vs)"
  shows "\<exists>h' s'. andThen lb app = Inr (h', s') \<and> R h' s' (takeWhile P xs @ a # dropWhile P xs)"
proof (cases "takeWhile P xs" rule: rev_cases)
  case Nil
  then have "dropWhile P xs = xs" by (metis append_Nil takeWhile_dropWhile_id)
  with Nil assms(1,2) show ?thesis by simp
next
  case (snoc us el)
  then have "xs = us @ el # dropWhile P xs" by (metis append.assoc append_Cons append_Nil takeWhile_dropWhile_id)
  from assms(3) [OF this] snoc assms(1) show ?thesis by simp
qed

lemma ll_insert_inorder_ok:
  assumes "ll_rep s h xs" "a \<in> dom (nodes s)" "a \<notin> set xs"
  shows "\<exists>h' s'. ll_insert_inorder c h (Some a) s = Inr (h', s') \<and>
    ll_rep s' h' (put_inorder (val_cmp (vals s) c) a xs) \<and> keeps (insert a (set xs)) s s'"
proof (cases "xs = []")
  case True
  with assms show ?thesis by (auto simp: ll_insert_inorder_def put_inorder_def links_eq upd_links ll_rep_def)
next
  case False
  let ?P = "\<lambda>x. val_cmp (vals s) c x a < 0"
  let ?R = "\<lambda>h' s' ys. ll_rep s' h' ys \<and> keeps (insert a (set xs)) s s'"
  have "\<exists>h' s'. andThen (ll_lower_bound c h (Some a) s) (\<lambda>tmp. ll_append_elem h tmp (Some a) s) = Inr (h', s') \<and>
      ?R h' s' (takeWhile ?P xs @ a # dropWhile ?P xs)"
  proof (rule inorder_ok [where R = ?R])
    show "ll_lower_bound c h (Some a) s = Inr (last_or None (takeWhile ?P xs))" by (rule lower_bound_ok [OF assms(1,2)])
    show "\<exists>h' s'. ll_append_elem h None (Some a) s = Inr (h', s') \<and> ?R h' s' (a # xs)"
      using ll_prepend_ok [OF assms] by (simp add: ll_append_elem_def)
    show "\<exists>h' s'. ll_append_elem h (Some el) (Some a) s = Inr (h', s') \<and> ?R h' s' (us @ el # a # vs)"
      if "xs = us @ el # vs" for us el vs
      using ll_append_elem_ok [of s h us el vs a] assms that by simp
  qed
  with False ll_repD(1) [OF assms(1)] show ?thesis by (simp add: ll_insert_inorder_def put_inorder_def)
qed

lemma ll_delete_ok:
  assumes "ll_rep s h (us @ el # vs)"
  shows "\<exists>h' s'. ll_delete h (Some el) s = Inr (h', s') \<and> ll_rep s' h' (us @ vs) \<and> keeps (set (us @ el # vs)) s s'"
proof (cases us rule: rev_cases)
  case Nil
  with ll_repD(1) [OF assms] ll_split [OF assms] show ?thesis
    using assms by (auto simp: ll_delete_def links_eq ll_rep_def)
next
  case (snoc ws u)
  note r = ll_repD [OF assms] and e = ll_split [OF assms]
  have ne: "us \<noteq> []" "last us = u" "hd us \<noteq> el" and u: "u \<in> dom (nodes s)" "lnxt s u = Some el" "u \<notin> set ws" "u \<noteq> el"
    using e(3,5,8,10) snoc hd_in_set [of us] by (auto simp: nseg_append)
  from walk_before_ok [OF r(2) ne(1) e(5,10), of "tick s"] r(6) ne(2) snoc
  have w: "walk_before (tick s) (Some (hd us)) (Some el) s = Inr (Some u)" by simp
  have h: "h = Some (hd us)" using r(1) ne(1) by simp
  let ?s = "upd_next u (head_or vs None) s"
  have "ll_delete h (Some el) s = Inr (h, ?s)"
    using w h u ne e(1,2) by (simp add: ll_delete_def links_eq)
  moreover have "ll_rep ?s h (us @ vs)"
    using r e u snoc by (auto simp: ll_rep_def nseg_append upd_links)
  moreover have "keeps (set (us @ el # vs)) s ?s" using snoc by simp
  ultimately show ?thesis by blast
qed

text \<open>A node that is not in the list is not deleted from it.\<close>

lemma walk_before_absent:
  "nseg (lnxt s) xs None \<Longrightarrow> xs \<noteq> [] \<Longrightarrow> el \<notin> set xs \<Longrightarrow> set xs \<subseteq> dom (nodes s) \<Longrightarrow> length xs \<le> Suc n \<Longrightarrow>
    walk_before n (Some (hd xs)) (Some el) s = Inr (Some (last xs))"
proof (induction xs arbitrary: n)
  case (Cons x xs)
  have x: "x \<in> dom (nodes s)" using Cons.prems by simp
  show ?case
  proof (cases xs)
    case Nil
    with Cons.prems show ?thesis by (simp add: walk_before.simps links_eq [OF x])
  next
    case (Cons y ys)
    with Cons.prems obtain m where "n = Suc m" by (cases n) auto
    with Cons Cons.prems Cons.IH [of m] show ?thesis by (simp add: walk_before.simps [of "Suc m"] links_eq [OF x])
  qed
qed simp

lemma ll_delete_absent:
  assumes "ll_rep s h xs" "el \<notin> set xs"
  shows "ll_delete h (Some el) s = (if xs = [] then Inl NullDeref else Inr (h, s))"
proof (cases "xs = []")
  case False
  note r = ll_repD [OF assms(1)]
  obtain us u where xs: "xs = us @ [u]" using False by (cases xs rule: rev_cases) auto
  have "u \<in> dom (nodes s)" "lnxt s u = None" using r(2,4) xs by (simp_all add: nseg_append)
  moreover have "walk_before (tick s) (Some (hd xs)) (Some el) s = Inr (Some u)"
    using walk_before_absent [OF r(2) False assms(2) r(4), of "tick s"] r(6) xs by simp
  moreover have "h = Some (hd xs)" "hd xs \<noteq> el" using r(1) False assms(2) hd_in_set [OF False] by auto
  ultimately show ?thesis using False by (simp add: ll_delete_def links_eq)
qed (use ll_repD(1) [OF assms(1)] in \<open>simp add: ll_delete_def walk_before.simps next_of_def\<close>)

section \<open>Histories\<close>

definition ll_macros :: "('k, 'a) lmacros" where
  "ll_macros = \<lparr>m_prepend = ll_prepend, m_append = ll_append, m_insert = ll_insert_inorder, m_delete = ll_delete,
     m_replace = ll_replace_elem, m_prepend_elem = ll_prepend_elem, m_append_elem = ll_append_elem\<rparr>"

lemmas ll_ops_ok = ll_prepend_ok ll_append_ok ll_insert_inorder_ok ll_delete_ok ll_replace_elem_ok ll_prepend_elem_ok
  ll_append_elem_ok

lemma ll_rep_free: "ll_rep s h xs \<Longrightarrow> a \<notin> set xs \<Longrightarrow> ll_rep (free_node a s) h xs"
  by (auto simp: ll_rep_def nseg_free)

lemma ll_rep_next: "ll_rep s h (us @ x # vs) \<Longrightarrow> next_of (Some x) s = Inr (head_or vs None)"
  using ll_split [of s h us x vs] by (simp add: links_eq)

interpretation ll: linear_lists ll_macros ll_rep
  by (unfold_locales; (unfold ll_macros_def lmacros.select_convs)?;
      (rule ll_ops_ok ll_repD(3) ll_repD(4) ll_rep_next; assumption | rule ll_rep_free; assumption))

lemma ll_demo: "ll_rep demo_lheap None []"
  by (simp add: ll_rep_def demo_lheap_sel)

text \<open>Counting and searching.\<close>

lemma ll_count_ok: "ll_rep s h xs \<Longrightarrow> ll_count h s = Inr (length xs)"
  using foreach_ok [of s xs "tick s"] ll_repD [of s h xs] by (simp add: ll_count_def)

lemma ll_search_ok:
  assumes "ll_rep s h xs" "a \<in> dom (nodes s)"
  shows "ll_search c (Some a) h s = Inr (find (\<lambda>x. val_cmp (vals s) c x a = 0) xs)"
proof -
  note r = ll_repD [OF assms(1)]
  let ?fits = "\<lambda>out s. andThen (node_cmp c out (Some a) s) (\<lambda>d. Inr (d = 0))"
  have "?fits (Some x) s = Inr (val_cmp (vals s) c x a = 0)" if "x \<in> set xs" for x
    using that r(4) assms(2) by (simp add: node_cmp_eq val_cmp_def subset_iff)
  from search_loop_ok [where fits = ?fits, OF this r(2,4,6)] show ?thesis by (simp add: ll_search_def r(1))
qed

lemma ll_search_scalar_ok:
  assumes "ll_rep s h xs"
  shows "ll_search_scalar f v h s = Inr (find (\<lambda>x. f (the (vals s x)) = v) xs)"
proof -
  note r = ll_repD [OF assms]
  let ?fits = "\<lambda>out s. andThen (deref (nodes s) out) (\<lambda>(_, y). Inr (f (ln_val y) = v))"
  have "?fits (Some x) s = Inr (f (the (vals s x)) = v)" if "x \<in> set xs" for x
    using that r(4) by (auto simp: vals_def subset_iff dom_def)
  from search_loop_ok [where fits = ?fits, OF this r(2,4,6)] show ?thesis by (simp add: ll_search_scalar_def r(1))
qed

end
