(* ===== verification/Utlist_DL.thy ===== *)
theory Utlist_DL
  imports Utlist_LL
begin

text \<open>
  The macros for doubly linked lists of \<^verbatim>\<open>local_lib/utlist.h\<close>: the last node has no next one, and the
  previous one of the first is the last.
\<close>

section \<open>The macros\<close>

definition dl_prepend :: "addr option \<Rightarrow> addr option \<Rightarrow> ('k, 'a) lheap_scheme \<Rightarrow> ('k, 'a) lres" where
  "dl_prepend head add s =
     andThen (to_next add head s) (\<lambda>s.
     andThen (if head \<noteq> None
         then andThen (prev_of head s) (\<lambda>p. andThen (to_prev add p s) (\<lambda>s. to_prev head add s))
         else to_prev add add s)
       (\<lambda>s. Inr (add, s)))"

definition dl_append :: "addr option \<Rightarrow> addr option \<Rightarrow> ('k, 'a) lheap_scheme \<Rightarrow> ('k, 'a) lres" where
  "dl_append head add s =
     (if head \<noteq> None
      then andThen (prev_of head s) (\<lambda>p. andThen (to_prev add p s) (\<lambda>s.
        andThen (prev_of head s) (\<lambda>p. andThen (to_next p add s) (\<lambda>s.
        andThen (to_prev head add s) (\<lambda>s. andThen (to_next add None s) (\<lambda>s. Inr (head, s)))))))
      else andThen (to_prev add add s) (\<lambda>s. andThen (to_next add None s) (\<lambda>s. Inr (add, s))))"

definition dl_lower_bound ::
  "'k ncmp \<Rightarrow> addr option \<Rightarrow> addr option \<Rightarrow> ('k, 'a) lheap_scheme \<Rightarrow> addr option res" where
  "dl_lower_bound cmp head like s =
     (if head = None then Inr None
      else andThen (node_cmp cmp head like s) (\<lambda>d. if 0 \<le> d then Inr None
        else bound_loop cmp None like (tick s) head s))"

definition dl_append_elem ::
  "addr option \<Rightarrow> addr option \<Rightarrow> addr option \<Rightarrow> ('k, 'a) lheap_scheme \<Rightarrow> ('k, 'a) lres" where
  "dl_append_elem head el add s =
     (if el \<noteq> None
      then c_assert (head \<noteq> None) (c_assert (add \<noteq> None)
        (andThen (next_of el s) (\<lambda>nx. andThen (to_next add nx s) (\<lambda>s.
         andThen (to_prev add el s) (\<lambda>s. andThen (to_next el add s) (\<lambda>s.
         andThen (next_of add s) (\<lambda>nx.
         andThen (if nx \<noteq> None then to_prev nx add s else to_prev head add s) (\<lambda>s. Inr (head, s)))))))))
      else dl_prepend head add s)"

definition dl_insert_inorder ::
  "'k ncmp \<Rightarrow> addr option \<Rightarrow> addr option \<Rightarrow> ('k, 'a) lheap_scheme \<Rightarrow> ('k, 'a) lres" where
  "dl_insert_inorder cmp head add s =
     (if head \<noteq> None
      then andThen (dl_lower_bound cmp head add s) (\<lambda>tmp. dl_append_elem head tmp add s)
      else andThen (to_prev add add s) (\<lambda>s. andThen (to_next add None s) (\<lambda>s. Inr (add, s))))"

definition dl_concat :: "addr option \<Rightarrow> addr option \<Rightarrow> ('k, 'a) lheap_scheme \<Rightarrow> ('k, 'a) lres" where
  "dl_concat head1 head2 s =
     (if head2 \<noteq> None
      then if head1 \<noteq> None
        then andThen (prev_of head2 s) (\<lambda>tmp.
          andThen (prev_of head1 s) (\<lambda>p. andThen (to_prev head2 p s) (\<lambda>s.
          andThen (prev_of head1 s) (\<lambda>p. andThen (to_next p head2 s) (\<lambda>s.
          andThen (to_prev head1 tmp s) (\<lambda>s. Inr (head1, s)))))))
        else Inr (head2, s)
      else Inr (head1, s))"

definition dl_delete :: "addr option \<Rightarrow> addr option \<Rightarrow> ('k, 'a) lheap_scheme \<Rightarrow> ('k, 'a) lres" where
  "dl_delete head del s =
     c_assert (head \<noteq> None) (andThen (prev_of del s) (\<lambda>p. c_assert (p \<noteq> None)
       (if p = del then Inr (None, s)
        else if del = head
        then andThen (next_of del s) (\<lambda>nx. andThen (to_prev nx p s) (\<lambda>s.
          andThen (next_of del s) (\<lambda>nx. Inr (nx, s))))
        else andThen (next_of del s) (\<lambda>nx. andThen (to_next p nx s) (\<lambda>s.
          andThen (next_of del s) (\<lambda>nx. andThen (prev_of del s) (\<lambda>p.
          andThen (if nx \<noteq> None then to_prev nx p s else to_prev head p s) (\<lambda>s. Inr (head, s)))))))))"

definition dl_count :: "addr option \<Rightarrow> ('k, 'a) lheap_scheme \<Rightarrow> nat res" where
  "dl_count head s = andThen (foreach (tick s) head s) (\<lambda>as. Inr (length as))"

definition dl_replace_elem ::
  "addr option \<Rightarrow> addr option \<Rightarrow> addr option \<Rightarrow> ('k, 'a) lheap_scheme \<Rightarrow> ('k, 'a) lres" where
  "dl_replace_elem head el add s =
     c_assert (head \<noteq> None) (c_assert (el \<noteq> None) (c_assert (add \<noteq> None)
       (andThen (next_of el s) (\<lambda>nx. andThen (to_next add nx s) (\<lambda>s.
        andThen (next_of el s) (\<lambda>nx.
        if head = el
        then andThen (if nx = None then to_prev add add s
            else andThen (prev_of el s) (\<lambda>p. andThen (to_prev add p s) (\<lambda>s.
              andThen (next_of add s) (\<lambda>nx. to_prev nx add s))))
          (\<lambda>s. Inr (add, s))
        else andThen (prev_of el s) (\<lambda>p. andThen (to_prev add p s) (\<lambda>s.
          andThen (prev_of add s) (\<lambda>p. andThen (to_next p add s) (\<lambda>s.
          andThen (next_of el s) (\<lambda>nx.
          andThen (if nx = None then to_prev head add s
              else andThen (next_of add s) (\<lambda>nx. to_prev nx add s))
            (\<lambda>s. Inr (head, s)))))))))))))"

definition dl_prepend_elem ::
  "addr option \<Rightarrow> addr option \<Rightarrow> addr option \<Rightarrow> ('k, 'a) lheap_scheme \<Rightarrow> ('k, 'a) lres" where
  "dl_prepend_elem head el add s =
     (if el \<noteq> None
      then c_assert (head \<noteq> None) (c_assert (add \<noteq> None)
        (andThen (to_next add el s) (\<lambda>s.
         andThen (prev_of el s) (\<lambda>p. andThen (to_prev add p s) (\<lambda>s.
         andThen (to_prev el add s) (\<lambda>s.
           if head = el then Inr (add, s)
           else andThen (prev_of add s) (\<lambda>p. andThen (to_next p add s) (\<lambda>s. Inr (head, s)))))))))
      else dl_append head add s)"

section \<open>Rings\<close>

text \<open>The previous links run around: the first node points back to the last one.\<close>

definition pring :: "('a \<Rightarrow> 'a option) \<Rightarrow> 'a list \<Rightarrow> bool" where
  "pring pv xs \<longleftrightarrow> pseg pv (last_or None xs) xs"

lemma pring_single [simp]: "pring (pv(a := Some a)) [a]"
  by (simp add: pring_def)

lemma pring_insert:
  assumes "pring pv (us @ vs)" "us @ vs \<noteq> []" "distinct (us @ vs)" "a \<notin> set (us @ vs)"
  shows "pring (pv(a := Some (last (vs @ us)), hd (vs @ us) := Some a)) (us @ a # vs)"
proof (cases vs)
  case Nil
  with assms show ?thesis by (cases us) (auto simp: pring_def pseg_append last_or_def)
next
  case (Cons v ws)
  with assms show ?thesis by (auto simp: pring_def pseg_append last_or_def)
qed

lemma pring_replace:
  assumes "pring pv (us @ el # vs)" "us @ vs \<noteq> []" "distinct (us @ el # vs)" "a \<notin> set (us @ el # vs)"
  shows "pring (pv(a := pv el, hd (vs @ us) := Some a)) (us @ a # vs)" "pv el = Some (last (vs @ us))"
proof -
  show "pring (pv(a := pv el, hd (vs @ us) := Some a)) (us @ a # vs)"
    using assms by (cases vs; cases us) (auto simp: pring_def pseg_append last_or_def)
  show "pv el = Some (last (vs @ us))"
    using assms by (cases us) (auto simp: pring_def pseg_append last_or_def)
qed

lemma pring_remove:
  assumes "pring pv (us @ el # vs)" "us @ vs \<noteq> []" "distinct (us @ el # vs)"
  shows "pring (pv(hd (vs @ us) := pv el)) (us @ vs)" "pv el = Some (last (vs @ us))"
proof -
  show "pring (pv(hd (vs @ us) := pv el)) (us @ vs)"
    using assms by (cases vs; cases us) (auto simp: pring_def pseg_append last_or_def)
  show "pv el = Some (last (vs @ us))"
    using assms by (cases us) (auto simp: pring_def pseg_append last_or_def)
qed

lemma pring_concat:
  assumes "pring pv xs" "pring pv ys" "xs \<noteq> []" "ys \<noteq> []" "distinct (xs @ ys)"
  shows "pring (pv(hd ys := Some (last xs), hd xs := Some (last ys))) (xs @ ys)"
  using assms by (cases xs; cases ys) (auto simp: pring_def pseg_append last_or_def)

lemma pring_hd: "pring pv xs \<Longrightarrow> xs \<noteq> [] \<Longrightarrow> pv (hd xs) = Some (last xs)"
  by (cases xs) (auto simp: pring_def)

lemma nseg_insert:
  assumes "nseg nx (us @ vs) q" "distinct (us @ vs)" "a \<notin> set (us @ vs)"
  shows "nseg (put (nx(a := head_or vs q)) (last_or None us) (Some a)) (us @ a # vs) q"
  using assms by (cases us rule: rev_cases) (auto simp: nseg_append)

lemma nseg_replace:
  assumes "nseg nx (us @ el # vs) q" "distinct (us @ el # vs)" "a \<notin> set (us @ el # vs)"
  shows "nseg (put (nx(a := head_or vs q)) (last_or None us) (Some a)) (us @ a # vs) q"
  using assms by (cases us rule: rev_cases) (auto simp: nseg_append)

lemma nseg_remove:
  assumes "nseg nx (us @ el # vs) q" "distinct (us @ el # vs)"
  shows "nseg (put nx (last_or None us) (head_or vs q)) (us @ vs) q"
  using assms by (cases us rule: rev_cases) (auto simp: nseg_append)

section \<open>Correctness\<close>

definition dl_rep :: "('k, 'a) lheap_scheme \<Rightarrow> addr option \<Rightarrow> addr list \<Rightarrow> bool" where
  "dl_rep s h xs \<longleftrightarrow> ll_rep s h xs \<and> pring (lprv s) xs"

lemma dl_repD:
  assumes "dl_rep s h xs"
  shows "h = head_or xs None" "nseg (lnxt s) xs None" "pring (lprv s) xs" "distinct xs" "set xs \<subseteq> dom (nodes s)"
    "numbered s" "length xs \<le> tick s"
  using assms ll_repD [of s h xs] by (auto simp: dl_rep_def)

lemma dl_ends:
  assumes "dl_rep s h xs" "xs \<noteq> []"
  shows "h = Some (hd xs)" "hd xs \<in> dom (nodes s)" "last xs \<in> dom (nodes s)" "lprv s (hd xs) = Some (last xs)"
proof -
  note r = dl_repD [OF assms(1)]
  show "h = Some (hd xs)" "lprv s (hd xs) = Some (last xs)" using r(1) pring_hd [OF r(3)] assms(2) by simp_all
  show "hd xs \<in> dom (nodes s)" "last xs \<in> dom (nodes s)"
    using r(5) hd_in_set [OF assms(2)] last_in_set [OF assms(2)] by blast+
qed

lemma dl_prepend_ok:
  assumes "dl_rep s h xs" "a \<in> dom (nodes s)" "a \<notin> set xs"
  shows "\<exists>h' s'. dl_prepend h (Some a) s = Inr (h', s') \<and> dl_rep s' h' (a # xs) \<and> keeps (insert a (set xs)) s s'"
proof (cases xs)
  case Nil
  with assms show ?thesis by (auto simp: dl_prepend_def dl_rep_def ll_rep_def links_eq upd_links)
next
  case (Cons x ys)
  note r = dl_repD [OF assms(1)]
  have x: "x \<in> dom (nodes s)" "h = Some x" "x \<noteq> a" "lprv s x = Some (last xs)" using r(1,5) pring_hd [OF r(3)] Cons assms(3) by auto
  let ?s = "upd_prev x (Some a) (upd_prev a (Some (last xs)) (upd_next a h s))"
  have "dl_prepend h (Some a) s = Inr (Some a, ?s)"
    using x assms(2) by (simp add: dl_prepend_def links_eq)
  moreover have "dl_rep ?s (Some a) (a # xs)"
    using pring_insert [of "lprv s" "[]" xs a] r x assms(2,3) Cons by (simp add: dl_rep_def ll_rep_def upd_links)
  moreover have "keeps (insert a (set xs)) s ?s" using Cons by simp
  ultimately show ?thesis by blast
qed

lemma dl_append_ok:
  assumes "dl_rep s h xs" "a \<in> dom (nodes s)" "a \<notin> set xs"
  shows "\<exists>h' s'. dl_append h (Some a) s = Inr (h', s') \<and> dl_rep s' h' (xs @ [a]) \<and> keeps (insert a (set xs)) s s'"
proof (cases "xs = []")
  case True
  with assms show ?thesis by (auto simp: dl_append_def dl_rep_def ll_rep_def links_eq upd_links)
next
  case False
  note r = dl_repD [OF assms(1)]
  note x = dl_ends [OF assms(1) False]
  have ne: "hd xs \<noteq> a" "last xs \<noteq> a" using assms(3) hd_in_set [OF False] last_in_set [OF False] by auto
  let ?s = "upd_next a None (upd_prev (hd xs) (Some a) (upd_next (last xs) (Some a) (upd_prev a (Some (last xs)) s)))"
  have "dl_append h (Some a) s = Inr (h, ?s)"
    using x ne assms(2) by (simp add: dl_append_def links_eq upd_links)
  moreover have "dl_rep ?s h (xs @ [a])"
    using pring_insert [of "lprv s" xs "[]" a] nseg_insert [of "lnxt s" xs "[]" None a] r x ne assms(2,3) False
    by (simp add: dl_rep_def ll_rep_def upd_links fun_upd_twist [of a])
  moreover have "keeps (insert a (set xs)) s ?s" using False by simp
  ultimately show ?thesis by blast
qed

lemma dl_append_elem_ok:
  assumes "dl_rep s h (us @ el # vs)" "a \<in> dom (nodes s)" "a \<notin> set (us @ el # vs)"
  shows "\<exists>h' s'. dl_append_elem h (Some el) (Some a) s = Inr (h', s') \<and> dl_rep s' h' (us @ el # a # vs) \<and>
    keeps (insert a (set (us @ el # vs))) s s'"
proof -
  note r = dl_repD [OF assms(1)] and e = ll_split [OF assms(1) [unfolded dl_rep_def, THEN conjunct1]]
  let ?n = "hd (vs @ us @ [el])"
  have n: "?n \<in> set (us @ el # vs)" "h = Some (hd (us @ [el]))" using r(1) by (cases vs; cases us; simp)+
  then have n': "?n \<in> dom (nodes s)" "?n \<noteq> a" "el \<noteq> a" using r(5) assms(3) by auto
  let ?s = "upd_prev ?n (Some a) (upd_next el (Some a) (upd_prev a (Some el) (upd_next a (head_or vs None) s)))"
  have "dl_append_elem h (Some el) (Some a) s = Inr (h, ?s)"
    using n(2) n' e(1,2) assms(2)
    by (cases vs; cases us) (simp_all add: dl_append_elem_def c_assert_def links_eq upd_links)
  moreover have "dl_rep ?s h (us @ el # a # vs)"
    using pring_insert [of "lprv s" "us @ [el]" vs a] nseg_insert [of "lnxt s" "us @ [el]" vs None a] r e(1) n' assms(2,3)
    by (simp add: dl_rep_def ll_rep_def upd_links last_or_def)
  moreover have "keeps (insert a (set (us @ el # vs))) s ?s" using n(1) by simp
  ultimately show ?thesis by blast
qed

lemma dl_prepend_elem_ok:
  assumes "dl_rep s h (us @ el # vs)" "a \<in> dom (nodes s)" "a \<notin> set (us @ el # vs)"
  shows "\<exists>h' s'. dl_prepend_elem h (Some el) (Some a) s = Inr (h', s') \<and> dl_rep s' h' (us @ a # el # vs) \<and>
    keeps (insert a (set (us @ el # vs))) s s'"
proof -
  note r = dl_repD [OF assms(1)] and e = ll_split [OF assms(1) [unfolded dl_rep_def, THEN conjunct1]]
  have "us @ el # vs \<noteq> []" by simp
  note x = dl_ends [OF assms(1) this]
  have p: "lprv s el = Some (last (el # vs @ us))"
    using r(3) by (cases us rule: rev_cases) (auto simp: pring_def pseg_append)
  have ne: "el \<noteq> a" "last (el # vs @ us) \<in> set (us @ el # vs)" using assms(3) last_in_set [of "el # vs @ us"] by auto
  then have l: "last (el # vs @ us) \<in> dom (nodes s)" "last (el # vs @ us) \<noteq> a" using r(5) assms(3) by auto
  let ?s0 = "upd_prev el (Some a) (upd_prev a (Some (last (el # vs @ us))) (upd_next a (Some el) s))"
  let ?s = "if us = [] then ?s0 else upd_next (last us) (Some a) ?s0"
  have "dl_prepend_elem h (Some el) (Some a) s = Inr (head_or us (Some a), ?s)"
    using x(1) e(1,5) l ne(1) p assms(2) hd_in_set [of us]
    by (auto simp: dl_prepend_elem_def c_assert_def links_eq upd_links)
  moreover have "dl_rep ?s (head_or us (Some a)) (us @ a # el # vs)"
    using pring_insert [of "lprv s" us "el # vs" a] nseg_insert [of "lnxt s" us "el # vs" None a] r e(1) l ne(1) assms(2,3)
    by (cases "us = []") (simp_all add: dl_rep_def ll_rep_def upd_links last_or_def)
  moreover have "keeps (insert a (set (us @ el # vs))) s ?s" by auto
  ultimately show ?thesis by blast
qed

lemma dl_replace_elem_ok:
  assumes "dl_rep s h (us @ el # vs)" "a \<in> dom (nodes s)" "a \<notin> set (us @ el # vs)"
  shows "\<exists>h' s'. dl_replace_elem h (Some el) (Some a) s = Inr (h', s') \<and> dl_rep s' h' (us @ a # vs) \<and>
    keeps (insert a (set (us @ el # vs))) s s'"
proof -
  note r = dl_repD [OF assms(1)] and e = ll_split [OF assms(1) [unfolded dl_rep_def, THEN conjunct1]]
  have "us @ el # vs \<noteq> []" by simp
  note x = dl_ends [OF assms(1) this]
  have ne: "el \<noteq> a" "us \<noteq> [] \<Longrightarrow> hd us \<noteq> el" using assms(3) e(5) hd_in_set [of us] by auto
  show ?thesis
  proof (cases "us @ vs = []")
    case True
    let ?s = "upd_prev a (Some a) (upd_next a None s)"
    have "dl_replace_elem h (Some el) (Some a) s = Inr (Some a, ?s)"
      using True x(1) e(1,2) ne(1) assms(2) by (simp add: dl_replace_elem_def c_assert_def links_eq upd_links)
    moreover have "dl_rep ?s (Some a) (us @ a # vs)" using True r(6) assms(2) by (simp add: dl_rep_def ll_rep_def upd_links)
    moreover have "keeps (insert a (set (us @ el # vs))) s ?s" by simp
    ultimately show ?thesis by blast
  next
    case False
    let ?p = "last (vs @ us)" and ?n = "hd (vs @ us)"
    note pr = pring_replace [OF r(3) False r(4) assms(3)]
    have pn: "?p \<in> set (us @ vs)" "?n \<in> set (us @ vs)" using False last_in_set [of "vs @ us"] hd_in_set [of "vs @ us"] by auto
    then have dn: "?p \<in> dom (nodes s)" "?p \<noteq> a" "?n \<in> dom (nodes s)" "?n \<noteq> a" "?n \<noteq> el" "?p \<noteq> el"
      using r(4,5) assms(3) by auto
    let ?s0 = "upd_prev a (Some ?p) (upd_next a (head_or vs None) s)"
    let ?s = "upd_prev ?n (Some a) (if us = [] then ?s0 else upd_next (last us) (Some a) ?s0)"
    have "dl_replace_elem h (Some el) (Some a) s = Inr (head_or us (Some a), ?s)"
      using x(1) e(1,2) ne dn pr(2) assms(2) False
      by (cases "us = []"; cases "vs = []") (simp_all add: dl_replace_elem_def c_assert_def links_eq upd_links)
    moreover have "dl_rep ?s (head_or us (Some a)) (us @ a # vs)"
      using pr nseg_replace [OF r(2,4) assms(3)] r dn assms(2,3)
      by (cases "us = []") (simp_all add: dl_rep_def ll_rep_def upd_links last_or_def)
    moreover have "keeps (insert a (set (us @ el # vs))) s ?s" using pn by auto
    ultimately show ?thesis by blast
  qed
qed

lemma dl_delete_ok:
  assumes "dl_rep s h (us @ el # vs)"
  shows "\<exists>h' s'. dl_delete h (Some el) s = Inr (h', s') \<and> dl_rep s' h' (us @ vs) \<and> keeps (set (us @ el # vs)) s s'"
proof -
  note r = dl_repD [OF assms] and e = ll_split [OF assms [unfolded dl_rep_def, THEN conjunct1]]
  have "us @ el # vs \<noteq> []" by simp
  note x = dl_ends [OF assms this]
  show ?thesis
  proof (cases "us @ vs = []")
    case True
    with r(3) have "lprv s el = Some el" by (simp add: pring_def)
    with True x(1) e(1) have "dl_delete h (Some el) s = Inr (None, s)"
      by (simp add: dl_delete_def c_assert_def links_eq)
    with True r(6) show ?thesis by (simp add: dl_rep_def ll_rep_def pring_def)
  next
    case False
    let ?p = "last (vs @ us)" and ?n = "hd (vs @ us)"
    note pr = pring_remove [OF r(3) False r(4)]
    have pn: "?p \<in> set (us @ vs)" "?n \<in> set (us @ vs)" using False last_in_set [of "vs @ us"] hd_in_set [of "vs @ us"] by auto
    then have dn: "?p \<in> dom (nodes s)" "?n \<in> dom (nodes s)" "?n \<noteq> el" "?p \<noteq> el" using r(4,5) by auto
    have ne: "us \<noteq> [] \<Longrightarrow> hd us \<noteq> el" using e(5) hd_in_set [of us] by auto
    let ?s = "upd_prev ?n (Some ?p) (if us = [] then s else upd_next (last us) (head_or vs None) s)"
    have "dl_delete h (Some el) s = Inr (head_or (us @ vs) None, ?s)"
      using x(1) e(1,2) ne dn pr(2) False
      by (cases "us = []"; cases "vs = []") (simp_all add: dl_delete_def c_assert_def links_eq upd_links)
    moreover have "dl_rep ?s (head_or (us @ vs) None) (us @ vs)"
      using pr nseg_remove [OF r(2,4)] r dn
      by (cases "us = []") (simp_all add: dl_rep_def ll_rep_def upd_links)
    moreover have "keeps (set (us @ el # vs)) s ?s" using pn by auto
    ultimately show ?thesis by blast
  qed
qed

lemma dl_concat_ok:
  assumes "dl_rep s h xs" "dl_rep s k ys" "set xs \<inter> set ys = {}"
  shows "\<exists>h' s'. dl_concat h k s = Inr (h', s') \<and> dl_rep s' h' (xs @ ys) \<and> keeps (set xs \<union> set ys) s s'"
proof (cases "xs = [] \<or> ys = []")
  case True
  with assms show ?thesis using dl_repD(1) [OF assms(1)] dl_repD(1) [OF assms(2)] by (auto simp: dl_concat_def)
next
  case False
  then have ne: "xs \<noteq> []" "ys \<noteq> []" by auto
  note r = dl_repD [OF assms(1)] and q = dl_repD [OF assms(2)] and x = dl_ends [OF assms(1) ne(1)] and y = dl_ends [OF assms(2) ne(2)]
  have m: "hd xs \<in> set xs" "last xs \<in> set xs" "hd ys \<in> set ys" "last ys \<in> set ys" using ne by simp_all
  then have d: "hd xs \<noteq> hd ys" "last xs \<noteq> hd ys" "last xs \<notin> set ys" using assms(3) by auto
  let ?s = "upd_prev (hd xs) (Some (last ys)) (upd_next (last xs) k (upd_prev (hd ys) (Some (last xs)) s))"
  have "dl_concat h k s = Inr (h, ?s)" using x y d by (simp add: dl_concat_def links_eq upd_links)
  moreover have "nseg ((lnxt s)(last xs := k)) (xs @ ys) None"
    using r(2,4) q(1,2) d(3) ne by (cases xs rule: rev_cases) (auto simp: nseg_append)
  then have "dl_rep ?s h (xs @ ys)"
    using pring_concat [OF r(3) q(3) ne] r(1,4-6) q(4,5) assms(3) x y ne by (simp add: dl_rep_def ll_rep_def upd_links)
  moreover have "keeps (set xs \<union> set ys) s ?s" using m by simp
  ultimately show ?thesis by blast
qed

lemma dl_insert_inorder_ok:
  assumes "dl_rep s h xs" "a \<in> dom (nodes s)" "a \<notin> set xs"
  shows "\<exists>h' s'. dl_insert_inorder c h (Some a) s = Inr (h', s') \<and>
    dl_rep s' h' (put_inorder (val_cmp (vals s) c) a xs) \<and> keeps (insert a (set xs)) s s'"
proof (cases "xs = []")
  case True
  with assms show ?thesis by (auto simp: dl_insert_inorder_def put_inorder_def links_eq upd_links dl_rep_def ll_rep_def)
next
  case False
  let ?P = "\<lambda>x. val_cmp (vals s) c x a < 0"
  let ?R = "\<lambda>h' s' ys. dl_rep s' h' ys \<and> keeps (insert a (set xs)) s s'"
  have "\<exists>h' s'. andThen (dl_lower_bound c h (Some a) s) (\<lambda>tmp. dl_append_elem h tmp (Some a) s) = Inr (h', s') \<and>
      ?R h' s' (takeWhile ?P xs @ a # dropWhile ?P xs)"
  proof (rule inorder_ok [where R = ?R])
    show "dl_lower_bound c h (Some a) s = Inr (last_or None (takeWhile ?P xs))" 
      using lower_bound_ok [of s h xs a c] assms(1,2)
      by (simp add: dl_rep_def dl_lower_bound_def ll_lower_bound_def)
    show "\<exists>h' s'. dl_append_elem h None (Some a) s = Inr (h', s') \<and> ?R h' s' (a # xs)"
      using dl_prepend_ok [OF assms] by (simp add: dl_append_elem_def)
    show "\<exists>h' s'. dl_append_elem h (Some el) (Some a) s = Inr (h', s') \<and> ?R h' s' (us @ el # a # vs)"
      if "xs = us @ el # vs" for us el vs
      using dl_append_elem_ok [of s h us el vs a] assms that by simp
  qed
  with False dl_repD(1) [OF assms(1)] show ?thesis by (simp add: dl_insert_inorder_def put_inorder_def)
qed

section \<open>Histories\<close>

definition dl_macros :: "('k, 'a) lmacros" where
  "dl_macros = \<lparr>m_prepend = dl_prepend, m_append = dl_append, m_insert = dl_insert_inorder, m_delete = dl_delete,
     m_replace = dl_replace_elem, m_prepend_elem = dl_prepend_elem, m_append_elem = dl_append_elem\<rparr>"

lemmas dl_ops_ok = dl_prepend_ok dl_append_ok dl_insert_inorder_ok dl_delete_ok dl_replace_elem_ok dl_prepend_elem_ok
  dl_append_elem_ok

lemma dl_rep_free: "dl_rep s h xs \<Longrightarrow> a \<notin> set xs \<Longrightarrow> dl_rep (free_node a s) h xs"
  by (simp add: dl_rep_def ll_rep_free pring_def pseg_free)

lemma dl_rep_next: "dl_rep s h (us @ x # vs) \<Longrightarrow> next_of (Some x) s = Inr (head_or vs None)"
  unfolding dl_rep_def by (blast intro: ll_rep_next)

interpretation dl: linear_lists dl_macros dl_rep
  by (unfold_locales; (unfold dl_macros_def lmacros.select_convs)?;
      (rule dl_ops_ok dl_repD(4) dl_repD(5) dl_rep_next; assumption | rule dl_rep_free; assumption))

lemma dl_count_ok: "dl_rep s h xs \<Longrightarrow> dl_count h s = Inr (length xs)"
  using ll_count_ok [of s h xs] by (simp add: dl_rep_def dl_count_def ll_count_def)

text \<open>
  A \<open>DL_FOREACH_SAFE\<close> loop whose body deletes and frees the nodes that satisfy a predicate never
  touches a freed node, and leaves the list of the others, in their order.
\<close>

theorem dl_safe_deletion:
  assumes "dl_rep s h xs"
  shows "\<exists>h' s'. foreach_safe (drop_if dl_delete P) h s = Inr (h', s') \<and>
    dl_rep s' h' (filter (\<lambda>x. \<not> P (the (vals s x))) xs) \<and>
    vals s' = (\<lambda>x. if x \<in> set xs \<and> P (the (vals s x)) then None else vals s x)"
  using dl.safe_loop_ok [of s h "[]" xs "tick s" P] assms dl_repD(1,7) [OF assms]
  by (simp add: foreach_safe_def dl_macros_def)

lemma dl_demo: "dl_rep demo_lheap None []"
  by (simp add: dl_rep_def ll_demo pring_def)

text \<open>A list of four nodes for the witnesses.\<close>

lemma dl_four: "\<exists>h (s :: int lheap). dl_rep s h [4, 5, 3, 6] \<and> vals s = vals demo_lheap"
  using dl.lops_run_ok [OF dl_demo demo_ops_ok] unfolding demo_ops_spec by (blast dest: keepsD(1))

theorem dl_safe_deletion_witness:
  "\<exists>h (s :: int lheap) h' s'. dl_rep s h [4, 5, 3, 6] \<and> foreach_safe (drop_if dl_delete (\<lambda>v. 4 < (v :: int))) h s = Inr (h', s') \<and>
     dl_rep s' h' [4, 3]"
proof -
  from dl_four obtain h and s :: "int lheap" where s: "dl_rep s h [4, 5, 3, 6]" "vals s = vals demo_lheap" by blast
  have "filter (\<lambda>x. \<not> 4 < the (vals s x)) [4, 5, 3, 6] = [4, 3]" by (simp add: s(2) demo_lheap_sel(4))
  with dl_safe_deletion [OF s(1), of "\<lambda>v. 4 < v"] obtain h' s' where
    "foreach_safe (drop_if dl_delete (\<lambda>v. 4 < v)) h s = Inr (h', s')" "dl_rep s' h' [4, 3]" by auto
  with s(1) show ?thesis by blast
qed

end
