(* ===== verification/Utlist_CDL.thy ===== *)
theory Utlist_CDL
  imports Utlist_DL
begin

text \<open>
  The macros for circular doubly linked lists of \<^verbatim>\<open>local_lib/utlist.h\<close>: the last node points on to the
  first one, too, and a walk ends where it would come back to the head.
\<close>

section \<open>The macros\<close>

text \<open>The middle that \<open>CDL_APPEND2\<close> and \<open>CDL_PREPEND2\<close> share: \<open>add\<close> between the last node and the head.\<close>

definition cdl_link :: "addr option \<Rightarrow> addr option \<Rightarrow> ('k, 'a) lheap_scheme \<Rightarrow> ('k, 'a) lheap_scheme res" where
  "cdl_link head add s =
     (if head \<noteq> None
      then andThen (prev_of head s) (\<lambda>p. andThen (to_prev add p s) (\<lambda>s. andThen (to_next add head s) (\<lambda>s.
        andThen (to_prev head add s) (\<lambda>s. andThen (prev_of add s) (\<lambda>p. to_next p add s)))))
      else andThen (to_prev add add s) (\<lambda>s. to_next add add s))"

definition cdl_append :: "addr option \<Rightarrow> addr option \<Rightarrow> ('k, 'a) lheap_scheme \<Rightarrow> ('k, 'a) lres" where
  "cdl_append head add s = andThen (cdl_link head add s) (\<lambda>s. Inr (if head \<noteq> None then head else add, s))"

definition cdl_prepend :: "addr option \<Rightarrow> addr option \<Rightarrow> ('k, 'a) lheap_scheme \<Rightarrow> ('k, 'a) lres" where
  "cdl_prepend head add s = andThen (cdl_link head add s) (\<lambda>s. Inr (add, s))"

definition cdl_lower_bound ::
  "'k ncmp \<Rightarrow> addr option \<Rightarrow> addr option \<Rightarrow> ('k, 'a) lheap_scheme \<Rightarrow> addr option res" where
  "cdl_lower_bound cmp head like s =
     (if head = None then Inr None
      else andThen (node_cmp cmp head like s) (\<lambda>d. if 0 \<le> d then Inr None
        else bound_loop cmp head like (tick s) head s))"

definition cdl_append_elem ::
  "addr option \<Rightarrow> addr option \<Rightarrow> addr option \<Rightarrow> ('k, 'a) lheap_scheme \<Rightarrow> ('k, 'a) lres" where
  "cdl_append_elem head el add s =
     (if el \<noteq> None
      then c_assert (head \<noteq> None) (c_assert (add \<noteq> None)
        (andThen (next_of el s) (\<lambda>nx. andThen (to_next add nx s) (\<lambda>s.
         andThen (to_prev add el s) (\<lambda>s. andThen (to_next el add s) (\<lambda>s.
         andThen (next_of add s) (\<lambda>nx. andThen (to_prev nx add s) (\<lambda>s. Inr (head, s)))))))))
      else cdl_prepend head add s)"

definition cdl_insert_inorder ::
  "'k ncmp \<Rightarrow> addr option \<Rightarrow> addr option \<Rightarrow> ('k, 'a) lheap_scheme \<Rightarrow> ('k, 'a) lres" where
  "cdl_insert_inorder cmp head add s =
     (if head \<noteq> None
      then andThen (cdl_lower_bound cmp head add s) (\<lambda>tmp. cdl_append_elem head tmp add s)
      else andThen (to_next add add s) (\<lambda>s. andThen (to_prev add add s) (\<lambda>s. Inr (add, s))))"

definition cdl_delete :: "addr option \<Rightarrow> addr option \<Rightarrow> ('k, 'a) lheap_scheme \<Rightarrow> ('k, 'a) lres" where
  "cdl_delete head del s =
     andThen (if head = del then andThen (next_of head s) (\<lambda>nx. Inr (nx = head)) else Inr False) (\<lambda>alone.
       if alone then Inr (None, s)
       else andThen (next_of del s) (\<lambda>nx. andThen (prev_of del s) (\<lambda>p. andThen (to_prev nx p s) (\<lambda>s.
         andThen (prev_of del s) (\<lambda>p. andThen (next_of del s) (\<lambda>nx. andThen (to_next p nx s) (\<lambda>s.
         if del = head then andThen (next_of del s) (\<lambda>nx. Inr (nx, s)) else Inr (head, s))))))))"

definition cdl_replace_elem ::
  "addr option \<Rightarrow> addr option \<Rightarrow> addr option \<Rightarrow> ('k, 'a) lheap_scheme \<Rightarrow> ('k, 'a) lres" where
  "cdl_replace_elem head el add s =
     c_assert (head \<noteq> None) (c_assert (el \<noteq> None) (c_assert (add \<noteq> None)
       (andThen (next_of el s) (\<lambda>nx.
        if nx = el
        then andThen (to_next add add s) (\<lambda>s. andThen (to_prev add add s) (\<lambda>s. Inr (add, s)))
        else andThen (to_next add nx s) (\<lambda>s.
          andThen (prev_of el s) (\<lambda>p. andThen (to_prev add p s) (\<lambda>s.
          andThen (next_of add s) (\<lambda>nx. andThen (to_prev nx add s) (\<lambda>s.
          andThen (prev_of add s) (\<lambda>p. andThen (to_next p add s) (\<lambda>s.
            Inr (if head = el then add else head, s))))))))))))"

definition cdl_prepend_elem ::
  "addr option \<Rightarrow> addr option \<Rightarrow> addr option \<Rightarrow> ('k, 'a) lheap_scheme \<Rightarrow> ('k, 'a) lres" where
  "cdl_prepend_elem head el add s =
     (if el \<noteq> None
      then c_assert (head \<noteq> None) (c_assert (add \<noteq> None)
        (andThen (to_next add el s) (\<lambda>s.
         andThen (prev_of el s) (\<lambda>p. andThen (to_prev add p s) (\<lambda>s.
         andThen (to_prev el add s) (\<lambda>s.
         andThen (prev_of add s) (\<lambda>p. andThen (to_next p add s) (\<lambda>s.
           Inr (if head = el then add else head, s)))))))))
      else cdl_append head add s)"

text \<open>\<open>CDL_FOREACH_SAFE2\<close>: \<open>tmp1\<close> is the last node at the start.\<close>

fun cdl_safe_loop :: "(addr \<Rightarrow> addr option \<times> ('k, 'a) lheap_scheme \<Rightarrow> ('k, 'a) lres) \<Rightarrow> addr option \<Rightarrow> nat \<Rightarrow>
    addr option \<Rightarrow> addr option \<times> ('k, 'a) lheap_scheme \<Rightarrow> ('k, 'a) lres" where
  "cdl_safe_loop body tmp1 n el hs =
     (case el of None \<Rightarrow> Inr hs
      | Some a \<Rightarrow> (case n of 0 \<Rightarrow> Inl Diverge
        | Suc n \<Rightarrow> andThen (next_of el (snd hs)) (\<lambda>tmp2. andThen (body a hs) (\<lambda>hs.
            cdl_safe_loop body tmp1 n (if el = tmp1 then None else tmp2) hs))))"

declare cdl_safe_loop.simps [simp del]

definition cdl_foreach_safe :: "(addr \<Rightarrow> addr option \<times> ('k, 'a) lheap_scheme \<Rightarrow> ('k, 'a) lres) \<Rightarrow>
    addr option \<Rightarrow> ('k, 'a) lheap_scheme \<Rightarrow> ('k, 'a) lres" where
  "cdl_foreach_safe body head s =
     andThen (if head \<noteq> None then prev_of head s else Inr None) (\<lambda>tmp1.
       cdl_safe_loop body tmp1 (tick s) head (head, s))"

text \<open>\<open>for (el = head; el; el = (el->next == head) ? NULL : el->next)\<close>\<close>

definition cdl_next :: "addr option \<Rightarrow> addr option \<Rightarrow> ('k, 'a) lheap_scheme \<Rightarrow> addr option res" where
  "cdl_next head el s = andThen (next_of el s) (\<lambda>nx. if nx = head then Inr None else next_of el s)"

fun cdl_foreach :: "addr option \<Rightarrow> nat \<Rightarrow> addr option \<Rightarrow> ('k, 'a) lheap_scheme \<Rightarrow> addr list res" where
  "cdl_foreach head n el s =
     (case el of None \<Rightarrow> Inr []
      | Some a \<Rightarrow> (case n of 0 \<Rightarrow> Inl Diverge
        | Suc n \<Rightarrow> andThen (cdl_next head el s) (\<lambda>el. andThen (cdl_foreach head n el s) (\<lambda>as. Inr (a # as)))))"

definition cdl_count :: "addr option \<Rightarrow> ('k, 'a) lheap_scheme \<Rightarrow> nat res" where
  "cdl_count head s = andThen (cdl_foreach head (tick s) head s) (\<lambda>as. Inr (length as))"

fun cdl_search_loop :: "(addr option \<Rightarrow> ('k, 'a) lheap_scheme \<Rightarrow> bool res) \<Rightarrow> addr option \<Rightarrow> nat \<Rightarrow> addr option \<Rightarrow>
    ('k, 'a) lheap_scheme \<Rightarrow> addr option res" where
  "cdl_search_loop fits head n out s =
     (if out = None then Inr None
      else andThen (fits out s) (\<lambda>b. if b then Inr out
        else (case n of 0 \<Rightarrow> Inl Diverge
          | Suc n \<Rightarrow> andThen (cdl_next head out s) (\<lambda>out. cdl_search_loop fits head n out s))))"

declare cdl_foreach.simps [simp del] cdl_search_loop.simps [simp del]

definition cdl_search_scalar ::
  "('k \<Rightarrow> 'v) \<Rightarrow> 'v \<Rightarrow> addr option \<Rightarrow> ('k, 'a) lheap_scheme \<Rightarrow> addr option res" where
  "cdl_search_scalar field val head s =
     cdl_search_loop (\<lambda>out s. andThen (deref (nodes s) out) (\<lambda>(_, x). Inr (field (ln_val x) = val))) head (tick s) head s"

definition cdl_search ::
  "'k ncmp \<Rightarrow> addr option \<Rightarrow> addr option \<Rightarrow> ('k, 'a) lheap_scheme \<Rightarrow> addr option res" where
  "cdl_search cmp elt head s =
     cdl_search_loop (\<lambda>out s. andThen (node_cmp cmp out elt s) (\<lambda>d. Inr (d = 0))) head (tick s) head s"

section \<open>Rings\<close>

definition nring :: "('a \<Rightarrow> 'a option) \<Rightarrow> 'a list \<Rightarrow> bool" where
  "nring nx xs \<longleftrightarrow> nseg nx xs (head_or xs None)"

lemma nring_single [simp]: "nring (nx(a := Some a)) [a]"
  by (simp add: nring_def)

lemma hd_snoc: "Some (hd (ys @ [y])) = head_or ys (Some y)"
  by (cases ys) simp_all

lemma nring_insert:
  assumes "nring nx (us @ vs)" "us @ vs \<noteq> []" "distinct (us @ vs)" "a \<notin> set (us @ vs)"
  shows "nring (nx(a := Some (hd (vs @ us)), last (vs @ us) := Some a)) (us @ a # vs)"
proof (cases us rule: rev_cases)
  case Nil
  with assms show ?thesis by (cases vs rule: rev_cases) (auto simp: nring_def nseg_append hd_snoc)
next
  case (snoc ws u)
  with assms show ?thesis by (cases vs) (auto simp: nring_def nseg_append hd_snoc)
qed

lemma nring_replace:
  assumes "nring nx (us @ el # vs)" "us @ vs \<noteq> []" "distinct (us @ el # vs)" "a \<notin> set (us @ el # vs)"
  shows "nring (nx(a := nx el, last (vs @ us) := Some a)) (us @ a # vs)" "nx el = Some (hd (vs @ us))"
proof -
  show "nring (nx(a := nx el, last (vs @ us) := Some a)) (us @ a # vs)"
    using assms by (cases vs rule: rev_cases; cases us rule: rev_cases) (auto simp: nring_def nseg_append)
  show "nx el = Some (hd (vs @ us))"
    using assms by (cases vs) (auto simp: nring_def nseg_append)
qed

lemma nring_remove:
  assumes "nring nx (us @ el # vs)" "us @ vs \<noteq> []" "distinct (us @ el # vs)"
  shows "nring (nx(last (vs @ us) := nx el)) (us @ vs)" "nx el = Some (hd (vs @ us))"
proof -
  show "nring (nx(last (vs @ us) := nx el)) (us @ vs)"
    using assms by (cases vs rule: rev_cases; cases us rule: rev_cases) (auto simp: nring_def nseg_append)
  show "nx el = Some (hd (vs @ us))"
    using assms by (cases vs) (auto simp: nring_def nseg_append)
qed

lemma nring_last: "nring nx xs \<Longrightarrow> xs \<noteq> [] \<Longrightarrow> nx (last xs) = Some (hd xs)"
  by (cases xs rule: rev_cases) (auto simp: nring_def nseg_append hd_snoc)

section \<open>Correctness\<close>

definition cdl_rep :: "('k, 'a) lheap_scheme \<Rightarrow> addr option \<Rightarrow> addr list \<Rightarrow> bool" where
  "cdl_rep s h xs \<longleftrightarrow> h = head_or xs None \<and> nring (lnxt s) xs \<and> pring (lprv s) xs \<and> distinct xs \<and>
     set xs \<subseteq> dom (nodes s) \<and> numbered s"

lemma cdl_repD:
  assumes "cdl_rep s h xs"
  shows "h = head_or xs None" "nring (lnxt s) xs" "pring (lprv s) xs" "distinct xs" "set xs \<subseteq> dom (nodes s)"
    "numbered s" "length xs \<le> tick s"
  using assms numbered_length by (auto simp: cdl_rep_def)

lemma cdl_ends:
  assumes "cdl_rep s h xs" "xs \<noteq> []"
  shows "h = Some (hd xs)" "hd xs \<in> dom (nodes s)" "last xs \<in> dom (nodes s)" "lprv s (hd xs) = Some (last xs)"
    "lnxt s (last xs) = Some (hd xs)"
proof -
  note r = cdl_repD [OF assms(1)]
  show "h = Some (hd xs)" "lprv s (hd xs) = Some (last xs)" "lnxt s (last xs) = Some (hd xs)"
    using r(1) pring_hd [OF r(3)] nring_last [OF r(2)] assms(2) by simp_all
  show "hd xs \<in> dom (nodes s)" "last xs \<in> dom (nodes s)"
    using r(5) hd_in_set [OF assms(2)] last_in_set [OF assms(2)] by blast+
qed

text \<open>The two neighbours of a gap in the ring, and of a node of it.\<close>

lemma cdl_gap:
  assumes "cdl_rep s h (us @ vs)" "us @ vs \<noteq> []" "a \<notin> set (us @ vs)"
  shows "last (vs @ us) \<in> dom (nodes s)" "hd (vs @ us) \<in> dom (nodes s)" "last (vs @ us) \<noteq> a" "hd (vs @ us) \<noteq> a"
    "last (vs @ us) \<in> set (us @ vs)" "hd (vs @ us) \<in> set (us @ vs)"
proof -
  show m: "last (vs @ us) \<in> set (us @ vs)" "hd (vs @ us) \<in> set (us @ vs)"
    using assms(2) last_in_set [of "vs @ us"] hd_in_set [of "vs @ us"] by auto
  then show "last (vs @ us) \<in> dom (nodes s)" "hd (vs @ us) \<in> dom (nodes s)" "last (vs @ us) \<noteq> a" "hd (vs @ us) \<noteq> a"
    using cdl_repD(5) [OF assms(1)] assms(3) by auto
qed

text \<open>A node has been put into the gap.\<close>

lemma cdl_insert:
  assumes "cdl_rep s h (us @ vs)" "us @ vs \<noteq> []" "a \<in> dom (nodes s)" "a \<notin> set (us @ vs)"
    and "lnxt s' = (lnxt s)(a := Some (hd (vs @ us)), last (vs @ us) := Some a)"
    and "lprv s' = (lprv s)(a := Some (last (vs @ us)), hd (vs @ us) := Some a)"
    and "keeps (insert a (set (us @ vs))) s s'"
  shows "cdl_rep s' (head_or us (Some a)) (us @ a # vs)"
  using assms nring_insert [of "lnxt s" us vs a] pring_insert [of "lprv s" us vs a] cdl_repD [OF assms(1)]
    keepsD(4) [OF assms(7)] numbered_keeps [OF assms(7)]
  by (simp add: cdl_rep_def)

text \<open>What appending and prepending share.\<close>

lemma cdl_link_ok:
  assumes "cdl_rep s h xs" "a \<in> dom (nodes s)" "a \<notin> set xs"
  shows "\<exists>s'. cdl_link h (Some a) s = Inr s' \<and> cdl_rep s' (Some a) (a # xs) \<and> cdl_rep s' (head_or xs (Some a)) (xs @ [a]) \<and>
    keeps (insert a (set xs)) s s'"
proof (cases "xs = []")
  case True
  let ?s = "upd_next a (Some a) (upd_prev a (Some a) s)"
  have "cdl_link h (Some a) s = Inr ?s" "cdl_rep ?s (Some a) [a]"
    using True assms cdl_repD [OF assms(1)] by (simp_all add: cdl_link_def cdl_rep_def links_eq upd_links)
  with True show ?thesis by (intro exI [of _ ?s]) simp
next
  case False
  note x = cdl_ends [OF assms(1) False]
  have d: "hd xs \<noteq> a" "last xs \<noteq> a" "hd xs \<in> set xs" "last xs \<in> set xs"
    using False assms(3) hd_in_set [OF False] last_in_set [OF False] by auto
  let ?s = "upd_next (last xs) (Some a) (upd_prev (hd xs) (Some a) (upd_next a h (upd_prev a (Some (last xs)) s)))"
  have 1: "cdl_link h (Some a) s = Inr ?s" using x d assms(2) by (simp add: cdl_link_def links_eq upd_links)
  have 2: "keeps (insert a (set xs)) s ?s" using d by simp
  have 3: "lnxt ?s = (lnxt s)(a := Some (hd xs), last xs := Some a)" "lprv ?s = (lprv s)(a := Some (last xs), hd xs := Some a)"
    using x assms(2) by (simp_all add: upd_links)
  from cdl_insert [of s h "[]" xs a ?s] cdl_insert [of s h xs "[]" a ?s] 1 2 3 assms False show ?thesis by simp
qed

lemma cdl_prepend_ok:
  assumes "cdl_rep s h xs" "a \<in> dom (nodes s)" "a \<notin> set xs"
  shows "\<exists>h' s'. cdl_prepend h (Some a) s = Inr (h', s') \<and> cdl_rep s' h' (a # xs) \<and> keeps (insert a (set xs)) s s'"
  using cdl_link_ok [OF assms] by (auto simp: cdl_prepend_def)

lemma cdl_append_ok:
  assumes "cdl_rep s h xs" "a \<in> dom (nodes s)" "a \<notin> set xs"
  shows "\<exists>h' s'. cdl_append h (Some a) s = Inr (h', s') \<and> cdl_rep s' h' (xs @ [a]) \<and> keeps (insert a (set xs)) s s'"
proof -
  have "(if h \<noteq> None then h else Some a) = head_or xs (Some a)" using cdl_repD(1) [OF assms(1)] by (cases xs) simp_all
  with cdl_link_ok [OF assms] show ?thesis by (auto simp: cdl_append_def)
qed

lemma cdl_append_elem_ok:
  assumes "cdl_rep s h (us @ el # vs)" "a \<in> dom (nodes s)" "a \<notin> set (us @ el # vs)"
  shows "\<exists>h' s'. cdl_append_elem h (Some el) (Some a) s = Inr (h', s') \<and> cdl_rep s' h' (us @ el # a # vs) \<and>
    keeps (insert a (set (us @ el # vs))) s s'"
proof -
  have r: "cdl_rep s h ((us @ [el]) @ vs)" "(us @ [el]) @ vs \<noteq> []" "a \<notin> set ((us @ [el]) @ vs)" using assms by simp_all
  note g = cdl_gap [OF r] and x = cdl_ends [OF r(1,2)]
  have n: "lnxt s el = Some (hd (vs @ us @ [el]))"
    using cdl_repD(2) [OF r(1)] by (cases vs; cases us) (auto simp: nring_def nseg_append)
  have el: "el \<in> dom (nodes s)" "el \<noteq> a" "el \<noteq> hd (vs @ us @ [el]) \<or> vs = []"
    using cdl_repD(4,5) [OF assms(1)] assms(3) by (cases vs; auto)+
  let ?s = "upd_prev (hd (vs @ us @ [el])) (Some a) (upd_next el (Some a) (upd_prev a (Some el)
    (upd_next a (Some (hd (vs @ us @ [el]))) s)))"
  have 1: "cdl_append_elem h (Some el) (Some a) s = Inr (h, ?s)"
    using x(1) n el g assms(2) by (simp add: cdl_append_elem_def c_assert_def links_eq upd_links)
  have 2: "keeps (insert a (set ((us @ [el]) @ vs))) s ?s" using g(6) by auto
  have "cdl_rep ?s (head_or (us @ [el]) (Some a)) ((us @ [el]) @ a # vs)"
    by (rule cdl_insert [OF r(1,2) assms(2) r(3) _ _ 2]) (use el g assms(2) in \<open>simp_all add: upd_links\<close>)
  moreover have "h = head_or (us @ [el]) (Some a)" using cdl_repD(1) [OF assms(1)] by simp
  ultimately show ?thesis using 1 2 by simp
qed

lemma cdl_prepend_elem_ok:
  assumes "cdl_rep s h (us @ el # vs)" "a \<in> dom (nodes s)" "a \<notin> set (us @ el # vs)"
  shows "\<exists>h' s'. cdl_prepend_elem h (Some el) (Some a) s = Inr (h', s') \<and> cdl_rep s' h' (us @ a # el # vs) \<and>
    keeps (insert a (set (us @ el # vs))) s s'"
proof -
  have ne: "us @ el # vs \<noteq> []" by simp
  note g = cdl_gap [OF assms(1) ne assms(3)] and x = cdl_ends [OF assms(1) ne]
  let ?p = "last (el # vs @ us)"
  have p: "lprv s el = Some ?p"
    using cdl_repD(3) [OF assms(1)] by (cases us rule: rev_cases) (auto simp: pring_def pseg_append)
  have el: "el \<in> dom (nodes s)" "el \<noteq> a" "us \<noteq> [] \<Longrightarrow> hd us \<noteq> el"
    using cdl_repD(4,5) [OF assms(1)] assms(3) hd_in_set [of us] by auto
  let ?s = "upd_next ?p (Some a) (upd_prev el (Some a) (upd_prev a (Some ?p) (upd_next a (Some el) s)))"
  have 1: "cdl_prepend_elem h (Some el) (Some a) s = Inr (head_or us (Some a), ?s)"
    using x(1) p el g assms(2)
    by (cases "us = []") (simp_all add: cdl_prepend_elem_def c_assert_def links_eq upd_links)
  have 2: "keeps (insert a (set (us @ el # vs))) s ?s" using g(5) by auto
  have "cdl_rep ?s (head_or us (Some a)) (us @ a # el # vs)"
    by (rule cdl_insert [OF assms(1) ne assms(2,3) _ _ 2]) (use el g assms(2) in \<open>simp_all add: upd_links\<close>)
  with 1 2 show ?thesis by blast
qed

lemma cdl_replace_elem_ok:
  assumes "cdl_rep s h (us @ el # vs)" "a \<in> dom (nodes s)" "a \<notin> set (us @ el # vs)"
  shows "\<exists>h' s'. cdl_replace_elem h (Some el) (Some a) s = Inr (h', s') \<and> cdl_rep s' h' (us @ a # vs) \<and>
    keeps (insert a (set (us @ el # vs))) s s'"
proof -
  note r = cdl_repD [OF assms(1)]
  have "us @ el # vs \<noteq> []" by simp
  note x = cdl_ends [OF assms(1) this]
  have el: "el \<in> dom (nodes s)" "el \<noteq> a" "us \<noteq> [] \<Longrightarrow> hd us \<noteq> el" using r(4,5) assms(3) hd_in_set [of us] by auto
  show ?thesis
  proof (cases "us @ vs = []")
    case True
    let ?s = "upd_prev a (Some a) (upd_next a (Some a) s)"
    have "lnxt s el = Some el" using r(2) True by (simp add: nring_def)
    then have "cdl_replace_elem h (Some el) (Some a) s = Inr (Some a, ?s)"
      using True x(1) el(1,2) assms(2) by (simp add: cdl_replace_elem_def c_assert_def links_eq upd_links)
    moreover have "cdl_rep ?s (Some a) (us @ a # vs)" using True r(6) assms(2) by (simp add: cdl_rep_def upd_links)
    moreover have "keeps (insert a (set (us @ el # vs))) s ?s" by simp
    ultimately show ?thesis by blast
  next
    case False
    let ?p = "last (vs @ us)" and ?n = "hd (vs @ us)"
    note pr = pring_replace [OF r(3) False r(4) assms(3)] and nr = nring_replace [OF r(2) False r(4) assms(3)]
    have pn: "?p \<in> set (us @ vs)" "?n \<in> set (us @ vs)" using False last_in_set [of "vs @ us"] hd_in_set [of "vs @ us"] by auto
    then have dn: "?p \<in> dom (nodes s)" "?p \<noteq> a" "?n \<in> dom (nodes s)" "?n \<noteq> a" "?n \<noteq> el"
      using r(4,5) assms(3) by auto
    let ?s = "upd_next ?p (Some a) (upd_prev ?n (Some a) (upd_prev a (Some ?p) (upd_next a (Some ?n) s)))"
    have "cdl_replace_elem h (Some el) (Some a) s = Inr (head_or us (Some a), ?s)"
      using x(1) el dn pr(2) nr(2) assms(2)
      by (cases "us = []") (simp_all add: cdl_replace_elem_def c_assert_def links_eq upd_links)
    moreover have "cdl_rep ?s (head_or us (Some a)) (us @ a # vs)"
      using pr nr r(4-6) dn assms(2,3) by (simp add: cdl_rep_def upd_links)
    moreover have "keeps (insert a (set (us @ el # vs))) s ?s" using pn by auto
    ultimately show ?thesis by blast
  qed
qed

lemma cdl_delete_ok:
  assumes "cdl_rep s h (us @ el # vs)"
  shows "\<exists>h' s'. cdl_delete h (Some el) s = Inr (h', s') \<and> cdl_rep s' h' (us @ vs) \<and> keeps (set (us @ el # vs)) s s'"
proof -
  note r = cdl_repD [OF assms]
  have "us @ el # vs \<noteq> []" by simp
  note x = cdl_ends [OF assms this]
  have el: "el \<in> dom (nodes s)" "us \<noteq> [] \<Longrightarrow> hd us \<noteq> el" using r(4,5) hd_in_set [of us] by auto
  show ?thesis
  proof (cases "us @ vs = []")
    case True
    with r(2) have "lnxt s el = Some el" by (simp add: nring_def)
    with True x(1) el(1) have "cdl_delete h (Some el) s = Inr (None, s)" by (simp add: cdl_delete_def links_eq)
    with True r(6) show ?thesis by (simp add: cdl_rep_def pring_def nring_def)
  next
    case False
    let ?p = "last (vs @ us)" and ?n = "hd (vs @ us)"
    note pr = pring_remove [OF r(3) False r(4)] and nr = nring_remove [OF r(2) False r(4)]
    have pn: "?p \<in> set (us @ vs)" "?n \<in> set (us @ vs)" using False last_in_set [of "vs @ us"] hd_in_set [of "vs @ us"] by auto
    then have dn: "?p \<in> dom (nodes s)" "?n \<in> dom (nodes s)" "?n \<noteq> el" "?p \<noteq> el" using r(4,5) by auto
    let ?s = "upd_next ?p (Some ?n) (upd_prev ?n (Some ?p) s)"
    have "cdl_delete h (Some el) s = Inr (head_or (us @ vs) None, ?s)"
      using x(1) el dn pr(2) nr(2) False
      by (cases "us = []") (simp_all add: cdl_delete_def links_eq upd_links)
    moreover have "cdl_rep ?s (head_or (us @ vs) None) (us @ vs)"
      using pr nr r(4-6) dn by (simp add: cdl_rep_def upd_links)
    moreover have "keeps (set (us @ el # vs)) s ?s" using pn by auto
    ultimately show ?thesis by blast
  qed
qed

lemma cdl_lower_bound_ok:
  assumes "cdl_rep s h xs" "a \<in> dom (nodes s)"
  shows "cdl_lower_bound c h (Some a) s = Inr (last_or None (takeWhile (\<lambda>x. val_cmp (vals s) c x a < 0) xs))"
proof (cases xs)
  case Nil
  with cdl_repD(1) [OF assms(1)] show ?thesis by (simp add: cdl_lower_bound_def)
next
  case (Cons x ys)
  note r = cdl_repD [OF assms(1)]
  have x: "x \<in> dom (nodes s)" "nseg (lnxt s) xs (Some x)" "Some x \<notin> Some ` set (tl xs)"
    using r(2,4,5) Cons by (auto simp: nring_def)
  show ?thesis
  proof (cases "val_cmp (vals s) c x a < 0")
    case True
    with bound_loop_ok [OF assms(2) x(2) _ x(3) r(5), of "tick s" c] r(7) Cons
    have "bound_loop c (Some x) (Some a) (tick s) (Some x) s
      = Inr (Some (last (takeWhile (\<lambda>x. val_cmp (vals s) c x a < 0) xs)))" by simp
    with True r(1) Cons x(1) assms(2) show ?thesis by (simp add: cdl_lower_bound_def node_cmp_eq val_cmp_def)
  next
    case False
    with r(1) Cons x(1) assms(2) show ?thesis by (simp add: cdl_lower_bound_def node_cmp_eq val_cmp_def not_less)
  qed
qed

lemma cdl_insert_inorder_ok:
  assumes "cdl_rep s h xs" "a \<in> dom (nodes s)" "a \<notin> set xs"
  shows "\<exists>h' s'. cdl_insert_inorder c h (Some a) s = Inr (h', s') \<and>
    cdl_rep s' h' (put_inorder (val_cmp (vals s) c) a xs) \<and> keeps (insert a (set xs)) s s'"
proof (cases "xs = []")
  case True
  with assms show ?thesis by (auto simp: cdl_insert_inorder_def put_inorder_def links_eq upd_links cdl_rep_def)
next
  case False
  let ?P = "\<lambda>x. val_cmp (vals s) c x a < 0"
  let ?R = "\<lambda>h' s' ys. cdl_rep s' h' ys \<and> keeps (insert a (set xs)) s s'"
  have "\<exists>h' s'. andThen (cdl_lower_bound c h (Some a) s) (\<lambda>tmp. cdl_append_elem h tmp (Some a) s) = Inr (h', s') \<and>
      ?R h' s' (takeWhile ?P xs @ a # dropWhile ?P xs)"
  proof (rule inorder_ok [where R = ?R])
    show "cdl_lower_bound c h (Some a) s = Inr (last_or None (takeWhile ?P xs))" by (rule cdl_lower_bound_ok [OF assms(1,2)])
    show "\<exists>h' s'. cdl_append_elem h None (Some a) s = Inr (h', s') \<and> ?R h' s' (a # xs)"
      using cdl_prepend_ok [OF assms] by (simp add: cdl_append_elem_def)
    show "\<exists>h' s'. cdl_append_elem h (Some el) (Some a) s = Inr (h', s') \<and> ?R h' s' (us @ el # a # vs)"
      if "xs = us @ el # vs" for us el vs
      using cdl_append_elem_ok [of s h us el vs a] assms that by simp
  qed
  with False cdl_repD(1) [OF assms(1)] show ?thesis by (simp add: cdl_insert_inorder_def put_inorder_def)
qed

section \<open>Histories\<close>

definition cdl_macros :: "('k, 'a) lmacros" where
  "cdl_macros = \<lparr>m_prepend = cdl_prepend, m_append = cdl_append, m_insert = cdl_insert_inorder, m_delete = cdl_delete,
     m_replace = cdl_replace_elem, m_prepend_elem = cdl_prepend_elem, m_append_elem = cdl_append_elem\<rparr>"

lemmas cdl_ops_ok = cdl_prepend_ok cdl_append_ok cdl_insert_inorder_ok cdl_delete_ok cdl_replace_elem_ok
  cdl_prepend_elem_ok cdl_append_elem_ok

lemma cdl_rep_free: "cdl_rep s h xs \<Longrightarrow> a \<notin> set xs \<Longrightarrow> cdl_rep (free_node a s) h xs"
  by (auto simp: cdl_rep_def nring_def nseg_free pring_def pseg_free)

interpretation cdl: freeing_lists cdl_macros cdl_rep
  by (unfold_locales; (unfold cdl_macros_def lmacros.select_convs)?;
      (rule cdl_ops_ok cdl_repD(4) cdl_repD(5); assumption | rule cdl_rep_free; assumption))

lemma cdl_demo: "cdl_rep demo_lheap None []"
  by (simp add: cdl_rep_def nring_def pring_def demo_lheap_sel)

text \<open>Walks around the ring, once.\<close>

lemma cdl_next_ok:
  assumes "cdl_rep s h (us @ x # vs)"
  shows "cdl_next h (Some x) s = Inr (head_or vs None)" "next_of (Some x) s = Inr (head_or (vs @ us @ [x]) None)"
proof -
  note r = cdl_repD [OF assms]
  have x: "x \<in> dom (nodes s)" "lnxt s x = head_or (vs @ us @ [x]) None" "h = head_or us (Some x)"
    using r(1,2,5) by (auto simp: nring_def nseg_append)
  then show "next_of (Some x) s = Inr (head_or (vs @ us @ [x]) None)" by (simp add: links_eq)
  have "h \<notin> Some ` set vs" using x(3) r(4) by (cases us) auto
  then show "cdl_next h (Some x) s = Inr (head_or vs None)"
    using x by (cases vs) (auto simp: cdl_next_def links_eq)
qed

lemma cdl_foreach_ok:
  "cdl_rep s h (us @ xs) \<Longrightarrow> length xs \<le> n \<Longrightarrow> cdl_foreach h n (head_or xs None) s = Inr xs"
proof (induction xs arbitrary: us n)
  case (Cons x xs)
  then obtain m where n: "n = Suc m" by (cases n) auto
  from Cons.IH [of "us @ [x]" m] Cons.prems n show ?case
    by (simp add: cdl_foreach.simps [of h "Suc m"] cdl_next_ok(1) [OF Cons.prems(1)])
qed (simp add: cdl_foreach.simps)

lemma cdl_count_ok: "cdl_rep s h xs \<Longrightarrow> cdl_count h s = Inr (length xs)"
  using cdl_foreach_ok [of s h "[]" xs "tick s"] cdl_repD [of s h xs] by (simp add: cdl_count_def)

lemma cdl_search_loop_ok:
  "(\<And>x. x \<in> set xs \<Longrightarrow> fits (Some x) s = Inr (P x)) \<Longrightarrow> cdl_rep s h (us @ xs) \<Longrightarrow> length xs \<le> n \<Longrightarrow>
    cdl_search_loop fits h n (head_or xs None) s = Inr (find P xs)"
proof (induction xs arbitrary: us n)
  case (Cons x xs)
  then obtain m where n: "n = Suc m" by (cases n) auto
  from Cons.IH [of "us @ [x]" m] Cons.prems n show ?case
    by (simp add: cdl_search_loop.simps [of fits h "Suc m"] cdl_next_ok(1) [OF Cons.prems(2)])
qed (simp add: cdl_search_loop.simps)

lemma cdl_search_ok:
  assumes "cdl_rep s h xs" "a \<in> dom (nodes s)"
  shows "cdl_search c (Some a) h s = Inr (find (\<lambda>x. val_cmp (vals s) c x a = 0) xs)"
proof -
  note r = cdl_repD [OF assms(1)]
  let ?fits = "\<lambda>out s. andThen (node_cmp c out (Some a) s) (\<lambda>d. Inr (d = 0))"
  have "?fits (Some x) s = Inr (val_cmp (vals s) c x a = 0)" if "x \<in> set xs" for x
    using that r(5) assms(2) by (simp add: node_cmp_eq val_cmp_def subset_iff)
  from cdl_search_loop_ok [where fits = ?fits and us = "[]", OF this _ r(7)] assms(1) show ?thesis
    by (simp add: cdl_search_def r(1))
qed

lemma cdl_search_scalar_ok:
  assumes "cdl_rep s h xs"
  shows "cdl_search_scalar f v h s = Inr (find (\<lambda>x. f (the (vals s x)) = v) xs)"
proof -
  note r = cdl_repD [OF assms]
  let ?fits = "\<lambda>out s. andThen (deref (nodes s) out) (\<lambda>(_, y). Inr (f (ln_val y) = v))"
  have "?fits (Some x) s = Inr (f (the (vals s x)) = v)" if "x \<in> set xs" for x
    using that r(5) by (auto simp: vals_def subset_iff dom_def)
  from cdl_search_loop_ok [where fits = ?fits and us = "[]", OF this _ r(7)] assms show ?thesis
    by (simp add: cdl_search_scalar_def r(1))
qed

text \<open>Deleting while walking: the loop ends at the node that was the last one at the start.\<close>

lemma cdl_safe_loop_ok:
  assumes "cdl_rep s h (ks @ xs)" "length xs \<le> n"
  shows "\<exists>h' s'. cdl_safe_loop (drop_if cdl_delete P) (last_or None xs) n (head_or xs None) (h, s) = Inr (h', s') \<and>
    cdl_rep s' h' (ks @ filter (\<lambda>x. \<not> P (the (vals s x))) xs)"
  using assms
proof (induction xs arbitrary: ks h s n)
  case (Cons x xs)
  then obtain m where n: "n = Suc m" by (cases n) auto
  let ?ks = "ks @ (if P (the (vals s x)) then [] else [x])"
  from cdl.drop_if_ok [OF Cons.prems(1), of P] obtain h1 s1 where
    1: "drop_if cdl_delete P x (h, s) = Inr (h1, s1)" "cdl_rep s1 h1 (?ks @ xs)"
      "vals s1 = (if P (the (vals s x)) then (vals s)(x := None) else vals s)" by (auto simp: cdl_macros_def)
  have x: "x \<notin> set xs" using cdl_repD(4) [OF Cons.prems(1)] by simp
  then have f: "filter (\<lambda>y. \<not> P (the (vals s1 y))) xs = filter (\<lambda>y. \<not> P (the (vals s y))) xs"
    using 1(3) by (intro filter_cong) auto
  from Cons.IH [OF 1(2), of m] Cons.prems(2) n f obtain h' s' where
    2: "cdl_safe_loop (drop_if cdl_delete P) (last_or None xs) m (head_or xs None) (h1, s1) = Inr (h', s')"
      "cdl_rep s' h' (?ks @ filter (\<lambda>y. \<not> P (the (vals s y))) xs)" by auto
  have "xs = [] \<longleftrightarrow> Some x = last_or None (x # xs)" using x last_in_set [of xs] by auto
  then have "cdl_safe_loop (drop_if cdl_delete P) (last_or None (x # xs)) n (head_or (x # xs) None) (h, s) = Inr (h', s')"
    using 1(1) 2(1) cdl_next_ok(2) [OF Cons.prems(1)] n
    by (cases xs) (simp_all add: cdl_safe_loop.simps [of _ _ "Suc m"] cdl_safe_loop.simps [of _ _ _ None])
  with 2(2) show ?case by (cases "P (the (vals s x))") auto
qed (simp add: cdl_safe_loop.simps)

lemma cdl_safe_deletion:
  assumes "cdl_rep s h xs"
  shows "\<exists>h' s'. cdl_foreach_safe (drop_if cdl_delete P) h s = Inr (h', s') \<and>
    cdl_rep s' h' (filter (\<lambda>x. \<not> P (the (vals s x))) xs)"
proof (cases "xs = []")
  case True
  with assms cdl_repD(1) [OF assms] show ?thesis by (simp add: cdl_foreach_safe_def cdl_safe_loop.simps)
next
  case False
  note x = cdl_ends [OF assms False]
  have "prev_of h s = Inr (last_or None xs)" using x False by (simp add: links_eq)
  with cdl_safe_loop_ok [of s h "[]" xs "tick s" P] assms cdl_repD(1,7) [OF assms] show ?thesis
    by (simp add: cdl_foreach_safe_def False)
qed

end
