(* ===== verification/Utlist_Sort.thy ===== *)
theory Utlist_Sort
  imports Utlist_CDL
begin

text \<open>
  \<open>LL_SORT\<close>, \<open>DL_SORT\<close> and \<open>CDL_SORT\<close> of \<^verbatim>\<open>local_lib/utlist.h\<close>: the merge sort of \<open>Link_Sort\<close> with the links and the
  ends of the three kinds of lists. The counters are \<open>int\<close>; doubling the run length overflows when
  the list has more than 2^30 nodes, long before another counter could.
\<close>

section \<open>The macros\<close>

definition ll_links :: "'k ncmp \<Rightarrow> ('k, 'a) lheap_scheme linkops" where
  "ll_links c = \<lparr>lk_next = (\<lambda>s q. next_of q s), lk_set_next = to_next, lk_set_prev = (\<lambda>p v s. Inr s),
     lk_cmp = (\<lambda>s p q. node_cmp c p q s), lk_tests = False\<rparr>"

definition dl_links :: "'k ncmp \<Rightarrow> ('k, 'a) lheap_scheme linkops" where
  "dl_links c = \<lparr>lk_next = (\<lambda>s q. next_of q s), lk_set_next = to_next, lk_set_prev = to_prev,
     lk_cmp = (\<lambda>s p q. node_cmp c p q s), lk_tests = False\<rparr>"

text \<open>\<open>_ls_insize *= 2\<close> of an \<open>int\<close>\<close>

definition int_double :: "nat \<Rightarrow> nat res" where
  "int_double k = (if 2 * k < 2 ^ 31 then Inr (2 * k) else Inl Overflow)"

definition ll_finish :: "addr option \<Rightarrow> addr option \<Rightarrow> ('k, 'a) lheap_scheme \<Rightarrow> ('k, 'a) lheap_scheme res" where
  "ll_finish list tail s = (if tail \<noteq> None then to_next tail None s else Inr s)"

definition dl_finish :: "addr option \<Rightarrow> addr option \<Rightarrow> ('k, 'a) lheap_scheme \<Rightarrow> ('k, 'a) lheap_scheme res" where
  "dl_finish list tail s = andThen (to_prev list tail s) (to_next tail None)"

definition cdl_finish :: "addr option \<Rightarrow> addr option \<Rightarrow> ('k, 'a) lheap_scheme \<Rightarrow> ('k, 'a) lheap_scheme res" where
  "cdl_finish list tail s = andThen (to_prev list tail s) (to_next tail list)"

definition ll_sort :: "'k ncmp \<Rightarrow> addr option \<Rightarrow> ('k, 'a) lheap_scheme \<Rightarrow> ('k, 'a) lres" where
  "ll_sort cmp list s =
     (if list \<noteq> None
      then andThen (ls_loop (ll_links cmp) False ll_finish int_double (Suc (tick s)) (Suc (tick s)) 1 list s)
        (\<lambda>(list, tail, s). Inr (list, s))
      else Inr (list, s))"

definition dl_sort :: "'k ncmp \<Rightarrow> addr option \<Rightarrow> ('k, 'a) lheap_scheme \<Rightarrow> ('k, 'a) lres" where
  "dl_sort cmp list s =
     (if list \<noteq> None
      then andThen (ls_loop (dl_links cmp) False dl_finish int_double (Suc (tick s)) (Suc (tick s)) 1 list s)
        (\<lambda>(list, tail, s). Inr (list, s))
      else Inr (list, s))"

definition cdl_sort :: "'k ncmp \<Rightarrow> addr option \<Rightarrow> ('k, 'a) lheap_scheme \<Rightarrow> ('k, 'a) lres" where
  "cdl_sort cmp list s =
     (if list \<noteq> None
      then andThen (ls_loop (dl_links cmp) True cdl_finish int_double (Suc (tick s)) (Suc (tick s)) 1 list s)
        (\<lambda>(list, tail, s). Inr (list, s))
      else Inr (list, s))"

section \<open>Correctness\<close>

abbreviation fields_of :: "('k, 'a) lheap_scheme \<Rightarrow> (addr \<rightharpoonup> 'k) \<times> nat" where
  "fields_of s \<equiv> (vals s, tick s)"

abbreviation node_le :: "'k ncmp \<Rightarrow> (addr \<rightharpoonup> 'k) \<times> nat \<Rightarrow> addr \<Rightarrow> addr \<Rightarrow> bool" where
  "node_le c r a b \<equiv> val_cmp (fst r) c a b \<le> 0"

lemma int_double_ok: "k \<le> 2 ^ 30 - 1 \<Longrightarrow> int_double k = Inr (2 * k)"
  by (simp add: int_double_def)

interpretation llf: link_fields "ll_links c :: ('k, 'a) lheap_scheme linkops" lnxt lprv "\<lambda>s. dom (nodes s)" fields_of "node_le c" False for c
  by unfold_locales (simp_all add: ll_links_def links_eq upd_links node_cmp_eq val_cmp_def)

interpretation dlf: link_fields "dl_links c :: ('k, 'a) lheap_scheme linkops" lnxt lprv "\<lambda>s. dom (nodes s)" fields_of "node_le c" True for c
  by unfold_locales (simp_all add: dl_links_def links_eq upd_links node_cmp_eq val_cmp_def)

lemma pring_close: "pseg pv None xs \<Longrightarrow> distinct xs \<Longrightarrow> xs \<noteq> [] \<Longrightarrow> pring (pv(hd xs := Some (last xs))) xs"
  by (cases xs) (auto simp: pring_def)

interpretation lls: link_sort "ll_links c :: ('k, 'a) lheap_scheme linkops" lnxt lprv "\<lambda>s. dom (nodes s)" fields_of "node_le c" False False ll_finish
  "\<lambda>s xs. nseg (lnxt s) xs None" int_double "2 ^ 30 - 1" for c
proof unfold_locales
  fix s :: "('k, 'a) lheap_scheme" and xs
  assume xs: "partway False (lnxt s) (lprv s) xs" "xs \<noteq> []" "distinct xs" "set xs \<subseteq> dom (nodes s)"
  then have l: "last xs \<in> dom (nodes s)" using last_in_set by blast
  show "\<exists>s'. ll_finish (Some (hd xs)) (Some (last xs)) s = Inr s' \<and> nseg (lnxt s') xs None \<and>
      dom (nodes s') = dom (nodes s) \<and> fields_of s' = fields_of s \<and>
      (\<forall>x. x \<notin> set xs \<longrightarrow> lnxt s' x = lnxt s x \<and> lprv s' x = lprv s x)"
    using partway_end(1) [OF xs(1-3), of None] l xs(2)
    by (intro exI [of _ "upd_next (last xs) None s"]) (auto simp: ll_finish_def links_eq [OF l] upd_links [OF l])
qed (simp_all add: int_double_ok)

interpretation dls: link_sort "dl_links c :: ('k, 'a) lheap_scheme linkops" lnxt lprv "\<lambda>s. dom (nodes s)" fields_of "node_le c" True False dl_finish
  "\<lambda>s xs. nseg (lnxt s) xs None \<and> pring (lprv s) xs" int_double "2 ^ 30 - 1" for c
proof unfold_locales
  fix s :: "('k, 'a) lheap_scheme" and xs
  assume xs: "partway True (lnxt s) (lprv s) xs" "xs \<noteq> []" "distinct xs" "set xs \<subseteq> dom (nodes s)"
  then have l: "last xs \<in> dom (nodes s)" "hd xs \<in> dom (nodes s)" using last_in_set hd_in_set by blast+
  let ?s = "upd_next (last xs) None (upd_prev (hd xs) (Some (last xs)) s)"
  have "dl_finish (Some (hd xs)) (Some (last xs)) s = Inr ?s" using l by (simp add: dl_finish_def links_eq)
  moreover have "lnxt ?s = (lnxt s)(last xs := None)" "lprv ?s = (lprv s)(hd xs := Some (last xs))"
    using l by (simp_all add: upd_links)
  ultimately show "\<exists>s'. dl_finish (Some (hd xs)) (Some (last xs)) s = Inr s' \<and> (nseg (lnxt s') xs None \<and> pring (lprv s') xs) \<and>
      dom (nodes s') = dom (nodes s) \<and> fields_of s' = fields_of s \<and>
      (\<forall>x. x \<notin> set xs \<longrightarrow> lnxt s' x = lnxt s x \<and> lprv s' x = lprv s x)"
    using partway_end(1) [OF xs(1-3), of None] pring_close [OF partway_end(2) [OF xs(1-3)] xs(3,2)] xs(2)
    by (intro exI [of _ ?s]) auto
qed (simp_all add: int_double_ok)

interpretation cdls: link_sort "dl_links c :: ('k, 'a) lheap_scheme linkops" lnxt lprv "\<lambda>s. dom (nodes s)" fields_of "node_le c" True True cdl_finish
  "\<lambda>s xs. nring (lnxt s) xs \<and> pring (lprv s) xs" int_double "2 ^ 30 - 1" for c
proof unfold_locales
  fix s :: "('k, 'a) lheap_scheme" and xs
  assume xs: "partway True (lnxt s) (lprv s) xs" "xs \<noteq> []" "distinct xs" "set xs \<subseteq> dom (nodes s)"
  then have l: "last xs \<in> dom (nodes s)" "hd xs \<in> dom (nodes s)" using last_in_set hd_in_set by blast+
  let ?s = "upd_next (last xs) (Some (hd xs)) (upd_prev (hd xs) (Some (last xs)) s)"
  have "cdl_finish (Some (hd xs)) (Some (last xs)) s = Inr ?s" using l by (simp add: cdl_finish_def links_eq)
  moreover have "lnxt ?s = (lnxt s)(last xs := Some (hd xs))" "lprv ?s = (lprv s)(hd xs := Some (last xs))"
    using l by (simp_all add: upd_links)
  ultimately show "\<exists>s'. cdl_finish (Some (hd xs)) (Some (last xs)) s = Inr s' \<and> (nring (lnxt s') xs \<and> pring (lprv s') xs) \<and>
      dom (nodes s') = dom (nodes s) \<and> fields_of s' = fields_of s \<and>
      (\<forall>x. x \<notin> set xs \<longrightarrow> lnxt s' x = lnxt s x \<and> lprv s' x = lprv s x)"
    using partway_end(1) [OF xs(1-3), of "Some (hd xs)"] pring_close [OF partway_end(2) [OF xs(1-3)] xs(3,2)] xs(2)
    by (intro exI [of _ ?s]) (auto simp: nring_def)
qed (simp_all add: int_double_ok nring_def)

text \<open>From the state of the sort to the lists.\<close>

lemma keepsI:
  assumes "vals s' = vals s" "tick s' = tick s" "\<forall>x. x \<notin> A \<longrightarrow> lnxt s' x = lnxt s x \<and> lprv s' x = lprv s x"
  shows "keeps A s s'"
proof -
  have "nodes s' x = nodes s x" if "x \<notin> A" for x
  proof -
    have v: "map_option ln_val (nodes s' x) = map_option ln_val (nodes s x)" using fun_cong [OF assms(1), of x] by (simp add: vals_def)
    from assms(3) that have "lnxt s' x = lnxt s x" "lprv s' x = lprv s x" by auto
    with v show ?thesis by (cases "nodes s x"; cases "nodes s' x") (auto simp: lnxt_def lprv_def)
  qed
  with assms(1,2) show ?thesis by (simp add: keeps_def)
qed

abbreviation sorted_nodes :: "'k ncmp \<Rightarrow> ('k, 'a) lheap_scheme \<Rightarrow> addr list \<Rightarrow> addr list" where
  "sorted_nodes c s xs \<equiv> merge_rounds (\<lambda>a b. val_cmp (vals s) c a b \<le> 0) 1 xs"

lemma sorted_nodes_simps [simp]:
  "set (sorted_nodes c s xs) = set xs" "distinct (sorted_nodes c s xs) = distinct xs" "sorted_nodes c s xs = [] \<longleftrightarrow> xs = []"
  "length (sorted_nodes c s xs) = length xs"
  by simp_all

lemma ll_sort_ok:
  assumes "ll_rep s h xs" "length xs \<le> 2 ^ 30"
  shows "\<exists>h' s'. ll_sort c h s = Inr (h', s') \<and> ll_rep s' h' (sorted_nodes c s xs) \<and> keeps (set xs) s s'"
proof (cases "xs = []")
  case True
  with assms(1) ll_repD(1) [OF assms(1)] show ?thesis by (simp add: ll_sort_def merge_rounds.simps)
next
  case False
  note r = ll_repD [OF assms(1)]
  from lls.sort_ok [OF r(2) False r(3,4), of "Suc (tick s)" c] r(6) assms(2) obtain s' where
    s': "ls_loop (ll_links c) False ll_finish int_double (Suc (tick s)) (Suc (tick s)) 1 (Some (hd xs)) s
      = Inr (Some (hd (sorted_nodes c s xs)), Some (last (sorted_nodes c s xs)), s')"
    "nseg (lnxt s') (sorted_nodes c s xs) None" "dom (nodes s') = dom (nodes s)" "fields_of s' = fields_of s"
    "\<forall>x. x \<notin> set xs \<longrightarrow> lnxt s' x = lnxt s x \<and> lprv s' x = lprv s x" by auto
  have k: "keeps (set xs) s s'" using s'(4,5) by (intro keepsI) auto
  have "ll_rep s' (Some (hd (sorted_nodes c s xs))) (sorted_nodes c s xs)"
    using s'(2,3) r(3-5) numbered_keeps [OF k] False by (simp add: ll_rep_def)
  with s'(1) r(1) k False show ?thesis by (simp add: ll_sort_def)
qed

lemma dl_sort_ok:
  assumes "dl_rep s h xs" "length xs \<le> 2 ^ 30"
  shows "\<exists>h' s'. dl_sort c h s = Inr (h', s') \<and> dl_rep s' h' (sorted_nodes c s xs) \<and> keeps (set xs) s s'"
proof (cases "xs = []")
  case True
  with assms(1) dl_repD(1) [OF assms(1)] show ?thesis by (simp add: dl_sort_def merge_rounds.simps)
next
  case False
  note r = dl_repD [OF assms(1)]
  from dls.sort_ok [OF conjI [OF r(2,3)] False r(4,5), of "Suc (tick s)" c] r(7) assms(2) obtain s' where
    s': "ls_loop (dl_links c) False dl_finish int_double (Suc (tick s)) (Suc (tick s)) 1 (Some (hd xs)) s
      = Inr (Some (hd (sorted_nodes c s xs)), Some (last (sorted_nodes c s xs)), s')"
    "nseg (lnxt s') (sorted_nodes c s xs) None" "pring (lprv s') (sorted_nodes c s xs)"
    "dom (nodes s') = dom (nodes s)" "fields_of s' = fields_of s"
    "\<forall>x. x \<notin> set xs \<longrightarrow> lnxt s' x = lnxt s x \<and> lprv s' x = lprv s x" by auto
  have k: "keeps (set xs) s s'" using s'(5,6) by (intro keepsI) auto
  have "dl_rep s' (Some (hd (sorted_nodes c s xs))) (sorted_nodes c s xs)"
    using s'(2-4) r(4-6) numbered_keeps [OF k] False by (simp add: dl_rep_def ll_rep_def)
  with s'(1) r(1) k False show ?thesis by (simp add: dl_sort_def)
qed

lemma cdl_sort_ok:
  assumes "cdl_rep s h xs" "length xs \<le> 2 ^ 30"
  shows "\<exists>h' s'. cdl_sort c h s = Inr (h', s') \<and> cdl_rep s' h' (sorted_nodes c s xs) \<and> keeps (set xs) s s'"
proof (cases "xs = []")
  case True
  with assms(1) cdl_repD(1) [OF assms(1)] show ?thesis by (simp add: cdl_sort_def merge_rounds.simps)
next
  case False
  note r = cdl_repD [OF assms(1)]
  from cdls.sort_ok [OF conjI [OF r(2,3)] False r(4,5), of "Suc (tick s)" c] r(7) assms(2) obtain s' where
    s': "ls_loop (dl_links c) True cdl_finish int_double (Suc (tick s)) (Suc (tick s)) 1 (Some (hd xs)) s
      = Inr (Some (hd (sorted_nodes c s xs)), Some (last (sorted_nodes c s xs)), s')"
    "nring (lnxt s') (sorted_nodes c s xs)" "pring (lprv s') (sorted_nodes c s xs)"
    "dom (nodes s') = dom (nodes s)" "fields_of s' = fields_of s"
    "\<forall>x. x \<notin> set xs \<longrightarrow> lnxt s' x = lnxt s x \<and> lprv s' x = lprv s x" by auto
  have k: "keeps (set xs) s s'" using s'(5,6) by (intro keepsI) auto
  have "cdl_rep s' (Some (hd (sorted_nodes c s xs))) (sorted_nodes c s xs)"
    using s'(2-4) r(4-6) numbered_keeps [OF k] False by (simp add: cdl_rep_def)
  with s'(1) r(1) k False show ?thesis by (simp add: cdl_sort_def)
qed

section \<open>Properties of the three kinds of lists\<close>

text \<open>
  C22: over any history of the list macros (prepend, append, insert in order, delete, replace an
  element, prepend or append to an element) with nodes that are in the list where they have to be and
  out of it where they are added, the \<open>LL_\<close>, the \<open>DL_\<close> and the \<open>CDL_\<close> macros leave a head that stands
  for what the same history makes of a list; no node outside changes, and no field but the links.
\<close>

theorem list_histories_refine:
  assumes "(M, R) \<in> {(ll_macros, ll_rep), (dl_macros, dl_rep), (cdl_macros, cdl_rep)}"
    and "R s h xs" "lops_ok (vals s) ops xs"
  shows "\<exists>h' s'. lops_run M ops h s = Inr (h', s') \<and> R s' h' (fold (lop_spec (vals s)) ops xs) \<and>
    keeps (set xs \<union> \<Union> (lop_nodes ` set ops)) s s'"
proof -
  from assms(1) consider "M = ll_macros" "R = ll_rep" | "M = dl_macros" "R = dl_rep" | "M = cdl_macros" "R = cdl_rep" by auto
  then show ?thesis
  proof cases
    case 1
    with ll.lops_run_ok [of s h xs ops] assms(2,3) show ?thesis by simp
  next
    case 2
    with dl.lops_run_ok [of s h xs ops] assms(2,3) show ?thesis by simp
  next
    case 3
    with cdl.lops_run_ok [of s h xs ops] assms(2,3) show ?thesis by simp
  qed
qed

theorem list_histories_refine_witness:
  "\<exists>h s. lops_run cdl_macros demo_ops None demo_lheap = Inr (h, s) \<and> cdl_rep s h [4, 5, 3, 6]"
  using list_histories_refine [of cdl_macros cdl_rep, OF _ cdl_demo demo_ops_ok] unfolding demo_ops_spec by auto

text \<open>
  C23: \<open>LL_SORT\<close>, \<open>DL_SORT\<close> and \<open>CDL_SORT\<close> of a list of up to 2^30 nodes, by a comparison of a key, end
  without a fault and leave a list of the same kind, its nodes in the order of the stable sort by
  that key; no node outside changes, and no field but the links.
\<close>

theorem list_sorts_stable:
  fixes f :: "'k \<Rightarrow> 'o::linorder"
  assumes "(srt, R) \<in> {(ll_sort, ll_rep), (dl_sort, dl_rep), (cdl_sort, cdl_rep)}"
    and "R s h xs" "length xs \<le> 2 ^ 30" "\<And>x y. c x y \<le> 0 \<longleftrightarrow> f x \<le> f y"
  shows "\<exists>h' s'. srt c h s = Inr (h', s') \<and> R s' h' (sort_key (\<lambda>a. f (the (vals s a))) xs) \<and> keeps (set xs) s s'"
proof -
  have "sorted_nodes c s xs = sort_key (\<lambda>a. f (the (vals s a))) xs"
    using rounds_stable_sort [of "\<lambda>a. f (the (vals s a))" xs] by (simp add: val_cmp_def assms(4))
  moreover from assms(1) consider "srt = ll_sort" "R = ll_rep" | "srt = dl_sort" "R = dl_rep" | "srt = cdl_sort" "R = cdl_rep"
    by auto
  then have "\<exists>h' s'. srt c h s = Inr (h', s') \<and> R s' h' (sorted_nodes c s xs) \<and> keeps (set xs) s s'"
  proof cases
    case 1
    with ll_sort_ok [of s h xs c] assms(2,3) show ?thesis by simp
  next
    case 2
    with dl_sort_ok [of s h xs c] assms(2,3) show ?thesis by simp
  next
    case 3
    with cdl_sort_ok [of s h xs c] assms(2,3) show ?thesis by simp
  qed
  ultimately show ?thesis by simp
qed

theorem list_sorts_stable_witness:
  "\<exists>h (s :: int lheap) h' s'. dl_rep s h [4, 5, 3, 6] \<and> dl_sort diff h s = Inr (h', s') \<and> dl_rep s' h' [3, 4, 5, 6]"
proof -
  from dl_four obtain h and s :: "int lheap" where s: "dl_rep s h [4, 5, 3, 6]" "vals s = vals demo_lheap" by blast
  have "diff x y \<le> 0 \<longleftrightarrow> x \<le> y" for x y by (simp add: diff_def)
  moreover have "sort_key (\<lambda>a. the (vals s a)) [4, 5, 3, 6] = [3, 4, 5, 6]" by (simp add: s(2) demo_lheap_sel(4))
  ultimately obtain h' s' where "dl_sort diff h s = Inr (h', s')" "dl_rep s' h' [3, 4, 5, 6]"
    using list_sorts_stable [of dl_sort dl_rep s h "[4, 5, 3, 6]" diff "\<lambda>x. x"] s(1) by auto
  with s(1) show ?thesis by blast
qed

end
