(* ===== verification/Utlist_Nodecl.thy ===== *)
theory Utlist_Nodecl
  imports Utlist_Sort
begin

text \<open>
  The replacements of \<^verbatim>\<open>local_lib/utlist.h\<close> for compilers without \<open>__typeof\<close> (\<open>NO_DECLTYPE\<close>): a macro
  that cannot declare a pointer to a node walks with the caller's \<open>head\<close>, which it saves in \<open>_tmp\<close> and
  restores (\<open>UTLIST_RS\<close>), or with the link of the node it adds. Each of them leaves the head and
  the heap that the macro it replaces leaves.
\<close>

section \<open>The macros\<close>

definition nd_ll_concat :: "addr option \<Rightarrow> addr option \<Rightarrow> ('k, 'a) lheap_scheme \<Rightarrow> ('k, 'a) lres" where
  "nd_ll_concat head1 head2 s =
     (if head1 \<noteq> None
      then let tmp = head1 in
        andThen (walk_end (tick s) head1 s) (\<lambda>head1. andThen (to_next head1 head2 s) (\<lambda>s. Inr (tmp, s)))
      else Inr (head2, s))"

text \<open>
  \<open>while (add->next->next && add->next->next != el) add->next = add->next->next;\<close> the loop of
  \<open>LL_APPEND2\<close> has no second condition, which is this one with NULL for \<open>el\<close>.
\<close>

fun temp_walk :: "nat \<Rightarrow> addr option \<Rightarrow> addr option \<Rightarrow> ('k, 'a) lheap_scheme \<Rightarrow> ('k, 'a) lheap_scheme res" where
  "temp_walk n add el s =
     andThen (next_of add s) (\<lambda>t. andThen (next_of t s) (\<lambda>nx.
       if nx = None \<or> nx = el then Inr s
       else (case n of 0 \<Rightarrow> Inl Diverge
         | Suc n \<Rightarrow> andThen (to_next add nx s) (temp_walk n add el))))"

declare temp_walk.simps [simp del]

definition nd_ll_append :: "addr option \<Rightarrow> addr option \<Rightarrow> ('k, 'a) lheap_scheme \<Rightarrow> ('k, 'a) lres" where
  "nd_ll_append head add s =
     andThen
       (if head \<noteq> None
        then andThen (to_next add head s) (\<lambda>s. andThen (temp_walk (tick s) add None s) (\<lambda>s.
          andThen (next_of add s) (\<lambda>t. andThen (to_next t add s) (\<lambda>s. Inr (head, s)))))
        else Inr (add, s))
       (\<lambda>(head, s). andThen (to_next add None s) (\<lambda>s. Inr (head, s)))"

definition nd_ll_insert_inorder ::
  "'k ncmp \<Rightarrow> addr option \<Rightarrow> addr option \<Rightarrow> ('k, 'a) lheap_scheme \<Rightarrow> ('k, 'a) lres" where
  "nd_ll_insert_inorder cmp head add s =
     andThen (if head = None then Inr True else andThen (node_cmp cmp head add s) (\<lambda>d. Inr (0 \<le> d))) (\<lambda>first.
       if first then andThen (to_next add head s) (\<lambda>s. Inr (add, s))
       else let tmp = head in
         andThen (bound_loop cmp None add (tick s) head s) (\<lambda>head.
         andThen (next_of head s) (\<lambda>nx. andThen (to_next add nx s) (\<lambda>s.
         andThen (to_next head add s) (\<lambda>s. Inr (tmp, s))))))"

definition nd_ll_delete :: "addr option \<Rightarrow> addr option \<Rightarrow> ('k, 'a) lheap_scheme \<Rightarrow> ('k, 'a) lres" where
  "nd_ll_delete head del s =
     (if head = del then andThen (next_of head s) (\<lambda>nx. Inr (nx, s))
      else let tmp = head in
        andThen (walk_before (tick s) head del s) (\<lambda>head. andThen (next_of head s) (\<lambda>nx.
          if nx \<noteq> None
          then andThen (next_of del s) (\<lambda>v. andThen (to_next head v s) (\<lambda>s. Inr (tmp, s)))
          else Inr (tmp, s))))"

text \<open>The conditional that \<open>LL_REPLACE_ELEM2\<close> and \<open>LL_PREPEND_ELEM2\<close> share.\<close>

definition nd_link_before ::
  "addr option \<Rightarrow> addr option \<Rightarrow> addr option \<Rightarrow> ('k, 'a) lheap_scheme \<Rightarrow> ('k, 'a) lres" where
  "nd_link_before head el add s =
     (if head = el then Inr (add, s)
      else andThen (to_next add head s) (\<lambda>s. andThen (temp_walk (tick s) add el s) (\<lambda>s.
        andThen (next_of add s) (\<lambda>t. andThen (next_of t s) (\<lambda>nx.
        if nx \<noteq> None then andThen (to_next t add s) (\<lambda>s. Inr (head, s)) else Inr (head, s))))))"

definition nd_ll_replace_elem ::
  "addr option \<Rightarrow> addr option \<Rightarrow> addr option \<Rightarrow> ('k, 'a) lheap_scheme \<Rightarrow> ('k, 'a) lres" where
  "nd_ll_replace_elem head el add s =
     c_assert (head \<noteq> None) (c_assert (el \<noteq> None) (c_assert (add \<noteq> None)
       (andThen (nd_link_before head el add s) (\<lambda>(head, s).
        andThen (next_of el s) (\<lambda>nx. andThen (to_next add nx s) (\<lambda>s. Inr (head, s)))))))"

definition nd_ll_prepend_elem ::
  "addr option \<Rightarrow> addr option \<Rightarrow> addr option \<Rightarrow> ('k, 'a) lheap_scheme \<Rightarrow> ('k, 'a) lres" where
  "nd_ll_prepend_elem head el add s =
     (if el \<noteq> None
      then c_assert (head \<noteq> None) (c_assert (add \<noteq> None)
        (andThen (nd_link_before head el add s) (\<lambda>(head, s). andThen (to_next add el s) (\<lambda>s. Inr (head, s)))))
      else nd_ll_append head add s)"

definition nd_dl_insert_inorder ::
  "'k ncmp \<Rightarrow> addr option \<Rightarrow> addr option \<Rightarrow> ('k, 'a) lheap_scheme \<Rightarrow> ('k, 'a) lres" where
  "nd_dl_insert_inorder cmp head add s =
     (if head = None
      then andThen (to_prev add add s) (\<lambda>s. andThen (to_next add None s) (\<lambda>s. Inr (add, s)))
      else andThen (node_cmp cmp head add s) (\<lambda>d.
        if 0 \<le> d
        then andThen (prev_of head s) (\<lambda>p. andThen (to_prev add p s) (\<lambda>s.
          andThen (to_next add head s) (\<lambda>s. andThen (to_prev head add s) (\<lambda>s. Inr (add, s)))))
        else let tmp = head in
          andThen (bound_loop cmp None add (tick s) head s) (\<lambda>head.
          andThen (to_prev add head s) (\<lambda>s.
          andThen (next_of head s) (\<lambda>nx. andThen (to_next add nx s) (\<lambda>s.
          andThen (to_next head add s) (\<lambda>s. let head = tmp in
          andThen (next_of add s) (\<lambda>nx.
          andThen (if nx \<noteq> None then to_prev nx add s else to_prev head add s) (\<lambda>s. Inr (head, s)))))))))) "

definition nd_cdl_insert_inorder ::
  "'k ncmp \<Rightarrow> addr option \<Rightarrow> addr option \<Rightarrow> ('k, 'a) lheap_scheme \<Rightarrow> ('k, 'a) lres" where
  "nd_cdl_insert_inorder cmp head add s =
     (if head = None
      then andThen (to_prev add add s) (\<lambda>s. andThen (to_next add add s) (\<lambda>s. Inr (add, s)))
      else andThen (node_cmp cmp head add s) (\<lambda>d.
        if 0 \<le> d
        then andThen (prev_of head s) (\<lambda>p. andThen (to_prev add p s) (\<lambda>s.
          andThen (to_next add head s) (\<lambda>s.
          andThen (prev_of add s) (\<lambda>p. andThen (to_next p add s) (\<lambda>s.
          andThen (to_prev head add s) (\<lambda>s. Inr (add, s)))))))
        else let tmp = head in
          andThen (bound_loop cmp tmp add (tick s) head s) (\<lambda>head.
          andThen (to_prev add head s) (\<lambda>s.
          andThen (next_of head s) (\<lambda>nx. andThen (to_next add nx s) (\<lambda>s.
          andThen (next_of add s) (\<lambda>nx. andThen (to_prev nx add s) (\<lambda>s.
          andThen (to_next head add s) (\<lambda>s. Inr (tmp, s))))))))))"

section \<open>Two writes\<close>

lemma upd_twice: "upd_next a v (upd_next a w s) = upd_next a v s"
  by (simp add: upd_next_def option.map_comp comp_def)

lemma upd_swap: "a \<noteq> b \<Longrightarrow> upd_next a v (upd_next b w s) = upd_next b w (upd_next a v s)"
  by (simp add: upd_next_def fun_upd_twist)

lemma upd_next_prev: "upd_prev b w (upd_next a v s) = upd_next a v (upd_prev b w s)"
proof -
  have "nodes (upd_prev b w (upd_next a v s)) x = nodes (upd_next a v (upd_prev b w s)) x" for x
    by (cases "nodes s x") (auto simp: upd_next_def upd_prev_def)
  then show ?thesis by (simp add: upd_next_def upd_prev_def fun_eq_iff)
qed

section \<open>The walk with the link of the new node\<close>

lemma temp_walk_ok:
  "nseg (lnxt s) us q \<Longrightarrow> us \<noteq> [] \<Longrightarrow> q = None \<or> q = el \<Longrightarrow> el \<notin> Some ` set us \<Longrightarrow> a \<in> dom (nodes s) \<Longrightarrow> a \<notin> set us \<Longrightarrow>
    set us \<subseteq> dom (nodes s) \<Longrightarrow> length us \<le> Suc n \<Longrightarrow>
    temp_walk n (Some a) el (upd_next a (Some (hd us)) s) = Inr (upd_next a (Some (last us)) s)"
proof (induction us arbitrary: n)
  case (Cons x us)
  then have x: "x \<in> dom (nodes s)" "x \<noteq> a" by auto
  show ?case
  proof (cases us)
    case Nil
    with Cons.prems x show ?thesis by (auto simp: temp_walk.simps links_eq upd_links)
  next
    case (Cons y ys)
    with Cons.prems obtain m where "n = Suc m" by (cases n) auto
    with Cons Cons.prems Cons.IH [of m] x show ?thesis
      by (auto simp: temp_walk.simps [of "Suc m"] links_eq upd_links upd_twice)
  qed
qed simp

section \<open>The same results\<close>

lemma nd_append_eq:
  assumes "ll_rep s h xs" "a \<in> dom (nodes s)" "a \<notin> set xs"
  shows "nd_ll_append h (Some a) s = ll_append h (Some a) s"
proof (cases "xs = []")
  case True
  with ll_repD(1) [OF assms(1)] assms(2) show ?thesis by (simp add: nd_ll_append_def ll_append_def links_eq)
next
  case False
  note r = ll_repD [OF assms(1)]
  have l: "last xs \<in> set xs" "last xs \<noteq> a" using False assms(3) last_in_set by metis+
  then have dom: "last xs \<in> dom (nodes s)" using r(4) by auto
  have h: "h = Some (hd xs)" using r(1) False by simp
  have "temp_walk (tick s) (Some a) None (upd_next a (Some (hd xs)) s) = Inr (upd_next a (Some (last xs)) s)"
    by (rule temp_walk_ok [OF r(2) False _ _ assms(2,3) r(4)]) (use r(6) in auto)
  then have nd: "nd_ll_append h (Some a) s = Inr (h, upd_next a None (upd_next (last xs) (Some a) (upd_next a (Some (last xs)) s)))"
    using h l dom assms(2) by (simp add: nd_ll_append_def links_eq upd_links)
  have "nseg (lnxt (upd_next a None s)) xs None" using r(2) assms(2,3) by (simp add: upd_links)
  from join_ok(1) [OF this False r(3), where q = "Some a" and h = h] r(4,6)
  have "ll_append h (Some a) s = Inr (h, upd_next (last xs) (Some a) (upd_next a None s))"
    using h assms(2) by (simp add: ll_append_def links_eq)
  with nd upd_swap [OF l(2), of "Some a" None s] show ?thesis
    by (simp add: upd_swap [OF l(2)] upd_twice)
qed

lemma nd_link_before_eq:
  assumes "ll_rep s h (us @ el # vs)" "a \<in> dom (nodes s)" "a \<notin> set (us @ el # vs)"
  shows "\<exists>h' t. nd_link_before h (Some el) (Some a) s = Inr (h', t) \<and>
    ll_link_before h (Some el) (Some a) (upd_next a q s) = Inr (h', upd_next a q t) \<and>
    a \<in> dom (nodes t) \<and> el \<in> dom (nodes t) \<and> lnxt t el = lnxt s el"
proof (cases us rule: rev_cases)
  case Nil
  with ll_repD(1) [OF assms(1)] ll_split(1) [OF assms(1)] assms(2) show ?thesis
    by (auto simp: nd_link_before_def ll_link_before_def)
next
  case (snoc ws u)
  note r = ll_repD [OF assms(1)] and e = ll_split [OF assms(1)]
  let ?s = "upd_next a q s"
  have ne: "us \<noteq> []" "last us = u" and u: "u \<in> dom (nodes s)" using e(10) snoc by auto
  have u2: "lnxt s u = Some el" "u \<noteq> a" "u \<noteq> el" "hd us \<noteq> el"
    using e(3,5,8) assms(2,3) snoc hd_in_set [OF ne(1)] by (auto simp: nseg_append)
  have h: "h = Some (hd us)" using r(1) ne(1) by simp
  have len: "length us \<le> Suc (tick s)" using r(6) by simp
  have "a \<notin> set us" "Some el \<notin> Some ` set us" using assms(3) e(5) by auto
  from temp_walk_ok [OF e(3) ne(1) _ this(2) assms(2) this(1) e(10) len]
  have "temp_walk (tick s) (Some a) (Some el) (upd_next a h s) = Inr (upd_next a (Some u) s)" using h ne(2) by simp
  then have nd: "nd_link_before h (Some el) (Some a) s = Inr (h, upd_next u (Some a) (upd_next a (Some u) s))"
    using h u u2 assms(2) by (simp add: nd_link_before_def links_eq upd_links)
  have "nseg (lnxt ?s) (us @ el # vs) None" using r(2) assms(2,3) by (simp add: upd_links)
  from walk_before_ok [OF this ne(1) e(5), of "tick ?s"] e(10) len ne(2)
  have "walk_before (tick ?s) (Some (hd us)) (Some el) ?s = Inr (Some u)" by simp
  then have "ll_link_before h (Some el) (Some a) ?s = Inr (h, upd_next u (Some a) ?s)"
    using h u u2 assms(2) by (simp add: ll_link_before_def links_eq upd_links)
  moreover have "upd_next u (Some a) ?s = upd_next a q (upd_next u (Some a) (upd_next a (Some u) s))"
    using u2(2) by (simp add: upd_swap [of a u] upd_twice)
  ultimately show ?thesis using nd u u2 assms e(1) by (auto simp: upd_links)
qed

lemma nd_replace_eq:
  assumes "ll_rep s h (us @ el # vs)" "a \<in> dom (nodes s)" "a \<notin> set (us @ el # vs)"
  shows "nd_ll_replace_elem h (Some el) (Some a) s = ll_replace_elem h (Some el) (Some a) s"
proof -
  note e = ll_split [OF assms(1)]
  from nd_link_before_eq [OF assms, of "lnxt s el"] obtain h' t where
    t: "nd_link_before h (Some el) (Some a) s = Inr (h', t)"
      "ll_link_before h (Some el) (Some a) (upd_next a (lnxt s el) s) = Inr (h', upd_next a (lnxt s el) t)"
      "a \<in> dom (nodes t)" "el \<in> dom (nodes t)" "lnxt t el = lnxt s el" by blast
  with e(1) assms(2) show ?thesis
    by (simp add: nd_ll_replace_elem_def ll_replace_elem_def c_assert_def links_eq)
qed

lemma nd_prepend_elem_eq:
  assumes "ll_rep s h (us @ el # vs)" "a \<in> dom (nodes s)" "a \<notin> set (us @ el # vs)"
  shows "nd_ll_prepend_elem h (Some el) (Some a) s = ll_prepend_elem h (Some el) (Some a) s"
proof -
  from nd_link_before_eq [OF assms, of "Some el"] obtain h' t where
    "nd_link_before h (Some el) (Some a) s = Inr (h', t)"
    "ll_link_before h (Some el) (Some a) (upd_next a (Some el) s) = Inr (h', upd_next a (Some el) t)"
    "a \<in> dom (nodes t)" by blast
  with assms(2) show ?thesis
    by (simp add: nd_ll_prepend_elem_def ll_prepend_elem_def c_assert_def links_eq)
qed

lemma nd_delete_eq: "nd_ll_delete h d s = ll_delete h d s"
  by (simp add: nd_ll_delete_def ll_delete_def)

lemma nd_concat_eq: "nd_ll_concat h k s = ll_concat h k s"
  by (simp add: nd_ll_concat_def ll_concat_def)

text \<open>The bound is a node of the list, whatever the comparison says.\<close>

lemma bound_in_list:
  "bound_loop c None like n p s = Inr e \<Longrightarrow> e \<noteq> None"
proof (induction n arbitrary: p)
  case 0
  then show ?case by (auto simp: bound_loop.simps res_simps next_of_def split: if_split_asm)
next
  case (Suc n)
  from Suc.prems show ?case
    by (auto simp: bound_loop.simps [of c None like "Suc n"] res_simps next_of_def split: if_split_asm dest: Suc.IH)
qed

lemma nd_insert_eq:
  assumes "ll_rep s h xs" "a \<in> dom (nodes s)"
  shows "nd_ll_insert_inorder c h (Some a) s = ll_insert_inorder c h (Some a) s"
proof (cases "h = None")
  case True
  then show ?thesis by (simp add: nd_ll_insert_inorder_def ll_insert_inorder_def)
next
  case False
  then show ?thesis
    by (cases "node_cmp c h (Some a) s"; cases "bound_loop c None (Some a) (tick s) h s")
      (auto simp: nd_ll_insert_inorder_def ll_insert_inorder_def ll_lower_bound_def ll_append_elem_def ll_prepend_def
        c_assert_def dest: bound_in_list)
qed

lemma nd_dl_insert_eq:
  assumes "dl_rep s h xs" "a \<in> dom (nodes s)" "a \<notin> set xs"
  shows "nd_dl_insert_inorder c h (Some a) s = dl_insert_inorder c h (Some a) s"
proof (cases "xs = []")
  case True
  with dl_repD(1) [OF assms(1)] show ?thesis by (simp add: nd_dl_insert_inorder_def dl_insert_inorder_def)
next
  case False
  note r = dl_repD [OF assms(1)] and d = dl_ends [OF assms(1) False]
  have ll: "ll_rep s h xs" using assms(1) by (simp add: dl_rep_def)
  let ?P = "\<lambda>x. val_cmp (vals s) c x a < 0"
  have cmp: "node_cmp c h (Some a) s = Inr (val_cmp (vals s) c (hd xs) a)"
    using d(1,2) assms(2) by (simp add: node_cmp_eq val_cmp_def)
  show ?thesis
  proof (cases "?P (hd xs)")
    case first: False
    have "hd xs \<noteq> a" using False assms(3) by (metis hd_in_set)
    with first False d cmp assms(2) show ?thesis
      by (simp add: nd_dl_insert_inorder_def dl_insert_inorder_def dl_lower_bound_def dl_append_elem_def dl_prepend_def
          links_eq upd_links upd_next_prev not_less)
  next
    case True
    let ?e = "last (takeWhile ?P xs)"
    have ne: "takeWhile ?P xs \<noteq> []" using True False by (cases xs) auto
    from lower_bound_ok [OF ll assms(2), of c] cmp True False d(1) ne
    have b: "bound_loop c None (Some a) (tick s) (Some (hd xs)) s = Inr (Some ?e)"
      by (simp add: ll_lower_bound_def)
    have "?e \<in> set xs" using last_in_set [OF ne] set_takeWhileD by fast
    then have e: "?e \<in> dom (nodes s)" "?e \<noteq> a" using r(5) assms(3) by auto
    show ?thesis
    proof (cases "lnxt s ?e")
      case None
      with True False d cmp b e assms(2) show ?thesis
        by (simp add: nd_dl_insert_inorder_def dl_insert_inorder_def dl_lower_bound_def dl_append_elem_def c_assert_def
            links_eq upd_links upd_next_prev)
    next
      case (Some n)
      from split_list [OF \<open>?e \<in> set xs\<close>] obtain us vs where xs: "xs = us @ ?e # vs" by blast
      with ll_split(2) [of s h us ?e vs] ll Some have "head_or vs None = Some n" by metis
      then have "n \<in> set vs" by (cases vs) auto
      with xs r(5) have "n \<in> dom (nodes s)" by (metis in_set_conv_decomp list.set_intros(2) subset_iff Un_iff set_append)
      with Some True False d cmp b e assms(2) show ?thesis
        by (simp add: nd_dl_insert_inorder_def dl_insert_inorder_def dl_lower_bound_def dl_append_elem_def c_assert_def
            links_eq upd_links upd_next_prev)
    qed
  qed
qed

lemma nring_next:
  assumes "nring nx xs" "x \<in> set xs"
  shows "\<exists>n. nx x = Some n \<and> n \<in> set xs"
proof -
  from split_list [OF assms(2)] obtain us vs where xs: "xs = us @ x # vs" by blast
  have "nx x = head_or vs (head_or xs None)" using assms(1) unfolding nring_def xs by (simp add: nseg_append)
  then show ?thesis unfolding xs by (cases vs; cases us) auto
qed

lemma nd_cdl_insert_eq:
  assumes "cdl_rep s h xs" "a \<in> dom (nodes s)" "a \<notin> set xs"
  shows "nd_cdl_insert_inorder c h (Some a) s = cdl_insert_inorder c h (Some a) s"
proof (cases "xs = []")
  case True
  with cdl_repD(1) [OF assms(1)] assms(2) show ?thesis
    by (simp add: nd_cdl_insert_inorder_def cdl_insert_inorder_def links_eq upd_next_prev)
next
  case False
  note r = cdl_repD [OF assms(1)] and d = cdl_ends [OF assms(1) False]
  let ?P = "\<lambda>x. val_cmp (vals s) c x a < 0"
  have h: "h = Some (hd xs)" using r(1) False by simp
  have m: "hd xs \<in> set xs" "last xs \<in> set xs" using False by simp_all
  then have dm: "hd xs \<in> dom (nodes s)" "last xs \<in> dom (nodes s)" "hd xs \<noteq> a" "last xs \<noteq> a"
    using r(5) assms(3) by auto
  have pv: "lprv s (hd xs) = Some (last xs)" using pring_hd [OF r(3)] False by simp
  have cmp: "node_cmp c h (Some a) s = Inr (val_cmp (vals s) c (hd xs) a)"
    using h dm(1) assms(2) by (simp add: node_cmp_eq val_cmp_def)
  show ?thesis
  proof (cases "?P (hd xs)")
    case first: False
    with False h dm pv cmp assms(2) show ?thesis
      by (simp add: nd_cdl_insert_inorder_def cdl_insert_inorder_def cdl_lower_bound_def cdl_append_elem_def cdl_prepend_def
          cdl_link_def links_eq upd_links upd_next_prev not_less)
  next
    case True
    let ?e = "last (takeWhile ?P xs)"
    have ne: "takeWhile ?P xs \<noteq> []" using True False by (cases xs) auto
    from cdl_lower_bound_ok [OF assms(1,2), of c] cmp True h ne
    have b: "bound_loop c (Some (hd xs)) (Some a) (tick s) (Some (hd xs)) s = Inr (Some ?e)"
      by (simp add: cdl_lower_bound_def)
    have e_in: "?e \<in> set xs" using last_in_set [OF ne] set_takeWhileD by fast
    then have e: "?e \<in> dom (nodes s)" "?e \<noteq> a" using r(5) assms(3) by auto
    from nring_next [OF r(2) e_in] obtain n where n: "lnxt s ?e = Some n" "n \<in> set xs" by blast
    then have nd: "n \<in> dom (nodes s)" "n \<noteq> a" using r(5) assms(3) by auto
    with n(1) True False h cmp b e assms(2) show ?thesis
      by (simp add: nd_cdl_insert_inorder_def cdl_insert_inorder_def cdl_lower_bound_def cdl_append_elem_def c_assert_def
          links_eq upd_links upd_next_prev)
  qed
qed

section \<open>Histories\<close>

definition nd_ll_macros :: "('k, 'a) lmacros" where
  "nd_ll_macros = ll_macros\<lparr>m_append := nd_ll_append, m_insert := nd_ll_insert_inorder, m_delete := nd_ll_delete,
     m_replace := nd_ll_replace_elem, m_prepend_elem := nd_ll_prepend_elem\<rparr>"

definition nd_dl_macros :: "('k, 'a) lmacros" where
  "nd_dl_macros = dl_macros\<lparr>m_insert := nd_dl_insert_inorder\<rparr>"

lemma nd_ll_lop_eq:
  assumes "ll_rep s h xs" "lop_ok (vals s) x xs"
  shows "lop_run nd_ll_macros x h s = lop_run ll_macros x h s"
proof (cases x)
  case (Replace el a)
  with assms(2) obtain us vs where xs: "xs = us @ el # vs" by (auto dest: split_list)
  from nd_replace_eq [OF assms(1) [unfolded this]] Replace assms(2) show ?thesis
    by (auto simp: xs nd_ll_macros_def ll_macros_def)
next
  case (Prepend_elem el a)
  with assms(2) obtain us vs where xs: "xs = us @ el # vs" by (auto dest: split_list)
  from nd_prepend_elem_eq [OF assms(1) [unfolded this]] Prepend_elem assms(2) show ?thesis
    by (auto simp: xs nd_ll_macros_def ll_macros_def)
qed (use assms nd_append_eq [OF assms(1)] nd_insert_eq [OF assms(1)] in
      \<open>auto simp: nd_ll_macros_def ll_macros_def nd_delete_eq\<close>)

definition nd_cdl_macros :: "('k, 'a) lmacros" where
  "nd_cdl_macros = cdl_macros\<lparr>m_insert := nd_cdl_insert_inorder\<rparr>"

lemma nd_cdl_lop_eq:
  assumes "cdl_rep s h xs" "lop_ok (vals s) x xs"
  shows "lop_run nd_cdl_macros x h s = lop_run cdl_macros x h s"
  using assms nd_cdl_insert_eq [OF assms(1)] by (cases x) (auto simp: nd_cdl_macros_def cdl_macros_def)

lemma nd_dl_lop_eq:
  assumes "dl_rep s h xs" "lop_ok (vals s) x xs"
  shows "lop_run nd_dl_macros x h s = lop_run dl_macros x h s"
  using assms nd_dl_insert_eq [OF assms(1)] by (cases x) (auto simp: nd_dl_macros_def dl_macros_def)

context list_macros begin

text \<open>Macros that do what those of a kind of list do, one at a time, do so in any history.\<close>

lemma lops_run_eq:
  assumes eq: "\<And>s h xs x. rep s h xs \<Longrightarrow> lop_ok (vals s) x xs \<Longrightarrow> lop_run N x h s = lop_run M x h s"
  shows "rep s h xs \<Longrightarrow> lops_ok (vals s) ops xs \<Longrightarrow> lops_run N ops h s = lops_run M ops h s"
proof (induction ops arbitrary: s h xs)
  case (Cons x ops)
  then have ok: "lop_ok (vals s) x xs" by simp
  from lop_run_ok [OF Cons.prems(1) ok] obtain h1 s1 where
    1: "lop_run M x h s = Inr (h1, s1)" "rep s1 h1 (lop_spec (vals s) x xs)" "keeps (set xs \<union> lop_nodes x) s s1" by blast
  from Cons.prems(2) keepsD(1) [OF 1(3)] have "lops_ok (vals s1) ops (lop_spec (vals s) x xs)" by simp
  from Cons.IH [OF 1(2) this] 1(1) eq [OF Cons.prems(1) ok] show ?case by simp
qed simp

end

section \<open>Properties\<close>

text \<open>
  C24: over any history within the contract of the macros, and for any two lists that are joined, the
  replacements for compilers without \<open>__typeof\<close> return the head and leave the heap that the ordinary
  macros do, to the last link: walking with the caller's head or with the link of the new node
  leaves no trace.
\<close>

theorem nodecl_histories_same:
  assumes "(N, M, R) \<in> {(nd_ll_macros, ll_macros, ll_rep), (nd_dl_macros, dl_macros, dl_rep), (nd_cdl_macros, cdl_macros, cdl_rep)}"
    and "R s h xs" "lops_ok (vals s) ops xs"
  shows "lops_run N ops h s = lops_run M ops h s \<and> nd_ll_concat h k s = ll_concat h k s"
  using assms ll.lops_run_eq [OF nd_ll_lop_eq] dl.lops_run_eq [OF nd_dl_lop_eq]
    cdl.lops_run_eq [OF nd_cdl_lop_eq] by (auto simp: nd_concat_eq)

theorem nodecl_histories_same_witness:
  "\<exists>h s. lops_run nd_ll_macros demo_ops None demo_lheap = Inr (h, s) \<and> ll_rep s h [4, 5, 3, 6]"
proof -
  have "lops_run nd_ll_macros demo_ops None demo_lheap = lops_run ll_macros demo_ops None demo_lheap"
    using nodecl_histories_same [of nd_ll_macros ll_macros ll_rep, OF _ ll_demo demo_ops_ok] by simp
  with ll.lops_run_ok [OF ll_demo demo_ops_ok] show ?thesis unfolding demo_ops_spec by auto
qed

end
