(* ===== verification/Utstack.thy ===== *)
theory Utstack
  imports Utlist_LL
begin

text \<open>
  The stack of \<^verbatim>\<open>local_lib/utstack.h\<close>, a singly linked list whose head is the top, on the nodes of the
  list macros.
\<close>

definition stack_top :: "addr option \<Rightarrow> addr option" where
  "stack_top head = head"

definition stack_empty :: "addr option \<Rightarrow> bool" where
  "stack_empty head \<longleftrightarrow> head = None"

definition stack_push :: "addr option \<Rightarrow> addr option \<Rightarrow> ('k, 'a) lheap_scheme \<Rightarrow> ('k, 'a) lres" where
  "stack_push head add s = andThen (to_next add head s) (\<lambda>s. Inr (add, s))"

text \<open>The element taken off and the new head; an empty stack is dereferenced.\<close>

definition stack_pop :: "addr option \<Rightarrow> ('k, 'a) lheap_scheme \<Rightarrow> (addr option \<times> addr option) res" where
  "stack_pop head s = andThen (next_of head s) (\<lambda>nx. Inr (head, nx))"

definition stack_count :: "addr option \<Rightarrow> ('k, 'a) lheap_scheme \<Rightarrow> nat res" where
  "stack_count head s = andThen (foreach (tick s) head s) (\<lambda>as. Inr (length as))"

lemma stack_push_ok:
  assumes "ll_rep s h xs" "a \<in> dom (nodes s)" "a \<notin> set xs"
  shows "\<exists>h' s'. stack_push h (Some a) s = Inr (h', s') \<and> ll_rep s' h' (a # xs) \<and> keeps (insert a (set xs)) s s'"
  using ll_prepend_ok [OF assms] by (simp add: stack_push_def ll_prepend_def)

lemma stack_pop_ok:
  assumes "ll_rep s h (x # xs)"
  shows "\<exists>h'. stack_pop h s = Inr (Some x, h') \<and> ll_rep s h' xs"
  using assms ll_rep_next [of s h "[]" x xs] by (auto simp: stack_pop_def ll_rep_def)

lemma stack_pop_empty: "ll_rep s h [] \<Longrightarrow> stack_pop h s = Inl NullDeref"
  by (simp add: stack_pop_def ll_rep_def next_of_def)

lemma stack_count_ok:
  "ll_rep s h xs \<Longrightarrow> stack_count h s = Inr (length xs)" "ll_rep s h xs \<Longrightarrow> stack_empty h \<longleftrightarrow> xs = []"
  using foreach_ok [of s xs "tick s"] ll_repD [of s h xs] by (auto simp: stack_count_def stack_empty_def)

text \<open>A history of a stack: \<open>Some a\<close> pushes the node \<open>a\<close>, \<open>None\<close> pops one; the popped nodes, in order.\<close>

fun stack_run :: "addr option list \<Rightarrow> addr option \<Rightarrow> ('k, 'a) lheap_scheme \<Rightarrow>
    (addr option list \<times> addr option \<times> ('k, 'a) lheap_scheme) res" where
  "stack_run [] h s = Inr ([], h, s)"
| "stack_run (Some a # ops) h s = andThen (stack_push h (Some a) s) (\<lambda>(h, s). stack_run ops h s)"
| "stack_run (None # ops) h s = andThen (stack_pop h s) (\<lambda>(r, h).
     andThen (stack_run ops h s) (\<lambda>(rs, h, s). Inr (r # rs, h, s)))"

fun stack_spec :: "addr option list \<Rightarrow> addr list \<Rightarrow> (addr option list \<times> addr list) option" where
  "stack_spec [] xs = Some ([], xs)"
| "stack_spec (Some a # ops) xs = (if a \<in> set xs then None else stack_spec ops (a # xs))"
| "stack_spec (None # ops) xs =
     (case xs of [] \<Rightarrow> None | x # xs \<Rightarrow> map_option (\<lambda>(rs, ys). (Some x # rs, ys)) (stack_spec ops xs))"

lemma stack_run_ok:
  assumes "ll_rep s h xs" "Some ` dom (nodes s) \<supseteq> set ops - {None}" "stack_spec ops xs = Some (rs, ys)"
  shows "\<exists>h' s'. stack_run ops h s = Inr (rs, h', s') \<and> ll_rep s' h' ys"
  using assms
proof (induction ops xs arbitrary: h s rs rule: stack_spec.induct)
  case (2 a ops xs)
  from 2(3,4) have a: "a \<in> dom (nodes s)" "a \<notin> set xs" by (auto split: if_splits)
  from stack_push_ok [OF 2(2) this] obtain h1 s1 where
    1: "stack_push h (Some a) s = Inr (h1, s1)" "ll_rep s1 h1 (a # xs)" "keeps (insert a (set xs)) s s1" by blast
  have "set ops - {None} \<subseteq> Some ` dom (nodes s1)" using 2(3) keepsD(4) [OF 1(3)] by auto
  from 2(1) [OF a(2) 1(2) this] 2(4) a(2) 1(1) show ?case by simp
next
  case (3 ops xs)
  from 3(4) obtain x zs rs' where x: "xs = x # zs" "stack_spec ops zs = Some (rs', ys)" "rs = Some x # rs'"
    by (auto split: list.splits)
  from stack_pop_ok [of s h x zs] 3(2) x(1) obtain h1 where "stack_pop h s = Inr (Some x, h1)" "ll_rep s h1 zs" by auto
  with 3(1) [OF x(1) this(2) _ x(2)] 3(3) x show ?case by auto
qed auto

end
