(* ===== verification/Utarray.thy ===== *)
theory Utarray
  imports C_Env
begin

text \<open>
  The dynamic array of \<^verbatim>\<open>local_lib/utarray.h\<close>. An element is a value of type \<open>'e\<close>, a slot that has not been
  written is \<open>None\<close>. Indices are \<open>unsigned\<close> and wrap. What the user's functions do is in the record
  \<open>icd\<close>: \<open>init\<close> writes a value, \<open>copy\<close> writes a value made from its source, and the calls of \<open>dtor\<close> are
  recorded in \<open>dead\<close>, oldest first. Sizes in bytes (\<open>n * sz\<close>) are taken to fit into \<open>size_t\<close>.
\<close>

section \<open>Data\<close>

record 'e icd =
  ic_init :: "'e option"
  ic_copy :: "('e \<Rightarrow> 'e) option"
  ic_dtor :: bool
  ic_zero :: 'e

text \<open>The block \<open>d\<close> points to, as slots.\<close>

datatype 'e slots = SNull | SBlk "'e option list" | SFreed

record 'e ut_array =
  ua_i :: u32
  ua_n :: u32
  ua_icd :: "'e icd"
  ua_d :: "'e slots"
  dead :: "'e option option list"

text \<open>Writing a slot, moving slots, and \<open>realloc\<close>.\<close>

definition slots_put :: "nat \<Rightarrow> 'e list \<Rightarrow> 'e slots \<Rightarrow> 'e slots res" where
  "slots_put k xs d =
     (case d of SNull \<Rightarrow> Inl NullDeref | SFreed \<Rightarrow> Inl DanglingDeref
      | SBlk b \<Rightarrow> if k + length xs \<le> length b
          then Inr (SBlk (take k b @ map Some xs @ drop (k + length xs) b)) else Inl OutOfBounds)"

definition slots_move :: "nat \<Rightarrow> nat \<Rightarrow> nat \<Rightarrow> 'e slots \<Rightarrow> 'e slots res" where
  "slots_move to from cnt d =
     (case d of SNull \<Rightarrow> Inl NullDeref | SFreed \<Rightarrow> Inl DanglingDeref
      | SBlk b \<Rightarrow> if from + cnt \<le> length b \<and> to + cnt \<le> length b
          then Inr (SBlk (take to b @ take cnt (drop from b) @ drop (to + cnt) b)) else Inl OutOfBounds)"

definition slots_get :: "nat \<Rightarrow> nat \<Rightarrow> 'e slots \<Rightarrow> 'e option list res" where
  "slots_get k cnt d =
     (case d of SNull \<Rightarrow> Inl NullDeref | SFreed \<Rightarrow> Inl DanglingDeref
      | SBlk b \<Rightarrow> if k + cnt \<le> length b then Inr (take cnt (drop k b)) else Inl OutOfBounds)"

definition slots_realloc :: "env \<Rightarrow> nat \<Rightarrow> 'e slots \<Rightarrow> 's os_scheme \<Rightarrow> ('e slots \<times> 's os_scheme) res" where
  "slots_realloc E n d s =
     (case d of SFreed \<Rightarrow> Inl DanglingDeref
      | SNull \<Rightarrow> Inr (if e_malloc E (tick s) then SBlk (replicate n None) else SNull, step s)
      | SBlk b \<Rightarrow> Inr (if e_malloc E (tick s) then SBlk (take n (b @ replicate (n - length b) None)) else SNull, step s))"

text \<open>\<open>dtor\<close> of the \<open>cnt\<close> slots from \<open>k\<close> on.\<close>

definition destroy :: "nat \<Rightarrow> nat \<Rightarrow> 'e ut_array \<Rightarrow> 'e ut_array res" where
  "destroy k cnt a = andThen (slots_get k cnt (ua_d a)) (\<lambda>xs. Inr (a\<lparr>dead := dead a @ map Some xs\<rparr>))"

text \<open>\<open>copy\<close> or \<open>memcpy\<close>, \<open>init\<close> or \<open>memset\<close>.\<close>

definition copied :: "'e icd \<Rightarrow> 'e \<Rightarrow> 'e" where
  "copied ic p = (case ic_copy ic of Some f \<Rightarrow> f p | None \<Rightarrow> p)"

definition fresh :: "'e icd \<Rightarrow> 'e" where
  "fresh ic = (case ic_init ic of Some v \<Rightarrow> v | None \<Rightarrow> ic_zero ic)"

definition ua_put :: "nat \<Rightarrow> 'e list \<Rightarrow> 'e ut_array \<Rightarrow> 'e ut_array res" where
  "ua_put k xs a = andThen (slots_put k xs (ua_d a)) (\<lambda>d. Inr (a\<lparr>ua_d := d\<rparr>))"

definition ua_move :: "nat \<Rightarrow> nat \<Rightarrow> nat \<Rightarrow> 'e ut_array \<Rightarrow> 'e ut_array res" where
  "ua_move to from cnt a = andThen (slots_move to from cnt (ua_d a)) (\<lambda>d. Inr (a\<lparr>ua_d := d\<rparr>))"

section \<open>The macros\<close>

definition utarray_init :: "'e icd \<Rightarrow> 'e ut_array" where
  "utarray_init ic = \<lparr>ua_i = 0, ua_n = 0, ua_icd = ic, ua_d = SNull, dead = []\<rparr>"

definition utarray_done :: "'e ut_array \<Rightarrow> 'e ut_array res" where
  "utarray_done a =
     (if ua_n a \<noteq> 0
      then andThen (if ic_dtor (ua_icd a) then destroy 0 (unat (ua_i a)) a else Inr a) (\<lambda>a.
        case ua_d a of SFreed \<Rightarrow> Inl DanglingDeref
        | SNull \<Rightarrow> Inr (a\<lparr>ua_n := 0\<rparr>) | SBlk _ \<Rightarrow> Inr (a\<lparr>ua_d := SFreed, ua_n := 0\<rparr>))
      else Inr (a\<lparr>ua_n := 0\<rparr>))"

definition utarray_new :: "env \<Rightarrow> 'e icd \<Rightarrow> 's os_scheme \<Rightarrow> ('e ut_array \<times> 's os_scheme) res" where
  "utarray_new E ic s = (if e_malloc E (tick s) then Inr (utarray_init ic, step s) else Inl (Exit (-1)))"

text \<open>\<open>while (i + by > n) n = n ? 2 * n : 8;\<close>\<close>

fun grow :: "nat \<Rightarrow> u32 \<Rightarrow> u32 \<Rightarrow> u32 res" where
  "grow k need n =
     (if n < need then (case k of 0 \<Rightarrow> Inl Diverge | Suc k \<Rightarrow> grow k need (if n \<noteq> 0 then 2 * n else 8)) else Inr n)"

declare grow.simps [simp del]

definition utarray_reserve :: "env \<Rightarrow> u32 \<Rightarrow> 'e ut_array \<Rightarrow> 's os_scheme \<Rightarrow> ('e ut_array \<times> 's os_scheme) res" where
  "utarray_reserve E by a s =
     (if ua_n a < ua_i a + by
      then andThen (grow 32 (ua_i a + by) (ua_n a)) (\<lambda>n.
        andThen (slots_realloc E (unat n) (ua_d a) s) (\<lambda>(tmp, s).
          if tmp = SNull then Inl (Exit (-1)) else Inr (a\<lparr>ua_n := n, ua_d := tmp\<rparr>, s)))
      else Inr (a, s))"

definition utarray_push_back :: "env \<Rightarrow> 'e \<Rightarrow> 'e ut_array \<Rightarrow> 's os_scheme \<Rightarrow> ('e ut_array \<times> 's os_scheme) res" where
  "utarray_push_back E p a s =
     andThen (utarray_reserve E 1 a s) (\<lambda>(a, s).
     andThen (ua_put (unat (ua_i a)) [copied (ua_icd a) p] a) (\<lambda>a. Inr (a\<lparr>ua_i := ua_i a + 1\<rparr>, s)))"

definition utarray_pop_back :: "'e ut_array \<Rightarrow> 'e ut_array res" where
  "utarray_pop_back a =
     (let a = a\<lparr>ua_i := ua_i a - 1\<rparr> in if ic_dtor (ua_icd a) then destroy (unat (ua_i a)) 1 a else Inr a)"

definition utarray_extend_back :: "env \<Rightarrow> 'e ut_array \<Rightarrow> 's os_scheme \<Rightarrow> ('e ut_array \<times> 's os_scheme) res" where
  "utarray_extend_back E a s =
     andThen (utarray_reserve E 1 a s) (\<lambda>(a, s).
     andThen (ua_put (unat (ua_i a)) [fresh (ua_icd a)] a) (\<lambda>a. Inr (a\<lparr>ua_i := ua_i a + 1\<rparr>, s)))"

definition utarray_len :: "'e ut_array \<Rightarrow> u32" where
  "utarray_len a = ua_i a"

text \<open>A pointer to an element is the index of its slot.\<close>

definition utarray_eltptr :: "'e ut_array \<Rightarrow> u32 \<Rightarrow> u32 option" where
  "utarray_eltptr a j = (if j < ua_i a then Some j else None)"

definition utarray_resize :: "env \<Rightarrow> u32 \<Rightarrow> 'e ut_array \<Rightarrow> 's os_scheme \<Rightarrow> ('e ut_array \<times> 's os_scheme) res" where
  "utarray_resize E num a s =
     andThen
       (if num < ua_i a
        then if ic_dtor (ua_icd a)
          then andThen (destroy (unat num) (unat (ua_i a) - unat num) a) (\<lambda>a. Inr (a, s)) else Inr (a, s)
        else if ua_i a < num
        then andThen (utarray_reserve E (num - ua_i a) a s) (\<lambda>(a, s).
          andThen (ua_put (unat (ua_i a)) (replicate (unat num - unat (ua_i a)) (fresh (ua_icd a))) a) (\<lambda>a. Inr (a, s)))
        else Inr (a, s))
       (\<lambda>(a, s). Inr (a\<lparr>ua_i := num\<rparr>, s))"

definition utarray_insert :: "env \<Rightarrow> 'e \<Rightarrow> u32 \<Rightarrow> 'e ut_array \<Rightarrow> 's os_scheme \<Rightarrow> ('e ut_array \<times> 's os_scheme) res" where
  "utarray_insert E p j a s =
     andThen (if ua_i a < j then utarray_resize E j a s else Inr (a, s)) (\<lambda>(a, s).
     andThen (utarray_reserve E 1 a s) (\<lambda>(a, s).
     andThen (if j < ua_i a then ua_move (unat (j + 1)) (unat j) (unat (ua_i a - j)) a else Inr a) (\<lambda>a.
     andThen (ua_put (unat j) [copied (ua_icd a) p] a) (\<lambda>a. Inr (a\<lparr>ua_i := ua_i a + 1\<rparr>, s)))))"

text \<open>\<open>utarray_inserta(a, w, j)\<close> of two different arrays; the elements of \<open>w\<close> are read one by one.\<close>

definition ua_elems :: "'e ut_array \<Rightarrow> 'e list res" where
  "ua_elems w = andThen (slots_get 0 (unat (ua_i w)) (ua_d w)) (\<lambda>xs.
     if None \<in> set xs then Inl UninitRead else Inr (map the xs))"

definition utarray_inserta ::
  "env \<Rightarrow> 'e ut_array \<Rightarrow> u32 \<Rightarrow> 'e ut_array \<Rightarrow> 's os_scheme \<Rightarrow> ('e ut_array \<times> 's os_scheme) res" where
  "utarray_inserta E w j a s =
     (if utarray_len w = 0 then Inr (a, s)
      else andThen (if ua_i a < j then utarray_resize E j a s else Inr (a, s)) (\<lambda>(a, s).
        andThen (utarray_reserve E (utarray_len w) a s) (\<lambda>(a, s).
        andThen (if j < ua_i a then ua_move (unat (j + utarray_len w)) (unat j) (unat (ua_i a - j)) a else Inr a) (\<lambda>a.
        andThen (ua_elems w) (\<lambda>xs.
        andThen (ua_put (unat j) (map (copied (ua_icd a)) xs) a) (\<lambda>a.
          Inr (a\<lparr>ua_i := ua_i a + utarray_len w\<rparr>, s)))))))"

definition utarray_concat :: "env \<Rightarrow> 'e ut_array \<Rightarrow> 'e ut_array \<Rightarrow> 's os_scheme \<Rightarrow> ('e ut_array \<times> 's os_scheme) res" where
  "utarray_concat E src dst s = utarray_inserta E src (utarray_len dst) dst s"

text \<open>\<open>utarray_erase\<close>: the destructor gets NULL for an index beyond the end.\<close>

fun erase_loop :: "nat \<Rightarrow> u32 \<Rightarrow> 'e ut_array \<Rightarrow> 'e ut_array res" where
  "erase_loop 0 j a = Inr a"
| "erase_loop (Suc n) j a =
     andThen (case utarray_eltptr a j of None \<Rightarrow> Inr (a\<lparr>dead := dead a @ [None]\<rparr>) | Some k \<Rightarrow> destroy (unat k) 1 a)
       (erase_loop n (j + 1))"

definition utarray_erase :: "u32 \<Rightarrow> u32 \<Rightarrow> 'e ut_array \<Rightarrow> 'e ut_array res" where
  "utarray_erase pos len a =
     andThen (if ic_dtor (ua_icd a) then erase_loop (unat len) pos a else Inr a) (\<lambda>a.
     andThen (if pos + len < ua_i a then ua_move (unat pos) (unat (pos + len)) (unat (ua_i a - (pos + len))) a else Inr a)
       (\<lambda>a. Inr (a\<lparr>ua_i := ua_i a - len\<rparr>)))"

definition utarray_clear :: "'e ut_array \<Rightarrow> 'e ut_array res" where
  "utarray_clear a =
     (if 0 < ua_i a
      then andThen (if ic_dtor (ua_icd a) then destroy 0 (unat (ua_i a)) a else Inr a) (\<lambda>a. Inr (a\<lparr>ua_i := 0\<rparr>))
      else Inr a)"

definition utarray_renew ::
  "env \<Rightarrow> 'e icd \<Rightarrow> 'e ut_array option \<Rightarrow> 's os_scheme \<Rightarrow> ('e ut_array \<times> 's os_scheme) res" where
  "utarray_renew E ic p s =
     (case p of Some a \<Rightarrow> andThen (utarray_clear a) (\<lambda>a. Inr (a, s)) | None \<Rightarrow> utarray_new E ic s)"

text \<open>Iteration. \<open>utarray_eltidx\<close> of a pointer to an element is the index of its slot, as a \<open>size_t\<close>.\<close>

definition utarray_front :: "'e ut_array \<Rightarrow> u32 option" where
  "utarray_front a = (if ua_i a \<noteq> 0 then Some 0 else None)"

definition utarray_back :: "'e ut_array \<Rightarrow> u32 option" where
  "utarray_back a = (if ua_i a \<noteq> 0 then Some (ua_i a - 1) else None)"

definition utarray_next :: "'e ut_array \<Rightarrow> u32 option \<Rightarrow> u32 option" where
  "utarray_next a e =
     (case e of None \<Rightarrow> utarray_front a
      | Some k \<Rightarrow> if (ucast k :: size_t) + 1 < ucast (ua_i a) then Some (k + 1) else None)"

definition utarray_prev :: "'e ut_array \<Rightarrow> u32 option \<Rightarrow> u32 option" where
  "utarray_prev a e =
     (case e of None \<Rightarrow> utarray_back a | Some k \<Rightarrow> if 0 < (ucast k :: size_t) then Some (k - 1) else None)"

section \<open>Capacities\<close>

text \<open>A capacity is 0 or a power of two from 8 to 2^31.\<close>

definition cap :: "u32 \<Rightarrow> bool" where
  "cap n \<longleftrightarrow> n = 0 \<or> (\<exists>k. 3 \<le> k \<and> k \<le> 31 \<and> n = 2 ^ k)"

lemma unat_pow: "k < 32 \<Longrightarrow> unat (2 ^ k :: u32) = 2 ^ k"
proof -
  assume "k < 32"
  then have "(2 :: nat) ^ k < 2 ^ 32" by (intro power_strict_increasing) simp_all
  then have "unat (of_nat (2 ^ k) :: u32) = 2 ^ k" by (simp only: unat_of_nat) simp
  then show ?thesis by simp
qed

lemma cap_max: "cap n \<Longrightarrow> unat n \<le> 2 ^ 31"
  using power_increasing [of _ 31 "2 :: nat"] by (auto simp: cap_def unat_pow)

lemma cap_8: "cap 8"
  unfolding cap_def by (rule disjI2, rule exI [of _ 3]) simp

lemma cap_double: "cap n \<Longrightarrow> n \<noteq> 0 \<Longrightarrow> cap (2 * n)"
proof -
  assume "cap n" "n \<noteq> 0"
  then obtain k where k: "3 \<le> k" "k \<le> 31" "n = 2 ^ k" by (auto simp: cap_def)
  show "cap (2 * n)"
  proof (cases "k = 31")
    case True
    with k(3) have "2 * n = 2 ^ 32" by simp
    also have "(2 ^ 32 :: u32) = 0" by simp
    finally show ?thesis by (simp add: cap_def)
  next
    case False
    with k show ?thesis unfolding cap_def by (intro disjI2 exI [of _ "Suc k"]) simp
  qed
qed

text \<open>More than 2^31 slots: the capacity doubles to 0, and the loop starts again.\<close>

lemma grow_diverges: "2 ^ 31 < unat need \<Longrightarrow> cap n \<Longrightarrow> grow j need n = Inl Diverge"
proof (induction j arbitrary: n)
  case (0 n)
  then show ?case using cap_max [of n] by (simp add: grow.simps word_less_nat_alt)
next
  case (Suc j n)
  have "n < need" using cap_max [OF Suc.prems(2)] Suc.prems(1) by (simp add: word_less_nat_alt)
  with Suc.IH [OF Suc.prems(1)] Suc.prems(2) cap_8 cap_double show ?case by (simp add: grow.simps [of "Suc j"])
qed

lemma grow_pow:
  assumes "unat need \<le> 2 ^ 31"
  shows "3 \<le> k \<Longrightarrow> k \<le> 31 \<Longrightarrow> 31 - k \<le> j \<Longrightarrow>
    \<exists>m. 3 \<le> m \<and> m \<le> 31 \<and> grow j need (2 ^ k) = Inr (2 ^ m) \<and> unat need \<le> 2 ^ m \<and>
      (m = k \<or> 2 ^ m < 2 * unat need)"
proof (induction j arbitrary: k)
  case (0 k)
  then have "k = 31" by simp
  moreover have "\<not> (2 ^ 31 :: u32) < need" using assms by (simp add: word_less_nat_alt unat_pow)
  ultimately show ?case using assms by (intro exI [of _ 31]) (simp add: grow.simps)
next
  case (Suc j k)
  show ?case
  proof (cases "2 ^ k < need")
    case True
    then have lt: "2 ^ k < unat need" using Suc.prems(2) by (simp add: word_less_nat_alt unat_pow)
    then have "k \<noteq> 31" using assms by auto
    then have k: "3 \<le> Suc k" "Suc k \<le> 31" "31 - Suc k \<le> j" using Suc.prems by simp_all
    have "unat (2 ^ k :: u32) \<noteq> 0" using unat_pow [of k] Suc.prems(2) by simp
    then have "(2 :: u32) ^ k \<noteq> 0" by (metis unat_0)
    with Suc.IH [OF k] True lt show ?thesis by (auto simp: grow.simps [of "Suc j"])
  next
    case False
    with Suc.prems show ?thesis
      by (intro exI [of _ k]) (simp add: grow.simps [of "Suc j"] word_less_nat_alt unat_pow)
  qed
qed

lemma grow_ok:
  assumes "cap n" "unat need \<le> 2 ^ 31" "n < need"
  shows "\<exists>n'. grow 32 need n = Inr n' \<and> cap n' \<and> n' \<noteq> 0 \<and> unat need \<le> unat n' \<and>
    unat n' \<le> max 8 (2 * unat need) \<and> unat n \<le> unat n'"
proof -
  have step: "grow 32 need n = grow 31 need (if n \<noteq> 0 then 2 * n else 8)"
    using assms(3) by (simp add: grow.simps [of 32])
  have start: "\<exists>k. 3 \<le> k \<and> k \<le> 31 \<and> (if n \<noteq> 0 then 2 * n else 8) = 2 ^ k \<and> (k = 3 \<or> 2 ^ k < 2 * unat need)"
  proof (cases "n = 0")
    case True
    then show ?thesis by (intro exI [of _ 3]) simp
  next
    case False
    with assms(1) obtain k where k: "3 \<le> k" "k \<le> 31" "n = 2 ^ k" by (auto simp: cap_def)
    then have lt: "2 ^ k < unat need" using assms(3) by (simp add: word_less_nat_alt unat_pow)
    then have "k \<noteq> 31" using assms(2) by auto
    with k lt False show ?thesis by (intro exI [of _ "Suc k"]) simp
  qed
  then obtain k where k: "3 \<le> k" "k \<le> 31" "(if n \<noteq> 0 then 2 * n else 8) = 2 ^ k" "k = 3 \<or> 2 ^ k < 2 * unat need" by blast
  from grow_pow [OF assms(2) k(1,2), of 31] obtain m where
    m: "3 \<le> m" "m \<le> 31" "grow 31 need (2 ^ k) = Inr (2 ^ m)" "unat need \<le> 2 ^ m" "m = k \<or> 2 ^ m < 2 * unat need" by auto
  have u: "unat (2 ^ m :: u32) = 2 ^ m" using m(2) by (simp add: unat_pow)
  have "2 ^ m \<le> max 8 (2 * unat need)" using m(5) k(4) by auto
  moreover have "unat n \<le> 2 ^ m" using assms(3) m(4) by (simp add: word_less_nat_alt)
  moreover have "(2 :: u32) ^ m \<noteq> 0" using u by (metis power_not_zero unat_0 zero_neq_numeral)
  moreover have "cap (2 ^ m)" using m(1,2) by (auto simp: cap_def)
  ultimately show ?thesis using step k(3) m(3,4) u by auto
qed

end
