(* ===== verification/Utarray_Rep.thy ===== *)
theory Utarray_Rep
  imports Utarray
begin

text \<open>
  The dynamic array of \<^verbatim>\<open>local_lib/utarray.h\<close> stands for a list: every macro does to the list what its name
  says, as long as no more than 2^31 elements are asked for; the destructor is called on what goes.
\<close>

section \<open>Arrays with room\<close>

text \<open>The slots of an array are the list and at least \<open>k\<close> free ones.\<close>

definition ua_room :: "'e ut_array \<Rightarrow> 'e list \<Rightarrow> nat \<Rightarrow> bool" where
  "ua_room a xs k \<longleftrightarrow> (\<exists>rest. unat (ua_i a) = length xs \<and> unat (ua_n a) = length xs + length rest \<and> k \<le> length rest \<and>
     cap (ua_n a) \<and> ua_d a = (if ua_n a = 0 then SNull else SBlk (map Some xs @ rest)))"

abbreviation ua_rep :: "'e ut_array \<Rightarrow> 'e list \<Rightarrow> bool" where
  "ua_rep a xs \<equiv> ua_room a xs 0"

lemma ua_room_rep: "ua_room a xs k \<Longrightarrow> ua_rep a xs"
  by (auto simp: ua_room_def)

lemma ua_room_block:
  assumes "ua_room a xs k" "xs \<noteq> [] \<or> 0 < k"
  obtains rest where "ua_d a = SBlk (map Some xs @ rest)" "unat (ua_n a) = length xs + length rest" "k \<le> length rest"
    "unat (ua_i a) = length xs" "ua_n a \<noteq> 0" "cap (ua_n a)"
  using assms that by (cases xs; auto simp: ua_room_def split: if_splits)

lemma ua_room_len: "ua_room a xs k \<Longrightarrow> unat (ua_i a) = length xs" "ua_room a xs k \<Longrightarrow> length xs \<le> 2 ^ 31"
  using cap_max [of "ua_n a"] by (auto simp: ua_room_def)

lemma u32_plus: "m + unat (w :: u32) < 2 ^ 32 \<Longrightarrow> unat v = m \<Longrightarrow> unat (v + w) = m + unat w"
  by (simp add: unat_add_lem [THEN iffD1])

lemma unat_u32: "n < 2 ^ 32 \<Longrightarrow> unat (of_nat n :: u32) = n"
  by (simp add: unat_of_nat)

text \<open>Which fields an operation leaves as they were.\<close>

definition same_kind :: "'e ut_array \<Rightarrow> 'e ut_array \<Rightarrow> bool" where
  "same_kind a b \<longleftrightarrow> ua_icd b = ua_icd a \<and> dead b = dead a"

lemma same_kind_simps [simp]: "same_kind a a" "same_kind a b \<Longrightarrow> same_kind b c \<Longrightarrow> same_kind a c"
  "same_kind a (b\<lparr>ua_i := i\<rparr>) = same_kind a b" "same_kind a (b\<lparr>ua_d := d\<rparr>) = same_kind a b"
  "same_kind a (b\<lparr>ua_n := n\<rparr>) = same_kind a b"
  by (simp_all add: same_kind_def)

lemma ua_reserve_ok:
  assumes "ua_room a xs k" "\<And>n. e_malloc E n" "length xs + unat by \<le> 2 ^ 31"
  shows "\<exists>a' s'. utarray_reserve E by a s = Inr (a', s') \<and> ua_room a' xs (max k (unat by)) \<and> same_kind a a' \<and>
    unat (ua_n a') \<le> max (unat (ua_n a)) (max 8 (2 * (length xs + unat by)))"
proof -
  from assms(1) obtain rest where r: "unat (ua_i a) = length xs" "unat (ua_n a) = length xs + length rest" "k \<le> length rest"
    "cap (ua_n a)" "ua_d a = (if ua_n a = 0 then SNull else SBlk (map Some xs @ rest))" by (auto simp: ua_room_def)
  have need: "unat (ua_i a + by) = length xs + unat by" by (rule u32_plus [OF _ r(1)]) (use assms(3) in simp)
  show ?thesis
  proof (cases "ua_n a < ua_i a + by")
    case True
    from grow_ok [OF r(4) _ True] assms(3) need obtain n where n: "grow 32 (ua_i a + by) (ua_n a) = Inr n" "cap n" "n \<noteq> 0"
      "length xs + unat by \<le> unat n" "unat n \<le> max 8 (2 * (length xs + unat by))" "unat (ua_n a) \<le> unat n" by auto
    let ?rest = "rest @ replicate (unat n - length xs - length rest) None"
    let ?a = "a\<lparr>ua_n := n, ua_d := SBlk (map Some xs @ ?rest)\<rparr>"
    have len: "length xs + length rest \<le> unat n" using n(6) r(2) by simp
    have "slots_realloc E (unat n) (ua_d a) s = Inr (SBlk (map Some xs @ ?rest), step s)"
    proof (cases "ua_n a = 0")
      case True
      then have "xs = []" "rest = []" using r(2) by simp_all
      with True show ?thesis using r(5) assms(2) by (simp add: slots_realloc_def)
    next
      case False
      then show ?thesis using r(5) assms(2) len by (simp add: slots_realloc_def)
    qed
    then have "utarray_reserve E by a s = Inr (?a, step s)" using True n(1) by (simp add: utarray_reserve_def)
    moreover have "ua_room ?a xs (max k (unat by))"
      using r(1,3) n(2-4) len by (auto simp: ua_room_def)
    ultimately show ?thesis using n(5) by auto
  next
    case False
    then have "unat by \<le> length rest" using need r(2) by (simp add: word_less_nat_alt)
    with r have "ua_room a xs (max k (unat by))" by (auto simp: ua_room_def)
    with False show ?thesis by (auto simp: utarray_reserve_def)
  qed
qed

text \<open>Elements go into the gap that moving the rest of the array has made, or to its end.\<close>

lemma ua_splice_ok:
  assumes "ua_room a xs k" "length ys \<le> k" "ys \<noteq> []" "unat j \<le> length xs" "length ys = unat w"
  shows "\<exists>a'. andThen (if j < ua_i a then ua_move (unat (j + w)) (unat j) (unat (ua_i a - j)) a else Inr a)
      (ua_put (unat j) ys) = Inr a' \<and> ua_room (a'\<lparr>ua_i := ua_i a + w\<rparr>) (take (unat j) xs @ ys @ drop (unat j) xs) (k - length ys) \<and>
    same_kind a a' \<and> ua_i a' = ua_i a"
proof -
  have "0 < k" using assms(2,3) by (cases ys) auto
  from ua_room_block [OF assms(1)] this obtain rest where r: "ua_d a = SBlk (map Some xs @ rest)"
    "unat (ua_n a) = length xs + length rest" "k \<le> length rest" "unat (ua_i a) = length xs" "ua_n a \<noteq> 0" "cap (ua_n a)" by blast
  have lim: "length xs + length ys \<le> 2 ^ 31" using cap_max [OF r(6)] r(2,3) assms(2) by simp
  have i: "unat (ua_i a + w) = length xs + length ys" using u32_plus [OF _ r(4), of w] lim assms(5) by simp
  let ?m = "map Some (take (unat j) xs @ ys @ drop (unat j) xs) @ drop (length ys) rest"
  have room: "ua_room (a\<lparr>ua_d := SBlk ?m, ua_i := ua_i a + w\<rparr>) (take (unat j) xs @ ys @ drop (unat j) xs) (k - length ys)"
    using r i assms(2,4) by (auto simp: ua_room_def intro!: exI [of _ "drop (length ys) rest"])
  show ?thesis
  proof (cases "j < ua_i a")
    case True
    have jw: "unat (j + w) = unat j + length ys" using u32_plus [of "unat j" w j] lim assms(4,5) by simp
    have ij: "unat (ua_i a - j) = length xs - unat j" using True r(4) by (simp add: unat_sub less_imp_le)
    let ?b = "map Some xs @ rest"
    have "slots_move (unat (j + w)) (unat j) (unat (ua_i a - j)) (ua_d a)
      = Inr (SBlk (take (unat j + length ys) ?b @ take (length xs - unat j) (drop (unat j) ?b) @ drop (length xs + length ys) ?b))"
      using r assms(2,4) jw ij by (simp add: slots_move_def)
    moreover have "take (unat j) (take (unat j + length ys) ?b @ c) = take (unat j) (map Some xs)" for c
      using assms(4) by (simp add: min_def take_map)
    moreover have "length (take (unat j + length ys) ?b) = unat j + length ys"
      using r(3) assms(2,4) by simp
    ultimately have "andThen (ua_move (unat (j + w)) (unat j) (unat (ua_i a - j)) a) (ua_put (unat j) ys) = Inr (a\<lparr>ua_d := SBlk ?m\<rparr>)"
      using assms(2,4) r(3) by (simp add: ua_move_def ua_put_def slots_put_def take_map drop_map)
    with True room show ?thesis by auto
  next
    case False
    then have "unat j = length xs" using assms(4) r(4) by (simp add: word_less_nat_alt)
    then have "ua_put (unat j) ys a = Inr (a\<lparr>ua_d := SBlk ?m\<rparr>)" using r(1,3) assms(2) by (simp add: ua_put_def slots_put_def)
    with False room show ?thesis by auto
  qed
qed

lemma ua_append_ok:
  assumes "ua_room a xs k" "length ys \<le> k" "ys \<noteq> []" "length ys = unat w"
  shows "\<exists>a'. ua_put (unat (ua_i a)) ys a = Inr a' \<and> ua_room (a'\<lparr>ua_i := ua_i a + w\<rparr>) (xs @ ys) (k - length ys) \<and>
    same_kind a a' \<and> ua_i a' = ua_i a"
  using ua_splice_ok [OF assms(1-3) _ assms(4), of "ua_i a"] ua_room_len(1) [OF assms(1)] by simp

section \<open>The macros\<close>

text \<open>What a call leaves: the list, and the elements the destructor has been called on.\<close>

definition ua_after :: "'e ut_array \<Rightarrow> 'e list \<Rightarrow> 'e list \<Rightarrow> 'e ut_array \<Rightarrow> bool" where
  "ua_after a xs gone a' \<longleftrightarrow> ua_rep a' xs \<and> ua_icd a' = ua_icd a \<and>
     dead a' = dead a @ (if ic_dtor (ua_icd a) then map (Some \<circ> Some) gone else [])"

lemma ua_after_kind: "ua_room a' xs k \<Longrightarrow> same_kind a a' \<Longrightarrow> ua_after a xs [] a'"
  by (auto simp: ua_after_def same_kind_def dest: ua_room_rep)

lemma ua_after_trans: "same_kind a b \<Longrightarrow> ua_after b xs gone a' \<Longrightarrow> ua_after a xs gone a'"
  by (simp add: ua_after_def same_kind_def)

lemma ua_reserve_append_ok:
  assumes "ua_rep a xs" "\<And>n. e_malloc E n" "length xs + length ys \<le> 2 ^ 31" "ys \<noteq> []" "length ys = unat w"
  shows "\<exists>a1 a' s'. utarray_reserve E w a s = Inr (a1, s') \<and> ua_put (unat (ua_i a1)) ys a1 = Inr a' \<and>
    ua_icd a1 = ua_icd a \<and> ua_i a1 = ua_i a \<and> ua_i a' = ua_i a \<and> ua_after a (xs @ ys) [] (a'\<lparr>ua_i := ua_i a + w\<rparr>)"
proof -
  from ua_reserve_ok [OF assms(1,2), of w s] assms(3,5) obtain a1 s' where
    1: "utarray_reserve E w a s = Inr (a1, s')" "ua_room a1 xs (unat w)" "same_kind a a1" by auto
  from ua_append_ok [OF 1(2) _ assms(4,5)] assms(5) obtain a' where
    2: "ua_put (unat (ua_i a1)) ys a1 = Inr a'" "ua_room (a'\<lparr>ua_i := ua_i a1 + w\<rparr>) (xs @ ys) 0" "same_kind a1 a'"
      "ua_i a' = ua_i a1" by auto
  have i: "ua_i a1 = ua_i a" using ua_room_len(1) [OF 1(2)] ua_room_len(1) [OF assms(1)] by (metis word_unat_eq_iff)
  have "same_kind a (a'\<lparr>ua_i := ua_i a + w\<rparr>)" using 1(3) 2(3) by (auto simp: same_kind_def)
  with ua_after_kind [OF 2(2) [unfolded i]] 1 2(1,4) i show ?thesis by (auto simp: same_kind_def)
qed

lemma ua_push_back_ok:
  assumes "ua_rep a xs" "\<And>n. e_malloc E n" "length xs + 1 \<le> 2 ^ 31"
  shows "\<exists>a' s'. utarray_push_back E p a s = Inr (a', s') \<and> ua_after a (xs @ [copied (ua_icd a) p]) [] a'"
  using ua_reserve_append_ok [OF assms(1,2), of "[copied (ua_icd a) p]" 1 s] assms(3)
  by (auto simp: utarray_push_back_def)

lemma ua_extend_back_ok:
  assumes "ua_rep a xs" "\<And>n. e_malloc E n" "length xs + 1 \<le> 2 ^ 31"
  shows "\<exists>a' s'. utarray_extend_back E a s = Inr (a', s') \<and> ua_after a (xs @ [fresh (ua_icd a)]) [] a'"
  using ua_reserve_append_ok [OF assms(1,2), of "[fresh (ua_icd a)]" 1 s] assms(3)
  by (auto simp: utarray_extend_back_def)

text \<open>The destructor on a part of the list, and shortening the array.\<close>

lemma ua_destroy_ok:
  assumes "ua_rep a xs" "k + c \<le> length xs" "xs \<noteq> []"
  shows "destroy k c a = Inr (a\<lparr>dead := dead a @ map (Some \<circ> Some) (take c (drop k xs))\<rparr>)"
proof -
  from ua_room_block [OF assms(1)] assms(3) obtain rest where "ua_d a = SBlk (map Some xs @ rest)" by blast
  with assms(2) show ?thesis by (simp add: destroy_def slots_get_def take_map drop_map)
qed

lemma ua_shorten:
  assumes "ua_rep a xs" "unat m \<le> length xs"
  shows "ua_rep (a\<lparr>ua_i := m\<rparr>) (take (unat m) xs)"
proof -
  from assms(1) obtain rest where "unat (ua_n a) = length xs + length rest" "cap (ua_n a)"
    "ua_d a = (if ua_n a = 0 then SNull else SBlk (map Some xs @ rest))" by (auto simp: ua_room_def)
  moreover have "map Some xs = map Some (take (unat m) xs) @ map Some (drop (unat m) xs)"
    by (simp flip: map_append)
  ultimately show ?thesis using assms(2)
    by (auto simp: ua_room_def intro!: exI [of _ "map Some (drop (unat m) xs) @ rest"])
qed

lemma ua_rep_dead [simp]: "ua_room (a\<lparr>dead := d\<rparr>) xs k = ua_room a xs k"
  "ua_room (a\<lparr>dead := d, ua_i := i\<rparr>) xs k = ua_room (a\<lparr>ua_i := i\<rparr>) xs k"
  by (simp_all add: ua_room_def)

lemma ua_pop_back_ok:
  assumes "ua_rep a xs" "xs \<noteq> []"
  shows "\<exists>a'. utarray_pop_back a = Inr a' \<and> ua_after a (butlast xs) [last xs] a'"
proof -
  have "ua_i a \<noteq> 0" using ua_room_len(1) [OF assms(1)] assms(2) by (metis length_0_conv unat_0)
  then have i: "unat (ua_i a - 1) = length xs - 1" using ua_room_len(1) [OF assms(1)] by (simp add: unat_minus_one)
  obtain ys y where xs: "xs = ys @ [y]" using assms(2) by (cases xs rule: rev_cases) auto
  let ?a = "a\<lparr>ua_i := ua_i a - 1\<rparr>"
  from ua_shorten [OF assms(1), of "ua_i a - 1"] i xs have r: "ua_rep ?a ys" by simp
  from ua_room_block [OF assms(1)] assms(2) obtain rest where "ua_d a = SBlk (map Some xs @ rest)" by blast
  then have "destroy (unat (ua_i ?a)) 1 ?a = Inr (?a\<lparr>dead := dead a @ [Some (Some y)]\<rparr>)"
    using i xs by (simp add: destroy_def slots_get_def)
  with r xs show ?thesis by (auto simp: utarray_pop_back_def ua_after_def)
qed

lemma ua_resize_ok:
  assumes "ua_rep a xs" "\<And>n. e_malloc E n" "unat num \<le> 2 ^ 31"
  shows "\<exists>a' s'. utarray_resize E num a s = Inr (a', s') \<and> ua_i a' = num \<and>
    ua_after a (take (unat num) xs @ replicate (unat num - length xs) (fresh (ua_icd a))) (drop (unat num) xs) a'"
proof -
  note i = ua_room_len(1) [OF assms(1)]
  consider "num < ua_i a" | "ua_i a < num" | "num = ua_i a" by (rule linorder_cases)
  then show ?thesis
  proof cases
    case 1
    then have lt: "unat num < length xs" using i by (simp add: word_less_nat_alt)
    then have "xs \<noteq> []" by auto
    with ua_destroy_ok [OF assms(1), of "unat num" "length xs - unat num"] lt
    have "destroy (unat num) (unat (ua_i a) - unat num) a = Inr (a\<lparr>dead := dead a @ map (Some \<circ> Some) (drop (unat num) xs)\<rparr>)"
      by (simp add: i)
    with 1 ua_shorten [OF assms(1), of num] lt show ?thesis by (auto simp: utarray_resize_def ua_after_def)
  next
    case 2
    then have lt: "length xs < unat num" using i by (simp add: word_less_nat_alt)
    have w: "unat (num - ua_i a) = unat num - length xs" using 2 i by (simp add: unat_sub less_imp_le)
    let ?ys = "replicate (unat num - unat (ua_i a)) (fresh (ua_icd a))"
    from ua_reserve_append_ok [OF assms(1,2), of ?ys "num - ua_i a" s] w lt assms(3) i obtain a1 a' s' where
      r: "utarray_reserve E (num - ua_i a) a s = Inr (a1, s')" "ua_put (unat (ua_i a1)) ?ys a1 = Inr a'"
        "ua_icd a1 = ua_icd a" "ua_i a1 = ua_i a" "ua_after a (xs @ ?ys) [] (a'\<lparr>ua_i := num\<rparr>)" by auto
    with 2 lt i show ?thesis by (auto simp: utarray_resize_def)
  next
    case 3
    with assms(1) i show ?thesis by (auto simp: utarray_resize_def ua_after_def)
  qed
qed

text \<open>The array is made long enough first, and then the elements go in.\<close>

definition padded :: "'e \<Rightarrow> nat \<Rightarrow> 'e list \<Rightarrow> 'e list" where
  "padded v n xs = xs @ replicate (n - length xs) v"

lemma ua_pad_ok:
  assumes "ua_rep a xs" "\<And>n. e_malloc E n" "unat j \<le> 2 ^ 31"
  shows "\<exists>a' s'. (if ua_i a < j then utarray_resize E j a s else Inr (a, s)) = Inr (a', s') \<and>
    ua_after a (padded (fresh (ua_icd a)) (unat j) xs) [] a'"
proof (cases "ua_i a < j")
  case True
  then have "length xs < unat j" using ua_room_len(1) [OF assms(1)] by (simp add: word_less_nat_alt)
  with ua_resize_ok [OF assms, of s] True show ?thesis by (auto simp: padded_def ua_after_def)
next
  case False
  then have "unat j \<le> length xs" using ua_room_len(1) [OF assms(1)] by (simp add: word_less_nat_alt)
  with False assms(1) show ?thesis by (simp add: padded_def ua_after_def)
qed

lemma ua_insert_at_ok:
  assumes "ua_rep a xs" "\<And>n. e_malloc E n" "max (length xs) (unat j) + unat w \<le> 2 ^ 31" "length ys = unat w" "ys \<noteq> []"
  shows "\<exists>a1 s1 a2 s' a3. (if ua_i a < j then utarray_resize E j a s else Inr (a, s)) = Inr (a1, s1) \<and>
    utarray_reserve E w a1 s1 = Inr (a2, s') \<and> ua_icd a2 = ua_icd a \<and>
    andThen (if j < ua_i a2 then ua_move (unat (j + w)) (unat j) (unat (ua_i a2 - j)) a2 else Inr a2) (ua_put (unat j) ys) = Inr a3 \<and>
    ua_after a (let zs = padded (fresh (ua_icd a)) (unat j) xs in take (unat j) zs @ ys @ drop (unat j) zs) []
      (a3\<lparr>ua_i := ua_i a3 + w\<rparr>)"
proof -
  let ?zs = "padded (fresh (ua_icd a)) (unat j) xs"
  have len: "length ?zs = max (length xs) (unat j)" by (simp add: padded_def)
  have "unat j \<le> 2 ^ 31" using assms(3) by linarith
  from ua_pad_ok [OF assms(1,2) this, of s] obtain a1 s1 where
    1: "(if ua_i a < j then utarray_resize E j a s else Inr (a, s)) = Inr (a1, s1)" "ua_after a ?zs [] a1" by auto
  from ua_reserve_ok [of a1 ?zs 0 E w s1] assms(2,3) 1(2) len obtain a2 s' where
    2: "utarray_reserve E w a1 s1 = Inr (a2, s')" "ua_room a2 ?zs (unat w)" "same_kind a1 a2" by (auto simp: ua_after_def)
  from ua_splice_ok [OF 2(2) _ assms(5), of j w] assms(4) len obtain a3 where
    3: "andThen (if j < ua_i a2 then ua_move (unat (j + w)) (unat j) (unat (ua_i a2 - j)) a2 else Inr a2) (ua_put (unat j) ys) = Inr a3"
      "ua_rep (a3\<lparr>ua_i := ua_i a2 + w\<rparr>) (take (unat j) ?zs @ ys @ drop (unat j) ?zs)" "same_kind a2 a3" "ua_i a3 = ua_i a2" by auto
  have "ua_after a (take (unat j) ?zs @ ys @ drop (unat j) ?zs) [] (a3\<lparr>ua_i := ua_i a3 + w\<rparr>)" "ua_icd a2 = ua_icd a"
    using 1(2) 2(3) 3(2-4) by (auto simp: ua_after_def same_kind_def)
  with 1(1) 2(1) 3(1) show ?thesis by (auto simp: Let_def)
qed

definition ins_at :: "'e \<Rightarrow> nat \<Rightarrow> 'e list \<Rightarrow> 'e list \<Rightarrow> 'e list" where
  "ins_at v j ys xs = (let zs = padded v j xs in take j zs @ ys @ drop j zs)"

lemma ua_insert_ok:
  assumes "ua_rep a xs" "\<And>n. e_malloc E n" "max (length xs) (unat j) + 1 \<le> 2 ^ 31"
  shows "\<exists>a' s'. utarray_insert E p j a s = Inr (a', s') \<and>
    ua_after a (ins_at (fresh (ua_icd a)) (unat j) [copied (ua_icd a) p] xs) [] a'"
proof -
  from ua_insert_at_ok [OF assms(1,2), of j 1 "[copied (ua_icd a) p]" s] assms(3) obtain a1 s1 a2 s' a3 where
    1: "(if ua_i a < j then utarray_resize E j a s else Inr (a, s)) = Inr (a1, s1)" "utarray_reserve E 1 a1 s1 = Inr (a2, s')"
      "ua_icd a2 = ua_icd a"
      "andThen (if j < ua_i a2 then ua_move (unat (j + 1)) (unat j) (unat (ua_i a2 - j)) a2 else Inr a2)
        (ua_put (unat j) [copied (ua_icd a) p]) = Inr a3"
      "ua_after a (ins_at (fresh (ua_icd a)) (unat j) [copied (ua_icd a) p] xs) [] (a3\<lparr>ua_i := ua_i a3 + 1\<rparr>)"
    by (auto simp: ins_at_def)
  from 1(4) obtain b where b: "(if j < ua_i a2 then ua_move (unat (j + 1)) (unat j) (unat (ua_i a2 - j)) a2 else Inr a2) = Inr b"
    "ua_put (unat j) [copied (ua_icd a) p] b = Inr a3" by (auto simp: andThen_eq_Inr)
  have "ua_icd b = ua_icd a" using b(1) 1(3) by (auto simp: ua_move_def andThen_eq_Inr split: if_splits)
  with 1 b show ?thesis by (auto simp: utarray_insert_def)
qed

lemma ua_elems_ok:
  assumes "ua_rep w ys" "ys \<noteq> []"
  shows "ua_elems w = Inr ys"
proof -
  from ua_room_block [OF assms(1)] assms(2) obtain rest where "ua_d w = SBlk (map Some ys @ rest)" "unat (ua_i w) = length ys" by blast
  then show ?thesis by (auto simp: ua_elems_def slots_get_def comp_def)
qed

lemma ua_inserta_ok:
  assumes "ua_rep a xs" "ua_rep w ys" "\<And>n. e_malloc E n" "max (length xs) (unat j) + length ys \<le> 2 ^ 31"
  shows "\<exists>a' s'. utarray_inserta E w j a s = Inr (a', s') \<and>
    ua_after a (if ys = [] then xs else ins_at (fresh (ua_icd a)) (unat j) (map (copied (ua_icd a)) ys) xs) [] a'"
proof (cases "ys = []")
  case True
  then have "ua_i w = 0" using ua_room_len(1) [OF assms(2)] by (metis list.size(3) unsigned_eq_0_iff)
  with True assms(1) show ?thesis by (simp add: utarray_inserta_def utarray_len_def ua_after_def)
next
  case False
  have w: "unat (ua_i w) = length ys" using ua_room_len(1) [OF assms(2)] .
  then have w0: "ua_i w \<noteq> 0" using False by (metis length_0_conv unat_0)
  let ?ys = "map (copied (ua_icd a)) ys"
  from ua_insert_at_ok [OF assms(1,3), of j "ua_i w" ?ys s] assms(4) w False obtain a1 s1 a2 s' a3 where
    1: "(if ua_i a < j then utarray_resize E j a s else Inr (a, s)) = Inr (a1, s1)" "utarray_reserve E (ua_i w) a1 s1 = Inr (a2, s')"
      "ua_icd a2 = ua_icd a"
      "andThen (if j < ua_i a2 then ua_move (unat (j + ua_i w)) (unat j) (unat (ua_i a2 - j)) a2 else Inr a2)
        (ua_put (unat j) ?ys) = Inr a3"
      "ua_after a (ins_at (fresh (ua_icd a)) (unat j) ?ys xs) [] (a3\<lparr>ua_i := ua_i a3 + ua_i w\<rparr>)"
    by (auto simp: ins_at_def)
  from 1(4) obtain b where
    b: "(if j < ua_i a2 then ua_move (unat (j + ua_i w)) (unat j) (unat (ua_i a2 - j)) a2 else Inr a2) = Inr b"
    "ua_put (unat j) ?ys b = Inr a3" by (auto simp: andThen_eq_Inr)
  have "ua_icd b = ua_icd a" using b(1) 1(3) by (auto simp: ua_move_def andThen_eq_Inr split: if_splits)
  with 1 b w0 False ua_elems_ok [OF assms(2) False] show ?thesis by (auto simp: utarray_inserta_def utarray_len_def)
qed

lemma ins_at_end: "ins_at v (length xs) ys xs = xs @ ys"
  by (simp add: ins_at_def padded_def)

lemma ua_concat_ok:
  assumes "ua_rep a xs" "ua_rep w ys" "\<And>n. e_malloc E n" "length xs + length ys \<le> 2 ^ 31"
  shows "\<exists>a' s'. utarray_concat E w a s = Inr (a', s') \<and> ua_after a (xs @ map (copied (ua_icd a)) ys) [] a'"
  using ua_inserta_ok [OF assms(1-3), of "ua_i a" s] assms(4) ua_room_len(1) [OF assms(1)]
  by (cases "ys = []") (simp_all add: utarray_concat_def utarray_len_def ins_at_end)

lemma erase_loop_ok:
  "ua_rep a xs \<Longrightarrow> unat j + n \<le> length xs \<Longrightarrow>
    erase_loop n j a = Inr (a\<lparr>dead := dead a @ map (Some \<circ> Some) (take n (drop (unat j) xs))\<rparr>)"
proof (induction n arbitrary: j a)
  case (Suc n j a)
  have lim: "length xs \<le> 2 ^ 31" by (rule ua_room_len(2) [OF Suc.prems(1)])
  have j: "unat (j + 1) = unat j + 1" using u32_plus [of "unat j" 1 j] Suc.prems(2) lim by simp
  have "utarray_eltptr a j = Some j"
    using Suc.prems(2) ua_room_len(1) [OF Suc.prems(1)] by (simp add: utarray_eltptr_def word_less_nat_alt)
  moreover have "xs \<noteq> []" using Suc.prems(2) by auto
  note ua_destroy_ok [OF Suc.prems(1) _ this, of "unat j" 1]
  moreover have "take (Suc n) (drop (unat j) xs) = take 1 (drop (unat j) xs) @ take n (drop (Suc (unat j)) xs)"
    using take_add [of 1 n "drop (unat j) xs"] by simp
  ultimately show ?case using Suc.IH [of "a\<lparr>dead := dead a @ map (Some \<circ> Some) (take 1 (drop (unat j) xs))\<rparr>" "j + 1"] Suc.prems j
    by simp
qed simp

lemma ua_erase_ok:
  assumes "ua_rep a xs" "unat pos + unat len \<le> length xs"
  shows "\<exists>a'. utarray_erase pos len a = Inr a' \<and>
    ua_after a (take (unat pos) xs @ drop (unat pos + unat len) xs) (take (unat len) (drop (unat pos) xs)) a'"
proof -
  note i = ua_room_len [OF assms(1)]
  let ?gone = "take (unat len) (drop (unat pos) xs)"
  let ?a = "a\<lparr>dead := dead a @ (if ic_dtor (ua_icd a) then map (Some \<circ> Some) ?gone else [])\<rparr>"
  have 1: "(if ic_dtor (ua_icd a) then erase_loop (unat len) pos a else Inr a) = Inr ?a"
    using erase_loop_ok [OF assms] by simp
  have pl: "unat (pos + len) = unat pos + unat len" using u32_plus [of "unat pos" len pos] assms(2) i(2) by simp
  have il: "unat (ua_i a - len) = length xs - unat len" using assms(2) i(1) by (simp add: unat_sub word_le_nat_alt)
  show ?thesis
  proof (cases "pos + len < ua_i a")
    case True
    then have lt: "unat pos + unat len < length xs" using pl i(1) by (simp add: word_less_nat_alt)
    then have "xs \<noteq> []" by auto
    with ua_room_block [OF assms(1)] obtain rest where r: "ua_d a = SBlk (map Some xs @ rest)"
      "unat (ua_n a) = length xs + length rest" "ua_n a \<noteq> 0" "cap (ua_n a)" by blast
    have c: "unat (ua_i a - (pos + len)) = length xs - (unat pos + unat len)"
      using True i(1) pl by (simp add: unat_sub less_imp_le)
    let ?b = "map Some xs @ rest"
    let ?m = "take (unat pos) ?b @ take (length xs - (unat pos + unat len)) (drop (unat pos + unat len) ?b) @
      drop (unat pos + (length xs - (unat pos + unat len))) ?b"
    have 2: "ua_move (unat pos) (unat (pos + len)) (unat (ua_i a - (pos + len))) ?a = Inr (?a\<lparr>ua_d := SBlk ?m\<rparr>)"
      using r lt pl c by (simp add: ua_move_def slots_move_def)
    have m: "?m = map Some (take (unat pos) xs @ drop (unat pos + unat len) xs) @ (drop (length xs - unat len) ?b)"
      using lt by (simp add: take_map drop_map)
    have "ua_rep (?a\<lparr>ua_d := SBlk ?m, ua_i := ua_i a - len\<rparr>) (take (unat pos) xs @ drop (unat pos + unat len) xs)"
      unfolding m using r(2-4) il lt by (auto simp: ua_room_def intro!: exI [of _ "drop (length xs - unat len) ?b"])
    with 1 2 True show ?thesis by (auto simp: utarray_erase_def ua_after_def)
  next
    case False
    then have "unat pos + unat len = length xs" using pl i(1) assms(2) by (simp add: word_less_nat_alt)
    moreover from this have "length xs - unat len = unat pos" by simp
    ultimately have "ua_rep (a\<lparr>ua_i := ua_i a - len\<rparr>) (take (unat pos) xs @ drop (unat pos + unat len) xs)"
      using ua_shorten [OF assms(1), of "ua_i a - len"] il by simp
    with 1 False show ?thesis by (auto simp: utarray_erase_def ua_after_def)
  qed
qed

lemma ua_clear_ok:
  assumes "ua_rep a xs"
  shows "\<exists>a'. utarray_clear a = Inr a' \<and> ua_after a [] xs a'"
proof (cases "xs = []")
  case True
  then have "ua_i a = 0" using ua_room_len(1) [OF assms] by (metis list.size(3) unsigned_eq_0_iff)
  with True assms show ?thesis by (simp add: utarray_clear_def ua_after_def)
next
  case False
  then have "0 < ua_i a" using ua_room_len(1) [OF assms] by (simp add: word_less_nat_alt)
  moreover have "destroy 0 (unat (ua_i a)) a = Inr (a\<lparr>dead := dead a @ map (Some \<circ> Some) xs\<rparr>)"
    using ua_destroy_ok [OF assms, of 0 "length xs"] False ua_room_len(1) [OF assms] by simp
  ultimately show ?thesis using ua_shorten [OF assms, of 0] by (auto simp: utarray_clear_def ua_after_def)
qed

text \<open>At the end every element has been given to the destructor, and the block is freed.\<close>

lemma ua_done_ok:
  assumes "ua_rep a xs"
  shows "\<exists>a'. utarray_done a = Inr a' \<and> ua_n a' = 0 \<and> (ua_d a' = SFreed \<or> ua_d a' = SNull \<and> xs = []) \<and>
    dead a' = dead a @ (if ic_dtor (ua_icd a) then map (Some \<circ> Some) xs else [])"
proof (cases "ua_n a = 0")
  case True
  then have "xs = []" "ua_d a = SNull" using assms by (auto simp: ua_room_def)
  with True show ?thesis by (simp add: utarray_done_def)
next
  case False
  from assms False obtain rest where d: "ua_d a = SBlk (map Some xs @ rest)" "unat (ua_i a) = length xs" by (auto simp: ua_room_def)
  then have "destroy 0 (unat (ua_i a)) a = Inr (a\<lparr>dead := dead a @ map (Some \<circ> Some) xs\<rparr>)"
    by (simp add: destroy_def slots_get_def)
  with False d show ?thesis by (auto simp: utarray_done_def)
qed

section \<open>Histories\<close>

datatype 'e ua_op =
    Push 'e
  | Pop
  | Extend
  | Insert 'e u32
  | Inserta "'e ut_array" u32
  | Concat "'e ut_array"
  | Resize u32
  | Erase u32 u32
  | Clear

fun ua_call :: "env \<Rightarrow> 'e ua_op \<Rightarrow> 'e ut_array \<Rightarrow> 's os_scheme \<Rightarrow> ('e ut_array \<times> 's os_scheme) res" where
  "ua_call E (Push p) a s = utarray_push_back E p a s"
| "ua_call E Pop a s = andThen (utarray_pop_back a) (\<lambda>a. Inr (a, s))"
| "ua_call E Extend a s = utarray_extend_back E a s"
| "ua_call E (Insert p j) a s = utarray_insert E p j a s"
| "ua_call E (Inserta w j) a s = utarray_inserta E w j a s"
| "ua_call E (Concat w) a s = utarray_concat E w a s"
| "ua_call E (Resize n) a s = utarray_resize E n a s"
| "ua_call E (Erase pos len) a s = andThen (utarray_erase pos len a) (\<lambda>a. Inr (a, s))"
| "ua_call E Clear a s = andThen (utarray_clear a) (\<lambda>a. Inr (a, s))"

fun ua_run :: "env \<Rightarrow> 'e ua_op list \<Rightarrow> 'e ut_array \<Rightarrow> 's os_scheme \<Rightarrow> ('e ut_array \<times> 's os_scheme) res" where
  "ua_run E [] a s = Inr (a, s)"
| "ua_run E (x # xs) a s = andThen (ua_call E x a s) (\<lambda>(a, s). ua_run E xs a s)"

text \<open>The list after an operation, and what the destructor is called on.\<close>

fun ua_spec :: "'e icd \<Rightarrow> 'e ua_op \<Rightarrow> 'e list \<Rightarrow> 'e list \<Rightarrow> 'e list \<times> 'e list" where
  "ua_spec ic (Push p) ys xs = (xs @ [copied ic p], [])"
| "ua_spec ic Pop ys xs = (butlast xs, [last xs])"
| "ua_spec ic Extend ys xs = (xs @ [fresh ic], [])"
| "ua_spec ic (Insert p j) ys xs = (ins_at (fresh ic) (unat j) [copied ic p] xs, [])"
| "ua_spec ic (Inserta w j) ys xs =
     (if ys = [] then xs else ins_at (fresh ic) (unat j) (map (copied ic) ys) xs, [])"
| "ua_spec ic (Concat w) ys xs = (xs @ map (copied ic) ys, [])"
| "ua_spec ic (Resize n) ys xs =
     (take (unat n) xs @ replicate (unat n - length xs) (fresh ic), drop (unat n) xs)"
| "ua_spec ic (Erase pos len) ys xs =
     (take (unat pos) xs @ drop (unat pos + unat len) xs, take (unat len) (drop (unat pos) xs))"
| "ua_spec ic Clear ys xs = ([], xs)"

text \<open>What an operation asks for; \<open>ys\<close> is the list its other array stands for.\<close>

fun ua_ok :: "'e ua_op \<Rightarrow> 'e list \<Rightarrow> 'e list \<Rightarrow> bool" where
  "ua_ok (Push p) ys xs \<longleftrightarrow> length xs + 1 \<le> 2 ^ 31"
| "ua_ok Pop ys xs \<longleftrightarrow> xs \<noteq> []"
| "ua_ok Extend ys xs \<longleftrightarrow> length xs + 1 \<le> 2 ^ 31"
| "ua_ok (Insert p j) ys xs \<longleftrightarrow> max (length xs) (unat j) + 1 \<le> 2 ^ 31"
| "ua_ok (Inserta w j) ys xs \<longleftrightarrow> ua_rep w ys \<and> max (length xs) (unat j) + length ys \<le> 2 ^ 31"
| "ua_ok (Concat w) ys xs \<longleftrightarrow> ua_rep w ys \<and> length xs + length ys \<le> 2 ^ 31"
| "ua_ok (Resize n) ys xs \<longleftrightarrow> unat n \<le> 2 ^ 31"
| "ua_ok (Erase pos len) ys xs \<longleftrightarrow> unat pos + unat len \<le> length xs"
| "ua_ok Clear ys xs \<longleftrightarrow> True"

fun ua_specs :: "'e icd \<Rightarrow> ('e ua_op \<times> 'e list) list \<Rightarrow> 'e list \<Rightarrow> 'e list \<times> 'e list" where
  "ua_specs ic [] xs = (xs, [])"
| "ua_specs ic ((x, ys) # ops) xs =
     (let (zs, gone) = ua_spec ic x ys xs; (zs, gone') = ua_specs ic ops zs in (zs, gone @ gone'))"

fun ua_oks :: "'e icd \<Rightarrow> ('e ua_op \<times> 'e list) list \<Rightarrow> 'e list \<Rightarrow> bool" where
  "ua_oks ic [] xs \<longleftrightarrow> True"
| "ua_oks ic ((x, ys) # ops) xs \<longleftrightarrow> ua_ok x ys xs \<and> ua_oks ic ops (fst (ua_spec ic x ys xs))"

lemma ua_call_ok:
  assumes "ua_rep a xs" "ua_ok x ys xs" "\<And>n. e_malloc E n"
  shows "\<exists>a' s'. ua_call E x a s = Inr (a', s') \<and>
    ua_after a (fst (ua_spec (ua_icd a) x ys xs)) (snd (ua_spec (ua_icd a) x ys xs)) a'"
proof (cases x)
  case (Push p)
  with ua_push_back_ok [OF assms(1,3), of p s] assms(2) show ?thesis by simp
next
  case Pop
  with ua_pop_back_ok [OF assms(1)] assms(2) show ?thesis by auto
next
  case Extend
  with ua_extend_back_ok [OF assms(1,3), of s] assms(2) show ?thesis by simp
next
  case (Insert p j)
  with ua_insert_ok [OF assms(1,3), of j p s] assms(2) show ?thesis by simp
next
  case (Inserta w j)
  with ua_inserta_ok [OF assms(1) _ assms(3), of w ys j s] assms(2) show ?thesis by simp
next
  case (Concat w)
  with ua_concat_ok [OF assms(1) _ assms(3), of w ys s] assms(2) show ?thesis by simp
next
  case (Resize n)
  with ua_resize_ok [OF assms(1,3), of n s] assms(2) show ?thesis by auto
next
  case (Erase pos len)
  with ua_erase_ok [OF assms(1), of pos len] assms(2) show ?thesis by auto
next
  case Clear
  with ua_clear_ok [OF assms(1)] show ?thesis by auto
qed

text \<open>
  C28: over any history of the array macros within their contract (nothing popped from an empty
  array or erased beyond the end, never more than 2^31 elements), with memory, an array stands for the
  list that the same history makes of a list, and the destructor has been called exactly on the
  elements that went, in their order.
\<close>

theorem utarray_refines_list:
  assumes "ua_rep a xs" "ua_oks (ua_icd a) ops xs" "\<And>n. e_malloc E n"
  shows "\<exists>a' s'. ua_run E (map fst ops) a s = Inr (a', s') \<and>
    ua_after a (fst (ua_specs (ua_icd a) ops xs)) (snd (ua_specs (ua_icd a) ops xs)) a'"
  using assms(1,2)
proof (induction ops arbitrary: a xs s)
  case Nil
  then show ?case by (simp add: ua_after_def)
next
  case (Cons c ops)
  obtain x ys where o: "c = (x, ys)" by (cases c)
  obtain zs gone where z: "ua_spec (ua_icd a) x ys xs = (zs, gone)" by (cases "ua_spec (ua_icd a) x ys xs")
  from ua_call_ok [OF Cons.prems(1) _ assms(3), of x ys s] Cons.prems(2) o z obtain a1 s1 where
    1: "ua_call E x a s = Inr (a1, s1)" "ua_after a zs gone a1" by auto
  then have "ua_rep a1 zs" "ua_icd a1 = ua_icd a" by (auto simp: ua_after_def)
  with Cons.IH [of a1 zs s1] Cons.prems(2) o z 1 show ?case
    by (auto simp: ua_after_def split: prod.split)
qed

text \<open>
  Asking for room for more than 2^31 elements never ends: the capacity is an \<open>unsigned\<close> that
  doubles from 2^31 to 0 and starts again at 8, whatever the number of turns.
\<close>

theorem utarray_reserve_never_ends:
  assumes "ua_rep a xs" "2 ^ 31 < length xs + unat by" "length xs + unat by < 2 ^ 32"
  shows "utarray_reserve E by a s = Inl Diverge \<and> (\<forall>k. grow k (ua_i a + by) (ua_n a) = Inl Diverge)"
proof -
  have c: "cap (ua_n a)" using assms(1) by (auto simp: ua_room_def)
  have "unat (ua_i a + by) = length xs + unat by" using u32_plus [OF assms(3) ua_room_len(1) [OF assms(1)]] .
  with assms(2) have need: "2 ^ 31 < unat (ua_i a + by)" by simp
  then have "ua_n a < ua_i a + by" using cap_max [OF c] by (simp add: word_less_nat_alt)
  with grow_diverges [OF need c] show ?thesis by (simp add: utarray_reserve_def)
qed

section \<open>Witnesses\<close>

definition int_icd :: "int icd" where
  "int_icd = \<lparr>ic_init = None, ic_copy = None, ic_dtor = True, ic_zero = 0\<rparr>"

lemma init_rep: "ua_rep (utarray_init ic) []"
  by (simp add: ua_room_def utarray_init_def cap_def)

theorem utarray_refines_list_witness:
  "\<exists>a s. ua_run demo_env [Push 5, Insert 7 2, Push 9, Erase 0 2, Pop] (utarray_init int_icd) demo_os = Inr (a, s) \<and>
     ua_rep a [7] \<and> dead a = [Some (Some 5), Some (Some 0), Some (Some 9)]"
proof -
  have mem: "\<And>n. e_malloc demo_env n" by (simp add: demo_env_def)
  let ?ops = "[(Push 5, []), (Insert 7 2, []), (Push 9, []), (Erase 0 2, []), (Pop, [])]"
  have "ua_oks (ua_icd (utarray_init int_icd)) ?ops []"
    "ua_specs (ua_icd (utarray_init int_icd)) ?ops [] = ([7], [5, 0, 9])"
    by (simp_all add: utarray_init_def int_icd_def ins_at_def padded_def copied_def fresh_def)
  with utarray_refines_list [OF init_rep _ mem, of int_icd ?ops demo_os] show ?thesis
    by (auto simp: ua_after_def utarray_init_def int_icd_def)
qed

theorem utarray_reserve_never_ends_witness:
  "utarray_reserve demo_env (2 ^ 31 + 1) (utarray_init int_icd) demo_os = Inl Diverge"
  using utarray_reserve_never_ends [OF init_rep, of "2 ^ 31 + 1" demo_env int_icd demo_os] by simp

end
