(* ===== verification/Utringbuffer.thy ===== *)
theory Utringbuffer
  imports Utarray_Rep
begin

text \<open>
  The ring buffer of \<^verbatim>\<open>local_lib/utringbuffer.h\<close>, with the elements, slots and user functions of the array:
  it stands for the last \<open>n\<close> elements that were put in. A pointer to an element is the index of its slot.
\<close>

section \<open>The macros\<close>

record 'e ut_ring =
  rb_i :: u32
  rb_n :: u32
  rb_f :: bool
  rb_icd :: "'e icd"
  rb_d :: "'e slots"
  rb_dead :: "'e option option list"

definition utringbuffer_init :: "env \<Rightarrow> u32 \<Rightarrow> 'e icd \<Rightarrow> 's os_scheme \<Rightarrow> 'e ut_ring \<times> 's os_scheme" where
  "utringbuffer_init E n ic s =
     (let a = \<lparr>rb_i = 0, rb_n = n, rb_f = False, rb_icd = ic, rb_d = SNull, rb_dead = []\<rparr> in
      if n \<noteq> 0
      then (if e_malloc E (tick s) then a\<lparr>rb_d := SBlk (replicate (unat n) None)\<rparr> else a, step s)
      else (a, s))"

definition utringbuffer_new :: "env \<Rightarrow> u32 \<Rightarrow> 'e icd \<Rightarrow> 's os_scheme \<Rightarrow> ('e ut_ring \<times> 's os_scheme) res" where
  "utringbuffer_new E n ic s =
     (if e_malloc E (tick s) then Inr (utringbuffer_init E n ic (step s)) else Inl NullDeref)"

definition utringbuffer_len :: "'e ut_ring \<Rightarrow> u32" where
  "utringbuffer_len a = (if rb_f a then rb_n a else rb_i a)"

definition utringbuffer_empty :: "'e ut_ring \<Rightarrow> bool" where
  "utringbuffer_empty a \<longleftrightarrow> rb_i a = 0 \<and> \<not> rb_f a"

definition utringbuffer_full :: "'e ut_ring \<Rightarrow> bool" where
  "utringbuffer_full a \<longleftrightarrow> rb_f a"

text \<open>The index of an element is an \<open>unsigned\<close> or a \<open>size_t\<close>; the sum wraps in the type of the index.\<close>

definition rb_real_idx :: "'e ut_ring \<Rightarrow> 'w::len word \<Rightarrow> 'w word" where
  "rb_real_idx a j = (if rb_f a then (j + ucast (rb_i a)) mod ucast (rb_n a) else j)"

definition utringbuffer_eltptr :: "'e ut_ring \<Rightarrow> 'w::len word \<Rightarrow> nat option" where
  "utringbuffer_eltptr a j = (if j < ucast (utringbuffer_len a) then Some (unat (rb_real_idx a j)) else None)"

definition rb_fake_idx :: "'e ut_ring \<Rightarrow> size_t \<Rightarrow> size_t" where
  "rb_fake_idx a j = (if rb_f a then (j + ucast (rb_n a) - ucast (rb_i a)) mod ucast (rb_n a) else j)"

definition utringbuffer_eltidx :: "'e ut_ring \<Rightarrow> nat \<Rightarrow> size_t" where
  "utringbuffer_eltidx a e = rb_fake_idx a (of_nat e)"

definition utringbuffer_front :: "'e ut_ring \<Rightarrow> nat option" where
  "utringbuffer_front a = utringbuffer_eltptr a (0 :: u32)"

definition utringbuffer_back :: "'e ut_ring \<Rightarrow> nat option" where
  "utringbuffer_back a = (if utringbuffer_empty a then None else utringbuffer_eltptr a (utringbuffer_len a - 1))"

definition utringbuffer_next :: "'e ut_ring \<Rightarrow> nat option \<Rightarrow> nat option" where
  "utringbuffer_next a e =
     (case e of None \<Rightarrow> utringbuffer_front a | Some e \<Rightarrow> utringbuffer_eltptr a (utringbuffer_eltidx a e + 1))"

definition utringbuffer_prev :: "'e ut_ring \<Rightarrow> nat option \<Rightarrow> nat option" where
  "utringbuffer_prev a e =
     (case e of None \<Rightarrow> utringbuffer_back a | Some e \<Rightarrow> utringbuffer_eltptr a (utringbuffer_eltidx a e - 1))"

definition rb_destroy :: "nat option \<Rightarrow> 'e ut_ring \<Rightarrow> 'e ut_ring res" where
  "rb_destroy p a =
     (case p of None \<Rightarrow> Inr (a\<lparr>rb_dead := rb_dead a @ [None]\<rparr>)
      | Some k \<Rightarrow> andThen (slots_get k 1 (rb_d a)) (\<lambda>xs. Inr (a\<lparr>rb_dead := rb_dead a @ map Some xs\<rparr>)))"

text \<open>\<open>for (_ut_i = j; n more times; ++_ut_i) dtor(eltptr(a, _ut_i));\<close>\<close>

fun rb_destroy_all :: "nat \<Rightarrow> u32 \<Rightarrow> 'e ut_ring \<Rightarrow> 'e ut_ring res" where
  "rb_destroy_all 0 j a = Inr a"
| "rb_destroy_all (Suc n) j a = andThen (rb_destroy (utringbuffer_eltptr a j) a) (rb_destroy_all n (j + 1))"

definition utringbuffer_clear :: "'e ut_ring \<Rightarrow> 'e ut_ring res" where
  "utringbuffer_clear a =
     andThen (if ic_dtor (rb_icd a)
         then if rb_f a then rb_destroy_all (unat (rb_n a)) 0 a else rb_destroy_all (unat (rb_i a)) 0 a
         else Inr a)
       (\<lambda>a. Inr (a\<lparr>rb_i := 0, rb_f := False\<rparr>))"

definition utringbuffer_done :: "'e ut_ring \<Rightarrow> 'e ut_ring res" where
  "utringbuffer_done a =
     andThen (utringbuffer_clear a) (\<lambda>a.
       if rb_d a = SFreed then Inl DanglingDeref else Inr (a\<lparr>rb_d := SNull, rb_n := 0\<rparr>))"

definition utringbuffer_push_back :: "'e \<Rightarrow> 'e ut_ring \<Rightarrow> 'e ut_ring res" where
  "utringbuffer_push_back p a =
     andThen (if ic_dtor (rb_icd a) \<and> rb_f a then rb_destroy (Some (unat (rb_i a))) a else Inr a) (\<lambda>a.
     andThen (slots_put (unat (rb_i a)) [copied (rb_icd a) p] (rb_d a)) (\<lambda>d.
       let a = a\<lparr>rb_d := d, rb_i := rb_i a + 1\<rparr> in
       Inr (if rb_i a = rb_n a then a\<lparr>rb_i := 0, rb_f := True\<rparr> else a)))"

section \<open>The last \<open>n\<close> elements\<close>

text \<open>The older part of the buffer begins at the write index once it has been full.\<close>

definition rb_rep :: "'e ut_ring \<Rightarrow> 'e list \<Rightarrow> bool" where
  "rb_rep a xs \<longleftrightarrow> (\<exists>us vs. rb_d a = SBlk (map Some us @ vs) \<and> unat (rb_i a) = length us \<and>
     unat (rb_n a) = length us + length vs \<and> vs \<noteq> [] \<and>
     (if rb_f a then \<exists>ws. vs = map Some ws \<and> xs = ws @ us else xs = us))"

lemma rb_repE:
  assumes "rb_rep a xs"
  obtains us vs where "rb_d a = SBlk (map Some us @ vs)" "unat (rb_i a) = length us"
    "unat (rb_n a) = length us + length vs" "vs \<noteq> []"
    "if rb_f a then \<exists>ws. vs = map Some ws \<and> xs = ws @ us else xs = us"
  using assms by (auto simp: rb_rep_def)

lemma rb_rep_full:
  assumes "rb_rep a xs"
  shows "rb_f a \<longleftrightarrow> length xs = unat (rb_n a)" "length xs \<le> unat (rb_n a)" "unat (utringbuffer_len a) = length xs"
  using assms by (auto simp: rb_rep_def utringbuffer_len_def split: if_splits)

definition push_last :: "nat \<Rightarrow> 'e list \<Rightarrow> 'e \<Rightarrow> 'e list" where
  "push_last n xs x = (if length xs = n then tl xs @ [x] else xs @ [x])"

text \<open>Putting an element in: the destructor gets the oldest one when the buffer is full.\<close>

lemma ring_push_ok:
  assumes "rb_rep a xs"
  shows "\<exists>a'. utringbuffer_push_back p a = Inr a' \<and> rb_rep a' (push_last (unat (rb_n a)) xs (copied (rb_icd a) p)) \<and>
    rb_n a' = rb_n a \<and> rb_icd a' = rb_icd a \<and>
    rb_dead a' = rb_dead a @ (if ic_dtor (rb_icd a) \<and> length xs = unat (rb_n a) then [Some (Some (hd xs))] else [])"
proof -
  let ?c = "copied (rb_icd a) p"
  from assms obtain us v vs where r: "rb_d a = SBlk (map Some us @ v # vs)" "unat (rb_i a) = length us"
    "unat (rb_n a) = length us + 1 + length vs" "if rb_f a then \<exists>ws. v # vs = map Some ws \<and> xs = ws @ us else xs = us"
    by (elim rb_repE) (auto simp: neq_Nil_conv)
  let ?gone = "if ic_dtor (rb_icd a) \<and> rb_f a then [Some v] else []"
  let ?i = "if vs = [] then 0 else rb_i a + 1" and ?f = "rb_f a \<or> vs = []"
  let ?a = "a\<lparr>rb_d := SBlk (map Some (us @ [?c]) @ vs), rb_i := ?i, rb_f := ?f, rb_dead := rb_dead a @ ?gone\<rparr>"
  have "length us + 1 < 2 ^ 32 \<or> vs = []" using r(3) unsigned_less [where 'a = nat, of "rb_n a"] by (cases vs) simp_all
  then have i: "vs = [] \<or> unat (rb_i a + 1) = length us + 1" using u32_plus [of "length us" 1 "rb_i a"] r(2) by auto
  have n: "rb_i a + 1 = rb_n a \<longleftrightarrow> vs = []"
  proof (cases "vs = []")
    case True
    then have "unat (rb_i a) = unat (rb_n a) - 1" "rb_n a \<noteq> 0" using r(2,3) by auto
    then have "rb_i a = rb_n a - 1" by (metis unat_minus_one word_unat_eq_iff)
    with True show ?thesis by simp
  next
    case False
    with i r(3) show ?thesis by (metis add.right_neutral add_left_cancel length_0_conv)
  qed
  have "utringbuffer_push_back p a = Inr ?a"
    using r(1,2) n by (auto simp: utringbuffer_push_back_def rb_destroy_def slots_get_def slots_put_def Let_def)
  moreover have "rb_rep ?a (push_last (unat (rb_n a)) xs ?c)"
  proof (cases "vs = []")
    case True
    then have "push_last (unat (rb_n a)) xs ?c = us @ [?c]" using r(3,4) by (auto simp: push_last_def split: if_splits)
    with True r(3) show ?thesis
      unfolding rb_rep_def by (intro exI [of _ "[]"] exI [of _ "map Some (us @ [?c])"]) auto
  next
    case False
    then have "if rb_f a then \<exists>ws. vs = map Some ws \<and> push_last (unat (rb_n a)) xs ?c = ws @ us @ [?c]
        else push_last (unat (rb_n a)) xs ?c = us @ [?c]"
      using r(3,4) by (auto simp: push_last_def split: if_splits)
    with False i r(3) show ?thesis
      unfolding rb_rep_def by (intro exI [of _ "us @ [?c]"] exI [of _ vs]) auto
  qed
  moreover have "rb_f a \<Longrightarrow> v = Some (hd xs)" using r(4) by (auto split: if_splits)
  ultimately show ?thesis using rb_rep_full(1) [OF assms] by auto
qed

section \<open>Elements\<close>

text \<open>The slot of element \<open>j\<close>, without any wrap-around.\<close>

definition slot_of :: "'e ut_ring \<Rightarrow> nat \<Rightarrow> nat" where
  "slot_of a j = (if rb_f a then (j + unat (rb_i a)) mod unat (rb_n a) else j)"

lemma slot_of_elem:
  assumes "rb_rep a xs" "j < length xs"
  shows "slots_get (slot_of a j) 1 (rb_d a) = Inr [Some (xs ! j)]" "slot_of a j < unat (rb_n a)"
proof -
  from assms(1) obtain us vs where r: "rb_d a = SBlk (map Some us @ vs)" "unat (rb_i a) = length us"
    "unat (rb_n a) = length us + length vs" "vs \<noteq> []"
    "if rb_f a then \<exists>ws. vs = map Some ws \<and> xs = ws @ us else xs = us" by (rule rb_repE)
  have "slot_of a j < length us + length vs \<and> (map Some us @ vs) ! slot_of a j = Some (xs ! j)"
  proof (cases "rb_f a")
    case True
    with r obtain ws where w: "vs = map Some ws" "xs = ws @ us" by auto
    show ?thesis
    proof (cases "j < length ws")
      case True
      then have "slot_of a j = length us + j" using \<open>rb_f a\<close> r(2,3) w by (simp add: slot_of_def)
      with True w show ?thesis by (simp add: nth_append)
    next
      case False
      then have "slot_of a j = j - length ws" using \<open>rb_f a\<close> r(2,3) w assms(2)
        by (simp add: slot_of_def mod_if)
      moreover have "j - length ws < length us" using False w assms(2) by (simp add: less_diff_conv2)
      ultimately show ?thesis using False w by (simp add: nth_append)
    qed
  next
    case False
    with r assms(2) show ?thesis by (simp add: slot_of_def nth_append)
  qed
  moreover from this have "drop (slot_of a j) (map Some us @ vs) = Some (xs ! j) # drop (Suc (slot_of a j)) (map Some us @ vs)"
    by (metis Cons_nth_drop_Suc length_append length_map)
  ultimately show "slots_get (slot_of a j) 1 (rb_d a) = Inr [Some (xs ! j)]" "slot_of a j < unat (rb_n a)"
    using r(1,3) by (simp_all add: slots_get_def del: drop_append)
qed

lemma u32_less: "unat (w :: u32) < 2 ^ 32"
  using unsigned_less [where 'a = nat, of w] by simp

lemma unat_ucast_u32:
  assumes "32 \<le> LENGTH('w::len)"
  shows "unat (ucast (w :: u32) :: 'w word) = unat w"
proof -
  have "(2 :: nat) ^ 32 \<le> 2 ^ LENGTH('w)" using assms by (intro power_increasing) simp_all
  with u32_less [of w] have "unat w < 2 ^ LENGTH('w)" by linarith
  then show ?thesis by (simp add: unsigned_ucast_eq take_bit_nat_eq_self)
qed

lemma eltptr_ok:
  fixes j :: "'w::len word"
  assumes "rb_rep a xs" "2 * unat (rb_n a) \<le> 2 ^ LENGTH('w)" "32 \<le> LENGTH('w)"
  shows "utringbuffer_eltptr a j = (if unat j < length xs then Some (slot_of a (unat j)) else None)"
proof -
  from assms(1) obtain us vs where r: "rb_d a = SBlk (map Some us @ vs)" "unat (rb_i a) = length us"
    "unat (rb_n a) = length us + length vs" "vs \<noteq> []" by (rule rb_repE) blast
  have u: "unat (ucast (w :: u32) :: 'w word) = unat w" for w
    by (rule unat_ucast_u32 [OF assms(3)])
  have lt: "j < ucast (utringbuffer_len a) \<longleftrightarrow> unat j < length xs"
    using rb_rep_full(3) [OF assms(1)] by (simp add: word_less_nat_alt u)
  show ?thesis
  proof (cases "unat j < length xs \<and> rb_f a")
    case True
    then have "unat j < unat (rb_n a)" "unat (rb_i a) < unat (rb_n a)" using rb_rep_full(2) [OF assms(1)] r by simp_all
    then have "unat j + unat (ucast (rb_i a) :: 'w word) < 2 ^ LENGTH('w)" using assms(2) unfolding u by linarith
    then have "unat (j + ucast (rb_i a)) = unat j + unat (rb_i a)" by (simp add: unat_add_lem [THEN iffD1] u)
    with True lt show ?thesis by (simp add: utringbuffer_eltptr_def rb_real_idx_def slot_of_def unat_mod u)
  next
    case False
    with lt show ?thesis by (auto simp: utringbuffer_eltptr_def rb_real_idx_def slot_of_def)
  qed
qed

text \<open>Walks by \<open>utringbuffer_next\<close> and \<open>utringbuffer_prev\<close>, whose indices are \<open>size_t\<close>.\<close>

lemma u64: "unat (ucast (w :: u32) :: size_t) = unat w"
  by (rule unat_ucast_u32) simp

lemma eltidx_ok:
  assumes "rb_rep a xs" "j < length xs"
  shows "unat (utringbuffer_eltidx a (slot_of a j)) = j"
proof -
  from assms(1) obtain us vs where r: "rb_d a = SBlk (map Some us @ vs)" "unat (rb_i a) = length us"
    "unat (rb_n a) = length us + length vs" "vs \<noteq> []" by (rule rb_repE) blast
  have s: "slot_of a j < unat (rb_n a)" by (rule slot_of_elem(2) [OF assms])
  then have us: "unat (of_nat (slot_of a j) :: size_t) = slot_of a j" using u32_less [of "rb_n a"] by (simp add: unat_of_nat)
  show ?thesis
  proof (cases "rb_f a")
    case True
    let ?s = "of_nat (slot_of a j) :: size_t" and ?n = "ucast (rb_n a) :: size_t" and ?i = "ucast (rb_i a) :: size_t"
    have "unat (?s + ?n) = slot_of a j + unat (rb_n a)"
      using s us u32_less [of "rb_n a"] by (simp add: unat_add_lem [THEN iffD1] u64)
    moreover from this have "?i \<le> ?s + ?n" using r by (simp add: word_le_nat_alt u64)
    ultimately have "unat (?s + ?n - ?i) = slot_of a j + unat (rb_n a) - unat (rb_i a)" by (simp add: unat_sub u64)
    then have e: "unat (utringbuffer_eltidx a (slot_of a j)) = (slot_of a j + unat (rb_n a) - unat (rb_i a)) mod unat (rb_n a)"
      using True by (simp add: utringbuffer_eltidx_def rb_fake_idx_def unat_mod u64)
    have j: "j < unat (rb_n a)" using assms(2) rb_rep_full(2) [OF assms(1)] by simp
    show ?thesis
    proof (cases "j + unat (rb_i a) < unat (rb_n a)")
      case True
      then have "slot_of a j = j + unat (rb_i a)" using \<open>rb_f a\<close> by (simp add: slot_of_def)
      with e j show ?thesis by simp
    next
      case False
      have "(j + unat (rb_i a)) mod unat (rb_n a) = j + unat (rb_i a) - unat (rb_n a)"
        using False j r by (simp add: mod_if)
      then have "slot_of a j = j + unat (rb_i a) - unat (rb_n a)" using \<open>rb_f a\<close> by (simp add: slot_of_def)
      with e j False show ?thesis by simp
    qed
  next
    case False
    with us show ?thesis by (simp add: utringbuffer_eltidx_def rb_fake_idx_def slot_of_def)
  qed
qed

lemma ring_next_ok:
  assumes "rb_rep a xs" "j < length xs"
  shows "utringbuffer_next a (Some (slot_of a j)) = (if Suc j < length xs then Some (slot_of a (Suc j)) else None)"
    "utringbuffer_prev a (Some (slot_of a j)) = (if j = 0 then None else Some (slot_of a (j - 1)))"
proof -
  have n: "2 * unat (rb_n a) \<le> 2 ^ LENGTH(64)" "32 \<le> LENGTH(64)" using u32_less [of "rb_n a"] by simp_all
  note e = eltidx_ok [OF assms] and p = eltptr_ok [OF assms(1) n]
  have len: "length xs < 2 ^ 32" using rb_rep_full(2) [OF assms(1)] u32_less [of "rb_n a"] by linarith
  have "unat (utringbuffer_eltidx a (slot_of a j) + 1) = Suc j"
    using e len assms(2) by (simp add: unat_add_lem [THEN iffD1])
  then show "utringbuffer_next a (Some (slot_of a j)) = (if Suc j < length xs then Some (slot_of a (Suc j)) else None)"
    by (simp add: utringbuffer_next_def p)
  show "utringbuffer_prev a (Some (slot_of a j)) = (if j = 0 then None else Some (slot_of a (j - 1)))"
  proof (cases "j = 0")
    case True
    with e have "utringbuffer_eltidx a (slot_of a j) = 0" by (simp add: unsigned_eq_0_iff)
    then have "unat (utringbuffer_eltidx a (slot_of a j) - 1) = 2 ^ 64 - 1"
      by (simp add: unsigned_minus_1_eq_mask mask_eq_exp_minus_1)
    with True len show ?thesis by (simp add: utringbuffer_prev_def p)
  next
    case False
    with e have "utringbuffer_eltidx a (slot_of a j) \<noteq> 0" by (metis unat_0)
    with e have "unat (utringbuffer_eltidx a (slot_of a j) - 1) = j - 1" by (simp add: unat_minus_one)
    with False assms(2) show ?thesis by (simp add: utringbuffer_prev_def p)
  qed
qed

text \<open>Clearing gives every element to the destructor, oldest first.\<close>

lemma rb_dead_simps [simp]:
  "rb_rep (a\<lparr>rb_dead := d\<rparr>) xs = rb_rep a xs" "slot_of (a\<lparr>rb_dead := d\<rparr>) = slot_of a"
  by (simp_all add: rb_rep_def slot_of_def fun_eq_iff)

lemma rb_destroy_all_ok:
  "rb_rep a xs \<Longrightarrow> unat (rb_n a) \<le> 2 ^ 31 \<Longrightarrow> unat j + k = length xs \<Longrightarrow>
    rb_destroy_all k j a = Inr (a\<lparr>rb_dead := rb_dead a @ map (Some \<circ> Some) (drop (unat j) xs)\<rparr>)"
proof (induction k arbitrary: j a)
  case (Suc k j a)
  have j: "unat j < length xs" "unat (j + 1) = unat j + 1"
    using Suc.prems rb_rep_full(2) [OF Suc.prems(1)] u32_plus [of "unat j" 1 j] by simp_all
  have "utringbuffer_eltptr a j = Some (slot_of a (unat j))"
    using eltptr_ok [OF Suc.prems(1), of j] Suc.prems(2) j(1) by simp
  with slot_of_elem(1) [OF Suc.prems(1) j(1)]
  have d: "rb_destroy (utringbuffer_eltptr a j) a = Inr (a\<lparr>rb_dead := rb_dead a @ [Some (Some (xs ! unat j))]\<rparr>)"
    by (simp add: rb_destroy_def)
  have "drop (unat j) xs = xs ! unat j # drop (unat j + 1) xs" using j(1) by (simp add: Cons_nth_drop_Suc)
  with d Suc.IH [of "a\<lparr>rb_dead := rb_dead a @ [Some (Some (xs ! unat j))]\<rparr>" "j + 1"] Suc.prems j show ?case by simp
qed simp

lemma ring_clear_ok:
  assumes "rb_rep a xs" "unat (rb_n a) \<le> 2 ^ 31"
  shows "\<exists>a'. utringbuffer_clear a = Inr a' \<and> rb_rep a' [] \<and> rb_n a' = rb_n a \<and> rb_icd a' = rb_icd a \<and>
    rb_dead a' = rb_dead a @ (if ic_dtor (rb_icd a) then map (Some \<circ> Some) xs else [])"
proof -
  from assms(1) obtain us vs where r: "rb_d a = SBlk (map Some us @ vs)" "unat (rb_i a) = length us"
    "unat (rb_n a) = length us + length vs" "vs \<noteq> []" "if rb_f a then \<exists>ws. vs = map Some ws \<and> xs = ws @ us else xs = us"
    by (rule rb_repE)
  then have "(if rb_f a then unat (rb_n a) else unat (rb_i a)) = length xs" by (auto split: if_splits)
  with rb_destroy_all_ok [OF assms, of 0 "length xs"]
  have "utringbuffer_clear a = Inr (a\<lparr>rb_dead := rb_dead a @ (if ic_dtor (rb_icd a) then map (Some \<circ> Some) xs else []),
      rb_i := 0, rb_f := False\<rparr>)"
    by (auto simp: utringbuffer_clear_def split: if_splits)
  with r show ?thesis unfolding rb_rep_def by (auto intro!: exI [of _ "[]"])
qed

section \<open>Histories\<close>

text \<open>A history: \<open>Some p\<close> puts \<open>p\<close> in, \<open>None\<close> clears the buffer.\<close>

fun ring_run :: "'e option list \<Rightarrow> 'e ut_ring \<Rightarrow> 'e ut_ring res" where
  "ring_run [] a = Inr a"
| "ring_run (x # xs) a =
     andThen (case x of Some p \<Rightarrow> utringbuffer_push_back p a | None \<Rightarrow> utringbuffer_clear a) (ring_run xs)"

text \<open>What has been put in since the last clearing, and its end.\<close>

fun ring_in :: "'e icd \<Rightarrow> 'e option list \<Rightarrow> 'e list \<Rightarrow> 'e list" where
  "ring_in ic [] xs = xs"
| "ring_in ic (Some p # ops) xs = ring_in ic ops (xs @ [copied ic p])"
| "ring_in ic (None # ops) xs = ring_in ic ops []"

definition last_n :: "nat \<Rightarrow> 'a list \<Rightarrow> 'a list" where
  "last_n n xs = drop (length xs - n) xs"

lemma last_n_short [simp]: "length xs \<le> n \<Longrightarrow> last_n n xs = xs"
  by (simp add: last_n_def)

lemma last_n_push: "0 < n \<Longrightarrow> push_last n (last_n n xs) x = last_n n (xs @ [x])"
proof (cases "length xs < n")
  case False
  assume "0 < n"
  with False have "tl (drop (length xs - n) xs) = drop (Suc (length xs) - n) xs" by (simp add: tl_drop drop_Suc Suc_diff_le)
  with False \<open>0 < n\<close> show ?thesis by (simp add: push_last_def last_n_def Suc_diff_le)
qed (simp add: push_last_def)

lemma ring_run_ok:
  assumes "rb_rep a (last_n (unat (rb_n a)) xs)" "unat (rb_n a) \<le> 2 ^ 31"
  shows "\<exists>a'. ring_run ops a = Inr a' \<and> rb_n a' = rb_n a \<and>
    rb_rep a' (last_n (unat (rb_n a)) (ring_in (rb_icd a) ops xs))"
  using assms
proof (induction ops arbitrary: a xs)
  case (Cons x ops)
  have n: "0 < unat (rb_n a)" using Cons.prems(1) by (auto simp: rb_rep_def)
  show ?case
  proof (cases x)
    case None
    from ring_clear_ok [OF Cons.prems] obtain a1 where a1: "utringbuffer_clear a = Inr a1" "rb_rep a1 []" "rb_n a1 = rb_n a"
      "rb_icd a1 = rb_icd a" by auto
    with Cons.IH [of a1 "[]"] Cons.prems(2) None show ?thesis by simp
  next
    case (Some p)
    from ring_push_ok [OF Cons.prems(1), of p, unfolded last_n_push [OF n]] obtain a1 where
      a1: "utringbuffer_push_back p a = Inr a1" "rb_rep a1 (last_n (unat (rb_n a)) (xs @ [copied (rb_icd a) p]))"
        "rb_n a1 = rb_n a" "rb_icd a1 = rb_icd a" by auto
    with Cons.IH [of a1 "xs @ [copied (rb_icd a) p]"] Cons.prems(2) Some show ?thesis by simp
  qed
qed simp

text \<open>
  C30: after any history of putting elements in and clearing, a ring buffer of \<open>n\<close> slots (0 < n, up to 2^31)
  holds the last \<open>n\<close> elements put in since it was cleared; \<open>utringbuffer_eltptr\<close> leads to the \<open>j\<close>-th of
  them, oldest first, and \<open>utringbuffer_next\<close> from each to the next one until the last.
\<close>

theorem utringbuffer_keeps_last:
  assumes "rb_rep a xs" "unat (rb_n a) \<le> 2 ^ 31"
  shows "\<exists>a' zs. ring_run ops a = Inr a' \<and> zs = last_n (unat (rb_n a)) (ring_in (rb_icd a) ops xs) \<and>
    unat (utringbuffer_len a') = length zs \<and>
    (\<forall>j. if unat j < length zs
         then \<exists>k. utringbuffer_eltptr a' (j :: u32) = Some k \<and> slots_get k 1 (rb_d a') = Inr [Some (zs ! unat j)] \<and>
           utringbuffer_next a' (Some k) = utringbuffer_eltptr a' (j + 1)
         else utringbuffer_eltptr a' j = None)"
proof -
  have "last_n (unat (rb_n a)) xs = xs" using rb_rep_full(2) [OF assms(1)] by simp
  with ring_run_ok [of a xs ops] assms obtain a' where
    a': "ring_run ops a = Inr a'" "rb_n a' = rb_n a" "rb_rep a' (last_n (unat (rb_n a)) (ring_in (rb_icd a) ops xs))" by auto
  let ?zs = "last_n (unat (rb_n a)) (ring_in (rb_icd a) ops xs)"
  have n: "2 * unat (rb_n a') \<le> 2 ^ LENGTH(32)" "32 \<le> LENGTH(32)" using assms(2) a'(2) by simp_all
  note p = eltptr_ok [OF a'(3) n]
  have "if unat j < length ?zs
      then \<exists>k. utringbuffer_eltptr a' (j :: u32) = Some k \<and> slots_get k 1 (rb_d a') = Inr [Some (?zs ! unat j)] \<and>
        utringbuffer_next a' (Some k) = utringbuffer_eltptr a' (j + 1)
      else utringbuffer_eltptr a' j = None" for j
  proof (cases "unat j < length ?zs")
    case True
    have "unat (j + 1) = Suc (unat j)"
      using True rb_rep_full(2) [OF a'(3)] a'(2) assms(2) u32_plus [of "unat j" 1 j] by simp
    with True slot_of_elem(1) [OF a'(3) True] ring_next_ok(1) [OF a'(3) True] show ?thesis by (simp add: p)
  qed (simp add: p)
  with a' rb_rep_full(3) [OF a'(3)] show ?thesis by blast
qed

text \<open>In a buffer of more than 2^31 slots the sum of an \<open>unsigned\<close> index and the write index wraps.\<close>

lemma eltptr_wraps:
  assumes "rb_f a" "rb_n a = 3 * 2 ^ 30" "rb_i a = 2 ^ 31"
  shows "utringbuffer_eltptr a (2 ^ 31 :: u32) = Some 0" "slot_of a (2 ^ 31) = 2 ^ 30"
  using assms by (simp_all add: utringbuffer_eltptr_def utringbuffer_len_def rb_real_idx_def slot_of_def)

lemma ring_init_rep:
  assumes "e_malloc E (tick s)" "n \<noteq> 0"
  shows "rb_rep (fst (utringbuffer_init E n ic s)) []" "rb_n (fst (utringbuffer_init E n ic s)) = n"
    "rb_icd (fst (utringbuffer_init E n ic s)) = ic"
  using assms unat_gt_0 [of n] by (auto simp: utringbuffer_init_def rb_rep_def Let_def)

theorem utringbuffer_keeps_last_witness:
  "\<exists>a k. ring_run [Some 1, Some 2, Some 3, Some 4] (fst (utringbuffer_init demo_env 3 int_icd demo_os)) = Inr a \<and>
     utringbuffer_eltptr a (0 :: u32) = Some k \<and> slots_get k 1 (rb_d a) = Inr [Some 2]"
proof -
  let ?a = "fst (utringbuffer_init demo_env 3 int_icd demo_os)" and ?ops = "[Some 1, Some 2, Some 3, Some (4 :: int)]"
  have "e_malloc demo_env (tick demo_os)" "(3 :: u32) \<noteq> 0" by (simp_all add: demo_env_def)
  note i = ring_init_rep [OF this, of int_icd]
  have "unat (rb_n ?a) \<le> 2 ^ 31" by (simp add: i(2))
  from utringbuffer_keeps_last [OF i(1) this, of ?ops] obtain a zs where a: "ring_run ?ops ?a = Inr a"
    "zs = last_n (unat (rb_n ?a)) (ring_in (rb_icd ?a) ?ops [])" and all: "\<forall>j. if unat j < length zs
         then \<exists>k. utringbuffer_eltptr a (j :: u32) = Some k \<and> slots_get k 1 (rb_d a) = Inr [Some (zs ! unat j)] \<and>
           utringbuffer_next a (Some k) = utringbuffer_eltptr a (j + 1)
         else utringbuffer_eltptr a j = None" by blast
  have "zs = [2, 3, 4]" using a(2) i(2,3) by (simp add: last_n_def copied_def int_icd_def)
  with a(1) spec [OF all, of 0] show ?thesis by auto
qed

end
