(* ===== verification/Utarray_Elems.thy ===== *)
theory Utarray_Elems
  imports Utarray_Rep "HOL-Library.Multiset"
begin

text \<open>
  The rest of \<^verbatim>\<open>local_lib/utarray.h\<close>: sorting and searching an array, which is a call of \<open>qsort\<close> and
  \<open>bsearch\<close> each, the index of an element pointer, and the predefined element types for ints, pointers
  and strings, with the functions that copy and destroy a string.
\<close>

section \<open>Sorting and searching\<close>

text \<open>
  \<open>qsort\<close> and \<open>bsearch\<close> of the C library are parameters: a function on the elements, and one that gives
  the index of an element. An array that has never held an element hands NULL to them, which the C
  standard leaves undefined even when the number of elements is 0.
\<close>

type_synonym 'e cmp = "'e \<Rightarrow> 'e \<Rightarrow> int"

definition utarray_sort :: "('e cmp \<Rightarrow> 'e list \<Rightarrow> 'e list) \<Rightarrow> 'e cmp \<Rightarrow> 'e ut_array \<Rightarrow> 'e ut_array res" where
  "utarray_sort qsort cmp a = andThen (ua_elems a) (\<lambda>xs. ua_put 0 (qsort cmp xs) a)"

definition utarray_find ::
  "('e cmp \<Rightarrow> 'e \<Rightarrow> 'e list \<Rightarrow> nat option) \<Rightarrow> 'e cmp \<Rightarrow> 'e \<Rightarrow> 'e ut_array \<Rightarrow> u32 option res" where
  "utarray_find bsearch cmp v a =
     andThen (ua_elems a) (\<lambda>xs. Inr (map_option of_nat (bsearch cmp v xs)))"

text \<open>What the C standard says of a comparison function, of \<open>qsort\<close> and of \<open>bsearch\<close>.\<close>

definition total_cmp :: "'e cmp \<Rightarrow> bool" where
  "total_cmp cmp \<longleftrightarrow> (\<forall>x y. cmp x y \<le> 0 \<longleftrightarrow> 0 \<le> cmp y x) \<and>
     (\<forall>x y z. cmp x y \<le> 0 \<longrightarrow> cmp y z \<le> 0 \<longrightarrow> cmp x z \<le> 0)"

abbreviation ordered :: "'e cmp \<Rightarrow> 'e list \<Rightarrow> bool" where
  "ordered cmp \<equiv> sorted_wrt (\<lambda>x y. cmp x y \<le> 0)"

definition qsort_law :: "('e cmp \<Rightarrow> 'e list \<Rightarrow> 'e list) \<Rightarrow> bool" where
  "qsort_law qsort \<longleftrightarrow>
     (\<forall>cmp xs. total_cmp cmp \<longrightarrow> mset (qsort cmp xs) = mset xs \<and> ordered cmp (qsort cmp xs))"

definition bsearch_law :: "('e cmp \<Rightarrow> 'e \<Rightarrow> 'e list \<Rightarrow> nat option) \<Rightarrow> bool" where
  "bsearch_law bsearch \<longleftrightarrow>
     (\<forall>cmp v xs. total_cmp cmp \<longrightarrow> ordered cmp xs \<longrightarrow>
        (case bsearch cmp v xs of
           Some i \<Rightarrow> i < length xs \<and> cmp v (xs ! i) = 0
         | None \<Rightarrow> \<forall>x \<in> set xs. cmp v x \<noteq> 0))"

lemma ua_elems_rep:
  assumes "ua_rep a xs" "ua_n a \<noteq> 0"
  shows "ua_elems a = Inr xs"
proof -
  from assms obtain rest where "unat (ua_i a) = length xs" "ua_d a = SBlk (map Some xs @ rest)"
    by (auto simp: ua_room_def)
  moreover have "map the (map Some xs) = xs" by (simp add: comp_def)
  ultimately show ?thesis by (auto simp: ua_elems_def slots_get_def simp del: map_map)
qed

lemma ua_put_all:
  assumes "ua_rep a xs" "ua_n a \<noteq> 0" "length ys = length xs"
  shows "\<exists>a'. ua_put 0 ys a = Inr a' \<and> ua_rep a' ys \<and> same_kind a a' \<and> ua_n a' = ua_n a"
proof -
  from assms obtain rest where r: "unat (ua_i a) = length xs" "unat (ua_n a) = length xs + length rest"
    "cap (ua_n a)" "ua_d a = SBlk (map Some xs @ rest)" by (auto simp: ua_room_def)
  let ?a = "a\<lparr>ua_d := SBlk (map Some ys @ rest)\<rparr>"
  have "ua_put 0 ys a = Inr ?a" using r assms(3) by (simp add: ua_put_def slots_put_def)
  moreover have "ua_rep ?a ys" using r assms(2,3) by (auto simp: ua_room_def)
  ultimately show ?thesis by (intro exI [of _ ?a]) simp
qed

lemma utarray_sort_null: "ua_d a = SNull \<Longrightarrow> utarray_sort q cmp a = Inl NullDeref"
  by (simp add: utarray_sort_def ua_elems_def slots_get_def)

lemma utarray_sort_ok:
  assumes "qsort_law qsort" "total_cmp cmp" "ua_rep a xs" "ua_n a \<noteq> 0"
  shows "\<exists>a' ys. utarray_sort qsort cmp a = Inr a' \<and> ua_rep a' ys \<and> mset ys = mset xs \<and> ordered cmp ys \<and>
    same_kind a a' \<and> ua_n a' = ua_n a"
proof -
  let ?ys = "qsort cmp xs"
  from assms(1,2) have ys: "mset ?ys = mset xs" "ordered cmp ?ys" by (auto simp: qsort_law_def)
  from mset_eq_length [OF ys(1)] have "length ?ys = length xs" .
  from ua_put_all [OF assms(3,4) this] ys show ?thesis
    using ua_elems_rep [OF assms(3,4)] by (auto simp: utarray_sort_def)
qed

lemma utarray_find_ok:
  assumes "bsearch_law bsearch" "total_cmp cmp" "ua_rep a xs" "ua_n a \<noteq> 0" "ordered cmp xs"
  shows "\<exists>r. utarray_find bsearch cmp v a = Inr r \<and>
    (case r of Some k \<Rightarrow> unat k < length xs \<and> cmp v (xs ! unat k) = 0 | None \<Rightarrow> \<forall>x \<in> set xs. cmp v x \<noteq> 0)"
proof (cases "bsearch cmp v xs")
  case None
  have "case bsearch cmp v xs of Some i \<Rightarrow> i < length xs \<and> cmp v (xs ! i) = 0 | None \<Rightarrow> \<forall>x \<in> set xs. cmp v x \<noteq> 0"
    using assms(1,2,5) by (simp only: bsearch_law_def)
  with None have "\<forall>x \<in> set xs. cmp v x \<noteq> 0" by simp
  then show ?thesis using None ua_elems_rep [OF assms(3,4)] by (simp add: utarray_find_def)
next
  case (Some i)
  have "case bsearch cmp v xs of Some i \<Rightarrow> i < length xs \<and> cmp v (xs ! i) = 0 | None \<Rightarrow> \<forall>x \<in> set xs. cmp v x \<noteq> 0"
    using assms(1,2,5) by (simp only: bsearch_law_def)
  with Some have i: "i < length xs" "cmp v (xs ! i) = 0" by simp_all
  moreover from i(1) ua_room_len(2) [OF assms(3)] have "unat (of_nat i :: u32) = i" by (simp add: unat_u32)
  ultimately show ?thesis using Some ua_elems_rep [OF assms(3,4)] by (simp add: utarray_find_def)
qed

section \<open>The index of an element\<close>

text \<open>
  \<open>utarray_eltidx(a, e)\<close> for a pointer \<open>e\<close> that is \<open>off\<close> bytes beyond \<open>d\<close>, with elements of \<open>sz\<close> bytes,
  and -1, as a \<open>size_t\<close>, for a pointer before \<open>d\<close>.
\<close>

definition utarray_eltidx :: "size_t \<Rightarrow> size_t \<Rightarrow> size_t \<Rightarrow> size_t" where
  "utarray_eltidx sz d e = (if d \<le> e then (e - d) div sz else - 1)"

lemma utarray_eltidx_elt:
  assumes "0 < unat sz" "unat d + unat sz * unat j < 2 ^ 64"
  shows "utarray_eltidx sz d (d + sz * j) = j"
proof -
  have m: "unat (sz * j) = unat sz * unat j" using assms(2) by (subst unat_mult_lem [THEN iffD1]) simp_all
  have a: "unat (d + sz * j) = unat d + unat (sz * j)" using assms(2) m by (subst unat_add_lem [THEN iffD1]) simp_all
  have "d \<le> d + sz * j" using a by (simp add: word_le_nat_alt)
  moreover have "(sz * j) div sz = j"
    by (rule word_unat_eq_iff [THEN iffD2]) (use assms(1) m in \<open>simp add: unat_div\<close>)
  ultimately show ?thesis by (simp add: utarray_eltidx_def)
qed

section \<open>The predefined element types\<close>

definition ut_int_icd :: "int icd" where
  "ut_int_icd = \<lparr>ic_init = None, ic_copy = None, ic_dtor = False, ic_zero = 0\<rparr>"

definition ut_ptr_icd :: "addr option icd" where
  "ut_ptr_icd = \<lparr>ic_init = None, ic_copy = None, ic_dtor = False, ic_zero = None\<rparr>"

text \<open>The strings on the heap; an element of an array of strings is a pointer to one, or NULL.\<close>

record strheap = os +
  strs :: "addr \<rightharpoonup> string"

definition strdup :: "env \<Rightarrow> string \<Rightarrow> 'a strheap_scheme \<Rightarrow> addr option \<times> 'a strheap_scheme" where
  "strdup E cs s =
     (let a = tick s; s = step s in
      if e_malloc E a then (Some a, s\<lparr>strs := (strs s)(a \<mapsto> cs)\<rparr>) else (None, s))"

definition utarray_str_cpy :: "env \<Rightarrow> addr option \<Rightarrow> 'a strheap_scheme \<Rightarrow> (addr option \<times> 'a strheap_scheme) res" where
  "utarray_str_cpy E src s =
     (if src = None then Inr (None, s)
      else andThen (deref (strs s) src) (\<lambda>(a, cs). Inr (strdup E cs s)))"

definition utarray_str_dtor :: "addr option \<Rightarrow> 'a strheap_scheme \<Rightarrow> 'a strheap_scheme res" where
  "utarray_str_dtor elt s =
     (if elt \<noteq> None
      then andThen (deref (strs s) elt) (\<lambda>(a, cs). Inr (s\<lparr>strs := (strs s)(a := None)\<rparr>))
      else Inr s)"

text \<open>
  The loops of \<open>utarray_inserta\<close> and \<open>utarray_done\<close> over the elements, with these two as \<open>copy\<close> and \<open>dtor\<close>.
\<close>

fun str_cpys :: "env \<Rightarrow> addr option list \<Rightarrow> 'a strheap_scheme \<Rightarrow> (addr option list \<times> 'a strheap_scheme) res" where
  "str_cpys E [] s = Inr ([], s)"
| "str_cpys E (p # ps) s =
     andThen (utarray_str_cpy E p s) (\<lambda>(q, s).
     andThen (str_cpys E ps s) (\<lambda>(qs, s). Inr (q # qs, s)))"

fun str_dtors :: "addr option list \<Rightarrow> 'a strheap_scheme \<Rightarrow> 'a strheap_scheme res" where
  "str_dtors [] s = Inr s"
| "str_dtors (p # ps) s = andThen (utarray_str_dtor p s) (str_dtors ps)"

text \<open>Addresses come from past calls of \<open>malloc\<close>.\<close>

definition str_wf :: "'a strheap_scheme \<Rightarrow> bool" where
  "str_wf s \<longleftrightarrow> (\<forall>a \<in> dom (strs s). a < tick s)"

text \<open>The string an element stands for.\<close>

definition str_at :: "'a strheap_scheme \<Rightarrow> addr option \<Rightarrow> string option" where
  "str_at s p = (case p of None \<Rightarrow> None | Some a \<Rightarrow> strs s a)"

abbreviation str_ok :: "'a strheap_scheme \<Rightarrow> addr option \<Rightarrow> bool" where
  "str_ok s p \<equiv> p = None \<or> str_at s p \<noteq> None"

text \<open>The addresses of a list of elements, NULLs left out.\<close>

definition owned :: "addr option list \<Rightarrow> addr list" where
  "owned ps = map the (filter (\<lambda>p. p \<noteq> None) ps)"

lemma owned_simps [simp]: "owned [] = []" "owned (None # ps) = owned ps" "owned (Some a # ps) = a # owned ps"
  by (simp_all add: owned_def)

lemma step_strs [simp]: "strs (step s) = strs s"
  by (simp add: step_def)

lemma owned_append: "owned (ps @ qs) = owned ps @ owned qs"
  by (simp add: owned_def)

lemma str_cpy_ok:
  assumes "str_wf s" "str_ok s p"
  shows "\<exists>q s'. utarray_str_cpy E p s = Inr (q, s') \<and> str_wf s' \<and> tick s \<le> tick s' \<and>
    (\<forall>a \<in> set (owned [q]). tick s \<le> a \<and> a < tick s' \<and> strs s' a \<noteq> None) \<and>
    (\<forall>a. a \<notin> set (owned [q]) \<longrightarrow> strs s' a = strs s a) \<and>
    (q = None \<or> str_at s' q = str_at s p) \<and> ((\<forall>n. e_malloc E n) \<longrightarrow> (q = None \<longleftrightarrow> p = None))"
proof (cases p)
  case None
  with assms show ?thesis by (auto simp: utarray_str_cpy_def)
next
  case (Some a)
  with assms obtain cs where "strs s a = Some cs" by (auto simp: str_at_def)
  with Some assms(1) show ?thesis
    by (auto simp: utarray_str_cpy_def strdup_def str_wf_def str_at_def Let_def less_Suc_eq)
qed

lemma str_cpys_ok:
  assumes "str_wf s" "\<forall>p \<in> set ps. str_ok s p"
  shows "\<exists>qs s'. str_cpys E ps s = Inr (qs, s') \<and> str_wf s' \<and> tick s \<le> tick s' \<and> length qs = length ps \<and>
    distinct (owned qs) \<and> (\<forall>a \<in> set (owned qs). tick s \<le> a \<and> a < tick s' \<and> strs s' a \<noteq> None) \<and>
    (\<forall>a. a \<notin> set (owned qs) \<longrightarrow> strs s' a = strs s a) \<and>
    ((\<forall>n. e_malloc E n) \<longrightarrow> map (str_at s') qs = map (str_at s) ps)"
  using assms
proof (induction ps arbitrary: s)
  case Nil
  then show ?case by simp
next
  case (Cons p ps)
  have "str_ok s p" using Cons.prems(2) by simp
  from str_cpy_ok [OF Cons.prems(1) this, of E] obtain q s1 where
    c: "utarray_str_cpy E p s = Inr (q, s1)" "str_wf s1" "tick s \<le> tick s1"
      "\<forall>a \<in> set (owned [q]). tick s \<le> a \<and> a < tick s1 \<and> strs s1 a \<noteq> None"
      "\<forall>a. a \<notin> set (owned [q]) \<longrightarrow> strs s1 a = strs s a"
      "q = None \<or> str_at s1 q = str_at s p" "(\<forall>n. e_malloc E n) \<longrightarrow> (q = None \<longleftrightarrow> p = None)"
    by blast
  have old: "str_at s1 r = str_at s r" if "str_ok s r" for r
  proof (cases r)
    case None
    then show ?thesis by (simp add: str_at_def)
  next
    case (Some a)
    with that Cons.prems(1) have "a < tick s" by (auto simp: str_at_def str_wf_def)
    then have "a \<notin> set (owned [q])" using c(4) by (meson leD)
    with c(5) Some show ?thesis by (simp add: str_at_def)
  qed
  have "\<forall>r \<in> set ps. str_ok s1 r" using Cons.prems(2) old by auto
  from Cons.IH [OF c(2) this] obtain qs s2 where
    r: "str_cpys E ps s1 = Inr (qs, s2)" "str_wf s2" "tick s1 \<le> tick s2" "length qs = length ps"
      "distinct (owned qs)" "\<forall>a \<in> set (owned qs). tick s1 \<le> a \<and> a < tick s2 \<and> strs s2 a \<noteq> None"
      "\<forall>a. a \<notin> set (owned qs) \<longrightarrow> strs s2 a = strs s1 a"
      "(\<forall>n. e_malloc E n) \<longrightarrow> map (str_at s2) qs = map (str_at s1) ps"
    by blast
  have new: "a \<notin> set (owned qs)" if "a \<in> set (owned [q])" for a
  proof
    assume "a \<in> set (owned qs)"
    with r(6) have "tick s1 \<le> a" by blast
    moreover have "a < tick s1" using c(4) that by blast
    ultimately show False by simp
  qed
  have kept: "strs s2 a = strs s1 a" if "a \<in> set (owned [q])" for a
    using new [OF that] r(7) by blast
  have two: "owned (q # qs) = owned [q] @ owned qs" using owned_append [of "[q]" qs] by simp
  have "distinct (owned (q # qs))" using new r(5) unfolding two by (cases q) auto
  moreover have "tick s \<le> a \<and> a < tick s2 \<and> strs s2 a \<noteq> None" if "a \<in> set (owned (q # qs))" for a
  proof (cases "a \<in> set (owned qs)")
    case True
    with r(6) have "tick s1 \<le> a \<and> a < tick s2 \<and> strs s2 a \<noteq> None" by blast
    with c(3) show ?thesis by simp
  next
    case False
    with that have "a \<in> set (owned [q])" unfolding two by simp
    with c(4) kept have "tick s \<le> a \<and> a < tick s1 \<and> strs s2 a \<noteq> None" by simp
    with r(3) show ?thesis by simp
  qed
  moreover have "strs s2 a = strs s a" if "a \<notin> set (owned (q # qs))" for a
    using that c(5) r(7) unfolding two by simp
  moreover have "map (str_at s2) (q # qs) = map (str_at s) (p # ps)" if mem: "\<forall>n. e_malloc E n"
  proof -
    have "str_at s2 q = str_at s1 q" using kept by (cases q) (simp_all add: str_at_def)
    moreover have "str_at s1 q = str_at s p" using c(6,7) mem by (auto simp: str_at_def)
    moreover have "map (str_at s1) ps = map (str_at s) ps" using Cons.prems(2) old by simp
    ultimately show ?thesis using r(8) mem by simp
  qed
  ultimately show ?case using c(1,3) r(1-4) by (intro exI [of _ "q # qs"] exI [of _ s2]) simp
qed

lemma str_dtors_ok:
  assumes "distinct (owned qs)" "\<forall>a \<in> set (owned qs). strs s a \<noteq> None"
  shows "\<exists>s'. str_dtors qs s = Inr s' \<and> strs s' = strs s |` (- set (owned qs)) \<and> tick s' = tick s"
  using assms
proof (induction qs arbitrary: s)
  case Nil
  then show ?case by simp
next
  case (Cons q qs)
  show ?case
  proof (cases q)
    case None
    with Cons show ?thesis by (simp add: utarray_str_dtor_def)
  next
    case (Some a)
    with Cons.prems obtain cs where a: "strs s a = Some cs" by auto
    let ?s = "s\<lparr>strs := (strs s)(a := None)\<rparr>"
    have "utarray_str_dtor q s = Inr ?s" using Some a by (simp add: utarray_str_dtor_def)
    have "\<forall>b \<in> set (owned qs). strs ?s b \<noteq> None" "distinct (owned qs)"
      using Cons.prems Some by auto
    from Cons.IH [OF this(2,1)] obtain s' where s': "str_dtors qs ?s = Inr s'"
      "strs s' = strs ?s |` (- set (owned qs))" "tick s' = tick ?s" by blast
    have "strs ?s |` (- set (owned qs)) = strs s |` (- set (owned (q # qs)))"
      using Some by (simp add: restrict_map_def fun_eq_iff)
    moreover have "tick ?s = tick s" by simp
    ultimately have "strs s' = strs s |` (- set (owned (q # qs)))" "tick s' = tick s" using s' by simp_all
    with \<open>utarray_str_dtor q s = Inr ?s\<close> s'(1) show ?thesis by simp
  qed
qed

section \<open>Properties\<close>

text \<open>
  \<open>utarray_sort\<close> leaves a permutation of the array's elements in the order of \<open>cmp\<close>, and
  \<open>utarray_find\<close> then answers with an element equal to the one it is asked for, or with NULL when no
  element of the array is.
\<close>

theorem utarray_sort_find:
  assumes "qsort_law qsort" "bsearch_law bsearch" "total_cmp cmp" "ua_rep a xs" "ua_n a \<noteq> 0"
  shows "\<exists>a' ys r. utarray_sort qsort cmp a = Inr a' \<and> ua_rep a' ys \<and> mset ys = mset xs \<and> ordered cmp ys \<and>
    utarray_find bsearch cmp v a' = Inr r \<and>
    (case r of Some k \<Rightarrow> unat k < length ys \<and> cmp v (ys ! unat k) = 0 | None \<Rightarrow> \<forall>x \<in> set xs. cmp v x \<noteq> 0)"
proof -
  from utarray_sort_ok [OF assms(1,3,4,5)] obtain a' ys where s: "utarray_sort qsort cmp a = Inr a'" "ua_rep a' ys"
    "mset ys = mset xs" "ordered cmp ys" "ua_n a' = ua_n a" by blast
  have "ua_n a' \<noteq> 0" using s(5) assms(5) by simp
  from utarray_find_ok [OF assms(2,3) s(2) this s(4), of v] obtain r where
    "utarray_find bsearch cmp v a' = Inr r"
    "case r of Some k \<Rightarrow> unat k < length ys \<and> cmp v (ys ! unat k) = 0 | None \<Rightarrow> \<forall>x \<in> set ys. cmp v x \<noteq> 0" by blast
  with s(1-4) show ?thesis unfolding mset_eq_setD [OF s(3)] by blast
qed

text \<open>A sort and a search that keep the laws, for the witness.\<close>

fun place :: "'e cmp \<Rightarrow> 'e \<Rightarrow> 'e list \<Rightarrow> 'e list" where
  "place cmp x [] = [x]"
| "place cmp x (y # ys) = (if cmp x y \<le> 0 then x # y # ys else y # place cmp x ys)"

definition a_qsort :: "'e cmp \<Rightarrow> 'e list \<Rightarrow> 'e list" where
  "a_qsort cmp xs = foldr (place cmp) xs []"

fun a_bsearch :: "'e cmp \<Rightarrow> 'e \<Rightarrow> 'e list \<Rightarrow> nat option" where
  "a_bsearch cmp v [] = None"
| "a_bsearch cmp v (x # xs) = (if cmp v x = 0 then Some 0 else map_option Suc (a_bsearch cmp v xs))"

lemma place_mset: "mset (place cmp x ys) = add_mset x (mset ys)"
  by (induction ys) auto

lemma place_ordered: "total_cmp cmp \<Longrightarrow> ordered cmp ys \<Longrightarrow> ordered cmp (place cmp x ys)"
proof (induction ys)
  case Nil
  then show ?case by simp
next
  case (Cons y ys)
  have tr: "cmp p r \<le> 0" if "cmp p q \<le> 0" "cmp q r \<le> 0" for p q r
    using Cons.prems(1) that unfolding total_cmp_def by metis
  have tot: "cmp q p \<le> 0" if "\<not> cmp p q \<le> 0" for p q
  proof -
    have le: "0 \<le> cmp p q" using that by simp
    have "cmp q p \<le> 0 \<longleftrightarrow> 0 \<le> cmp p q" using Cons.prems(1) by (simp only: total_cmp_def)
    with le show ?thesis by simp
  qed
  have "set (place cmp x ys) = insert x (set ys)" using mset_eq_setD [of "place cmp x ys" "x # ys"] by (simp add: place_mset)
  moreover have "cmp y z \<le> 0" if "cmp x y \<le> 0 \<or> z \<in> set ys" "z \<in> set ys" for z using that Cons.prems(2) by simp
  moreover have "cmp x z \<le> 0" if "cmp x y \<le> 0" "z \<in> set ys" for z using that Cons.prems(2) tr [of x y z] by simp
  ultimately show ?case using Cons.IH [OF Cons.prems(1)] Cons.prems(2) tot [of x y] by simp
qed

lemma a_qsort_law: "qsort_law (a_qsort :: 'e cmp \<Rightarrow> 'e list \<Rightarrow> 'e list)"
proof -
  have "total_cmp cmp \<Longrightarrow> mset (foldr (place cmp) xs []) = mset xs \<and> ordered cmp (foldr (place cmp) xs [])"
    for cmp :: "'e cmp" and xs
    by (induction xs) (simp_all add: place_mset place_ordered)
  then show ?thesis unfolding qsort_law_def a_qsort_def by blast
qed

lemma a_bsearch_law: "bsearch_law (a_bsearch :: 'e cmp \<Rightarrow> 'e \<Rightarrow> 'e list \<Rightarrow> nat option)"
proof -
  have "case a_bsearch cmp v xs of Some i \<Rightarrow> i < length xs \<and> cmp v (xs ! i) = 0 | None \<Rightarrow> \<forall>x \<in> set xs. cmp v x \<noteq> 0"
    for cmp :: "'e cmp" and v xs
    by (induction xs) (auto split: option.splits)
  then show ?thesis unfolding bsearch_law_def by blast
qed

definition demo_ints :: "int ut_array" where
  "demo_ints = \<lparr>ua_i = 3, ua_n = 8, ua_icd = ut_int_icd,
     ua_d = SBlk (map Some [30, 10, 20] @ replicate 5 None), dead = []\<rparr>"

lemma demo_ints_rep: "ua_rep demo_ints [30, 10, 20]"
proof -
  have "cap 8" by (rule cap_8)
  then show ?thesis unfolding ua_room_def demo_ints_def by (intro exI [of _ "replicate 5 None"]) simp
qed

theorem utarray_sort_find_witness:
  "\<exists>a' ys. utarray_sort a_qsort (\<lambda>x y. x - y) demo_ints = Inr a' \<and> ua_rep a' ys \<and> sorted ys \<and>
    mset ys = {#10, 20, 30#}"
proof -
  have "total_cmp (\<lambda>x y. x - y :: int)" "ua_n demo_ints \<noteq> 0" by (auto simp: total_cmp_def demo_ints_def)
  from utarray_sort_find [OF a_qsort_law a_bsearch_law this(1) demo_ints_rep this(2)]
  obtain a' ys where "utarray_sort a_qsort (\<lambda>x y. x - y) demo_ints = Inr a'" "ua_rep a' ys"
    "mset ys = mset [30, 10, 20]" "ordered (\<lambda>x y. x - y) ys" by blast
  then show ?thesis by (intro exI [of _ a'] exI [of _ ys]) (simp add: add_mset_commute)
qed

text \<open>
  C29: the copies of the elements of an array of strings stand, while there is memory, for the same
  strings, in blocks of their own; destroying the copies gives the heap back as it was, and so it does
  when \<open>strdup\<close> has failed for some of them, whose copies are NULL.
\<close>

theorem str_copy_destroy:
  assumes "str_wf s" "\<forall>p \<in> set ps. p = None \<or> str_at s p \<noteq> None"
  shows "\<exists>qs s1 s2. str_cpys E ps s = Inr (qs, s1) \<and> length qs = length ps \<and> distinct (owned qs) \<and>
    set (owned qs) \<inter> dom (strs s) = {} \<and> ((\<forall>n. e_malloc E n) \<longrightarrow> map (str_at s1) qs = map (str_at s) ps) \<and>
    str_dtors qs s1 = Inr s2 \<and> strs s2 = strs s"
proof -
  from str_cpys_ok [OF assms, of E] obtain qs s1 where c: "str_cpys E ps s = Inr (qs, s1)" "length qs = length ps"
    "distinct (owned qs)" "\<forall>a \<in> set (owned qs). tick s \<le> a \<and> a < tick s1 \<and> strs s1 a \<noteq> None"
    "\<forall>a. a \<notin> set (owned qs) \<longrightarrow> strs s1 a = strs s a"
    "(\<forall>n. e_malloc E n) \<longrightarrow> map (str_at s1) qs = map (str_at s) ps" by blast
  from str_dtors_ok [of qs s1] c(3,4) obtain s2 where
    d: "str_dtors qs s1 = Inr s2" "strs s2 = strs s1 |` (- set (owned qs))" by blast
  have new: "set (owned qs) \<inter> dom (strs s) = {}"
  proof (rule ccontr)
    assume "set (owned qs) \<inter> dom (strs s) \<noteq> {}"
    then obtain a where "a \<in> set (owned qs)" "a \<in> dom (strs s)" by blast
    then have "tick s \<le> a" "a < tick s" using c(4) assms(1) unfolding str_wf_def by blast+
    then show False by simp
  qed
  have "strs s2 a = strs s a" for a
    using new c(5) unfolding d(2) by (cases "a \<in> set (owned qs)") (auto simp: domIff disjoint_iff)
  then have "strs s2 = strs s" by blast
  with c d(1) new show ?thesis by blast
qed

definition two_strings :: strheap where
  "two_strings = \<lparr>tick = 2, log = [], live = {}, strs = [0 \<mapsto> ''ws'', 1 \<mapsto> ''raw'']\<rparr>"

theorem str_copy_destroy_witness:
  "\<exists>qs s1 s2. str_cpys demo_env [Some 1, None, Some 0] two_strings = Inr (qs, s1) \<and>
    map (str_at s1) qs = [Some ''raw'', None, Some ''ws''] \<and>
    str_dtors qs s1 = Inr s2 \<and> strs s2 = strs two_strings"
proof -
  have "str_wf two_strings" by (simp add: str_wf_def two_strings_def)
  moreover have "\<forall>p \<in> set [Some 1, None, Some 0]. p = None \<or> str_at two_strings p \<noteq> None"
    by (simp add: str_at_def two_strings_def)
  ultimately show ?thesis using str_copy_destroy [of two_strings "[Some 1, None, Some 0]" demo_env]
    by (auto simp: str_at_def two_strings_def demo_env_def)
qed

text \<open>Without memory a string that is there is copied to NULL, which no caller can tell from a NULL copied.\<close>

lemma str_cpy_no_memory:
  assumes "str_at s p = Some cs" "\<not> e_malloc E (tick s)"
  shows "utarray_str_cpy E p s = Inr (None, step s)"
  using assms by (auto simp: str_at_def utarray_str_cpy_def strdup_def split: option.splits)

end
