(* ===== verification/Mq_Test.thy ===== *)
theory Mq_Test
  imports Backend
begin

text \<open>
  The test program of \<^verbatim>\<open>main/mq.c\<close> (built with \<open>MQTEST\<close>): 999 rounds in which a random number
  of messages is put on a queue and as many are taken off it again. The values of \<open>rand\<close> are a
  parameter, by the value of the round counter. The message a round frees is one it has just
  allocated, not the one it took off the queue, so every message put on the queue leaks.
\<close>

section \<open>The program\<close>

text \<open>\<open>uint8_t testdata[128]\<close> is never written.\<close>

definition testdata :: bytes where
  "testdata = replicate 128 None"

text \<open>The first inner loop. A NULL message is written through, the code does not check it.\<close>

fun mqtest_fill :: "env \<Rightarrow> nat \<Rightarrow> mq_t \<Rightarrow> 'a heap_scheme \<Rightarrow> (mq_t \<times> 'a heap_scheme) res" where
  "mqtest_fill E 0 q s = Inr (q, s)"
| "mqtest_fill E (Suc i) q s =
     (let (msg, s) = msg_new E 128 s in
      andThen (memcpy_msg msg 0 (Some testdata) 128 s) (\<lambda>s.
      andThen (mq_putmsg q msg s) (\<lambda>(q, s). mqtest_fill E i q s)))"

text \<open>The second: the result of \<open>mq_getmsg\<close> is dropped.\<close>

fun mqtest_drain :: "env \<Rightarrow> nat \<Rightarrow> mq_t \<Rightarrow> 'a heap_scheme \<Rightarrow> (mq_t \<times> 'a heap_scheme) res" where
  "mqtest_drain E 0 q s = Inr (q, s)"
| "mqtest_drain E (Suc i) q s =
     (let (msg, s) = msg_new E 128 s in
      andThen (mq_getmsg q s) (\<lambda>(got, q).
      andThen (msg_free msg s) (\<lambda>s. mqtest_drain E i q s)))"

text \<open>The outer loop, by the value of \<open>--trials\<close>.\<close>

fun mqtest_trials ::
  "env \<Rightarrow> (nat \<Rightarrow> nat) \<Rightarrow> nat \<Rightarrow> mq_t \<Rightarrow> 'a heap_scheme \<Rightarrow> (mq_t \<times> 'a heap_scheme) res" where
  "mqtest_trials E rand 0 q s = Inr (q, s)"
| "mqtest_trials E rand (Suc t) q s =
     (let rnumber = rand (Suc t) mod 100 + 1 in
      andThen (mqtest_fill E rnumber q s) (\<lambda>(q, s).
      andThen (mqtest_drain E rnumber q s) (\<lambda>(q, s).
        mqtest_trials E rand t q s)))"

definition mqtest_main :: "env \<Rightarrow> (nat \<Rightarrow> nat) \<Rightarrow> 'a heap_scheme \<Rightarrow> (int \<times> 'a heap_scheme) res" where
  "mqtest_main E rand s =
     andThen (mqtest_trials E rand 999 mq_init s) (\<lambda>(q, s). Inr (0, s))"

section \<open>One message\<close>

lemma msg_new_mem:
  assumes "\<And>n. e_malloc E n"
  shows "\<exists>s'. msg_new E len s = (Some (tick s), s')"
  using assms by (simp add: msg_new_def malloc_block_def Let_def)

lemma msg_new_no_mem:
  assumes "\<And>n. \<not> e_malloc E n"
  shows "\<exists>s'. msg_new E len s = (None, s')"
  using assms by (simp add: msg_new_def malloc_block_def Let_def)

lemma put_test_message:
  assumes wf: "heap_wf s" and rep: "mq_rep s q as" and mem: "\<And>n. e_malloc E n"
  shows "\<exists>q' s'. (let (msg, s) = msg_new E 128 s in
        andThen (memcpy_msg msg 0 (Some testdata) 128 s) (mq_putmsg q msg)) = Inr (q', s') \<and>
      mq_rep s' q' (as @ [tick s]) \<and> heap_wf s' \<and> log s' = log s \<and>
      tick s \<notin> dom (msgs s) \<and> dom (msgs s') = insert (tick s) (dom (msgs s))"
proof -
  from msg_new_mem [OF mem] obtain s1 where new: "msg_new E 128 s = (Some (tick s), s1)" by blast
  note n = msg_new_Some [OF new]
  from msg_new_wf [OF wf new] have wf1: "heap_wf s1" and fresh: "tick s \<notin> dom (msgs s)"
    and same: "same_msgs s s1 {tick s}" by auto
  have out: "tick s \<notin> set as" using mq_rep_live [OF rep] fresh by blast
  let ?s2 = "s1\<lparr>blocks := (blocks s1)(Suc (tick s) \<mapsto> testdata)\<rparr>"
  have cpy: "memcpy_msg (Some (tick s)) 0 (Some testdata) 128 s1 = Inr ?s2"
    using n by (simp add: memcpy_msg_def poke_def testdata_def)
  have "?s2 = s1" using n by (simp add: testdata_def fun_upd_idem)
  with cpy have cpy: "memcpy_msg (Some (tick s)) 0 (Some testdata) 128 s1 = Inr s1" by simp
  have "mq_rep s1 q as" using same_msgs_rep [OF same] rep out by simp
  from mq_putmsg_rep [OF this _ out] n obtain q' s' where
    put: "mq_putmsg q (Some (tick s)) s1 = Inr (q', s')" "mq_rep s' q' (as @ [tick s])"
      "relinked s1 s' (insert (tick s) (set as))" by auto
  from heap_wf_relinked [OF wf1 put(3)] relinked_dom [OF put(3)] n put(3) fresh
  show ?thesis using new cpy put(1,2) by (auto simp: relinked_def)
qed

lemma drop_test_message:
  assumes wf: "heap_wf s" and rep: "mq_rep s q as"
  shows "\<exists>q' s'. (let (msg, s) = msg_new E 128 s in
        andThen (mq_getmsg q s) (\<lambda>(got, q). andThen (msg_free msg s) (\<lambda>s. Inr (q, s)))) = Inr (q', s') \<and>
      mq_rep s' q' (tl as) \<and> heap_wf s' \<and> log s' = log s \<and> msgs s' = msgs s"
proof -
  obtain r s1 where new: "msg_new E 128 s = (r, s1)" by force
  have wf1: "heap_wf s1" using msg_new_wf [OF wf new] by blast
  have rep1: "mq_rep s1 q as"
  proof (cases r)
    case None
    then show ?thesis using rep new msg_new_None(1) [of E 128 s s1] mq_rep_same_msgs by blast
  next
    case (Some a)
    have "same_msgs s s1 {a}" "a \<notin> set as"
      using msg_new_wf [OF wf new] mq_rep_live [OF rep] Some by auto
    then show ?thesis using rep same_msgs_rep [of s s1 "{a}" as] by simp
  qed
  have "\<exists>got q'. mq_getmsg q s1 = Inr (got, q') \<and> mq_rep s1 q' (tl as)"
    using rep1 by (cases as) (auto dest: mq_getmsg_Nil mq_getmsg_Cons)
  then obtain got q' where get: "mq_getmsg q s1 = Inr (got, q')" "mq_rep s1 q' (tl as)" by blast
  show ?thesis
  proof (cases r)
    case None
    with msg_new_None [of E 128 s s1] new get wf1 show ?thesis by auto
  next
    case (Some a)
    note n = msg_new_Some [OF new [unfolded Some]]
    from msg_free_wf [OF wf1, of a] n obtain s2 where s2: "msg_free (Some a) s1 = Inr s2" "heap_wf s2"
      "msgs s2 = (msgs s1)(a := None)" "same_msgs s1 s2 {a}" "log s2 = log s1" by auto
    have "a \<notin> dom (msgs s)" using heap_wf_fresh [OF wf] n(1) by simp
    with n(2) s2(3) have same: "msgs s2 = msgs s" by (auto simp: domIff)
    have "a \<notin> set (tl as)"
      using mq_rep_live [OF rep] \<open>a \<notin> dom (msgs s)\<close> by (cases as) auto
    then have "mq_rep s2 q' (tl as)" using get(2) same_msgs_rep [OF s2(4)] by simp
    with new Some get(1) s2 same n(4) show ?thesis by auto
  qed
qed

section \<open>The loops\<close>

lemma mqtest_fill_ok:
  assumes "heap_wf s" "mq_rep s q as" and mem: "\<And>n. e_malloc E n"
  shows "\<exists>q' s' new. mqtest_fill E n q s = Inr (q', s') \<and> mq_rep s' q' (as @ new) \<and> heap_wf s' \<and>
    log s' = log s \<and> length new = n \<and> set new \<inter> dom (msgs s) = {} \<and> dom (msgs s') = dom (msgs s) \<union> set new"
  using assms(1,2)
proof (induction n arbitrary: q s as)
  case 0
  then show ?case by (intro exI [of _ q] exI [of _ s] exI [of _ "[]"]) simp
next
  case (Suc n)
  from put_test_message [OF Suc.prems mem] obtain q1 s1 where
    one: "(let (msg, s) = msg_new E 128 s in
        andThen (memcpy_msg msg 0 (Some testdata) 128 s) (mq_putmsg q msg)) = Inr (q1, s1)"
    and s1: "mq_rep s1 q1 (as @ [tick s])" "heap_wf s1" "log s1 = log s"
      "tick s \<notin> dom (msgs s)" "dom (msgs s1) = insert (tick s) (dom (msgs s))" by blast
  from Suc.IH [OF s1(2,1)] obtain q2 s2 new where
    rest: "mqtest_fill E n q1 s1 = Inr (q2, s2)" "mq_rep s2 q2 ((as @ [tick s]) @ new)" "heap_wf s2"
      "log s2 = log s1" "length new = n" "set new \<inter> dom (msgs s1) = {}" "dom (msgs s2) = dom (msgs s1) \<union> set new"
    by blast
  have "mqtest_fill E (Suc n) q s = Inr (q2, s2)"
    using one rest(1) by (auto simp: Let_def andThen_eq_Inr split: prod.splits)
  with rest s1 show ?case by (intro exI [of _ q2] exI [of _ s2] exI [of _ "tick s # new"]) auto
qed

lemma mqtest_drain_ok:
  assumes "heap_wf s" "mq_rep s q as"
  shows "\<exists>q' s'. mqtest_drain E n q s = Inr (q', s') \<and> mq_rep s' q' (drop n as) \<and> heap_wf s' \<and>
    log s' = log s \<and> msgs s' = msgs s"
  using assms
proof (induction n arbitrary: q s as)
  case 0
  then show ?case by simp
next
  case (Suc n)
  from drop_test_message [OF Suc.prems, of E] obtain q1 s1 where
    one: "(let (msg, s) = msg_new E 128 s in
        andThen (mq_getmsg q s) (\<lambda>(got, q). andThen (msg_free msg s) (\<lambda>s. Inr (q, s)))) = Inr (q1, s1)"
    and s1: "mq_rep s1 q1 (tl as)" "heap_wf s1" "log s1 = log s" "msgs s1 = msgs s" by blast
  from Suc.IH [OF s1(2,1)] s1 obtain q2 s2 where
    rest: "mqtest_drain E n q1 s1 = Inr (q2, s2)" "mq_rep s2 q2 (drop (Suc n) as)" "heap_wf s2"
      "log s2 = log s" "msgs s2 = msgs s" by (auto simp: drop_Suc)
  have "mqtest_drain E (Suc n) q s = Inr (q2, s2)"
    using one rest(1) by (auto simp: Let_def andThen_eq_Inr split: prod.splits)
  with rest show ?case by blast
qed

lemma mqtest_trials_ok:
  assumes "heap_wf s" "mq_rep s q []" and mem: "\<And>n. e_malloc E n"
  shows "\<exists>q' s' new. mqtest_trials E rand t q s = Inr (q', s') \<and> mq_rep s' q' [] \<and> heap_wf s' \<and>
    log s' = log s \<and> finite new \<and> new \<inter> dom (msgs s) = {} \<and> dom (msgs s') = dom (msgs s) \<union> new \<and>
    card new = (\<Sum>i = 1..t. rand i mod 100 + 1)"
  using assms(1,2)
proof (induction t arbitrary: q s)
  case 0
  then show ?case by (intro exI [of _ q] exI [of _ s] exI [of _ "{}"]) simp
next
  case (Suc t)
  let ?n = "rand (Suc t) mod 100 + 1"
  from mqtest_fill_ok [OF Suc.prems mem, of ?n] obtain q1 s1 as where
    f: "mqtest_fill E ?n q s = Inr (q1, s1)" "mq_rep s1 q1 as" "heap_wf s1" "log s1 = log s"
      "length as = ?n" "set as \<inter> dom (msgs s) = {}" "dom (msgs s1) = dom (msgs s) \<union> set as"
    by (metis append_Nil)
  from mqtest_drain_ok [OF f(3,2), of E ?n] f(5) obtain q2 s2 where
    d: "mqtest_drain E ?n q1 s1 = Inr (q2, s2)" "mq_rep s2 q2 []" "heap_wf s2" "log s2 = log s"
      "dom (msgs s2) = dom (msgs s) \<union> set as" using f by auto
  from Suc.IH [OF d(3,2)] obtain q3 s3 new where
    r: "mqtest_trials E rand t q2 s2 = Inr (q3, s3)" "mq_rep s3 q3 []" "heap_wf s3" "log s3 = log s2"
      "finite new" "new \<inter> dom (msgs s2) = {}" "dom (msgs s3) = dom (msgs s2) \<union> new"
      "card new = (\<Sum>i = 1..t. rand i mod 100 + 1)" by blast
  have "distinct as" using f(2) by (simp add: mq_rep_def)
  then have "card (set as) = ?n" using f(5) distinct_card by metis
  moreover have "set as \<inter> new = {}" using r(6) d(5) by blast
  ultimately have "card (set as \<union> new) = (\<Sum>i = 1..Suc t. rand i mod 100 + 1)"
    using r(5,8) by (simp add: card_Un_disjoint)
  moreover have "mqtest_trials E rand (Suc t) q s = Inr (q3, s3)"
    using f(1) d(1) r(1) by (simp del: mqtest_fill.simps mqtest_drain.simps)
  ultimately show ?case using r d f(6)
    by (intro exI [of _ q3] exI [of _ s3] exI [of _ "set as \<union> new"]) auto
qed

section \<open>Properties\<close>

text \<open>
  The test program returns 0 without a fault while there is memory, and leaks every message
  it has put on its queue: \<open>rand() % 100 + 1\<close> of them in each of its 999 rounds, all still
  allocated when it ends.
\<close>

theorem mqtest_leaks:
  assumes "heap_wf s" "\<And>n. e_malloc E n"
  shows "\<exists>s' new. mqtest_main E rand s = Inr (0, s') \<and> heap_wf s' \<and> finite new \<and>
    new \<inter> dom (msgs s) = {} \<and> dom (msgs s') = dom (msgs s) \<union> new \<and>
    card new = (\<Sum>i = 1..999. rand i mod 100 + 1)"
  using mqtest_trials_ok [OF assms(1) mq_rep_init assms(2), of rand 999] unfolding mqtest_main_def by fastforce

theorem mqtest_leaks_witness:
  "\<exists>s' new. mqtest_main demo_env (\<lambda>_. 41) heap2 = Inr (0, s') \<and> finite new \<and>
    dom (msgs s') = {0, 2} \<union> new \<and> card new = 41958"
proof -
  have "e_malloc demo_env n" for n by (simp add: demo_env_def)
  moreover have "dom (msgs heap2) = {0, 2}" by (auto simp: heap2_def)
  ultimately show ?thesis using mqtest_leaks [OF heap2_wf, of demo_env "\<lambda>_. 41"] by (simp del: One_nat_def) blast
qed

text \<open>Without memory the first round writes through NULL.\<close>

theorem mqtest_no_memory:
  assumes "\<And>n. \<not> e_malloc E n"
  shows "mqtest_main E rand s = Inl NullDeref"
proof -
  from msg_new_no_mem [OF assms] obtain s1 where "msg_new E 128 s = (None, s1)" by blast
  then have "mqtest_trials E rand (Suc t) mq_init s = Inl NullDeref" for t
    by (simp add: memcpy_msg_def)
  from this [of 998] show ?thesis by (simp add: mqtest_main_def del: mqtest_trials.simps)
qed

end
