(* ===== verification/Frontend_Wait.thy ===== *)
theory Frontend_Wait
  imports Backend_Run
begin

text \<open>
  The second service loop of \<^verbatim>\<open>main/frontend.c\<close>, \<open>frontend_wait\<close>, with its signal handler
  \<open>frontend_inthandler\<close> and the flag \<open>interrupted\<close> they share. No other function of the program
  calls it. It is the loop of \<open>backend_run\<close> with the flag in the place of the interrupt type.
\<close>

section \<open>The loop\<close>

text \<open>\<open>volatile int interrupted\<close>: zero until the handler has run, and never reset.\<close>

definition frontend_inthandler :: "int \<Rightarrow> int" where
  "frontend_inthandler interrupted = 1"

partial_function (option) wait_loop ::
  "env \<Rightarrow> service \<Rightarrow> backend_t \<Rightarrow> nat \<Rightarrow> int \<Rightarrow> int \<Rightarrow> bridge \<Rightarrow> (int \<times> bridge) res option" where
  "wait_loop E S b k interrupted n s =
     (if 0 \<le> n \<and> interrupted = 0
      then (case run E b (sv_events S k s) s of
              Inl f \<Rightarrow> Some (Inl f)
            | Inr s' \<Rightarrow> wait_loop E S b (Suc k)
                (if sv_signal S k then frontend_inthandler interrupted else interrupted) (sv_result S k) s')
      else Some (Inr (interrupted, s)))"

text \<open>The result with the flag and the state afterwards.\<close>

definition frontend_wait ::
  "env \<Rightarrow> service \<Rightarrow> backend_t \<Rightarrow> int \<Rightarrow> bridge \<Rightarrow> (int \<times> int \<times> bridge) res option" where
  "frontend_wait E S b interrupted s =
     map_option (\<lambda>r. andThen r (\<lambda>(interrupted, s). Inr (0, interrupted, s)))
       (wait_loop E S b 0 interrupted 0 s)"

section \<open>The loop of the backend\<close>

abbreviation irq_of :: "int \<Rightarrow> birq_type" where
  "irq_of i \<equiv> (if i = 0 then BIRQ_NONE else BIRQ_GLOBAL)"

abbreviation forget :: "(int \<times> bridge) res option \<Rightarrow> bridge res option" where
  "forget \<equiv> map_option (\<lambda>r. andThen r (\<lambda>(i, s). Inr s))"

lemma wait_loop_stop: "\<not> (0 \<le> n \<and> i = 0) \<Longrightarrow> wait_loop E S b k i n s = Some (Inr (i, s))"
  by (subst wait_loop.simps) (simp only: if_False)

lemma wait_loop_fault:
  "0 \<le> n \<Longrightarrow> run E b (sv_events S k s) s = Inl f \<Longrightarrow> wait_loop E S b k 0 n s = Some (Inl f)"
  by (subst wait_loop.simps) simp

lemma wait_loop_turn:
  "0 \<le> n \<Longrightarrow> run E b (sv_events S k s) s = Inr s' \<Longrightarrow>
   wait_loop E S b k 0 n s = wait_loop E S b (Suc k) (if sv_signal S k then 1 else 0) (sv_result S k) s'"
  by (subst wait_loop.simps) (simp add: frontend_inthandler_def)

text \<open>What a run of either loop returns, the other returns as well.\<close>

lemma service_to_wait:
  "service_loop E S b k irq n s = Some r \<Longrightarrow> irq = irq_of i \<Longrightarrow>
   forget (wait_loop E S b k i n s) = Some r"
proof (induction E S b k irq n s r arbitrary: i rule: service_loop.raw_induct [rotated, consumes 1, case_names step])
  case (step loop E S b k irq n s r)
  show ?case
  proof (cases "0 \<le> n \<and> i = 0")
    case False
    with step(3) have "\<not> (irq = BIRQ_NONE \<and> 0 \<le> n)" by (cases "i = 0") simp_all
    with step(2) have "r = Inr s" by simp
    with wait_loop_stop [OF False] show ?thesis by simp
  next
    case True
    with step(3) have irq: "irq = BIRQ_NONE" and n: "0 \<le> n" by simp_all
    show ?thesis
    proof (cases "run E b (sv_events S k s) s")
      case (Inl f)
      with irq n step(2) have "r = Inl f" by simp
      with wait_loop_fault [OF n Inl] True show ?thesis by simp
    next
      case (Inr s1)
      let ?i = "if sv_signal S k then 1 else 0 :: int"
      from irq n Inr step(2)
      have "loop E S b (Suc k) (if sv_signal S k then backend_inthandler irq else irq) (sv_result S k) s1 = Some r"
        by simp
      moreover have "(if sv_signal S k then backend_inthandler irq else irq) = irq_of ?i"
        using irq by (simp add: backend_inthandler_def)
      ultimately have "forget (wait_loop E S b (Suc k) ?i (sv_result S k) s1) = Some r" by (rule step(1))
      with True wait_loop_turn [OF n Inr] show ?thesis by simp
    qed
  qed
qed

lemma wait_to_service:
  "wait_loop E S b k i n s = Some r \<Longrightarrow>
   service_loop E S b k (irq_of i) n s = forget (Some r)"
proof (induction E S b k i n s r rule: wait_loop.raw_induct [rotated, consumes 1, case_names step])
  case (step loop E S b k i n s r)
  show ?case
  proof (cases "0 \<le> n \<and> i = 0")
    case False
    with step(2) show ?thesis by (auto simp: service_loop.simps [of E S b k] split: if_split_asm)
  next
    case True
    show ?thesis
    proof (cases "run E b (sv_events S k s) s")
      case (Inl f)
      with True step(2) show ?thesis by (auto simp: service_loop.simps [of E S b k])
    next
      case (Inr s1)
      let ?i = "if sv_signal S k then frontend_inthandler i else i"
      have "loop E S b (Suc k) ?i (sv_result S k) s1 = Some r"
        using True Inr step(2) by simp
      then have "service_loop E S b (Suc k) (irq_of ?i) (sv_result S k) s1 = forget (Some r)" by (rule step.IH)
      moreover have "irq_of ?i = (if sv_signal S k then BIRQ_GLOBAL else BIRQ_NONE)"
        using True by (simp add: frontend_inthandler_def)
      ultimately show ?thesis using True Inr
        by (cases "sv_signal S k") (simp_all add: service_loop.simps [of E S b k] backend_inthandler_def)
    qed
  qed
qed

section \<open>Properties\<close>

text \<open>
  The wait loop is the service loop of \<open>backend_run\<close>, for every library and every state: it
  ends exactly when that one does, in the same state or with the same fault.
\<close>

theorem wait_is_service_loop:
  "map_option (\<lambda>r. andThen r (\<lambda>(i, s). Inr s)) (wait_loop E S b k i n s) =
   service_loop E S b k (if i = 0 then BIRQ_NONE else BIRQ_GLOBAL) n s"
proof (cases "service_loop E S b k (irq_of i) n s")
  case (Some r)
  from service_to_wait [OF this refl] Some show ?thesis by simp
next
  case None
  then have "wait_loop E S b k i n s = None" using wait_to_service [of E S b k i n s]
    by (cases "wait_loop E S b k i n s") auto
  with None show ?thesis by simp
qed

text \<open>
  Once a signal has arrived or \<open>lws_service\<close> has failed, \<open>frontend_wait\<close> returns 0, in a state the
  bridge can reach.
\<close>

theorem frontend_wait_returns:
  assumes "binv E b s I" "unat (bufsize b) + unat (e_lws_pre E) < 2 ^ 64" "lawful E S b"
    and "sv_signal S m \<or> sv_result S m < 0"
  shows "\<exists>i s'. frontend_wait E S b 0 s = Some (Inr (0, i, s')) \<and> reach E b s s'"
proof -
  have "sv_signal S (0 + m) \<or> sv_result S (0 + m) < 0" using assms(4) by simp
  from service_loop_ends [OF assms(2,3) this assms(1), of 0] obtain s' where
    s': "service_loop E S b 0 BIRQ_NONE 0 s = Some (Inr s')" "reach E b s s'" by blast
  from service_to_wait [OF s'(1), of 0] obtain r where
    r: "wait_loop E S b 0 0 0 s = Some r" "andThen r (\<lambda>(i, s). Inr s) = Inr s'" by auto
  then obtain i where "r = Inr (i, s')" by (auto simp: res_simps)
  with r s'(2) show ?thesis by (simp add: frontend_wait_def)
qed

text \<open>
  The flag is never reset: after an interrupt \<open>frontend_wait\<close> returns without serving anything.
\<close>

lemma frontend_wait_once: "i \<noteq> 0 \<Longrightarrow> frontend_wait E S b i s = Some (Inr (0, i, s))"
  by (simp add: frontend_wait_def wait_loop.simps)

end
