(* ===== verification/Spec2Isabelle.thy ===== *)
theory Spec2Isabelle
  imports Bridge_Script Bridge_Strict Dict_Table Wfedd_Serve Hash_Select Hash_Nonfatal Hash_Bloom Hash_Mur_Portable
    Utstring_Find Utlist_Nodecl Utstack Utringbuffer Utarray_Elems Mq_Test Frontend_Wait
begin

text \<open>
  A verification development for wfedd, the daemon that bridges local client sockets of other
  daemons to websockets. The C sources are under \<^verbatim>\<open>src/\<close>; file names below are relative to it.

  \<^bold>\<open>The program.\<close> \<^verbatim>\<open>main/main.c\<close> reads the arguments, builds the socket table
  (\<^verbatim>\<open>main/socklist.c\<close>: websocket name to path of a daemon socket) and calls \<open>wfedd\<close>, which makes the
  array of protocols, one per websocket name, and calls \<open>backend_run\<close> (\<^verbatim>\<open>main/backend.c\<close>). That
  function starts libwebsockets (\<open>frontend_start\<close> in \<^verbatim>\<open>main/frontend.c\<close>) and calls \<open>lws_service\<close> until a
  signal comes. All traffic is handled in two callbacks of \<^verbatim>\<open>main/frontend.c\<close>: one for the websockets,
  one for the raw sockets to the daemons, which libwebsockets calls its children. A websocket that
  is established gets a connection (\<open>conn_t\<close>): a socket to the daemon of its protocol name, and two
  message queues (\<^verbatim>\<open>main/mq.c\<close>), one per direction. What comes in on one side is put into the queue of
  the other side, which is asked for a writeable callback; that callback empties the queue. The
  connections are meant to be kept in a dictionary on top of the hash table of
  \<^verbatim>\<open>local_lib/uthash.h\<close>.

  \<^bold>\<open>The theories, and the code each models.\<close>
  \<^item> \<open>Wf_Prelude\<close>: undefined behaviour as a value (\<open>'a res\<close> is a fault or a result, \<open>andThen\<close> goes on
    with a result), C strings and byte buffers, the collections \<open>res_simps\<close> and \<open>frame_simps\<close>.
  \<^item> \<open>C_Env\<close>: the surroundings. The answers of malloc, the system calls and the calls of
    libwebsockets are the parameter \<open>env\<close>, indexed by the number of calls made so far (\<open>tick\<close>); what
    the program does to the outside is the list \<open>log\<close>.
  \<^item> \<open>Fifo\<close>, \<open>Msg_Queue\<close>: the interface of a queue in a store (locale \<open>fifo_store\<close>), and \<^verbatim>\<open>main/mq.c\<close>
    with its \<open>STAILQ\<close> links on a heap, which interprets it. \<open>Mq_Test\<close>: the test program in the same file.
  \<^item> \<open>Socklist\<close>: \<^verbatim>\<open>main/socklist.c\<close>; the sorted array refines a finite map (\<open>bridged\<close>), locale
    \<open>name_table\<close>.
  \<^item> \<open>Hash_Fun\<close>, \<open>Hash_Mur\<close>, \<open>Hash_Mur_Portable\<close>, \<open>Uthash\<close>: the hash functions and the hash table of \<^verbatim>\<open>local_lib/uthash.h\<close> with
    their pointers. \<open>Dll\<close>, \<open>Uthash_Rep\<close>, \<open>Uthash_Ops\<close>, \<open>Uthash_Map\<close>, \<open>Uthash_Props\<close>: doubly linked lists, the
    well-formed tables (\<open>ut_rep\<close>), that every macro keeps them so, the expansion of the buckets
    included, and the locale \<open>item_table\<close> with the library's own check \<open>HASH_FSCK\<close>.
  \<^item> \<open>Merge_Runs\<close>, \<open>Link_Sort\<close>: the merge sort that the list and hash table macros share, on lists and on
    links (locale \<open>link_sort\<close>, interpreted four times). \<open>Hash_Sort\<close>: \<open>HASH_SRT\<close>. \<open>Hash_Inorder\<close>: insertion in
    order, replacement, iteration, clearing and counting. \<open>Hash_Select\<close>: \<open>HASH_SELECT\<close>, with the second
    handles of the items in a heap of their own, and what it leaves behind: a table that answers every
    lookup but whose tail is wrong, so that the next insertion breaks it. \<open>Hash_Nonfatal\<close>: the insertions of
    the build that survives a failed allocation, which take back what they have done. \<open>Hash_Bloom\<close>: the Bloom
    filter, a value beside the table.
  \<^item> \<open>Conn_Dict\<close>: the \<open>dict_\<close> functions of \<^verbatim>\<open>main/backend.c\<close>. \<open>Dict_Table\<close>: their contracts on a table that
    holds connections.
  \<^item> \<open>Backend\<close>: the \<open>conn_\<close> functions of \<^verbatim>\<open>main/backend.c\<close> and \<open>frontend_createmsg\<close>. \<open>Conn_Store\<close>,
    \<open>Conn_Ops\<close>: the abstraction of all connections to two lists of byte strings each (\<open>holds\<close>), and what
    each operation does to it.
  \<^item> \<open>Frontend\<close>: the callbacks of \<^verbatim>\<open>main/frontend.c\<close>, every reason they handle. \<open>Drain\<close>: the writeable
    loop, locale \<open>consumer\<close>. \<open>Callbacks\<close>, \<open>Callback_Props\<close>: what each callback does.
  \<^item> \<open>Bridge\<close>: the running system as a step relation: an \<open>event\<close> is what libwebsockets delivers, \<open>exec\<close>
    runs the callback and lets the library react to the calls in the log, \<open>enabled\<close> is the contract of
    the library. \<open>got\<close>, \<open>sent\<close> and \<open>answers\<close> record the traffic and are not read by the code: \<open>sent\<close> is
    what was handed to \<open>write(2)\<close> or \<open>lws_write\<close>, \<open>answers\<close> what these returned, \<open>taken\<close> what a daemon socket
    took of it. \<open>Bridge_Inv\<close>: the invariant \<open>binv\<close> and its preservation by every event. \<open>Bridge_Strict\<close>: the
    strict run of an event, which takes calls into the library with a bad pointer or buffer for undefined
    behaviour as well, and the \<open>hazard\<close>s, the events that run into it. \<open>Bridge_Script\<close>: concrete runs.
  \<^item> \<open>Backend_Run\<close>: \<open>backend_run\<close>, \<open>frontend_start\<close>, \<open>frontend_stop\<close>, the service loop and the teardown.
    \<open>Cliopt\<close>, \<open>Wfedd_Main\<close>, \<open>Wfedd_Serve\<close>: \<^verbatim>\<open>main/cliopt.c\<close>, \<open>wfedd\<close>, \<open>main\<close> after the argument parser, and
    the program from its arguments to its exit code, \<open>Live_Frame\<close> for the memory it gives back.
    \<open>Frontend_Wait\<close>: \<open>frontend_wait\<close>, the second service loop, which is that of \<open>backend_run\<close>.
  \<^item> \<open>Utlist\<close>, \<open>Utlist_Rep\<close>, \<open>Utlist_LL\<close>, \<open>Utlist_DL\<close>, \<open>Utlist_CDL\<close>, \<open>Utlist_Sort\<close>: the singly linked, doubly
    linked and circular lists of \<^verbatim>\<open>local_lib/utlist.h\<close> on a heap of nodes; the locale \<open>list_macros\<close> is what all
    three promise, \<open>freeing_lists\<close> and \<open>linear_lists\<close> add the loops that delete. \<open>Utlist_Nodecl\<close>: the
    replacements for compilers without \<open>__typeof\<close>, which do the same in every history. \<open>Utstack\<close>:
    \<^verbatim>\<open>local_lib/utstack.h\<close>, a stack on the singly linked nodes.
  \<^item> \<open>Utarray\<close>, \<open>Utarray_Rep\<close>, \<open>Utringbuffer\<close>: the dynamic array of \<^verbatim>\<open>local_lib/utarray.h\<close> and the ring buffer of
    \<^verbatim>\<open>local_lib/utringbuffer.h\<close>, with the user's init, copy and destructor functions. \<open>Utarray_Elems\<close>: sorting
    and searching on \<open>qsort\<close> and \<open>bsearch\<close>, and the predefined element types with their string functions.
  \<^item> \<open>Kmp\<close>, \<open>Kmp_Rev\<close>, \<open>Utstring\<close>, \<open>Utstring_Find\<close>: the dynamic string of \<^verbatim>\<open>local_lib/utstring.h\<close> and its
    searches by Knuth, Morris and Pratt in both directions.
  \<^item> This theory: the properties of the running bridge.

  \<^bold>\<open>State.\<close> One state is threaded through all code: the record \<open>os\<close> (\<open>tick\<close>, \<open>log\<close>, \<open>live\<close>), extended by the heap
  of messages and blocks (\<open>heap\<close>), by items and tables (\<open>uheap\<close>), dictionaries and connections
  (\<open>dheap\<close>), and the session objects of libwebsockets (\<open>fheap\<close>). A pointer is an address, NULL is
  \<open>None\<close> or a constructor of its own, an absent address is freed or was never allocated. Allocation
  returns the number of the call, so no address is used twice and a use after free is a fault.
  Blocks whose contents are never shared (strings, the socket table, the protocol array) are values;
  the set \<open>live\<close> holds the addresses of those allocated, so that their frees are checked and leaks seen.
  \<open>unsigned\<close> is a 32-bit word and \<open>size_t\<close> a 64-bit word, wrapping; \<open>int\<close> values are integers. Bytes are
  options: \<open>None\<close> is an indeterminate byte. An access of the program through a bad pointer or past the
  end of a block is a fault where it happens, with one exception: what \<open>lws_write\<close> reads beyond a block is
  logged as indeterminate bytes, as bad pointers handed to libwebsockets are logged as they are, so
  that the run can be followed further; the strict run makes them faults. The backend object does not change while callbacks run and
  is a value.

  \<^bold>\<open>Loops.\<close> Loops over links take fuel. The bound is one more than \<open>tick\<close> for the chains of the hash
  table and for the queues: every node was allocated by a call of its own, so no chain is longer; the
  lemmas prove that the fuel is enough for every state that satisfies the invariant, and running out
  is the fault \<open>Diverge\<close>, which the theorems exclude. The service loop may run for ever and is
  a \<open>partial_function\<close>; \<open>backend_run_returns\<close> shows that it returns when it is told to stop.

  \<^bold>\<open>What is shown.\<close> Of the bridge: in which reachable states which event runs into undefined behaviour,
  and that no other does (\<open>bridge_faults_exactly\<close>); the queues refine one FIFO per connection and
  direction, where what has gone out is what was handed to the call that sends it, whatever that
  returned; no wake-up is lost; a writeable callback hands on everything that waits, and the daemon
  has got everything exactly if no \<open>write(2)\<close> fell short; each session leads to the daemon of its name,
  sessions do not mix, and where every pointer of the bridge leads, with \<open>pss->lwsi\<close> as the one that
  dangles; no message is lost on the heap. At the end of the process the strings of the socket table
  and all connections, dictionary items and queued messages are still allocated. Of the components: the queue, the socket table, the hash
  table, the lists, the array, the ring buffer, the stack and the string refine their abstract data
  types; sorting is the stable sort, and a search finds the first or the last occurrence; the connection and callback
  functions are described on every branch, errors included. Where the code does not do what it means
  to, the theorem states what it does: \<open>dict_new\<close> never adds its item to the table, so that no
  connection is found, freed or closed again; the port option is refused unless it is negative; with
  \<^verbatim>\<open>--tls\<close> nothing is served; every frame carries \<open>LWS_PRE\<close> bytes too many; a failed \<open>lws_write\<close> is
  not noticed; a websocket keeps a pointer to a child that is gone; the strings of the socket table
  are never freed; \<open>HASH_SELECT\<close> leaves a table that the next insertion breaks; the portable \<open>HASH_MUR\<close>
  hashes an unaligned key by what stands behind it; the test program of the queue leaks every message.

  \<^bold>\<open>Not modelled.\<close> The conversions of lengths and indices of the socket table, and of the result of
  \<open>read(2)\<close>, to \<open>int\<close>, which matter from 2^31 on: they are natural numbers here. Printing and \<^verbatim>\<open>include/debug.h\<close>. The parsing of arguments (argtable3): its outcome is
  the record \<open>args\<close>. libwebsockets: its calls are answered by \<open>env\<close>, its deliveries are the events; its
  list of live sessions is only logged. Of \<^verbatim>\<open>local_lib/uthash.h\<close>: the wrappers for string and pointer
  keys, the deletions and \<open>HASH_SELECT\<close> of the builds with a Bloom filter or without fatal failures, and
  \<open>HASH_MUR\<close> on big-endian machines. Of \<^verbatim>\<open>uthash.h\<close> and \<^verbatim>\<open>utlist.h\<close>: the sorting macros as a compiler
  without \<open>__typeof\<close> expands them. The containers are headers that the program carries along and, but
  for the hash table, does not include; their macros are modelled as they stand.
\<close>

section \<open>Reachable bridges\<close>

lemma reach_inv:
  assumes "unat (bufsize b) + unat (e_lws_pre E) < 2 ^ 64" "fresh_bridge b s0" "reach E b s0 s"
  obtains I where "binv E b s I"
  using reach_binv [OF assms(3) fresh_bridge_binv [OF assms(2)] assms(1)] by blast

lemma served_hasmsg:
  assumes "served b s I" "conns s c = Some cn"
  shows "conn_hasmsg_forweb (Some c) s = Inr (I (c, Web) \<noteq> [])"
    "conn_hasmsg_forlocal (Some c) s = Inr (I (c, Local) \<noteq> [])"
  using assms(1)
  by (auto elim!: servedE simp: conn_hasmsg_forweb_def conn_hasmsg_forlocal_def
      conn_nonempty_holds [OF _ assms(2)])

lemma fr_local: "fr E Local = (\<lambda>xs. xs)"
  by (simp add: fr_def fun_eq_iff)

lemma live_session:
  assumes "binv E b s I" "open_ws s w = Some (p, v)"
  obtains c cn where "conn_of s p = Some c" "conns (core s) c = Some cn"
  using sessionsD [OF binvD(3) [OF assms(1)] assms(2)] by blast

lemma live_child:
  assumes "binv E b s I" "raws s r = Some (oc, w)"
  obtains c cn p v x where "oc = Some c" "open_ws s w = Some (p, v)" "psss (core s) p = Some x"
    "conn_of s p = Some c" "lwsi x = Some r" "conns (core s) c = Some cn"
proof -
  from childrenD [OF binvD(4) [OF assms(1)] assms(2)] obtain p v x c where
    c: "oc = Some c" "open_ws s w = Some (p, v)" "psss (core s) p = Some x" "lwsi x = Some r"
      "conn_of s p = Some c" by metis
  from live_session [OF assms(1) c(2)] c that show ?thesis by (metis option.inject)
qed

lemma one_child:
  assumes "binv E b s I" "raws s r = Some (oc, w)" "raws s r' = Some (oc', w)"
  shows "r = r'"
proof -
  from live_child [OF assms(1,2)] obtain p v x where
    x: "open_ws s w = Some (p, v)" "psss (core s) p = Some x" "lwsi x = Some r" .
  from live_child [OF assms(1,3)] obtain p' v' x' where
    "open_ws s w = Some (p', v')" "psss (core s) p' = Some x'" "lwsi x' = Some r'" .
  with x show ?thesis by simp
qed

section \<open>The running bridge\<close>

lemma reach_strict:
  assumes "unat (bufsize b) + unat (e_lws_pre E) < 2 ^ 64" "fresh_bridge b s0" "reach E b s0 s" "deliverable E s e"
  shows "case hazard E b s e of None \<Rightarrow> \<exists>s'. exec_strict E b e s = Inr s' \<and> exec E b e s = Inr s'
    | Some f \<Rightarrow> exec_strict E b e s = Inl f"
proof -
  from reach_inv [OF assms(1-3)] obtain I where "binv E b s I" .
  from strict_exact [OF this reach_clean [OF assms(3) fresh_bridge_clean [OF assms(2)]] assms(1,4)]
  show ?thesis .
qed

text \<open>
  C2: exactly where the callbacks run into undefined behaviour. Take any state that can be reached
  (the bad calls made on the way counted as without effect), and any event that the library may
  deliver in it. The callback's own accesses to memory, and its calls into libwebsockets, are
  without fault in all cases but five, and in these five there is a fault, of the kind named:
  \<^item> the initialisation of a protocol without memory writes through NULL;
  \<^item> establishing a websocket whose connection could be opened, but whose socket the library could
    not adopt, hands NULL to \<open>lws_set_opaque_user_data\<close>;
  \<^item> a message from a websocket asks for a callback of the session's child: of NULL, when it was
    not adopted,
  \<^item> and of a dangling pointer, when the child is not a live child of the websocket any more;
  \<^item> a writeable websocket with a message waiting, not congested, with \<open>LWS_PRE\<close> not zero: the frame
    is read beyond the end of its block.
  In particular no event on the raw socket of a daemon and no closing of a websocket ever faults.
\<close>

theorem bridge_faults_exactly:
  assumes "unat (bufsize b) + unat (e_lws_pre E) < 2 ^ 64" "fresh_bridge b s0"
    and "reach E b s0 s" "deliverable E s e"
  shows "(hazard E b s e = None \<longrightarrow> (\<exists>s'. exec_strict E b e s = Inr s' \<and> exec E b e s = Inr s')) \<and>
    (\<forall>f. hazard E b s e = Some f \<longrightarrow> exec_strict E b e s = Inl f)"
  using reach_strict [OF assms] by (auto split: option.split_asm)

theorem bridge_faults_exactly_witness:
  "(\<exists>s'. exec_strict demo_env demo_backend (Raw_writeable 8) told_bridge = Inr s') \<and>
   exec_strict demo_env demo_backend (Ws_writeable 1) fed_bridge = Inl OutOfBounds"
proof -
  have "deliverable demo_env told_bridge (Raw_writeable 8)" "deliverable demo_env fed_bridge (Ws_writeable 1)"
    using told_bridge_sel(2,6) fed_bridge_sel(1,4,5) by (simp_all add: deliverable_def)
  moreover have "hazard demo_env demo_backend told_bridge (Raw_writeable 8) = None"
    "hazard demo_env demo_backend fed_bridge (Ws_writeable 1) = Some OutOfBounds"
    using fed_bridge_sel(1,2,6) by (simp_all add: demo_env_def)
  ultimately show ?thesis
    using bridge_faults_exactly [OF demo_fits new_bridge_fresh demo_reach(2), of "Raw_writeable 8"]
      bridge_faults_exactly [OF demo_fits new_bridge_fresh demo_reach(3), of "Ws_writeable 1"] by metis
qed
text \<open>
  C1: in every reachable state and for every connection and direction, the payloads that came in
  are, in order, those that have gone out followed by those that are queued, up to payloads dropped
  for want of memory; with memory none is dropped. Gone out means handed to \<open>write(2)\<close> or \<open>lws_write\<close>,
  whatever the call returned. Towards the web a payload is queued behind \<open>LWS_PRE\<close> bytes of room and
  goes out followed by \<open>LWS_PRE\<close> indeterminate bytes.
\<close>

theorem bridge_conveys:
  assumes "unat (bufsize b) + unat (e_lws_pre E) < 2 ^ 64" "fresh_bridge b s0" "reach E b s0 s"
  shows "\<exists>I. served b (core s) I \<and> (\<forall>c d. \<exists>ys zs.
    sent s (c, d) = map (\<lambda>xs. xs @ (if d = Web then replicate (unat (e_lws_pre E)) None else [])) ys \<and>
    I (c, d) = map (\<lambda>xs. (if d = Web then replicate (unat (e_lws_pre E)) None else []) @ xs) zs \<and>
    subseq (ys @ zs) (got s (c, d)) \<and> ((\<forall>n. e_malloc E n) \<longrightarrow> ys @ zs = got s (c, d)))"
proof -
  from reach_inv [OF assms] obtain I where I: "binv E b s I" .
  have fr: "fr E d = (\<lambda>xs. xs @ (if d = Web then replicate (unat (e_lws_pre E)) None else []))"
    and blk: "blk E d = (\<lambda>xs. (if d = Web then replicate (unat (e_lws_pre E)) None else []) @ xs)" for d
    by (cases d; simp add: fr_def blk_def web_block_def fun_eq_iff)+
  show ?thesis
    using binvD(1,2) [OF I] unfolding conveyed_def fr blk by blast
qed

theorem bridge_conveys_witness:
  "\<exists>I. served demo_backend (core told_bridge) I \<and> (\<exists>ys. sent told_bridge (6, Local) = ys \<and>
     ys @ I (6, Local) = [[Some 7]])"
proof -
  have mem: "\<forall>n. e_malloc demo_env n" by (simp add: demo_env_def)
  from bridge_conveys [OF demo_fits new_bridge_fresh demo_reach(2)] obtain I where
    "served demo_backend (core told_bridge) I" and all: "\<forall>c d. \<exists>ys zs. sent told_bridge (c, d) =
      map (\<lambda>xs. xs @ (if d = Web then replicate (unat (e_lws_pre demo_env)) None else [])) ys \<and>
      I (c, d) = map (\<lambda>xs. (if d = Web then replicate (unat (e_lws_pre demo_env)) None else []) @ xs) zs \<and>
      subseq (ys @ zs) (got told_bridge (c, d)) \<and>
      ((\<forall>n. e_malloc demo_env n) \<longrightarrow> ys @ zs = got told_bridge (c, d))" by blast
  have nil: "map ((@) []) zs = zs" for zs :: "bytes list" by (induction zs) auto
  from all [rule_format, of 6 Local] mem told_bridge_sel(4) nil
  have "sent told_bridge (6, Local) @ I (6, Local) = [[Some 7]]" by auto
  with \<open>served _ _ I\<close> show ?thesis by blast
qed

text \<open>
  C3: no wake-up is lost: in every reachable state a websocket for which a message is waiting, and
  a raw child for which one is waiting, has a writeable callback pending.
\<close>

theorem bridge_wakeup:
  assumes "unat (bufsize b) + unat (e_lws_pre E) < 2 ^ 64" "fresh_bridge b s0" "reach E b s0 s"
  shows "(\<forall>w p v. open_ws s w = Some (p, v) \<longrightarrow>
      conn_hasmsg_forweb (conn_of s p) (core s) \<noteq> Inr False \<longrightarrow> Some w \<in> wants s) \<and>
    (\<forall>r c w. raws s r = Some (c, w) \<longrightarrow>
      conn_hasmsg_forlocal c (core s) \<noteq> Inr False \<longrightarrow> Some r \<in> wants s)"
proof -
  from reach_inv [OF assms] obtain I where I: "binv E b s I" .
  note has = served_hasmsg [OF binvD(1) [OF I]]
  show ?thesis
  proof (intro conjI allI impI)
    fix w p v assume w: "open_ws s w = Some (p, v)" "conn_hasmsg_forweb (conn_of s p) (core s) \<noteq> Inr False"
    from live_session [OF I w(1)] obtain c cn where c: "conn_of s p = Some c" "conns (core s) c = Some cn" .
    with w(2) has have "I (c, Web) \<noteq> []" by auto
    with awake_web [OF binvD(6) [OF I] w(1) c(1)] show "Some w \<in> wants s" .
  next
    fix r oc w assume r: "raws s r = Some (oc, w)" "conn_hasmsg_forlocal oc (core s) \<noteq> Inr False"
    from live_child [OF I r(1)] obtain c cn where c: "oc = Some c" "conns (core s) c = Some cn" by metis
    with r(2) has have "I (c, Local) \<noteq> []" by auto
    with awake_local [OF binvD(6) [OF I]] r(1) c(1) show "Some r \<in> wants s" by blast
  qed
qed

theorem bridge_wakeup_witness:
  "conn_hasmsg_forlocal (Some 6) (core told_bridge) = Inr True \<and> Some 8 \<in> wants told_bridge"
  using bridge_wakeup [OF demo_fits new_bridge_fresh demo_reach(2)] told_bridge_sel(2,5) by fastforce

lemma reach_answers:
  assumes "fresh_bridge b s0" "reach E b s0 s"
  shows "length (answers s z) = length (sent s z)"
proof -
  have "counted s0" using assms(1) by (simp add: fresh_bridge_def counted_def)
  from reach_counted [OF assms(2) this] show ?thesis unfolding counted_def by blast
qed

text \<open>
  C4: with memory, the next writeable callback of a raw child hands everything its websocket has sent
  so far to \<open>write(2)\<close>, in order, one call for each message; nothing is left waiting. What the daemon
  socket has taken of it by then (\<open>taken\<close>) is of each message as much as \<open>write\<close> said, and it is
  everything, byte for byte, exactly when no call of \<open>write\<close> for this connection fell short of its
  message: what a call did not take is not written again.
\<close>

theorem bridge_delivers_local:
  assumes "unat (bufsize b) + unat (e_lws_pre E) < 2 ^ 64" "fresh_bridge b s0" "reach E b s0 s"
    and "raws s r = Some (Some c, w)" "\<forall>n. e_malloc E n"
  shows "\<exists>s'. exec E b (Raw_writeable r) s = Inr s' \<and> sent s' (c, Local) = got s (c, Local) \<and>
    got s' = got s \<and> conn_hasmsg_forlocal (Some c) (core s') = Inr False \<and>
    length (answers s' (c, Local)) = length (got s (c, Local)) \<and>
    taken s' c = concat (map2 (\<lambda>bs rc. take (nat rc) bs) (got s (c, Local)) (answers s' (c, Local))) \<and>
    (taken s' c = concat (got s (c, Local)) \<longleftrightarrow>
      list_all2 (\<lambda>bs rc. length bs \<le> nat rc) (got s (c, Local)) (answers s' (c, Local)))"
proof -
  from reach_inv [OF assms(1-3)] obtain I where I: "binv E b s I" .
  from exec_raw_writeable [OF I assms(4)] obtain s' where s': "exec E b (Raw_writeable r) s = Inr s'"
    "binv E b s' (I((c, Local) := []))" "got s' = got s" "dom (conns (core s)) \<subseteq> dom (conns (core s'))" by blast
  from live_child [OF I assms(4)] s'(4) obtain cn where "conns (core s') c = Some cn" by blast
  from served_hasmsg(2) [OF binvD(1) [OF s'(2)] this]
  have "conn_hasmsg_forlocal (Some c) (core s') = Inr False" by simp
  moreover from binvD(2) [OF s'(2), of Local c] have sent: "sent s' (c, Local) = got s' (c, Local)"
    using assms(5) by (auto simp: conveyed_def fr_local)
  moreover have len: "length (answers s' (c, Local)) = length (got s (c, Local))"
    using exec_counted [OF s'(1)] reach_answers [OF assms(2,3)] sent s'(3) by (simp add: counted_def)
  ultimately show ?thesis
    using s'(1,3) concat_take_all [OF len [symmetric]] by (auto simp: taken_def)
qed

theorem bridge_delivers_local_witness:
  "\<exists>s'. exec demo_env demo_backend (Raw_writeable 8) told_bridge = Inr s' \<and> sent s' (6, Local) = [[Some 7]] \<and>
     length (answers s' (6, Local)) = 1"
proof -
  have "\<forall>n. e_malloc demo_env n" by (simp add: demo_env_def)
  from bridge_delivers_local [OF demo_fits new_bridge_fresh demo_reach(2) told_bridge_sel(2) this]
  show ?thesis by (auto simp: told_bridge_sel)
qed

text \<open>
  C5: with memory and a websocket that is never congested, its next writeable callback leaves nothing
  waiting: everything its daemon has sent so far has then been handed to \<open>lws_write\<close>, in order, one
  frame for each read of the daemon socket. Every frame carries \<open>LWS_PRE\<close> bytes too many. What
  \<open>lws_write\<close> does with a frame and what it returns is left open.
\<close>

theorem bridge_delivers_web:
  assumes "unat (bufsize b) + unat (e_lws_pre E) < 2 ^ 64" "fresh_bridge b s0" "reach E b s0 s"
    and "open_ws s w = Some (p, v)" "conn_of s p = Some c" "\<forall>n. e_malloc E n"
    and "\<forall>n. \<not> e_partial E n \<and> \<not> e_choked E n"
  shows "\<exists>s'. exec E b (Ws_writeable w) s = Inr s' \<and> got s' = got s \<and>
    sent s' (c, Web) = map (\<lambda>xs. xs @ replicate (unat (e_lws_pre E)) None) (got s (c, Web)) \<and>
    conn_hasmsg_forweb (Some c) (core s') = Inr False"
proof -
  from reach_inv [OF assms(1-3)] obtain I where I: "binv E b s I" .
  from exec_ws_writeable [OF I assms(4)] assms(5,7) obtain s' where s': "exec E b (Ws_writeable w) s = Inr s'"
    "binv E b s' (I((c, Web) := []))" "got s' = got s" "dom (conns (core s)) \<subseteq> dom (conns (core s'))"
    by (metis option.inject)
  from live_session [OF I assms(4)] assms(5) s'(4) obtain cn where "conns (core s') c = Some cn" by auto
  from served_hasmsg(1) [OF binvD(1) [OF s'(2)] this]
  have "conn_hasmsg_forweb (Some c) (core s') = Inr False" by simp
  moreover from binvD(2) [OF s'(2), of Web c] have "sent s' (c, Web) = map (fr E Web) (got s' (c, Web))"
    using assms(6) by (auto simp: conveyed_def)
  ultimately show ?thesis using s' by (auto simp: fr_def)
qed

theorem bridge_delivers_web_witness:
  "\<exists>s'. exec demo_env demo_backend (Ws_writeable 1) fed_bridge = Inr s' \<and>
     sent s' (6, Web) = [[Some 104, Some 105] @ replicate 16 None]"
proof -
  have "\<forall>n. e_malloc demo_env n" "\<forall>n. \<not> e_partial demo_env n \<and> \<not> e_choked demo_env n"
    "unat (e_lws_pre demo_env) = 16" by (simp_all add: demo_env_def)
  with bridge_delivers_web [OF demo_fits new_bridge_fresh demo_reach(3) fed_bridge_sel(1,2)]
  show ?thesis by (auto simp: fed_bridge_sel)
qed

text \<open>
  C6: every session is bridged to the right daemon: in every reachable state the connection of an
  established websocket points to a slot of the socket table whose path is the one that the table
  bridges the websocket's protocol name to. Whether \<open>connect(2)\<close> to that path succeeded is not said.
\<close>

theorem bridge_routes:
  assumes "unat (bufsize b) + unat (e_lws_pre E) < 2 ^ 64" "fresh_bridge b s0" "reach E b s0 s"
    and "open_ws s w = Some (p, v)"
  shows "\<exists>l x nm c cn i path. socklist b = Some l \<and> vhds (core s) v = Some x \<and> protocol x = Some nm \<and>
    conn_of s p = Some c \<and> conns (core s) c = Some cn \<and> sock_handle cn = Some i \<and>
    slot_path l i = Some path \<and> bridged l nm = Some path"
proof -
  from reach_inv [OF assms(1-3)] obtain I where I: "binv E b s I" .
  from live_session [OF I assms(4)] obtain c where c: "conn_of s p = Some c" by blast
  with binvD(7) [OF I] assms(4) have "bound b (core s) v c" unfolding routed_def by blast
  with c show ?thesis unfolding bound_def by blast
qed

theorem bridge_routes_witness:
  "\<exists>x nm cn i path. vhds (core open_bridge) 2 = Some x \<and> protocol x = Some nm \<and>
     conns (core open_bridge) 6 = Some cn \<and> sock_handle cn = Some i \<and>
     slot_path demo_list i = Some path \<and> bridged demo_list nm = Some path"
  using bridge_routes [OF demo_fits new_bridge_fresh demo_reach(1) open_bridge_sel(1)]
  by (auto simp: open_bridge_sel demo_backend_def)

text \<open>
  C10: sessions are kept apart: in every reachable state two established websockets never share a
  connection, and a raw child serves exactly the connection of the websocket it belongs to.
\<close>

theorem bridge_sessions_apart:
  assumes "unat (bufsize b) + unat (e_lws_pre E) < 2 ^ 64" "fresh_bridge b s0" "reach E b s0 s"
  shows "(\<forall>w w' p p' v v'. open_ws s w = Some (p, v) \<longrightarrow> open_ws s w' = Some (p', v') \<longrightarrow>
      conn_of s p = conn_of s p' \<longrightarrow> w = w') \<and>
    (\<forall>r c w. raws s r = Some (c, w) \<longrightarrow>
      (\<exists>p v. open_ws s w = Some (p, v) \<and> c = conn_of s p \<and> c \<noteq> None))"
proof -
  from reach_inv [OF assms] obtain I where I: "binv E b s I" .
  show ?thesis
  proof (intro conjI allI impI)
    show "w = w'" if "open_ws s w = Some (p, v)" "open_ws s w' = Some (p', v')" "conn_of s p = conn_of s p'"
      for w w' p p' v v'
      by (rule sessions_inj [OF binvD(3) [OF I] that])
    show "\<exists>p v. open_ws s w = Some (p, v) \<and> c = conn_of s p \<and> c \<noteq> None" if "raws s r = Some (c, w)" for r c w
      using live_child [OF I that] by (metis option.discI)
  qed
qed

theorem bridge_sessions_apart_witness:
  "\<exists>p v. open_ws open_bridge 1 = Some (p, v) \<and> Some 6 = conn_of open_bridge p"
  using bridge_sessions_apart [OF demo_fits new_bridge_fresh demo_reach(1)] open_bridge_sel(2) by blast

text \<open>
  C7: where the pointers of the bridge lead, in every reachable state. The user data of an
  established websocket is an allocated session, whose connection is allocated and whose virtual host
  object is initialised; the opaque data of a raw child is the connection of its websocket, which is
  open, and the session of that websocket points back to the child, so that a websocket has at most
  one; a connection points to a slot of the socket table; the read buffer of the backend is allocated
  and as long as it says, and its dictionary is allocated and has no table. The queues of a connection
  are well-formed lists that share no message, every allocated message is in one of them, and its data
  block is allocated and as long as its size says. One pointer is not in this list: the \<open>lwsi\<close> of a
  session is the child only as long as the child lives; when the child has been closed it dangles,
  and it is NULL when no child was adopted.
\<close>

theorem bridge_well_typed:
  assumes "unat (bufsize b) + unat (e_lws_pre E) < 2 ^ 64" "fresh_bridge b s0" "reach E b s0 s"
  shows "(\<forall>w p v. open_ws s w = Some (p, v) \<longrightarrow> (\<exists>x c. psss (core s) p = Some x \<and> conn_handle x = Some c \<and>
      c \<in> dom (conns (core s)) \<and> v \<in> dom (vhds (core s)))) \<and>
    (\<forall>v y. vhds (core s) v = Some y \<longrightarrow> protocol y \<noteq> None) \<and>
    (\<forall>r r' oc oc' w. raws s r = Some (oc, w) \<longrightarrow> raws s r' = Some (oc', w) \<longrightarrow> r = r') \<and>
    (\<exists>a bs h d. buf b = Some a \<and> blocks (core s) a = Some bs \<and> length bs = unat (bufsize b) \<and>
      filedict b = Some h \<and> dicts (core s) h = Some d \<and> d_base d = None) \<and>
    (\<forall>r oc w. raws s r = Some (oc, w) \<longrightarrow> (\<exists>p v x c. oc = Some c \<and> open_ws s w = Some (p, v) \<and>
      psss (core s) p = Some x \<and> conn_handle x = Some c \<and> lwsi x = Some r)) \<and>
    (\<forall>c cn. conns (core s) c = Some cn \<longrightarrow>
      (\<exists>l i. socklist b = Some l \<and> sock_handle cn = Some i \<and> slot_path l i \<noteq> None)) \<and>
    (\<exists>Q. (\<forall>c cn d. conns (core s) c = Some cn \<longrightarrow> mq_rep (core s) (cq d cn) (Q (c, d))) \<and>
      (\<forall>x y. x \<noteq> y \<longrightarrow> set (Q x) \<inter> set (Q y) = {}) \<and> dom (msgs (core s)) = (\<Union>x. set (Q x)) \<and>
      (\<forall>a m. msgs (core s) a = Some m \<longrightarrow>
        (\<exists>bs. blocks (core s) (m_data m) = Some bs \<and> length bs = unat (m_size m))))"
proof -
  from reach_inv [OF assms] obtain I where I: "binv E b s I" .
  from binvD(1) [OF I] obtain l a h where l: "socklist b = Some l" "linked l (core s)"
    "holds (core s) [a \<mapsto> unat (bufsize b)] I" "buf b = Some a" "filedict b = Some h" "no_table h (core s)"
    by (rule servedE)
  from l(3) obtain Q where qs: "qs (core s) [a \<mapsto> unat (bufsize b)] Q {}" by (rule holdsE)
  note q = qsD [OF qs]
  have sess: "\<exists>x c. psss (core s) p = Some x \<and> conn_handle x = Some c \<and> c \<in> dom (conns (core s)) \<and> v \<in> dom (vhds (core s))"
    if "open_ws s w = Some (p, v)" for w p v
    using sessions_ex [OF binvD(3) [OF I] that] by blast
  have vh: "protocol y \<noteq> None" if "vhds (core s) v = Some y" for v y
    using binvD(5) [OF I] that unfolding vhosts_def by blast
  have one: "r = r'" if "raws s r = Some (oc, w)" "raws s r' = Some (oc', w)" for r r' oc oc' w
    by (rule one_child [OF I that])
  from q(2) [of a] obtain bs where "blocks (core s) a = Some bs" "length bs = unat (bufsize b)" by auto
  with l(4-6) have bk: "\<exists>a bs h d. buf b = Some a \<and> blocks (core s) a = Some bs \<and> length bs = unat (bufsize b) \<and>
      filedict b = Some h \<and> dicts (core s) h = Some d \<and> d_base d = None" by (auto elim!: no_tableE)
  have ch: "\<exists>p v x c. oc = Some c \<and> open_ws s w = Some (p, v) \<and> psss (core s) p = Some x \<and>
      conn_handle x = Some c \<and> lwsi x = Some r" if "raws s r = Some (oc, w)" for r oc w
    using childrenD [OF binvD(4) [OF I] that] by metis
  have sl: "\<exists>l i. socklist b = Some l \<and> sock_handle cn = Some i \<and> slot_path l i \<noteq> None"
    if "conns (core s) c = Some cn" for c cn using l(1,2) that unfolding linked_def by blast
  have qu: "\<exists>Q. (\<forall>c cn d. conns (core s) c = Some cn \<longrightarrow> mq_rep (core s) (cq d cn) (Q (c, d))) \<and>
      (\<forall>x y. x \<noteq> y \<longrightarrow> set (Q x) \<inter> set (Q y) = {}) \<and> dom (msgs (core s)) = (\<Union>x. set (Q x)) \<and>
      (\<forall>a m. msgs (core s) a = Some m \<longrightarrow>
        (\<exists>bs. blocks (core s) (m_data m) = Some bs \<and> length bs = unat (m_size m)))"
    using q(5,7,9) heap_wfD(2) [OF q(1)] by (intro exI [of _ Q]) auto
  show ?thesis by (intro conjI allI impI; fact sess vh one bk ch sl qu)
qed

theorem bridge_well_typed_witness:
  "\<exists>x. psss (core told_bridge) 50 = Some x \<and> conn_handle x = Some 6 \<and> lwsi x = Some 8"
  using bridge_well_typed [OF demo_fits new_bridge_fresh demo_reach(2)] told_bridge_sel(1,2) by fastforce

text \<open>
  No event ever frees a connection: in every reachable state, whatever is delivered, every
  connection that was allocated still is.
\<close>

theorem bridge_never_frees:
  assumes "unat (bufsize b) + unat (e_lws_pre E) < 2 ^ 64" "fresh_bridge b s0" "reach E b s0 s"
    and "bstep E b s e s'" "conns (core s) c \<noteq> None"
  shows "conns (core s') c \<noteq> None"
proof -
  from reach_inv [OF assms(1-3)] obtain I where I: "binv E b s I" .
  from bstep_binv [OF assms(4) I assms(1)] assms(5) show ?thesis by blast
qed

theorem bridge_never_frees_witness:
  "\<exists>s'. bstep demo_env demo_backend open_bridge (Raw_close 8) s' \<and> conns (core s') 6 \<noteq> None"
proof -
  have "script demo_env demo_backend [Raw_close 8] open_bridge \<noteq> None" by code_simp
  then obtain s' where s': "bstep demo_env demo_backend open_bridge (Raw_close 8) s'" using script_step by blast
  have "conns (core open_bridge) 6 \<noteq> None" by code_simp
  from bridge_never_frees [OF demo_fits new_bridge_fresh demo_reach(1) s' this] s' show ?thesis by blast
qed

text \<open>
  C37: after the daemon has closed its end, the session still points to the child that is gone:
  the next message from the websocket is queued, and the callback asks for a writeable callback of
  the freed child, which the strict run counts as the use of a dangling pointer.
\<close>

theorem bridge_stale_child:
  assumes "unat (bufsize b) + unat (e_lws_pre E) < 2 ^ 64" "fresh_bridge b s0" "reach E b s0 s"
    and "raws s r = Some (c, w)" "w \<notin> doomed s" "length xs < 2 ^ 64"
  shows "\<exists>s1 s2. exec E b (Raw_close r) s = Inr s1 \<and> enabled E s1 (Receive w xs) \<and>
    exec E b (Receive w xs) s1 = Inr s2 \<and> raws s2 r = None \<and> Some r \<in> wants s2 \<and>
    exec_strict E b (Receive w xs) s1 = Inl DanglingDeref"
proof -
  from reach_inv [OF assms(1-3)] obtain I where I: "binv E b s I" .
  from live_child [OF I assms(4)] obtain p v x where
    p: "open_ws s w = Some (p, v)" "psss (core s) p = Some x" "lwsi x = Some r" by metis
  from exec_raw_close [OF I, of r] assms(4) obtain s1 I1 where
    s1: "exec E b (Raw_close r) s = Inr s1" "binv E b s1 I1" "raws s1 = (raws s)(r := None)"
      "open_ws s1 = open_ws s" "doomed s1 = doomed s" "psss (core s1) = psss (core s)" by auto
  have en: "enabled E s1 (Receive w xs)" using p(1) s1(4,5) assms(5,6) by simp
  from exec_receive [OF s1(2) en] obtain s2 where s2: "exec E b (Receive w xs) s1 = Inr s2" "raws s2 = raws s1"
    and "\<forall>p v x. open_ws s1 w = Some (p, v) \<longrightarrow> psss (core s1) p = Some x \<longrightarrow>
      lwsi x \<in> wants s2 \<and> calls s1 (core s2) = [LwsWritable (lwsi x)]" by blast
  with s1(4,6) p have cs: "Some r \<in> wants s2" "calls s1 (core s2) = [LwsWritable (Some r)]" by simp_all
  have "r \<noteq> w" using children_apart [OF binvD(4) [OF I] assms(4)] p(1) by auto
  with s1(3) s2 cs(2) have "exec_strict E b (Receive w xs) s1 = Inl DanglingDeref" by (simp add: exec_strict_def)
  with s1(1,3) en s2 cs(1) show ?thesis by simp
qed

theorem bridge_stale_child_witness:
  "\<exists>s1 s2. exec demo_env demo_backend (Raw_close 8) open_bridge = Inr s1 \<and>
     exec demo_env demo_backend (Receive 1 [Some 9]) s1 = Inr s2 \<and> raws s2 8 = None \<and> Some 8 \<in> wants s2"
  using bridge_stale_child [OF demo_fits new_bridge_fresh demo_reach(1) open_bridge_sel(2,4), of "[Some 9]"]
  by auto

end
